(* ===== verification/Prelude.thy ===== *)
theory Prelude
  imports Main "HOL-Library.Word" "HOL-Library.AList" "HOL-Library.Multiset"
begin

text \<open>
  What every component of the agent's model shares: the machine integers by
  their Rust names, times as natural numbers of nanoseconds, Rust's hash maps
  as association lists with distinct keys (the order of the list is one of the
  iteration orders a hash map may have, no theorem rests on which one), and
  generic lemmas on lists, maps and words.
\<close>

section \<open>Machine integers and times\<close>

type_synonym u8 = "8 word"
type_synonym u16 = "16 word"
type_synonym u32 = "32 word"
type_synonym u64 = "64 word"

text \<open>A signed 32-bit integer; compared with literals only, so its bits are enough.\<close>
type_synonym i32 = "32 word"

text \<open>A double is only ever carried, never computed with: its bits.\<close>
type_synonym f64 = "64 word"

text \<open>Rust's \<^verbatim>\<open>Duration\<close> and \<^verbatim>\<open>Instant\<close> in whole nanoseconds.\<close>
type_synonym duration = nat
type_synonym instant = nat

abbreviation millis :: "nat \<Rightarrow> duration" where
  "millis n \<equiv> n * 1000000"

abbreviation secs :: "nat \<Rightarrow> duration" where
  "secs n \<equiv> n * 1000000000"

section \<open>Rust's saturating operations\<close>

definition sat_sub :: "'a::len word \<Rightarrow> 'a word \<Rightarrow> 'a word" where
  "sat_sub a b = (if b \<le> a then a - b else 0)"

definition sat_add :: "'a::len word \<Rightarrow> 'a word \<Rightarrow> 'a word" where
  "sat_add a b = (if unat a + unat b < 2 ^ LENGTH('a) then a + b else - 1)"

lemma sat_sub_le: "sat_sub a b \<le> a"
  by (simp add: sat_sub_def word_sub_le)

lemma unat_sat_sub: "unat (sat_sub a b) = unat a - unat b"
  by (auto simp: sat_sub_def unat_sub word_le_nat_alt)

lemma sat_add_ge: "a \<le> sat_add a b"
proof (cases "unat a + unat b < 2 ^ LENGTH('a)")
  case True
  then show ?thesis by (simp add: sat_add_def word_le_nat_alt unat_add_lem)
next
  case False
  then show ?thesis by (simp add: sat_add_def)
qed

section \<open>Conversions\<close>

lemma unat_ucast_le: "unat (ucast w :: 'b::len word) \<le> unat (w :: 'a::len word)"
  by (simp add: unsigned_ucast_eq take_bit_nat_less_eq_self)

lemma unat_ucast_up:
  "LENGTH('a) \<le> LENGTH('b) \<Longrightarrow> unat (ucast w :: 'b::len word) = unat (w :: 'a::len word)"
proof -
  assume "LENGTH('a) \<le> LENGTH('b)"
  then have "(2 :: nat) ^ LENGTH('a) \<le> 2 ^ LENGTH('b)" by (simp add: power_increasing)
  with unsigned_less [of w] have "unat w < 2 ^ LENGTH('b)" by (rule less_le_trans)
  then show ?thesis by (simp add: unsigned_ucast_eq take_bit_nat_eq_self_iff)
qed

section \<open>Hash maps as association lists\<close>

type_synonym ('k, 'v) hashmap = "('k \<times> 'v) list"

abbreviation hm_get :: "('k, 'v) hashmap \<Rightarrow> 'k \<Rightarrow> 'v option" where
  "hm_get m \<equiv> map_of m"

abbreviation hm_put :: "'k \<Rightarrow> 'v \<Rightarrow> ('k, 'v) hashmap \<Rightarrow> ('k, 'v) hashmap" where
  "hm_put \<equiv> AList.update"

abbreviation hm_del :: "'k \<Rightarrow> ('k, 'v) hashmap \<Rightarrow> ('k, 'v) hashmap" where
  "hm_del \<equiv> AList.delete"

definition hm_ok :: "('k, 'v) hashmap \<Rightarrow> bool" where
  "hm_ok m = distinct (map fst m)"

abbreviation hm_keys :: "('k, 'v) hashmap \<Rightarrow> 'k set" where
  "hm_keys m \<equiv> fst ` set m"

text \<open>The collection of rewrites about hash maps.\<close>
named_theorems hm

lemma hm_get_put [hm]: "hm_get (hm_put k v m) = (hm_get m)(k \<mapsto> v)"
  by (rule ext) (simp add: update_conv')

lemma hm_get_del [hm]: "hm_get (hm_del k m) = (hm_get m)(k := None)"
  by (rule ext) (simp add: delete_conv')

lemma hm_ok_Nil [simp]: "hm_ok []"
  by (simp add: hm_ok_def)

lemma hm_ok_Cons [simp]: "hm_ok ((k, v) # m) \<longleftrightarrow> k \<notin> hm_keys m \<and> hm_ok m"
  by (simp add: hm_ok_def)

lemma hm_ok_put [simp]: "hm_ok m \<Longrightarrow> hm_ok (hm_put k v m)"
  by (simp add: hm_ok_def distinct_update)

lemma hm_ok_del [simp]: "hm_ok m \<Longrightarrow> hm_ok (hm_del k m)"
  by (simp add: hm_ok_def distinct_delete)

lemma hm_ok_filter [simp]: "hm_ok m \<Longrightarrow> hm_ok (filter P m)"
  by (induction m) (auto simp: hm_ok_def)

lemma hm_in_set [hm]: "hm_ok m \<Longrightarrow> (k, v) \<in> set m \<longleftrightarrow> hm_get m k = Some v"
  by (simp add: hm_ok_def)

lemma hm_keys_get: "k \<in> hm_keys m \<longleftrightarrow> hm_get m k \<noteq> None"
  by (simp add: map_of_eq_None_iff)

lemma hm_keys_put [simp]: "hm_keys (hm_put k v m) = insert k (hm_keys m)"
  by (simp add: dom_update)

lemma hm_keys_del [simp]: "hm_keys (hm_del k m) = hm_keys m - {k}"
  by (induction m) (auto simp: AList.delete_eq)

lemma hm_get_filter [hm]:
  assumes "hm_ok m"
  shows "hm_get (filter P m) k =
    (case hm_get m k of None \<Rightarrow> None | Some v \<Rightarrow> if P (k, v) then Some v else None)"
  using assms
proof (induction m)
  case Nil
  then show ?case by simp
next
  case (Cons e m)
  obtain k' v' where e: "e = (k', v')" by force
  have "k' \<notin> hm_keys m \<Longrightarrow> hm_get m k' = None"
    by (simp add: map_of_eq_None_iff)
  with Cons e show ?case by (auto split: option.splits)
qed

text \<open>Rewriting every value in place, as \<^verbatim>\<open>values_mut\<close> does.\<close>
definition hm_map :: "('k \<Rightarrow> 'v \<Rightarrow> 'v) \<Rightarrow> ('k, 'v) hashmap \<Rightarrow> ('k, 'v) hashmap" where
  "hm_map f m = map (\<lambda>(k, v). (k, f k v)) m"

lemma hm_get_map [hm]: "hm_get (hm_map f m) k = map_option (f k) (hm_get m k)"
  by (induction m) (auto simp: hm_map_def)

lemma hm_map_fst [simp]: "map fst (hm_map f m) = map fst m"
  by (induction m) (auto simp: hm_map_def)

lemma hm_keys_map [simp]: "hm_keys (hm_map f m) = hm_keys m"
  by (metis hm_map_fst set_map)

lemma hm_ok_map [simp]: "hm_ok (hm_map f m) = hm_ok m"
  by (simp add: hm_ok_def)

section \<open>Lists\<close>

lemma find_Some_iff_mem: "List.find P xs = Some x \<Longrightarrow> x \<in> set xs \<and> P x"
  by (auto simp: find_Some_iff)

lemma sorted_wrt_filter' [simp]: "sorted_wrt R xs \<Longrightarrow> sorted_wrt R (filter P xs)"
  by (induction xs) auto

text \<open>\<^verbatim>\<open>Vec::swap_remove\<close>\<close>
definition swap_remove :: "'a list \<Rightarrow> nat \<Rightarrow> 'a list" where
  "swap_remove xs i =
    (if Suc i = length xs then butlast xs else (butlast xs)[i := last xs])"

text \<open>The first position a predicate holds at.\<close>
fun position :: "('a \<Rightarrow> bool) \<Rightarrow> 'a list \<Rightarrow> nat option" where
  "position P [] = None"
| "position P (x # xs) = (if P x then Some 0 else map_option Suc (position P xs))"

lemma position_Some: "position P xs = Some i \<Longrightarrow> i < length xs \<and> P (xs ! i)"
  by (induction xs arbitrary: i) (auto split: if_splits)

lemma position_None: "position P xs = None \<longleftrightarrow> (\<forall>x \<in> set xs. \<not> P x)"
  by (induction xs) auto

lemma mset_swap_remove:
  assumes "i < length xs"
  shows "mset xs = add_mset (xs ! i) (mset (swap_remove xs i))"
proof (cases xs rule: rev_cases)
  case Nil
  then show ?thesis using assms by simp
next
  case (snoc ys z)
  show ?thesis
  proof (cases "i = length ys")
    case True
    then show ?thesis by (simp add: snoc swap_remove_def)
  next
    case False
    then have i: "i < length ys" using assms snoc by simp
    then have "mset (ys[i := z]) = add_mset z (mset ys - {#ys ! i#})" by (simp add: mset_update)
    moreover have "ys ! i \<in># mset ys" using i by simp
    ultimately show ?thesis using i snoc False
      by (simp add: swap_remove_def nth_append add_mset_commute [of z] insert_DiffM)
  qed
qed

end
