(* ===== verification/Model.thy ===== *)
theory Model
  imports Prelude
begin

text \<open>
  \<^verbatim>\<open>crates/core/src/model.rs\<close>: what the core says about a process in Task
  Manager's terms. Every enum is a datatype with the source's variants, each
  prefixed where two enums share a variant's name.
\<close>

datatype architecture =
    ArchUnknown | X86 | X64 | Arm | Arm64 | Arm64X86Compatible | Arm64X64Compatible

datatype uac_virtualization = UacUnknown | UacNotAllowed | UacDisabled | UacEnabled

datatype isolation = IsoUnknown | IsoNone | IsoAppContainer | IsoUwp | IsoSilo

datatype dpi_awareness =
    DpiUnknown | DpiUnaware | DpiSystem | DpiPerMonitor | DpiPerMonitorV2 | DpiUnawareGdiScaled

datatype stack_protection =
    StackUnknown | StackOff | StackCompatible | StackStrict | StackCompatibleAudit | StackStrictAudit

datatype extended_cfg = XfgUnknown | XfgOff | XfgAudit | XfgOn

datatype io_priority =
    IoUnknown | IoVeryLow | IoLow | IoNormal | IoHigh | IoCritical

datatype process_priority =
    PrioIdle | PrioBelowNormal | PrioNormal | PrioAboveNormal | PrioHigh | PrioRealtime

text \<open>The class a process's base priority stands for.\<close>
definition from_base :: "i32 \<Rightarrow> process_priority option" where
  "from_base base =
    (if base = 4 then Some PrioIdle
     else if base = 6 then Some PrioBelowNormal
     else if base = 8 then Some PrioNormal
     else if base = 10 then Some PrioAboveNormal
     else if base = 13 then Some PrioHigh
     else if base = 24 then Some PrioRealtime
     else None)"

record mitigations =
  mit_dep :: "bool option"
  mit_stack_protection :: stack_protection
  mit_extended_cfg :: extended_cfg

text \<open>How a process runs right now.\<close>
record process_state =
  ps_pid :: u32
  ps_sequence_number :: u64
  ps_suspended :: "bool option"
  ps_efficiency_mode :: "bool option"
  ps_base_priority :: "process_priority option"
  ps_power_throttling :: "bool option"
  ps_job_object_id :: u32
  ps_io_priority :: io_priority
  ps_vm_host :: "bool option"

text \<open>\<^verbatim>\<open>ProcessState { pid, sequence_number, ..Default::default() }\<close>\<close>
definition process_state_new :: "u32 \<Rightarrow> u64 \<Rightarrow> process_state" where
  "process_state_new pid seq =
    \<lparr>ps_pid = pid, ps_sequence_number = seq, ps_suspended = None, ps_efficiency_mode = None,
     ps_base_priority = None, ps_power_throttling = None, ps_job_object_id = 0,
     ps_io_priority = IoUnknown, ps_vm_host = None\<rparr>"

lemma process_state_new_simps [simp]:
  "ps_pid (process_state_new pid seq) = pid"
  "ps_sequence_number (process_state_new pid seq) = seq"
  by (simp_all add: process_state_new_def)

lemma from_base_inj: "from_base a = Some p \<Longrightarrow> from_base b = Some p \<Longrightarrow> a = b"
  by (auto simp: from_base_def split: if_splits)

end
