(* ===== verification/Snapshot.thy ===== *)
theory Snapshot
  imports Model
begin

text \<open>
  \<^verbatim>\<open>crates/core/src/snapshot.rs\<close>: the kernel's process list. The kernel's
  answer is a buffer of \<^verbatim>\<open>filled\<close> bytes holding a chain of variable-size
  entries; \<^verbatim>\<open>parse\<close> walks the chain and makes one row per entry. The layouts
  of the kernel's structures (crate \<^verbatim>\<open>ntapi\<close>) and the contents of the buffer
  are parameters: a record of sizes, and readers that give the structure at an
  offset. Every read of the buffer that the walk makes is part of its result,
  so that memory safety is a statement about it.
\<close>

section \<open>Text\<close>

text \<open>
  Rust strings are UTF-8 byte strings; a \<^verbatim>\<open>string\<close> of the model is its bytes.
  \<^verbatim>\<open>String::from_utf16_lossy\<close>: an unpaired surrogate becomes U+FFFD.
\<close>
fun utf16_points :: "u16 list \<Rightarrow> nat list" where
  "utf16_points [] = []"
| "utf16_points [u] =
    (if 0xD800 \<le> unat u \<and> unat u < 0xE000 then [0xFFFD] else [unat u])"
| "utf16_points (u # v # us) =
    (if \<not> (0xD800 \<le> unat u \<and> unat u < 0xE000) then unat u # utf16_points (v # us)
     else if unat u < 0xDC00 \<and> 0xDC00 \<le> unat v \<and> unat v < 0xE000 then
       (0x10000 + (unat u - 0xD800) * 0x400 + (unat v - 0xDC00)) # utf16_points us
     else 0xFFFD # utf16_points (v # us))"

definition utf8_of :: "nat \<Rightarrow> string" where
  "utf8_of c = map char_of
    (if c < 0x80 then [c]
     else if c < 0x800 then [0xC0 + c div 0x40, 0x80 + c mod 0x40]
     else if c < 0x10000 then [0xE0 + c div 0x1000, 0x80 + c div 0x40 mod 0x40, 0x80 + c mod 0x40]
     else [0xF0 + c div 0x40000, 0x80 + c div 0x1000 mod 0x40, 0x80 + c div 0x40 mod 0x40,
           0x80 + c mod 0x40])"

definition from_utf16_lossy :: "u16 list \<Rightarrow> string" where
  "from_utf16_lossy us = concat (map utf8_of (utf16_points us))"

section \<open>Kernel processes\<close>

definition IDLE_PROCESS_PID :: u32 where
  "IDLE_PROCESS_PID = 0"

definition SYSTEM_PROCESS_PID :: u32 where
  "SYSTEM_PROCESS_PID = 4"

definition KERNEL_PSEUDO_PROCESSES :: "string list" where
  "KERNEL_PSEUDO_PROCESSES = [''Registry'', ''Memory Compression'', ''Secure System'']"

definition is_kernel_pseudo_process :: "u32 \<Rightarrow> u32 \<Rightarrow> string \<Rightarrow> bool" where
  "is_kernel_pseudo_process pid parent_pid image_name \<longleftrightarrow>
    pid = IDLE_PROCESS_PID \<or> pid = SYSTEM_PROCESS_PID \<or>
    (parent_pid = SYSTEM_PROCESS_PID \<and> image_name \<in> set KERNEL_PSEUDO_PROCESSES)"

section \<open>Rows\<close>

text \<open>One process as the kernel counted it.\<close>
record row =
  r_offset :: nat
  r_end :: nat
  r_pid :: u32
  r_parent_pid :: u32
  r_session_id :: u32
  r_sequence_number :: u64
  r_create_time :: u64
  r_base_priority :: i32
  r_handles :: u32
  r_threads :: u32
  r_peak_threads :: u32
  r_suspended :: bool
  r_user_time :: u64
  r_kernel_time :: u64
  r_cycles :: u64
  r_context_switches :: u64
  r_working_set :: u64
  r_peak_working_set :: u64
  r_private_working_set :: u64
  r_virtual_size :: u64
  r_peak_virtual_size :: u64
  r_commit :: u64
  r_peak_commit :: u64
  r_paged_pool :: u64
  r_peak_paged_pool :: u64
  r_nonpaged_pool :: u64
  r_peak_nonpaged_pool :: u64
  r_page_faults :: u32
  r_hard_faults :: u32
  r_io_read_ops :: u64
  r_io_write_ops :: u64
  r_io_other_ops :: u64
  r_io_read_bytes :: u64
  r_io_write_bytes :: u64
  r_io_other_bytes :: u64
  r_disk_read_ops :: u64
  r_disk_write_ops :: u64
  r_disk_flush_ops :: u64
  r_disk_read_bytes :: u64
  r_disk_write_bytes :: u64
  r_job_object_id :: u32

text \<open>\<^verbatim>\<open>Row::default()\<close>\<close>
definition row_default :: row where
  "row_default =
    \<lparr>r_offset = 0, r_end = 0, r_pid = 0, r_parent_pid = 0, r_session_id = 0,
     r_sequence_number = 0, r_create_time = 0, r_base_priority = 0, r_handles = 0, r_threads = 0,
     r_peak_threads = 0, r_suspended = False, r_user_time = 0, r_kernel_time = 0, r_cycles = 0,
     r_context_switches = 0, r_working_set = 0, r_peak_working_set = 0, r_private_working_set = 0,
     r_virtual_size = 0, r_peak_virtual_size = 0, r_commit = 0, r_peak_commit = 0, r_paged_pool = 0,
     r_peak_paged_pool = 0, r_nonpaged_pool = 0, r_peak_nonpaged_pool = 0, r_page_faults = 0,
     r_hard_faults = 0, r_io_read_ops = 0, r_io_write_ops = 0, r_io_other_ops = 0,
     r_io_read_bytes = 0, r_io_write_bytes = 0, r_io_other_bytes = 0, r_disk_read_ops = 0,
     r_disk_write_ops = 0, r_disk_flush_ops = 0, r_disk_read_bytes = 0, r_disk_write_bytes = 0,
     r_job_object_id = 0\<rparr>"

section \<open>The kernel's structures\<close>

text \<open>
  The fields of \<^verbatim>\<open>SYSTEM_PROCESS_INFORMATION\<close>, of one thread's record and of
  \<^verbatim>\<open>SYSTEM_PROCESS_INFORMATION_EXTENSION\<close> that the agent reads.
\<close>
record process_information =
  NextEntryOffset :: u32
  NumberOfThreads :: u32
  UniqueProcessId :: u64
  InheritedFromUniqueProcessId :: u64
  SessionId :: u32
  CreateTime :: u64
  BasePriority :: i32
  HandleCount :: u32
  NumberOfThreadsHighWatermark :: u32
  UserTime :: u64
  KernelTime :: u64
  CycleTime :: u64
  WorkingSetSize :: u64
  PeakWorkingSetSize :: u64
  WorkingSetPrivateSize :: u64
  VirtualSize :: u64
  PeakVirtualSize :: u64
  PagefileUsage :: u64
  PeakPagefileUsage :: u64
  QuotaPagedPoolUsage :: u64
  QuotaPeakPagedPoolUsage :: u64
  QuotaNonPagedPoolUsage :: u64
  QuotaPeakNonPagedPoolUsage :: u64
  PageFaultCount :: u32
  HardFaultCount :: u32
  ReadOperationCount :: u64
  WriteOperationCount :: u64
  OtherOperationCount :: u64
  ReadTransferCount :: u64
  WriteTransferCount :: u64
  OtherTransferCount :: u64
  ImageName :: "u16 list option"

record thread_information =
  ThreadState :: u32
  WaitReason :: u32

record process_extension =
  DiskReadOperationCount :: u64
  DiskWriteOperationCount :: u64
  DiskFlushOperationCount :: u64
  DiskBytesRead :: u64
  DiskBytesWritten :: u64
  ContextSwitches :: u64
  UserSidOffset :: u32
  PackageFullNameOffset :: u32
  AppIdOffset :: u32
  JobObjectId :: u32
  ProcessSequenceNumber :: u64

text \<open>
  The sizes of those structures, and the filled buffer: the structure at each
  offset and its bytes. \<^verbatim>\<open>header_size\<close> is the whole \<^verbatim>\<open>SYSTEM_PROCESS_INFORMATION\<close>,
  \<^verbatim>\<open>threads_at\<close> where its array of threads starts.
\<close>
record kernel_buffer =
  header_size :: nat
  threads_at :: nat
  thread_size :: nat
  extension_size :: nat
  entry_at :: "nat \<Rightarrow> process_information"
  thread_at :: "nat \<Rightarrow> thread_information"
  process_extension_at :: "nat \<Rightarrow> process_extension"
  filled_bytes :: "u8 list"

abbreviation filled :: "kernel_buffer \<Rightarrow> nat" where
  "filled b \<equiv> length (filled_bytes b)"

definition THREAD_WAITING :: u32 where
  "THREAD_WAITING = 5"

definition WAIT_REASON_SUSPENDED :: u32 where
  "WAIT_REASON_SUSPENDED = 5"

section \<open>The walk\<close>

text \<open>A structure read at an offset: an entry's, a thread's or an extension's; and where it ends.\<close>
datatype buffer_read = HeaderRead nat | ThreadRead nat | ExtensionRead nat

fun read_end :: "kernel_buffer \<Rightarrow> buffer_read \<Rightarrow> nat" where
  "read_end b (HeaderRead at) = at + header_size b"
| "read_end b (ThreadRead at) = at + thread_size b"
| "read_end b (ExtensionRead at) = at + extension_size b"

definition threads_end_of :: "kernel_buffer \<Rightarrow> nat \<Rightarrow> nat" where
  "threads_end_of b offset =
    offset + threads_at b + unat (NumberOfThreads (entry_at b offset)) * thread_size b"

definition entry_end :: "kernel_buffer \<Rightarrow> nat \<Rightarrow> nat" where
  "entry_end b offset =
    (let next = unat (NextEntryOffset (entry_at b offset))
     in if next = 0 then filled b else min (offset + next) (filled b))"

definition thread_offset :: "kernel_buffer \<Rightarrow> nat \<Rightarrow> nat \<Rightarrow> nat" where
  "thread_offset b offset i = offset + threads_at b + i * thread_size b"

definition thread_suspended :: "kernel_buffer \<Rightarrow> nat \<Rightarrow> nat \<Rightarrow> bool" where
  "thread_suspended b offset i =
    (let t = thread_at b (thread_offset b offset i)
     in ThreadState t = THREAD_WAITING \<and> WaitReason t = WAIT_REASON_SUSPENDED)"

definition suspended_at :: "kernel_buffer \<Rightarrow> nat \<Rightarrow> bool" where
  "suspended_at b offset =
    (let count = unat (NumberOfThreads (entry_at b offset))
     in count > 0 \<and> list_all (thread_suspended b offset) [0..<count])"

definition row_at :: "kernel_buffer \<Rightarrow> nat \<Rightarrow> row" where
  "row_at b offset =
    (let entry = entry_at b offset;
         extension = process_extension_at b (threads_end_of b offset)
     in \<lparr>r_offset = offset, r_end = entry_end b offset,
         r_pid = ucast (UniqueProcessId entry),
         r_parent_pid = ucast (InheritedFromUniqueProcessId entry),
         r_session_id = SessionId entry,
         r_sequence_number = ProcessSequenceNumber extension,
         r_create_time = CreateTime entry, r_base_priority = BasePriority entry,
         r_handles = HandleCount entry, r_threads = NumberOfThreads entry,
         r_peak_threads = NumberOfThreadsHighWatermark entry,
         r_suspended = suspended_at b offset,
         r_user_time = UserTime entry, r_kernel_time = KernelTime entry,
         r_cycles = CycleTime entry, r_context_switches = ContextSwitches extension,
         r_working_set = WorkingSetSize entry, r_peak_working_set = PeakWorkingSetSize entry,
         r_private_working_set = WorkingSetPrivateSize entry,
         r_virtual_size = VirtualSize entry, r_peak_virtual_size = PeakVirtualSize entry,
         r_commit = PagefileUsage entry, r_peak_commit = PeakPagefileUsage entry,
         r_paged_pool = QuotaPagedPoolUsage entry,
         r_peak_paged_pool = QuotaPeakPagedPoolUsage entry,
         r_nonpaged_pool = QuotaNonPagedPoolUsage entry,
         r_peak_nonpaged_pool = QuotaPeakNonPagedPoolUsage entry,
         r_page_faults = PageFaultCount entry, r_hard_faults = HardFaultCount entry,
         r_io_read_ops = ReadOperationCount entry, r_io_write_ops = WriteOperationCount entry,
         r_io_other_ops = OtherOperationCount entry, r_io_read_bytes = ReadTransferCount entry,
         r_io_write_bytes = WriteTransferCount entry, r_io_other_bytes = OtherTransferCount entry,
         r_disk_read_ops = DiskReadOperationCount extension,
         r_disk_write_ops = DiskWriteOperationCount extension,
         r_disk_flush_ops = DiskFlushOperationCount extension,
         r_disk_read_bytes = DiskBytesRead extension,
         r_disk_write_bytes = DiskBytesWritten extension,
         r_job_object_id = JobObjectId extension\<rparr>)"

text \<open>
  What making the row at an offset reads beyond the entry: the threads up to the
  first that is not suspended, then the extension.
\<close>
definition reads_at :: "kernel_buffer \<Rightarrow> nat \<Rightarrow> buffer_read list" where
  "reads_at b offset =
    (let count = unat (NumberOfThreads (entry_at b offset));
         told = length (takeWhile (thread_suspended b offset) [0..<count])
     in map (\<lambda>i. ThreadRead (thread_offset b offset i)) [0..<min count (Suc told)] @
        [ExtensionRead (threads_end_of b offset)])"

text \<open>
  The loop of \<^verbatim>\<open>parse\<close> from an offset on: the rows pushed and the reads made. An
  entry is read whole before what it says of its threads is held against its end.
\<close>
function parse_from :: "kernel_buffer \<Rightarrow> nat \<Rightarrow> row list \<times> buffer_read list" where
  "parse_from b offset =
    (if offset + threads_at b \<le> filled b then
       let next = unat (NextEntryOffset (entry_at b offset));
           extension_end = threads_end_of b offset + extension_size b
       in if extension_end > entry_end b offset then ([], [HeaderRead offset])
          else if next = 0 then ([row_at b offset], HeaderRead offset # reads_at b offset)
          else let (rows, reads) = parse_from b (offset + next)
               in (row_at b offset # rows, HeaderRead offset # reads_at b offset @ reads)
     else ([], []))"
  by pat_completeness auto
termination
  by (relation "measure (\<lambda>(b, offset). filled b + 1 - offset)") auto

declare parse_from.simps [simp del]

text \<open>\<^verbatim>\<open>Processes::parse\<close>: the walk from the start, then the sort by pid.\<close>
definition parse :: "kernel_buffer \<Rightarrow> row list" where
  "parse b = sort_key (\<lambda>r. unat (r_pid r)) (fst (parse_from b 0))"

section \<open>A row's variable data\<close>

definition extension_at :: "kernel_buffer \<Rightarrow> row \<Rightarrow> nat" where
  "extension_at b row = r_offset row + threads_at b + unat (r_threads row) * thread_size b"

definition extension_of :: "kernel_buffer \<Rightarrow> row \<Rightarrow> process_extension" where
  "extension_of b row = process_extension_at b (extension_at b row)"

text \<open>\<^verbatim>\<open>slice.get(from..to)\<close>\<close>
definition slice_get :: "'a list \<Rightarrow> nat \<Rightarrow> nat \<Rightarrow> 'a list option" where
  "slice_get xs from to =
    (if from \<le> to \<and> to \<le> length xs then Some (take (to - from) (drop from xs)) else None)"

definition tail_at :: "kernel_buffer \<Rightarrow> row \<Rightarrow> nat \<Rightarrow> u8 list option" where
  "tail_at b row at =
    (if at = 0 then None else slice_get (filled_bytes b) (extension_at b row + at) (r_end row))"

text \<open>\<^verbatim>\<open>file_name\<close>: the part after the last separator.\<close>
definition file_name :: "string \<Rightarrow> string" where
  "file_name path = rev (takeWhile (\<lambda>c. c \<noteq> CHR 0x5C \<and> c \<noteq> CHR ''/'') (rev path))"

definition image_name :: "kernel_buffer \<Rightarrow> row \<Rightarrow> string" where
  "image_name b row =
    (let name = (case ImageName (entry_at b (r_offset row)) of
                   None \<Rightarrow> ''''
                 | Some units \<Rightarrow> from_utf16_lossy units)
     in if name = '''' then
          (if r_pid row = IDLE_PROCESS_PID then ''System Idle Process'' else ''System'')
        else file_name name)"

definition user_sid :: "kernel_buffer \<Rightarrow> row \<Rightarrow> u8 list option" where
  "user_sid b row =
    (case tail_at b row (unat (UserSidOffset (extension_of b row))) of
       None \<Rightarrow> None
     | Some bytes \<Rightarrow>
         (case bytes of
            revision # subs # _ \<Rightarrow>
              if revision = 1 \<and> unat subs \<le> 15 then slice_get bytes 0 (8 + 4 * unat subs) else None
          | _ \<Rightarrow> None))"

text \<open>\<^verbatim>\<open>chunks_exact(2)\<close> read little-endian; an odd last byte is left out.\<close>
fun le_units :: "u8 list \<Rightarrow> u16 list" where
  "le_units (a # c # bytes) = (ucast a + 256 * ucast c) # le_units bytes"
| "le_units _ = []"

definition wide_at :: "kernel_buffer \<Rightarrow> row \<Rightarrow> nat \<Rightarrow> string" where
  "wide_at b row at =
    (case tail_at b row at of
       None \<Rightarrow> ''''
     | Some bytes \<Rightarrow> from_utf16_lossy (takeWhile (\<lambda>u. u \<noteq> 0) (le_units bytes)))"

definition package_full_name :: "kernel_buffer \<Rightarrow> row \<Rightarrow> string" where
  "package_full_name b row = wide_at b row (unat (PackageFullNameOffset (extension_of b row)))"

definition app_id :: "kernel_buffer \<Rightarrow> row \<Rightarrow> string" where
  "app_id b row = wide_at b row (unat (AppIdOffset (extension_of b row)))"

section \<open>Reading the list\<close>

definition STATUS_INFO_LENGTH_MISMATCH :: i32 where
  "STATUS_INFO_LENGTH_MISMATCH = 0xC0000004"

definition INITIAL_BUFFER_SIZE :: nat where
  "INITIAL_BUFFER_SIZE = 2 * 1024 * 1024"

definition HEADROOM :: nat where
  "HEADROOM = 64 * 1024"

text \<open>
  The loop of \<^verbatim>\<open>Processes::read\<close>. The kernel is a parameter: the status and the
  needed size it answers to the n-th call with a buffer of this length. The
  result is the buffer's length and how many bytes the kernel filled, or the
  failing status; None is a loop that has not ended after \<^verbatim>\<open>fuel\<close> calls.
\<close>
fun read_loop ::
  "(nat \<Rightarrow> u32 \<Rightarrow> i32 \<times> u32) \<Rightarrow> nat \<Rightarrow> nat \<Rightarrow> nat \<Rightarrow> nat \<Rightarrow> (i32 + nat \<times> nat) option" where
  "read_loop query 0 n len want = None"
| "read_loop query (Suc fuel) n len want =
    (let len = (if len < want then want else len);
         (status, needed) = query n (of_nat len)
     in if status = STATUS_INFO_LENGTH_MISMATCH then
          read_loop query fuel (Suc n) len (unat needed + HEADROOM)
        else if status <s 0 then Some (Inl status)
        else Some (Inr (len, min (unat needed) len)))"

definition read_list :: "(nat \<Rightarrow> u32 \<Rightarrow> i32 \<times> u32) \<Rightarrow> nat \<Rightarrow> nat \<Rightarrow> (i32 + nat \<times> nat) option" where
  "read_list query fuel len = read_loop query fuel 0 len (max len INITIAL_BUFFER_SIZE)"


section \<open>Memory safety of the walk\<close>

lemma threads_within:
  assumes "i < unat (NumberOfThreads (entry_at b offset))"
  shows "thread_offset b offset i + thread_size b \<le> threads_end_of b offset"
proof -
  have "Suc i * thread_size b \<le> unat (NumberOfThreads (entry_at b offset)) * thread_size b"
    using assms by (intro mult_le_mono1) simp
  then show ?thesis by (simp add: thread_offset_def threads_end_of_def)
qed

lemma reads_at_within:
  assumes "threads_end_of b offset + extension_size b \<le> e" "r \<in> set (reads_at b offset)"
  shows "read_end b r \<le> e"
  using assms threads_within [of _ b offset] by (fastforce simp: reads_at_def Let_def)

lemma entry_end_le: "entry_end b offset \<le> filled b"
  by (simp add: entry_end_def Let_def)

lemma entry_end_next:
  "NextEntryOffset (entry_at b offset) \<noteq> 0 \<Longrightarrow>
    entry_end b offset \<le> offset + unat (NextEntryOffset (entry_at b offset))"
  by (simp add: entry_end_def Let_def unat_eq_0)

lemma row_at_simps [simp]:
  "r_offset (row_at b offset) = offset"
  "r_end (row_at b offset) = entry_end b offset"
  "extension_at b (row_at b offset) = threads_end_of b offset"
  by (simp_all add: row_at_def extension_at_def threads_end_of_def Let_def)

text \<open>An entry is read whole: within the buffer if it becomes a row, and else maybe not.\<close>
definition read_guarded :: "kernel_buffer \<Rightarrow> buffer_read \<Rightarrow> bool" where
  "read_guarded b r =
    (case r of HeaderRead at \<Rightarrow> at + threads_at b \<le> filled b | _ \<Rightarrow> read_end b r \<le> filled b)"

lemma row_reads_within:
  assumes "header_size b \<le> threads_at b + extension_size b"
    and "threads_end_of b offset + extension_size b \<le> entry_end b offset"
    and "r \<in> set (HeaderRead offset # reads_at b offset)"
  shows "read_end b r \<le> filled b"
proof -
  have "offset + threads_at b \<le> threads_end_of b offset" by (simp add: threads_end_of_def)
  then have "read_end b (HeaderRead offset) \<le> filled b"
    using assms(1,2) entry_end_le [of b offset] by simp
  moreover have "threads_end_of b offset + extension_size b \<le> filled b"
    using assms(2) entry_end_le [of b offset] by simp
  ultimately show ?thesis using assms(3) reads_at_within [of b offset "filled b" r] by auto
qed

lemma reads_at_guarded:
  "threads_end_of b offset + extension_size b \<le> entry_end b offset \<Longrightarrow> r \<in> set (reads_at b offset) \<Longrightarrow> read_guarded b r"
  using reads_at_within [of b offset "filled b" r] entry_end_le [of b offset]
  by (auto simp: read_guarded_def reads_at_def Let_def split: buffer_read.split)

lemma parse_from_reads:
  assumes "header_size b \<le> threads_at b + extension_size b"
  shows "(\<forall>r \<in> set (snd (parse_from b offset)). read_guarded b r) \<and>
    (\<forall>r \<in> set (butlast (snd (parse_from b offset))). read_end b r \<le> filled b)"
  using assms
proof (induction b offset rule: parse_from.induct)
  case (1 b offset)
  let ?next = "unat (NextEntryOffset (entry_at b offset))"
  obtain rows reads where onward: "parse_from b (offset + ?next) = (rows, reads)" by force
  show ?case
  proof (cases "offset + threads_at b \<le> filled b \<and>
      threads_end_of b offset + extension_size b \<le> entry_end b offset")
    case True
    note within = row_reads_within [OF 1(2) conjunct2 [OF True]]
    have guarded: "\<forall>r \<in> set (HeaderRead offset # reads_at b offset). read_guarded b r"
      using True reads_at_guarded by (auto simp: read_guarded_def)
    show ?thesis
    proof (cases "?next = 0")
      case end_here: True
      then have "snd (parse_from b offset) = HeaderRead offset # reads_at b offset"
        using True by (subst parse_from.simps) (simp add: Let_def)
      then show ?thesis using guarded within by (metis in_set_butlastD)
    next
      case False
      then have snd: "snd (parse_from b offset) = (HeaderRead offset # reads_at b offset) @ reads"
        using True onward by (subst parse_from.simps) (simp add: Let_def)
      have ih: "(\<forall>r \<in> set reads. read_guarded b r) \<and> (\<forall>r \<in> set (butlast reads). read_end b r \<le> filled b)"
        using 1(1) [OF _ refl refl _ False] 1(2) True onward by simp
      have "read_end b r \<le> filled b" if r: "r \<in> set (butlast (snd (parse_from b offset)))" for r
      proof (cases "r \<in> set (HeaderRead offset # reads_at b offset)")
        case False
        have "reads \<noteq> []" using r False in_set_butlastD unfolding snd by (metis append_Nil2)
        then have "r \<in> set (butlast reads)" using r False unfolding snd butlast_append by simp
        then show ?thesis using ih by blast
      qed (rule within)
      then show ?thesis using guarded ih unfolding snd by auto
    qed
  next
    case False
    then show ?thesis by (subst (1 2) parse_from.simps) (auto simp: Let_def read_guarded_def)
  qed
qed

text \<open>A row's entry lies in the buffer, its extension included.\<close>
definition row_in_buffer :: "kernel_buffer \<Rightarrow> row \<Rightarrow> bool" where
  "row_in_buffer b row \<longleftrightarrow>
    extension_at b row + extension_size b \<le> r_end row \<and> r_end row \<le> filled b"

lemma parse_from_rows:
  "row \<in> set (fst (parse_from b offset)) \<Longrightarrow> row_in_buffer b row \<and> offset \<le> r_offset row"
proof (induction b offset rule: parse_from.induct)
  case (1 b offset)
  show ?case
  proof (cases "offset + threads_at b \<le> filled b \<and>
      threads_end_of b offset + extension_size b \<le> entry_end b offset")
    case True
    have "row_in_buffer b (row_at b offset)"
      using True entry_end_le [of b offset] by (simp add: row_in_buffer_def)
    with True 1 show ?thesis
      by (subst (asm) (2) parse_from.simps) (fastforce simp: Let_def split: prod.splits if_splits)
  next
    case False
    then show ?thesis
      using 1(2) by (subst (asm) parse_from.simps) (auto simp: Let_def split: if_splits)
  qed
qed

lemma parse_from_disjoint:
  "sorted_wrt (\<lambda>x y. r_end x \<le> r_offset y) (fst (parse_from b offset))"
proof (induction b offset rule: parse_from.induct)
  case (1 b offset)
  let ?next = "unat (NextEntryOffset (entry_at b offset))"
  show ?case
  proof (cases "offset + threads_at b \<le> filled b \<and> ?next \<noteq> 0 \<and>
      threads_end_of b offset + extension_size b \<le> entry_end b offset")
    case True
    obtain rows reads where rest: "parse_from b (offset + ?next) = (rows, reads)" by force
    have "sorted_wrt (\<lambda>x y. r_end x \<le> r_offset y) rows"
      using 1 True rest by (auto simp: Let_def)
    moreover have "list_all (\<lambda>y. entry_end b offset \<le> r_offset y) rows"
      using parse_from_rows [of _ b "offset + ?next"] entry_end_next [of b offset] True rest
      by (fastforce simp: list_all_iff unat_eq_0)
    ultimately show ?thesis
      using True rest by (subst parse_from.simps) (auto simp: Let_def list_all_iff)
  next
    case False
    then show ?thesis by (subst parse_from.simps) (auto simp: Let_def)
  qed
qed

lemma parse_sorted: "sorted (map (\<lambda>r. unat (r_pid r)) (parse b))"
  by (simp add: parse_def)

lemma parse_set: "set (parse b) = set (fst (parse_from b 0))"
  by (simp add: parse_def)

lemma slice_get_Some:
  "slice_get xs from to = Some ys \<Longrightarrow> from \<le> to \<and> to \<le> length xs \<and> length ys = to - from"
  by (auto simp: slice_get_def split: if_splits)

lemma slice_get_nth:
  "slice_get xs from to = Some ys \<Longrightarrow> i < to - from \<Longrightarrow> ys ! i = xs ! (from + i)"
  by (auto simp: slice_get_def split: if_splits)

section \<open>Well-formed buffers\<close>

text \<open>The entry at an offset fits before the next one, its threads and extension included.\<close>
definition entry_fits :: "kernel_buffer \<Rightarrow> nat \<Rightarrow> bool" where
  "entry_fits b offset \<longleftrightarrow> threads_end_of b offset + extension_size b \<le> entry_end b offset"

text \<open>The kernel's chain of entries from an offset on, as the offsets of its entries.\<close>
fun entry_chain :: "kernel_buffer \<Rightarrow> nat \<Rightarrow> nat list \<Rightarrow> bool" where
  "entry_chain b offset [] \<longleftrightarrow> False"
| "entry_chain b offset [x] \<longleftrightarrow> x = offset \<and> entry_fits b x \<and> NextEntryOffset (entry_at b x) = 0"
| "entry_chain b offset (x # y # xs) \<longleftrightarrow> x = offset \<and> entry_fits b x \<and>
    NextEntryOffset (entry_at b x) \<noteq> 0 \<and>
    entry_chain b (offset + unat (NextEntryOffset (entry_at b x))) (y # xs)"

lemma entry_fits_start: "entry_fits b offset \<Longrightarrow> offset + threads_at b \<le> filled b"
  using entry_end_le [of b offset] by (simp add: entry_fits_def threads_end_of_def)

lemma parse_from_chain:
  "entry_chain b offset xs \<Longrightarrow> fst (parse_from b offset) = map (row_at b) xs"
proof (induction b offset xs rule: entry_chain.induct)
  case (2 b offset x)
  then show ?case
    using entry_fits_start [of b offset]
    by (subst parse_from.simps) (auto simp: entry_fits_def Let_def)
next
  case (3 b offset x y xs)
  then have "unat (NextEntryOffset (entry_at b offset)) \<noteq> 0" by (auto simp: unat_eq_0)
  with 3 show ?case
    using entry_fits_start [of b offset]
    by (subst parse_from.simps) (auto simp: entry_fits_def Let_def split: prod.splits)
qed simp

text \<open>A row's variable data is its own: what a tail holds are the bytes up to the row's end.\<close>
lemma tail_at_within:
  "tail_at b row at = Some bytes \<Longrightarrow>
    at \<noteq> 0 \<and> extension_at b row + at + length bytes = r_end row \<and> r_end row \<le> filled b \<and>
    (\<forall>i < length bytes. bytes ! i = filled_bytes b ! (extension_at b row + at + i))"
  using slice_get_Some [of "filled_bytes b" "extension_at b row + at" "r_end row" bytes]
    slice_get_nth [of "filled_bytes b" "extension_at b row + at" "r_end row" bytes]
  by (auto simp: tail_at_def split: if_splits)

lemma user_sid_within:
  assumes "user_sid b row = Some sid"
  shows "\<exists>at. extension_at b row + at + length sid \<le> r_end row \<and>
    (\<forall>i < length sid. sid ! i = filled_bytes b ! (extension_at b row + at + i))"
proof -
  let ?at = "unat (UserSidOffset (extension_of b row))"
  obtain bytes n where bytes: "tail_at b row ?at = Some bytes" "slice_get bytes 0 n = Some sid"
    using assms by (auto simp: user_sid_def split: option.splits list.splits if_splits)
  then have "length sid \<le> length bytes" "\<forall>i < length sid. sid ! i = bytes ! i"
    by (auto simp: slice_get_def split: if_splits)
  then show ?thesis using tail_at_within [OF bytes(1)] by (intro exI [of _ ?at]) auto
qed

text \<open>
  C7 The walk reads threads' records and extensions within the bytes the kernel
  filled, whatever the buffer holds, and so it reads the entry of every row, each
  row's extension and its tail: a row's variable data are the bytes from behind its
  extension's start to the row's own end, which no other row shares. Only the read of an entry that
  the walk then refuses may pass the filled bytes: the last of all, by no more than
  the entry is longer than where its threads start.
\<close>
theorem walk_stays_in_the_buffer:
  assumes "header_size b \<le> threads_at b + extension_size b"
  shows "(\<forall>r \<in> set (snd (parse_from b 0)). read_guarded b r) \<and>
    (\<forall>r \<in> set (butlast (snd (parse_from b 0))). read_end b r \<le> filled b) \<and>
    (\<forall>row \<in> set (parse b). row_in_buffer b row \<and> r_offset row + header_size b \<le> filled b \<and>
      (\<forall>at bytes. tail_at b row at = Some bytes \<longrightarrow>
         extension_at b row < extension_at b row + at \<and> extension_at b row + at + length bytes = r_end row \<and>
         (\<forall>i < length bytes. bytes ! i = filled_bytes b ! (extension_at b row + at + i))) \<and>
      (\<forall>sid. user_sid b row = Some sid \<longrightarrow> (\<exists>at. extension_at b row + at + length sid \<le> r_end row \<and>
         (\<forall>i < length sid. sid ! i = filled_bytes b ! (extension_at b row + at + i))))) \<and>
    sorted_wrt (\<lambda>x y. r_end x \<le> r_offset y) (fst (parse_from b 0))"
proof -
  have "r_offset row + header_size b \<le> filled b" if "row \<in> set (parse b)" for row
    using parse_from_rows [of row b 0] that assms
    by (simp add: parse_set row_in_buffer_def extension_at_def)
  moreover have "row_in_buffer b row" if "row \<in> set (parse b)" for row
    using parse_from_rows [of row b 0] that by (simp add: parse_set)
  ultimately show ?thesis
    using parse_from_reads [OF assms, of 0] parse_from_disjoint [of b 0] tail_at_within user_sid_within by fastforce
qed

text \<open>
  C8 A well-formed buffer loses no process: the rows are exactly the rows of
  the chain's entries, one each, ordered by pid.
\<close>
theorem every_process_is_a_row:
  assumes "entry_chain b 0 offsets"
  shows "mset (parse b) = mset (map (row_at b) offsets) \<and>
    sorted (map (\<lambda>r. unat (r_pid r)) (parse b))"
  using parse_from_chain [OF assms] parse_sorted by (simp add: parse_def)

definition information_default :: process_information where
  "information_default =
    \<lparr>NextEntryOffset = 0, NumberOfThreads = 0, UniqueProcessId = 0, InheritedFromUniqueProcessId = 0,
     SessionId = 0, CreateTime = 0, BasePriority = 0, HandleCount = 0, NumberOfThreadsHighWatermark = 0,
     UserTime = 0, KernelTime = 0, CycleTime = 0, WorkingSetSize = 0, PeakWorkingSetSize = 0,
     WorkingSetPrivateSize = 0, VirtualSize = 0, PeakVirtualSize = 0, PagefileUsage = 0,
     PeakPagefileUsage = 0, QuotaPagedPoolUsage = 0, QuotaPeakPagedPoolUsage = 0,
     QuotaNonPagedPoolUsage = 0, QuotaPeakNonPagedPoolUsage = 0, PageFaultCount = 0, HardFaultCount = 0,
     ReadOperationCount = 0, WriteOperationCount = 0, OtherOperationCount = 0, ReadTransferCount = 0,
     WriteTransferCount = 0, OtherTransferCount = 0, ImageName = None\<rparr>"

text \<open>Two entries of 40 bytes: pid 8 with one thread, then pid 4 with none.\<close>
definition two_entries :: kernel_buffer where
  "two_entries =
    \<lparr>header_size = 24, threads_at = 16, thread_size = 8, extension_size = 16,
     entry_at = (\<lambda>at. if at = 0
       then information_default\<lparr>NextEntryOffset := 40, NumberOfThreads := 1, UniqueProcessId := 8\<rparr>
       else information_default\<lparr>UniqueProcessId := 4\<rparr>),
     thread_at = (\<lambda>_. \<lparr>ThreadState = 5, WaitReason = 5\<rparr>),
     process_extension_at = (\<lambda>_. \<lparr>DiskReadOperationCount = 0, DiskWriteOperationCount = 0,
       DiskFlushOperationCount = 0, DiskBytesRead = 0, DiskBytesWritten = 0, ContextSwitches = 0,
       UserSidOffset = 0, PackageFullNameOffset = 0, AppIdOffset = 0, JobObjectId = 0,
       ProcessSequenceNumber = 0\<rparr>),
     filled_bytes = replicate 80 0\<rparr>"

theorem every_process_is_a_row_witness:
  "map r_pid (parse two_entries) = [4, 8] \<and> mset (parse two_entries) = mset (map (row_at two_entries) [0, 40])"
proof -
  have c: "entry_chain two_entries 0 [0, 40]"
    by (simp add: two_entries_def entry_fits_def threads_end_of_def entry_end_def information_default_def)
  have m: "mset (parse two_entries) = mset (map (row_at two_entries) [0, 40])"
    using every_process_is_a_row [OF c] by simp
  have p: "r_pid (row_at two_entries 0) = 8" "r_pid (row_at two_entries 40) = 4"
    by (simp_all add: row_at_def two_entries_def information_default_def Let_def)
  have "parse two_entries = [row_at two_entries 40, row_at two_entries 0]"
    using parse_from_chain [OF c] p by (simp add: parse_def)
  then show ?thesis using m p by simp
qed

text \<open>The same with the second entry cut off behind its fixed part.\<close>
definition cut_entry :: kernel_buffer where
  "cut_entry = two_entries\<lparr>filled_bytes := replicate 56 0\<rparr>"

text \<open>The walk reads 8 bytes past the 56 that are filled, then makes a row of the first entry alone.\<close>
theorem walk_stays_in_the_buffer_witness:
  "map r_pid (parse cut_entry) = [8] \<and> list_all (read_guarded cut_entry) (snd (parse_from cut_entry 0)) \<and>
   last (snd (parse_from cut_entry 0)) = HeaderRead 40 \<and> read_end cut_entry (HeaderRead 40) = filled cut_entry + 8"
proof -
  have fits: "header_size cut_entry \<le> threads_at cut_entry + extension_size cut_entry"
    by (simp add: cut_entry_def two_entries_def)
  have second: "parse_from cut_entry 40 = ([], [HeaderRead 40])"
    by (subst parse_from.simps)
      (simp add: cut_entry_def two_entries_def threads_end_of_def entry_end_def information_default_def)
  have "parse_from cut_entry 0 =
      ([row_at cut_entry 0], HeaderRead 0 # reads_at cut_entry 0 @ [HeaderRead 40])"
    using second by (subst parse_from.simps)
      (simp add: cut_entry_def two_entries_def threads_end_of_def entry_end_def information_default_def)
  moreover have "r_pid (row_at cut_entry 0) = 8"
    by (simp add: row_at_def cut_entry_def two_entries_def information_default_def Let_def)
  ultimately show ?thesis
    using walk_stays_in_the_buffer [OF fits] by (simp add: parse_def list_all_iff) (simp add: cut_entry_def two_entries_def)
qed

section \<open>The read loop ends\<close>

text \<open>
  What the kernel's documentation promises of the call: a buffer shorter than
  the n-th call needs is refused with the needed size, a long enough one is
  filled with that many bytes.
\<close>
definition kernel_answers :: "(nat \<Rightarrow> u32 \<Rightarrow> i32 \<times> u32) \<Rightarrow> (nat \<Rightarrow> nat) \<Rightarrow> bool" where
  "kernel_answers query need \<longleftrightarrow> (\<forall>n len.
    query n len = (if unat len < need n then (STATUS_INFO_LENGTH_MISMATCH, of_nat (need n)) else (0, of_nat (need n))))"

lemma unat_of_nat_u32: "n < 2 ^ 32 \<Longrightarrow> unat (of_nat n :: u32) = n"
  by (simp add: unat_of_nat take_bit_nat_eq_self)

lemma read_loop_step:
  assumes "kernel_answers query need" "l = (if len < want then want else len)" "l < 2 ^ 32" "need n < 2 ^ 32"
  shows "read_loop query (Suc fuel) n len want =
    (if l < need n then read_loop query fuel (Suc n) l (need n + HEADROOM) else Some (Inr (l, need n)))"
proof -
  have q: "query n (of_nat l) =
      (if l < need n then (STATUS_INFO_LENGTH_MISMATCH, of_nat (need n)) else (0, of_nat (need n)))"
    using assms(1) unat_of_nat_u32 [OF assms(3)] by (simp add: kernel_answers_def)
  have s: "(0 :: i32) \<noteq> STATUS_INFO_LENGTH_MISMATCH" "\<not> (0 :: i32) <s 0"
    by (simp_all add: STATUS_INFO_LENGTH_MISMATCH_def)
  show ?thesis
    using s by (simp only: read_loop.simps Let_def assms(2) [symmetric] q)
      (auto simp: unat_of_nat_u32 [OF assms(4)])
qed

text \<open>One call more than the list goes on growing by more than the headroom is enough.\<close>
lemma read_loop_ends:
  assumes "kernel_answers query need" "\<And>n. n \<le> m + Suc k \<Longrightarrow> need n + HEADROOM < 2 ^ 32"
    and "need (m + Suc k) \<le> need (m + k) + HEADROOM" "len < 2 ^ 32" "want < 2 ^ 32"
  shows "\<exists>n l. n \<le> m + Suc k \<and> read_loop query (k + 2 + spare) m len want = Some (Inr (l, need n)) \<and>
    need n \<le> l \<and> len \<le> l \<and> want \<le> l"
  using assms
proof (induction k arbitrary: m len want)
  case 0
  define l0 where "l0 = (if len < want then want else len)"
  define l1 where "l1 = (if l0 < need m + HEADROOM then need m + HEADROOM else l0)"
  have b: "l0 < 2 ^ 32" "need m + HEADROOM < 2 ^ 32" "need (Suc m) + HEADROOM < 2 ^ 32" "len \<le> l0" "want \<le> l0"
    using 0 by (simp_all add: l0_def)
  then have "l1 < 2 ^ 32" by (simp add: l1_def)
  have loops: "read_loop query (Suc (Suc spare)) m len want =
      (if l0 < need m then read_loop query (Suc spare) (Suc m) l0 (need m + HEADROOM) else Some (Inr (l0, need m)))"
    using b by (intro read_loop_step [OF "0.prems"(1) l0_def]) simp_all
  have looped: "read_loop query (Suc spare) (Suc m) l0 (need m + HEADROOM) =
      (if l1 < need (Suc m) then read_loop query spare (Suc (Suc m)) l1 (need (Suc m) + HEADROOM)
       else Some (Inr (l1, need (Suc m))))"
    using b \<open>l1 < 2 ^ 32\<close> by (intro read_loop_step [OF "0.prems"(1) l1_def]) simp_all
  have grown: "need (Suc m) \<le> l1" "l0 \<le> l1" using "0.prems"(3) by (simp_all add: l1_def)
  have fuel: "0 + 2 + spare = Suc (Suc spare)" by simp
  show ?case
  proof (cases "l0 < need m")
    case True
    then show ?thesis
      using loops looped grown b(4,5) unfolding fuel
      by (intro exI [of _ "Suc m"] exI [of _ l1]) (simp del: read_loop.simps)
  next
    case False
    then show ?thesis using loops b(4,5) unfolding fuel by (intro exI [of _ m] exI [of _ l0]) (simp del: read_loop.simps)
  qed
next
  case (Suc k)
  define l0 where "l0 = (if len < want then want else len)"
  have b: "l0 < 2 ^ 32" "need m + HEADROOM < 2 ^ 32" "len \<le> l0" "want \<le> l0"
    using Suc.prems by (simp_all add: l0_def)
  have step: "read_loop query (Suc (k + 2 + spare)) m len want =
      (if l0 < need m then read_loop query (k + 2 + spare) (Suc m) l0 (need m + HEADROOM) else Some (Inr (l0, need m)))"
    using b by (intro read_loop_step [OF Suc.prems(1) l0_def]) simp_all
  show ?case
  proof (cases "l0 < need m")
    case True
    have "\<exists>n l. n \<le> Suc m + Suc k \<and> read_loop query (k + 2 + spare) (Suc m) l0 (need m + HEADROOM) = Some (Inr (l, need n)) \<and>
        need n \<le> l \<and> l0 \<le> l \<and> need m + HEADROOM \<le> l"
      using Suc.prems b by (intro Suc.IH) simp_all
    then show ?thesis using step True b(3,4) by fastforce
  next
    case False
    then show ?thesis using step b(3,4) by (intro exI [of _ m] exI [of _ l0]) simp
  qed
qed

text \<open>
  C9 Reading the process list ends once the list stops growing by more than the
  headroom between two calls, however many times it has before: if it grows by no
  more from the k-th call to the next, the loop ends by that next call, with a
  buffer that holds the whole list of the call it ended at, and never a shorter one
  than it had. Enough room is made for what may have started in between, so the loop
  does not chase a growing list.
\<close>
theorem read_ends:
  assumes "kernel_answers query need" "\<And>n. n \<le> Suc k \<Longrightarrow> need n + HEADROOM < 2 ^ 32"
    and "need (Suc k) \<le> need k + HEADROOM" "len < 2 ^ 32"
  shows "\<exists>n l. n \<le> Suc k \<and> read_list query (k + 2 + spare) len = Some (Inr (l, need n)) \<and> need n \<le> l \<and> len \<le> l"
proof -
  have "max len INITIAL_BUFFER_SIZE < 2 ^ 32" using assms(4) by (simp add: INITIAL_BUFFER_SIZE_def)
  with read_loop_ends [of query need 0 k len "max len INITIAL_BUFFER_SIZE" spare] assms show ?thesis
    unfolding read_list_def by fastforce
qed

text \<open>A list that grows by a megabyte, then by less than the headroom.\<close>
theorem read_ends_witness:
  "\<exists>query need l n. kernel_answers query need \<and> need 1 = 4000000 \<and> need 2 = 4000050 \<and>
    read_list query 3 0 = Some (Inr (l, need n)) \<and> n \<le> 2 \<and> need n \<le> l"
proof -
  let ?need = "\<lambda>n :: nat. if n = 0 then 3000000 else if n = 1 then 4000000 else 4000050 :: nat"
  let ?query = "\<lambda>n len :: u32. if unat len < ?need n then (STATUS_INFO_LENGTH_MISMATCH, of_nat (?need n))
    else (0, of_nat (?need n)) :: i32 \<times> u32"
  have k: "kernel_answers ?query ?need" by (simp add: kernel_answers_def)
  have "?need n + HEADROOM < 2 ^ 32" for n by (simp add: HEADROOM_def)
  moreover have "?need (Suc 1) \<le> ?need 1 + HEADROOM" "(0 :: nat) < 2 ^ 32" by (simp_all add: HEADROOM_def)
  ultimately obtain n l where "n \<le> Suc 1" "read_list ?query (1 + 2 + 0) 0 = Some (Inr (l, ?need n))" "?need n \<le> l"
    using read_ends [OF k, of 1 0 0] by blast
  moreover have "(1 + 2 + 0 :: nat) = 3" "Suc 1 = 2" by simp_all
  ultimately have "read_list ?query 3 0 = Some (Inr (l, ?need n))" "n \<le> 2" "?need n \<le> l" by metis+
  moreover have "?need 1 = 4000000" "?need 2 = 4000050" by simp_all
  ultimately show ?thesis using k by blast
qed

end
