(* ===== verification/Sample.thy ===== *)
theory Sample
  imports Snapshot
begin

text \<open>
  \<^verbatim>\<open>crates/core/src/sample.rs\<close>: which counters a subscriber wants, the columns
  and machine groups that carry them, and what a subscriber is given of a
  sample that was taken for more than it asked. The \<^verbatim>\<open>columns!\<close> table of the
  source is \<^verbatim>\<open>column_of\<close>, one equation per row; the struct it generates, with
  one optional field per row, is a function from the metric to its column.
\<close>

section \<open>Counters\<close>

definition NO_DATA_U32 :: u32 where
  "NO_DATA_U32 = - 1"

definition NO_DATA_U64 :: u64 where
  "NO_DATA_U64 = - 1"

definition MIN_INTERVAL :: duration where
  "MIN_INTERVAL = millis 100"

definition MAX_INTERVAL :: duration where
  "MAX_INTERVAL = secs 60"

text \<open>One process counter.\<close>
datatype process_metric =
    CpuUserTime | CpuKernelTime | CpuCycles | WorkingSet | PeakWorkingSet
  | PrivateWorkingSet | Commit | PagedPool | NonPagedPool | PageFaults
  | Handles | Threads | UserObjects | GdiObjects | IoReadOps
  | IoWriteOps | IoOtherOps | IoReadBytes | IoWriteBytes | IoOtherBytes
  | DiskReadOps | DiskWriteOps | DiskFlushOps | DiskReadBytes | DiskWriteBytes
  | NetRxBytes | NetTxBytes | VirtualSize | PeakVirtualSize | PeakCommit
  | PeakPagedPool | PeakNonPagedPool | HardFaults | PeakThreads | ContextSwitches
  | GpuDedicated | GpuShared | GpuEngines | ExclusiveMapped | VmWorkingSet

text \<open>Declaration order, in which a set of counters is iterated.\<close>
definition process_metric_list :: "process_metric list" where
  "process_metric_list =
    [CpuUserTime, CpuKernelTime, CpuCycles, WorkingSet, PeakWorkingSet,
     PrivateWorkingSet, Commit, PagedPool, NonPagedPool, PageFaults,
     Handles, Threads, UserObjects, GdiObjects, IoReadOps,
     IoWriteOps, IoOtherOps, IoReadBytes, IoWriteBytes, IoOtherBytes,
     DiskReadOps, DiskWriteOps, DiskFlushOps, DiskReadBytes, DiskWriteBytes,
     NetRxBytes, NetTxBytes, VirtualSize, PeakVirtualSize, PeakCommit,
     PeakPagedPool, PeakNonPagedPool, HardFaults, PeakThreads, ContextSwitches,
     GpuDedicated, GpuShared, GpuEngines, ExclusiveMapped, VmWorkingSet]"

text \<open>A group of machine counters.\<close>
datatype machine_metric =
  M_Cpu | M_Memory | M_Disk | M_Network | M_Processors | M_Gpu | M_NetworkAdapters | M_Temperatures

definition machine_metric_list :: "machine_metric list" where
  "machine_metric_list =
    [M_Cpu, M_Memory, M_Disk, M_Network, M_Processors, M_Gpu, M_NetworkAdapters, M_Temperatures]"

definition has_gaps :: "process_metric \<Rightarrow> bool" where
  "has_gaps m \<longleftrightarrow> m \<notin> {PageFaults, HardFaults}"

section \<open>What a subscriber wants\<close>

record metric_spec =
  ms_interval :: duration
  ms_processes :: "process_metric set"
  ms_machine :: "machine_metric set"

definition spec_idle :: "duration \<Rightarrow> metric_spec" where
  "spec_idle interval = \<lparr>ms_interval = interval, ms_processes = {}, ms_machine = {}\<rparr>"

text \<open>\<^verbatim>\<open>Duration::clamp\<close>\<close>
definition period :: "metric_spec \<Rightarrow> duration" where
  "period spec =
    (if ms_interval spec < MIN_INTERVAL then MIN_INTERVAL
     else if ms_interval spec > MAX_INTERVAL then MAX_INTERVAL
     else ms_interval spec)"

definition spec_union :: "metric_spec \<Rightarrow> metric_spec \<Rightarrow> metric_spec" where
  "spec_union a b =
    \<lparr>ms_interval = min (period a) (period b),
     ms_processes = ms_processes a \<union> ms_processes b,
     ms_machine = ms_machine a \<union> ms_machine b\<rparr>"

definition covers :: "metric_spec \<Rightarrow> metric_spec \<Rightarrow> bool" where
  "covers a b \<longleftrightarrow> ms_processes b \<subseteq> ms_processes a \<and> ms_machine b \<subseteq> ms_machine a"

definition reads_processes :: "metric_spec \<Rightarrow> bool" where
  "reads_processes spec \<longleftrightarrow> ms_processes spec \<noteq> {} \<or> ms_machine spec = {}"

definition spec_default :: metric_spec where
  "spec_default = spec_idle MAX_INTERVAL"

section \<open>Columns\<close>

text \<open>What the core knows of a listed process beside its snapshot row.\<close>
record extras =
  x_user_objects :: "row \<Rightarrow> u32"
  x_gdi_objects :: "row \<Rightarrow> u32"
  x_net_rx_bytes :: "row \<Rightarrow> u64"
  x_net_tx_bytes :: "row \<Rightarrow> u64"
  x_gpu_dedicated :: "row \<Rightarrow> u64"
  x_gpu_shared :: "row \<Rightarrow> u64"
  x_exclusive_mapped :: "row \<Rightarrow> u64"
  x_vm_working_set :: "row \<Rightarrow> u64"

datatype column = C64 "u64 list" | C32 "u32 list"

type_synonym columns = "process_metric \<Rightarrow> column option"

definition no_columns :: columns where
  "no_columns = (\<lambda>_. None)"

text \<open>The table: each counter's column out of the rows and what is known beside them.\<close>
fun column_of :: "extras \<Rightarrow> row list \<Rightarrow> process_metric \<Rightarrow> column option" where
  "column_of x rows CpuUserTime = Some (C64 (map r_user_time rows))"
| "column_of x rows CpuKernelTime = Some (C64 (map r_kernel_time rows))"
| "column_of x rows CpuCycles = Some (C64 (map r_cycles rows))"
| "column_of x rows WorkingSet = Some (C64 (map r_working_set rows))"
| "column_of x rows PeakWorkingSet = Some (C64 (map r_peak_working_set rows))"
| "column_of x rows PrivateWorkingSet = Some (C64 (map r_private_working_set rows))"
| "column_of x rows Commit = Some (C64 (map r_commit rows))"
| "column_of x rows PagedPool = Some (C64 (map r_paged_pool rows))"
| "column_of x rows NonPagedPool = Some (C64 (map r_nonpaged_pool rows))"
| "column_of x rows PageFaults = Some (C32 (map r_page_faults rows))"
| "column_of x rows Handles = Some (C32 (map r_handles rows))"
| "column_of x rows Threads = Some (C32 (map r_threads rows))"
| "column_of x rows UserObjects = Some (C32 (map (x_user_objects x) rows))"
| "column_of x rows GdiObjects = Some (C32 (map (x_gdi_objects x) rows))"
| "column_of x rows IoReadOps = Some (C64 (map r_io_read_ops rows))"
| "column_of x rows IoWriteOps = Some (C64 (map r_io_write_ops rows))"
| "column_of x rows IoOtherOps = Some (C64 (map r_io_other_ops rows))"
| "column_of x rows IoReadBytes = Some (C64 (map r_io_read_bytes rows))"
| "column_of x rows IoWriteBytes = Some (C64 (map r_io_write_bytes rows))"
| "column_of x rows IoOtherBytes = Some (C64 (map r_io_other_bytes rows))"
| "column_of x rows DiskReadOps = Some (C64 (map r_disk_read_ops rows))"
| "column_of x rows DiskWriteOps = Some (C64 (map r_disk_write_ops rows))"
| "column_of x rows DiskFlushOps = Some (C64 (map r_disk_flush_ops rows))"
| "column_of x rows DiskReadBytes = Some (C64 (map r_disk_read_bytes rows))"
| "column_of x rows DiskWriteBytes = Some (C64 (map r_disk_write_bytes rows))"
| "column_of x rows NetRxBytes = Some (C64 (map (x_net_rx_bytes x) rows))"
| "column_of x rows NetTxBytes = Some (C64 (map (x_net_tx_bytes x) rows))"
| "column_of x rows VirtualSize = Some (C64 (map r_virtual_size rows))"
| "column_of x rows PeakVirtualSize = Some (C64 (map r_peak_virtual_size rows))"
| "column_of x rows PeakCommit = Some (C64 (map r_peak_commit rows))"
| "column_of x rows PeakPagedPool = Some (C64 (map r_peak_paged_pool rows))"
| "column_of x rows PeakNonPagedPool = Some (C64 (map r_peak_nonpaged_pool rows))"
| "column_of x rows HardFaults = Some (C32 (map r_hard_faults rows))"
| "column_of x rows PeakThreads = Some (C32 (map r_peak_threads rows))"
| "column_of x rows ContextSwitches = Some (C64 (map r_context_switches rows))"
| "column_of x rows GpuDedicated = Some (C64 (map (x_gpu_dedicated x) rows))"
| "column_of x rows GpuShared = Some (C64 (map (x_gpu_shared x) rows))"
| "column_of x rows ExclusiveMapped = Some (C64 (map (x_exclusive_mapped x) rows))"
| "column_of x rows VmWorkingSet = Some (C64 (map (x_vm_working_set x) rows))"
| "column_of x rows GpuEngines = None"

definition columns_build :: "process_metric set \<Rightarrow> row list \<Rightarrow> extras \<Rightarrow> columns" where
  "columns_build wanted rows x = (\<lambda>m. if m \<in> wanted then column_of x rows m else None)"

definition columns_project :: "columns \<Rightarrow> process_metric set \<Rightarrow> columns" where
  "columns_project c wanted = (\<lambda>m. if m \<in> wanted then c m else None)"

fun column_has_max :: "column \<Rightarrow> bool" where
  "column_has_max (C64 values) \<longleftrightarrow> NO_DATA_U64 \<in> set values"
| "column_has_max (C32 values) \<longleftrightarrow> NO_DATA_U32 \<in> set values"

definition without_gaps :: "columns \<Rightarrow> columns" where
  "without_gaps c =
    (\<lambda>m. case c m of
           None \<Rightarrow> None
         | Some values \<Rightarrow>
             if \<not> has_gaps m \<or> \<not> column_has_max values then Some values else None)"

section \<open>The machine's groups\<close>

record machine_cpu =
  cpu_idle_time :: u64
  cpu_kernel_time :: u64
  cpu_user_time :: u64
  cpu_interrupt_time :: u64
  cpu_dpc_time :: u64
  cpu_max_mhz :: u32
  cpu_current_mhz :: u32

record machine_processor =
  lp_idle_time :: u64
  lp_kernel_time :: u64
  lp_user_time :: u64
  lp_interrupt_time :: u64
  lp_dpc_time :: u64

record machine_memory =
  mem_total_physical :: u64
  mem_available_physical :: u64
  mem_commit_limit :: u64
  mem_committed :: u64

record machine_disk =
  disk_read_ops :: u64
  disk_write_ops :: u64
  disk_read_bytes :: u64
  disk_write_bytes :: u64

record machine_network =
  net_rx_bytes :: u64
  net_tx_bytes :: u64

record network_adapter =
  na_luid :: u64
  na_name :: string
  na_description :: string
  na_if_type :: u32
  na_hardware :: bool
  na_receive_link_speed :: u64
  na_transmit_link_speed :: u64
  na_rx_bytes :: u64
  na_tx_bytes :: u64

datatype gpu_engine_kind =
    EngineOther | EngineThreeD | EngineVideoDecode | EngineVideoEncode | EngineVideoProcessing
  | EngineSceneAssembly | EngineCopy | EngineOverlay | EngineCrypto | EngineVideoCodec

record gpu_engine =
  ge_ordinal :: u32
  ge_kind :: gpu_engine_kind
  ge_name :: string
  ge_running_time :: u64
  ge_frequency :: u64
  ge_max_frequency :: u64

record gpu_adapter =
  ga_luid :: u64
  ga_name :: string
  ga_dedicated_limit :: u64
  ga_dedicated_usage :: u64
  ga_shared_limit :: u64
  ga_shared_usage :: u64
  ga_temperature :: u32
  ga_fan_rpm :: u32
  ga_power :: u32
  ga_memory_frequency :: u64
  ga_engines :: "gpu_engine list"

record process_gpu_engine =
  pge_row :: u32
  pge_adapter_luid :: u64
  pge_engine :: u32
  pge_running_time :: u64

datatype temperature_status = TempUnknown | TempAvailable | TempUnavailable | TempError

datatype temperature_category =
  TempOfCpu | TempOfGpu | TempOfMemory | TempOfStorage | TempOfUnknown

record temperature_sensor =
  ts_id :: string
  ts_name :: string
  ts_celsius :: "f64 option"

record temperature_device =
  td_id :: string
  td_name :: string
  td_category :: temperature_category
  td_status :: temperature_status
  td_error :: string
  td_sensors :: "temperature_sensor list"

record machine_temperatures =
  mt_status :: temperature_status
  mt_error :: string
  mt_devices :: "temperature_device list"

record machine_system_stats =
  sys_process_count :: u32
  sys_thread_count :: u32
  sys_handle_count :: u32
  sys_uptime_ms :: u64

record cpu_inventory =
  ci_active_package_count :: "u32 option"
  ci_physical_core_count :: "u32 option"
  ci_logical_processor_count :: "u32 option"
  ci_l1_cache_bytes :: "u64 option"
  ci_l2_cache_bytes :: "u64 option"
  ci_l3_cache_bytes :: "u64 option"
  ci_base_mhz :: "u32 option"
  ci_virtualization_hardware_supported :: "bool option"
  ci_virtualization_firmware_enabled :: "bool option"
  ci_hypervisor_present :: "bool option"

record machine_sample =
  m_cpu :: "machine_cpu option"
  m_cpu_name :: "string option"
  m_system_stats :: "machine_system_stats option"
  m_cpu_inventory :: "cpu_inventory option"
  m_memory :: "machine_memory option"
  m_disk :: "machine_disk option"
  m_network :: "machine_network option"
  m_processors :: "machine_processor list option"
  m_gpus :: "gpu_adapter list option"
  m_network_adapters :: "network_adapter list option"
  m_temperatures :: "machine_temperatures option"

definition machine_sample_default :: machine_sample where
  "machine_sample_default =
    \<lparr>m_cpu = None, m_cpu_name = None, m_system_stats = None, m_cpu_inventory = None,
     m_memory = None, m_disk = None, m_network = None, m_processors = None, m_gpus = None,
     m_network_adapters = None, m_temperatures = None\<rparr>"

text \<open>\<^verbatim>\<open>opt.filter(|_| condition)\<close>\<close>
definition kept_if :: "bool \<Rightarrow> 'a option \<Rightarrow> 'a option" where
  "kept_if b v = (if b then v else None)"

definition machine_project :: "machine_sample \<Rightarrow> machine_metric set \<Rightarrow> machine_sample" where
  "machine_project s wanted =
    \<lparr>m_cpu = kept_if (M_Cpu \<in> wanted) (m_cpu s),
     m_cpu_name = kept_if (M_Cpu \<in> wanted) (m_cpu_name s),
     m_system_stats = kept_if (M_Cpu \<in> wanted) (m_system_stats s),
     m_cpu_inventory = kept_if (M_Cpu \<in> wanted) (m_cpu_inventory s),
     m_memory = kept_if (M_Memory \<in> wanted) (m_memory s),
     m_disk = kept_if (M_Disk \<in> wanted) (m_disk s),
     m_network = kept_if (M_Network \<in> wanted) (m_network s),
     m_processors = kept_if (M_Processors \<in> wanted) (m_processors s),
     m_gpus = kept_if (M_Gpu \<in> wanted) (m_gpus s),
     m_network_adapters = kept_if (M_NetworkAdapters \<in> wanted) (m_network_adapters s),
     m_temperatures = kept_if (M_Temperatures \<in> wanted) (m_temperatures s)\<rparr>"

section \<open>Samples\<close>

record sample =
  s_snapshot :: u64
  s_sampled_at :: u64
  s_period :: duration
  s_wanted :: metric_spec
  s_passport_etag :: u64
  s_pids :: "u32 list"
  s_sequence_numbers :: "u64 list"
  s_columns :: columns
  s_gpu_engines :: "process_gpu_engine list option"
  s_machine :: machine_sample

text \<open>\<^verbatim>\<open>Sample::default()\<close>\<close>
definition sample_default :: sample where
  "sample_default =
    \<lparr>s_snapshot = 0, s_sampled_at = 0, s_period = 0, s_wanted = spec_default, s_passport_etag = 0,
     s_pids = [], s_sequence_numbers = [], s_columns = no_columns, s_gpu_engines = None,
     s_machine = machine_sample_default\<rparr>"

text \<open>Only what the spec asks for.\<close>
definition sample_project :: "sample \<Rightarrow> metric_spec \<Rightarrow> sample" where
  "sample_project s spec =
    (let rows = ms_processes spec \<noteq> {}
     in s\<lparr>s_wanted := spec,
          s_pids := (if rows then s_pids s else []),
          s_sequence_numbers := (if rows then s_sequence_numbers s else []),
          s_columns := columns_project (s_columns s) (ms_processes spec),
          s_gpu_engines := kept_if (GpuEngines \<in> ms_processes spec) (s_gpu_engines s),
          s_machine := machine_project (s_machine s) (ms_machine spec)\<rparr>)"

text \<open>
  \<^verbatim>\<open>now_100ns\<close>: the counter in 100 ns units through 128-bit arithmetic, 0 without a
  frequency; the two readings are parameters.
\<close>
definition now_100ns :: "64 word \<Rightarrow> 64 word \<Rightarrow> u64" where
  "now_100ns ticks frequency =
    (if frequency \<le>s 0 then 0
     else ucast ((scast ticks :: 128 word) * 10000000 div scast frequency))"


section \<open>Coverage\<close>

text \<open>
  The interface a scheduler needs of what it collects: joining two wants gives
  the least want that covers both.
\<close>
locale coverage =
  fixes join :: "'a \<Rightarrow> 'a \<Rightarrow> 'a"
    and cov :: "'a \<Rightarrow> 'a \<Rightarrow> bool"
  assumes cov_refl: "cov a a"
    and cov_trans: "cov a b \<Longrightarrow> cov b c \<Longrightarrow> cov a c"
    and join_left: "cov (join a b) a"
    and join_right: "cov (join a b) b"
    and join_least: "cov c a \<Longrightarrow> cov c b \<Longrightarrow> cov c (join a b)"
begin

lemma foldl_start: "cov (foldl join a xs) a"
proof (induction xs arbitrary: a)
  case Nil
  show ?case by (simp add: cov_refl)
next
  case (Cons x xs)
  show ?case using cov_trans [OF Cons.IH [of "join a x"] join_left] by simp
qed

lemma foldl_member: "x \<in> set xs \<Longrightarrow> cov (foldl join a xs) x"
proof (induction xs arbitrary: a)
  case Nil
  then show ?case by simp
next
  case (Cons y ys)
  then show ?case
    using cov_trans [OF foldl_start [of "join a y" ys] join_right] by auto
qed

lemma foldl_least: "cov c a \<Longrightarrow> (\<And>x. x \<in> set xs \<Longrightarrow> cov c x) \<Longrightarrow> cov c (foldl join a xs)"
  by (induction xs arbitrary: a) (auto intro: join_least)

lemma foldl_covers_iff:
  "cov c (foldl join a xs) \<longleftrightarrow> cov c a \<and> (\<forall>x \<in> set xs. cov c x)"
  by (meson cov_trans foldl_least foldl_member foldl_start)

end

interpretation wants: coverage spec_union covers
  by unfold_locales (auto simp: covers_def spec_union_def)

lemma period_bounds: "MIN_INTERVAL \<le> period spec \<and> period spec \<le> MAX_INTERVAL"
  by (simp add: period_def MIN_INTERVAL_def MAX_INTERVAL_def)

lemma period_fixed: "MIN_INTERVAL \<le> i \<Longrightarrow> i \<le> MAX_INTERVAL \<Longrightarrow> ms_interval spec = i \<Longrightarrow> period spec = i"
  by (simp add: period_def)

lemma period_union [simp]: "period (spec_union a b) = min (period a) (period b)"
  using period_bounds [of a] period_bounds [of b]
  by (intro period_fixed) (auto simp: spec_union_def)

lemma spec_union_interval [simp]: "ms_interval (spec_union a b) = min (period a) (period b)"
  by (simp add: spec_union_def)

lemma reads_processes_union:
  "reads_processes (spec_union a b) \<longrightarrow> reads_processes a \<or> reads_processes b"
  by (auto simp: reads_processes_def spec_union_def)

section \<open>Projection\<close>

lemma kept_if_twice: "(b \<Longrightarrow> a) \<Longrightarrow> kept_if b (kept_if a v) = kept_if b v"
  by (auto simp: kept_if_def)

lemma machine_project_twice:
  "ms \<subseteq> ms' \<Longrightarrow> machine_project (machine_project s ms') ms = machine_project s ms"
  by (auto simp: machine_project_def intro!: kept_if_twice)

lemma columns_project_twice: "ms \<subseteq> ms' \<Longrightarrow> columns_project (columns_project c ms') ms = columns_project c ms"
  by (rule ext) (auto simp: columns_project_def)

lemma columns_project_build:
  "ms \<subseteq> ms' \<Longrightarrow> columns_project (columns_build ms' rows x) ms = columns_build ms rows x"
  by (rule ext) (auto simp: columns_project_def columns_build_def)

fun column_length :: "column \<Rightarrow> nat" where
  "column_length (C64 values) = length values"
| "column_length (C32 values) = length values"

lemma column_of_length: "column_of x rows m = Some c \<Longrightarrow> column_length c = length rows"
  by (cases m) auto

lemma without_gaps_project:
  "without_gaps (columns_project c ms) = columns_project (without_gaps c) ms"
  by (rule ext) (auto simp: without_gaps_def columns_project_def)

lemma without_gaps_no_max:
  "without_gaps c m = Some values \<Longrightarrow> has_gaps m \<Longrightarrow> \<not> column_has_max values"
  by (auto simp: without_gaps_def split: option.splits if_splits)

lemma sample_project_twice:
  "covers a b \<Longrightarrow> sample_project (sample_project s a) b = sample_project s b"
  by (cases s) (auto simp: covers_def sample_project_def Let_def columns_project_twice
      machine_project_twice intro: kept_if_twice)

text \<open>
  A sample taken for a union of wants serves each of them: giving a
  subscriber its part of a sample that was first narrowed to a want covering
  its own is the same as giving it its part of the whole sample, and a column
  built for the union is, where the subscriber asked for it, the very column
  that would have been built for it alone, one value per row.
\<close>
theorem projection_of_covering_sample:
  assumes "covers a b"
  shows "sample_project (sample_project s a) b = sample_project s b \<and>
    columns_project (columns_build (ms_processes a) rows x) (ms_processes b) =
      columns_build (ms_processes b) rows x \<and>
    (\<forall>m c. columns_build (ms_processes b) rows x m = Some c \<longrightarrow> column_length c = length rows)"
proof (intro conjI allI impI)
  from assms show "sample_project (sample_project s a) b = sample_project s b"
    by (rule sample_project_twice)
  from assms show "columns_project (columns_build (ms_processes a) rows x) (ms_processes b) =
      columns_build (ms_processes b) rows x"
    by (simp add: covers_def columns_project_build)
  fix m c
  assume "columns_build (ms_processes b) rows x m = Some c"
  then show "column_length c = length rows"
    by (simp add: columns_build_def column_of_length split: if_splits)
qed

theorem projection_of_covering_sample_witness:
  "\<exists>s a b. covers a b \<and> a \<noteq> b \<and> s_pids (sample_project s a) = [7] \<and>
    sample_project (sample_project s a) b = sample_project s b"
proof -
  let ?a = "\<lparr>ms_interval = 5, ms_processes = {Handles, Threads}, ms_machine = {M_Cpu}\<rparr>"
  let ?b = "\<lparr>ms_interval = 5, ms_processes = {Threads}, ms_machine = {}\<rparr>"
  let ?s = "sample_default\<lparr>s_pids := [7]\<rparr>"
  have "covers ?a ?b" by (simp add: covers_def)
  moreover have "s_pids (sample_project ?s ?a) = [7]"
    by (simp add: sample_project_def)
  moreover have "?a \<noteq> ?b" by simp
  ultimately show ?thesis
    using projection_of_covering_sample [of ?a ?b ?s "[]" undefined] by blast
qed

end
