(* ===== verification/Schedule.thy ===== *)
theory Schedule
  imports Sample
begin

text \<open>
  \<^verbatim>\<open>crates/core/src/schedule.rs\<close>: every interval the demand asks for, kept on
  time apart from the others.
\<close>

section \<open>The schedule as written\<close>

text \<open>What one tick samples.\<close>
record due_spec =
  d_spec :: metric_spec
  d_reads_processes :: bool

record cadence =
  c_spec :: metric_spec
  c_on_time :: instant
  c_sampled_for :: metric_spec

text \<open>\<^verbatim>\<open>Schedule { cadences }\<close>\<close>
type_synonym schedule = "cadence list"

definition schedule_new :: schedule where
  "schedule_new = []"

definition clamped :: "metric_spec \<Rightarrow> metric_spec" where
  "clamped spec = spec\<lparr>ms_interval := period spec\<rparr>"

text \<open>Joins a spec to the group of its interval, or starts one.\<close>
fun join_group :: "metric_spec \<Rightarrow> (metric_spec \<times> bool) list \<Rightarrow> (metric_spec \<times> bool) list" where
  "join_group spec [] = [(clamped spec, reads_processes spec)]"
| "join_group spec ((g, reads) # groups) =
    (if ms_interval g = ms_interval (clamped spec) then
       (spec_union g (clamped spec), reads \<or> reads_processes spec) # groups
     else (g, reads) # join_group spec groups)"

definition by_interval :: "metric_spec list \<Rightarrow> (metric_spec \<times> bool) list" where
  "by_interval specs = fold join_group specs []"

definition take_known :: "duration \<Rightarrow> cadence list \<Rightarrow> cadence option \<times> cadence list" where
  "take_known interval before =
    (case position (\<lambda>c. ms_interval (c_spec c) = interval) before of
       None \<Rightarrow> (None, before)
     | Some at \<Rightarrow> (Some (before ! at), swap_remove before at))"

definition is_due :: "cadence option \<Rightarrow> metric_spec \<Rightarrow> instant \<Rightarrow> bool" where
  "is_due known spec now =
    (case known of None \<Rightarrow> True | Some c \<Rightarrow> c_on_time c + ms_interval spec \<le> now)"

definition is_grown :: "cadence option \<Rightarrow> metric_spec \<Rightarrow> bool" where
  "is_grown known spec =
    (case known of None \<Rightarrow> True | Some c \<Rightarrow> \<not> covers (c_sampled_for c) spec)"

definition add_due :: "due_spec option \<Rightarrow> metric_spec \<Rightarrow> bool \<Rightarrow> due_spec" where
  "add_due taken spec reads =
    (case taken of
       Some t \<Rightarrow> \<lparr>d_spec = spec_union (d_spec t) spec, d_reads_processes = (d_reads_processes t \<or> reads)\<rparr>
     | None \<Rightarrow> \<lparr>d_spec = spec, d_reads_processes = reads\<rparr>)"

text \<open>The body of the loop of \<^verbatim>\<open>take\<close>: the cadences not seen yet, those kept, what is taken.\<close>
fun take_loop ::
  "(metric_spec \<times> bool) list \<Rightarrow> instant \<Rightarrow> cadence list \<Rightarrow> cadence list \<Rightarrow> due_spec option
    \<Rightarrow> cadence list \<times> due_spec option" where
  "take_loop [] now before cadences taken = (cadences, taken)"
| "take_loop ((spec, reads) # groups) now before cadences taken =
    (let (known, before) = take_known (ms_interval spec) before;
         due = is_due known spec now;
         grown = is_grown known spec;
         on_time = (case known of Some c \<Rightarrow> if \<not> due then c_on_time c else now | None \<Rightarrow> now);
         (sampled_for, taken) =
           (case known of
              Some c \<Rightarrow> if \<not> due \<and> \<not> grown then (c_sampled_for c, taken)
                        else (spec, Some (add_due taken spec reads))
            | None \<Rightarrow> (spec, Some (add_due taken spec reads)))
     in take_loop groups now before
          (cadences @ [\<lparr>c_spec = spec, c_on_time = on_time, c_sampled_for = sampled_for\<rparr>]) taken)"

definition schedule_take ::
  "schedule \<Rightarrow> metric_spec list \<Rightarrow> instant \<Rightarrow> schedule \<times> due_spec option" where
  "schedule_take s specs now = take_loop (by_interval specs) now s [] None"

text \<open>When the next interval is due; None before the first take.\<close>
definition schedule_due :: "schedule \<Rightarrow> instant option" where
  "schedule_due s =
    (case map (\<lambda>c. c_on_time c + ms_interval (c_spec c)) s of
       [] \<Rightarrow> None
     | t # ts \<Rightarrow> Some (foldl min t ts))"


section \<open>Grouping by interval\<close>

lemma period_clamped [simp]: "period (clamped spec) = period spec"
  using period_bounds [of spec] by (intro period_fixed) (auto simp: clamped_def)

lemma interval_clamped [simp]: "ms_interval (clamped spec) = period spec"
  by (simp add: clamped_def)

lemma covers_clamped [simp]: "covers c (clamped spec) = covers c spec"
  by (simp add: covers_def clamped_def)

abbreviation group_interval :: "metric_spec \<times> bool \<Rightarrow> duration" where
  "group_interval g \<equiv> ms_interval (fst g)"

definition in_bounds :: "metric_spec \<times> bool \<Rightarrow> bool" where
  "in_bounds g \<longleftrightarrow> MIN_INTERVAL \<le> group_interval g \<and> group_interval g \<le> MAX_INTERVAL"

lemma in_bounds_period: "in_bounds (g, r) \<Longrightarrow> period g = ms_interval g"
  by (simp add: in_bounds_def period_fixed)

lemma join_group_intervals:
  "list_all in_bounds gs \<Longrightarrow> map group_interval (join_group s gs) =
    (if period s \<in> set (map group_interval gs) then map group_interval gs
     else map group_interval gs @ [period s])"
proof (induction s gs rule: join_group.induct)
  case (2 spec g reads groups)
  then have "in_bounds (g, reads)" by simp
  from in_bounds_period [OF this] 2 show ?case by simp
qed simp

lemma join_group_bounds: "list_all in_bounds gs \<Longrightarrow> list_all in_bounds (join_group s gs)"
  using period_bounds
  by (induction s gs rule: join_group.induct) (auto simp: in_bounds_def min_def)

lemma join_group_member:
  assumes "list_all in_bounds gs" "distinct (map group_interval gs)" "(g', r') \<in> set (join_group s gs)"
  shows "(ms_interval g' \<noteq> period s \<and> (g', r') \<in> set gs) \<or>
    (\<exists>g r. (g, r) \<in> set gs \<and> ms_interval g = period s \<and>
       g' = spec_union g (clamped s) \<and> ms_interval g' = period s \<and> r' = (r \<or> reads_processes s)) \<or>
    (period s \<notin> group_interval ` set gs \<and> g' = clamped s \<and> r' = reads_processes s)"
  using assms
proof (induction s gs rule: join_group.induct)
  case (1 spec)
  then show ?case by auto
next
  case (2 spec g reads groups)
  show ?case
  proof (cases "ms_interval g = period spec")
    case True
    then have eq: "join_group spec ((g, reads) # groups) =
        (spec_union g (clamped spec), reads \<or> reads_processes spec) # groups" by simp
    have "in_bounds (g, reads)" using 2(2) by simp
    then have "period g = period spec" using True in_bounds_period by metis
    moreover have "ms_interval h \<noteq> period spec" if "(h, r) \<in> set groups" for h r
      using 2(3) True that by force
    moreover have "(g', r') = (spec_union g (clamped spec), reads \<or> reads_processes spec) \<or>
        (g', r') \<in> set groups"
      using 2(4) unfolding eq by simp
    ultimately show ?thesis using True by (elim disjE) auto
  next
    case False
    with 2 show ?thesis by (auto simp: image_iff)
  qed
qed

text \<open>What the group of an interval stands for: exactly the specs of that interval.\<close>
definition group_of :: "metric_spec list \<Rightarrow> metric_spec \<times> bool \<Rightarrow> bool" where
  "group_of specs = (\<lambda>(g, r).
    (\<forall>c. covers c g \<longleftrightarrow> (\<forall>s \<in> set specs. period s = ms_interval g \<longrightarrow> covers c s)) \<and>
    (r \<longleftrightarrow> (\<exists>s \<in> set specs. period s = ms_interval g \<and> reads_processes s)) \<and>
    (\<exists>s \<in> set specs. period s = ms_interval g))"

lemma covers_union: "covers c (spec_union a b) \<longleftrightarrow> covers c a \<and> covers c b"
  by (auto simp: covers_def spec_union_def)

lemma by_interval_snoc: "by_interval (specs @ [s]) = join_group s (by_interval specs)"
  by (simp add: by_interval_def)

lemma by_interval_groups:
  "list_all in_bounds (by_interval specs) \<and> distinct (map group_interval (by_interval specs)) \<and>
   group_interval ` set (by_interval specs) = period ` set specs \<and>
   list_all (group_of specs) (by_interval specs)"
proof (induction specs rule: rev_induct)
  case Nil
  then show ?case by (simp add: by_interval_def)
next
  case (snoc s specs)
  let ?gs = "by_interval specs"
  have b: "list_all in_bounds ?gs" and d: "distinct (map group_interval ?gs)"
    and i: "group_interval ` set ?gs = period ` set specs" and g: "list_all (group_of specs) ?gs"
    using snoc by auto
  note ivs = join_group_intervals [OF b, of s]
  have "distinct (map group_interval (join_group s ?gs))" using d ivs by auto
  moreover have "group_interval ` set (join_group s ?gs) = insert (period s) (period ` set specs)"
    using ivs i by (metis (no_types, lifting) Un_insert_right insert_absorb list.simps(15)
        list.set_map set_append sup_bot_right empty_set)
  moreover have "group_of (specs @ [s]) (g', r')" if m: "(g', r') \<in> set (join_group s ?gs)" for g' r'
    using join_group_member [OF b d m]
  proof (elim disjE exE conjE)
    assume "ms_interval g' \<noteq> period s" "(g', r') \<in> set ?gs"
    with g show ?thesis by (auto simp: group_of_def list_all_iff)
  next
    fix g0 r0
    assume "(g0, r0) \<in> set ?gs" "ms_interval g0 = period s" "g' = spec_union g0 (clamped s)"
      "ms_interval g' = period s" "r' = (r0 \<or> reads_processes s)"
    moreover from this g have "group_of specs (g0, r0)" by (auto simp: list_all_iff)
    ultimately show ?thesis by (auto simp: group_of_def covers_union)
  next
    assume "period s \<notin> group_interval ` set ?gs" "g' = clamped s" "r' = reads_processes s"
    with i show ?thesis by (auto simp: group_of_def image_iff)
  qed
  ultimately show ?case
    using join_group_bounds [OF b, of s] by (auto simp: by_interval_snoc list_all_iff)
qed

section \<open>What a take does, interval by interval\<close>

abbreviation cadence_interval :: "cadence \<Rightarrow> duration" where
  "cadence_interval c \<equiv> ms_interval (c_spec c)"

text \<open>The cadence of an interval.\<close>
definition cadence_at :: "schedule \<Rightarrow> duration \<Rightarrow> cadence option" where
  "cadence_at s i = List.find (\<lambda>c. cadence_interval c = i) s"

definition schedule_ok :: "schedule \<Rightarrow> bool" where
  "schedule_ok s \<longleftrightarrow> distinct (map cadence_interval s)"

lemma cadence_at_iff:
  "schedule_ok s \<Longrightarrow> cadence_at s i = Some c \<longleftrightarrow> c \<in> set s \<and> cadence_interval c = i"
  by (induction s) (auto simp: cadence_at_def schedule_ok_def)

lemma take_known_spec:
  assumes ok: "schedule_ok before" and t: "take_known i before = (known, rest)"
  shows "known = cadence_at before i \<and> schedule_ok rest \<and>
    (\<forall>j. j \<noteq> i \<longrightarrow> cadence_at rest j = cadence_at before j)"
proof (cases "position (\<lambda>c. cadence_interval c = i) before")
  case None
  then have "known = None" "rest = before" using t by (auto simp: take_known_def)
  moreover have "cadence_at before i = None"
    using None by (auto simp: cadence_at_def find_None_iff position_None)
  ultimately show ?thesis using ok by simp
next
  case (Some at)
  then have at: "at < length before" "cadence_interval (before ! at) = i"
    using position_Some by fastforce+
  have k: "known = Some (before ! at)" "rest = swap_remove before at"
    using t Some by (auto simp: take_known_def)
  have m: "mset before = add_mset (before ! at) (mset rest)"
    using mset_swap_remove [OF at(1)] by (simp add: k)
  then have mi: "mset (map cadence_interval before) = add_mset i (mset (map cadence_interval rest))"
    using at by simp
  have ok': "schedule_ok rest" and i: "i \<notin> cadence_interval ` set rest"
    using ok mi unfolding schedule_ok_def
    by (metis (no_types, lifting) distinct.simps(2) mset.simps(2) mset_eq_imp_distinct_iff set_map)+
  have sb: "set before = insert (before ! at) (set rest)"
    using m by (metis set_mset_add_mset_insert set_mset_mset)
  have "cadence_at rest j = cadence_at before j" if "j \<noteq> i" for j
  proof -
    have "cadence_at rest j = Some c \<longleftrightarrow> cadence_at before j = Some c" for c
      using sb that at(2) by (auto simp: cadence_at_iff [OF ok'] cadence_at_iff [OF ok])
    then show ?thesis by (metis not_Some_eq)
  qed
  moreover have "cadence_at before i = Some (before ! at)"
    using at by (simp add: cadence_at_iff [OF ok])
  ultimately show ?thesis using ok' k by simp
qed


text \<open>What one interval comes to, from what was known of it.\<close>
definition next_cadence :: "cadence option \<Rightarrow> metric_spec \<Rightarrow> instant \<Rightarrow> cadence" where
  "next_cadence known spec now =
    (case known of
       None \<Rightarrow> \<lparr>c_spec = spec, c_on_time = now, c_sampled_for = spec\<rparr>
     | Some c \<Rightarrow>
         \<lparr>c_spec = spec,
          c_on_time = (if c_on_time c + ms_interval spec \<le> now then now else c_on_time c),
          c_sampled_for =
            (if c_on_time c + ms_interval spec \<le> now \<or> \<not> covers (c_sampled_for c) spec
             then spec else c_sampled_for c)\<rparr>)"

definition asks_now :: "cadence option \<Rightarrow> metric_spec \<Rightarrow> instant \<Rightarrow> bool" where
  "asks_now known spec now \<longleftrightarrow> is_due known spec now \<or> is_grown known spec"

text \<open>The specification of a take: each group on its own, by its interval's cadence.\<close>
definition take_spec ::
  "schedule \<Rightarrow> (metric_spec \<times> bool) list \<Rightarrow> instant \<Rightarrow> due_spec option \<Rightarrow> cadence list \<times> due_spec option" where
  "take_spec s groups now taken =
    (map (\<lambda>(g, r). next_cadence (cadence_at s (ms_interval g)) g now) groups,
     fold (\<lambda>(g, r) t. if asks_now (cadence_at s (ms_interval g)) g now then Some (add_due t g r) else t)
       groups taken)"

lemma take_loop_spec:
  assumes "schedule_ok before" "distinct (map group_interval groups)"
    "list_all (\<lambda>g. cadence_at before (group_interval g) = cadence_at s (group_interval g)) groups"
  shows "take_loop groups now before cadences taken =
    (cadences @ fst (take_spec s groups now taken), snd (take_spec s groups now taken))"
  using assms
proof (induction groups arbitrary: before cadences taken)
  case Nil
  then show ?case by (simp add: take_spec_def)
next
  case (Cons e groups)
  obtain g r where e: "e = (g, r)" by force
  obtain known rest where t: "take_known (ms_interval g) before = (known, rest)" by force
  have k: "known = cadence_at s (ms_interval g)" and ok: "schedule_ok rest"
    and same: "j \<noteq> ms_interval g \<Longrightarrow> cadence_at rest j = cadence_at before j" for j
    using take_known_spec [OF Cons.prems(1) t] Cons.prems(3) e by auto
  have other: "group_interval h \<noteq> ms_interval g" if "h \<in> set groups" for h
  proof -
    have "group_interval h \<in> group_interval ` set groups" using that by (rule imageI)
    moreover have "ms_interval g \<notin> group_interval ` set groups" using Cons.prems(2) e by simp
    ultimately show ?thesis by metis
  qed
  have lst: "list_all (\<lambda>h. cadence_at rest (group_interval h) = cadence_at s (group_interval h)) groups"
    using Cons.prems(3) same other by (auto simp: list_all_iff)
  have d: "distinct (map group_interval groups)" using Cons.prems(2) by simp
  show ?case
    by (simp add: e t k Let_def Cons.IH [OF ok d lst] take_spec_def next_cadence_def asks_now_def
        is_due_def is_grown_def split: option.splits)
qed

lemma schedule_take_spec:
  "schedule_ok s \<Longrightarrow> schedule_take s specs now = take_spec s (by_interval specs) now None"
  using by_interval_groups [of specs]
  by (simp add: schedule_take_def take_loop_spec [where s = s] list_all_iff)

lemma next_cadence_interval [simp]: "c_spec (next_cadence known spec now) = spec"
  by (simp add: next_cadence_def split: option.splits)

lemma schedule_take_intervals:
  "schedule_ok s \<Longrightarrow> map cadence_interval (fst (schedule_take s specs now)) =
    map group_interval (by_interval specs)"
  by (simp add: schedule_take_spec take_spec_def case_prod_beta comp_def)

lemma schedule_take_ok: "schedule_ok s \<Longrightarrow> schedule_ok (fst (schedule_take s specs now))"
  using by_interval_groups [of specs] by (simp add: schedule_ok_def [of "fst _"] schedule_take_intervals)

text \<open>One thing to sample serves another: all of it, as often, the processes too.\<close>
definition serves :: "due_spec \<Rightarrow> due_spec \<Rightarrow> bool" where
  "serves d e \<longleftrightarrow> covers (d_spec d) (d_spec e) \<and> ms_interval (d_spec d) \<le> ms_interval (d_spec e) \<and>
    (d_reads_processes e \<longrightarrow> d_reads_processes d)"

abbreviation due_of :: "metric_spec \<times> bool \<Rightarrow> due_spec" where
  "due_of g \<equiv> \<lparr>d_spec = fst g, d_reads_processes = snd g\<rparr>"

definition due_bounded :: "due_spec \<Rightarrow> bool" where
  "due_bounded d \<longleftrightarrow> period (d_spec d) = ms_interval (d_spec d)"

lemma serves_trans: "serves a b \<Longrightarrow> serves b c \<Longrightarrow> serves a c"
  unfolding serves_def using wants.cov_trans order.trans by blast

lemma add_due_serves:
  assumes "in_bounds (g, r)" "\<And>e. t = Some e \<Longrightarrow> due_bounded e"
  shows "due_bounded (add_due t g r)" "serves (add_due t g r) (due_of (g, r))"
    "t = Some e \<Longrightarrow> serves (add_due t g r) e"
proof -
  have g: "period g = ms_interval g" by (rule in_bounds_period [OF assms(1)])
  have e: "period (d_spec e) = ms_interval (d_spec e)" if "t = Some e" for e
    using assms(2) [OF that] by (simp add: due_bounded_def)
  show "due_bounded (add_due t g r)"
    using g by (cases t) (simp_all add: add_due_def due_bounded_def)
  show "serves (add_due t g r) (due_of (g, r))"
    using g by (cases t) (simp_all add: add_due_def serves_def wants.cov_refl wants.join_right)
  show "serves (add_due t g r) e" if "t = Some e"
    using e [OF that] by (simp add: that add_due_def serves_def wants.join_left)
qed

definition fold_due ::
  "(metric_spec \<times> bool \<Rightarrow> bool) \<Rightarrow> (metric_spec \<times> bool) list \<Rightarrow> due_spec option \<Rightarrow> due_spec option" where
  "fold_due P = fold (\<lambda>(g, r) t. if P (g, r) then Some (add_due t g r) else t)"

lemma fold_due_simps [simp]:
  "fold_due P [] t = t"
  "fold_due P ((g, r) # gs) t = fold_due P gs (if P (g, r) then Some (add_due t g r) else t)"
  by (simp_all add: fold_due_def)

lemma fold_due_None: "fold_due P gs t = None \<longleftrightarrow> t = None \<and> list_all (\<lambda>g. \<not> P g) gs"
proof (induction gs arbitrary: t)
  case (Cons a gs)
  obtain g r where a: "a = (g, r)" by force
  show ?case by (simp add: a Cons.IH)
qed simp

lemma fold_due_keeps:
  "list_all in_bounds gs \<Longrightarrow> due_bounded e \<Longrightarrow> \<exists>d. fold_due P gs (Some e) = Some d \<and> serves d e"
proof (induction gs arbitrary: e)
  case Nil
  then show ?case by (simp add: serves_def wants.cov_refl)
next
  case (Cons a gs)
  obtain g r where a: "a = (g, r)" by force
  have b: "in_bounds (g, r)" "list_all in_bounds gs" using Cons.prems a by auto
  note add = add_due_serves [OF b(1), of "Some e"]
  have n: "due_bounded (add_due (Some e) g r)" "serves (add_due (Some e) g r) e"
    using add(1,3) Cons.prems(2) by auto
  show ?case
  proof (cases "P (g, r)")
    case True
    obtain d where "fold_due P gs (Some (add_due (Some e) g r)) = Some d"
      "serves d (add_due (Some e) g r)"
      using Cons.IH [OF b(2) n(1)] by auto
    then show ?thesis using True serves_trans [OF _ n(2)] by (auto simp: a)
  next
    case False
    then show ?thesis using Cons.IH [OF b(2) Cons.prems(2)] by (simp add: a)
  qed
qed

lemma fold_due_serves:
  "list_all in_bounds gs \<Longrightarrow> (\<And>e. t = Some e \<Longrightarrow> due_bounded e) \<Longrightarrow> g \<in> set gs \<Longrightarrow> P g \<Longrightarrow>
    \<exists>d. fold_due P gs t = Some d \<and> serves d (due_of g)"
proof (induction gs arbitrary: t)
  case Nil
  then show ?case by simp
next
  case (Cons a gs)
  obtain h r where a: "a = (h, r)" by force
  have b: "in_bounds (h, r)" "list_all in_bounds gs" using Cons.prems a by auto
  note add = add_due_serves [OF b(1) Cons.prems(2), of t]
  show ?case
  proof (cases "g = a")
    case True
    then show ?thesis
      using fold_due_keeps [OF b(2) add(1), of P] add(2) serves_trans Cons.prems(4) by (auto simp: a)
  next
    case False
    then show ?thesis
      using Cons.IH [OF b(2), of "if P (h, r) then Some (add_due t h r) else t"] Cons.prems add(1)
      by (auto simp: a split: if_splits)
  qed
qed

section \<open>What every subscriber is promised\<close>

text \<open>A spec asks for a sample now: its interval is due, unknown, or was sampled for less.\<close>
definition spec_asks :: "schedule \<Rightarrow> metric_spec \<Rightarrow> instant \<Rightarrow> bool" where
  "spec_asks s spec now =
    (case cadence_at s (period spec) of
       None \<Rightarrow> True
     | Some c \<Rightarrow> c_on_time c + period spec \<le> now \<or> \<not> covers (c_sampled_for c) spec)"

lemma asks_now_group:
  assumes "group_of specs (g, r)" "spec \<in> set specs" "period spec = ms_interval g" "spec_asks s spec now"
  shows "asks_now (cadence_at s (ms_interval g)) g now"
  using assms by (auto simp: asks_now_def spec_asks_def group_of_def is_due_def is_grown_def
      split: option.splits)

lemma asks_now_member:
  assumes "group_of specs (g, r)" "asks_now (cadence_at s (ms_interval g)) g now"
  shows "\<exists>spec \<in> set specs. period spec = ms_interval g \<and> spec_asks s spec now"
  using assms by (fastforce simp: asks_now_def spec_asks_def group_of_def is_due_def is_grown_def
      split: option.splits)

lemma schedule_take_fold:
  "schedule_ok s \<Longrightarrow> snd (schedule_take s specs now) =
    fold_due (\<lambda>g. asks_now (cadence_at s (group_interval g)) (fst g) now) (by_interval specs) None"
  by (simp add: schedule_take_spec take_spec_def fold_due_def)

lemma group_for:
  assumes "spec \<in> set specs"
  obtains g r where "(g, r) \<in> set (by_interval specs)" "ms_interval g = period spec"
    "group_of specs (g, r)" "covers g spec" "reads_processes spec \<longrightarrow> r"
proof -
  have "period spec \<in> group_interval ` set (by_interval specs)"
    using by_interval_groups [of specs] assms by simp
  then obtain g r where g: "(g, r) \<in> set (by_interval specs)" "ms_interval g = period spec" by auto
  then have go: "group_of specs (g, r)" using by_interval_groups [of specs] by (auto simp: list_all_iff)
  then have "covers g spec" "reads_processes spec \<longrightarrow> r"
    using assms g wants.cov_refl [of g] by (auto simp: group_of_def)
  with g go that show ?thesis by blast
qed

lemma take_serves_asking:
  assumes "schedule_ok s" "spec \<in> set specs" "spec_asks s spec now"
  shows "\<exists>d. snd (schedule_take s specs now) = Some d \<and> covers (d_spec d) spec \<and>
    ms_interval (d_spec d) \<le> period spec \<and> (reads_processes spec \<longrightarrow> d_reads_processes d)"
proof -
  let ?P = "\<lambda>g. asks_now (cadence_at s (group_interval g)) (fst g) now"
  have groups: "list_all in_bounds (by_interval specs)"
    using by_interval_groups [of specs] by auto
  obtain g r where g: "(g, r) \<in> set (by_interval specs)" "ms_interval g = period spec"
    "group_of specs (g, r)" "covers g spec" "reads_processes spec \<longrightarrow> r"
    using group_for [OF assms(2)] .
  have "?P (g, r)" using asks_now_group [OF g(3) assms(2) _ assms(3)] g(2) by simp
  then obtain d where "fold_due ?P (by_interval specs) None = Some d" "serves d (due_of (g, r))"
    using fold_due_serves [OF groups _ g(1), of None ?P] by auto
  then show ?thesis
    using g wants.cov_trans [of "d_spec d" g spec] by (auto simp: schedule_take_fold [OF assms(1)] serves_def)
qed

lemma take_samples_iff:
  assumes "schedule_ok s"
  shows "snd (schedule_take s specs now) = None \<longleftrightarrow> (\<forall>spec \<in> set specs. \<not> spec_asks s spec now)"
proof
  assume "snd (schedule_take s specs now) = None"
  then show "\<forall>spec \<in> set specs. \<not> spec_asks s spec now" using take_serves_asking [OF assms] by fastforce
next
  assume no: "\<forall>spec \<in> set specs. \<not> spec_asks s spec now"
  have "\<not> asks_now (cadence_at s (group_interval g)) (fst g) now" if "g \<in> set (by_interval specs)" for g
    using asks_now_member [of specs "fst g" "snd g" s now] no that by_interval_groups [of specs]
    by (auto simp: list_all_iff)
  then show "snd (schedule_take s specs now) = None"
    by (auto simp: schedule_take_fold [OF assms] fold_due_None list_all_iff)
qed

text \<open>
  A take samples exactly when some spec asks for it, and then what it
  samples covers every spec that asks, at an interval no longer than that
  spec's own, and reads the process list if that spec needs it.
\<close>
theorem take_serves_every_spec:
  assumes "schedule_ok s"
  shows "(snd (schedule_take s specs now) = None \<longleftrightarrow> (\<forall>spec \<in> set specs. \<not> spec_asks s spec now)) \<and>
    (\<forall>spec \<in> set specs. spec_asks s spec now \<longrightarrow>
      (\<exists>d. snd (schedule_take s specs now) = Some d \<and> covers (d_spec d) spec \<and>
        ms_interval (d_spec d) \<le> period spec \<and> (reads_processes spec \<longrightarrow> d_reads_processes d)))"
  using take_samples_iff [OF assms] take_serves_asking [OF assms] by blast

theorem take_serves_every_spec_witness:
  "\<exists>s spec d. schedule_ok s \<and> spec_asks s spec 5 \<and> snd (schedule_take s [spec] 5) = Some d \<and>
    covers (d_spec d) spec"
proof -
  let ?spec = "\<lparr>ms_interval = secs 1, ms_processes = {Handles}, ms_machine = {}\<rparr>"
  have "schedule_ok []" by (simp add: schedule_ok_def)
  moreover have "spec_asks [] ?spec 5" by (simp add: spec_asks_def cadence_at_def)
  ultimately show ?thesis
    using take_serves_every_spec [of "[]" "[?spec]" 5] by (metis list.set_intros(1))
qed

section \<open>Keeping time\<close>

lemma in_set_take:
  assumes "schedule_ok s" "c \<in> set (fst (schedule_take s specs now))"
  obtains g r where "(g, r) \<in> set (by_interval specs)"
    "c = next_cadence (cadence_at s (ms_interval g)) g now"
  using assms by (auto simp: schedule_take_spec take_spec_def)

lemma by_interval_bounds: "(g, r) \<in> set (by_interval specs) \<Longrightarrow> MIN_INTERVAL \<le> ms_interval g \<and> ms_interval g \<le> MAX_INTERVAL"
  using by_interval_groups [of specs] by (fastforce simp: list_all_iff in_bounds_def)

lemma MIN_INTERVAL_pos: "0 < MIN_INTERVAL"
  by (simp add: MIN_INTERVAL_def)

text \<open>No cadence was last on time after now.\<close>
definition on_time_by :: "schedule \<Rightarrow> instant \<Rightarrow> bool" where
  "on_time_by s now \<longleftrightarrow> list_all (\<lambda>c. c_on_time c \<le> now) s"

lemma cadence_at_in: "cadence_at s i = Some c \<Longrightarrow> c \<in> set s \<and> cadence_interval c = i"
  unfolding cadence_at_def by (drule find_Some_iff_mem) simp

lemma next_cadence_time:
  assumes "on_time_by s now" "MIN_INTERVAL \<le> ms_interval g"
  shows "c_on_time (next_cadence (cadence_at s (ms_interval g)) g now) \<le> now \<and>
    now < c_on_time (next_cadence (cadence_at s (ms_interval g)) g now) + ms_interval g"
proof (cases "cadence_at s (ms_interval g)")
  case None
  then show ?thesis using assms MIN_INTERVAL_pos by (simp add: next_cadence_def)
next
  case (Some c)
  then have "c_on_time c \<le> now" using assms(1) cadence_at_in [OF Some] by (simp add: on_time_by_def list_all_iff)
  then show ?thesis using Some assms(2) MIN_INTERVAL_pos by (simp add: next_cadence_def)
qed

lemma foldl_min: "foldl min a xs \<in> insert a (set xs) \<and> (\<forall>x \<in> insert a (set xs). foldl min a xs \<le> x)"
  for a :: nat
proof (induction xs arbitrary: a)
  case (Cons x xs)
  show ?case using Cons.IH [of "min a x"] by (auto simp: min_def split: if_splits)
qed simp

lemma schedule_due_Some:
  "schedule_due s = Some t \<Longrightarrow>
    (\<exists>c \<in> set s. t = c_on_time c + cadence_interval c) \<and>
    (\<forall>c \<in> set s. t \<le> c_on_time c + cadence_interval c)"
proof (cases s)
  case (Cons c cs)
  assume "schedule_due s = Some t"
  then have "t = foldl min (c_on_time c + cadence_interval c)
      (map (\<lambda>c. c_on_time c + cadence_interval c) cs)"
    by (simp add: schedule_due_def Cons)
  then show ?thesis
    using foldl_min [of "c_on_time c + cadence_interval c"
        "map (\<lambda>c. c_on_time c + cadence_interval c) cs"] by (auto simp: Cons)
qed (simp add: schedule_due_def)

lemma schedule_due_None: "schedule_due s = None \<longleftrightarrow> s = []"
  by (cases s) (simp_all add: schedule_due_def)

text \<open>
  Intervals stay on time: after a take every cadence was last on time by now
  and is next due later than now, so the schedule's own due instant lies after
  now and at most the longest interval away. A cadence that was not due keeps
  its on-time instant even when it is sampled because its wants grew, and a
  take at the due instant does sample.
\<close>
theorem take_keeps_time:
  assumes "schedule_ok s" "on_time_by s now"
  shows "let s' = fst (schedule_take s specs now) in schedule_ok s' \<and> on_time_by s' now \<and>
    (\<forall>t. schedule_due s' = Some t \<longrightarrow>
      now < t \<and> t \<le> now + MAX_INTERVAL \<and> snd (schedule_take s' specs t) \<noteq> None) \<and>
    (\<forall>c c'. c' \<in> set s' \<longrightarrow> cadence_at s (cadence_interval c') = Some c \<longrightarrow>
      now < c_on_time c + cadence_interval c' \<longrightarrow> c_on_time c' = c_on_time c)"
proof -
  define s' where "s' = fst (schedule_take s specs now)"
  have ok: "schedule_ok s'" using assms by (simp add: schedule_take_ok s'_def)
  have time: "c_on_time c \<le> now \<and> now < c_on_time c + cadence_interval c \<and> cadence_interval c \<le> MAX_INTERVAL
      \<and> cadence_interval c \<in> period ` set specs"
    if "c \<in> set s'" for c
    using that unfolding s'_def
  proof (rule in_set_take [OF assms(1)])
    fix g r
    assume g: "(g, r) \<in> set (by_interval specs)" "c = next_cadence (cadence_at s (ms_interval g)) g now"
    moreover have "group_interval (g, r) \<in> period ` set specs"
      using g(1) by_interval_groups [of specs] by blast
    ultimately show ?thesis
      using next_cadence_time [OF assms(2), of g] by_interval_bounds [OF g(1)] by simp
  qed
  have due: "now < t \<and> t \<le> now + MAX_INTERVAL \<and> snd (schedule_take s' specs t) \<noteq> None"
    if t: "schedule_due s' = Some t" for t
  proof -
    obtain c where c: "c \<in> set s'" "t = c_on_time c + cadence_interval c"
      using schedule_due_Some [OF t] by blast
    obtain spec where spec: "spec \<in> set specs" "period spec = cadence_interval c"
      using time [OF c(1)] by auto
    have "spec_asks s' spec t"
      using cadence_at_iff [OF ok, of "period spec" c] c spec by (simp add: spec_asks_def)
    then show ?thesis
      using take_samples_iff [OF ok, of specs t] spec(1) time [OF c(1)] c(2) by force
  qed
  have kept: "c_on_time c' = c_on_time c"
    if "c' \<in> set s'" "cadence_at s (cadence_interval c') = Some c"
      "now < c_on_time c + cadence_interval c'" for c c'
    using that(1) unfolding s'_def
  proof (rule in_set_take [OF assms(1)])
    fix g r
    assume c': "c' = next_cadence (cadence_at s (ms_interval g)) g now"
    then have i: "cadence_interval c' = ms_interval g" by simp
    from c' show ?thesis using that(2,3) unfolding i by (simp add: next_cadence_def)
  qed
  have "on_time_by s' now" using time by (simp add: on_time_by_def list_all_iff)
  with ok due kept show ?thesis unfolding s'_def [symmetric] Let_def by blast
qed

theorem take_keeps_time_witness:
  "\<exists>s specs. schedule_ok s \<and> on_time_by s 7 \<and>
    schedule_due (fst (schedule_take s specs 7)) \<noteq> None"
proof -
  let ?spec = "\<lparr>ms_interval = secs 1, ms_processes = {Handles}, ms_machine = {}\<rparr>"
  have ok: "schedule_ok []" "on_time_by [] 7" by (simp_all add: schedule_ok_def on_time_by_def)
  have "schedule_due (fst (schedule_take [] [?spec] 7)) \<noteq> None"
    by (simp add: schedule_due_None schedule_take_def by_interval_def take_known_def)
  then show ?thesis using take_keeps_time [OF ok, of "[?spec]"] ok by blast
qed

end
