(* ===== verification/Events.thy ===== *)
theory Events
  imports Sample
begin

text \<open>
  \<^verbatim>\<open>crates/core/src/state/events.rs\<close>: what the providers tell the core's state
  (verdicts on images, disk and network traffic since the last batch), and of
  \<^verbatim>\<open>crates/core/src/report.rs\<close> what the core tells whoever applies its diffs.
\<close>

section \<open>Verdicts on images\<close>

datatype process_signature = SigUnknown | SigUnsigned | SigMicrosoft | SigThirdParty

record image_verdict =
  iv_signature :: process_signature
  iv_is_windows_process :: bool
  iv_display_name :: string
  iv_publisher :: string

definition image_verdict_default :: image_verdict where
  "image_verdict_default =
    \<lparr>iv_signature = SigUnknown, iv_is_windows_process = False, iv_display_name = '''', iv_publisher = ''''\<rparr>"

record image =
  im_path :: string
  im_verdict :: image_verdict

section \<open>Traffic\<close>

datatype disk_event_type = DiskRead | DiskWrite

record disk_event =
  de_event_type :: disk_event_type
  de_transfer_size :: u64

record disk_delta =
  dd_read_bytes :: u64
  dd_write_bytes :: u64
  dd_read_ops :: u64
  dd_write_ops :: u64

definition disk_delta_default :: disk_delta where
  "disk_delta_default = \<lparr>dd_read_bytes = 0, dd_write_bytes = 0, dd_read_ops = 0, dd_write_ops = 0\<rparr>"

definition disk_delta_add :: "disk_delta \<Rightarrow> disk_event \<Rightarrow> disk_delta" where
  "disk_delta_add d e =
    (case de_event_type e of
       DiskRead \<Rightarrow> d\<lparr>dd_read_bytes := dd_read_bytes d + de_transfer_size e, dd_read_ops := dd_read_ops d + 1\<rparr>
     | DiskWrite \<Rightarrow> d\<lparr>dd_write_bytes := dd_write_bytes d + de_transfer_size e, dd_write_ops := dd_write_ops d + 1\<rparr>)"

datatype network_event_type = NetSend | NetRecv | NetConnect | NetAccept

record network_event =
  ne_pid :: u32
  ne_event_type :: network_event_type
  ne_size :: u32
  ne_loopback :: bool

record net_delta =
  nd_rx_bytes :: u64
  nd_tx_bytes :: u64
  nd_rx_packets :: u64
  nd_tx_packets :: u64
  nd_loopback_rx_bytes :: u64
  nd_loopback_tx_bytes :: u64

definition net_delta_default :: net_delta where
  "net_delta_default =
    \<lparr>nd_rx_bytes = 0, nd_tx_bytes = 0, nd_rx_packets = 0, nd_tx_packets = 0,
     nd_loopback_rx_bytes = 0, nd_loopback_tx_bytes = 0\<rparr>"

definition net_delta_add :: "net_delta \<Rightarrow> network_event \<Rightarrow> net_delta" where
  "net_delta_add d e =
    (let bytes = ucast (ne_size e)
     in case ne_event_type e of
          NetSend \<Rightarrow>
            (let d = d\<lparr>nd_tx_bytes := nd_tx_bytes d + bytes, nd_tx_packets := nd_tx_packets d + 1\<rparr>
             in if ne_loopback e then d\<lparr>nd_loopback_tx_bytes := nd_loopback_tx_bytes d + bytes\<rparr> else d)
        | NetRecv \<Rightarrow>
            (let d = d\<lparr>nd_rx_bytes := nd_rx_bytes d + bytes, nd_rx_packets := nd_rx_packets d + 1\<rparr>
             in if ne_loopback e then d\<lparr>nd_loopback_rx_bytes := nd_loopback_rx_bytes d + bytes\<rparr> else d)
        | _ \<Rightarrow> d)"

type_synonym net_deltas = "(u32, net_delta) hashmap"
type_synonym disk_deltas = "(u32, disk_delta) hashmap"

datatype state_change = Disk disk_deltas | Network net_deltas

section \<open>Reports\<close>

datatype signature_status = StatusUnknown | StatusUnsigned | StatusMicrosoft | StatusThirdParty

text \<open>What a process is; \<^verbatim>\<open>report::Process\<close>, fixed for its lifetime.\<close>
record process =
  pr_pid :: u32
  pr_parent_pid :: u32
  pr_session_id :: u32
  pr_name :: string
  pr_cmdline :: "string list"
  pr_package_full_name :: string
  pr_package_relative_app_id :: string
  pr_is_kernel_process :: bool
  pr_is_windows_process :: bool
  pr_signature :: signature_status
  pr_image_path :: string
  pr_display_name :: string
  pr_console_host_pid :: u32
  pr_start_time :: u64
  pr_sequence_number :: u64
  pr_user :: string
  pr_architecture :: architecture
  pr_elevated :: "bool option"
  pr_uac_virtualization :: uac_virtualization
  pr_isolation :: isolation
  pr_dpi_awareness :: dpi_awareness
  pr_mitigations :: "mitigations option"
  pr_publisher :: string

text \<open>One of the core's ETW sessions.\<close>
record session_health =
  sh_name :: string
  sh_running :: bool
  sh_pumping :: bool
  sh_events_lost :: u32
  sh_realtime_buffers_lost :: u32
  sh_log_buffers_lost :: u32
  sh_buffers_written :: u32
  sh_buffers :: u32
  sh_free_buffers :: u32

definition is_healthy :: "session_health \<Rightarrow> bool" where
  "is_healthy s \<longleftrightarrow> sh_running s \<and> sh_pumping s"

text \<open>What the core says about itself at one tick.\<close>
record health =
  h_dropped_by_sink :: u64
  h_sessions :: "session_health list"
  h_snapshot_error :: "string option"
  h_taken_at :: instant

text \<open>What changed in the core's picture since the last tick.\<close>
record diff =
  df_gone :: "(u32 \<times> u64) list"
  df_passports :: "process list"
  df_states :: "process_state list"
  df_sample :: "sample option"

definition diff_default :: diff where
  "diff_default = \<lparr>df_gone = [], df_passports = [], df_states = [], df_sample = None\<rparr>"

fun signature_status_of :: "process_signature \<Rightarrow> signature_status" where
  "signature_status_of SigUnknown = StatusUnknown"
| "signature_status_of SigUnsigned = StatusUnsigned"
| "signature_status_of SigMicrosoft = StatusMicrosoft"
| "signature_status_of SigThirdParty = StatusThirdParty"

lemma signature_status_of_inj: "signature_status_of a = signature_status_of b \<Longrightarrow> a = b"
  by (cases a; cases b) auto

section \<open>Loopback bytes are part of a delta's bytes\<close>

text \<open>Totals of a delta as natural numbers: no addition of the batch wrapped.\<close>
definition delta_ok :: "net_delta \<Rightarrow> bool" where
  "delta_ok d \<longleftrightarrow>
    nd_loopback_rx_bytes d \<le> nd_rx_bytes d \<and> nd_loopback_tx_bytes d \<le> nd_tx_bytes d"

lemma add_le_mono_word:
  fixes a b c :: "'a::len word"
  assumes "a \<le> b" "unat b + unat c < 2 ^ LENGTH('a)"
  shows "a + c \<le> b + c"
  using assms by (simp add: word_le_nat_alt unat_word_ariths)

lemma le_add_word:
  fixes a b c :: "'a::len word"
  assumes "a \<le> b" "unat b + unat c < 2 ^ LENGTH('a)"
  shows "a \<le> b + c"
  using assms by (simp add: word_le_nat_alt unat_word_ariths)

lemma delta_ok_default [simp]: "delta_ok net_delta_default"
  by (simp add: delta_ok_def net_delta_default_def)

lemma delta_ok_add:
  assumes "delta_ok d" "unat (nd_rx_bytes d) + 2 ^ 32 < 2 ^ 64" "unat (nd_tx_bytes d) + 2 ^ 32 < 2 ^ 64"
  shows "delta_ok (net_delta_add d e)"
proof -
  have u: "unat (ucast (ne_size e) :: u64) < 2 ^ 32"
    using unsigned_less [of "ne_size e"] by (simp add: unat_ucast_up)
  have rx: "unat (nd_rx_bytes d) + unat (ucast (ne_size e) :: u64) < 2 ^ LENGTH(64)"
    and tx: "unat (nd_tx_bytes d) + unat (ucast (ne_size e) :: u64) < 2 ^ LENGTH(64)"
    using u assms(2,3) by simp_all
  show ?thesis
    using assms(1) add_le_mono_word [OF _ rx] add_le_mono_word [OF _ tx] le_add_word [OF _ rx]
      le_add_word [OF _ tx]
    by (cases "ne_event_type e") (auto simp: net_delta_add_def delta_ok_def Let_def)
qed

end
