(* ===== verification/Change_Log.thy ===== *)
theory Change_Log
  imports Prelude
begin

text \<open>
  The contract between the core, which tells what changed since it was last
  asked (\<^verbatim>\<open>Diff\<close>), and whoever applies its diffs (the agent's \<^verbatim>\<open>Picture\<close>): a keyed
  collection whose elements are identified within a key by a number that is
  never reused, the keys that changed, and the elements that left. \<^verbatim>\<open>in_sync\<close>
  says that a reader who applies what is logged ends with exactly the
  collection; every operation of the writer keeps it.
\<close>

text \<open>The reader's map without what the log says left.\<close>
definition minus_gone :: "('v \<Rightarrow> 'n) \<Rightarrow> ('k \<rightharpoonup> 'v) \<Rightarrow> ('k \<times> 'n) set \<Rightarrow> ('k \<rightharpoonup> 'v)" where
  "minus_gone vseq base gone k =
    (case base k of Some v \<Rightarrow> if (k, vseq v) \<in> gone then None else Some v | None \<Rightarrow> None)"

definition in_sync ::
  "('e \<Rightarrow> 'v) \<Rightarrow> ('e \<Rightarrow> 'n) \<Rightarrow> ('v \<Rightarrow> 'n) \<Rightarrow> ('k \<rightharpoonup> 'v) \<Rightarrow> ('k \<rightharpoonup> 'e) \<Rightarrow> 'k set \<Rightarrow> ('k \<times> 'n) set \<Rightarrow> bool"
  where
  "in_sync view eseq vseq base get changed gone \<longleftrightarrow>
    (\<forall>k. k \<notin> changed \<longrightarrow> minus_gone vseq base gone k = map_option view (get k)) \<and>
    changed \<subseteq> dom get \<and>
    (\<forall>k v. base k = Some v \<longrightarrow> (k, vseq v) \<in> gone \<or> (\<exists>e. get k = Some e \<and> eseq e = vseq v))"

locale change_log =
  fixes view :: "'e \<Rightarrow> 'v"
    and eseq :: "'e \<Rightarrow> 'n"
    and vseq :: "'v \<Rightarrow> 'n"
    and good :: "'e \<Rightarrow> bool"
  assumes vseq_view: "good e \<Longrightarrow> vseq (view e) = eseq e"
begin

abbreviation sync :: "('k \<rightharpoonup> 'v) \<Rightarrow> ('k \<rightharpoonup> 'e) \<Rightarrow> 'k set \<Rightarrow> ('k \<times> 'n) set \<Rightarrow> bool" where
  "sync \<equiv> in_sync view eseq vseq"

lemma known:
  "sync base get changed gone \<Longrightarrow> base k = Some v \<Longrightarrow>
    (k, vseq v) \<in> gone \<or> (\<exists>e. get k = Some e \<and> eseq e = vseq v)"
  unfolding in_sync_def by blast

lemma join:
  assumes "sync base get changed gone"
    and "gone' = gone \<union> (case get k of None \<Rightarrow> {} | Some old \<Rightarrow> {(k, eseq old)})"
  shows "sync base (get(k \<mapsto> e)) (insert k changed) gone'"
proof -
  have "(j, n) \<in> gone' \<longleftrightarrow> (j, n) \<in> gone" if "j \<noteq> k" for j n
    using that assms(2) by (auto split: option.splits)
  then have m: "minus_gone vseq base gone' j = minus_gone vseq base gone j" if "j \<noteq> k" for j
    using that by (simp add: minus_gone_def split: option.splits)
  have "(k, vseq v) \<in> gone'" if "base k = Some v" for v
  proof -
    have "(k, vseq v) \<in> gone \<or> (\<exists>old. get k = Some old \<and> eseq old = vseq v)"
      using assms(1) that unfolding in_sync_def by blast
    then show ?thesis using assms(2) by auto
  qed
  then have "(j, vseq v) \<in> gone' \<or> (\<exists>e'. (get(k \<mapsto> e)) j = Some e' \<and> eseq e' = vseq v)"
    if b: "base j = Some v" for j v
  proof (cases "j = k")
    case True
    then show ?thesis using \<open>\<And>v. base k = Some v \<Longrightarrow> (k, vseq v) \<in> gone'\<close> b by auto
  next
    case False
    then show ?thesis using known [OF assms(1) b] assms(2) by auto
  qed
  with m show ?thesis using assms(1) by (simp add: in_sync_def) blast
qed

text \<open>Elements rewritten in place: one whose view moves is logged.\<close>
lemma revise:
  assumes "sync base get changed gone" "changed \<subseteq> changed'" "changed' \<subseteq> dom get"
    and "\<And>k. get' k = map_option (f k) (get k)"
    and "\<And>k e. get k = Some e \<Longrightarrow> eseq (f k e) = eseq e \<and> (k \<in> changed' \<or> view (f k e) = view e)"
  shows "sync base get' changed' gone"
proof -
  have "map_option view (get' k) = map_option view (get k)" if "k \<notin> changed'" for k
    using assms(4,5) that by (cases "get k") auto
  moreover have "dom get' = dom get" using assms(4) by (auto simp: dom_def)
  moreover have "\<exists>e. get' k = Some e \<and> eseq e = n" if "get k = Some e" "eseq e = n" for k e n
    using assms(4,5) that by auto
  ultimately show ?thesis using assms(1,2,3) unfolding in_sync_def by (metis subsetD)
qed

lemma leave:
  assumes "sync base get changed gone"
    and "\<And>k. get' k = (if k \<in> L then None else get k)"
    and "changed' = changed - L"
    and "gone' = gone \<union> {(k, eseq e) | k e. k \<in> L \<and> get k = Some e}"
  shows "sync base get' changed' gone'"
proof -
  have "(j, n) \<in> gone' \<longleftrightarrow> (j, n) \<in> gone" if "j \<notin> L" for j n
    using that assms(4) by auto
  then have m: "minus_gone vseq base gone' j = minus_gone vseq base gone j" if "j \<notin> L" for j
    using that by (simp add: minus_gone_def split: option.splits)
  have g: "(k, vseq v) \<in> gone'" if "base k = Some v" "k \<in> L" for k v
  proof -
    have "(k, vseq v) \<in> gone \<or> (\<exists>old. get k = Some old \<and> eseq old = vseq v)"
      using assms(1) that(1) unfolding in_sync_def by blast
    then show ?thesis using assms(4) that(2) by auto
  qed
  then have "minus_gone vseq base gone' k = None" if "k \<in> L" for k
    using that by (simp add: minus_gone_def split: option.splits)
  moreover have "(j, vseq v) \<in> gone' \<or> (\<exists>e. get' j = Some e \<and> eseq e = vseq v)"
    if "base j = Some v" for j v
    using known [OF assms(1) that] g [OF that] assms(2,4) by (cases "j \<in> L") auto
  moreover have "changed' \<subseteq> dom get'"
    using assms(1,2,3) unfolding in_sync_def by auto
  moreover have "minus_gone vseq base gone' k = map_option view (get' k)" if "k \<notin> L" "k \<notin> changed'" for k
    using assms(1-3) m that unfolding in_sync_def by auto
  ultimately show ?thesis
    using assms(2) unfolding in_sync_def by auto
qed

text \<open>The reader applies the log: it holds the writer's views, and a fresh log is in sync.\<close>
lemma drain:
  assumes "sync base get changed gone" "\<And>k e. get k = Some e \<Longrightarrow> good e"
    and "\<And>k. fresh k = (if k \<in> changed then map_option view (get k) else None)"
  shows "minus_gone vseq base gone ++ fresh = map_option view \<circ> get"
    and "sync (map_option view \<circ> get) get {} {}"
proof -
  show "minus_gone vseq base gone ++ fresh = map_option view \<circ> get"
  proof
    fix k
    show "(minus_gone vseq base gone ++ fresh) k = (map_option view \<circ> get) k"
      using assms(1,3) by (cases "k \<in> changed") (auto simp: in_sync_def map_add_def split: option.splits)
  qed
  show "sync (map_option view \<circ> get) get {} {}"
    using assms(2) vseq_view by (auto simp: in_sync_def minus_gone_def split: option.splits)
qed

end

end
