(* ===== verification/Process_Table.thy ===== *)
theory Process_Table
  imports Events Change_Log
begin

text \<open>
  \<^verbatim>\<open>crates/core/src/state/process.rs\<close> and the passports of
  \<^verbatim>\<open>crates/core/src/report.rs\<close>: the processes the last snapshot listed, the
  verdicts on the images they run, and what changed since the last \<^verbatim>\<open>take\<close>.
  The closures \<^verbatim>\<open>sight\<close> and \<^verbatim>\<open>ask\<close> are a function of the row and the list of
  what was asked.
\<close>

section \<open>Entries\<close>

text \<open>What a process's token and handle tell (\<^verbatim>\<open>providers/process/passport.rs\<close>).\<close>
record token_passport =
  pp_user :: string
  pp_architecture :: architecture
  pp_elevated :: "bool option"
  pp_uac_virtualization :: uac_virtualization
  pp_isolation :: isolation
  pp_dpi_awareness :: dpi_awareness
  pp_mitigations :: "mitigations option"

record process_read =
  rd_command_line :: "string list"
  rd_image_path :: string
  rd_package_full_name :: string
  rd_package_relative_app_id :: string
  rd_console_host_pid :: u32
  rd_passport :: token_passport

record image_request =
  iq_path :: string
  iq_package_full_name :: string
  iq_package_relative_app_id :: string

record sighted =
  sg_image_name :: string
  sg_is_kernel_process :: bool
  sg_read :: process_read

record process_entry =
  pe_pid :: u32
  pe_parent_pid :: u32
  pe_session_id :: u32
  pe_sequence_number :: u64
  pe_start_time :: u64
  pe_image_name :: string
  pe_image_path :: string
  pe_display_name :: string
  pe_command_line :: "string list"
  pe_package_name :: string
  pe_package_relative_app_id :: string
  pe_signature :: process_signature
  pe_is_kernel_process :: bool
  pe_is_windows_process :: bool
  pe_console_host_pid :: u32
  pe_user :: string
  pe_architecture :: architecture
  pe_elevated :: "bool option"
  pe_uac_virtualization :: uac_virtualization
  pe_isolation :: isolation
  pe_dpi_awareness :: dpi_awareness
  pe_mitigations :: "mitigations option"
  pe_publisher :: string
  pe_state :: process_state
  pe_listed :: u64

text \<open>\<^verbatim>\<open>ProcessEntry::sighted\<close>\<close>
definition entry_sighted :: "row \<Rightarrow> sighted \<Rightarrow> process_entry" where
  "entry_sighted row sighted =
    (let read = sg_read sighted; passport = rd_passport read
     in \<lparr>pe_pid = r_pid row, pe_parent_pid = r_parent_pid row, pe_session_id = r_session_id row,
         pe_sequence_number = r_sequence_number row, pe_start_time = r_create_time row,
         pe_image_name = sg_image_name sighted, pe_image_path = rd_image_path read,
         pe_display_name = '''', pe_command_line = rd_command_line read,
         pe_package_name = rd_package_full_name read,
         pe_package_relative_app_id = rd_package_relative_app_id read,
         pe_signature = SigUnknown,
         pe_is_kernel_process = sg_is_kernel_process sighted,
         pe_is_windows_process = sg_is_kernel_process sighted,
         pe_console_host_pid = rd_console_host_pid read,
         pe_user = pp_user passport, pe_architecture = pp_architecture passport,
         pe_elevated = pp_elevated passport, pe_uac_virtualization = pp_uac_virtualization passport,
         pe_isolation = pp_isolation passport, pe_dpi_awareness = pp_dpi_awareness passport,
         pe_mitigations = pp_mitigations passport, pe_publisher = '''',
         pe_state = process_state_new (r_pid row) (r_sequence_number row),
         pe_listed = 0\<rparr>)"

text \<open>\<^verbatim>\<open>ProcessEntry::judged\<close>: the entry with the verdict, and whether it moved.\<close>
definition judged :: "process_entry \<Rightarrow> image_verdict \<Rightarrow> process_entry \<times> bool" where
  "judged e verdict =
    (let is_windows_process = pe_is_kernel_process e \<or> iv_is_windows_process verdict;
         moved = (pe_signature e \<noteq> iv_signature verdict
           \<or> pe_is_windows_process e \<noteq> is_windows_process
           \<or> pe_display_name e \<noteq> iv_display_name verdict
           \<or> pe_publisher e \<noteq> iv_publisher verdict)
     in (e\<lparr>pe_signature := iv_signature verdict, pe_is_windows_process := is_windows_process,
           pe_display_name := iv_display_name verdict, pe_publisher := iv_publisher verdict\<rparr>, moved))"

text \<open>\<^verbatim>\<open>report::passport\<close>\<close>
definition passport :: "process_entry \<Rightarrow> process" where
  "passport e =
    \<lparr>pr_pid = pe_pid e, pr_parent_pid = pe_parent_pid e, pr_session_id = pe_session_id e,
     pr_name = pe_image_name e, pr_cmdline = pe_command_line e,
     pr_package_full_name = pe_package_name e,
     pr_package_relative_app_id = pe_package_relative_app_id e,
     pr_is_kernel_process = pe_is_kernel_process e,
     pr_is_windows_process = pe_is_windows_process e,
     pr_signature = signature_status_of (pe_signature e),
     pr_image_path = pe_image_path e, pr_display_name = pe_display_name e,
     pr_console_host_pid = pe_console_host_pid e, pr_start_time = pe_start_time e,
     pr_sequence_number = pe_sequence_number e, pr_user = pe_user e,
     pr_architecture = pe_architecture e, pr_elevated = pe_elevated e,
     pr_uac_virtualization = pe_uac_virtualization e, pr_isolation = pe_isolation e,
     pr_dpi_awareness = pe_dpi_awareness e, pr_mitigations = pe_mitigations e,
     pr_publisher = pe_publisher e\<rparr>"

section \<open>The table\<close>

text \<open>An image some listed process runs.\<close>
record running =
  run_verdict :: "image_verdict option"
  run_processes :: u32

type_synonym images = "(string, running) hashmap"

record process_table =
  t_processes :: "(u32, process_entry) hashmap"
  t_images :: images
  t_reconciled :: u64
  t_gone :: "(u32 \<times> u64) list"
  t_passports :: "u32 list"
  t_states :: "u32 list"

definition table_new :: process_table where
  "table_new =
    \<lparr>t_processes = [], t_images = [], t_reconciled = 0, t_gone = [], t_passports = [], t_states = []\<rparr>"

definition release :: "images \<Rightarrow> string \<Rightarrow> images" where
  "release images path =
    (case hm_get images path of
       None \<Rightarrow> images
     | Some running \<Rightarrow>
         (let running = running\<lparr>run_processes := run_processes running - 1\<rparr>
          in if run_processes running = 0 then hm_del path images else hm_put path running images))"

definition request_of :: "process_entry \<Rightarrow> image_request" where
  "request_of e =
    \<lparr>iq_path = pe_image_path e, iq_package_full_name = pe_package_name e,
     iq_package_relative_app_id = pe_package_relative_app_id e\<rparr>"

text \<open>An image one more process runs, and the entry with its verdict if it has one.\<close>
definition acquire :: "images \<Rightarrow> process_entry \<Rightarrow> images \<times> process_entry" where
  "acquire images e =
    (case hm_get images (pe_image_path e) of
       Some running \<Rightarrow>
         (let running = running\<lparr>run_processes := run_processes running + 1\<rparr>
          in (hm_put (pe_image_path e) running images,
              case run_verdict running of Some verdict \<Rightarrow> fst (judged e verdict) | None \<Rightarrow> e))
     | None \<Rightarrow> (hm_put (pe_image_path e) \<lparr>run_verdict = None, run_processes = 1\<rparr> images, e))"

text \<open>The part of the loop over the rows that a joining process runs.\<close>
definition join_row ::
  "(row \<Rightarrow> sighted) \<Rightarrow> u64 \<Rightarrow> row \<Rightarrow> process_table \<times> image_request list \<Rightarrow> process_table \<times> image_request list" where
  "join_row sight now row = (\<lambda>(t, asked).
    let entry = (entry_sighted row (sight row))\<lparr>pe_listed := now\<rparr>;
        (images, entry, asked) =
          (if pe_image_path entry = '''' then (t_images t, entry, asked)
           else let (images, entry) = acquire (t_images t) entry
                in (images, entry, asked @ [request_of entry]));
        earlier = hm_get (t_processes t) (r_pid row);
        processes = hm_put (r_pid row) entry (t_processes t);
        (gone, images) =
          (case earlier of
             None \<Rightarrow> (t_gone t, images)
           | Some e \<Rightarrow> (t_gone t @ [(r_pid row, pe_sequence_number e)], release images (pe_image_path e)))
    in (t\<lparr>t_processes := processes, t_images := images, t_gone := gone,
          t_passports := List.insert (r_pid row) (t_passports t),
          t_states := List.insert (r_pid row) (t_states t)\<rparr>, asked))"

definition is_listed :: "process_table \<Rightarrow> row \<Rightarrow> bool" where
  "is_listed t row =
    (case hm_get (t_processes t) (r_pid row) of
       Some entry \<Rightarrow> pe_sequence_number entry = r_sequence_number row
     | None \<Rightarrow> False)"

definition reconcile_row ::
  "(row \<Rightarrow> sighted) \<Rightarrow> u64 \<Rightarrow> row \<Rightarrow> process_table \<times> image_request list \<Rightarrow> process_table \<times> image_request list" where
  "reconcile_row sight now row = (\<lambda>(t, asked).
    case hm_get (t_processes t) (r_pid row) of
      Some entry \<Rightarrow>
        if pe_sequence_number entry = r_sequence_number row
        then (t\<lparr>t_processes := hm_put (r_pid row) (entry\<lparr>pe_listed := now\<rparr>) (t_processes t)\<rparr>, asked)
        else join_row sight now row (t, asked)
    | None \<Rightarrow> join_row sight now row (t, asked))"

text \<open>What \<^verbatim>\<open>retain\<close>'s closure does for an entry that does not stay.\<close>
definition leave :: "u32 \<times> process_entry \<Rightarrow> process_table \<Rightarrow> process_table" where
  "leave = (\<lambda>(pid, entry) t.
    t\<lparr>t_gone := t_gone t @ [(pid, pe_sequence_number entry)],
      t_passports := removeAll pid (t_passports t),
      t_states := removeAll pid (t_states t),
      t_images := release (t_images t) (pe_image_path entry)\<rparr>)"

text \<open>\<^verbatim>\<open>self.processes.retain(..)\<close>\<close>
definition retain_listed :: "u64 \<Rightarrow> process_table \<Rightarrow> process_table" where
  "retain_listed now t =
    (let goes = filter (\<lambda>(_, entry). pe_listed entry \<noteq> now) (t_processes t);
         stays = filter (\<lambda>(_, entry). pe_listed entry = now) (t_processes t)
     in (fold leave goes t)\<lparr>t_processes := stays\<rparr>)"

text \<open>\<^verbatim>\<open>ProcessTable::reconcile\<close>\<close>
definition reconcile ::
  "row list \<Rightarrow> (row \<Rightarrow> sighted) \<Rightarrow> process_table \<Rightarrow> process_table \<times> image_request list" where
  "reconcile rows sight t =
    (let t = t\<lparr>t_reconciled := t_reconciled t + 1\<rparr>;
         now = t_reconciled t;
         (t, asked) = fold (reconcile_row sight now) rows (t, [])
     in (retain_listed now t, asked))"

text \<open>\<^verbatim>\<open>ProcessTable::judge\<close>\<close>
definition judge_entry :: "image \<Rightarrow> process_entry \<Rightarrow> process_entry" where
  "judge_entry img e =
    (if pe_image_path e = im_path img then fst (judged e (im_verdict img)) else e)"

definition judge_moved :: "image \<Rightarrow> process_entry \<Rightarrow> bool" where
  "judge_moved img e \<longleftrightarrow> pe_image_path e = im_path img \<and> snd (judged e (im_verdict img))"

definition judge :: "image \<Rightarrow> process_table \<Rightarrow> process_table" where
  "judge img t =
    (case hm_get (t_images t) (im_path img) of
       None \<Rightarrow> t
     | Some running \<Rightarrow>
         t\<lparr>t_processes := hm_map (\<lambda>_. judge_entry img) (t_processes t),
           t_passports :=
             fold (\<lambda>(_, e) ps. if judge_moved img e then List.insert (pe_pid e) ps else ps)
               (t_processes t) (t_passports t),
           t_images := hm_put (im_path img) (running\<lparr>run_verdict := Some (im_verdict img)\<rparr>) (t_images t)\<rparr>)"

text \<open>\<^verbatim>\<open>ProcessTable::observe\<close>\<close>
definition observe :: "process_state \<Rightarrow> process_table \<Rightarrow> process_table" where
  "observe state t =
    (case hm_get (t_processes t) (ps_pid state) of
       None \<Rightarrow> t
     | Some entry \<Rightarrow>
         if pe_sequence_number entry = ps_sequence_number state \<and> pe_state entry \<noteq> state
         then t\<lparr>t_processes := hm_put (ps_pid state) (entry\<lparr>pe_state := state\<rparr>) (t_processes t),
                t_states := List.insert (ps_pid state) (t_states t)\<rparr>
         else t)"

text \<open>\<^verbatim>\<open>ProcessTable::take\<close>\<close>
definition table_take :: "diff \<Rightarrow> process_table \<Rightarrow> diff \<times> process_table" where
  "table_take diff t =
    (diff\<lparr>df_gone := df_gone diff @ t_gone t,
          df_passports := df_passports diff @
            map passport (List.map_filter (hm_get (t_processes t)) (t_passports t)),
          df_states := df_states diff @
            map pe_state (List.map_filter (hm_get (t_processes t)) (t_states t))\<rparr>,
     t\<lparr>t_gone := [], t_passports := [], t_states := []\<rparr>)"

text \<open>\<^verbatim>\<open>ProcessTable::pending\<close> and \<^verbatim>\<open>get\<close>\<close>
definition table_pending :: "process_table \<Rightarrow> string list" where
  "table_pending t = map fst (filter (\<lambda>(_, running). run_verdict running = None) (t_images t))"

definition table_get :: "process_table \<Rightarrow> u32 \<Rightarrow> process_entry option" where
  "table_get t pid = hm_get (t_processes t) pid"

lemma less_plus_one:
  fixes w :: "'a::len word"
  assumes "w \<noteq> - 1"
  shows "w < w + 1"
proof -
  have "w + 1 \<noteq> 0" using assms by (metis add.commute add_eq_0_iff)
  then have "unat (w + 1) = Suc (unat w)" by (simp add: unatSuc add.commute)
  then show ?thesis by (simp add: word_less_nat_alt)
qed

section \<open>Counting the processes that run an image\<close>

definition hm_count :: "('v \<Rightarrow> bool) \<Rightarrow> ('k, 'v) hashmap \<Rightarrow> nat" where
  "hm_count P m = length (filter (\<lambda>(_, v). P v) m)"

lemma hm_count_Cons [simp]: "hm_count P ((k, v) # m) = (if P v then 1 else 0) + hm_count P m"
  by (simp add: hm_count_def)

lemma hm_count_Nil [simp]: "hm_count P [] = 0"
  by (simp add: hm_count_def)

lemma hm_count_le: "hm_count P m \<le> length m"
  by (simp add: hm_count_def)

lemma hm_count_filter: "hm_count P m = hm_count P (filter Q m) + hm_count P (filter (\<lambda>x. \<not> Q x) m)"
  by (induction m) auto

lemma hm_count_pos: "(k, v) \<in> set m \<Longrightarrow> P v \<Longrightarrow> 0 < hm_count P m"
  by (induction m) auto

lemma hm_count_put:
  "hm_ok m \<Longrightarrow> hm_count P (hm_put k v m) + (case hm_get m k of Some u \<Rightarrow> if P u then 1 else 0 | None \<Rightarrow> 0) =
    hm_count P m + (if P v then 1 else 0)"
proof (induction m)
  case (Cons a m)
  obtain k' v' where a: "a = (k', v')" by force
  then have "hm_ok m" using Cons.prems by simp
  then show ?case using Cons.IH by (simp add: a)
qed simp

lemma hm_count_map:
  "(\<And>k v. P (f k v) = P v) \<Longrightarrow> hm_count P (hm_map f m) = hm_count P m"
  by (induction m) (auto simp: hm_map_def)

lemma length_hm_put: "length (hm_put k v m) \<le> Suc (length m)"
  by (induction m) auto

definition refs :: "(u32, process_entry) hashmap \<Rightarrow> string \<Rightarrow> nat" where
  "refs m path = hm_count (\<lambda>e. pe_image_path e = path) m"

text \<open>The table of images counts, for every path, this many processes.\<close>
fun counts :: "running option \<Rightarrow> nat \<Rightarrow> bool" where
  "counts None k \<longleftrightarrow> k = 0"
| "counts (Some r) k \<longleftrightarrow> 0 < k \<and> unat (run_processes r) = k"

definition images_count :: "images \<Rightarrow> (string \<Rightarrow> nat) \<Rightarrow> bool" where
  "images_count images n \<longleftrightarrow> hm_ok images \<and> hm_get images '''' = None \<and>
    (\<forall>p. p \<noteq> '''' \<longrightarrow> counts (hm_get images p) (n p))"

lemma images_count_cong:
  "images_count images n \<Longrightarrow> (\<And>p. p \<noteq> '''' \<Longrightarrow> n p = n' p) \<Longrightarrow> images_count images n'"
  by (simp add: images_count_def)

definition verdict_in :: "images \<Rightarrow> string \<Rightarrow> image_verdict option" where
  "verdict_in images p = Option.bind (hm_get images p) run_verdict"

lemma release_empty: "hm_get images p = None \<Longrightarrow> release images p = images"
  by (simp add: release_def)

lemma images_count_get:
  "images_count images n \<Longrightarrow> p \<noteq> '''' \<Longrightarrow> hm_get images p = Some r \<Longrightarrow>
    0 < n p \<and> unat (run_processes r) = n p"
  unfolding images_count_def by (metis counts.simps(2))

lemma images_count_none:
  "images_count images n \<Longrightarrow> p \<noteq> '''' \<Longrightarrow> hm_get images p = None \<Longrightarrow> n p = 0"
  unfolding images_count_def by (metis counts.simps(1))

lemma unat_pred:
  fixes w :: "'a::len word"
  assumes "0 < unat w"
  shows "unat (w - 1) = unat w - 1"
proof -
  have "1 \<le> w" using assms by (simp add: word_le_nat_alt)
  then show ?thesis by (simp add: unat_sub)
qed

lemma release_count:
  assumes "images_count images n" "p \<noteq> '''' \<longrightarrow> 0 < n p"
  shows "images_count (release images p) (n(p := n p - 1))"
proof (cases "p = ''''")
  case True
  then show ?thesis using assms by (auto simp: images_count_def release_def)
next
  case False
  then obtain r where r: "hm_get images p = Some r"
    using assms images_count_none [OF assms(1), of p] by (cases "hm_get images p") auto
  then have n: "unat (run_processes r) = n p" "0 < n p"
    using images_count_get [OF assms(1) False] by auto
  then have u: "unat (run_processes r - 1) = n p - 1" by (simp add: unat_pred)
  have z: "run_processes r - 1 = 0 \<longleftrightarrow> n p - 1 = 0" using u by (simp flip: unat_eq_0)
  show ?thesis
  proof (cases "run_processes r - 1 = 0")
    case True
    then show ?thesis
      using assms(1) r z n False by (auto simp: images_count_def release_def hm Let_def)
  next
    case F: False
    then show ?thesis
      using assms(1) r u z n False by (auto simp: images_count_def release_def hm Let_def)
  qed
qed

lemma release_verdict:
  assumes "images_count images n" "q = p \<longrightarrow> 1 < n p" "q \<noteq> ''''"
  shows "verdict_in (release images p) q = verdict_in images q"
proof (cases "hm_get images p")
  case None
  then show ?thesis by (simp add: release_empty)
next
  case (Some r)
  show ?thesis
  proof (cases "q = p")
    case True
    then have "unat (run_processes r) = n p"
      using images_count_get [OF assms(1) _ Some] assms(3) by simp
    then have "run_processes r - 1 \<noteq> 0" using assms(2) True by auto
    then show ?thesis using Some True by (simp add: release_def verdict_in_def hm Let_def)
  next
    case False
    then show ?thesis using Some by (simp add: release_def verdict_in_def hm Let_def)
  qed
qed

lemma acquire_count:
  assumes "images_count images n" "pe_image_path e \<noteq> ''''" "Suc (n (pe_image_path e)) < 2 ^ 32"
  shows "images_count (fst (acquire images e)) (n(pe_image_path e := Suc (n (pe_image_path e))))"
proof (cases "hm_get images (pe_image_path e)")
  case None
  then show ?thesis
    using assms images_count_none [OF assms(1,2) None]
    by (auto simp: images_count_def acquire_def hm)
next
  case (Some r)
  then have "unat (run_processes r) = n (pe_image_path e)"
    using images_count_get [OF assms(1,2) Some] by simp
  then have "unat (run_processes r + 1) = Suc (n (pe_image_path e))"
    using assms(3) by (simp add: unat_word_ariths)
  then show ?thesis
    using assms Some by (auto simp: images_count_def acquire_def hm Let_def)
qed

lemma acquire_verdict: "verdict_in (fst (acquire images e)) q = verdict_in images q"
  by (simp add: acquire_def verdict_in_def hm Let_def split: option.splits)

section \<open>What an entry says of its image\<close>

text \<open>The entry shows exactly this verdict, or that there is none yet.\<close>
definition entry_says :: "process_entry \<Rightarrow> image_verdict option \<Rightarrow> bool" where
  "entry_says e verdict =
    (let v = (case verdict of None \<Rightarrow> image_verdict_default | Some v \<Rightarrow> v)
     in pe_signature e = iv_signature v \<and>
        pe_is_windows_process e = (pe_is_kernel_process e \<or> iv_is_windows_process v) \<and>
        pe_display_name e = iv_display_name v \<and> pe_publisher e = iv_publisher v)"

lemma judged_fields [simp]:
  "pe_image_path (fst (judged e v)) = pe_image_path e"
  "pe_pid (fst (judged e v)) = pe_pid e"
  "pe_sequence_number (fst (judged e v)) = pe_sequence_number e"
  "pe_state (fst (judged e v)) = pe_state e"
  "pe_listed (fst (judged e v)) = pe_listed e"
  "pe_is_kernel_process (fst (judged e v)) = pe_is_kernel_process e"
  by (simp_all add: judged_def Let_def)

lemma judged_says [simp]: "entry_says (fst (judged e v)) (Some v)"
  by (simp add: judged_def entry_says_def Let_def)

lemma judged_still: "\<not> snd (judged e v) \<Longrightarrow> fst (judged e v) = e"
  by (cases e) (simp add: judged_def Let_def)

lemma acquire_entry:
  assumes "entry_says e None"
  shows "entry_says (snd (acquire images e)) (verdict_in images (pe_image_path e))"
    "pe_image_path (snd (acquire images e)) = pe_image_path e"
    "snd (acquire images e) = e \<or> (\<exists>v. snd (acquire images e) = fst (judged e v))"
  using assms
  by (auto simp: acquire_def verdict_in_def Let_def split: option.splits)

lemma entry_says_listed [simp]: "entry_says (e\<lparr>pe_listed := now\<rparr>) v = entry_says e v"
  by (simp add: entry_says_def)

lemma entry_says_state [simp]: "entry_says (e\<lparr>pe_state := st\<rparr>) v = entry_says e v"
  by (simp add: entry_says_def)

lemma entry_sighted_says [simp]: "entry_says (entry_sighted row sg) None"
  by (simp add: entry_says_def entry_sighted_def image_verdict_default_def Let_def)

lemma entry_sighted_fields [simp]:
  "pe_pid (entry_sighted row sg) = r_pid row"
  "pe_sequence_number (entry_sighted row sg) = r_sequence_number row"
  "pe_state (entry_sighted row sg) = process_state_new (r_pid row) (r_sequence_number row)"
  "pe_image_path (entry_sighted row sg) = rd_image_path (sg_read sg)"
  by (simp_all add: entry_sighted_def Let_def)

text \<open>The images and the processes agree: counts, and what each process shows.\<close>
definition images_match :: "images \<Rightarrow> (u32, process_entry) hashmap \<Rightarrow> bool" where
  "images_match images m \<longleftrightarrow> images_count images (refs m) \<and>
    (\<forall>pid e. hm_get m pid = Some e \<longrightarrow> entry_says e (verdict_in images (pe_image_path e)))"

lemma verdict_in_empty: "images_count images n \<Longrightarrow> verdict_in images '''' = None"
  by (simp add: images_count_def verdict_in_def)

lemma refs_pos: "hm_get m pid = Some e \<Longrightarrow> 0 < refs m (pe_image_path e)"
  unfolding refs_def by (rule hm_count_pos [where k = pid]) (auto dest: map_of_SomeD)

section \<open>The table's invariant\<close>

text \<open>An entry is kept under its own pid, and its state is its own.\<close>
definition entry_ok :: "u32 \<Rightarrow> u64 \<Rightarrow> process_entry \<Rightarrow> bool" where
  "entry_ok pid reconciled e \<longleftrightarrow> pe_pid e = pid \<and> ps_pid (pe_state e) = pid \<and>
    ps_sequence_number (pe_state e) = pe_sequence_number e \<and> pe_listed e \<le> reconciled"

definition table_ok :: "process_table \<Rightarrow> bool" where
  "table_ok t \<longleftrightarrow> hm_ok (t_processes t) \<and> images_match (t_images t) (t_processes t) \<and>
    (\<forall>pid e. hm_get (t_processes t) pid = Some e \<longrightarrow> entry_ok pid (t_reconciled t) e)"

lemma table_ok_new [simp]: "table_ok table_new"
  by (simp add: table_ok_def table_new_def images_match_def images_count_def refs_def)

lemma refs_put:
  assumes "hm_ok m"
  shows "refs (hm_put pid e m) p =
    (if pe_image_path e = p then 1 else 0) + refs m p -
      (case hm_get m pid of Some old \<Rightarrow> if pe_image_path old = p then 1 else 0 | None \<Rightarrow> 0)"
  using hm_count_put [OF assms, of "\<lambda>e. pe_image_path e = p" pid e]
  by (simp add: refs_def split: option.splits)

text \<open>The images after a process joins, before an earlier one of its pid is let go.\<close>
definition image_step :: "images \<Rightarrow> process_entry \<Rightarrow> images \<times> process_entry" where
  "image_step images e = (if pe_image_path e = '''' then (images, e) else acquire images e)"

definition count_up :: "(string \<Rightarrow> nat) \<Rightarrow> string \<Rightarrow> string \<Rightarrow> nat" where
  "count_up n p = n(p := Suc (n p))"

lemma image_step_fields:
  assumes "entry_says e None" "images_count images n"
  shows "entry_says (snd (image_step images e)) (verdict_in images (pe_image_path e))"
    "pe_image_path (snd (image_step images e)) = pe_image_path e"
    "snd (image_step images e) = e \<or> (\<exists>v. snd (image_step images e) = fst (judged e v))"
    "verdict_in (fst (image_step images e)) q = verdict_in images q"
  using acquire_entry [OF assms(1), of images] acquire_verdict [of images e q] assms
    verdict_in_empty [OF assms(2)]
  by (auto simp: image_step_def)

lemma image_step_count:
  assumes "images_count images n" "Suc (n (pe_image_path e)) < 2 ^ 32"
  shows "images_count (fst (image_step images e)) (count_up n (pe_image_path e))"
  using acquire_count [OF assms(1) _ assms(2)] assms(1)
  by (auto simp: image_step_def count_up_def intro: images_count_cong)

lemma join_matches:
  assumes m: "images_match images m" and ok: "hm_ok m" and e: "entry_says e None"
    and len: "Suc (length m) < 2 ^ 32"
    and step: "image_step images e = (images', e')"
    and images''_def: "images'' = (case hm_get m pid of
      None \<Rightarrow> images' | Some old \<Rightarrow> release images' (pe_image_path old))"
  shows "images_match images'' (hm_put pid e' m)"
proof -
  have c: "images_count images (refs m)" using m by (simp add: images_match_def)
  have "refs m (pe_image_path e) \<le> length m" unfolding refs_def by (rule hm_count_le)
  then have c': "images_count images' (count_up (refs m) (pe_image_path e))"
    using image_step_count [OF c, of e] step len by simp
  have e': "entry_says e' (verdict_in images (pe_image_path e))" "pe_image_path e' = pe_image_path e"
    and v: "verdict_in images' q = verdict_in images q" for q
    using image_step_fields [OF e c] step by auto
  show ?thesis
  proof (cases "hm_get m pid")
    case None
    have "refs (hm_put pid e' m) = count_up (refs m) (pe_image_path e)"
      using refs_put [OF ok, of pid e'] None e' by (auto simp: count_up_def)
    then show ?thesis
      using c' m e' v None by (auto simp: images_match_def images''_def hm split: if_splits)
  next
    case (Some old)
    let ?p = "pe_image_path old"
    have pos: "0 < refs m ?p" using Some by (rule refs_pos)
    have r: "refs (hm_put pid e' m) =
        (count_up (refs m) (pe_image_path e)) (?p := count_up (refs m) (pe_image_path e) ?p - 1)"
      using refs_put [OF ok, of pid e'] Some e' by (auto simp: count_up_def)
    have count: "images_count images'' (refs (hm_put pid e' m))"
      using release_count [OF c', of ?p] Some pos unfolding r images''_def
      by (simp add: count_up_def del: fun_upd_apply) (simp add: fun_upd_def)
    have "verdict_in images'' q = verdict_in images q" if q: "0 < refs (hm_put pid e' m) q" for q
    proof (cases "q = ''''")
      case True
      then show ?thesis using verdict_in_empty [OF count] verdict_in_empty [OF c] by simp
    next
      case False
      have "q = ?p \<longrightarrow> 1 < count_up (refs m) (pe_image_path e) ?p"
        using q by (auto simp: r)
      then show ?thesis
        using release_verdict [OF c' _ False] v Some by (simp add: images''_def)
    qed
    then have vv: "verdict_in images'' (pe_image_path x) = verdict_in images (pe_image_path x)"
      if "hm_get (hm_put pid e' m) j = Some x" for j x
      using refs_pos [OF that] by simp
    then show ?thesis
      using count m e' vv [of pid e'] by (auto simp: images_match_def hm split: if_splits)
  qed
qed

lemma join_row_eq:
  "join_row sight now row (t, asked) =
    (let e = (entry_sighted row (sight row))\<lparr>pe_listed := now\<rparr>;
         (images, e') = image_step (t_images t) e;
         earlier = hm_get (t_processes t) (r_pid row)
     in (t\<lparr>t_processes := hm_put (r_pid row) e' (t_processes t),
           t_images := (case earlier of None \<Rightarrow> images | Some old \<Rightarrow> release images (pe_image_path old)),
           t_gone := t_gone t @ (case earlier of None \<Rightarrow> [] | Some old \<Rightarrow> [(r_pid row, pe_sequence_number old)]),
           t_passports := List.insert (r_pid row) (t_passports t),
           t_states := List.insert (r_pid row) (t_states t)\<rparr>,
         asked @ (if pe_image_path e = '''' then [] else [request_of e'])))"
  by (simp add: join_row_def image_step_def Let_def split: prod.splits option.splits)

text \<open>What a new process's entry is: what was sighted, its image's verdict at most added.\<close>
definition new_entry :: "(row \<Rightarrow> sighted) \<Rightarrow> u64 \<Rightarrow> row \<Rightarrow> process_entry \<Rightarrow> bool" where
  "new_entry sight now row e \<longleftrightarrow>
    (let sighted = (entry_sighted row (sight row))\<lparr>pe_listed := now\<rparr>
     in e = sighted \<or> (\<exists>v. e = fst (judged sighted v)))"

lemma new_entry_fields:
  "new_entry sight now row e \<Longrightarrow> pe_pid e = r_pid row \<and> pe_sequence_number e = r_sequence_number row \<and>
    pe_state e = process_state_new (r_pid row) (r_sequence_number row) \<and> pe_listed e = now"
  by (auto simp: new_entry_def Let_def)

lemma images_match_rewrite:
  assumes "images_match images m" "hm_ok m" "hm_get m pid = Some e"
    "pe_image_path e' = pe_image_path e" "\<And>v. entry_says e' v = entry_says e v"
  shows "images_match images (hm_put pid e' m)"
proof -
  have "refs (hm_put pid e' m) = refs m"
    using refs_put [OF assms(2), of pid e'] assms(3,4) by auto
  then show ?thesis using assms by (auto simp: images_match_def hm)
qed

lemma relisted_ok:
  assumes "table_ok t" "hm_get (t_processes t) pid = Some e"
  shows "table_ok (t\<lparr>t_processes := hm_put pid (e\<lparr>pe_listed := t_reconciled t\<rparr>) (t_processes t)\<rparr>)"
  using assms images_match_rewrite [of "t_images t" "t_processes t" pid e "e\<lparr>pe_listed := t_reconciled t\<rparr>"]
  by (auto simp: table_ok_def hm entry_ok_def)

lemma join_row_effect:
  fixes t :: process_table
  assumes ok: "table_ok t" and now: "t_reconciled t = now" and len: "Suc (length (t_processes t)) < 2 ^ 32"
  obtains e images where "new_entry sight now row e" "table_ok (fst (join_row sight now row (t, asked)))"
    "fst (join_row sight now row (t, asked)) = t\<lparr>t_processes := hm_put (r_pid row) e (t_processes t),
       t_images := images,
       t_gone := t_gone t @ (case hm_get (t_processes t) (r_pid row) of
         None \<Rightarrow> [] | Some old \<Rightarrow> [(r_pid row, pe_sequence_number old)]),
       t_passports := List.insert (r_pid row) (t_passports t),
       t_states := List.insert (r_pid row) (t_states t)\<rparr>"
proof -
  let ?e = "(entry_sighted row (sight row))\<lparr>pe_listed := now\<rparr>"
  let ?m = "t_processes t"
  have m: "images_match (t_images t) ?m" "hm_ok ?m" using ok by (auto simp: table_ok_def)
  then have c: "images_count (t_images t) (refs ?m)" by (simp add: images_match_def)
  have says: "entry_says ?e None" by simp
  obtain images' e where step: "image_step (t_images t) ?e = (images', e)" by force
  define images where "images = (case hm_get ?m (r_pid row) of
    None \<Rightarrow> images' | Some old \<Rightarrow> release images' (pe_image_path old))"
  have new: "new_entry sight now row e"
    using image_step_fields(3) [OF says c] step by (simp add: new_entry_def Let_def)
  have eq: "fst (join_row sight now row (t, asked)) = t\<lparr>t_processes := hm_put (r_pid row) e ?m,
       t_images := images,
       t_gone := t_gone t @ (case hm_get ?m (r_pid row) of
         None \<Rightarrow> [] | Some old \<Rightarrow> [(r_pid row, pe_sequence_number old)]),
       t_passports := List.insert (r_pid row) (t_passports t),
       t_states := List.insert (r_pid row) (t_states t)\<rparr>"
    by (simp add: join_row_eq step images_def Let_def)
  have "images_match images (hm_put (r_pid row) e ?m)"
    using join_matches [OF m says len step images_def] .
  then have "table_ok (fst (join_row sight now row (t, asked)))"
    using ok new_entry_fields [OF new] m(2) now unfolding eq
    by (auto simp: table_ok_def hm entry_ok_def)
  with new eq that show ?thesis by blast
qed

text \<open>What the entry of a row's pid becomes.\<close>
definition row_entry ::
  "process_entry option \<Rightarrow> (row \<Rightarrow> sighted) \<Rightarrow> u64 \<Rightarrow> row \<Rightarrow> process_entry \<Rightarrow> bool" where
  "row_entry known sight now row e =
    (case known of
       Some old \<Rightarrow>
         if pe_sequence_number old = r_sequence_number row then e = old\<lparr>pe_listed := now\<rparr>
         else new_entry sight now row e
     | None \<Rightarrow> new_entry sight now row e)"

lemma row_entry_fields:
  "row_entry known sight now row e \<Longrightarrow>
    pe_listed e = now \<and> pe_sequence_number e = r_sequence_number row"
  by (auto simp: row_entry_def dest: new_entry_fields split: option.splits if_splits)

lemma reconcile_row_effect:
  assumes "table_ok t" "t_reconciled t = now" "Suc (length (t_processes t)) < 2 ^ 32"
  obtains e where "row_entry (hm_get (t_processes t) (r_pid row)) sight now row e"
    "hm_get (t_processes (fst (reconcile_row sight now row (t, asked)))) =
      (hm_get (t_processes t))(r_pid row \<mapsto> e)"
    "table_ok (fst (reconcile_row sight now row (t, asked)))"
    "t_reconciled (fst (reconcile_row sight now row (t, asked))) = now"
    "length (t_processes (fst (reconcile_row sight now row (t, asked)))) \<le> Suc (length (t_processes t))"
proof -
  let ?r = "fst (reconcile_row sight now row (t, asked))"
  show ?thesis
  proof (cases "is_listed t row")
    case True
    then obtain old where old: "hm_get (t_processes t) (r_pid row) = Some old"
      "pe_sequence_number old = r_sequence_number row"
      by (auto simp: is_listed_def split: option.splits)
    have eq: "?r = t\<lparr>t_processes := hm_put (r_pid row) (old\<lparr>pe_listed := now\<rparr>) (t_processes t)\<rparr>"
      using old by (simp add: reconcile_row_def)
    show ?thesis
      by (rule that [of "old\<lparr>pe_listed := now\<rparr>"])
        (use relisted_ok [OF assms(1) old(1)] assms(2) old length_hm_put in
          \<open>simp_all add: eq row_entry_def hm\<close>)
  next
    case False
    then have j: "reconcile_row sight now row (t, asked) = join_row sight now row (t, asked)"
      by (auto simp: reconcile_row_def is_listed_def split: option.splits)
    obtain e images where e: "new_entry sight now row e" "table_ok (fst (join_row sight now row (t, asked)))"
      "fst (join_row sight now row (t, asked)) = t\<lparr>t_processes := hm_put (r_pid row) e (t_processes t),
         t_images := images,
         t_gone := t_gone t @ (case hm_get (t_processes t) (r_pid row) of
           None \<Rightarrow> [] | Some old \<Rightarrow> [(r_pid row, pe_sequence_number old)]),
         t_passports := List.insert (r_pid row) (t_passports t),
         t_states := List.insert (r_pid row) (t_states t)\<rparr>"
      by (rule join_row_effect [OF assms])
    show ?thesis
    proof (rule that [of e])
      show "row_entry (hm_get (t_processes t) (r_pid row)) sight now row e"
        using e(1) False by (auto simp: row_entry_def is_listed_def split: option.splits)
      show "table_ok ?r" using e(2) j by simp
      show "hm_get (t_processes ?r) = (hm_get (t_processes t))(r_pid row \<mapsto> e)"
        "t_reconciled ?r = now"
        "length (t_processes ?r) \<le> Suc (length (t_processes t))"
        unfolding j e(3) using assms(2) length_hm_put by (simp_all add: hm)
    qed
  qed
qed

lemma reconcile_rows_effect:
  assumes "table_ok t" "t_reconciled t = now" "length (t_processes t) + length rows < 2 ^ 32"
    "distinct (map r_pid rows)"
    and t'_def: "t' = fst (fold (reconcile_row sight now) rows (t, asked))"
  shows "table_ok t' \<and> t_reconciled t' = now \<and>
    (\<forall>pid. pid \<notin> r_pid ` set rows \<longrightarrow> hm_get (t_processes t') pid = hm_get (t_processes t) pid) \<and>
    (\<forall>row \<in> set rows. \<exists>e. hm_get (t_processes t') (r_pid row) = Some e \<and>
       row_entry (hm_get (t_processes t) (r_pid row)) sight now row e)"
  using assms(1-4) unfolding t'_def
proof (induction rows arbitrary: t asked)
  case Nil
  then show ?case by simp
next
  case (Cons row rows)
  have len: "Suc (length (t_processes t)) < 2 ^ 32" using Cons.prems(3) by simp
  obtain t1 asked1 where s: "reconcile_row sight now row (t, asked) = (t1, asked1)" by force
  obtain e where e: "row_entry (hm_get (t_processes t) (r_pid row)) sight now row e"
    "hm_get (t_processes t1) = (hm_get (t_processes t))(r_pid row \<mapsto> e)"
    "table_ok t1" "t_reconciled t1 = now" "length (t_processes t1) \<le> Suc (length (t_processes t))"
    using reconcile_row_effect [OF Cons.prems(1,2) len, of row sight asked] s by auto
  have other: "r_pid row \<notin> r_pid ` set rows" using Cons.prems(4) by simp
  have "length (t_processes t1) + length rows < 2 ^ 32" using e(5) Cons.prems(3) by simp
  moreover have "distinct (map r_pid rows)" using Cons.prems(4) by simp
  ultimately have IH: "table_ok (fst (fold (reconcile_row sight now) rows (t1, asked1)))"
    "t_reconciled (fst (fold (reconcile_row sight now) rows (t1, asked1))) = now"
    "\<And>pid. pid \<notin> r_pid ` set rows \<Longrightarrow>
      hm_get (t_processes (fst (fold (reconcile_row sight now) rows (t1, asked1)))) pid = hm_get (t_processes t1) pid"
    "\<And>r. r \<in> set rows \<Longrightarrow> \<exists>e. hm_get (t_processes (fst (fold (reconcile_row sight now) rows (t1, asked1)))) (r_pid r) = Some e \<and>
       row_entry (hm_get (t_processes t1) (r_pid r)) sight now r e"
    using Cons.IH [OF e(3,4)] by blast+
  have pid: "r_pid r \<noteq> r_pid row" if "r \<in> set rows" for r
    using other that by (metis image_eqI)
  show ?case
    using IH e other pid by (auto simp: s)
qed

section \<open>The processes that leave\<close>

lemma leave_eq:
  "leave (pid, e) t = t\<lparr>t_gone := t_gone t @ [(pid, pe_sequence_number e)],
     t_passports := filter (\<lambda>p. p \<noteq> pid) (t_passports t),
     t_states := filter (\<lambda>p. p \<noteq> pid) (t_states t),
     t_images := release (t_images t) (pe_image_path e)\<rparr>"
  by (simp add: leave_def removeAll_filter_not_eq eq_commute)

lemma fold_leave:
  "fold leave gs t = t\<lparr>t_gone := t_gone t @ map (\<lambda>(pid, e). (pid, pe_sequence_number e)) gs,
     t_passports := filter (\<lambda>p. p \<notin> hm_keys gs) (t_passports t),
     t_states := filter (\<lambda>p. p \<notin> hm_keys gs) (t_states t),
     t_images := fold (\<lambda>(_, e) images. release images (pe_image_path e)) gs (t_images t)\<rparr>"
proof (induction gs arbitrary: t)
  case Nil
  then show ?case by simp
next
  case (Cons a gs)
  obtain pid e where a: "a = (pid, e)" by force
  show ?case
    by (simp add: a Cons.IH leave_eq)
qed

lemma release_all:
  assumes "images_count images (\<lambda>p. n p + refs gs p)"
  shows "images_count (fold (\<lambda>(_, e) images. release images (pe_image_path e)) gs images) n \<and>
    (\<forall>q. q \<noteq> '''' \<longrightarrow> 0 < n q \<longrightarrow>
      verdict_in (fold (\<lambda>(_, e) images. release images (pe_image_path e)) gs images) q = verdict_in images q)"
  using assms
proof (induction gs arbitrary: images)
  case Nil
  then show ?case by (simp add: refs_def)
next
  case (Cons a gs)
  obtain pid e where a: "a = (pid, e)" by force
  let ?p = "pe_image_path e"
  let ?all = "\<lambda>p. n p + refs (a # gs) p"
  have all: "?all p = (if ?p = p then 1 else 0) + (n p + refs gs p)" for p
    by (simp add: a refs_def)
  have "images_count (release images ?p) (?all(?p := ?all ?p - 1))"
    by (rule release_count [OF Cons.prems]) (simp add: all)
  moreover have "?all(?p := ?all ?p - 1) = (\<lambda>p. n p + refs gs p)"
    by (rule ext) (simp add: all)
  ultimately have c: "images_count (release images ?p) (\<lambda>p. n p + refs gs p)" by simp
  have "verdict_in (release images ?p) q = verdict_in images q" if "q \<noteq> ''''" "0 < n q" for q
    by (rule release_verdict [OF Cons.prems _ that(1)]) (use that(2) all in auto)
  then show ?case using Cons.IH [OF c] by (simp add: a)
qed

lemma retain_images:
  assumes "images_match images m" "hm_ok m"
  shows "images_match
    (fold (\<lambda>(_, e) images. release images (pe_image_path e)) (filter (\<lambda>x. \<not> P x) m) images) (filter P m)"
proof -
  let ?im = "fold (\<lambda>(_, e) images. release images (pe_image_path e)) (filter (\<lambda>x. \<not> P x) m) images"
  have c: "images_count images (refs m)" using assms(1) by (simp add: images_match_def)
  have "refs m = (\<lambda>p. refs (filter P m) p + refs (filter (\<lambda>x. \<not> P x) m) p)"
    unfolding refs_def by (rule ext) (rule hm_count_filter)
  then have "images_count images (\<lambda>p. refs (filter P m) p + refs (filter (\<lambda>x. \<not> P x) m) p)"
    using c by simp
  from release_all [OF this] have c': "images_count ?im (refs (filter P m))"
    and v: "\<And>q. q \<noteq> '''' \<Longrightarrow> 0 < refs (filter P m) q \<Longrightarrow> verdict_in ?im q = verdict_in images q"
    by auto
  have "entry_says e (verdict_in ?im (pe_image_path e))" if e: "hm_get (filter P m) pid = Some e" for pid e
  proof -
    have old: "hm_get m pid = Some e"
      using e assms(2) by (auto simp: hm split: option.splits if_splits)
    then have s: "entry_says e (verdict_in images (pe_image_path e))"
      using assms(1) by (simp add: images_match_def)
    show ?thesis
    proof (cases "pe_image_path e = ''''")
      case True
      then show ?thesis using s verdict_in_empty [OF c] verdict_in_empty [OF c'] by simp
    next
      case False
      then show ?thesis using s v refs_pos [OF e] by simp
    qed
  qed
  then show ?thesis using c' by (simp add: images_match_def)
qed

lemma retain_effect:
  assumes "table_ok t"
  shows "table_ok (retain_listed now t)"
    "hm_get (t_processes (retain_listed now t)) pid =
      (case hm_get (t_processes t) pid of Some e \<Rightarrow> if pe_listed e = now then Some e else None | None \<Rightarrow> None)"
    "t_reconciled (retain_listed now t) = t_reconciled t"
proof -
  have ok: "hm_ok (t_processes t)" "images_match (t_images t) (t_processes t)"
    using assms by (auto simp: table_ok_def)
  show get: "hm_get (t_processes (retain_listed now t)) pid =
      (case hm_get (t_processes t) pid of Some e \<Rightarrow> if pe_listed e = now then Some e else None | None \<Rightarrow> None)"
    for pid
    using ok(1) by (simp add: retain_listed_def hm Let_def split: option.splits)
  have neg: "(\<lambda>x :: u32 \<times> process_entry. \<not> (case x of (_, entry) \<Rightarrow> pe_listed entry = now)) =
      (\<lambda>(_, entry). pe_listed entry \<noteq> now)"
    by auto
  have "images_match (t_images (retain_listed now t)) (t_processes (retain_listed now t))"
    using retain_images [OF ok(2,1), of "\<lambda>(_, e). pe_listed e = now"]
    by (simp add: retain_listed_def Let_def fold_leave neg)
  moreover show rec: "t_reconciled (retain_listed now t) = t_reconciled t"
    by (simp add: retain_listed_def Let_def fold_leave)
  moreover have "hm_ok (t_processes (retain_listed now t))"
    using ok(1) by (simp add: retain_listed_def Let_def)
  moreover have "entry_ok p (t_reconciled t) e"
    if "hm_get (t_processes (retain_listed now t)) p = Some e" for p e
    using that assms unfolding get by (auto simp: table_ok_def split: option.splits if_splits)
  ultimately show "table_ok (retain_listed now t)" by (simp add: table_ok_def)
qed

section \<open>Reconciling\<close>

text \<open>
  What is asked of a snapshot's rows: one row per pid. The counters of the
  table do not wrap while fewer than \<^verbatim>\<open>2 ^ 32\<close> processes are in sight and fewer
  than \<^verbatim>\<open>2 ^ 64\<close> snapshots were read.
\<close>
definition rows_fit :: "process_table \<Rightarrow> row list \<Rightarrow> bool" where
  "rows_fit t rows \<longleftrightarrow> distinct (map r_pid rows) \<and>
    length (t_processes t) + length rows < 2 ^ 32 \<and> t_reconciled t \<noteq> - 1"

lemma table_ok_tick:
  assumes "table_ok t" "t_reconciled t \<noteq> - 1"
  shows "table_ok (t\<lparr>t_reconciled := t_reconciled t + 1\<rparr>)"
    "hm_get (t_processes t) pid = Some e \<Longrightarrow> pe_listed e \<noteq> t_reconciled t + 1"
proof -
  have lt: "t_reconciled t < t_reconciled t + 1"
    using assms(2) by (rule less_plus_one)
  show "table_ok (t\<lparr>t_reconciled := t_reconciled t + 1\<rparr>)"
    using assms(1) lt by (fastforce simp: table_ok_def entry_ok_def)
  show "hm_get (t_processes t) pid = Some e \<Longrightarrow> pe_listed e \<noteq> t_reconciled t + 1"
    using assms(1) lt by (fastforce simp: table_ok_def entry_ok_def)
qed

lemma reconcile_effect:
  assumes ok: "table_ok t" and fit: "rows_fit t rows"
  defines "now \<equiv> t_reconciled t + 1"
  shows "table_ok (fst (reconcile rows sight t)) \<and>
    hm_keys (t_processes (fst (reconcile rows sight t))) = r_pid ` set rows \<and>
    (\<forall>row \<in> set rows. \<exists>e. table_get (fst (reconcile rows sight t)) (r_pid row) = Some e \<and>
      row_entry (table_get t (r_pid row)) sight now row e)"
proof -
  let ?t0 = "t\<lparr>t_reconciled := now\<rparr>"
  obtain t1 asked where f: "fold (reconcile_row sight now) rows (?t0, []) = (t1, asked)" by force
  have ok0: "table_ok ?t0" and old: "\<And>pid e. hm_get (t_processes t) pid = Some e \<Longrightarrow> pe_listed e \<noteq> now"
    using table_ok_tick [OF ok] fit by (auto simp: rows_fit_def now_def)
  have "length (t_processes ?t0) + length rows < 2 ^ 32" "distinct (map r_pid rows)"
    using fit by (auto simp: rows_fit_def)
  from reconcile_rows_effect [OF ok0 _ this, of now t1 sight "[]"] f
  have e: "table_ok t1" "t_reconciled t1 = now"
    "\<And>pid. pid \<notin> r_pid ` set rows \<Longrightarrow> hm_get (t_processes t1) pid = hm_get (t_processes t) pid"
    "\<And>row. row \<in> set rows \<Longrightarrow> \<exists>e. hm_get (t_processes t1) (r_pid row) = Some e \<and>
       row_entry (hm_get (t_processes t) (r_pid row)) sight now row e"
    by auto
  have r: "fst (reconcile rows sight t) = retain_listed now t1"
    using f by (simp add: reconcile_def Let_def now_def)
  note get = retain_effect(2) [OF e(1), of now]
  have rows: "\<exists>e. hm_get (t_processes (retain_listed now t1)) (r_pid row) = Some e \<and>
      row_entry (hm_get (t_processes t) (r_pid row)) sight now row e" if "row \<in> set rows" for row
    using e(4) [OF that] get row_entry_fields by fastforce
  moreover have "pid \<in> hm_keys (t_processes (retain_listed now t1)) \<longleftrightarrow> pid \<in> r_pid ` set rows" for pid
  proof (cases "pid \<in> r_pid ` set rows")
    case True
    then show ?thesis using rows by (fastforce simp: hm_keys_get)
  next
    case False
    then show ?thesis using e(3) old get by (auto simp: hm_keys_get split: option.splits)
  qed
  ultimately show ?thesis
    using retain_effect(1) [OF e(1)] unfolding r by (auto simp: table_get_def)
qed

section \<open>What a reader of the diffs holds\<close>

interpretation passports: change_log passport pe_sequence_number pr_sequence_number "\<lambda>_. True"
  by unfold_locales (simp add: passport_def)

interpretation states: change_log pe_state pe_sequence_number ps_sequence_number
  "\<lambda>e. ps_sequence_number (pe_state e) = pe_sequence_number e"
  by unfold_locales simp

text \<open>The readers' passports and states, and the log since they last applied a diff.\<close>
definition synced ::
  "(u32 \<rightharpoonup> process) \<Rightarrow> (u32 \<rightharpoonup> process_state) \<Rightarrow> process_table \<Rightarrow> bool" where
  "synced ps ss t \<longleftrightarrow>
    in_sync passport pe_sequence_number pr_sequence_number ps (hm_get (t_processes t))
      (set (t_passports t)) (set (t_gone t)) \<and>
    in_sync pe_state pe_sequence_number ps_sequence_number ss (hm_get (t_processes t))
      (set (t_states t)) (set (t_gone t))"

lemma synced_new: "synced Map.empty Map.empty table_new"
  by (simp add: synced_def in_sync_def table_new_def minus_gone_def)

lemma synced_reconcile_row:
  assumes s: "synced ps ss t" and ok: "table_ok t" "t_reconciled t = now"
    and len: "Suc (length (t_processes t)) < 2 ^ 32"
  shows "synced ps ss (fst (reconcile_row sight now row (t, asked)))"
proof (cases "is_listed t row")
  case True
  then obtain old where old: "hm_get (t_processes t) (r_pid row) = Some old"
    "pe_sequence_number old = r_sequence_number row"
    by (auto simp: is_listed_def split: option.splits)
  let ?new = "old\<lparr>pe_listed := now\<rparr>"
  let ?f = "\<lambda>k e. if k = r_pid row then ?new else e"
  have get: "((hm_get (t_processes t))(r_pid row \<mapsto> ?new)) k = map_option (?f k) (hm_get (t_processes t) k)" for k
    using old by (cases "hm_get (t_processes t) k") auto
  have same: "passport ?new = passport old" "pe_state ?new = pe_state old"
    "pe_sequence_number ?new = pe_sequence_number old"
    by (simp_all add: passport_def)
  note p = s [unfolded synced_def, THEN conjunct1] and q = s [unfolded synced_def, THEN conjunct2]
  have kept: "pe_sequence_number (?f k e) = pe_sequence_number e \<and> passport (?f k e) = passport e \<and>
      pe_state (?f k e) = pe_state e" if "hm_get (t_processes t) k = Some e" for k e
    using that same old by auto
  have "in_sync passport pe_sequence_number pr_sequence_number ps
      ((hm_get (t_processes t))(r_pid row \<mapsto> ?new)) (set (t_passports t)) (set (t_gone t))"
    by (rule passports.revise [OF p subset_refl _ get]) (use p kept in \<open>auto simp: in_sync_def\<close>)
  moreover have "in_sync pe_state pe_sequence_number ps_sequence_number ss
      ((hm_get (t_processes t))(r_pid row \<mapsto> ?new)) (set (t_states t)) (set (t_gone t))"
    by (rule states.revise [OF q subset_refl _ get]) (use q kept in \<open>auto simp: in_sync_def\<close>)
  ultimately have "synced ps ss (t\<lparr>t_processes := hm_put (r_pid row) ?new (t_processes t)\<rparr>)"
    by (simp add: synced_def hm)
  then show ?thesis
    using old by (simp add: reconcile_row_def)
next
  case False
  then have j: "reconcile_row sight now row (t, asked) = join_row sight now row (t, asked)"
    by (auto simp: reconcile_row_def is_listed_def split: option.splits)
  obtain e images where e: "fst (join_row sight now row (t, asked)) =
       t\<lparr>t_processes := hm_put (r_pid row) e (t_processes t), t_images := images,
         t_gone := t_gone t @ (case hm_get (t_processes t) (r_pid row) of
           None \<Rightarrow> [] | Some old \<Rightarrow> [(r_pid row, pe_sequence_number old)]),
         t_passports := List.insert (r_pid row) (t_passports t),
         t_states := List.insert (r_pid row) (t_states t)\<rparr>"
    by (rule join_row_effect [OF ok len])
  have g: "set (t_gone t @ (case hm_get (t_processes t) (r_pid row) of
      None \<Rightarrow> [] | Some old \<Rightarrow> [(r_pid row, pe_sequence_number old)])) =
    set (t_gone t) \<union> (case hm_get (t_processes t) (r_pid row) of
      None \<Rightarrow> {} | Some old \<Rightarrow> {(r_pid row, pe_sequence_number old)})"
    by (simp split: option.splits)
  show ?thesis
    using s passports.join [OF s [unfolded synced_def, THEN conjunct1] g, of e]
      states.join [OF s [unfolded synced_def, THEN conjunct2] g, of e]
    unfolding j e synced_def by (simp add: hm)
qed

lemma synced_reconcile_rows:
  assumes "synced ps ss t" "table_ok t" "t_reconciled t = now"
    "length (t_processes t) + length rows < 2 ^ 32"
  shows "synced ps ss (fst (fold (reconcile_row sight now) rows (t, asked)))"
  using assms
proof (induction rows arbitrary: t asked)
  case Nil
  then show ?case by simp
next
  case (Cons row rows)
  have len: "Suc (length (t_processes t)) < 2 ^ 32" using Cons.prems by simp
  obtain t1 asked1 where s: "reconcile_row sight now row (t, asked) = (t1, asked1)" by force
  obtain e where "table_ok t1" "t_reconciled t1 = now" "length (t_processes t1) \<le> Suc (length (t_processes t))"
    using reconcile_row_effect [OF Cons.prems(2,3) len, of row sight asked] s by auto
  moreover have "synced ps ss t1"
    using synced_reconcile_row [OF Cons.prems(1-3) len, of sight row asked] s by simp
  ultimately show ?case using Cons.IH [of t1 asked1] Cons.prems(4) by (simp add: s)
qed

lemma synced_retain:
  assumes "synced ps ss t" "table_ok t"
  shows "synced ps ss (retain_listed now t)"
proof -
  let ?m = "t_processes t"
  let ?L = "{pid. \<exists>e. hm_get ?m pid = Some e \<and> pe_listed e \<noteq> now}"
  have ok: "hm_ok ?m" using assms(2) by (simp add: table_ok_def)
  have goes: "(pid, e) \<in> set (filter (\<lambda>(_, entry). pe_listed entry \<noteq> now) ?m) \<longleftrightarrow>
      hm_get ?m pid = Some e \<and> pe_listed e \<noteq> now" for pid e
    using hm_in_set [OF ok] by auto
  have keys: "hm_keys (filter (\<lambda>(_, entry). pe_listed entry \<noteq> now) ?m) = ?L"
    using goes by (force simp: image_iff)
  have get: "hm_get (t_processes (retain_listed now t)) k = (if k \<in> ?L then None else hm_get ?m k)" for k
    using retain_effect(2) [OF assms(2), of now k] by (auto split: option.splits)
  have gone: "set (t_gone (retain_listed now t)) = set (t_gone t) \<union>
      {(k, pe_sequence_number e) | k e. k \<in> ?L \<and> hm_get ?m k = Some e}"
    using goes by (force simp: retain_listed_def Let_def fold_leave image_iff)
  have ch: "set (t_passports (retain_listed now t)) = set (t_passports t) - ?L"
    "set (t_states (retain_listed now t)) = set (t_states t) - ?L"
    unfolding keys [symmetric] by (auto simp: retain_listed_def Let_def fold_leave)
  show ?thesis
    using assms(1) passports.leave [OF _ get ch(1) gone] states.leave [OF _ get ch(2) gone]
    unfolding synced_def by blast
qed

lemma synced_reconcile:
  assumes "synced ps ss t" "table_ok t" "rows_fit t rows"
  shows "synced ps ss (fst (reconcile rows sight t))"
proof -
  let ?now = "t_reconciled t + 1"
  let ?t0 = "t\<lparr>t_reconciled := ?now\<rparr>"
  obtain t1 asked where f: "fold (reconcile_row sight ?now) rows (?t0, []) = (t1, asked)" by force
  have ok0: "table_ok ?t0" using table_ok_tick [OF assms(2)] assms(3) by (auto simp: rows_fit_def)
  have len: "length (t_processes ?t0) + length rows < 2 ^ 32" "distinct (map r_pid rows)"
    using assms(3) by (auto simp: rows_fit_def)
  have "synced ps ss ?t0" using assms(1) by (simp add: synced_def)
  then have "synced ps ss t1"
    using synced_reconcile_rows [OF _ ok0 _ len(1), of ps ss ?now sight "[]"] f by simp
  moreover have "table_ok t1"
    using reconcile_rows_effect [OF ok0 _ len, of ?now t1 sight "[]"] f by simp
  ultimately show ?thesis
    using synced_retain f by (simp add: reconcile_def Let_def)
qed

section \<open>Judging and observing\<close>

lemma judge_entry_fields [simp]:
  "pe_image_path (judge_entry img e) = pe_image_path e"
  "pe_pid (judge_entry img e) = pe_pid e"
  "pe_sequence_number (judge_entry img e) = pe_sequence_number e"
  "pe_state (judge_entry img e) = pe_state e"
  "pe_listed (judge_entry img e) = pe_listed e"
  by (simp_all add: judge_entry_def)

lemma judge_entry_still: "\<not> judge_moved img e \<Longrightarrow> judge_entry img e = e"
  by (auto simp: judge_moved_def judge_entry_def judged_still)

lemma judge_passports_set:
  "set (fold (\<lambda>(_, e) ps. if judge_moved img e then List.insert (pe_pid e) ps else ps) m ps) =
    set ps \<union> {pe_pid e | k e. (k, e) \<in> set m \<and> judge_moved img e}"
proof (induction m arbitrary: ps)
  case (Cons a m)
  obtain k e where a: "a = (k, e)" by force
  show ?case by (auto simp: a Cons.IH)
qed simp

lemma judge_ok:
  assumes "table_ok t"
  shows "table_ok (judge img t)"
proof (cases "hm_get (t_images t) (im_path img)")
  case None
  then show ?thesis using assms by (simp add: judge_def)
next
  case (Some r)
  let ?t = "judge img t"
  have c: "images_count (t_images t) (refs (t_processes t))"
    using assms by (simp add: table_ok_def images_match_def)
  have path: "im_path img \<noteq> ''''" using c Some by (auto simp: images_count_def)
  have refs: "refs (t_processes ?t) = refs (t_processes t)"
    by (rule ext) (simp add: judge_def Some refs_def hm_count_map)
  have "images_count (t_images ?t) (refs (t_processes ?t))"
    using c images_count_get [OF c path Some] path unfolding refs
    by (auto simp: judge_def Some images_count_def hm)
  moreover have "entry_says (judge_entry img e) (verdict_in (t_images ?t) (pe_image_path e))"
    if "hm_get (t_processes t) pid = Some e" for pid e
    using that assms
    by (auto simp: judge_def Some judge_entry_def verdict_in_def hm table_ok_def images_match_def)
  ultimately have "images_match (t_images ?t) (t_processes ?t)"
    by (auto simp: images_match_def judge_def Some hm)
  then show ?thesis
    using assms by (fastforce simp: table_ok_def judge_def Some hm entry_ok_def)
qed

lemma synced_judge:
  assumes "synced ps ss t" "table_ok t"
  shows "synced ps ss (judge img t)"
proof (cases "hm_get (t_images t) (im_path img)")
  case None
  then show ?thesis using assms by (simp add: judge_def)
next
  case (Some r)
  let ?m = "t_processes t"
  note p = assms(1) [unfolded synced_def, THEN conjunct1] and q = assms(1) [unfolded synced_def, THEN conjunct2]
  have ok: "hm_ok ?m" and pids: "\<And>pid e. hm_get ?m pid = Some e \<Longrightarrow> pe_pid e = pid"
    using assms(2) by (auto simp: table_ok_def entry_ok_def)
  have get: "hm_get (t_processes (judge img t)) k = map_option (judge_entry img) (hm_get ?m k)" for k
    by (simp add: judge_def Some hm)
  have ch: "set (t_passports (judge img t)) =
      set (t_passports t) \<union> {pe_pid e | k e. (k, e) \<in> set ?m \<and> judge_moved img e}"
    by (simp add: judge_def Some judge_passports_set)
  have moved: "k \<in> set (t_passports (judge img t))" if "hm_get ?m k = Some e" "judge_moved img e" for k e
    using that pids [OF that(1)] hm_in_set [OF ok] unfolding ch by blast
  have "in_sync passport pe_sequence_number pr_sequence_number ps (hm_get (t_processes (judge img t)))
      (set (t_passports (judge img t))) (set (t_gone t))"
  proof (rule passports.revise [OF p _ _ get])
    show "set (t_passports t) \<subseteq> set (t_passports (judge img t))" unfolding ch by blast
    show "set (t_passports (judge img t)) \<subseteq> dom (hm_get ?m)"
      using p pids hm_in_set [OF ok] unfolding ch in_sync_def by fastforce
    show "pe_sequence_number (judge_entry img e) = pe_sequence_number e \<and>
        (k \<in> set (t_passports (judge img t)) \<or> passport (judge_entry img e) = passport e)"
      if "hm_get ?m k = Some e" for k e
      using moved [OF that] judge_entry_still [of img e] by (cases "judge_moved img e") auto
  qed
  moreover have "in_sync pe_state pe_sequence_number ps_sequence_number ss (hm_get (t_processes (judge img t)))
      (set (t_states t)) (set (t_gone t))"
    by (rule states.revise [OF q subset_refl _ get]) (use q in \<open>auto simp: in_sync_def\<close>)
  ultimately show ?thesis by (simp add: synced_def judge_def Some)
qed

lemma observe_ok:
  assumes "table_ok t"
  shows "table_ok (observe st t)"
proof (cases "hm_get (t_processes t) (ps_pid st)")
  case None
  then show ?thesis using assms by (simp add: observe_def)
next
  case (Some e)
  then show ?thesis
    using assms images_match_rewrite [of "t_images t" "t_processes t" "ps_pid st" e "e\<lparr>pe_state := st\<rparr>"]
    by (auto simp: observe_def table_ok_def hm entry_ok_def)
qed

lemma synced_observe:
  assumes "synced ps ss t" "table_ok t"
  shows "synced ps ss (observe st t)"
proof (cases "\<exists>e. hm_get (t_processes t) (ps_pid st) = Some e \<and>
    pe_sequence_number e = ps_sequence_number st \<and> pe_state e \<noteq> st")
  case False
  then show ?thesis using assms by (auto simp: observe_def split: option.splits)
next
  case True
  then obtain old where old: "hm_get (t_processes t) (ps_pid st) = Some old"
    "pe_sequence_number old = ps_sequence_number st" "pe_state old \<noteq> st" by blast
  let ?new = "old\<lparr>pe_state := st\<rparr>"
  let ?f = "\<lambda>k e. if k = ps_pid st then ?new else e"
  note p = assms(1) [unfolded synced_def, THEN conjunct1] and q = assms(1) [unfolded synced_def, THEN conjunct2]
  have get: "((hm_get (t_processes t))(ps_pid st \<mapsto> ?new)) k = map_option (?f k) (hm_get (t_processes t) k)" for k
    using old by (cases "hm_get (t_processes t) k") auto
  have kept: "pe_sequence_number (?f k e) = pe_sequence_number e \<and> passport (?f k e) = passport e \<and>
      (k \<in> insert (ps_pid st) S \<or> pe_state (?f k e) = pe_state e)"
    if "hm_get (t_processes t) k = Some e" for k e S
    using that old by (auto simp: passport_def)
  have "in_sync passport pe_sequence_number pr_sequence_number ps
      ((hm_get (t_processes t))(ps_pid st \<mapsto> ?new)) (set (t_passports t)) (set (t_gone t))"
    by (rule passports.revise [OF p subset_refl _ get]) (use p kept in \<open>auto simp: in_sync_def\<close>)
  moreover have "in_sync pe_state pe_sequence_number ps_sequence_number ss
      ((hm_get (t_processes t))(ps_pid st \<mapsto> ?new)) (insert (ps_pid st) (set (t_states t))) (set (t_gone t))"
    by (rule states.revise [OF q _ _ get]) (use q kept old in \<open>auto simp: in_sync_def\<close>)
  ultimately show ?thesis using old by (simp add: observe_def synced_def hm)
qed

section \<open>Taking and applying a diff\<close>

text \<open>What a reader's maps become when it applies a diff.\<close>
definition apply_passports :: "(u32 \<rightharpoonup> process) \<Rightarrow> diff \<Rightarrow> (u32 \<rightharpoonup> process)" where
  "apply_passports ps d =
    minus_gone pr_sequence_number ps (set (df_gone d)) ++ map_of (map (\<lambda>p. (pr_pid p, p)) (df_passports d))"

definition apply_states :: "(u32 \<rightharpoonup> process_state) \<Rightarrow> diff \<Rightarrow> (u32 \<rightharpoonup> process_state)" where
  "apply_states ss d =
    minus_gone ps_sequence_number ss (set (df_gone d)) ++ map_of (map (\<lambda>s. (ps_pid s, s)) (df_states d))"

lemma map_of_views:
  assumes "\<And>k e. get k = Some e \<Longrightarrow> key (view e) = k"
  shows "map_of (map (\<lambda>v. (key v, v)) (map view (List.map_filter get ks))) k =
    (if k \<in> set ks then map_option view (get k) else None)"
proof (induction ks)
  case Nil
  then show ?case by (simp add: List.map_filter_simps)
next
  case (Cons j ks)
  then show ?case using assms by (auto simp: List.map_filter_simps split: option.splits)
qed

lemma take_drains:
  assumes "synced ps ss t" "table_ok t" "table_take diff_default t = (d, t')"
  shows "apply_passports ps d = map_option passport \<circ> table_get t"
    "apply_states ss d = map_option pe_state \<circ> table_get t"
    "synced (apply_passports ps d) (apply_states ss d) t'" "table_ok t'"
proof -
  note p = assms(1) [unfolded synced_def, THEN conjunct1] and q = assms(1) [unfolded synced_def, THEN conjunct2]
  have d: "df_gone d = t_gone t" "df_passports d = map passport (List.map_filter (hm_get (t_processes t)) (t_passports t))"
    "df_states d = map pe_state (List.map_filter (hm_get (t_processes t)) (t_states t))"
    "t' = t\<lparr>t_gone := [], t_passports := [], t_states := []\<rparr>"
    using assms(3) by (auto simp: table_take_def diff_default_def)
  have e: "pe_pid e = k \<and> ps_pid (pe_state e) = k \<and> ps_sequence_number (pe_state e) = pe_sequence_number e"
    if "hm_get (t_processes t) k = Some e" for k e
    using assms(2) that by (simp add: table_ok_def entry_ok_def)
  have fp: "map_of (map (\<lambda>p. (pr_pid p, p)) (df_passports d)) k =
      (if k \<in> set (t_passports t) then map_option passport (hm_get (t_processes t) k) else None)" for k
    unfolding d by (rule map_of_views) (use e in \<open>simp add: passport_def\<close>)
  have fs: "map_of (map (\<lambda>s. (ps_pid s, s)) (df_states d)) k =
      (if k \<in> set (t_states t) then map_option pe_state (hm_get (t_processes t) k) else None)" for k
    unfolding d by (rule map_of_views) (use e in simp)
  note dp = passports.drain [OF p TrueI fp] and ds = states.drain [OF q _ fs]
  have get: "table_get t = hm_get (t_processes t)" by (rule ext) (simp add: table_get_def)
  show a: "apply_passports ps d = map_option passport \<circ> table_get t"
    using dp(1) by (simp add: apply_passports_def d(1) get)
  show b: "apply_states ss d = map_option pe_state \<circ> table_get t"
    using ds(1) e by (simp add: apply_states_def d(1) get)
  show "synced (apply_passports ps d) (apply_states ss d) t'"
    unfolding a b using dp(2) ds(2) e by (simp add: synced_def d(4) get)
  show "table_ok t'" using assms(2) by (simp add: d(4) table_ok_def)
qed

text \<open>
  Every table the core can come to, with what a reader who applied every diff
  so far holds.
\<close>
inductive table_reach :: "process_table \<Rightarrow> (u32 \<rightharpoonup> process) \<Rightarrow> (u32 \<rightharpoonup> process_state) \<Rightarrow> bool" where
  reach_new: "table_reach table_new Map.empty Map.empty"
| reach_reconcile: "table_reach t ps ss \<Longrightarrow> rows_fit t rows \<Longrightarrow> table_reach (fst (reconcile rows sight t)) ps ss"
| reach_judge: "table_reach t ps ss \<Longrightarrow> table_reach (judge img t) ps ss"
| reach_observe: "table_reach t ps ss \<Longrightarrow> table_reach (observe st t) ps ss"
| reach_take: "table_reach t ps ss \<Longrightarrow> table_take diff_default t = (d, t') \<Longrightarrow>
    table_reach t' (apply_passports ps d) (apply_states ss d)"

lemma table_reach_ok: "table_reach t ps ss \<Longrightarrow> table_ok t \<and> synced ps ss t"
proof (induction rule: table_reach.induct)
  case reach_new
  show ?case by (simp add: synced_new)
next
  case (reach_reconcile t ps ss rows sight)
  then have t: "table_ok t" "synced ps ss t" "rows_fit t rows" by simp_all
  show ?case
    using reconcile_effect [OF t(1,3), of sight] synced_reconcile [OF t(2,1,3), of sight] by simp
next
  case (reach_take t ps ss d t')
  then have t: "table_ok t" "synced ps ss t" by simp_all
  show ?case using take_drains(3,4) [OF t(2,1) reach_take(2)] by simp
next
  case (reach_judge t ps ss img)
  then show ?case using judge_ok synced_judge by blast
next
  case (reach_observe t ps ss st)
  then show ?case using observe_ok synced_observe by blast
qed

section \<open>Properties\<close>

text \<open>
  C1 Reconciling makes the table exactly the snapshot's processes, whatever it
  held: the keys are the rows' pids; a process listed before under the same
  sequence number keeps its entry; any other row's entry is a new one, read by
  \<^verbatim>\<open>sight\<close>, with its image's verdict if the image was judged. The table's
  invariant holds afterwards.
\<close>
theorem reconcile_exact:
  assumes "table_ok t" "rows_fit t rows"
  shows "table_ok (fst (reconcile rows sight t)) \<and>
    hm_keys (t_processes (fst (reconcile rows sight t))) = r_pid ` set rows \<and>
    (\<forall>row \<in> set rows. \<exists>e. table_get (fst (reconcile rows sight t)) (r_pid row) = Some e \<and>
      pe_sequence_number e = r_sequence_number row \<and>
      (if is_listed t row
       then \<exists>old. table_get t (r_pid row) = Some old \<and> e = old\<lparr>pe_listed := t_reconciled t + 1\<rparr>
       else new_entry sight (t_reconciled t + 1) row e))"
proof -
  have "\<exists>e. table_get (fst (reconcile rows sight t)) (r_pid row) = Some e \<and>
      pe_sequence_number e = r_sequence_number row \<and>
      (if is_listed t row
       then \<exists>old. table_get t (r_pid row) = Some old \<and> e = old\<lparr>pe_listed := t_reconciled t + 1\<rparr>
       else new_entry sight (t_reconciled t + 1) row e)" if row: "row \<in> set rows" for row
  proof -
    obtain e where e: "table_get (fst (reconcile rows sight t)) (r_pid row) = Some e"
      "row_entry (table_get t (r_pid row)) sight (t_reconciled t + 1) row e"
      using reconcile_effect [OF assms, of sight] row by blast
    from e(2) row_entry_fields [OF e(2)]
    have "pe_sequence_number e = r_sequence_number row \<and>
      (if is_listed t row
       then \<exists>old. table_get t (r_pid row) = Some old \<and> e = old\<lparr>pe_listed := t_reconciled t + 1\<rparr>
       else new_entry sight (t_reconciled t + 1) row e)"
      by (auto simp: row_entry_def is_listed_def table_get_def split: option.splits if_splits)
    then show ?thesis using e(1) by blast
  qed
  then show ?thesis using reconcile_effect [OF assms, of sight] by blast
qed

definition sample_sighting :: "row \<Rightarrow> sighted" where
  "sample_sighting row =
    \<lparr>sg_image_name = ''a.exe'', sg_is_kernel_process = False,
     sg_read = \<lparr>rd_command_line = [], rd_image_path = ''C'', rd_package_full_name = '''',
       rd_package_relative_app_id = '''', rd_console_host_pid = 0,
       rd_passport = \<lparr>pp_user = '''', pp_architecture = X64, pp_elevated = None,
         pp_uac_virtualization = UacUnknown, pp_isolation = IsoNone, pp_dpi_awareness = DpiUnaware,
         pp_mitigations = None\<rparr>\<rparr>\<rparr>"

theorem reconcile_exact_witness:
  "hm_keys (t_processes (fst (reconcile [row_default\<lparr>r_pid := 4\<rparr>, row_default\<lparr>r_pid := 8\<rparr>] sample_sighting table_new))) =
    {4, 8}"
proof -
  let ?rows = "[row_default\<lparr>r_pid := 4\<rparr>, row_default\<lparr>r_pid := 8\<rparr>]"
  have "rows_fit table_new ?rows" by (simp add: rows_fit_def table_new_def)
  with reconcile_exact [of table_new ?rows sample_sighting] show ?thesis by simp
qed

text \<open>
  C3 The table of images always counts exactly the listed processes that run
  each image (so no count wraps below zero and no image is kept or dropped
  wrongly), and every process shows exactly the verdict the table holds on its
  image: two processes of one image never tell different verdicts.
\<close>
theorem images_follow_processes:
  assumes "table_reach t ps ss"
  shows "(\<forall>p. p \<noteq> '''' \<longrightarrow>
      (case hm_get (t_images t) p of
         None \<Rightarrow> refs (t_processes t) p = 0
       | Some r \<Rightarrow> 0 < refs (t_processes t) p \<and> unat (run_processes r) = refs (t_processes t) p)) \<and>
    (\<forall>pid e. table_get t pid = Some e \<longrightarrow> entry_says e (verdict_in (t_images t) (pe_image_path e)))"
proof -
  have m: "images_match (t_images t) (t_processes t)"
    using table_reach_ok [OF assms] by (simp add: table_ok_def)
  then have c: "images_count (t_images t) (refs (t_processes t))" by (simp add: images_match_def)
  have "case hm_get (t_images t) p of
         None \<Rightarrow> refs (t_processes t) p = 0
       | Some r \<Rightarrow> 0 < refs (t_processes t) p \<and> unat (run_processes r) = refs (t_processes t) p"
    if "p \<noteq> ''''" for p
    using images_count_get [OF c that] images_count_none [OF c that] by (auto split: option.splits)
  then show ?thesis using m by (simp add: images_match_def table_get_def)
qed

lemma two_of_one_image:
  "rows_fit table_new [row_default\<lparr>r_pid := 4\<rparr>, row_default\<lparr>r_pid := 8\<rparr>]"
  "run_processes (the (hm_get (t_images (fst (reconcile
     [row_default\<lparr>r_pid := 4\<rparr>, row_default\<lparr>r_pid := 8\<rparr>] sample_sighting table_new))) ''C'')) = 2"
  "hm_get (t_images (fst (reconcile
     [row_default\<lparr>r_pid := 4\<rparr>, row_default\<lparr>r_pid := 8\<rparr>] sample_sighting table_new))) ''C'' \<noteq> None"
  by (simp_all add: rows_fit_def table_new_def reconcile_def reconcile_row_def join_row_def
      acquire_def sample_sighting_def entry_sighted_def retain_listed_def Let_def)

theorem images_follow_processes_witness:
  "\<exists>t ps ss. table_reach t ps ss \<and> refs (t_processes t) ''C'' = 2"
proof -
  let ?rows = "[row_default\<lparr>r_pid := 4\<rparr>, row_default\<lparr>r_pid := 8\<rparr>]"
  define t where "t = fst (reconcile ?rows sample_sighting table_new)"
  have r: "table_reach t Map.empty Map.empty"
    unfolding t_def using reach_reconcile [OF reach_new two_of_one_image(1)] .
  obtain run where run: "hm_get (t_images t) ''C'' = Some run" "run_processes run = 2"
    using two_of_one_image(2) two_of_one_image(3) unfolding t_def by auto
  have "unat (run_processes run) = refs (t_processes t) ''C''"
    using images_follow_processes [OF r, THEN conjunct1, rule_format, of "''C''"] run by simp
  then show ?thesis using r run(2) by auto
qed

text \<open>
  C2 A reader that applies every diff holds exactly the table: whatever was
  reconciled, judged and observed since the last diff, the next one turns the
  reader's passports and states into those of every listed process, and of no
  other.
\<close>
theorem diffs_rebuild_the_table:
  assumes "table_reach t ps ss" "table_take diff_default t = (d, t')"
  shows "apply_passports ps d = map_option passport \<circ> table_get t \<and>
    apply_states ss d = map_option pe_state \<circ> table_get t \<and>
    table_get t' = table_get t"
  using take_drains [of ps ss t d t'] table_reach_ok [OF assms(1)] assms(2)
  by (auto simp: table_take_def table_get_def)

theorem diffs_rebuild_the_table_witness:
  "\<exists>t ps ss d t'. table_reach t ps ss \<and> table_take diff_default t = (d, t') \<and>
    dom (apply_passports ps d) = {4, 8}"
proof -
  let ?rows = "[row_default\<lparr>r_pid := 4\<rparr>, row_default\<lparr>r_pid := 8\<rparr>]"
  let ?t = "fst (reconcile ?rows sample_sighting table_new)"
  obtain d t' where d: "table_take diff_default ?t = (d, t')" by force
  have r: "table_reach ?t Map.empty Map.empty"
    using reach_reconcile [OF reach_new two_of_one_image(1)] .
  have "hm_keys (t_processes ?t) = {4, 8}"
    using reconcile_effect [OF table_ok_new two_of_one_image(1), of sample_sighting] by simp
  moreover have "dom (table_get ?t) = hm_keys (t_processes ?t)"
    by (simp add: table_get_def dom_map_of_conv_image_fst [symmetric] dom_def)
  ultimately have "dom (table_get ?t) = {4, 8}" by simp
  then have "dom (apply_passports Map.empty d) = {4, 8}"
    using diffs_rebuild_the_table [OF r d] by (auto simp: dom_def)
  then show ?thesis using r d by blast
qed

text \<open>
  A verdict reaches every process that runs the image and no other; a
  verdict on an image nobody runs changes nothing; and either way the image is
  no longer among those that wait for a verdict.
\<close>
theorem judge_reaches_all:
  assumes "table_reach t ps ss" "im_path img \<noteq> ''''"
  shows "(\<forall>pid. table_get (judge img t) pid =
      (case table_get t pid of
         None \<Rightarrow> None
       | Some e \<Rightarrow> Some (if pe_image_path e = im_path img then fst (judged e (im_verdict img)) else e))) \<and>
    (\<forall>pid e. table_get (judge img t) pid = Some e \<longrightarrow> pe_image_path e = im_path img \<longrightarrow>
      entry_says e (Some (im_verdict img))) \<and>
    ((\<forall>pid e. table_get t pid = Some e \<longrightarrow> pe_image_path e \<noteq> im_path img) \<longrightarrow> judge img t = t) \<and>
    im_path img \<notin> set (table_pending (judge img t))"
proof -
  have ok: "table_ok t" and c: "images_count (t_images t) (refs (t_processes t))"
    using table_reach_ok [OF assms(1)] by (auto simp: table_ok_def images_match_def)
  have im: "hm_ok (t_images t)" and pm: "hm_ok (t_processes t)"
    using c ok by (auto simp: images_count_def table_ok_def)
  show ?thesis
  proof (cases "hm_get (t_images t) (im_path img)")
    case None
    have no: "pe_image_path e \<noteq> im_path img" if "table_get t pid = Some e" for pid e
      using images_count_none [OF c assms(2) None] refs_pos [of "t_processes t" pid e] that
      by (auto simp: table_get_def)
    have j: "judge img t = t" using None by (simp add: judge_def)
    have "im_path img \<notin> set (table_pending t)"
      using None hm_keys_get [of "im_path img" "t_images t"] by (force simp: table_pending_def)
    then show ?thesis using no unfolding j by (auto split: option.splits)
  next
    case (Some r)
    then have "0 < refs (t_processes t) (im_path img)"
      using images_count_get [OF c assms(2)] by simp
    then obtain pid e where "(pid, e) \<in> set (t_processes t)" "pe_image_path e = im_path img"
      unfolding refs_def hm_count_def by (auto simp: filter_empty_conv)
    then have runs: "\<exists>pid e. table_get t pid = Some e \<and> pe_image_path e = im_path img"
      using hm_in_set [OF pm] by (auto simp: table_get_def)
    have get: "table_get (judge img t) pid = map_option (judge_entry img) (table_get t pid)" for pid
      by (simp add: table_get_def judge_def Some hm)
    have "hm_get (t_images (judge img t)) (im_path img) = Some (r\<lparr>run_verdict := Some (im_verdict img)\<rparr>)"
      by (simp add: judge_def Some hm)
    moreover have "hm_ok (t_images (judge img t))" using im by (simp add: judge_def Some)
    ultimately have "im_path img \<notin> set (table_pending (judge img t))"
      by (auto simp: table_pending_def hm_in_set)
    moreover have "entry_says x (Some (im_verdict img))"
      if x: "table_get (judge img t) pid = Some x" "pe_image_path x = im_path img" for pid x
    proof -
      obtain e where e: "x = judge_entry img e" using x(1) get by auto
      then have "pe_image_path e = im_path img" using x(2) by simp
      with e have "x = fst (judged e (im_verdict img))" by (simp add: judge_entry_def)
      then show ?thesis by simp
    qed
    ultimately show ?thesis
      using runs by (auto simp: get judge_entry_def split: option.splits)
  qed
qed

theorem judge_reaches_all_witness:
  "\<exists>t ps ss e. table_reach t ps ss \<and>
    table_get (judge \<lparr>im_path = ''C'', im_verdict = image_verdict_default\<lparr>iv_signature := SigMicrosoft\<rparr>\<rparr> t) 8 = Some e \<and>
    entry_says e (Some (image_verdict_default\<lparr>iv_signature := SigMicrosoft\<rparr>))"
proof -
  let ?rows = "[row_default\<lparr>r_pid := 4\<rparr>, row_default\<lparr>r_pid := 8\<rparr>]"
  let ?img = "\<lparr>im_path = ''C'', im_verdict = image_verdict_default\<lparr>iv_signature := SigMicrosoft\<rparr>\<rparr>"
  define t where "t = fst (reconcile ?rows sample_sighting table_new)"
  have r: "table_reach t Map.empty Map.empty"
    unfolding t_def using reach_reconcile [OF reach_new two_of_one_image(1)] .
  obtain old where old: "table_get t 8 = Some old" "pe_image_path old = ''C''"
    by (simp add: t_def table_get_def table_new_def reconcile_def reconcile_row_def join_row_def
      acquire_def sample_sighting_def entry_sighted_def retain_listed_def Let_def)
  have j: "table_get (judge ?img t) 8 = Some (fst (judged old (im_verdict ?img)))"
    using judge_reaches_all [OF r, of ?img, THEN conjunct1] old by simp
  have "entry_says (fst (judged old (im_verdict ?img))) (Some (im_verdict ?img))" by (rule judged_says)
  then have "entry_says (fst (judged old (im_verdict ?img))) (Some (image_verdict_default\<lparr>iv_signature := SigMicrosoft\<rparr>))"
    by simp
  with r j show ?thesis by blast
qed

end
