(* ===== verification/Traffic.thy ===== *)
theory Traffic
  imports Process_Table
begin

text \<open>
  Traffic from the kernel's events to the core's totals:
  \<^verbatim>\<open>crates/core/src/providers/network\<close> and \<^verbatim>\<open>providers/disk\<close> decode an event and add
  it to a batch, \<^verbatim>\<open>crates/core/src/state/network.rs\<close> charges a batch to the
  listed processes, and \<^verbatim>\<open>crates/core/src/state/mod.rs\<close> keeps the machine's
  totals beside the process table. Sums are modulo \<^verbatim>\<open>2 ^ 64\<close>, as the counters are.
\<close>

section \<open>Decoding network events\<close>

definition TCPIP_TASK_GUID :: "128 word" where
  "TCPIP_TASK_GUID = 0x9a280ac0c8e011d184e200c04fb998a2"

definition UDPIP_TASK_GUID :: "128 word" where
  "UDPIP_TASK_GUID = 0xbf3a50c5a9c94988a0052df0b7c80f80"

text \<open>Little-endian fields read one after another, as the derived readers do.\<close>
fun read_u16 :: "u8 list \<Rightarrow> (u16 \<times> u8 list) option" where
  "read_u16 (a # b # rest) = Some (ucast a + 0x100 * ucast b, rest)"
| "read_u16 _ = None"

fun read_u32 :: "u8 list \<Rightarrow> (u32 \<times> u8 list) option" where
  "read_u32 (a # b # c # d # rest) =
    Some (ucast a + 0x100 * ucast b + 0x10000 * ucast c + 0x1000000 * ucast d, rest)"
| "read_u32 _ = None"

definition read_u64 :: "u8 list \<Rightarrow> (u64 \<times> u8 list) option" where
  "read_u64 bytes =
    (case read_u32 bytes of
       None \<Rightarrow> None
     | Some (low, rest) \<Rightarrow>
         (case read_u32 rest of
            None \<Rightarrow> None
          | Some (high, rest) \<Rightarrow> Some (ucast low + 0x100000000 * ucast high, rest)))"

definition read_bytes :: "nat \<Rightarrow> u8 list \<Rightarrow> (u8 list \<times> u8 list) option" where
  "read_bytes n bytes = (if n \<le> length bytes then Some (take n bytes, drop n bytes) else None)"

record ip_flow =
  fl_pid :: u32
  fl_size :: u32
  fl_dst_addr :: "u8 list"
  fl_src_addr :: "u8 list"
  fl_dst_port_be :: u16
  fl_src_port_be :: u16

text \<open>\<^verbatim>\<open>Ipv4Flow\<close> with addresses of 4 bytes, \<^verbatim>\<open>Ipv6Flow\<close> with addresses of 16.\<close>
definition read_flow :: "nat \<Rightarrow> u8 list \<Rightarrow> ip_flow option" where
  "read_flow width bytes =
    (case read_u32 bytes of None \<Rightarrow> None | Some (pid, bytes) \<Rightarrow>
    (case read_u32 bytes of None \<Rightarrow> None | Some (bsize, bytes) \<Rightarrow>
    (case read_bytes width bytes of None \<Rightarrow> None | Some (dst, bytes) \<Rightarrow>
    (case read_bytes width bytes of None \<Rightarrow> None | Some (src, bytes) \<Rightarrow>
    (case read_u16 bytes of None \<Rightarrow> None | Some (dport, bytes) \<Rightarrow>
    (case read_u16 bytes of None \<Rightarrow> None | Some (sport, bytes) \<Rightarrow>
      Some \<lparr>fl_pid = pid, fl_size = bsize, fl_dst_addr = dst, fl_src_addr = src,
        fl_dst_port_be = dport, fl_src_port_be = sport\<rparr>))))))"

text \<open>\<^verbatim>\<open>Ipv4Addr::is_loopback\<close>\<close>
definition v4_loopback :: "u8 list \<Rightarrow> bool" where
  "v4_loopback addr = (case addr of a # _ \<Rightarrow> a = 127 | [] \<Rightarrow> False)"

text \<open>\<^verbatim>\<open>Ipv6Addr::to_canonical().is_loopback()\<close>: v4-mapped addresses as the v4 they map.\<close>
definition v6_loopback :: "u8 list \<Rightarrow> bool" where
  "v6_loopback addr =
    (if take 12 addr = replicate 10 0 @ [0xff, 0xff] then v4_loopback (drop 12 addr)
     else addr = replicate 15 0 @ [1])"

definition network_kind :: "bool \<Rightarrow> u8 \<Rightarrow> (network_event_type \<times> bool) option" where
  "network_kind is_tcp opcode =
    (if is_tcp then
       (if opcode = 10 then Some (NetSend, False)
        else if opcode = 11 then Some (NetRecv, False)
        else if opcode = 12 then Some (NetConnect, False)
        else if opcode = 15 then Some (NetAccept, False)
        else if opcode = 26 then Some (NetSend, True)
        else if opcode = 27 then Some (NetRecv, True)
        else if opcode = 28 then Some (NetConnect, True)
        else if opcode = 31 then Some (NetAccept, True)
        else None)
     else
       (if opcode = 10 then Some (NetSend, False)
        else if opcode = 11 then Some (NetRecv, False)
        else if opcode = 26 then Some (NetSend, True)
        else if opcode = 27 then Some (NetRecv, True)
        else None))"

definition decode_network :: "128 word \<Rightarrow> u8 \<Rightarrow> u8 list \<Rightarrow> network_event option" where
  "decode_network provider opcode bytes =
    (let is_tcp = provider = TCPIP_TASK_GUID
     in case network_kind is_tcp opcode of
          None \<Rightarrow> None
        | Some (event_type, is_v6) \<Rightarrow>
            (case read_flow (if is_v6 then 16 else 4) bytes of
               None \<Rightarrow> None
             | Some f \<Rightarrow>
                 (let loopback = (if is_v6 then v6_loopback (fl_dst_addr f) \<or> v6_loopback (fl_src_addr f)
                                  else v4_loopback (fl_dst_addr f) \<or> v4_loopback (fl_src_addr f))
                  in Some \<lparr>ne_pid = fl_pid f, ne_event_type = event_type, ne_size = fl_size f,
                       ne_loopback = loopback\<rparr>)))"

section \<open>Decoding disk events\<close>

definition OPCODE_DISK_READ :: u8 where
  "OPCODE_DISK_READ = 10"

definition OPCODE_DISK_WRITE :: u8 where
  "OPCODE_DISK_WRITE = 11"

text \<open>The transfer size and issuing thread of \<^verbatim>\<open>DiskIoTypeGroup1\<close>; None if it is cut short.\<close>
definition read_disk_io :: "u8 list \<Rightarrow> (u32 \<times> u32) option" where
  "read_disk_io bytes =
    (case read_bytes 8 bytes of None \<Rightarrow> None | Some (_, bytes) \<Rightarrow>
    (case read_u32 bytes of None \<Rightarrow> None | Some (transfer, bytes) \<Rightarrow>
    (case read_bytes 36 bytes of None \<Rightarrow> None | Some (_, bytes) \<Rightarrow>
    (case read_u32 bytes of None \<Rightarrow> None | Some (thread, bytes) \<Rightarrow> Some (transfer, thread)))))"

definition decode_disk :: "u8 \<Rightarrow> u8 list \<Rightarrow> (u32 \<times> disk_event) option" where
  "decode_disk opcode bytes =
    (let event_type =
       (if opcode = OPCODE_DISK_READ then Some DiskRead
        else if opcode = OPCODE_DISK_WRITE then Some DiskWrite
        else None)
     in case event_type of
          None \<Rightarrow> None
        | Some event_type \<Rightarrow>
            (case read_disk_io bytes of
               None \<Rightarrow> None
             | Some (transfer, thread) \<Rightarrow>
                 Some (thread, \<lparr>de_event_type = event_type, de_transfer_size = ucast transfer\<rparr>)))"

section \<open>Batches\<close>

text \<open>\<^verbatim>\<open>entry(key).or_default().add(e)\<close>\<close>
definition net_batch_add :: "network_event \<Rightarrow> net_deltas \<Rightarrow> net_deltas" where
  "net_batch_add e deltas =
    hm_put (ne_pid e)
      (net_delta_add (case hm_get deltas (ne_pid e) of Some d \<Rightarrow> d | None \<Rightarrow> net_delta_default) e) deltas"

definition net_batch_event :: "128 word \<times> u8 \<times> u8 list \<Rightarrow> net_deltas \<Rightarrow> net_deltas" where
  "net_batch_event = (\<lambda>(provider, opcode, bytes) deltas.
    case decode_network provider opcode bytes of None \<Rightarrow> deltas | Some e \<Rightarrow> net_batch_add e deltas)"

definition net_batch_take :: "net_deltas \<Rightarrow> state_change option \<times> net_deltas" where
  "net_batch_take deltas = (if deltas = [] then (None, deltas) else (Some (Network deltas), []))"

definition disk_batch_add :: "u32 \<Rightarrow> disk_event \<Rightarrow> disk_deltas \<Rightarrow> disk_deltas" where
  "disk_batch_add thread e deltas =
    hm_put thread
      (disk_delta_add (case hm_get deltas thread of Some d \<Rightarrow> d | None \<Rightarrow> disk_delta_default) e) deltas"

definition disk_batch_event :: "u8 \<times> u8 list \<Rightarrow> disk_deltas \<Rightarrow> disk_deltas" where
  "disk_batch_event = (\<lambda>(opcode, bytes) deltas.
    case decode_disk opcode bytes of None \<Rightarrow> deltas | Some (thread, e) \<Rightarrow> disk_batch_add thread e deltas)"

definition disk_batch_take :: "disk_deltas \<Rightarrow> state_change option \<times> disk_deltas" where
  "disk_batch_take deltas = (if deltas = [] then (None, deltas) else (Some (Disk deltas), []))"

section \<open>Counters of the listed processes\<close>

record network_stats =
  nst_sent_bytes :: u64
  nst_recv_bytes :: u64

definition network_stats_default :: network_stats where
  "network_stats_default = \<lparr>nst_sent_bytes = 0, nst_recv_bytes = 0\<rparr>"

record counted =
  ct_sequence_number :: u64
  ct_stats :: network_stats

type_synonym network_counters = "(u32, counted) hashmap"

definition charge_one :: "process_table \<Rightarrow> u32 \<times> net_delta \<Rightarrow> network_counters \<Rightarrow> network_counters" where
  "charge_one table = (\<lambda>(pid, d) counters.
    case table_get table pid of
      None \<Rightarrow> counters
    | Some entry \<Rightarrow>
        (let fresh = \<lparr>ct_sequence_number = pe_sequence_number entry, ct_stats = network_stats_default\<rparr>;
             counted = (case hm_get counters pid of Some c \<Rightarrow> c | None \<Rightarrow> fresh);
             counted = (if ct_sequence_number counted \<noteq> pe_sequence_number entry then fresh else counted);
             stats = ct_stats counted
         in hm_put pid
              (counted\<lparr>ct_stats :=
                 \<lparr>nst_sent_bytes = nst_sent_bytes stats + nd_tx_bytes d,
                  nst_recv_bytes = nst_recv_bytes stats + nd_rx_bytes d\<rparr>\<rparr>) counters))"

definition charge :: "net_deltas \<Rightarrow> process_table \<Rightarrow> network_counters \<Rightarrow> network_counters" where
  "charge deltas table counters = fold (charge_one table) deltas counters"

definition network_retain :: "process_table \<Rightarrow> network_counters \<Rightarrow> network_counters" where
  "network_retain table =
    filter (\<lambda>(pid, counted).
      case table_get table pid of
        Some e \<Rightarrow> pe_sequence_number e = ct_sequence_number counted
      | None \<Rightarrow> False)"

definition network_get :: "network_counters \<Rightarrow> u32 \<Rightarrow> u64 \<Rightarrow> network_stats" where
  "network_get counters pid seq =
    (case hm_get counters pid of
       Some counted \<Rightarrow> if ct_sequence_number counted = seq then ct_stats counted else network_stats_default
     | None \<Rightarrow> network_stats_default)"

section \<open>The core's state\<close>

record machine_totals =
  to_disk_read_bytes :: u64
  to_disk_write_bytes :: u64
  to_disk_read_ops :: u64
  to_disk_write_ops :: u64
  to_net_rx_bytes :: u64
  to_net_tx_bytes :: u64

definition machine_totals_default :: machine_totals where
  "machine_totals_default =
    \<lparr>to_disk_read_bytes = 0, to_disk_write_bytes = 0, to_disk_read_ops = 0, to_disk_write_ops = 0,
     to_net_rx_bytes = 0, to_net_tx_bytes = 0\<rparr>"

record system_state =
  sy_processes :: process_table
  sy_network :: network_counters
  sy_machine_totals :: machine_totals

definition system_state_new :: system_state where
  "system_state_new =
    \<lparr>sy_processes = table_new, sy_network = [], sy_machine_totals = machine_totals_default\<rparr>"

definition add_disk :: "disk_delta \<Rightarrow> machine_totals \<Rightarrow> machine_totals" where
  "add_disk d m =
    m\<lparr>to_disk_read_bytes := to_disk_read_bytes m + dd_read_bytes d,
      to_disk_read_ops := to_disk_read_ops m + dd_read_ops d,
      to_disk_write_bytes := to_disk_write_bytes m + dd_write_bytes d,
      to_disk_write_ops := to_disk_write_ops m + dd_write_ops d\<rparr>"

definition add_net :: "net_delta \<Rightarrow> machine_totals \<Rightarrow> machine_totals" where
  "add_net d m =
    m\<lparr>to_net_rx_bytes := to_net_rx_bytes m + (nd_rx_bytes d - nd_loopback_rx_bytes d),
      to_net_tx_bytes := to_net_tx_bytes m + (nd_tx_bytes d - nd_loopback_tx_bytes d)\<rparr>"

fun system_apply :: "state_change \<Rightarrow> system_state \<Rightarrow> system_state" where
  "system_apply (Disk deltas) s =
    s\<lparr>sy_machine_totals := fold (add_disk \<circ> snd) deltas (sy_machine_totals s)\<rparr>"
| "system_apply (Network deltas) s =
    s\<lparr>sy_machine_totals := fold (add_net \<circ> snd) deltas (sy_machine_totals s),
      sy_network := charge deltas (sy_processes s) (sy_network s)\<rparr>"

definition system_reconcile ::
  "row list \<Rightarrow> (row \<Rightarrow> sighted) \<Rightarrow> system_state \<Rightarrow> system_state \<times> image_request list" where
  "system_reconcile rows sight s =
    (let (table, asked) = reconcile rows sight (sy_processes s)
     in (s\<lparr>sy_processes := table, sy_network := network_retain table (sy_network s)\<rparr>, asked))"

definition system_judge :: "image \<Rightarrow> system_state \<Rightarrow> system_state" where
  "system_judge img s = s\<lparr>sy_processes := judge img (sy_processes s)\<rparr>"

definition system_observe :: "process_state \<Rightarrow> system_state \<Rightarrow> system_state" where
  "system_observe st s = s\<lparr>sy_processes := observe st (sy_processes s)\<rparr>"

definition system_take :: "diff \<Rightarrow> system_state \<Rightarrow> diff \<times> system_state" where
  "system_take d s =
    (let (d, table) = table_take d (sy_processes s) in (d, s\<lparr>sy_processes := table\<rparr>))"

definition system_pending :: "system_state \<Rightarrow> string list" where
  "system_pending s = table_pending (sy_processes s)"

definition system_network :: "system_state \<Rightarrow> u32 \<Rightarrow> u64 \<Rightarrow> network_stats" where
  "system_network s pid seq = network_get (sy_network s) pid seq"

section \<open>Sums over a batch\<close>

definition batch_sum :: "('v \<Rightarrow> 'w::len word) \<Rightarrow> ('k \<times> 'v) list \<Rightarrow> 'w word" where
  "batch_sum f m = sum_list (map (f \<circ> snd) m)"

lemma batch_sum_simps [simp]: "batch_sum f [] = 0" "batch_sum f (e # m) = f (snd e) + batch_sum f m"
  by (simp_all add: batch_sum_def)

lemma batch_sum_put:
  "batch_sum f (hm_put k v m) =
    batch_sum f m + f v - (case hm_get m k of Some u \<Rightarrow> f u | None \<Rightarrow> 0)"
proof (induction m)
  case (Cons a m)
  obtain k' v' where a: "a = (k', v')" by force
  show ?case using Cons.IH by (cases "k' = k") (simp_all add: a algebra_simps)
qed simp

lemma batch_sum_net:
  assumes "f net_delta_default = 0" "\<And>d e. f (net_delta_add d e) = f d + g e"
  shows "batch_sum f (fold net_batch_add es deltas) = batch_sum f deltas + sum_list (map g es)"
proof (induction es arbitrary: deltas)
  case (Cons e es)
  have "batch_sum f (net_batch_add e deltas) = batch_sum f deltas + g e"
    using assms by (simp add: net_batch_add_def batch_sum_put split: option.splits)
  then show ?case by (simp add: Cons.IH add.assoc)
qed simp

lemma batch_sum_disk:
  assumes "f disk_delta_default = 0" "\<And>d e. f (disk_delta_add d e) = f d + g e"
  shows "batch_sum f (fold (\<lambda>(k, e). disk_batch_add k e) es deltas) =
    batch_sum f deltas + sum_list (map (g \<circ> snd) es)"
proof (induction es arbitrary: deltas)
  case (Cons a es)
  obtain k e where a: "a = (k, e)" by force
  have "batch_sum f (disk_batch_add k e deltas) = batch_sum f deltas + g e"
    using assms by (simp add: disk_batch_add_def batch_sum_put split: option.splits)
  then show ?case by (simp add: a Cons.IH add.assoc)
qed simp

text \<open>The bytes of one event that count for the machine, and for its process.\<close>
definition received :: "network_event \<Rightarrow> u64" where
  "received e = (if ne_event_type e = NetRecv then ucast (ne_size e) else 0)"

definition sent :: "network_event \<Rightarrow> u64" where
  "sent e = (if ne_event_type e = NetSend then ucast (ne_size e) else 0)"

definition outside :: "(network_event \<Rightarrow> u64) \<Rightarrow> network_event \<Rightarrow> u64" where
  "outside f e = (if ne_loopback e then 0 else f e)"

lemma net_delta_add_sums:
  "nd_rx_bytes (net_delta_add d e) = nd_rx_bytes d + received e"
  "nd_tx_bytes (net_delta_add d e) = nd_tx_bytes d + sent e"
  "nd_rx_bytes (net_delta_add d e) - nd_loopback_rx_bytes (net_delta_add d e) =
    nd_rx_bytes d - nd_loopback_rx_bytes d + outside received e"
  "nd_tx_bytes (net_delta_add d e) - nd_loopback_tx_bytes (net_delta_add d e) =
    nd_tx_bytes d - nd_loopback_tx_bytes d + outside sent e"
  by (cases "ne_event_type e"; simp add: net_delta_add_def received_def sent_def outside_def Let_def)+

lemma add_net_fold:
  "to_net_rx_bytes (fold (add_net \<circ> snd) deltas m) =
    to_net_rx_bytes m + batch_sum (\<lambda>d. nd_rx_bytes d - nd_loopback_rx_bytes d) deltas"
  "to_net_tx_bytes (fold (add_net \<circ> snd) deltas m) =
    to_net_tx_bytes m + batch_sum (\<lambda>d. nd_tx_bytes d - nd_loopback_tx_bytes d) deltas"
  by (induction deltas arbitrary: m) (simp_all add: add_net_def add.assoc)

lemma add_disk_fold:
  "to_disk_read_bytes (fold (add_disk \<circ> snd) deltas m) = to_disk_read_bytes m + batch_sum dd_read_bytes deltas"
  "to_disk_write_bytes (fold (add_disk \<circ> snd) deltas m) = to_disk_write_bytes m + batch_sum dd_write_bytes deltas"
  "to_disk_read_ops (fold (add_disk \<circ> snd) deltas m) = to_disk_read_ops m + batch_sum dd_read_ops deltas"
  "to_disk_write_ops (fold (add_disk \<circ> snd) deltas m) = to_disk_write_ops m + batch_sum dd_write_ops deltas"
  by (induction deltas arbitrary: m) (simp_all add: add_disk_def add.assoc)

text \<open>The events a batch's raw events decode to.\<close>
definition decoded_network :: "(128 word \<times> u8 \<times> u8 list) list \<Rightarrow> network_event list" where
  "decoded_network raws = List.map_filter (\<lambda>(provider, opcode, bytes). decode_network provider opcode bytes) raws"

definition decoded_disk :: "(u8 \<times> u8 list) list \<Rightarrow> (u32 \<times> disk_event) list" where
  "decoded_disk raws = List.map_filter (\<lambda>(opcode, bytes). decode_disk opcode bytes) raws"

lemma decoded_Cons:
  "decoded_network (x # raws) =
    (case decode_network (fst x) (fst (snd x)) (snd (snd x)) of
       Some e \<Rightarrow> e # decoded_network raws | None \<Rightarrow> decoded_network raws)"
  "decoded_disk (y # raws') =
    (case decode_disk (fst y) (snd y) of
       Some e \<Rightarrow> e # decoded_disk raws' | None \<Rightarrow> decoded_disk raws')"
  by (simp_all add: decoded_network_def decoded_disk_def List.map_filter_simps split_beta split: option.splits)

lemma batch_event_eq:
  "net_batch_event x deltas =
    (case decode_network (fst x) (fst (snd x)) (snd (snd x)) of
       None \<Rightarrow> deltas | Some e \<Rightarrow> net_batch_add e deltas)"
  "disk_batch_event y deltas' =
    (case decode_disk (fst y) (snd y) of
       None \<Rightarrow> deltas' | Some e \<Rightarrow> disk_batch_add (fst e) (snd e) deltas')"
  by (simp_all add: net_batch_event_def disk_batch_event_def split_beta split: option.splits)

lemma fold_net_batch_event:
  "fold net_batch_event raws deltas = fold net_batch_add (decoded_network raws) deltas"
proof (induction raws arbitrary: deltas)
  case (Cons a raws)
  then show ?case by (simp add: decoded_Cons batch_event_eq split: option.splits)
qed (simp add: decoded_network_def List.map_filter_simps)

lemma fold_disk_batch_event:
  "fold disk_batch_event raws deltas = fold (\<lambda>(k, e). disk_batch_add k e) (decoded_disk raws) deltas"
proof (induction raws arbitrary: deltas)
  case (Cons a raws)
  then show ?case by (simp add: decoded_Cons batch_event_eq split_beta split: option.splits)
qed (simp add: decoded_disk_def List.map_filter_simps)

definition disk_bytes :: "disk_event_type \<Rightarrow> disk_event \<Rightarrow> u64" where
  "disk_bytes kind e = (if de_event_type e = kind then de_transfer_size e else 0)"

lemma disk_delta_add_sums:
  "dd_read_bytes (disk_delta_add d e) = dd_read_bytes d + disk_bytes DiskRead e"
  "dd_write_bytes (disk_delta_add d e) = dd_write_bytes d + disk_bytes DiskWrite e"
  by (cases "de_event_type e"; simp add: disk_delta_add_def disk_bytes_def)+

lemma batch_outside:
  "batch_sum (\<lambda>d. nd_rx_bytes d - nd_loopback_rx_bytes d) (fold net_batch_add es deltas) =
    batch_sum (\<lambda>d. nd_rx_bytes d - nd_loopback_rx_bytes d) deltas + sum_list (map (outside received) es)"
  "batch_sum (\<lambda>d. nd_tx_bytes d - nd_loopback_tx_bytes d) (fold net_batch_add es deltas) =
    batch_sum (\<lambda>d. nd_tx_bytes d - nd_loopback_tx_bytes d) deltas + sum_list (map (outside sent) es)"
proof -
  show "batch_sum (\<lambda>d. nd_rx_bytes d - nd_loopback_rx_bytes d) (fold net_batch_add es deltas) =
      batch_sum (\<lambda>d. nd_rx_bytes d - nd_loopback_rx_bytes d) deltas + sum_list (map (outside received) es)"
    by (rule batch_sum_net) (simp add: net_delta_default_def, rule net_delta_add_sums)
  show "batch_sum (\<lambda>d. nd_tx_bytes d - nd_loopback_tx_bytes d) (fold net_batch_add es deltas) =
      batch_sum (\<lambda>d. nd_tx_bytes d - nd_loopback_tx_bytes d) deltas + sum_list (map (outside sent) es)"
    by (rule batch_sum_net) (simp add: net_delta_default_def, rule net_delta_add_sums)
qed

lemma batch_disk_bytes:
  "batch_sum dd_read_bytes (fold (\<lambda>(k, e). disk_batch_add k e) es' deltas') =
    batch_sum dd_read_bytes deltas' + sum_list (map (disk_bytes DiskRead \<circ> snd) es')"
  "batch_sum dd_write_bytes (fold (\<lambda>(k, e). disk_batch_add k e) es' deltas') =
    batch_sum dd_write_bytes deltas' + sum_list (map (disk_bytes DiskWrite \<circ> snd) es')"
  using batch_sum_disk [of dd_read_bytes "disk_bytes DiskRead"]
    batch_sum_disk [of dd_write_bytes "disk_bytes DiskWrite"]
  by (simp_all add: disk_delta_add_sums disk_delta_default_def)

text \<open>
  The machine's totals grow by exactly what the events of a batch carried:
  a network batch by the bytes of its sends and receives that were not to or
  from a loopback address, a disk batch by the bytes of its reads and of its
  writes, whatever processes or threads the events are spread over and however
  often the counters wrap.
\<close>
theorem totals_grow_by_events:
  "to_net_rx_bytes (sy_machine_totals (system_apply (Network (fold net_batch_event net [])) s)) =
     to_net_rx_bytes (sy_machine_totals s) + sum_list (map (outside received) (decoded_network net)) \<and>
   to_net_tx_bytes (sy_machine_totals (system_apply (Network (fold net_batch_event net [])) s)) =
     to_net_tx_bytes (sy_machine_totals s) + sum_list (map (outside sent) (decoded_network net)) \<and>
   to_disk_read_bytes (sy_machine_totals (system_apply (Disk (fold disk_batch_event disk [])) s)) =
     to_disk_read_bytes (sy_machine_totals s) + sum_list (map (disk_bytes DiskRead \<circ> snd) (decoded_disk disk)) \<and>
   to_disk_write_bytes (sy_machine_totals (system_apply (Disk (fold disk_batch_event disk [])) s)) =
     to_disk_write_bytes (sy_machine_totals s) + sum_list (map (disk_bytes DiskWrite \<circ> snd) (decoded_disk disk))"
  by (simp add: add_net_fold add_disk_fold fold_net_batch_event fold_disk_batch_event
      batch_outside batch_disk_bytes)

section \<open>What each process is charged\<close>

lemma hm_ok_net_batch: "hm_ok deltas \<Longrightarrow> hm_ok (fold net_batch_add es deltas)"
  by (induction es arbitrary: deltas) (simp_all add: net_batch_add_def)

definition delta_of :: "(net_delta \<Rightarrow> u64) \<Rightarrow> net_deltas \<Rightarrow> u32 \<Rightarrow> u64" where
  "delta_of f deltas pid = (case hm_get deltas pid of Some d \<Rightarrow> f d | None \<Rightarrow> 0)"

lemma delta_of_batch:
  assumes "f net_delta_default = 0" "\<And>d e. f (net_delta_add d e) = f d + g e"
  shows "delta_of f (fold net_batch_add es deltas) pid =
    delta_of f deltas pid + sum_list (map g (filter (\<lambda>e. ne_pid e = pid) es))"
proof (induction es arbitrary: deltas)
  case (Cons e es)
  have "delta_of f (net_batch_add e deltas) pid =
      delta_of f deltas pid + (if ne_pid e = pid then g e else 0)"
    using assms by (simp add: delta_of_def net_batch_add_def hm split: option.splits)
  then show ?case by (simp add: Cons.IH add.assoc)
qed simp

lemma charge_one_get:
  "network_get (charge_one table (k, d) counters) pid seq =
    (case table_get table k of
       Some e \<Rightarrow>
         if k = pid then
           (if pe_sequence_number e = seq then
              \<lparr>nst_sent_bytes = nst_sent_bytes (network_get counters pid seq) + nd_tx_bytes d,
               nst_recv_bytes = nst_recv_bytes (network_get counters pid seq) + nd_rx_bytes d\<rparr>
            else network_stats_default)
         else network_get counters pid seq
     | None \<Rightarrow> network_get counters pid seq)"
  by (auto simp: charge_one_def network_get_def hm Let_def split: option.splits)

lemma charge_get:
  assumes "hm_ok deltas" "table_get table pid = Some e" "pe_sequence_number e = seq"
  shows "network_get (charge deltas table counters) pid seq =
    \<lparr>nst_sent_bytes = nst_sent_bytes (network_get counters pid seq) + delta_of nd_tx_bytes deltas pid,
     nst_recv_bytes = nst_recv_bytes (network_get counters pid seq) + delta_of nd_rx_bytes deltas pid\<rparr>"
  using assms(1) unfolding charge_def
proof (induction deltas arbitrary: counters)
  case Nil
  then show ?case by (simp add: delta_of_def)
next
  case (Cons a deltas)
  obtain k d where a: "a = (k, d)" by force
  have ok: "hm_ok deltas" and k: "k \<notin> hm_keys deltas" using Cons.prems by (auto simp: a)
  then have "hm_get deltas k = None" by (simp add: map_of_eq_None_iff)
  then show ?case
    using Cons.IH [OF ok, of "charge_one table (k, d) counters"] assms(2,3)
    by (cases "k = pid") (simp_all add: a charge_one_get delta_of_def split: option.splits)
qed

lemma charge_unlisted:
  "table_get table pid = None \<Longrightarrow> hm_get (charge deltas table counters) pid = hm_get counters pid"
  unfolding charge_def
proof (induction deltas arbitrary: counters)
  case (Cons a deltas)
  obtain k d where a: "a = (k, d)" by force
  have "hm_get (charge_one table (k, d) counters) pid = hm_get counters pid"
    using Cons.prems by (auto simp: charge_one_def hm Let_def split: option.splits)
  then show ?case using Cons by (simp add: a)
qed simp

lemma charge_earlier:
  "table_get table pid = Some e \<Longrightarrow> pe_sequence_number e \<noteq> seq \<Longrightarrow>
    network_get (charge deltas table counters) pid seq \<in> {network_get counters pid seq, network_stats_default}"
  unfolding charge_def
proof (induction deltas arbitrary: counters)
  case (Cons a deltas)
  obtain k d where a: "a = (k, d)" by force
  have "network_get (charge_one table (k, d) counters) pid seq \<in> {network_get counters pid seq, network_stats_default}"
    using Cons.prems by (auto simp: charge_one_get split: option.splits)
  then show ?case using Cons.IH [OF Cons.prems, of "charge_one table (k, d) counters"] by (auto simp: a)
qed simp

text \<open>
  C10 A listed process is charged exactly the bytes its own events carried while
  its pid was its own, and nobody else is charged any: a batch adds the sum over the
  events of that pid, leaves the counters of a pid that is not listed alone and gives
  nothing to an earlier process of the pid; and reconciling keeps the counters of a process that stays listed under its
  sequence number and starts every other one from nothing, so a process never
  inherits the traffic of an earlier one of the same pid.
\<close>
theorem processes_charged_their_own:
  assumes "table_get (sy_processes s) pid = Some e" "hm_ok (sy_network s)"
  shows "system_network (system_apply (Network (fold net_batch_event net [])) s) pid (pe_sequence_number e) =
      \<lparr>nst_sent_bytes = nst_sent_bytes (system_network s pid (pe_sequence_number e)) +
         sum_list (map sent (filter (\<lambda>x. ne_pid x = pid) (decoded_network net))),
       nst_recv_bytes = nst_recv_bytes (system_network s pid (pe_sequence_number e)) +
         sum_list (map received (filter (\<lambda>x. ne_pid x = pid) (decoded_network net)))\<rparr> \<and>
    (\<forall>other. table_get (sy_processes s) other = None \<longrightarrow>
      hm_get (sy_network (system_apply (Network (fold net_batch_event net [])) s)) other = hm_get (sy_network s) other) \<and>
    (\<forall>seq. seq \<noteq> pe_sequence_number e \<longrightarrow>
      system_network (system_apply (Network (fold net_batch_event net [])) s) pid seq
        \<in> {system_network s pid seq, network_stats_default}) \<and>
    (\<forall>seq. system_network (fst (system_reconcile rows sight s)) pid seq =
      (case table_get (sy_processes (fst (system_reconcile rows sight s))) pid of
         Some e' \<Rightarrow> if pe_sequence_number e' = seq then system_network s pid seq else network_stats_default
       | None \<Rightarrow> network_stats_default))"
proof (intro conjI)
  let ?b = "fold net_batch_add (decoded_network net) []"
  have ok: "hm_ok ?b" by (simp add: hm_ok_net_batch)
  show "system_network (system_apply (Network (fold net_batch_event net [])) s) pid (pe_sequence_number e) =
      \<lparr>nst_sent_bytes = nst_sent_bytes (system_network s pid (pe_sequence_number e)) +
         sum_list (map sent (filter (\<lambda>x. ne_pid x = pid) (decoded_network net))),
       nst_recv_bytes = nst_recv_bytes (system_network s pid (pe_sequence_number e)) +
         sum_list (map received (filter (\<lambda>x. ne_pid x = pid) (decoded_network net)))\<rparr>"
    using charge_get [OF ok assms(1) refl, of "sy_network s"]
      delta_of_batch [of nd_tx_bytes sent "decoded_network net" "[]" pid]
      delta_of_batch [of nd_rx_bytes received "decoded_network net" "[]" pid]
    by (simp add: system_network_def fold_net_batch_event net_delta_add_sums net_delta_default_def delta_of_def)
  show "\<forall>other. table_get (sy_processes s) other = None \<longrightarrow>
      hm_get (sy_network (system_apply (Network (fold net_batch_event net [])) s)) other = hm_get (sy_network s) other"
    by (simp add: charge_unlisted)
  show "\<forall>seq. seq \<noteq> pe_sequence_number e \<longrightarrow>
      system_network (system_apply (Network (fold net_batch_event net [])) s) pid seq
        \<in> {system_network s pid seq, network_stats_default}"
    using charge_earlier [OF assms(1)] by (simp add: system_network_def)
  show "\<forall>seq. system_network (fst (system_reconcile rows sight s)) pid seq =
      (case table_get (sy_processes (fst (system_reconcile rows sight s))) pid of
         Some e' \<Rightarrow> if pe_sequence_number e' = seq then system_network s pid seq else network_stats_default
       | None \<Rightarrow> network_stats_default)"
    using assms(2)
    by (auto simp: system_network_def system_reconcile_def network_get_def network_retain_def hm
        split: prod.splits option.splits)
qed

theorem processes_charged_their_own_witness:
  "\<exists>s e. table_get (sy_processes s) 8 = Some e \<and>
    system_network (system_apply (Network (fold net_batch_event
      [(TCPIP_TASK_GUID, 10, [8,0,0,0, 100,0,0,0, 10,0,0,1, 10,0,0,2, 0,0, 0,0])] [])) s) 8 (pe_sequence_number e) =
      \<lparr>nst_sent_bytes = 100, nst_recv_bytes = 0\<rparr>"
proof -
  let ?rows = "[row_default\<lparr>r_pid := 4\<rparr>, row_default\<lparr>r_pid := 8\<rparr>]"
  let ?net = "[(TCPIP_TASK_GUID, 10, [8,0,0,0, 100,0,0,0, 10,0,0,1, 10,0,0,2, 0,0, 0,0])]"
  define s where "s = system_state_new\<lparr>sy_processes := fst (reconcile ?rows sample_sighting table_new)\<rparr>"
  obtain e where e: "table_get (sy_processes s) 8 = Some e"
    using reconcile_effect [OF table_ok_new two_of_one_image(1), of sample_sighting] by (auto simp: s_def)
  have net: "sy_network s = []" by (simp add: s_def system_state_new_def)
  have d: "decoded_network ?net = [\<lparr>ne_pid = 8, ne_event_type = NetSend, ne_size = 100, ne_loopback = False\<rparr>]"
    by (simp add: decoded_network_def List.map_filter_simps decode_network_def network_kind_def
        read_flow_def read_bytes_def v4_loopback_def Let_def)
  have "system_network s 8 (pe_sequence_number e) = network_stats_default"
    by (simp add: system_network_def network_get_def net)
  then have "system_network (system_apply (Network (fold net_batch_event ?net [])) s) 8 (pe_sequence_number e) =
      \<lparr>nst_sent_bytes = 100, nst_recv_bytes = 0\<rparr>"
    using processes_charged_their_own [OF e, of ?net, THEN conjunct1] net
    by (simp add: d sent_def received_def network_stats_default_def del: system_apply.simps fold_simps)
  with e show ?thesis by blast
qed

end
