(* ===== verification/History.thy ===== *)
theory History
  imports Model
begin

text \<open>
  \<^verbatim>\<open>crates/core/src/process_events/history.rs\<close> and the types of
  \<^verbatim>\<open>process_events/mod.rs\<close>: the recent process starts and exits, held for
  watchers. Each watcher reads on from where it was and is told how many
  events it missed. Indices of events are natural numbers (they grow by one an
  event); times and loss counts keep their width. What a held event weighs
  rests on the layout of the compiled types and on which strings the string
  crate allocates: a parameter.
\<close>

section \<open>Events\<close>

record process_started =
  st_parent_pid :: u32
  st_parent_sequence_number :: u64
  st_session_id :: u32
  st_image_path :: string
  st_command_line :: string
  st_user :: string
  st_elevated :: "bool option"
  st_package_full_name :: string
  st_working_directory :: string
  st_scheduled_task :: string
  st_parent_services :: "string list"

record process_exited =
  ex_image_path :: string
  ex_image_name :: string
  ex_start_time :: u64
  ex_exit_code :: u32
  ex_cpu_cycles :: u64
  ex_io_read_ops :: u64
  ex_io_write_ops :: u64
  ex_io_read_bytes :: u64
  ex_io_write_bytes :: u64
  ex_peak_commit :: u64
  ex_handles :: u32
  ex_hard_faults :: u32

definition process_exited_default :: process_exited where
  "process_exited_default =
    \<lparr>ex_image_path = '''', ex_image_name = '''', ex_start_time = 0, ex_exit_code = 0, ex_cpu_cycles = 0,
     ex_io_read_ops = 0, ex_io_write_ops = 0, ex_io_read_bytes = 0, ex_io_write_bytes = 0,
     ex_peak_commit = 0, ex_handles = 0, ex_hard_faults = 0\<rparr>"

datatype process_event_kind = Started process_started | Exited process_exited

record process_event =
  ev_pid :: u32
  ev_sequence_number :: u64
  ev_time :: u64
  ev_kind :: process_event_kind

record process_event_batch =
  eb_history_from :: u64
  eb_events :: "process_event list"
  eb_lost :: u32

text \<open>Sizes of the compiled types, and the heap bytes of a string.\<close>
record layout =
  ly_entry :: nat
  ly_event :: nat
  ly_string :: nat
  ly_heap :: "string \<Rightarrow> nat"

fun event_bytes :: "layout \<Rightarrow> process_event_kind \<Rightarrow> nat" where
  "event_bytes ly (Started s) =
    ly_entry ly + ly_event ly +
      (ly_heap ly (st_image_path s) + ly_heap ly (st_command_line s) + ly_heap ly (st_user s)
       + ly_heap ly (st_package_full_name s) + ly_heap ly (st_working_directory s)
       + ly_heap ly (st_scheduled_task s)
       + sum_list (map (\<lambda>name. ly_string ly + ly_heap ly name) (st_parent_services s)))"
| "event_bytes ly (Exited _) = ly_entry ly + ly_event ly + 0"

section \<open>The history\<close>

record entry =
  he_event :: process_event
  he_bytes :: nat
  he_lost_before :: u32

record history =
  h_entries :: "entry list"
  h_first :: nat
  h_bytes :: nat
  h_history_from :: u64
  h_max_age :: u64
  h_max_bytes :: nat
  h_lost :: u32

text \<open>Where one watcher is in the history.\<close>
record cursor =
  cu_next :: nat
  cu_started :: bool

definition cursor_default :: cursor where
  "cursor_default = \<lparr>cu_next = 0, cu_started = False\<rparr>"

definition history_new :: "u64 \<Rightarrow> u64 \<Rightarrow> nat \<Rightarrow> history" where
  "history_new started_at max_age max_bytes =
    \<lparr>h_entries = [], h_first = 0, h_bytes = 0, h_history_from = started_at, h_max_age = max_age,
     h_max_bytes = max_bytes, h_lost = 0\<rparr>"

text \<open>The loop of \<^verbatim>\<open>push\<close> that lets go of the oldest entries.\<close>
function let_go :: "u64 \<Rightarrow> history \<Rightarrow> history" where
  "let_go cutoff h =
    (case h_entries h of
       [] \<Rightarrow> h
     | oldest # rest \<Rightarrow>
         let too_old = ev_time (he_event oldest) < cutoff;
             too_many = h_bytes h > h_max_bytes h \<and> length (h_entries h) > 1
         in if \<not> too_old \<and> \<not> too_many then h
            else let_go cutoff (h\<lparr>h_entries := rest, h_bytes := h_bytes h - he_bytes oldest,
                   h_first := h_first h + 1,
                   h_history_from := max (h_history_from h) (ev_time (he_event oldest) + 1)\<rparr>))"
  by pat_completeness auto
termination
  by (relation "measure (\<lambda>(_, h). length (h_entries h))") auto

declare let_go.simps [simp del]

definition push :: "layout \<Rightarrow> process_event \<Rightarrow> u64 \<Rightarrow> history \<Rightarrow> history" where
  "push ly event now h =
    (let bytes = event_bytes ly (ev_kind event);
         h = h\<lparr>h_entries := h_entries h @
                 [\<lparr>he_event = event, he_bytes = bytes, he_lost_before = h_lost h\<rparr>],
               h_lost := 0, h_bytes := h_bytes h + bytes\<rparr>
     in let_go (sat_sub now (h_max_age h)) h)"

text \<open>The image of the instance whose start is held.\<close>
definition started_image :: "u32 \<Rightarrow> u64 \<Rightarrow> entry \<Rightarrow> string option" where
  "started_image pid seq entry =
    (case ev_kind (he_event entry) of
       Started s \<Rightarrow>
         if ev_pid (he_event entry) = pid \<and> ev_sequence_number (he_event entry) = seq
         then Some (st_image_path s) else None
     | Exited _ \<Rightarrow> None)"

fun find_map :: "('a \<Rightarrow> 'b option) \<Rightarrow> 'a list \<Rightarrow> 'b option" where
  "find_map f [] = None"
| "find_map f (x # xs) = (case f x of Some y \<Rightarrow> Some y | None \<Rightarrow> find_map f xs)"

definition image_of :: "history \<Rightarrow> u32 \<Rightarrow> u64 \<Rightarrow> string option" where
  "image_of h pid seq = find_map (started_image pid seq) (rev (h_entries h))"

definition kernel_lost :: "u32 \<Rightarrow> history \<Rightarrow> history" where
  "kernel_lost n h = h\<lparr>h_lost := sat_add (h_lost h) n\<rparr>"

text \<open>The loop of \<^verbatim>\<open>read\<close>: the events taken, their bytes and what was lost, so far.\<close>
fun read_entries ::
  "nat \<Rightarrow> entry list \<Rightarrow> process_event list \<Rightarrow> nat \<Rightarrow> u32 \<Rightarrow> process_event list \<times> u32" where
  "read_entries max_bytes [] events bytes lost = (events, lost)"
| "read_entries max_bytes (entry # entries) events bytes lost =
    (if events \<noteq> [] \<and> bytes + he_bytes entry > max_bytes then (events, lost)
     else read_entries max_bytes entries (events @ [he_event entry]) (bytes + he_bytes entry)
            (sat_add lost (he_lost_before entry)))"

text \<open>\<^verbatim>\<open>u32::try_from(n).unwrap_or(u32::MAX)\<close>\<close>
definition u32_of_nat :: "nat \<Rightarrow> u32" where
  "u32_of_nat n = (if n < 2 ^ 32 then of_nat n else - 1)"

definition read :: "history \<Rightarrow> cursor \<Rightarrow> nat \<Rightarrow> cursor \<times> process_event_batch option" where
  "read h c max_bytes =
    (let first_read = \<not> cu_started c;
         c = (if first_read then c\<lparr>cu_started := True, cu_next := h_first h\<rparr> else c);
         (lost, c) = (if cu_next c < h_first h
                      then (u32_of_nat (h_first h - cu_next c), c\<lparr>cu_next := h_first h\<rparr>) else (0, c));
         (events, lost) = read_entries max_bytes (drop (cu_next c - h_first h) (h_entries h)) [] 0 lost;
         c = c\<lparr>cu_next := cu_next c + length events\<rparr>
     in (c, if events = [] \<and> lost = 0 \<and> \<not> first_read then None
            else Some \<lparr>eb_history_from = (if first_read then h_history_from h else 0),
                       eb_events = events, eb_lost = lost\<rparr>))"

section \<open>Every history that can come about\<close>

text \<open>The histories reachable by pushing events in a hold, with all that was ever pushed.\<close>
inductive history_reach :: "layout \<Rightarrow> history \<Rightarrow> process_event list \<Rightarrow> bool" for ly where
  hist_new: "history_reach ly (history_new started_at max_age max_bytes) []"
| hist_push: "history_reach ly h evs \<Longrightarrow> ev_time event \<noteq> - 1 \<Longrightarrow>
    history_reach ly (push ly event now h) (evs @ [event])"
| hist_lost: "history_reach ly h evs \<Longrightarrow> history_reach ly (kernel_lost n h) evs"

definition entries_bytes :: "entry list \<Rightarrow> nat" where
  "entries_bytes es = sum_list (map he_bytes es)"

definition history_ok :: "history \<Rightarrow> process_event list \<Rightarrow> bool" where
  "history_ok h evs \<longleftrightarrow>
    h_first h \<le> length evs \<and> map he_event (h_entries h) = drop (h_first h) evs \<and>
    h_bytes h = entries_bytes (h_entries h) \<and>
    (\<forall>event \<in> set (take (h_first h) evs). ev_time event < h_history_from h)"

lemma less_Suc_word:
  fixes w :: "'a::len word"
  assumes "w \<noteq> - 1"
  shows "w < w + 1"
proof -
  have "w + 1 \<noteq> 0" using assms by (metis add.commute add_eq_0_iff)
  then have "unat (w + 1) = Suc (unat w)" by (simp add: unatSuc add.commute)
  then show ?thesis by (simp add: word_less_nat_alt)
qed

lemma let_go_ok:
  assumes "history_ok h evs" "\<forall>event \<in> set evs. ev_time event \<noteq> - 1"
  shows "history_ok (let_go cutoff h) evs \<and>
    (h_bytes (let_go cutoff h) \<le> h_max_bytes h \<or> length (h_entries (let_go cutoff h)) \<le> 1) \<and>
    (\<forall>e es. h_entries (let_go cutoff h) = e # es \<longrightarrow> cutoff \<le> ev_time (he_event e)) \<and>
    h_max_bytes (let_go cutoff h) = h_max_bytes h \<and> h_max_age (let_go cutoff h) = h_max_age h \<and>
    h_lost (let_go cutoff h) = h_lost h \<and> h_history_from h \<le> h_history_from (let_go cutoff h)"
  using assms(1)
proof (induction "h_entries h" arbitrary: h)
  case Nil
  then have "let_go cutoff h = h" by (subst let_go.simps) (simp split: list.splits)
  then show ?case using Nil by simp
next
  case (Cons oldest rest)
  note entries = Cons.hyps(2) [symmetric]
  let ?stop = "\<not> ev_time (he_event oldest) < cutoff \<and> \<not> (h_bytes h > h_max_bytes h \<and> length (h_entries h) > 1)"
  show ?case
  proof (cases ?stop)
    case True
    then have "let_go cutoff h = h" using entries by (subst let_go.simps) (auto simp: Let_def)
    then show ?thesis using Cons.prems True entries by auto
  next
    case False
    let ?h = "h\<lparr>h_entries := rest, h_bytes := h_bytes h - he_bytes oldest, h_first := h_first h + 1,
      h_history_from := max (h_history_from h) (ev_time (he_event oldest) + 1)\<rparr>"
    have eq: "let_go cutoff h = let_go cutoff ?h"
      using False entries by (subst let_go.simps) (auto simp: Let_def)
    have m: "he_event oldest # map he_event rest = drop (h_first h) evs"
      using Cons.prems entries by (simp add: history_ok_def)
    then have lt: "h_first h < length evs" by (metis drop_all list.distinct(1) not_le)
    then have n: "evs ! h_first h = he_event oldest" "map he_event rest = drop (Suc (h_first h)) evs"
      using m by (simp_all add: Cons_nth_drop_Suc [symmetric])
    have t: "set (take (Suc (h_first h)) evs) = insert (he_event oldest) (set (take (h_first h) evs))"
      using lt n by (simp add: take_Suc_conv_app_nth)
    have "he_event oldest \<in> set evs" using lt n(1) by (metis nth_mem)
    then have "ev_time (he_event oldest) < ev_time (he_event oldest) + 1"
      using assms(2) less_Suc_word by blast
    then have "history_ok ?h evs"
      using Cons.prems entries n(2) lt t by (auto simp: history_ok_def entries_bytes_def less_max_iff_disj)
    then obtain h' where ok: "history_ok h' evs" and h': "h' = ?h" by blast
    have f: "h_history_from h \<le> h_history_from h'" "h_max_bytes h' = h_max_bytes h"
      "h_max_age h' = h_max_age h" "h_lost h' = h_lost h" "rest = h_entries h'"
      unfolding h' by simp_all
    have eq': "let_go cutoff h = let_go cutoff h'" using eq h' by simp
    show ?thesis
      using Cons.hyps(1) [OF f(5) ok] f(1) unfolding eq' f(2-4) by (blast intro: order.trans)
  qed
qed

lemma history_ok_push_start:
  assumes "history_ok h evs"
  shows "history_ok (h\<lparr>h_entries := h_entries h @ [\<lparr>he_event = event, he_bytes = b, he_lost_before = l\<rparr>],
    h_lost := 0, h_bytes := h_bytes h + b\<rparr>) (evs @ [event])"
  using assms by (auto simp: history_ok_def entries_bytes_def)

lemma history_reach_ok:
  "history_reach ly h evs \<Longrightarrow> history_ok h evs \<and> (\<forall>event \<in> set evs. ev_time event \<noteq> - 1) \<and>
    (h_bytes h \<le> h_max_bytes h \<or> length (h_entries h) \<le> 1)"
proof (induction rule: history_reach.induct)
  case (hist_new started_at max_age max_bytes)
  show ?case by (simp add: history_new_def history_ok_def entries_bytes_def)
next
  case (hist_push h evs event now)
  then have times: "\<forall>e \<in> set (evs @ [event]). ev_time e \<noteq> - 1" by auto
  have "history_ok h evs" using hist_push by blast
  from let_go_ok [OF history_ok_push_start [OF this] times]
  show ?case using times by (simp add: push_def Let_def)
next
  case (hist_lost h evs n)
  then show ?case by (auto simp: kernel_lost_def history_ok_def)
qed

lemma let_go_step:
  "h_entries h = oldest # rest \<Longrightarrow> let_go cutoff h =
    (if \<not> ev_time (he_event oldest) < cutoff \<and> \<not> (h_bytes h > h_max_bytes h \<and> rest \<noteq> []) then h
     else let_go cutoff (h\<lparr>h_entries := rest, h_bytes := h_bytes h - he_bytes oldest,
       h_first := h_first h + 1,
       h_history_from := max (h_history_from h) (ev_time (he_event oldest) + 1)\<rparr>))"
  by (subst let_go.simps) (simp add: Let_def)

lemma let_go_keeps_newest:
  assumes "h_entries h = es @ [e]" "cutoff \<le> ev_time (he_event e)"
  shows "\<exists>es'. h_entries (let_go cutoff h) = es' @ [e]"
  using assms(1)
proof (induction es arbitrary: h)
  case Nil
  then have "let_go cutoff h = h" using assms(2) by (subst let_go.simps) (simp add: not_less)
  then show ?case using Nil by simp
next
  case (Cons x es)
  let ?h = "h\<lparr>h_entries := es @ [e], h_bytes := h_bytes h - he_bytes x, h_first := h_first h + 1,
    h_history_from := max (h_history_from h) (ev_time (he_event x) + 1)\<rparr>"
  have "let_go cutoff h = h \<or> let_go cutoff h = let_go cutoff ?h"
    using Cons.prems by (simp add: let_go_step)
  then show ?case using Cons.IH [of ?h] Cons.prems by auto
qed

text \<open>
  C11 Nothing is missing from what the history claims to hold: of all events
  ever pushed, exactly the ones from index \<^verbatim>\<open>first\<close> on are held, in the order they
  came, and every one let go is older than \<^verbatim>\<open>history_from\<close>, so each event from
  that time on is held. The byte count is exact, and within the bound unless a
  single event exceeds it.
\<close>
theorem history_holds_all_since:
  assumes "history_reach ly h evs"
  shows "map he_event (h_entries h) = drop (h_first h) evs \<and> h_first h \<le> length evs \<and>
    (\<forall>event \<in> set evs. h_history_from h \<le> ev_time event \<longrightarrow> event \<in> he_event ` set (h_entries h)) \<and>
    h_bytes h = entries_bytes (h_entries h) \<and>
    (h_bytes h \<le> h_max_bytes h \<or> length (h_entries h) \<le> 1)"
proof -
  have ok: "history_ok h evs" using history_reach_ok [OF assms] by blast
  have "event \<in> he_event ` set (h_entries h)"
    if e: "event \<in> set evs" "h_history_from h \<le> ev_time event" for event
  proof -
    have "event \<notin> set (take (h_first h) evs)" using ok e(2) by (auto simp: history_ok_def not_less)
    moreover have "set evs = set (take (h_first h) evs) \<union> set (drop (h_first h) evs)"
      by (metis append_take_drop_id set_append)
    ultimately have "event \<in> set (drop (h_first h) evs)" using e(1) by blast
    then show ?thesis using ok by (metis history_ok_def list.set_map)
  qed
  then show ?thesis using ok history_reach_ok [OF assms] by (auto simp: history_ok_def)
qed

definition exit_of :: "u32 \<Rightarrow> u64 \<Rightarrow> process_event" where
  "exit_of pid time =
    \<lparr>ev_pid = pid, ev_sequence_number = 1, ev_time = time, ev_kind = Exited process_exited_default\<rparr>"

definition plain_layout :: layout where
  "plain_layout = \<lparr>ly_entry = 24, ly_event = 100, ly_string = 24, ly_heap = (\<lambda>s. if length s > 23 then length s else 0)\<rparr>"

text \<open>Room for two exits: the third one pushes the first out.\<close>
definition three_exits :: history where
  "three_exits = push plain_layout (exit_of 3 30) 30 (push plain_layout (exit_of 2 20) 20
    (push plain_layout (exit_of 1 10) 10 (history_new 5 1000 300)))"

lemma three_exits_reach: "history_reach plain_layout three_exits [exit_of 1 10, exit_of 2 20, exit_of 3 30]"
proof -
  have t: "ev_time (exit_of p n) = n" for p n by (simp add: exit_of_def)
  have "history_reach plain_layout three_exits ((([] @ [exit_of 1 10]) @ [exit_of 2 20]) @ [exit_of 3 30])"
    unfolding three_exits_def by (intro hist_push hist_new) (simp_all add: t)
  then show ?thesis by simp
qed

theorem history_holds_all_since_witness:
  "h_first three_exits = 1 \<and> map he_event (h_entries three_exits) = [exit_of 2 20, exit_of 3 30] \<and>
    h_history_from three_exits = 11"
proof -
  have f: "h_first three_exits = 1 \<and> h_history_from three_exits = 11"
    by (simp add: three_exits_def push_def history_new_def exit_of_def plain_layout_def sat_sub_def
        let_go.simps Let_def)
  then show ?thesis using history_holds_all_since [OF three_exits_reach] by simp
qed

section \<open>What a watcher is told\<close>

lemma sat_add_zero [simp]: "sat_add (0 :: 'a::len word) n = n"
  using unsigned_less [of n] by (simp add: sat_add_def)

definition lost_through :: "u32 \<Rightarrow> entry list \<Rightarrow> u32" where
  "lost_through lost es = foldl (\<lambda>l e. sat_add l (he_lost_before e)) lost es"

lemma lost_through_ge: "lost \<le> lost_through lost es"
  unfolding lost_through_def
  by (induction es arbitrary: lost) (auto intro: order.trans [OF sat_add_ge])

lemma read_entries_take:
  "\<exists>k. k \<le> length entries \<and>
    read_entries max_bytes entries events bytes lost =
      (events @ map he_event (take k entries), lost_through lost (take k entries)) \<and>
    (events = [] \<longrightarrow> entries \<noteq> [] \<longrightarrow> 0 < k) \<and>
    (k = 0 \<or> events = [] \<and> k = 1 \<or> bytes + entries_bytes (take k entries) \<le> max_bytes)"
proof (induction entries arbitrary: events bytes lost)
  case Nil
  then show ?case by (simp add: lost_through_def)
next
  case (Cons e entries)
  show ?case
  proof (cases "events \<noteq> [] \<and> bytes + he_bytes e > max_bytes")
    case True
    then show ?thesis by (intro exI [of _ 0]) (simp add: lost_through_def)
  next
    case False
    obtain k where k: "k \<le> length entries"
      "read_entries max_bytes entries (events @ [he_event e]) (bytes + he_bytes e) (sat_add lost (he_lost_before e)) =
        ((events @ [he_event e]) @ map he_event (take k entries),
         lost_through (sat_add lost (he_lost_before e)) (take k entries))"
      "k = 0 \<or> bytes + he_bytes e + entries_bytes (take k entries) \<le> max_bytes"
      using Cons.IH [of "events @ [he_event e]" "bytes + he_bytes e" "sat_add lost (he_lost_before e)"] by auto
    show ?thesis
      by (rule exI [of _ "Suc k"]) (use k False in \<open>auto simp: lost_through_def entries_bytes_def\<close>)
  qed
qed

definition read_from :: "history \<Rightarrow> cursor \<Rightarrow> nat" where
  "read_from h c = (if cu_started c then max (cu_next c) (h_first h) else h_first h)"

definition missed_before :: "history \<Rightarrow> cursor \<Rightarrow> nat" where
  "missed_before h c = (if cu_started c then h_first h - cu_next c else 0)"

lemma u32_of_nat_zero [simp]: "u32_of_nat 0 = 0"
  by (simp add: u32_of_nat_def)

lemma u32_of_nat_eq_0: "u32_of_nat n = 0 \<longleftrightarrow> n = 0"
proof (cases "n < 2 ^ 32")
  case True
  then have "unat (of_nat n :: u32) = n" by (simp add: unat_of_nat take_bit_nat_eq_self)
  then show ?thesis using True by (metis u32_of_nat_def unat_eq_zero of_nat_0)
next
  case False
  then show ?thesis by (auto simp: u32_of_nat_def)
qed

lemma read_eq:
  assumes "history_ok h evs"
  obtains k where "read_from h c + k \<le> max (read_from h c) (length evs)"
    "fst (read h c max_bytes) = \<lparr>cu_next = read_from h c + k, cu_started = True\<rparr>"
    "snd (read h c max_bytes) =
      (let lost = lost_through (u32_of_nat (missed_before h c))
             (take k (drop (read_from h c - h_first h) (h_entries h)))
       in if k = 0 \<and> lost = 0 \<and> cu_started c then None
          else Some \<lparr>eb_history_from = (if cu_started c then 0 else h_history_from h),
            eb_events = take k (drop (read_from h c) evs), eb_lost = lost\<rparr>)"
    "read_from h c < length evs \<longrightarrow> 0 < k"
    "k \<le> 1 \<or> entries_bytes (take k (drop (read_from h c - h_first h) (h_entries h))) \<le> max_bytes"
proof -
  let ?from = "read_from h c"
  let ?es = "drop (?from - h_first h) (h_entries h)"
  let ?l = "u32_of_nat (missed_before h c)"
  have ge: "h_first h \<le> ?from" by (simp add: read_from_def)
  have m: "map he_event ?es = drop ?from evs"
    using assms ge by (simp add: history_ok_def drop_map [symmetric])
  then have len: "length ?es = length evs - ?from" by (metis length_drop length_map)
  obtain k where k: "k \<le> length ?es"
    "read_entries max_bytes ?es [] 0 ?l = (map he_event (take k ?es), lost_through ?l (take k ?es))"
    "?es \<noteq> [] \<longrightarrow> 0 < k" "k = 0 \<or> k = 1 \<or> entries_bytes (take k ?es) \<le> max_bytes"
    using read_entries_take [of ?es max_bytes "[]" 0 ?l] by auto
  have ev: "map he_event (take k ?es) = take k (drop ?from evs)" using m by (simp add: take_map [symmetric])
  have lk: "length (take k (drop ?from evs)) = k" using k(1) len by simp
  have z: "length evs \<le> ?from \<longrightarrow> k = 0" using k(1) len by auto
  have r: "read h c max_bytes =
      (\<lparr>cu_next = ?from + k, cu_started = True\<rparr>,
       if k = 0 \<and> lost_through ?l (take k ?es) = 0 \<and> cu_started c then None
       else Some \<lparr>eb_history_from = (if cu_started c then 0 else h_history_from h),
            eb_events = take k (drop ?from evs), eb_lost = lost_through ?l (take k ?es)\<rparr>)"
  proof (cases "cu_started c")
    case True
    show ?thesis
    proof (cases "cu_next c < h_first h")
      case b: True
      then have f: "?from = h_first h" "missed_before h c = h_first h - cu_next c"
        using True by (simp_all add: read_from_def missed_before_def)
      show ?thesis using True b k(2) ev lk z unfolding f by (cases c) (auto simp: read_def Let_def)
    next
      case b: False
      then have f: "?from = cu_next c" "missed_before h c = 0"
        using True by (simp_all add: read_from_def missed_before_def)
      show ?thesis using True b k(2) ev lk z unfolding f by (cases c) (auto simp: read_def Let_def)
    qed
  next
    case False
    then have f: "?from = h_first h" "missed_before h c = 0"
      by (simp_all add: read_from_def missed_before_def)
    show ?thesis using False k(2) ev lk z unfolding f by (cases c) (auto simp: read_def Let_def)
  qed
  show ?thesis
  proof (rule that [of k])
    show "?from + k \<le> max ?from (length evs)" using k(1) len by auto
    show "?from < length evs \<longrightarrow> 0 < k" using k(3) len by (metis length_greater_0_conv zero_less_diff)
    show "k \<le> 1 \<or> entries_bytes (take k ?es) \<le> max_bytes" using k(4) by auto
  qed (simp_all add: r Let_def)
qed

text \<open>What the kernel dropped before the entries a read takes.\<close>
definition kernel_dropped :: "entry list \<Rightarrow> nat" where
  "kernel_dropped es = sum_list (map (unat \<circ> he_lost_before) es)"

definition entries_read :: "history \<Rightarrow> cursor \<Rightarrow> nat \<Rightarrow> entry list" where
  "entries_read h c k = take k (drop (read_from h c - h_first h) (h_entries h))"

text \<open>
  One watcher beside the history: the place it began at, the oldest event held at its
  first read; what it has been sent, in order; the sum of the losses it was told; and
  what the kernel dropped before the events it was sent.
\<close>
inductive watch_reach ::
  "layout \<Rightarrow> history \<Rightarrow> process_event list \<Rightarrow> cursor \<Rightarrow> nat option \<Rightarrow> process_event list \<Rightarrow> nat \<Rightarrow> nat \<Rightarrow> bool"
  for ly where
  watch_new: "history_reach ly h evs \<Longrightarrow> watch_reach ly h evs cursor_default None [] 0 0"
| watch_push: "watch_reach ly h evs c began sent told dropped \<Longrightarrow> ev_time event \<noteq> - 1 \<Longrightarrow>
    watch_reach ly (push ly event now h) (evs @ [event]) c began sent told dropped"
| watch_lost: "watch_reach ly h evs c began sent told dropped \<Longrightarrow>
    watch_reach ly (kernel_lost n h) evs c began sent told dropped"
| watch_none: "watch_reach ly h evs c began sent told dropped \<Longrightarrow> read h c max_bytes = (c', None) \<Longrightarrow>
    watch_reach ly h evs c' began sent told dropped"
| watch_some: "watch_reach ly h evs c began sent told dropped \<Longrightarrow> read h c max_bytes = (c', Some batch) \<Longrightarrow>
    watch_reach ly h evs c' (if cu_started c then began else Some (h_first h)) (sent @ eb_events batch)
      (told + unat (eb_lost batch)) (dropped + kernel_dropped (entries_read h c (length (eb_events batch))))"

lemma watch_history: "watch_reach ly h evs c began sent told dropped \<Longrightarrow> history_reach ly h evs"
  by (induction rule: watch_reach.induct) (auto intro: history_reach.intros)

text \<open>The indices a watcher was sent, from where it began, and what it was told of the others.\<close>
definition accounted ::
    "process_event list \<Rightarrow> cursor \<Rightarrow> nat option \<Rightarrow> process_event list \<Rightarrow> nat \<Rightarrow> nat \<Rightarrow> bool" where
  "accounted evs c began sent told dropped \<longleftrightarrow>
    (if cu_started c
     then cu_next c \<le> length evs \<and>
       (\<exists>start indices. began = Some start \<and> sent = map ((!) evs) indices \<and> sorted_wrt (<) indices \<and>
         list_all (\<lambda>i. start \<le> i \<and> i < cu_next c) indices \<and>
         start + length sent \<le> cu_next c \<and> cu_next c - start - length sent \<le> told \<and>
         (length evs + dropped < 2 ^ 32 \<longrightarrow> told = cu_next c - start - length sent + dropped))
     else began = None \<and> sent = [] \<and> told = 0 \<and> dropped = 0)"

lemma accounted_grow: "accounted evs c began sent told dropped \<Longrightarrow> accounted (evs @ [event]) c began sent told dropped"
proof (cases "cu_started c")
  case True
  assume a: "accounted evs c began sent told dropped"
  then obtain start indices where i: "began = Some start" "sent = map ((!) evs) indices" "sorted_wrt (<) indices"
    "list_all (\<lambda>i. start \<le> i \<and> i < cu_next c) indices" "start + length sent \<le> cu_next c"
    "cu_next c - start - length sent \<le> told"
    "length evs + dropped < 2 ^ 32 \<longrightarrow> told = cu_next c - start - length sent + dropped" "cu_next c \<le> length evs"
    using True unfolding accounted_def by auto
  then have "sent = map ((!) (evs @ [event])) indices" by (auto simp: list_all_iff nth_append)
  then show ?thesis using i(1,3-) True unfolding accounted_def by (auto intro!: exI [of _ indices])
qed (simp add: accounted_def)

lemma lost_through_exact:
  "unat lost + kernel_dropped es < 2 ^ 32 \<Longrightarrow> unat (lost_through lost es) = unat lost + kernel_dropped es"
proof (induction es arbitrary: lost)
  case (Cons e es)
  have "unat lost + unat (he_lost_before e) < 2 ^ 32" using Cons.prems by (simp add: kernel_dropped_def)
  then have "unat (sat_add lost (he_lost_before e)) = unat lost + unat (he_lost_before e)"
    using unat_add_lem [of lost "he_lost_before e"] by (simp add: sat_add_def)
  then show ?case
    using Cons.IH [of "sat_add lost (he_lost_before e)"] Cons.prems by (simp add: kernel_dropped_def lost_through_def)
qed (simp add: lost_through_def kernel_dropped_def)

text \<open>What a read tells: the events let go since the last one, and what the kernel dropped before those it takes.\<close>
lemma unat_u32_of_nat: "n < 2 ^ 32 \<Longrightarrow> unat (u32_of_nat n) = n"
  by (simp add: u32_of_nat_def unat_of_nat take_bit_nat_eq_self)

lemma lost_told:
  assumes "n < 2 ^ 32"
  shows "n \<le> unat (lost_through (u32_of_nat n) es)"
    and "n + kernel_dropped es < 2 ^ 32 \<Longrightarrow> unat (lost_through (u32_of_nat n) es) = n + kernel_dropped es"
  using lost_through_ge [of "u32_of_nat n" es] lost_through_exact [of "u32_of_nat n" es] unat_u32_of_nat [OF assms]
  by (simp_all add: word_le_nat_alt)

lemma accounted_read:
  fixes h c max_bytes
  assumes a: "accounted evs c began sent told dropped" and ok: "history_ok h evs" and small: "length evs < 2 ^ 32"
  defines "events \<equiv> (case snd (read h c max_bytes) of None \<Rightarrow> [] | Some b \<Rightarrow> eb_events b)"
    and "lost \<equiv> (case snd (read h c max_bytes) of None \<Rightarrow> 0 | Some b \<Rightarrow> eb_lost b)"
  shows "accounted evs (fst (read h c max_bytes)) (if cu_started c then began else Some (h_first h))
    (sent @ events) (told + unat lost) (dropped + kernel_dropped (entries_read h c (length events)))"
proof -
  let ?from = "read_from h c"
  obtain k where k: "?from + k \<le> max ?from (length evs)"
    "fst (read h c max_bytes) = \<lparr>cu_next = ?from + k, cu_started = True\<rparr>"
    "snd (read h c max_bytes) =
      (let lost = lost_through (u32_of_nat (missed_before h c)) (entries_read h c k)
       in if k = 0 \<and> lost = 0 \<and> cu_started c then None
          else Some \<lparr>eb_history_from = (if cu_started c then 0 else h_history_from h),
            eb_events = take k (drop ?from evs), eb_lost = lost\<rparr>)"
    unfolding entries_read_def by (rule read_eq [OF ok])
  have first: "h_first h \<le> length evs" using ok by (simp add: history_ok_def)
  have fromle: "?from \<le> length evs" using a first by (auto simp: read_from_def accounted_def split: if_splits)
  then have to: "?from + k \<le> length evs" using k(1) fromle by simp
  have missed: "missed_before h c < 2 ^ 32" using first small by (auto simp: missed_before_def)
  have events: "events = map ((!) evs) [?from..<?from + k]"
    using to unfolding events_def k(3) by (auto simp: Let_def intro!: nth_equalityI)
  then have taken: "length events = k" by simp
  have lost: "lost = lost_through (u32_of_nat (missed_before h c)) (entries_read h c k)"
    unfolding lost_def k(3) by (auto simp: Let_def)
  note told = lost_told [OF missed, of "entries_read h c k", folded lost]
  define start where "start = (if cu_started c then the began else h_first h)"
  obtain indices where i: "(if cu_started c then began else Some (h_first h)) = Some start"
      "sent = map ((!) evs) indices" "sorted_wrt (<) indices" "list_all (\<lambda>i. start \<le> i \<and> i < ?from) indices"
      "start + length sent + missed_before h c \<le> ?from"
      "?from - start - length sent \<le> told + missed_before h c"
      "length evs + dropped < 2 ^ 32 \<longrightarrow> told + missed_before h c = ?from - start - length sent + dropped"
  proof (cases "cu_started c")
    case True
    then obtain indices where "began = Some start" "sent = map ((!) evs) indices" "sorted_wrt (<) indices"
        "list_all (\<lambda>i. start \<le> i \<and> i < cu_next c) indices" "start + length sent \<le> cu_next c"
        "cu_next c - start - length sent \<le> told"
        "length evs + dropped < 2 ^ 32 \<longrightarrow> told = cu_next c - start - length sent + dropped"
      using a by (auto simp: accounted_def start_def)
    moreover have "?from = cu_next c + missed_before h c" using True by (simp add: read_from_def missed_before_def)
    ultimately show ?thesis using True by (intro that [of indices]) (auto simp: list_all_iff)
  next
    case False
    then show ?thesis
      using a by (intro that [of "[]"]) (auto simp: accounted_def start_def read_from_def missed_before_def)
  qed
  have sorted: "sorted_wrt (<) (indices @ [?from..<?from + k])"
    using i(3,4) by (auto simp: sorted_wrt_append list_all_iff)
  have within: "list_all (\<lambda>j. start \<le> j \<and> j < ?from + k) (indices @ [?from..<?from + k])"
    using i(4,5) by (auto simp: list_all_iff)
  have exact: "told + unat lost = ?from + k - start - length (sent @ events) + (dropped + kernel_dropped (entries_read h c k))"
    if "length evs + (dropped + kernel_dropped (entries_read h c k)) < 2 ^ 32"
  proof -
    have "missed_before h c \<le> length evs" using first by (auto simp: missed_before_def)
    then have "unat lost = missed_before h c + kernel_dropped (entries_read h c k)" using told(2) that by simp
    then show ?thesis using i(5,7) that taken by simp
  qed
  show ?thesis
    unfolding k(2) accounted_def taken
    using sorted within exact to i(1,2,5,6) events taken told(1)
    by (auto intro!: exI [of _ "indices @ [?from..<?from + k]"])
qed

lemma watch_accounted:
  "watch_reach ly h evs c began sent told dropped \<Longrightarrow> length evs < 2 ^ 32 \<Longrightarrow>
    accounted evs c began sent told dropped"
proof (induction rule: watch_reach.induct)
  case (watch_new h evs)
  show ?case by (auto simp: accounted_def cursor_default_def)
next
  case (watch_push h evs c began sent told dropped event now)
  then show ?case using accounted_grow by simp
next
  case (watch_lost h evs c began sent told dropped n)
  then show ?case by simp
next
  case (watch_none h evs c began sent told dropped max_bytes c')
  then have "history_ok h evs" using watch_history history_reach_ok by blast
  moreover have "cu_started c" using watch_none(2) by (auto simp: read_def Let_def split: prod.splits if_splits)
  ultimately show ?case
    using accounted_read [of evs c began sent told dropped h max_bytes] watch_none
    by (simp add: entries_read_def kernel_dropped_def)
next
  case (watch_some h evs c began sent told dropped max_bytes c' batch)
  then have "history_ok h evs" using watch_history history_reach_ok by blast
  then show ?case using accounted_read [of evs c began sent told dropped h max_bytes] watch_some by simp
qed



text \<open>
  A read always moves on: while something is left it brings at least one
  event whatever its size and otherwise stays within the byte limit, and it
  answers nothing only to a watcher that has read everything.
\<close>
theorem reads_make_progress:
  assumes "history_reach ly h evs" "cu_started c \<longrightarrow> cu_next c \<le> length evs"
  shows "(snd (read h c max_bytes) = None \<longrightarrow> cu_started c \<and> cu_next c = length evs) \<and>
    (cu_started c \<and> cu_next c = length evs \<longrightarrow> snd (read h c max_bytes) = None) \<and>
    (read_from h c < length evs \<longrightarrow> read_from h c < cu_next (fst (read h c max_bytes))) \<and>
    cu_next (fst (read h c max_bytes)) \<le> length evs"
proof -
  have ok: "history_ok h evs" using history_reach_ok [OF assms(1)] by blast
  obtain k where k: "read_from h c + k \<le> max (read_from h c) (length evs)"
    "fst (read h c max_bytes) = \<lparr>cu_next = read_from h c + k, cu_started = True\<rparr>"
    "snd (read h c max_bytes) =
      (let lost = lost_through (u32_of_nat (missed_before h c))
             (take k (drop (read_from h c - h_first h) (h_entries h)))
       in if k = 0 \<and> lost = 0 \<and> cu_started c then None
          else Some \<lparr>eb_history_from = (if cu_started c then 0 else h_history_from h),
            eb_events = take k (drop (read_from h c) evs), eb_lost = lost\<rparr>)"
    "read_from h c < length evs \<longrightarrow> 0 < k"
    by (rule read_eq [OF ok])
  have first: "h_first h \<le> length evs" using ok by (simp add: history_ok_def)
  then have fromle: "read_from h c \<le> length evs" using assms(2) by (auto simp: read_from_def)
  have lost0: "missed_before h c = 0" if "lost_through (u32_of_nat (missed_before h c)) es = 0" for es
    using lost_through_ge [of "u32_of_nat (missed_before h c)" es] that u32_of_nat_eq_0
    by (metis word_le_0_iff)
  have none: "cu_started c \<and> cu_next c = length evs" if "snd (read h c max_bytes) = None"
  proof -
    have n: "k = 0" "cu_started c" "missed_before h c = 0"
      using that lost0 unfolding k(3) by (auto simp: Let_def split: if_splits)
    then have "read_from h c = cu_next c" by (simp add: read_from_def missed_before_def)
    moreover have "\<not> read_from h c < length evs" using k(4) n(1) by blast
    ultimately show ?thesis using n(2) fromle by simp
  qed
  have "snd (read h c max_bytes) = None" if e: "cu_started c" "cu_next c = length evs"
  proof -
    have "read_from h c = length evs" "missed_before h c = 0"
      using e first by (simp_all add: read_from_def missed_before_def)
    moreover have "k = 0" using k(1) calculation(1) by simp
    ultimately show ?thesis using e unfolding k(3) by (simp add: lost_through_def)
  qed
  then show ?thesis using none k(1,2,4) fromle by auto
qed

theorem reads_make_progress_witness:
  "cu_next (fst (read three_exits cursor_default 10)) \<le> 3 \<and> 1 < cu_next (fst (read three_exits cursor_default 10))"
proof -
  have f: "read_from three_exits cursor_default = 1"
    by (simp add: read_from_def cursor_default_def three_exits_def push_def history_new_def exit_of_def
        plain_layout_def sat_sub_def let_go.simps Let_def)
  show ?thesis
    using reads_make_progress [OF three_exits_reach, of cursor_default 10] f by (simp add: cursor_default_def)
qed

text \<open>
  What the kernel dropped before an event is told with that event only: when
  the event is let go before a watcher reads it, the watcher is told of the
  event and not of what the kernel dropped before it.
\<close>
definition lost_with_evicted :: history where
  "lost_with_evicted = push plain_layout (exit_of 3 30) 30 (push plain_layout (exit_of 2 20) 20
    (push plain_layout (exit_of 1 10) 10 (kernel_lost 7 (history_new 5 1000 300))))"

lemma kernel_losses_go_with_the_entry:
  "snd (read lost_with_evicted \<lparr>cu_next = 0, cu_started = True\<rparr> 1000) =
    Some \<lparr>eb_history_from = 0, eb_events = [exit_of 2 20, exit_of 3 30], eb_lost = 1\<rparr>"
  by (simp add: lost_with_evicted_def read_def kernel_lost_def push_def history_new_def exit_of_def
      plain_layout_def sat_sub_def sat_add_def u32_of_nat_def let_go.simps Let_def)

end
