(* ===== verification/Assembler.thy ===== *)
theory Assembler
  imports History "HOL-Library.Product_Lexorder"
begin

text \<open>
  \<^verbatim>\<open>crates/core/src/process_events/assemble.rs\<close>: a start is put together from
  events of different ETW sessions (the instance, its command line, the task
  that created it), and events are let out in order of time once every half
  had time to come. What the machine answers as an event goes out (the Win32
  path of an image, the account of a SID, the services of a process) is a
  record of functions.
\<close>

section \<open>Halves\<close>

definition SECOND :: u64 where
  "SECOND = 10000000"

definition PAIRED_WITHIN :: u64 where
  "PAIRED_WITHIN = SECOND"

definition WAITS_AT_MOST :: u64 where
  "WAITS_AT_MOST = SECOND + SECOND div 4"

record created =
  cr_pid :: u32
  cr_sequence_number :: u64
  cr_time :: u64
  cr_parent_pid :: u32
  cr_parent_sequence_number :: u64
  cr_session_id :: u32
  cr_image :: string
  cr_elevated :: "bool option"
  cr_package_full_name :: string
  cr_working_directory :: string

record launched =
  la_pid :: u32
  la_time :: u64
  la_sid :: "u8 list"
  la_command_line :: string

record scheduled =
  sc_pid :: u32
  sc_time :: u64
  sc_task :: string

record ended =
  en_pid :: u32
  en_sequence_number :: u64
  en_time :: u64
  en_exited :: process_exited

datatype raw = Created created | Launched launched | Scheduled scheduled | Ended ended

record resolve =
  rs_image_path :: "string \<Rightarrow> string"
  rs_user :: "u8 list \<Rightarrow> string"
  rs_parent_services :: "u32 \<Rightarrow> string list"

text \<open>\<^verbatim>\<open>Pending::Start { created, launched, task, services }\<close> and \<^verbatim>\<open>Pending::Exit\<close>\<close>
datatype pending =
  Start created "launched option" string "string list option" | Exit ended

record assembler =
  as_pending :: "pending list"
  as_launched :: "launched list"
  as_scheduled :: "scheduled list"
  as_went :: "(u32 \<times> u64 \<times> u64) list"

definition assembler_default :: assembler where
  "assembler_default = \<lparr>as_pending = [], as_launched = [], as_scheduled = [], as_went = []\<rparr>"

fun pending_order :: "pending \<Rightarrow> u64 \<times> u8" where
  "pending_order (Start c _ _ _) = (cr_time c, 0)"
| "pending_order (Exit e) = (en_time e, 1)"

fun into_event :: "resolve \<Rightarrow> pending \<Rightarrow> process_event" where
  "into_event rs (Start c l task services) =
    \<lparr>ev_pid = cr_pid c, ev_sequence_number = cr_sequence_number c, ev_time = cr_time c,
     ev_kind = Started
       \<lparr>st_parent_pid = cr_parent_pid c, st_parent_sequence_number = cr_parent_sequence_number c,
        st_session_id = cr_session_id c, st_image_path = rs_image_path rs (cr_image c),
        st_command_line = (case l of Some l \<Rightarrow> la_command_line l | None \<Rightarrow> ''''),
        st_user = (case l of Some l \<Rightarrow> rs_user rs (la_sid l) | None \<Rightarrow> ''''),
        st_elevated = cr_elevated c, st_package_full_name = cr_package_full_name c,
        st_working_directory = cr_working_directory c, st_scheduled_task = task,
        st_parent_services =
          (case services of Some s \<Rightarrow> s | None \<Rightarrow> rs_parent_services rs (cr_parent_pid c))\<rparr>\<rparr>"
| "into_event rs (Exit e) =
    \<lparr>ev_pid = en_pid e, ev_sequence_number = en_sequence_number e, ev_time = en_time e,
     ev_kind = Exited (en_exited e)\<rparr>"

section \<open>Pairing\<close>

text \<open>\<^verbatim>\<open>u64::abs_diff\<close>\<close>
definition abs_diff :: "u64 \<Rightarrow> u64 \<Rightarrow> u64" where
  "abs_diff a b = (if a < b then b - a else a - b)"

definition near :: "u64 \<Rightarrow> u64 \<Rightarrow> bool" where
  "near a b \<longleftrightarrow> abs_diff a b \<le> PAIRED_WITHIN"

text \<open>\<^verbatim>\<open>min_by_key\<close> over what a \<^verbatim>\<open>filter_map\<close> lets through: the first of the least.\<close>
fun nearest_index :: "('a \<Rightarrow> u64 option) \<Rightarrow> 'a list \<Rightarrow> (nat \<times> u64) option" where
  "nearest_index distance [] = None"
| "nearest_index distance (x # xs) =
    (let rest = map_option (\<lambda>(i, d). (Suc i, d)) (nearest_index distance xs)
     in case distance x of
          None \<Rightarrow> rest
        | Some d \<Rightarrow>
            (case rest of
               None \<Rightarrow> Some (0, d)
             | Some (j, d') \<Rightarrow> if d' < d then Some (j, d') else Some (0, d)))"

definition half_distance :: "('h \<Rightarrow> u32) \<Rightarrow> ('h \<Rightarrow> u64) \<Rightarrow> u32 \<Rightarrow> u64 \<Rightarrow> 'h \<Rightarrow> u64 option" where
  "half_distance pid_of time_of pid time h =
    (if pid_of h = pid \<and> near (time_of h) time then Some (abs_diff (time_of h) time) else None)"

definition take_nearest ::
  "('h \<Rightarrow> u32) \<Rightarrow> ('h \<Rightarrow> u64) \<Rightarrow> u32 \<Rightarrow> u64 \<Rightarrow> 'h list \<Rightarrow> 'h option \<times> 'h list" where
  "take_nearest pid_of time_of pid time halves =
    (case nearest_index (half_distance pid_of time_of pid time) halves of
       None \<Rightarrow> (None, halves)
     | Some (i, _) \<Rightarrow> (Some (halves ! i), swap_remove halves i))"

fun start_distance ::
  "(launched option \<Rightarrow> string \<Rightarrow> bool) \<Rightarrow> u32 \<Rightarrow> u64 \<Rightarrow> pending \<Rightarrow> u64 option" where
  "start_distance opened pid time (Start c l task services) =
    (if cr_pid c = pid \<and> near (cr_time c) time \<and> opened l task
     then Some (abs_diff (cr_time c) time) else None)"
| "start_distance opened pid time (Exit e) = None"

definition nearest_start ::
  "(launched option \<Rightarrow> string \<Rightarrow> bool) \<Rightarrow> u32 \<Rightarrow> u64 \<Rightarrow> assembler \<Rightarrow> nat option" where
  "nearest_start opened pid time a =
    map_option fst (nearest_index (start_distance opened pid time) (as_pending a))"

fun set_launched :: "launched \<Rightarrow> pending \<Rightarrow> pending" where
  "set_launched half (Start c l task services) = Start c (Some half) task services"
| "set_launched half (Exit e) = Exit e"

fun set_task :: "string \<Rightarrow> pending \<Rightarrow> pending" where
  "set_task t (Start c l task services) = Start c l t services"
| "set_task t (Exit e) = Exit e"

text \<open>\<^verbatim>\<open>Assembler::add\<close>\<close>
fun add :: "raw \<Rightarrow> assembler \<Rightarrow> assembler" where
  "add (Created c) a =
    (let (l, launched) = take_nearest la_pid la_time (cr_pid c) (cr_time c) (as_launched a);
         (s, scheduled) = take_nearest sc_pid sc_time (cr_pid c) (cr_time c) (as_scheduled a);
         task = (case s of Some s \<Rightarrow> sc_task s | None \<Rightarrow> '''')
     in a\<lparr>as_launched := launched, as_scheduled := scheduled,
          as_pending := as_pending a @ [Start c l task None]\<rparr>)"
| "add (Launched half) a =
    (case nearest_start (\<lambda>l _. l = None) (la_pid half) (la_time half) a of
       Some i \<Rightarrow> a\<lparr>as_pending := (as_pending a)[i := set_launched half (as_pending a ! i)]\<rparr>
     | None \<Rightarrow> a\<lparr>as_launched := as_launched a @ [half]\<rparr>)"
| "add (Scheduled half) a =
    (case nearest_start (\<lambda>_ task. task = '''') (sc_pid half) (sc_time half) a of
       Some i \<Rightarrow> a\<lparr>as_pending := (as_pending a)[i := set_task (sc_task half) (as_pending a ! i)]\<rparr>
     | None \<Rightarrow> a\<lparr>as_scheduled := as_scheduled a @ [half]\<rparr>)"
| "add (Ended e) a = a\<lparr>as_pending := as_pending a @ [Exit e]\<rparr>"

section \<open>Release\<close>

definition waited :: "u64 \<Rightarrow> u64 \<Rightarrow> bool" where
  "waited now time \<longleftrightarrow> sat_add time WAITS_AT_MOST \<le> now"

text \<open>Whether a start is due, with the services asked for on the way.\<close>
definition start_due ::
  "resolve \<Rightarrow> u64 \<Rightarrow> created \<Rightarrow> launched option \<Rightarrow> string \<Rightarrow> string list option \<Rightarrow> bool \<times> string list option"
  where
  "start_due rs now c l task services =
    (if waited now (cr_time c) then (True, services)
     else if l = None then (False, services)
     else if task \<noteq> '''' then (True, services)
     else let names = (case services of Some s \<Rightarrow> s | None \<Rightarrow> rs_parent_services rs (cr_parent_pid c))
          in (''Schedule'' \<notin> set names, Some names))"

text \<open>What the loop of \<^verbatim>\<open>release\<close> keeps: starts held, starts gone out, what stays, what goes.\<close>
record releasing =
  rl_held :: "(u32 \<times> u64) list"
  rl_went :: "(u32 \<times> u64 \<times> u64) list"
  rl_kept :: "pending list"
  rl_events :: "process_event list"

fun release_step :: "resolve \<Rightarrow> u64 \<Rightarrow> pending \<Rightarrow> releasing \<Rightarrow> releasing" where
  "release_step rs now (Start c l task services) r =
    (let (due, services) = start_due rs now c l task services;
         p = Start c l task services
     in if due
        then r\<lparr>rl_went := rl_went r @ [(cr_pid c, cr_sequence_number c, cr_time c)],
               rl_events := rl_events r @ [into_event rs p]\<rparr>
        else r\<lparr>rl_held := rl_held r @ [(cr_pid c, cr_sequence_number c)], rl_kept := rl_kept r @ [p]\<rparr>)"
| "release_step rs now (Exit e) r =
    (let inst = (en_pid e, en_sequence_number e);
         due = inst \<notin> set (rl_held r) \<and>
           (waited now (ex_start_time (en_exited e)) \<or>
            inst \<in> (\<lambda>(pid, n, _). (pid, n)) ` set (rl_went r))
     in if due then r\<lparr>rl_events := rl_events r @ [into_event rs (Exit e)]\<rparr>
        else r\<lparr>rl_kept := rl_kept r @ [Exit e]\<rparr>)"

definition half_open :: "u64 \<Rightarrow> u64 \<Rightarrow> bool" where
  "half_open now time \<longleftrightarrow> now < time + PAIRED_WITHIN + WAITS_AT_MOST"

text \<open>\<^verbatim>\<open>Assembler::release\<close>\<close>
definition assembler_release :: "u64 \<Rightarrow> resolve \<Rightarrow> assembler \<Rightarrow> assembler \<times> process_event list" where
  "assembler_release now rs a =
    (let r = fold (release_step rs now) (sort_key pending_order (as_pending a))
           \<lparr>rl_held = [], rl_went = as_went a, rl_kept = [], rl_events = []\<rparr>
     in (\<lparr>as_pending = rl_kept r,
          as_launched = filter (\<lambda>h. half_open now (la_time h)) (as_launched a),
          as_scheduled = filter (\<lambda>h. half_open now (sc_time h)) (as_scheduled a),
          as_went = filter (\<lambda>(_, _, time). \<not> waited now time) (rl_went r)\<rparr>,
         rl_events r))"

section \<open>What goes out\<close>

text \<open>What an event is, whatever it tells: a start or an exit, of whom, when.\<close>
fun pending_key :: "pending \<Rightarrow> bool \<times> u32 \<times> u64 \<times> u64" where
  "pending_key (Start c _ _ _) = (True, cr_pid c, cr_sequence_number c, cr_time c)"
| "pending_key (Exit e) = (False, en_pid e, en_sequence_number e, en_time e)"

definition event_key :: "process_event \<Rightarrow> bool \<times> u32 \<times> u64 \<times> u64" where
  "event_key e =
    ((case ev_kind e of Started _ \<Rightarrow> True | Exited _ \<Rightarrow> False), ev_pid e, ev_sequence_number e, ev_time e)"

definition event_order :: "process_event \<Rightarrow> u64 \<times> u8" where
  "event_order e = (ev_time e, case ev_kind e of Started _ \<Rightarrow> 0 | Exited _ \<Rightarrow> 1)"

lemma into_event_key [simp]: "event_key (into_event rs p) = pending_key p"
  by (cases p) (simp_all add: event_key_def)

lemma into_event_order [simp]: "event_order (into_event rs p) = pending_order p"
  by (cases p) (simp_all add: event_order_def)

text \<open>One pending event either goes out or stays, as itself.\<close>
lemma release_step_cases:
  obtains p' where "pending_key p' = pending_key p" "pending_order p' = pending_order p"
    "rl_events (release_step rs now p r) = rl_events r @ [into_event rs p']"
    "rl_kept (release_step rs now p r) = rl_kept r" "rl_held (release_step rs now p r) = rl_held r"
  | p' where "pending_key p' = pending_key p" "pending_order p' = pending_order p"
    "rl_events (release_step rs now p r) = rl_events r"
    "rl_kept (release_step rs now p r) = rl_kept r @ [p']"
proof (cases p)
  case (Start c l task services)
  obtain due services' where d: "start_due rs now c l task services = (due, services')" by force
  show ?thesis
    using that(1) [of "Start c l task services'"] that(2) [of "Start c l task services'"]
    by (cases due) (simp_all add: Start d Let_def)
next
  case (Exit e)
  show ?thesis
    using that(1) [of "Exit e"] that(2) [of "Exit e"]
    by (cases "(en_pid e, en_sequence_number e) \<notin> set (rl_held r) \<and>
        (waited now (ex_start_time (en_exited e)) \<or>
         (en_pid e, en_sequence_number e) \<in> (\<lambda>(pid, n, _). (pid, n)) ` set (rl_went r))")
      (simp_all add: Exit Let_def)
qed

lemma release_conserves:
  "mset (map event_key (rl_events (fold (release_step rs now) ps r))) +
   mset (map pending_key (rl_kept (fold (release_step rs now) ps r))) =
   mset (map event_key (rl_events r)) + mset (map pending_key (rl_kept r)) + mset (map pending_key ps)"
proof (induction ps arbitrary: r)
  case (Cons p ps)
  show ?case
    by (rule release_step_cases [of p rs now r])
      (use Cons.IH [of "release_step rs now p r"] in simp_all)
qed simp

lemma release_ordered:
  "sorted (map event_order (rl_events r) @ map pending_order ps) \<Longrightarrow>
    sorted (map event_order (rl_events (fold (release_step rs now) ps r)))"
proof (induction ps arbitrary: r)
  case Nil
  then show ?case by simp
next
  case (Cons p ps)
  show ?case
  proof (rule release_step_cases [of p rs now r])
    fix p'
    assume "pending_order p' = pending_order p"
      "rl_events (release_step rs now p r) = rl_events r @ [into_event rs p']"
    then show ?thesis using Cons by simp
  next
    assume "rl_events (release_step rs now p r) = rl_events r"
    then show ?thesis using Cons by (simp add: sorted_append)
  qed
qed

text \<open>A start or an exit of this instance.\<close>
definition is_start_of :: "u32 \<times> u64 \<Rightarrow> pending \<Rightarrow> bool" where
  "is_start_of inst p \<longleftrightarrow> (\<exists>time. pending_key p = (True, fst inst, snd inst, time))"

definition is_exit_of :: "u32 \<times> u64 \<Rightarrow> process_event \<Rightarrow> bool" where
  "is_exit_of inst e \<longleftrightarrow> (\<exists>time. event_key e = (False, fst inst, snd inst, time))"

lemma kept_subset:
  "pending_key ` set (rl_kept (fold (release_step rs now) ps r)) \<subseteq>
    pending_key ` set (rl_kept r) \<union> pending_key ` set ps"
proof (induction ps arbitrary: r)
  case (Cons p ps)
  show ?case
    by (rule release_step_cases [of p rs now r]) (use Cons.IH [of "release_step rs now p r"] in auto)
qed simp

text \<open>A kept start is held, and no exit goes out past a held start.\<close>
definition starts_held :: "releasing \<Rightarrow> bool" where
  "starts_held r \<longleftrightarrow>
    (\<forall>inst. (\<exists>p \<in> set (rl_kept r). is_start_of inst p) \<longleftrightarrow> inst \<in> set (rl_held r))"

lemma starts_held_step: "starts_held r \<Longrightarrow> starts_held (release_step rs now p r)"
proof (cases p)
  case (Start c l task services)
  assume "starts_held r"
  then show ?thesis
    by (cases "start_due rs now c l task services") (auto simp: Start starts_held_def is_start_of_def Let_def)
next
  case (Exit e)
  assume "starts_held r"
  then show ?thesis by (auto simp: Exit starts_held_def is_start_of_def Let_def)
qed

lemma starts_held_fold: "starts_held r \<Longrightarrow> starts_held (fold (release_step rs now) ps r)"
  by (induction ps arbitrary: r) (simp_all add: starts_held_step)

lemma held_grows: "set (rl_held r) \<subseteq> set (rl_held (release_step rs now p r))"
  by (cases p) (auto simp: Let_def split: prod.splits)

text \<open>
  Exits in the list come after the starts of their instance: then an exit that
  went out has no start left behind.
\<close>
lemma no_exit_before_start:
  assumes "starts_held r"
    and "\<And>inst. \<exists>e \<in> set (rl_events r). is_exit_of inst e \<Longrightarrow>
      inst \<notin> set (rl_held r) \<and> (\<forall>p \<in> set ps. \<not> is_start_of inst p)"
    and "sorted_wrt (\<lambda>p q. \<forall>inst. is_start_of inst q \<longrightarrow> pending_key p \<notin> {(False, fst inst, snd inst, t) | t. True}) ps"
    and "e \<in> set (rl_events (fold (release_step rs now) ps r))" "is_exit_of inst e"
  shows "inst \<notin> set (rl_held (fold (release_step rs now) ps r))"
  using assms
proof (induction ps arbitrary: r)
  case Nil
  then have "\<exists>e \<in> set (rl_events r). is_exit_of inst e" by auto
  then show ?case using Nil.prems(2) by simp
next
  case (Cons p ps)
  let ?r = "release_step rs now p r"
  have held: "starts_held ?r" using Cons.prems(1) by (rule starts_held_step)
  have later: "\<not> is_start_of inst q" if "q \<in> set ps" "pending_key p = (False, fst inst, snd inst, t)" for q inst t
    using Cons.prems(3) that unfolding sorted_wrt.simps by blast
  have "inst \<notin> set (rl_held ?r) \<and> (\<forall>q \<in> set ps. \<not> is_start_of inst q)"
    if ex: "\<exists>e \<in> set (rl_events ?r). is_exit_of inst e" for inst
  proof (cases "\<exists>e \<in> set (rl_events r). is_exit_of inst e")
    case True
    then have old: "inst \<notin> set (rl_held r)" "\<forall>q \<in> set (p # ps). \<not> is_start_of inst q"
      using Cons.prems(2) by blast+
    then have "inst \<notin> set (rl_held ?r)"
    proof (cases p)
      case (Start c l task services)
      then have "inst \<noteq> (cr_pid c, cr_sequence_number c)" using old(2) by (auto simp: is_start_of_def)
      then show ?thesis using old(1) Start by (auto simp: Let_def split: prod.splits)
    next
      case (Exit e)
      then show ?thesis using old(1) by (auto simp: Let_def)
    qed
    then show ?thesis using old(2) by auto
  next
    case False
    show ?thesis
    proof (cases p)
      case (Start c l task services)
      then have "set (rl_events ?r) \<subseteq> insert (into_event rs (Start c l task (snd (start_due rs now c l task services)))) (set (rl_events r))"
        by (auto simp: Let_def split: prod.splits)
      then show ?thesis using ex False by (auto simp: is_exit_of_def event_key_def)
    next
      case (Exit e)
      have "\<exists>x \<in> set (rl_events ?r). is_exit_of inst x \<and> x \<notin> set (rl_events r)" using ex False by blast
      then have i: "inst = (en_pid e, en_sequence_number e)" "inst \<notin> set (rl_held r)"
        by (auto simp: Exit Let_def is_exit_of_def event_key_def split: if_splits)
      then have "inst \<notin> set (rl_held ?r)" by (auto simp: Exit Let_def)
      moreover have "\<not> is_start_of inst q" if "q \<in> set ps" for q
        using later [OF that, of inst "en_time e"] i(1) by (simp add: Exit)
      ultimately show ?thesis by blast
    qed
  qed
  moreover have "sorted_wrt (\<lambda>p q. \<forall>inst. is_start_of inst q \<longrightarrow> pending_key p \<notin> {(False, fst inst, snd inst, t) | t. True}) ps"
    using Cons.prems(3) by simp
  ultimately show ?case using Cons.IH [OF held] Cons.prems(4,5) by simp
qed

text \<open>Nobody exits before it started, by the events' own times.\<close>
definition starts_precede :: "pending list \<Rightarrow> bool" where
  "starts_precede ps \<longleftrightarrow>
    (\<forall>p \<in> set ps. \<forall>q \<in> set ps. \<forall>inst t. is_start_of inst p \<longrightarrow> pending_key q = (False, fst inst, snd inst, t) \<longrightarrow>
      fst (pending_order p) \<le> fst (pending_order q))"

lemma sorted_starts_first:
  assumes "starts_precede ps"
  shows "sorted_wrt (\<lambda>p q. \<forall>inst. is_start_of inst q \<longrightarrow> pending_key p \<notin> {(False, fst inst, snd inst, t) | t. True})
    (sort_key pending_order ps)"
proof (rule sorted_wrt_mono_rel [where P = "\<lambda>p q. pending_order p \<le> pending_order q"])
  show "sorted_wrt (\<lambda>p q. pending_order p \<le> pending_order q) (sort_key pending_order ps)"
    using sorted_sort_key [of pending_order ps] by (simp add: sorted_map)
  fix p q
  assume pq: "p \<in> set (sort_key pending_order ps)" "q \<in> set (sort_key pending_order ps)"
    "pending_order p \<le> pending_order q"
  show "\<forall>inst. is_start_of inst q \<longrightarrow> pending_key p \<notin> {(False, fst inst, snd inst, t) | t. True}"
  proof (intro allI impI notI)
    fix inst
    assume s: "is_start_of inst q" and e: "pending_key p \<in> {(False, fst inst, snd inst, t) | t. True}"
    then obtain t where "pending_key p = (False, fst inst, snd inst, t)" by blast
    then have "fst (pending_order q) \<le> fst (pending_order p)"
      using assms [unfolded starts_precede_def, rule_format, of q p inst t] pq s by (simp add: set_sort)
    moreover obtain x where "p = Exit x" using e by (cases p) auto
    moreover obtain c l task services where "q = Start c l task services"
      using s by (cases q) (auto simp: is_start_of_def)
    ultimately show False using pq(3) by (auto simp: less_eq_prod_def)
  qed
qed

text \<open>What is kept has not waited out its time, unless it is an exit behind its held start.\<close>
definition still_waiting :: "u64 \<Rightarrow> (u32 \<times> u64) list \<Rightarrow> pending \<Rightarrow> bool" where
  "still_waiting now held p =
    (case p of
       Start c _ _ _ \<Rightarrow> \<not> waited now (cr_time c)
     | Exit e \<Rightarrow> \<not> waited now (ex_start_time (en_exited e)) \<or> (en_pid e, en_sequence_number e) \<in> set held)"

lemma still_waiting_mono:
  "set held \<subseteq> set held' \<Longrightarrow> still_waiting now held p \<Longrightarrow> still_waiting now held' p"
  by (auto simp: still_waiting_def split: pending.splits)

lemma still_waiting_step:
  assumes "list_all (still_waiting now (rl_held r)) (rl_kept r)"
  shows "list_all (still_waiting now (rl_held (release_step rs now p r))) (rl_kept (release_step rs now p r))"
proof -
  have old: "list_all (still_waiting now (rl_held (release_step rs now p r))) (rl_kept r)"
    using assms held_grows [of r rs now p] still_waiting_mono unfolding list_all_iff by blast
  show ?thesis
  proof (cases p)
    case (Start c l task services)
    then show ?thesis
      using old by (auto simp: Let_def still_waiting_def start_due_def split: prod.splits if_splits)
  next
    case (Exit e)
    then show ?thesis
      using old by (auto simp: Let_def still_waiting_def split: if_splits)
  qed
qed

lemma still_waiting_fold:
  "list_all (still_waiting now (rl_held r)) (rl_kept r) \<Longrightarrow>
    list_all (still_waiting now (rl_held (fold (release_step rs now) ps r)))
      (rl_kept (fold (release_step rs now) ps r))"
  by (induction ps arbitrary: r) (simp_all add: still_waiting_step)

definition releasing_start :: "assembler \<Rightarrow> releasing" where
  "releasing_start a = \<lparr>rl_held = [], rl_went = as_went a, rl_kept = [], rl_events = []\<rparr>"

lemma assembler_release_fold:
  "snd (assembler_release now rs a) =
    rl_events (fold (release_step rs now) (sort_key pending_order (as_pending a)) (releasing_start a))"
  "as_pending (fst (assembler_release now rs a)) =
    rl_kept (fold (release_step rs now) (sort_key pending_order (as_pending a)) (releasing_start a))"
  by (simp_all add: assembler_release_def releasing_start_def Let_def)


lemma release_leaves_waiting:
  "list_all (\<lambda>p. case p of
      Start c _ _ _ \<Rightarrow> \<not> waited now (cr_time c)
    | Exit e \<Rightarrow> \<not> waited now (ex_start_time (en_exited e)) \<or>
        (\<exists>q \<in> set (as_pending (fst (assembler_release now rs a))).
          is_start_of (en_pid e, en_sequence_number e) q))
    (as_pending (fst (assembler_release now rs a)))"
proof -
  let ?r = "fold (release_step rs now) (sort_key pending_order (as_pending a)) (releasing_start a)"
  have r: "rl_kept (releasing_start a) = []" "starts_held (releasing_start a)"
    by (simp_all add: releasing_start_def starts_held_def)
  have "list_all (still_waiting now (rl_held ?r)) (rl_kept ?r)"
    by (rule still_waiting_fold) (simp add: r)
  moreover have "inst \<in> set (rl_held ?r) \<longleftrightarrow> (\<exists>p \<in> set (rl_kept ?r). is_start_of inst p)" for inst
    using starts_held_fold [OF r(2), of rs now] unfolding starts_held_def by blast
  ultimately show ?thesis
    unfolding assembler_release_fold list_all_iff still_waiting_def by (auto split: pending.splits)
qed

lemma release_empties: "as_pending (fst (assembler_release (- 1) rs a)) = []"
proof -
  let ?kept = "as_pending (fst (assembler_release (- 1) rs a))"
  have all: "waited (- 1) t" for t by (simp add: waited_def)
  note left = release_leaves_waiting [of "- 1" rs a, unfolded list_all_iff]
  have "\<not> is_start_of inst p" if "p \<in> set ?kept" for inst p
    using left that all by (cases p) (auto simp: is_start_of_def)
  then have "p \<notin> set ?kept" for p
    using left all by (cases p) auto
  then show ?thesis by (meson list.set_sel(1))
qed

text \<open>
  Nothing waits longer than the bound: after a release every start left
  was created within it, and every exit left either belongs to a process
  created within it or follows a start that is itself still held; and the last
  release, at the end of time, leaves nothing behind.
\<close>
theorem release_is_bounded:
  "list_all (\<lambda>p. case p of
      Start c _ _ _ \<Rightarrow> \<not> waited now (cr_time c)
    | Exit e \<Rightarrow> \<not> waited now (ex_start_time (en_exited e)) \<or>
        (\<exists>q \<in> set (as_pending (fst (assembler_release now rs a))).
          is_start_of (en_pid e, en_sequence_number e) q))
    (as_pending (fst (assembler_release now rs a))) \<and>
   as_pending (fst (assembler_release (- 1) rs a)) = []"
  using release_leaves_waiting release_empties by blast

definition created_at :: "u32 \<Rightarrow> u64 \<Rightarrow> created" where
  "created_at pid time =
    \<lparr>cr_pid = pid, cr_sequence_number = 1, cr_time = time, cr_parent_pid = 4, cr_parent_sequence_number = 1,
     cr_session_id = 0, cr_image = '''', cr_elevated = None, cr_package_full_name = '''',
     cr_working_directory = ''''\<rparr>"

definition ended_at :: "u32 \<Rightarrow> u64 \<Rightarrow> u64 \<Rightarrow> ended" where
  "ended_at pid start time =
    \<lparr>en_pid = pid, en_sequence_number = 1, en_time = time,
     en_exited = process_exited_default\<lparr>ex_start_time := start\<rparr>\<rparr>"

definition plain_resolve :: resolve where
  "plain_resolve = \<lparr>rs_image_path = id, rs_user = (\<lambda>_. ''''), rs_parent_services = (\<lambda>_. [])\<rparr>"

text \<open>An exit read before its start, which no command line has joined.\<close>
definition exit_first :: assembler where
  "exit_first = add (Created (created_at 8 100)) (add (Ended (ended_at 8 100 200)) assembler_default)"

lemma exit_first_pending:
  "as_pending exit_first = [Exit (ended_at 8 100 200), Start (created_at 8 100) None '''' None]"
  by (simp add: exit_first_def assembler_default_def take_nearest_def)


theorem release_is_bounded_witness:
  "as_pending (fst (assembler_release (- 1) plain_resolve exit_first)) = []"
  using release_is_bounded [of 15000000 plain_resolve exit_first] by blast

section \<open>Halves join whichever comes first\<close>

lemma nearest_index_none: "list_all (\<lambda>x. f x = None) xs \<Longrightarrow> nearest_index f xs = None"
  by (induction xs) simp_all

lemma nearest_index_last:
  "list_all (\<lambda>x. f x = None) xs \<Longrightarrow> f x = Some d \<Longrightarrow> nearest_index f (xs @ [x]) = Some (length xs, d)"
  by (induction xs) simp_all

lemma abs_diff_commute: "abs_diff a b = abs_diff b a"
  by (auto simp: abs_diff_def)

lemma add_launched_at:
  "nearest_start (\<lambda>l _. l = None) (la_pid half) (la_time half) a = Some i \<Longrightarrow>
    add (Launched half) a = a\<lparr>as_pending := (as_pending a)[i := set_launched half (as_pending a ! i)]\<rparr>"
  by simp

text \<open>No other half or start of this pid is near this time.\<close>
definition alone :: "u32 \<Rightarrow> u64 \<Rightarrow> assembler \<Rightarrow> bool" where
  "alone pid time a \<longleftrightarrow>
    list_all (\<lambda>l. half_distance la_pid la_time pid time l = None) (as_launched a) \<and>
    list_all (\<lambda>p. start_distance (\<lambda>_ _. True) pid time p = None) (as_pending a)"

lemma start_distance_mono:
  "start_distance (\<lambda>_ _. True) pid time p = None \<Longrightarrow> start_distance opened pid time p = None"
  by (cases p) (auto split: if_splits)

text \<open>
  The command line joins its start whichever of the two events is read
  first: for a pid with nothing else near, both orders lead to the same state,
  in which the start holds the command line and no half is left over.
\<close>
theorem halves_join_in_either_order:
  assumes "la_pid l = cr_pid c" "near (la_time l) (cr_time c)"
    "alone (cr_pid c) (cr_time c) a" "alone (cr_pid c) (la_time l) a"
  shows "add (Launched l) (add (Created c) a) = add (Created c) (add (Launched l) a) \<and>
    (\<exists>task. as_pending (add (Created c) (add (Launched l) a)) = as_pending a @ [Start c (Some l) task None]) \<and>
    as_launched (add (Created c) (add (Launched l) a)) = as_launched a"
proof -
  let ?d = "half_distance la_pid la_time (cr_pid c) (cr_time c)"
  obtain s scheduled where s: "take_nearest sc_pid sc_time (cr_pid c) (cr_time c) (as_scheduled a) = (s, scheduled)"
    by force
  define task where "task = (case s of Some s \<Rightarrow> sc_task s | None \<Rightarrow> '''')"
  have near: "near (cr_time c) (la_time l)" using assms(2) by (simp add: near_def abs_diff_commute)
  have none: "list_all (\<lambda>x. ?d x = None) (as_launched a)" using assms(3) by (simp add: alone_def)
  have "take_nearest la_pid la_time (cr_pid c) (cr_time c) (as_launched a) = (None, as_launched a)"
    by (simp add: take_nearest_def nearest_index_none [OF none])
  then have c1: "add (Created c) a =
      a\<lparr>as_launched := as_launched a, as_scheduled := scheduled, as_pending := as_pending a @ [Start c None task None]\<rparr>"
    using s by (simp add: task_def)
  have starts: "list_all (\<lambda>p. start_distance opened (cr_pid c) (la_time l) p = None) (as_pending a)" for opened
    using assms(4) start_distance_mono unfolding alone_def list_all_iff by blast
  have "nearest_start (\<lambda>l _. l = None) (la_pid l) (la_time l) (add (Created c) a) = Some (length (as_pending a))"
    unfolding nearest_start_def assms(1) c1
    using nearest_index_last [OF starts [of "\<lambda>l _. l = None"], of "Start c None task None"] near by simp
  note joined = add_launched_at [OF this]
  have lhs: "add (Launched l) (add (Created c) a) =
      a\<lparr>as_scheduled := scheduled, as_pending := as_pending a @ [Start c (Some l) task None]\<rparr>"
    unfolding joined unfolding c1 by (simp del: add.simps)
  have "nearest_start (\<lambda>l _. l = None) (la_pid l) (la_time l) a = None"
    by (simp add: nearest_start_def assms(1) nearest_index_none [OF starts])
  then have l1: "add (Launched l) a = a\<lparr>as_launched := as_launched a @ [l]\<rparr>" by simp
  have "?d l = Some (abs_diff (la_time l) (cr_time c))" using assms(1,2) by (simp add: half_distance_def)
  from nearest_index_last [OF none this]
  have "take_nearest la_pid la_time (cr_pid c) (cr_time c) (as_launched a @ [l]) = (Some l, as_launched a)"
    by (simp add: take_nearest_def swap_remove_def)
  then have rhs: "add (Created c) (add (Launched l) a) =
      a\<lparr>as_scheduled := scheduled, as_pending := as_pending a @ [Start c (Some l) task None]\<rparr>"
    using s unfolding l1 by (simp add: task_def)
  show ?thesis unfolding lhs rhs by simp
qed

theorem halves_join_in_either_order_witness:
  "as_pending (add (Created (created_at 8 100))
     (add (Launched \<lparr>la_pid = 8, la_time = 150, la_sid = [], la_command_line = ''x''\<rparr>) assembler_default)) =
   [Start (created_at 8 100) (Some \<lparr>la_pid = 8, la_time = 150, la_sid = [], la_command_line = ''x''\<rparr>) '''' None]"
proof -
  let ?l = "\<lparr>la_pid = 8, la_time = 150, la_sid = [], la_command_line = ''x''\<rparr>"
  let ?c = "created_at 8 100"
  have h: "la_pid ?l = cr_pid ?c" "near (la_time ?l) (cr_time ?c)"
    "alone (cr_pid ?c) (cr_time ?c) assembler_default" "alone (cr_pid ?c) (la_time ?l) assembler_default"
    by (simp_all add: created_at_def near_def abs_diff_def PAIRED_WITHIN_def SECOND_def alone_def assembler_default_def)
  obtain task where t: "as_pending (add (Created ?c) (add (Launched ?l) assembler_default)) =
      as_pending assembler_default @ [Start ?c (Some ?l) task None]"
    using halves_join_in_either_order [OF h] by blast
  moreover have "task = ''''"
    using t by (simp add: assembler_default_def nearest_start_def take_nearest_def created_at_def
        half_distance_def near_def abs_diff_def PAIRED_WITHIN_def SECOND_def split: if_splits)
  ultimately show ?thesis by (simp add: assembler_default_def)
qed

end
