(* ===== verification/Process_Events.thy ===== *)
theory Process_Events
  imports Assembler
begin

text \<open>
  \<^verbatim>\<open>crates/core/src/process_events/decode.rs\<close>, the thread of
  \<^verbatim>\<open>process_events/mod.rs\<close> and the drives of \<^verbatim>\<open>process_events/resolve.rs\<close>: the
  ETW events that tell a start or an exit, the loop that feeds them to the
  assembler and what it releases to the history, and the losses it counts.

  An event is what the ETW library hands over: its header and its fields by
  name. The queue between the callback and the thread is the list of inputs
  that came in one turn of the loop.
\<close>

section \<open>Decoding\<close>

record etw_event =
  xe_provider :: "128 word"
  xe_id :: u16
  xe_opcode :: u8
  xe_timestamp :: u64
  xe_number :: "string \<Rightarrow> u64 option"
  xe_text :: "string \<Rightarrow> string option"
  xe_ansi :: "string \<Rightarrow> string option"
  xe_sid :: "string \<Rightarrow> u8 list option"

definition KERNEL_PROCESS :: "128 word" where
  "KERNEL_PROCESS = 0x22FB2CD60E7B422BA0C72FAD1FD0E716"

definition PROCESS :: "128 word" where
  "PROCESS = 0x3D6FA8D0FE0511D09DDA00C04FD7BA7C"

definition TASK_SCHEDULER :: "128 word" where
  "TASK_SCHEDULER = 0xDE7B24EA73C84A09985D5BDADCFA9017"

definition KERNEL_PROCESS_START :: u16 where
  "KERNEL_PROCESS_START = 1"

definition KERNEL_PROCESS_STOP :: u16 where
  "KERNEL_PROCESS_STOP = 2"

definition PROCESS_START_OPCODE :: u8 where
  "PROCESS_START_OPCODE = 1"

definition TASK_PROCESS_CREATED :: u16 where
  "TASK_PROCESS_CREATED = 129"

definition wanted :: "etw_event \<Rightarrow> bool" where
  "wanted e =
    (if xe_provider e = KERNEL_PROCESS then xe_id e = KERNEL_PROCESS_START \<or> xe_id e = KERNEL_PROCESS_STOP
     else if xe_provider e = PROCESS then xe_opcode e = PROCESS_START_OPCODE
     else if xe_provider e = TASK_SCHEDULER then xe_id e = TASK_PROCESS_CREATED
     else False)"

text \<open>\<^verbatim>\<open>Option::unwrap_or\<close>\<close>
definition unwrap_or :: "'a \<Rightarrow> 'a option \<Rightarrow> 'a" where
  "unwrap_or d x = (case x of Some y \<Rightarrow> y | None \<Rightarrow> d)"

definition nonzero :: "u64 option \<Rightarrow> u64 option" where
  "nonzero x = (case x of Some n \<Rightarrow> if n \<noteq> 0 then Some n else None | None \<Rightarrow> None)"

text \<open>\<^verbatim>\<open>Fields\<close>: a missing number reads as the default, a missing string or SID as empty.\<close>
definition num :: "etw_event \<Rightarrow> string \<Rightarrow> u64" where
  "num e name = unwrap_or 0 (xe_number e name)"

definition text_of :: "etw_event \<Rightarrow> string \<Rightarrow> string" where
  "text_of e name = unwrap_or '''' (xe_text e name)"

definition ansi_of :: "etw_event \<Rightarrow> string \<Rightarrow> string" where
  "ansi_of e name = unwrap_or '''' (xe_ansi e name)"

definition sid_of :: "etw_event \<Rightarrow> string \<Rightarrow> u8 list" where
  "sid_of e name = unwrap_or [] (xe_sid e name)"

definition decode_created :: "(u32 \<Rightarrow> string) \<Rightarrow> etw_event \<Rightarrow> raw option" where
  "decode_created working_directory e =
    (case xe_number e ''ProcessID'' of None \<Rightarrow> None | Some pid \<Rightarrow>
    (case nonzero (xe_number e ''ProcessSequenceNumber'') of None \<Rightarrow> None | Some seq \<Rightarrow>
      Some (Created
        \<lparr>cr_pid = ucast pid, cr_sequence_number = seq,
         cr_time = unwrap_or (xe_timestamp e) (xe_number e ''CreateTime''),
         cr_parent_pid = ucast (num e ''ParentProcessID''),
         cr_parent_sequence_number = num e ''ParentProcessSequenceNumber'',
         cr_session_id = ucast (num e ''SessionID''), cr_image = text_of e ''ImageName'',
         cr_elevated = map_option (\<lambda>elevated. elevated \<noteq> 0) (xe_number e ''ProcessTokenIsElevated''),
         cr_package_full_name = text_of e ''PackageFullName'',
         cr_working_directory = working_directory (ucast pid)\<rparr>)))"

definition decode_ended :: "etw_event \<Rightarrow> raw option" where
  "decode_ended e =
    (case xe_number e ''ProcessID'' of None \<Rightarrow> None | Some pid \<Rightarrow>
    (case nonzero (xe_number e ''ProcessSequenceNumber'') of None \<Rightarrow> None | Some seq \<Rightarrow>
      Some (Ended
        \<lparr>en_pid = ucast pid, en_sequence_number = seq,
         en_time = unwrap_or (xe_timestamp e) (xe_number e ''ExitTime''),
         en_exited =
           \<lparr>ex_image_path = '''', ex_image_name = ansi_of e ''ImageName'',
            ex_start_time = num e ''CreateTime'', ex_exit_code = ucast (num e ''ExitCode''),
            ex_cpu_cycles = num e ''CPUCycleCount'',
            ex_io_read_ops = num e ''ReadOperationCount'', ex_io_write_ops = num e ''WriteOperationCount'',
            ex_io_read_bytes = num e ''ReadTransferKiloBytes'' * 1024,
            ex_io_write_bytes = num e ''WriteTransferKiloBytes'' * 1024,
            ex_peak_commit = num e ''CommitPeak'', ex_handles = ucast (num e ''HandleCount''),
            ex_hard_faults = ucast (num e ''HardFaultCount'')\<rparr>\<rparr>)))"

definition decode_launched :: "etw_event \<Rightarrow> raw option" where
  "decode_launched e =
    (case xe_number e ''ProcessId'' of None \<Rightarrow> None | Some pid \<Rightarrow>
      Some (Launched \<lparr>la_pid = ucast pid, la_time = xe_timestamp e, la_sid = sid_of e ''UserSID'',
        la_command_line = text_of e ''CommandLine''\<rparr>))"

definition decode_scheduled :: "etw_event \<Rightarrow> raw option" where
  "decode_scheduled e =
    (case xe_number e ''ProcessID'' of None \<Rightarrow> None | Some pid \<Rightarrow>
      Some (Scheduled \<lparr>sc_pid = ucast pid, sc_time = xe_timestamp e, sc_task = text_of e ''TaskName''\<rparr>))"

definition decode :: "(u32 \<Rightarrow> string) \<Rightarrow> etw_event \<Rightarrow> raw option" where
  "decode working_directory e =
    (if xe_provider e = KERNEL_PROCESS \<and> xe_id e = KERNEL_PROCESS_START then decode_created working_directory e
     else if xe_provider e = KERNEL_PROCESS \<and> xe_id e = KERNEL_PROCESS_STOP then decode_ended e
     else if xe_provider e = PROCESS \<and> xe_opcode e = PROCESS_START_OPCODE then decode_launched e
     else if xe_provider e = TASK_SCHEDULER \<and> xe_id e = TASK_PROCESS_CREATED then decode_scheduled e
     else None)"

lemma decode_wanted: "decode wd e \<noteq> None \<Longrightarrow> wanted e"
  by (auto simp: decode_def wanted_def split: if_splits)
    (simp_all add: KERNEL_PROCESS_def PROCESS_def TASK_SCHEDULER_def)

section \<open>The drives\<close>

definition DRIVES_REREAD_AFTER :: duration where
  "DRIVES_REREAD_AFTER = secs 10"

text \<open>The device each drive letter names, and when they were read.\<close>
record drives =
  dr_devices :: "(string \<times> string) list"
  dr_read_at :: "instant option"

text \<open>\<^verbatim>\<open>u8::to_ascii_lowercase\<close> on the bytes of a string\<close>
definition ascii_lower :: "char \<Rightarrow> char" where
  "ascii_lower c = (if 65 \<le> (of_char c :: nat) \<and> (of_char c :: nat) \<le> 90 then char_of ((of_char c :: nat) + 32) else c)"

definition eq_ignore_ascii_case :: "string \<Rightarrow> string \<Rightarrow> bool" where
  "eq_ignore_ascii_case a b \<longleftrightarrow> map ascii_lower a = map ascii_lower b"

text \<open>\<^verbatim>\<open>str::is_char_boundary\<close>: strings are their UTF-8 bytes.\<close>
definition char_boundary :: "string \<Rightarrow> nat \<Rightarrow> bool" where
  "char_boundary s i \<longleftrightarrow>
    i = length s \<or> i < length s \<and> \<not> (128 \<le> (of_char (s ! i) :: nat) \<and> (of_char (s ! i) :: nat) < 192)"

definition on_drive :: "string \<Rightarrow> string \<times> string \<Rightarrow> string option" where
  "on_drive nt = (\<lambda>(device, letter).
    if \<not> char_boundary nt (length device) then None
    else let rest = drop (length device) nt
      in if eq_ignore_ascii_case (take (length device) nt) device \<and> take 1 rest = [char_of (92 :: nat)]
         then Some (letter @ rest) else None)"

definition drives_find :: "drives \<Rightarrow> string \<Rightarrow> string option" where
  "drives_find d nt = find_map (on_drive nt) (dr_devices d)"

text \<open>\<^verbatim>\<open>Drives::win32\<close>: \<^verbatim>\<open>query\<close> is what the system answers for the letters, \<^verbatim>\<open>t\<close> the time of the call.\<close>
definition drives_win32 :: "(string \<times> string) list \<Rightarrow> instant \<Rightarrow> string \<Rightarrow> drives \<Rightarrow> drives \<times> string option" where
  "drives_win32 query t nt d =
    (case drives_find d nt of
       Some path \<Rightarrow> (d, Some path)
     | None \<Rightarrow>
         if (case dr_read_at d of Some at \<Rightarrow> t - at < DRIVES_REREAD_AFTER | None \<Rightarrow> False) then (d, None)
         else let d = \<lparr>dr_devices = query, dr_read_at = Some t\<rparr> in (d, drives_find d nt))"

definition machine_image_path :: "(string \<times> string) list \<Rightarrow> instant \<Rightarrow> string \<Rightarrow> drives \<Rightarrow> drives \<times> string" where
  "machine_image_path query t nt d =
    (let (d, path) = drives_win32 query t nt d in (d, unwrap_or nt path))"

text \<open>\<^verbatim>\<open>user\<close>: \<^verbatim>\<open>name\<close> and \<^verbatim>\<open>sid_string\<close> are what the system answers for a SID.\<close>
definition user :: "(u8 list \<Rightarrow> string) \<Rightarrow> (u8 list \<Rightarrow> string option) \<Rightarrow> u8 list \<Rightarrow> string" where
  "user name sid_string sid =
    (if sid = [] then ''''
     else if name sid \<noteq> '''' then name sid
     else unwrap_or '''' (sid_string sid))"

section \<open>The thread\<close>

definition KEPT_FOR :: u64 where
  "KEPT_FOR = 3600 * SECOND"

definition KEPT_BYTES :: nat where
  "KEPT_BYTES = 4 * 2 ^ 20"

definition BATCH_BYTES :: nat where
  "BATCH_BYTES = 2 ^ 20"

datatype input = Record etw_event | KernelLost u64

text \<open>
  What the thread keeps: the assembler, the losses the kernel reported and the
  queue dropped as last seen, the losses not told yet, the shared history, the
  generation watchers wait on, and whether the events stopped.
\<close>
record events_run =
  er_assembler :: assembler
  er_kernel_lost :: u64
  er_dropped_seen :: u64
  er_lost :: u64
  er_history :: history
  er_told :: nat
  er_closed :: bool

definition events_new :: "u64 \<Rightarrow> events_run" where
  "events_new started_at =
    \<lparr>er_assembler = assembler_default, er_kernel_lost = 0, er_dropped_seen = 0, er_lost = 0,
     er_history = history_new started_at KEPT_FOR KEPT_BYTES, er_told = 0, er_closed = False\<rparr>"

text \<open>The callback of \<^verbatim>\<open>register\<close>: what it wants goes into the queue, or counts as dropped when that is full.\<close>
definition on_event :: "nat \<Rightarrow> etw_event \<Rightarrow> input list \<times> u64 \<Rightarrow> input list \<times> u64" where
  "on_event queued e = (\<lambda>(inbox, dropped).
    if \<not> wanted e then (inbox, dropped)
    else if length inbox < queued then (inbox @ [Record e], dropped)
    else (inbox, dropped + 1))"

fun take_input :: "(u32 \<Rightarrow> string) \<Rightarrow> input \<Rightarrow> events_run \<Rightarrow> events_run" where
  "take_input wd (Record e) r =
    (case decode wd e of
       Some raw \<Rightarrow> r\<lparr>er_assembler := add raw (er_assembler r)\<rparr>
     | None \<Rightarrow> r)"
| "take_input wd (KernelLost lost_total) r =
    r\<lparr>er_lost := er_lost r + (if er_kernel_lost r \<le> lost_total then lost_total - er_kernel_lost r else lost_total),
      er_kernel_lost := lost_total\<rparr>"

definition named_exit :: "(u32 \<Rightarrow> u64 \<Rightarrow> string) \<Rightarrow> history \<Rightarrow> process_event \<Rightarrow> process_event" where
  "named_exit listed_image h event =
    (case ev_kind event of
       Exited x \<Rightarrow>
         event\<lparr>ev_kind := Exited (x\<lparr>ex_image_path :=
           (case image_of h (ev_pid event) (ev_sequence_number event) of
              Some path \<Rightarrow> path
            | None \<Rightarrow> listed_image (ev_pid event) (ev_sequence_number event))\<rparr>)\<rparr>
     | Started _ \<Rightarrow> event)"

definition hold :: "layout \<Rightarrow> (u32 \<Rightarrow> u64 \<Rightarrow> string) \<Rightarrow> u64 \<Rightarrow> process_event \<Rightarrow> history \<Rightarrow> history" where
  "hold ly listed_image now event h = push ly (named_exit listed_image h event) now h"

text \<open>\<^verbatim>\<open>u32::try_from(lost).unwrap_or(u32::MAX)\<close>\<close>
definition u32_of_u64 :: "u64 \<Rightarrow> u32" where
  "u32_of_u64 n = (if unat n < 2 ^ 32 then ucast n else - 1)"

definition events_release ::
  "layout \<Rightarrow> resolve \<Rightarrow> (u32 \<Rightarrow> u64 \<Rightarrow> string) \<Rightarrow> u64 \<Rightarrow> u64 \<Rightarrow> u64 \<Rightarrow> events_run \<Rightarrow> events_run" where
  "events_release ly rs listed_image ready_at now lost r =
    (let (assembler, events) = assembler_release ready_at rs (er_assembler r);
         r = r\<lparr>er_assembler := assembler\<rparr>
     in if events = [] \<and> lost = 0 then r
        else let h = kernel_lost (u32_of_u64 lost) (er_history r)
          in r\<lparr>er_history := fold (hold ly listed_image now) events h, er_told := er_told r + 1\<rparr>)"

text \<open>
  One turn of the loop of \<^verbatim>\<open>run\<close>: the inputs that came (none at a timeout), the
  count of the dropped now, the time now.
\<close>
definition events_turn ::
  "layout \<Rightarrow> resolve \<Rightarrow> (u32 \<Rightarrow> string) \<Rightarrow> (u32 \<Rightarrow> u64 \<Rightarrow> string) \<Rightarrow> input list \<times> u64 \<times> u64 \<Rightarrow> events_run \<Rightarrow> events_run"
  where
  "events_turn ly rs wd listed_image = (\<lambda>(inputs, dropped_now, now) r.
    let r = fold (take_input wd) inputs r;
        r = r\<lparr>er_lost := er_lost r + (dropped_now - er_dropped_seen r), er_dropped_seen := dropped_now\<rparr>
    in events_release ly rs listed_image now now (er_lost r) (r\<lparr>er_lost := 0\<rparr>))"

definition events_stop ::
  "layout \<Rightarrow> resolve \<Rightarrow> (u32 \<Rightarrow> u64 \<Rightarrow> string) \<Rightarrow> u64 \<Rightarrow> events_run \<Rightarrow> events_run" where
  "events_stop ly rs listed_image now r =
    (let r = events_release ly rs listed_image (- 1) now (er_lost r) r
     in r\<lparr>er_closed := True, er_told := er_told r + 1\<rparr>)"

text \<open>\<^verbatim>\<open>run\<close>, from the turns it makes before its queue closes at \<^verbatim>\<open>stop_at\<close>.\<close>
definition events_run_all ::
  "layout \<Rightarrow> resolve \<Rightarrow> (u32 \<Rightarrow> string) \<Rightarrow> (u32 \<Rightarrow> u64 \<Rightarrow> string) \<Rightarrow> u64 \<Rightarrow>
    (input list \<times> u64 \<times> u64) list \<Rightarrow> u64 \<Rightarrow> events_run" where
  "events_run_all ly rs wd listed_image started_at turns stop_at =
    events_stop ly rs listed_image stop_at
      (fold (events_turn ly rs wd listed_image) turns (events_new started_at))"

text \<open>\<^verbatim>\<open>ProcessEventsWatch::try_next\<close>\<close>
definition try_next :: "events_run \<Rightarrow> cursor \<Rightarrow> cursor \<times> process_event_batch option" where
  "try_next r c = read (er_history r) c BATCH_BYTES"

section \<open>Every start and exit read is told\<close>

text \<open>The starts and exits in a list of inputs.\<close>
fun raw_keys :: "raw \<Rightarrow> (bool \<times> u32 \<times> u64 \<times> u64) list" where
  "raw_keys (Created c) = [(True, cr_pid c, cr_sequence_number c, cr_time c)]"
| "raw_keys (Ended e) = [(False, en_pid e, en_sequence_number e, en_time e)]"
| "raw_keys (Launched _) = []"
| "raw_keys (Scheduled _) = []"

fun input_keys :: "(u32 \<Rightarrow> string) \<Rightarrow> input \<Rightarrow> (bool \<times> u32 \<times> u64 \<times> u64) list" where
  "input_keys wd (Record e) = (case decode wd e of Some raw \<Rightarrow> raw_keys raw | None \<Rightarrow> [])"
| "input_keys wd (KernelLost _) = []"

abbreviation assembler_keys :: "assembler \<Rightarrow> (bool \<times> u32 \<times> u64 \<times> u64) multiset" where
  "assembler_keys a \<equiv> mset (map pending_key (as_pending a))"

lemma set_half_key [simp]:
  "pending_key (set_launched l p) = pending_key p" "pending_key (set_task t p) = pending_key p"
  by (cases p; simp)+

lemma map_list_update_same: "f y = f (xs ! i) \<Longrightarrow> map f (xs[i := y]) = map f xs"
  by (metis list_update_beyond list_update_id map_update not_le_imp_less)

lemma add_keys: "assembler_keys (add raw a) = assembler_keys a + mset (raw_keys raw)"
proof (cases raw)
  case (Created c)
  then show ?thesis by (simp add: Let_def split: prod.splits)
next
  case (Launched l)
  have "map pending_key ((as_pending a)[i := set_launched l (as_pending a ! i)]) =
      map pending_key (as_pending a)" for i
    by (rule map_list_update_same) simp
  then show ?thesis by (auto simp: Launched simp flip: mset_map split: option.splits)
next
  case (Scheduled s)
  have "map pending_key ((as_pending a)[i := set_task (sc_task s) (as_pending a ! i)]) =
      map pending_key (as_pending a)" for i
    by (rule map_list_update_same) simp
  then show ?thesis by (auto simp: Scheduled simp flip: mset_map split: option.splits)
next
  case (Ended e)
  then show ?thesis by simp
qed

text \<open>The thread is in order: all it read is in the history it held or is still pending.\<close>
definition run_accounts :: "layout \<Rightarrow> (bool \<times> u32 \<times> u64 \<times> u64) list \<Rightarrow> events_run \<Rightarrow> bool" where
  "run_accounts ly keys r \<longleftrightarrow>
    (\<exists>evs. history_reach ly (er_history r) evs \<and>
      mset (map event_key evs) + assembler_keys (er_assembler r) = mset keys)"

lemma take_input_accounts:
  "run_accounts ly keys r \<Longrightarrow> run_accounts ly (keys @ input_keys wd i) (take_input wd i r)"
proof (cases i)
  case (Record e)
  assume "run_accounts ly keys r"
  then obtain evs where "history_reach ly (er_history r) evs"
    "mset (map event_key evs) + assembler_keys (er_assembler r) = mset keys"
    unfolding run_accounts_def by blast
  then show ?thesis
    unfolding run_accounts_def Record
    by (intro exI [of _ evs]) (auto simp: add_keys [unfolded mset_map] split: option.splits simp flip: add.assoc)
qed (auto simp: run_accounts_def)

lemma take_inputs_accounts:
  "run_accounts ly keys r \<Longrightarrow>
    run_accounts ly (keys @ concat (map (input_keys wd) is)) (fold (take_input wd) is r)"
proof (induction "is" arbitrary: keys r)
  case (Cons i "is")
  show ?case using Cons.IH [OF take_input_accounts [OF Cons.prems, of wd i]] by simp
qed simp

lemma named_exit_key [simp]: "event_key (named_exit listed h event) = event_key event"
  by (auto simp: named_exit_def event_key_def split: process_event_kind.splits)

lemma named_exit_time [simp]: "ev_time (named_exit listed h event) = ev_time event"
  by (auto simp: named_exit_def split: process_event_kind.splits)

lemma hold_reach:
  "history_reach ly h evs \<Longrightarrow> \<forall>e \<in> set events. ev_time e \<noteq> - 1 \<Longrightarrow>
    \<exists>evs'. history_reach ly (fold (hold ly listed now) events h) evs' \<and>
      map event_key evs' = map event_key evs @ map event_key events"
proof (induction events arbitrary: h evs)
  case Nil
  then show ?case by auto
next
  case (Cons e events)
  have "history_reach ly (hold ly listed now e h) (evs @ [named_exit listed h e])"
    using Cons.prems unfolding hold_def by (intro hist_push) simp_all
  from Cons.IH [OF this] Cons.prems(2) show ?case by auto
qed

lemma assembler_release_conserves:
  "mset (map event_key (snd (assembler_release now rs a))) +
    assembler_keys (fst (assembler_release now rs a)) = assembler_keys a"
  unfolding assembler_release_fold release_conserves by (simp add: releasing_start_def)

text \<open>No event is at the last instant of time there is.\<close>
definition in_time :: "(bool \<times> u32 \<times> u64 \<times> u64) list \<Rightarrow> bool" where
  "in_time keys \<longleftrightarrow> list_all (\<lambda>(_, _, _, time). time \<noteq> - 1) keys"

lemma event_key_time: "ev_time e = snd (snd (snd (event_key e)))"
  by (simp add: event_key_def)

lemma events_release_accounts:
  assumes "run_accounts ly keys r" "in_time keys"
  shows "run_accounts ly keys (events_release ly rs listed ready_at now lost r)"
    "er_assembler (events_release ly rs listed ready_at now lost r) =
      fst (assembler_release ready_at rs (er_assembler r))"
proof -
  obtain evs where evs: "history_reach ly (er_history r) evs"
    "mset (map event_key evs) + assembler_keys (er_assembler r) = mset keys"
    using assms(1) unfolding run_accounts_def by blast
  obtain a events where rel: "assembler_release ready_at rs (er_assembler r) = (a, events)" by force
  have conserved: "mset (map event_key events) + assembler_keys a = assembler_keys (er_assembler r)"
    using assembler_release_conserves [of ready_at rs "er_assembler r"] unfolding rel by simp
  have "mset (map event_key events) \<subseteq># mset keys"
    unfolding evs(2) [symmetric] conserved [symmetric] by simp
  then have "set (map event_key events) \<subseteq> set keys" using set_mset_mono by fastforce
  then have times: "\<forall>e \<in> set events. ev_time e \<noteq> - 1"
    using assms(2) by (fastforce simp: in_time_def list_all_iff event_key_time)
  from hold_reach [OF hist_lost [OF evs(1), of "u32_of_u64 lost"] this, of listed now]
  obtain evs' where evs': "history_reach ly (fold (hold ly listed now) events (kernel_lost (u32_of_u64 lost) (er_history r))) evs'"
    "map event_key evs' = map event_key evs @ map event_key events" by blast
  have "mset (map event_key evs') + assembler_keys a = mset keys"
    unfolding evs'(2) evs(2) [symmetric] conserved [symmetric] mset_append by (simp add: add.assoc)
  with evs'(1) have told: "run_accounts ly keys (r\<lparr>er_assembler := a,
      er_history := fold (hold ly listed now) events (kernel_lost (u32_of_u64 lost) (er_history r)), er_told := n\<rparr>)" for n
    unfolding run_accounts_def by (intro exI [of _ evs']) simp
  have quiet: "run_accounts ly keys (r\<lparr>er_assembler := a\<rparr>)" if "events = []"
    using evs conserved that unfolding run_accounts_def by (intro exI [of _ evs]) simp
  show "run_accounts ly keys (events_release ly rs listed ready_at now lost r)"
    using told [of "er_told r + 1"] quiet by (simp add: events_release_def rel Let_def)
  show "er_assembler (events_release ly rs listed ready_at now lost r) =
      fst (assembler_release ready_at rs (er_assembler r))"
    by (simp add: events_release_def rel Let_def)
qed

definition turn_keys :: "(u32 \<Rightarrow> string) \<Rightarrow> input list \<times> u64 \<times> u64 \<Rightarrow> (bool \<times> u32 \<times> u64 \<times> u64) list" where
  "turn_keys wd turn = concat (map (input_keys wd) (fst turn))"

lemma events_turn_accounts:
  assumes "run_accounts ly keys r" "in_time (keys @ turn_keys wd turn)"
  shows "run_accounts ly (keys @ turn_keys wd turn) (events_turn ly rs wd listed turn r)"
proof -
  obtain inputs dropped now where t: "turn = (inputs, dropped, now)" by (cases turn) auto
  let ?r = "fold (take_input wd) inputs r"
  let ?r' = "?r\<lparr>er_dropped_seen := dropped, er_lost := 0\<rparr>"
  have "run_accounts ly (keys @ turn_keys wd turn) ?r"
    using take_inputs_accounts [OF assms(1)] by (simp add: t turn_keys_def)
  then have "run_accounts ly (keys @ turn_keys wd turn) ?r'" by (simp add: run_accounts_def)
  from events_release_accounts(1) [OF this assms(2)] show ?thesis
    by (simp add: t events_turn_def Let_def)
qed

lemma events_turns_accounts:
  "run_accounts ly keys r \<Longrightarrow> in_time (keys @ concat (map (turn_keys wd) turns)) \<Longrightarrow>
    run_accounts ly (keys @ concat (map (turn_keys wd) turns)) (fold (events_turn ly rs wd listed) turns r)"
proof (induction turns arbitrary: keys r)
  case (Cons turn turns)
  have "in_time (keys @ turn_keys wd turn)" using Cons.prems(2) by (simp add: in_time_def)
  from Cons.IH [OF events_turn_accounts [OF Cons.prems(1) this]] Cons.prems(2) show ?case by simp
qed simp

text \<open>
  C14 Whatever the thread read is told: once it stopped, the events ever put
  into the history are exactly the starts and exits among the inputs, each
  once, with its pid, sequence number and time, and none is left pending.
\<close>
theorem every_event_read_is_held:
  assumes "in_time (concat (map (turn_keys wd) turns))"
  shows "(\<exists>evs. history_reach ly (er_history (events_run_all ly rs wd listed started_at turns stop_at)) evs \<and>
      mset (map event_key evs) = mset (concat (map (turn_keys wd) turns))) \<and>
    as_pending (er_assembler (events_run_all ly rs wd listed started_at turns stop_at)) = [] \<and>
      er_closed (events_run_all ly rs wd listed started_at turns stop_at)"
proof -
  let ?r = "fold (events_turn ly rs wd listed) turns (events_new started_at)"
  let ?keys = "concat (map (turn_keys wd) turns)"
  have "history_reach ly (er_history (events_new started_at)) []"
    by (simp add: events_new_def hist_new)
  then have "run_accounts ly [] (events_new started_at)"
    unfolding run_accounts_def by (intro exI [of _ "[]"]) (simp add: events_new_def assembler_default_def)
  from events_turns_accounts [OF this] assms have acc: "run_accounts ly ?keys ?r" by simp
  let ?s = "events_release ly rs listed (- 1) stop_at (er_lost ?r) ?r"
  have a: "as_pending (er_assembler ?s) = []"
    unfolding events_release_accounts(2) [OF acc assms] by (rule release_empties)
  have s: "run_accounts ly ?keys ?s" by (rule events_release_accounts(1) [OF acc assms])
  have "\<exists>evs. history_reach ly (er_history (events_run_all ly rs wd listed started_at turns stop_at)) evs \<and>
      mset (map event_key evs) = mset ?keys"
    using s a unfolding run_accounts_def events_run_all_def events_stop_def by (simp add: Let_def)
  moreover have "as_pending (er_assembler (events_run_all ly rs wd listed started_at turns stop_at)) = [] \<and>
      er_closed (events_run_all ly rs wd listed started_at turns stop_at)"
    using a by (simp add: events_run_all_def events_stop_def Let_def)
  ultimately show ?thesis by blast
qed

text \<open>The events of a process that starts and ends, as Kernel-Process writes them.\<close>
definition kernel_event :: "u16 \<Rightarrow> u64 \<Rightarrow> u64 \<Rightarrow> etw_event" where
  "kernel_event ident pid time =
    \<lparr>xe_provider = KERNEL_PROCESS, xe_id = ident, xe_opcode = 0, xe_timestamp = time,
     xe_number = (\<lambda>name. if name = ''ProcessID'' then Some pid else
       if name = ''ProcessSequenceNumber'' then Some 1 else None),
     xe_text = (\<lambda>_. None), xe_ansi = (\<lambda>_. None), xe_sid = (\<lambda>_. None)\<rparr>"

lemma kernel_event_keys:
  "input_keys wd (Record (kernel_event KERNEL_PROCESS_START pid time)) = [(True, ucast pid, 1, time)]"
  "input_keys wd (Record (kernel_event KERNEL_PROCESS_STOP pid time)) = [(False, ucast pid, 1, time)]"
  by (simp_all add: kernel_event_def decode_def decode_created_def decode_ended_def nonzero_def unwrap_or_def
      KERNEL_PROCESS_START_def KERNEL_PROCESS_STOP_def)

theorem every_event_read_is_held_witness:
  "\<exists>evs. history_reach plain_layout (er_history (events_run_all plain_layout plain_resolve (\<lambda>_. '''') (\<lambda>_ _. '''') 5
      [([Record (kernel_event KERNEL_PROCESS_STOP 8 20)], 0, 30),
       ([Record (kernel_event KERNEL_PROCESS_START 8 10)], 0, 40)] 50)) evs \<and>
    mset (map event_key evs) = {#(False, 8, 1, 20), (True, 8, 1, 10)#}"
proof -
  let ?turns = "[([Record (kernel_event KERNEL_PROCESS_STOP 8 20)], 0, 30),
    ([Record (kernel_event KERNEL_PROCESS_START 8 10)], 0, 40)] :: (input list \<times> u64 \<times> u64) list"
  have k: "concat (map (turn_keys (\<lambda>_. '''')) ?turns) = [(False, 8, 1, 20), (True, 8, 1, 10)]"
    by (simp add: turn_keys_def kernel_event_keys del: input_keys.simps)
  have t: "in_time (concat (map (turn_keys (\<lambda>_. '''')) ?turns))" unfolding k by (simp add: in_time_def)
  show ?thesis
    using every_event_read_is_held [OF t, of plain_layout plain_resolve "\<lambda>_ _. ''''" 5 50] unfolding k by simp
qed

section \<open>What the callback leaves out\<close>

lemma on_event_counts:
  "fold (on_event queued) es (inbox, dropped) = (inbox', dropped') \<Longrightarrow>
    of_nat (length inbox') + dropped' = of_nat (length inbox) + dropped + of_nat (length (filter wanted es))"
proof (induction es arbitrary: inbox dropped)
  case (Cons e es)
  then show ?case
    by (cases "wanted e"; cases "length inbox < queued") (force simp: on_event_def algebra_simps)+
qed simp

lemma on_event_room:
  "length inbox + length (filter wanted es) \<le> queued \<Longrightarrow>
    fold (on_event queued) es (inbox, dropped) = (inbox @ map Record (filter wanted es), dropped)"
proof (induction es arbitrary: inbox)
  case (Cons e es)
  then show ?case by (cases "wanted e") (simp_all add: on_event_def)
qed simp

lemma unwanted_reads_nothing:
  "fold (take_input wd) (map Record (filter wanted es)) r = fold (take_input wd) (map Record es) r"
proof (induction es arbitrary: r)
  case (Cons e es)
  show ?case
  proof (cases "wanted e")
    case False
    then have "decode wd e = None" using decode_wanted by blast
    then show ?thesis using Cons.IH False by simp
  qed (use Cons.IH in simp)
qed simp

text \<open>
  The callback loses only what it counts: of the events that come, each one
  wanted is queued or counted as dropped; and while there is room, the thread
  ends up where it would be had every event been queued, wanted or not.
\<close>
theorem callback_counts_its_losses:
  assumes "fold (on_event queued) es ([], 0) = (inbox, dropped)"
  shows "of_nat (length inbox) + dropped = of_nat (length (filter wanted es)) \<and>
    (length (filter wanted es) \<le> queued \<longrightarrow>
      dropped = 0 \<and> fold (take_input wd) inbox r = fold (take_input wd) (map Record es) r)"
proof -
  have "of_nat (length inbox) + dropped = of_nat (length (filter wanted es))"
    using on_event_counts [OF assms] by simp
  moreover have "inbox = map Record (filter wanted es) \<and> dropped = 0" if "length (filter wanted es) \<le> queued"
    using on_event_room [of "[]" es queued 0] that assms by simp
  ultimately show ?thesis using unwanted_reads_nothing by metis
qed

theorem callback_counts_its_losses_witness:
  "fold (on_event 1) [kernel_event KERNEL_PROCESS_START 8 10, kernel_event 7 8 15, kernel_event KERNEL_PROCESS_STOP 8 20]
      ([], 0) = ([Record (kernel_event KERNEL_PROCESS_START 8 10)], 1) \<and>
    (1 :: u64) + 1 = 2"
proof -
  let ?es = "[kernel_event KERNEL_PROCESS_START 8 10, kernel_event 7 8 15, kernel_event KERNEL_PROCESS_STOP 8 20]"
  have w: "filter wanted ?es = [kernel_event KERNEL_PROCESS_START 8 10, kernel_event KERNEL_PROCESS_STOP 8 20]"
    by (simp add: wanted_def kernel_event_def KERNEL_PROCESS_START_def KERNEL_PROCESS_STOP_def)
  have run: "fold (on_event 1) ?es ([], 0) = ([Record (kernel_event KERNEL_PROCESS_START 8 10)], 1)"
    by (simp add: on_event_def wanted_def kernel_event_def KERNEL_PROCESS_START_def KERNEL_PROCESS_STOP_def)
  from callback_counts_its_losses [OF this, of undefined undefined] run show ?thesis unfolding w by simp
qed

section \<open>Losses\<close>

text \<open>A turn in which nothing but the kernel's own count of its losses came.\<close>
type_synonym quiet_turn = "u64 list \<times> u64 \<times> u64"

definition quiet :: "quiet_turn \<Rightarrow> input list \<times> u64 \<times> u64" where
  "quiet = (\<lambda>(totals, dropped, now). (map KernelLost totals, dropped, now))"

text \<open>The counts only grow, from these, and stay within 32 bits together.\<close>
fun totals_rise :: "u64 \<Rightarrow> u64 list \<Rightarrow> bool" where
  "totals_rise from_here [] = True"
| "totals_rise from_here (n # totals) = (from_here \<le> n \<and> totals_rise n totals)"

fun counts_rise :: "u64 \<Rightarrow> u64 \<Rightarrow> quiet_turn list \<Rightarrow> bool" where
  "counts_rise lost_from dropped_from [] = True"
| "counts_rise lost_from dropped_from ((totals, dropped, now) # turns) =
    (totals_rise lost_from totals \<and> dropped_from \<le> dropped \<and>
     unat (last (lost_from # totals)) + unat dropped < 2 ^ 32 \<and>
     counts_rise (last (lost_from # totals)) dropped turns)"

text \<open>All the losses are with the next event to be held, or with the thread.\<close>
definition losses_add_up :: "events_run \<Rightarrow> bool" where
  "losses_add_up r \<longleftrightarrow>
    unat (h_lost (er_history r)) + unat (er_lost r) = unat (er_kernel_lost r) + unat (er_dropped_seen r)"

lemma take_totals:
  assumes "losses_add_up r" "totals_rise (er_kernel_lost r) totals"
    "unat (last (er_kernel_lost r # totals)) + unat (er_dropped_seen r) < 2 ^ 32"
  shows "losses_add_up (fold (take_input wd) (map KernelLost totals) r) \<and>
    er_kernel_lost (fold (take_input wd) (map KernelLost totals) r) = last (er_kernel_lost r # totals) \<and>
    er_dropped_seen (fold (take_input wd) (map KernelLost totals) r) = er_dropped_seen r \<and>
    er_assembler (fold (take_input wd) (map KernelLost totals) r) = er_assembler r"
  using assms
proof (induction totals arbitrary: r)
  case (Cons n totals)
  let ?r = "take_input wd (KernelLost n) r"
  have rise: "er_kernel_lost r \<le> n" "totals_rise n totals" using Cons.prems(2) by simp_all
  have "n \<le> last (n # totals)" using rise(2) by (induction totals arbitrary: n) (auto intro: order.trans)
  then have n: "unat n + unat (er_dropped_seen r) < 2 ^ 32"
    using Cons.prems(3) by (simp add: word_le_nat_alt split: if_splits)
  have d: "unat (n - er_kernel_lost r) = unat n - unat (er_kernel_lost r)"
    using rise(1) by (simp add: unat_sub)
  have "unat (er_kernel_lost r) \<le> unat n" using rise(1) by (simp add: word_le_nat_alt)
  then have small: "unat (er_lost r) + unat (n - er_kernel_lost r) < 2 ^ 64"
    using Cons.prems(1) n d unfolding losses_add_up_def by simp
  have "unat (er_lost r + (n - er_kernel_lost r)) = unat (er_lost r) + unat (n - er_kernel_lost r)"
    using small by (subst unat_add_lem [THEN iffD1]) simp_all
  then have "losses_add_up ?r"
    using Cons.prems(1) rise(1) d \<open>unat (er_kernel_lost r) \<le> unat n\<close>
    by (simp add: losses_add_up_def)
  note IH = Cons.IH [OF this]
  have "er_kernel_lost ?r = n" "er_dropped_seen ?r = er_dropped_seen r" by simp_all
  then show ?case
    using IH rise(2) Cons.prems(3) by simp
qed simp_all

lemma assembler_release_none: "as_pending a = [] \<Longrightarrow>
    snd (assembler_release now rs a) = [] \<and> as_pending (fst (assembler_release now rs a)) = []"
  by (simp add: assembler_release_def)

lemma sat_add_unat: "unat a + unat b < 2 ^ LENGTH('a) \<Longrightarrow> unat (sat_add a b) = unat a + unat (b :: 'a::len word)"
  by (simp add: sat_add_def unat_add_lem [THEN iffD1])

lemma quiet_turn_adds_up:
  fixes r :: events_run
  assumes "losses_add_up r" "as_pending (er_assembler r) = []" "er_lost r = 0"
    "totals_rise (er_kernel_lost r) totals" "er_dropped_seen r \<le> dropped"
    "unat (last (er_kernel_lost r # totals)) + unat dropped < 2 ^ 32"
    "r' = events_turn ly rs wd listed (quiet (totals, dropped, now)) r"
  shows "losses_add_up r' \<and> as_pending (er_assembler r') = [] \<and> er_lost r' = 0 \<and>
    er_kernel_lost r' = last (er_kernel_lost r # totals) \<and> er_dropped_seen r' = dropped"
proof -
  let ?t = "fold (take_input wd) (map KernelLost totals) r"
  let ?lost = "er_lost ?t + (dropped - er_dropped_seen ?t)"
  have seen: "unat (er_dropped_seen r) \<le> unat dropped" using assms(5) by (simp add: word_le_nat_alt)
  have t: "losses_add_up ?t" "er_kernel_lost ?t = last (er_kernel_lost r # totals)"
    "er_dropped_seen ?t = er_dropped_seen r" "er_assembler ?t = er_assembler r"
    using take_totals [OF assms(1,4)] assms(6) seen by (simp_all del: last.simps)
  have d: "unat (dropped - er_dropped_seen ?t) = unat dropped - unat (er_dropped_seen r)"
    using assms(5) t(3) by (simp add: unat_sub)
  have adds: "unat (h_lost (er_history ?t)) + unat (er_lost ?t) + unat (dropped - er_dropped_seen ?t) =
      unat (er_kernel_lost ?t) + unat dropped"
    using t(1) d seen unfolding losses_add_up_def t(3) by linarith
  have bound: "unat (er_kernel_lost ?t) + unat dropped < 2 ^ 32" using assms(6) unfolding t(2) .
  have "unat (er_lost ?t) + unat (dropped - er_dropped_seen ?t) < 2 ^ 64" using adds bound by simp
  then have lost: "unat ?lost = unat (er_lost ?t) + unat (dropped - er_dropped_seen ?t)"
    by (subst unat_add_lem [THEN iffD1]) simp_all
  have l32: "unat ?lost < 2 ^ 32" using adds bound unfolding lost by linarith
  then have u: "unat (u32_of_u64 ?lost) = unat ?lost"
    by (simp add: u32_of_u64_def unat_ucast_le take_bit_nat_eq_self unsigned_ucast_eq)
  have told: "unat (h_lost (kernel_lost (u32_of_u64 ?lost) (er_history ?t))) = unat (er_kernel_lost ?t) + unat dropped"
    using adds bound unfolding kernel_lost_def by (simp add: sat_add_unat u lost)
  note none = assembler_release_none [of "er_assembler r" now rs, OF assms(2)]
  obtain a where rel: "assembler_release now rs (er_assembler r) = (a, [])" "as_pending a = []"
    using none by (cases "assembler_release now rs (er_assembler r)") auto
  have r': "r' = (let r = ?t\<lparr>er_dropped_seen := dropped, er_lost := 0, er_assembler := a\<rparr>
      in if ?lost = 0 then r
         else r\<lparr>er_history := kernel_lost (u32_of_u64 ?lost) (er_history r), er_told := er_told r + 1\<rparr>)"
    using rel t(4) by (simp add: assms(7) quiet_def events_turn_def events_release_def Let_def)
  have zero: "unat (h_lost (er_history ?t)) = unat (er_kernel_lost ?t) + unat dropped" if "?lost = 0"
    using adds lost that by simp
  show ?thesis
    using told zero t(2) rel(2) unfolding r' losses_add_up_def Let_def by (cases "?lost = 0") simp_all
qed

lemma quiet_turns_add_up:
  "losses_add_up r \<Longrightarrow> as_pending (er_assembler r) = [] \<Longrightarrow> er_lost r = 0 \<Longrightarrow>
    counts_rise (er_kernel_lost r) (er_dropped_seen r) turns \<Longrightarrow>
    losses_add_up (fold (events_turn ly rs wd listed) (map quiet turns) r) \<and>
    er_lost (fold (events_turn ly rs wd listed) (map quiet turns) r) = 0"
proof (induction turns arbitrary: r)
  case (Cons turn turns)
  obtain totals dropped now where turn: "turn = (totals, dropped, now)" by (cases turn) auto
  have rise: "totals_rise (er_kernel_lost r) totals" "er_dropped_seen r \<le> dropped"
    "unat (last (er_kernel_lost r # totals)) + unat dropped < 2 ^ 32"
    "counts_rise (last (er_kernel_lost r # totals)) dropped turns"
    using Cons.prems(4) unfolding turn by simp_all
  note one = quiet_turn_adds_up [OF Cons.prems(1-3) rise(1-3) refl, of ly rs wd listed now]
  show ?case using Cons.IH [of "events_turn ly rs wd listed (quiet turn) r"] one rise(4) by (simp add: turn)
qed simp

text \<open>
  No loss is forgotten and none is counted twice: while nothing comes but
  the kernel's growing count of its losses and the queue's of what it dropped,
  what the history holds for the next event is the sum of the two counts.
\<close>
theorem losses_are_counted_once:
  assumes "counts_rise 0 0 turns"
  shows "unat (h_lost (er_history (fold (events_turn ly rs wd listed) (map quiet turns) (events_new started_at)))) =
    unat (er_kernel_lost (fold (events_turn ly rs wd listed) (map quiet turns) (events_new started_at))) +
    unat (er_dropped_seen (fold (events_turn ly rs wd listed) (map quiet turns) (events_new started_at)))"
proof -
  have "losses_add_up (events_new started_at)" "as_pending (er_assembler (events_new started_at)) = []"
    "er_lost (events_new started_at) = 0"
    "counts_rise (er_kernel_lost (events_new started_at)) (er_dropped_seen (events_new started_at)) turns"
    using assms by (simp_all add: losses_add_up_def events_new_def history_new_def assembler_default_def)
  from quiet_turns_add_up [OF this, of ly rs wd listed] show ?thesis by (auto simp: losses_add_up_def)
qed

theorem losses_are_counted_once_witness:
  "unat (h_lost (er_history (fold (events_turn plain_layout plain_resolve (\<lambda>_. '''') (\<lambda>_ _. ''''))
    (map quiet [([3, 7], 1, 10), ([], 1, 20), ([9], 5, 30)]) (events_new 5)))) = 14"
proof -
  have c: "counts_rise 0 0 [([3, 7], 1, 10), ([], 1, 20), ([9], 5, 30)]" by simp
  show ?thesis
    unfolding losses_are_counted_once [OF c]
    by (simp add: quiet_def events_turn_def events_release_def events_new_def assembler_default_def
        assembler_release_def kernel_lost_def u32_of_u64_def Let_def)
qed

end
