(* ===== verification/Api.thy ===== *)
theory Api
  imports Events Sample
begin

text \<open>
  \<^verbatim>\<open>src/api.rs\<close>: what the agent shows. A list is tagged (\<^verbatim>\<open>Tagged\<close>) with an etag
  that tells one content of it from another; the type that keeps a tagged list
  up (\<^verbatim>\<open>Versioned\<close>, of the agent kit) is a record of its operations.
\<close>

section \<open>Services\<close>

datatype service_state =
  SvcUnknown | SvcStopped | SvcStartPending | SvcStopPending | SvcRunning | SvcContinuePending
| SvcPausePending | SvcPaused

definition is_pending :: "service_state \<Rightarrow> bool" where
  "is_pending s \<longleftrightarrow> s \<in> {SvcStartPending, SvcStopPending, SvcContinuePending, SvcPausePending}"

record service_status =
  st_state :: service_state
  st_pid :: u32
  st_exit_code :: u32
  st_service_exit_code :: u32
  st_checkpoint :: u32
  st_wait_hint_ms :: u32

datatype service_start_type =
  StartUnknown | StartBoot | StartSystem | StartAutomatic | StartManual | StartDisabled

record service_stats =
  sv_name :: string
  sv_display_name :: string
  sv_pid :: u32
  sv_state :: service_state
  sv_load_group :: string
  sv_description :: string
  sv_image_path :: string
  sv_startup_type :: service_start_type
  sv_delayed_auto :: bool
  sv_account :: string
  sv_service_type :: u32
  sv_accepted_controls :: u32

text \<open>\<^verbatim>\<open>ServiceStats { name, pid, ..Default::default() }\<close>\<close>
definition service_stats_new :: "string \<Rightarrow> u32 \<Rightarrow> service_stats" where
  "service_stats_new name pid =
    \<lparr>sv_name = name, sv_display_name = '''', sv_pid = pid, sv_state = SvcUnknown, sv_load_group = '''',
     sv_description = '''', sv_image_path = '''', sv_startup_type = StartUnknown, sv_delayed_auto = False,
     sv_account = '''', sv_service_type = 0, sv_accepted_controls = 0\<rparr>"

section \<open>Processes\<close>

record process_info =
  pi_pid :: u32
  pi_parent_pid :: u32
  pi_session_id :: u32
  pi_name :: string
  pi_cmdline :: "string list"
  pi_package_full_name :: string
  pi_package_relative_app_id :: string
  pi_is_service :: bool
  pi_is_kernel_process :: bool
  pi_is_windows_process :: bool
  pi_signature :: signature_status
  pi_image_path :: string
  pi_display_name :: string
  pi_console_host_pid :: u32
  pi_start_time :: u64
  pi_sequence_number :: u64
  pi_user :: string
  pi_architecture :: architecture
  pi_elevated :: "bool option"
  pi_uac_virtualization :: uac_virtualization
  pi_isolation :: isolation
  pi_dpi_awareness :: dpi_awareness
  pi_mitigations :: "mitigations option"
  pi_publisher :: string

section \<open>Lists\<close>

record process_states =
  pst_passport_etag :: u64
  pst_states :: "process_state list"

definition process_states_default :: process_states where
  "process_states_default = \<lparr>pst_passport_etag = 0, pst_states = []\<rparr>"

text \<open>\<^verbatim>\<open>Tagged\<close> of the agent kit: its two public fields.\<close>
record 'v tagged =
  tg_etag :: u64
  tg_value :: 'v

record snapshot =
  sn_services :: "service_stats list tagged"
  sn_processes :: "process_info list tagged"
  sn_states :: "process_states tagged"

record changes =
  ch_full :: bool
  ch_passports :: "(u32 \<times> u64) list"
  ch_left :: "(u32 \<times> u64) list"
  ch_states :: "(u32 \<times> u64) list"
  ch_services :: bool

definition changes_default :: changes where
  "changes_default = \<lparr>ch_full = False, ch_passports = [], ch_left = [], ch_states = [], ch_services = False\<rparr>"

record update =
  up_snapshot :: snapshot
  up_sample :: sample
  up_changes :: changes

section \<open>Commands\<close>

datatype command =
  Kill u32 | Suspend u32 | Resume u32 | SetPriority u32 process_priority | SetAffinity u32 u64
| ServiceStart string | ServiceStop string | ServicePause string | ServiceResume string
| ServiceRestart string

text \<open>\<^verbatim>\<open>CommandResult\<close>: Ok, or the Win32 error code.\<close>
type_synonym command_result = "u32 + unit"

section \<open>Versioned lists\<close>

text \<open>
  The operations of \<^verbatim>\<open>Versioned<V>\<close>, which is not of this repository: a list of
  type \<^verbatim>\<open>'v\<close> kept in a state of type \<^verbatim>\<open>'w\<close>.
\<close>
record ('v, 'w) versioned =
  vs_new :: "u64 \<Rightarrow> 'v \<Rightarrow> 'w"
  vs_get :: "'w \<Rightarrow> 'v tagged"
  vs_set :: "'v \<Rightarrow> 'w \<Rightarrow> bool \<times> 'w"
  vs_replace :: "'v \<Rightarrow> 'w \<Rightarrow> 'w"

text \<open>
  What the code relies on: it holds the value it was last given; setting a value
  it holds already changes nothing and says so; another value gets another etag.
\<close>
definition versioned_ok :: "('v, 'w) versioned \<Rightarrow> bool" where
  "versioned_ok api \<longleftrightarrow>
    (\<forall>epoch v. tg_value (vs_get api (vs_new api epoch v)) = v) \<and>
    (\<forall>v w. tg_value (vs_get api (vs_replace api v w)) = v \<and>
       tg_etag (vs_get api (vs_replace api v w)) \<noteq> tg_etag (vs_get api w)) \<and>
    (\<forall>v w. tg_value (vs_get api (snd (vs_set api v w))) = v \<and>
       fst (vs_set api v w) = (tg_value (vs_get api w) \<noteq> v) \<and>
       (tg_etag (vs_get api (snd (vs_set api v w))) = tg_etag (vs_get api w)) = (tg_value (vs_get api w) = v))"

lemma versioned_okD:
  assumes "versioned_ok api"
  shows "tg_value (vs_get api (vs_new api epoch v)) = v"
    "tg_value (vs_get api (vs_replace api v w)) = v"
    "tg_etag (vs_get api (vs_replace api v w)) \<noteq> tg_etag (vs_get api w)"
    "tg_value (vs_get api (snd (vs_set api v w))) = v"
    "fst (vs_set api v w) = (tg_value (vs_get api w) \<noteq> v)"
    "(tg_etag (vs_get api (snd (vs_set api v w))) = tg_etag (vs_get api w)) = (tg_value (vs_get api w) = v)"
  using assms unfolding versioned_ok_def by blast+

text \<open>A counter beside the value keeps these promises.\<close>
definition counting :: "('v, u64 \<times> 'v) versioned" where
  "counting =
    \<lparr>vs_new = (\<lambda>epoch v. (epoch, v)), vs_get = (\<lambda>(n, v). \<lparr>tg_etag = n, tg_value = v\<rparr>),
     vs_set = (\<lambda>v (n, u). if u = v then (False, (n, u)) else (True, (n + 1, v))),
     vs_replace = (\<lambda>v (n, u). (n + 1, v))\<rparr>"

lemma counting_ok: "versioned_ok counting"
  by (simp add: versioned_ok_def counting_def split_def)

end
