(* ===== verification/Ordered_Map.thy ===== *)
theory Ordered_Map
  imports Prelude
begin

text \<open>
  Rust's \<^verbatim>\<open>BTreeMap\<close>: an association list in the order of its keys, so that
  walking its values is walking the list.
\<close>

fun bt_put :: "'k::linorder \<Rightarrow> 'v \<Rightarrow> ('k \<times> 'v) list \<Rightarrow> ('k \<times> 'v) list" where
  "bt_put k v [] = [(k, v)]"
| "bt_put k v ((k', v') # m) =
    (if k < k' then (k, v) # (k', v') # m
     else if k = k' then (k, v) # m
     else (k', v') # bt_put k v m)"

definition bt_del :: "'k \<Rightarrow> ('k \<times> 'v) list \<Rightarrow> ('k \<times> 'v) list" where
  "bt_del k m = filter (\<lambda>(k', _). k' \<noteq> k) m"

abbreviation bt_get :: "('k \<times> 'v) list \<Rightarrow> 'k \<rightharpoonup> 'v" where
  "bt_get \<equiv> map_of"

definition bt_values :: "('k \<times> 'v) list \<Rightarrow> 'v list" where
  "bt_values m = map snd m"

definition bt_ok :: "('k::linorder \<times> 'v) list \<Rightarrow> bool" where
  "bt_ok m = sorted_wrt (<) (map fst m)"

named_theorems bt

lemma bt_ok_Nil [simp]: "bt_ok []"
  by (simp add: bt_ok_def)

lemma bt_keys_put [simp]: "fst ` set (bt_put k v m) = insert k (fst ` set m)"
  by (induction k v m rule: bt_put.induct) (simp_all add: insert_commute)

lemma bt_ok_put [simp]: "bt_ok m \<Longrightarrow> bt_ok (bt_put k v m)"
proof (induction m)
  case (Cons a m)
  obtain k' v' where a: "a = (k', v')" by force
  have "\<forall>x \<in> fst ` set (bt_put k v m). k' < x" if "k' < k"
    using Cons.prems that by (simp add: a bt_ok_def del: image_iff)
  then show ?case using Cons by (auto simp: a bt_ok_def)
qed (simp add: bt_ok_def)

lemma bt_ok_del [simp]: "bt_ok m \<Longrightarrow> bt_ok (bt_del k m)"
  by (induction m) (auto simp: bt_ok_def bt_del_def)

lemma bt_ok_distinct: "bt_ok m \<Longrightarrow> distinct (map fst m)"
  by (induction m) (auto simp: bt_ok_def)

lemma bt_get_put [bt]: "bt_ok m \<Longrightarrow> bt_get (bt_put k v m) = (bt_get m)(k \<mapsto> v)"
proof (induction m)
  case (Cons a m)
  obtain k' v' where a: "a = (k', v')" by force
  have "bt_ok m" using Cons.prems by (simp add: a bt_ok_def)
  from Cons.IH [OF this] show ?case by (auto simp: a)
qed simp

lemma bt_get_del [bt]: "bt_get (bt_del k m) = (bt_get m)(k := None)"
  by (induction m) (auto simp: bt_del_def)

lemma bt_keys_map [simp]: "map fst (hm_map f m) = map fst m"
  by simp

lemma bt_ok_map [simp]: "bt_ok (hm_map f m) = bt_ok m"
  by (simp add: bt_ok_def)

text \<open>The values rewritten, to another type maybe.\<close>
definition bt_view :: "('k \<Rightarrow> 'v \<Rightarrow> 'w) \<Rightarrow> ('k \<times> 'v) list \<Rightarrow> ('k \<times> 'w) list" where
  "bt_view f m = map (\<lambda>(k, v). (k, f k v)) m"

lemma bt_get_view [bt]: "bt_get (bt_view f m) k = map_option (f k) (bt_get m k)"
  by (induction m) (auto simp: bt_view_def)

lemma bt_ok_view [simp]: "bt_ok (bt_view f m) = bt_ok m"
  by (simp add: bt_ok_def bt_view_def comp_def split_def)

text \<open>Two maps in order that agree are the same.\<close>
lemma bt_ext:
  assumes "bt_ok m" "bt_ok m'" "bt_get m = bt_get m'"
  shows "m = m'"
proof -
  have set: "set m = set m'"
    using assms map_of_inject_set [OF bt_ok_distinct bt_ok_distinct] by blast
  have "sorted (map fst m)" "sorted (map fst m')"
    using assms(1,2) strict_sorted_imp_sorted unfolding bt_ok_def by blast+
  moreover have "inj_on fst (set m \<union> set m')"
    using bt_ok_distinct [OF assms(1)] unfolding set [symmetric] distinct_map by simp
  ultimately show ?thesis
    using map_sorted_distinct_set_unique bt_ok_distinct [OF assms(1)] bt_ok_distinct [OF assms(2)] set by blast
qed

end
