(* ===== verification/Feed.thy ===== *)
theory Feed
  imports Api Ordered_Map Process_Table
begin

text \<open>
  \<^verbatim>\<open>src/feed.rs\<close>: the agent's picture, kept up by the core's diffs, the service
  scans and the statuses of followed services, and what is published of it. An
  \<^verbatim>\<open>Arc<Sample>\<close> is its address with the sample; the time of a call is an
  argument; the versioned lists are those of \<^verbatim>\<open>Api\<close>.
\<close>

section \<open>Processes gone lately\<close>

definition GONE_KEPT :: duration where
  "GONE_KEPT = secs 10"

record gone_list =
  gl_order :: "(instant \<times> u32 \<times> u64) list"
  gl_images :: "(u32 \<times> u64, instant \<times> string) hashmap"

definition gone_default :: gone_list where
  "gone_default = \<lparr>gl_order = [], gl_images = []\<rparr>"

text \<open>The loop of \<^verbatim>\<open>remember\<close> that forgets who left too long ago.\<close>
function forget :: "instant \<Rightarrow> gone_list \<Rightarrow> gone_list" where
  "forget now gl =
    (case gl_order gl of
       [] \<Rightarrow> gl
     | (at, key) # order \<Rightarrow>
         if now - at > GONE_KEPT then
           (let gl = gl\<lparr>gl_order := order\<rparr>;
                gl = (case hm_get (gl_images gl) key of
                        Some (left_at, _) \<Rightarrow>
                          if left_at = at then gl\<lparr>gl_images := hm_del key (gl_images gl)\<rparr> else gl
                      | None \<Rightarrow> gl)
            in forget now gl)
         else gl)"
  by pat_completeness auto
termination
  by (relation "measure (\<lambda>(_, gl). length (gl_order gl))") (auto split: option.splits)

declare forget.simps [simp del]

definition remember :: "u32 \<Rightarrow> u64 \<Rightarrow> string \<Rightarrow> instant \<Rightarrow> gone_list \<Rightarrow> gone_list" where
  "remember pid seq img now gl =
    (let gl = forget now gl
     in gl\<lparr>gl_order := gl_order gl @ [(now, pid, seq)],
           gl_images := hm_put (pid, seq) (now, img) (gl_images gl)\<rparr>)"

definition gone_image :: "u32 \<Rightarrow> u64 \<Rightarrow> instant \<Rightarrow> gone_list \<Rightarrow> string" where
  "gone_image pid seq now gl =
    (case hm_get (gl_images gl) (pid, seq) of
       Some (left_at, img) \<Rightarrow> if now - left_at \<le> GONE_KEPT then img else ''''
     | None \<Rightarrow> '''')"

section \<open>The picture\<close>

text \<open>The versioned lists of a picture.\<close>
record ('p, 's, 'c) kit =
  kt_processes :: "(process_info list, 'p) versioned"
  kt_states :: "(process_states, 's) versioned"
  kt_services :: "(service_stats list, 'c) versioned"

record ('p, 's, 'c) picture =
  pc_passports :: "(u32 \<times> process_info) list"
  pc_process_states :: "(u32 \<times> process_state) list"
  pc_taken :: "nat \<times> sample"
  pc_health :: "health option"
  pc_service_pids :: "u32 set"
  pc_processes :: 'p
  pc_states :: 's
  pc_sample :: sample
  pc_services :: 'c
  pc_followed :: "(string, service_state \<times> u32) hashmap"
  pc_gone :: gone_list

text \<open>\<^verbatim>\<open>Picture::new\<close>: \<^verbatim>\<open>epoch\<close> is the tag the versioned lists start from.\<close>
definition picture_new :: "('p, 's, 'c) kit \<Rightarrow> u64 \<Rightarrow> ('p, 's, 'c) picture" where
  "picture_new kit epoch =
    \<lparr>pc_passports = [], pc_process_states = [], pc_taken = (0, sample_default), pc_health = None,
     pc_service_pids = {}, pc_processes = vs_new (kt_processes kit) epoch [],
     pc_states = vs_new (kt_states kit) epoch process_states_default, pc_sample = sample_default,
     pc_services = vs_new (kt_services kit) epoch [], pc_followed = [], pc_gone = gone_default\<rparr>"

definition info :: "process \<Rightarrow> bool \<Rightarrow> process_info" where
  "info p is_service =
    \<lparr>pi_pid = pr_pid p, pi_parent_pid = pr_parent_pid p, pi_session_id = pr_session_id p,
     pi_name = pr_name p, pi_cmdline = pr_cmdline p, pi_package_full_name = pr_package_full_name p,
     pi_package_relative_app_id = pr_package_relative_app_id p, pi_is_service = is_service,
     pi_is_kernel_process = pr_is_kernel_process p, pi_is_windows_process = pr_is_windows_process p,
     pi_signature = pr_signature p, pi_image_path = pr_image_path p, pi_display_name = pr_display_name p,
     pi_console_host_pid = pr_console_host_pid p, pi_start_time = pr_start_time p,
     pi_sequence_number = pr_sequence_number p, pi_user = pr_user p, pi_architecture = pr_architecture p,
     pi_elevated = pr_elevated p, pi_uac_virtualization = pr_uac_virtualization p,
     pi_isolation = pr_isolation p, pi_dpi_awareness = pr_dpi_awareness p,
     pi_mitigations = pr_mitigations p, pi_publisher = pr_publisher p\<rparr>"

type_synonym losses = "string \<times> bool \<times> bool \<times> u32 \<times> u32 \<times> u32"

definition losses_of :: "session_health \<Rightarrow> losses" where
  "losses_of s =
    (sh_name s, sh_running s, sh_pumping s, sh_events_lost s, sh_realtime_buffers_lost s, sh_log_buffers_lost s)"

definition news :: "health \<Rightarrow> health \<Rightarrow> bool" where
  "news last_health now \<longleftrightarrow>
    h_dropped_by_sink last_health \<noteq> h_dropped_by_sink now \<or>
    h_snapshot_error last_health \<noteq> h_snapshot_error now \<or>
    map losses_of (h_sessions last_health) \<noteq> map losses_of (h_sessions now)"

definition stamp :: "('p, 's, 'c) kit \<Rightarrow> ('p, 's, 'c) picture \<Rightarrow> ('p, 's, 'c) picture" where
  "stamp kit pic =
    (let etag = tg_etag (vs_get (kt_processes kit) (pc_processes pic))
     in pic\<lparr>pc_states :=
              snd (vs_set (kt_states kit)
                \<lparr>pst_passport_etag = etag, pst_states = bt_values (pc_process_states pic)\<rparr> (pc_states pic)),
            pc_sample := (snd (pc_taken pic))\<lparr>s_passport_etag := etag\<rparr>\<rparr>)"

definition list_processes :: "('p, 's, 'c) kit \<Rightarrow> ('p, 's, 'c) picture \<Rightarrow> ('p, 's, 'c) picture" where
  "list_processes kit pic =
    stamp kit (pic\<lparr>pc_processes :=
      vs_replace (kt_processes kit) (bt_values (pc_passports pic)) (pc_processes pic)\<rparr>)"

text \<open>One process of \<^verbatim>\<open>diff.gone\<close>; whether the list moved goes along.\<close>
definition gone_one :: "instant \<Rightarrow> u32 \<times> u64 \<Rightarrow> ('p, 's, 'c) picture \<times> bool \<Rightarrow> ('p, 's, 'c) picture \<times> bool" where
  "gone_one now = (\<lambda>(pid, seq) (pic, listed).
    case bt_get (pc_passports pic) pid of
      Some p \<Rightarrow>
        if pi_sequence_number p = seq then
          (pic\<lparr>pc_passports := bt_del pid (pc_passports pic),
               pc_process_states := bt_del pid (pc_process_states pic),
               pc_gone := remember pid seq (pi_image_path p) now (pc_gone pic)\<rparr>, True)
        else (pic, listed)
    | None \<Rightarrow> (pic, listed))"

definition passport_one :: "process \<Rightarrow> ('p, 's, 'c) picture \<times> bool \<Rightarrow> ('p, 's, 'c) picture \<times> bool" where
  "passport_one p = (\<lambda>(pic, listed).
    let process = info p (pr_pid p \<in> pc_service_pids pic)
    in if bt_get (pc_passports pic) (pi_pid process) \<noteq> Some process
       then (pic\<lparr>pc_passports := bt_put (pi_pid process) process (pc_passports pic)\<rparr>, True)
       else (pic, listed))"

definition state_one :: "process_state \<Rightarrow> ('p, 's, 'c) picture \<Rightarrow> ('p, 's, 'c) picture" where
  "state_one st pic = pic\<lparr>pc_process_states := bt_put (ps_pid st) st (pc_process_states pic)\<rparr>"

text \<open>
  \<^verbatim>\<open>Picture::update\<close>; \<^verbatim>\<open>addr\<close> is the address of the diff's sample. The diff is left
  empty, which is its return to the core.
\<close>
definition picture_update ::
  "('p, 's, 'c) kit \<Rightarrow> instant \<Rightarrow> nat \<Rightarrow> diff \<Rightarrow> health \<Rightarrow> ('p, 's, 'c) picture \<Rightarrow> bool \<times> ('p, 's, 'c) picture" where
  "picture_update kit now addr diff health pic =
    (let restated = df_states diff \<noteq> [] \<or> df_sample diff \<noteq> None;
         told = (case pc_health pic of None \<Rightarrow> True | Some last_health \<Rightarrow> news last_health health);
         (pic, listed) = fold (gone_one now) (df_gone diff) (pic, False);
         (pic, listed) = fold passport_one (df_passports diff) (pic, listed);
         pic = fold state_one (df_states diff) pic;
         pic = (case df_sample diff of Some sample \<Rightarrow> pic\<lparr>pc_taken := (addr, sample)\<rparr> | None \<Rightarrow> pic);
         pic = pic\<lparr>pc_health := Some health\<rparr>;
         pic = (if listed then list_processes kit pic else if restated then stamp kit pic else pic)
     in (listed \<or> restated \<or> told, pic))"

text \<open>A followed service's status wins over the scan's.\<close>
definition follow_service :: "(string, service_state \<times> u32) hashmap \<Rightarrow> service_stats \<Rightarrow> service_stats" where
  "follow_service followed service =
    (case hm_get followed (sv_name service) of
       Some (state, pid) \<Rightarrow> service\<lparr>sv_state := state, sv_pid := pid\<rparr>
     | None \<Rightarrow> service)"

definition pids_of_services :: "service_stats list \<Rightarrow> u32 set" where
  "pids_of_services services = set (filter (\<lambda>pid. pid \<noteq> 0) (map sv_pid services))"

text \<open>The flag of a process whose pid began or ceased to run a service.\<close>
definition set_service :: "u32 set \<Rightarrow> u32 set \<Rightarrow> u32 \<Rightarrow> process_info \<Rightarrow> process_info" where
  "set_service before pids pid process =
    (if pid \<in> (pids - before) \<union> (before - pids) then process\<lparr>pi_is_service := pid \<in> pids\<rparr> else process)"

definition picture_services ::
  "('p, 's, 'c) kit \<Rightarrow> service_stats list \<Rightarrow> ('p, 's, 'c) picture \<Rightarrow> bool \<times> ('p, 's, 'c) picture" where
  "picture_services kit services pic =
    (let services = map (follow_service (pc_followed pic)) services;
         (moved, kept) = vs_set (kt_services kit) services (pc_services pic);
         pic = pic\<lparr>pc_services := kept\<rparr>;
         pids = pids_of_services (tg_value (vs_get (kt_services kit) kept))
     in if pids \<noteq> pc_service_pids pic then
          (True, list_processes kit
            (pic\<lparr>pc_passports :=
               hm_map (set_service (pc_service_pids pic) pids) (pc_passports pic),
               pc_service_pids := pids\<rparr>))
        else (moved, pic))"

definition service_status_of ::
  "('p, 's, 'c) kit \<Rightarrow> string \<Rightarrow> service_status option \<Rightarrow> ('p, 's, 'c) picture \<Rightarrow> bool \<times> ('p, 's, 'c) picture" where
  "service_status_of kit name status pic =
    (case status of
       None \<Rightarrow> (False, pic\<lparr>pc_followed := hm_del name (pc_followed pic)\<rparr>)
     | Some status \<Rightarrow>
         (let pic = pic\<lparr>pc_followed := hm_put name (st_state status, st_pid status) (pc_followed pic)\<rparr>
          in picture_services kit (tg_value (vs_get (kt_services kit) (pc_services pic))) pic))"

section \<open>Publishing\<close>

record published =
  pb_snapshot :: snapshot
  pb_sample :: sample
  pb_dropped_by_sink :: u64
  pb_sessions :: "session_health list"
  pb_snapshot_error :: "string option"
  pb_reported_at :: "instant option"

definition publish :: "('p, 's, 'c) kit \<Rightarrow> ('p, 's, 'c) picture \<Rightarrow> published" where
  "publish kit pic =
    \<lparr>pb_snapshot =
       \<lparr>sn_services = vs_get (kt_services kit) (pc_services pic),
        sn_processes = vs_get (kt_processes kit) (pc_processes pic),
        sn_states = vs_get (kt_states kit) (pc_states pic)\<rparr>,
     pb_sample = pc_sample pic,
     pb_dropped_by_sink = (case pc_health pic of Some h \<Rightarrow> h_dropped_by_sink h | None \<Rightarrow> 0),
     pb_sessions = (case pc_health pic of Some h \<Rightarrow> h_sessions h | None \<Rightarrow> []),
     pb_snapshot_error = (case pc_health pic of Some h \<Rightarrow> h_snapshot_error h | None \<Rightarrow> None),
     pb_reported_at = map_option h_taken_at (pc_health pic)\<rparr>"

text \<open>What the sources tell: a tick of the core (when it is applied, where its sample lies), a scan, a status.\<close>
datatype change =
  Core instant nat diff health | Scan "service_stats list" | Status string "service_status option"

fun picture_apply ::
  "('p, 's, 'c) kit \<Rightarrow> change \<Rightarrow> ('p, 's, 'c) picture \<Rightarrow> bool \<times> ('p, 's, 'c) picture" where
  "picture_apply kit (Core now addr diff health) pic = picture_update kit now addr diff health pic"
| "picture_apply kit (Scan services) pic = picture_services kit services pic"
| "picture_apply kit (Status name status) pic = service_status_of kit name status pic"

text \<open>One change of the loop of \<^verbatim>\<open>paint\<close>: the picture, whether news wait, what was published.\<close>
definition paint_one ::
  "('p, 's, 'c) kit \<Rightarrow> change \<Rightarrow> ('p, 's, 'c) picture \<times> bool \<times> published list \<Rightarrow>
    ('p, 's, 'c) picture \<times> bool \<times> published list" where
  "paint_one kit change = (\<lambda>(pic, told, out).
    let taken = fst (pc_taken pic);
        (moved, pic) = picture_apply kit change pic;
        told = (told \<or> moved)
    in if told \<and> taken \<noteq> fst (pc_taken pic) then (pic, False, out @ [publish kit pic]) else (pic, told, out))"

definition paint ::
  "('p, 's, 'c) kit \<Rightarrow> change list \<Rightarrow> ('p, 's, 'c) picture \<Rightarrow> ('p, 's, 'c) picture \<times> published list" where
  "paint kit batch pic =
    (let (pic, told, out) = fold (paint_one kit) batch (pic, False, [])
     in (pic, if told then out @ [publish kit pic] else out))"

definition listed_image :: "process_info list \<Rightarrow> u32 \<Rightarrow> u64 \<Rightarrow> string option" where
  "listed_image processes pid seq =
    map_option pi_image_path (List.find (\<lambda>p. pi_pid p = pid \<and> pi_sequence_number p = seq) processes)"

text \<open>\<^verbatim>\<open>Feed::image_of\<close>, from what was published last and who is gone.\<close>
definition feed_image_of :: "published \<Rightarrow> gone_list \<Rightarrow> u32 \<Rightarrow> u64 \<Rightarrow> instant \<Rightarrow> string" where
  "feed_image_of latest gl pid seq now =
    (case listed_image (tg_value (sn_processes (pb_snapshot latest))) pid seq of
       Some img \<Rightarrow> img
     | None \<Rightarrow> gone_image pid seq now gl)"

section \<open>What an update does to the maps\<close>

abbreviation passports_of :: "('p, 's, 'c) picture \<Rightarrow> u32 \<rightharpoonup> process_info" where
  "passports_of pic \<equiv> bt_get (pc_passports pic)"

abbreviation states_of :: "('p, 's, 'c) picture \<Rightarrow> u32 \<rightharpoonup> process_state" where
  "states_of pic \<equiv> bt_get (pc_process_states pic)"

definition maps_ok :: "('p, 's, 'c) picture \<Rightarrow> bool" where
  "maps_ok pic \<longleftrightarrow> bt_ok (pc_passports pic) \<and> bt_ok (pc_process_states pic)"

text \<open>Two pictures that differ at most in the processes, their states and who is gone.\<close>
definition same_else :: "('p, 's, 'c) picture \<Rightarrow> ('p, 's, 'c) picture \<Rightarrow> bool" where
  "same_else pic pic' \<longleftrightarrow>
    pc_taken pic' = pc_taken pic \<and> pc_health pic' = pc_health pic \<and>
    pc_service_pids pic' = pc_service_pids pic \<and> pc_processes pic' = pc_processes pic \<and>
    pc_states pic' = pc_states pic \<and> pc_sample pic' = pc_sample pic \<and>
    pc_services pic' = pc_services pic \<and> pc_followed pic' = pc_followed pic"

lemma same_else_refl [simp]: "same_else pic pic"
  by (simp add: same_else_def)

lemma same_else_trans: "same_else a b \<Longrightarrow> same_else b c \<Longrightarrow> same_else a c"
  by (simp add: same_else_def)

definition paired_maps :: "('p, 's, 'c) picture \<Rightarrow> bool" where
  "paired_maps pic \<longleftrightarrow>
    (\<forall>pid. map_option pi_sequence_number (passports_of pic pid) = map_option ps_sequence_number (states_of pic pid))"

lemma minus_gone_Un: "minus_gone vseq (minus_gone vseq base A) B = minus_gone vseq base (A \<union> B)"
  by (rule ext) (simp add: minus_gone_def split: option.splits)

lemma minus_gone_one:
  "minus_gone vseq base {(k, n)} =
    (if (\<exists>v. base k = Some v \<and> vseq v = n) then base(k := None) else base)"
  by (rule ext) (auto simp: minus_gone_def split: option.splits)

lemma minus_gone_empty [simp]: "minus_gone vseq base {} = base"
  by (rule ext) (simp add: minus_gone_def split: option.splits)

lemma gone_one_maps:
  assumes "maps_ok pic" "paired_maps pic" "gone_one now g (pic, listed) = (pic', listed')"
  shows "maps_ok pic' \<and> paired_maps pic' \<and> same_else pic pic' \<and>
    passports_of pic' = minus_gone pi_sequence_number (passports_of pic) {g} \<and>
    states_of pic' = minus_gone ps_sequence_number (states_of pic) {g} \<and>
    (listed' \<or> pc_passports pic' = pc_passports pic \<and> pc_process_states pic' = pc_process_states pic) \<and>
    (listed \<longrightarrow> listed')"
proof -
  obtain pid seq where g: "g = (pid, seq)" by force
  have pair: "map_option pi_sequence_number (passports_of pic pid) = map_option ps_sequence_number (states_of pic pid)"
    using assms(2) by (simp add: paired_maps_def)
  show ?thesis
  proof (cases "\<exists>p. passports_of pic pid = Some p \<and> pi_sequence_number p = seq")
    case True
    then obtain p where p: "passports_of pic pid = Some p" "pi_sequence_number p = seq" by blast
    then obtain s where s: "states_of pic pid = Some s" "ps_sequence_number s = seq"
      using pair by (cases "states_of pic pid") auto
    have pic': "pic' = pic\<lparr>pc_passports := bt_del pid (pc_passports pic),
        pc_process_states := bt_del pid (pc_process_states pic),
        pc_gone := remember pid seq (pi_image_path p) now (pc_gone pic)\<rparr>" "listed'"
      using assms(3) p by (simp_all add: gone_one_def g)
    show ?thesis
      using assms(1,2) p s pic'(2)
      by (simp add: pic'(1) g maps_ok_def bt paired_maps_def same_else_def minus_gone_one)
  next
    case False
    then have same: "pic' = pic" "listed' = listed"
      using assms(3) by (auto simp: gone_one_def g split: option.splits)
    have "\<not> (\<exists>s. states_of pic pid = Some s \<and> ps_sequence_number s = seq)" using False pair by auto
    then show ?thesis using assms(1,2) False same unfolding g minus_gone_one by auto
  qed
qed

lemma gone_all_maps:
  assumes "maps_ok pic" "paired_maps pic" "fold (gone_one now) gs (pic, listed) = (pic', listed')"
  shows "maps_ok pic' \<and> same_else pic pic' \<and>
    passports_of pic' = minus_gone pi_sequence_number (passports_of pic) (set gs) \<and>
    states_of pic' = minus_gone ps_sequence_number (states_of pic) (set gs) \<and>
    (listed' \<or> pc_passports pic' = pc_passports pic \<and> pc_process_states pic' = pc_process_states pic) \<and>
    (listed \<longrightarrow> listed')"
  using assms
proof (induction gs arbitrary: pic listed)
  case (Cons g gs)
  obtain pic1 listed1 where one: "gone_one now g (pic, listed) = (pic1, listed1)" by force
  note m = gone_one_maps [OF Cons.prems(1,2) one]
  have rest: "fold (gone_one now) gs (pic1, listed1) = (pic', listed')" using Cons.prems(3) one by simp
  have ok: "maps_ok pic1" "paired_maps pic1" using m by blast+
  note IH = Cons.IH [OF ok rest]
  have set: "set (g # gs) = {g} \<union> set gs" by simp
  have "passports_of pic' = minus_gone pi_sequence_number (passports_of pic) (set (g # gs))"
    "states_of pic' = minus_gone ps_sequence_number (states_of pic) (set (g # gs))"
    unfolding set minus_gone_Un [symmetric] using m IH by simp_all
  moreover have "same_else pic pic'" using m IH same_else_trans [of pic pic1 pic'] by blast
  ultimately show ?case using m IH by metis
qed simp

lemma passport_one_maps:
  assumes "maps_ok pic" "passport_one p (pic, listed) = (pic', listed')"
  shows "maps_ok pic' \<and> same_else pic pic' \<and> pc_process_states pic' = pc_process_states pic \<and>
    passports_of pic' = (passports_of pic)(pr_pid p \<mapsto> info p (pr_pid p \<in> pc_service_pids pic)) \<and>
    (listed' \<or> pc_passports pic' = pc_passports pic) \<and> (listed \<longrightarrow> listed')"
proof (cases "passports_of pic (pr_pid p) = Some (info p (pr_pid p \<in> pc_service_pids pic))")
  case True
  then have "pic' = pic" "listed' = listed" using assms(2) by (simp_all add: passport_one_def info_def)
  then show ?thesis using assms(1) True by (simp add: map_upd_triv)
next
  case False
  then have "pic' = pic\<lparr>pc_passports :=
      bt_put (pr_pid p) (info p (pr_pid p \<in> pc_service_pids pic)) (pc_passports pic)\<rparr>" "listed'"
    using assms(2) by (auto simp: passport_one_def info_def)
  then show ?thesis using assms(1) by (simp add: maps_ok_def bt same_else_def)
qed

lemma passport_all_maps:
  assumes "maps_ok pic" "fold passport_one ps (pic, listed) = (pic', listed')"
  shows "maps_ok pic' \<and> same_else pic pic' \<and> pc_process_states pic' = pc_process_states pic \<and>
    passports_of pic' =
      passports_of pic ++ map_of (map (\<lambda>p. (pr_pid p, info p (pr_pid p \<in> pc_service_pids pic))) (rev ps)) \<and>
    (listed' \<or> pc_passports pic' = pc_passports pic) \<and> (listed \<longrightarrow> listed')"
  using assms
proof (induction ps arbitrary: pic listed)
  case (Cons p ps)
  obtain pic1 listed1 where one: "passport_one p (pic, listed) = (pic1, listed1)" by force
  note m = passport_one_maps [OF Cons.prems(1) one]
  have rest: "fold passport_one ps (pic1, listed1) = (pic', listed')" using Cons.prems(2) one by simp
  have ok: "maps_ok pic1" using m by blast
  note IH = Cons.IH [OF ok rest]
  have pids: "pc_service_pids pic1 = pc_service_pids pic" using m by (simp add: same_else_def)
  have "passports_of pic' =
      passports_of pic ++ map_of (map (\<lambda>p. (pr_pid p, info p (pr_pid p \<in> pc_service_pids pic))) (rev (p # ps)))"
    using m IH unfolding pids by (simp add: map_add_def fun_eq_iff split: option.splits)
  moreover have "same_else pic pic'" using m IH same_else_trans [of pic pic1 pic'] by blast
  ultimately show ?case using m IH by metis
qed simp

lemma state_all_maps:
  assumes "maps_ok pic"
  shows "maps_ok (fold state_one ss pic) \<and> same_else pic (fold state_one ss pic) \<and>
    pc_passports (fold state_one ss pic) = pc_passports pic \<and>
    states_of (fold state_one ss pic) = states_of pic ++ map_of (map (\<lambda>s. (ps_pid s, s)) (rev ss))"
  using assms
proof (induction ss arbitrary: pic)
  case (Cons s ss)
  let ?pic = "state_one s pic"
  have one: "maps_ok ?pic" "same_else pic ?pic" "pc_passports ?pic = pc_passports pic"
    "states_of ?pic = (states_of pic)(ps_pid s \<mapsto> s)"
    using Cons.prems by (simp_all add: state_one_def maps_ok_def bt same_else_def)
  note IH = Cons.IH [OF one(1)]
  have "same_else pic (fold state_one (s # ss) pic)" using one(2) IH same_else_trans [of pic ?pic] by simp
  then show ?case using one IH by (simp add: map_add_def fun_eq_iff split: option.splits)
qed simp

text \<open>A later element of a list of the same pid is the same element.\<close>
lemma map_of_rev_same:
  assumes "\<And>x y. x \<in> set xs \<Longrightarrow> y \<in> set xs \<Longrightarrow> key x = key y \<Longrightarrow> x = y"
  shows "map_of (map (\<lambda>x. (key x, f x)) (rev xs)) = map_of (map (\<lambda>x. (key x, f x)) xs)"
proof
  fix k
  have "map_of (map (\<lambda>x. (key x, f x)) ys) k = (if x \<in> set ys then Some (f x) else None)"
    if "x \<in> set xs" "key x = k" "set ys \<subseteq> set xs" for x ys
    using that(3)
  proof (induction ys)
    case (Cons y ys)
    then show ?case using assms [of x y] that(1,2) by auto
  qed simp
  moreover have "map_of (map (\<lambda>x. (key x, f x)) ys) k = None" if "\<forall>x \<in> set xs. key x \<noteq> k" "set ys \<subseteq> set xs" for ys
    using that by (auto simp: map_of_eq_None_iff)
  ultimately show "map_of (map (\<lambda>x. (key x, f x)) (rev xs)) k = map_of (map (\<lambda>x. (key x, f x)) xs) k"
    by (cases "\<exists>x \<in> set xs. key x = k") (metis set_rev subset_refl)+
qed

section \<open>The picture's promises\<close>

definition kit_ok :: "('p, 's, 'c) kit \<Rightarrow> bool" where
  "kit_ok kit \<longleftrightarrow>
    versioned_ok (kt_processes kit) \<and> versioned_ok (kt_states kit) \<and> versioned_ok (kt_services kit)"

abbreviation list_etag :: "('p, 's, 'c) kit \<Rightarrow> ('p, 's, 'c) picture \<Rightarrow> u64" where
  "list_etag kit pic \<equiv> tg_etag (vs_get (kt_processes kit) (pc_processes pic))"

text \<open>The states and the sample were stamped with the list as it stands.\<close>
definition stamped :: "('p, 's, 'c) kit \<Rightarrow> ('p, 's, 'c) picture \<Rightarrow> bool" where
  "stamped kit pic \<longleftrightarrow>
    tg_value (vs_get (kt_states kit) (pc_states pic)) =
      \<lparr>pst_passport_etag = list_etag kit pic, pst_states = bt_values (pc_process_states pic)\<rparr> \<and>
    pc_sample pic = (snd (pc_taken pic))\<lparr>s_passport_etag := list_etag kit pic\<rparr>"

text \<open>Nothing was listed yet.\<close>
definition untouched :: "('p, 's, 'c) kit \<Rightarrow> ('p, 's, 'c) picture \<Rightarrow> bool" where
  "untouched kit pic \<longleftrightarrow>
    pc_passports pic = [] \<and> pc_process_states pic = [] \<and>
    tg_value (vs_get (kt_states kit) (pc_states pic)) = process_states_default"

definition coherent :: "('p, 's, 'c) kit \<Rightarrow> ('p, 's, 'c) picture \<Rightarrow> bool" where
  "coherent kit pic \<longleftrightarrow>
    tg_value (vs_get (kt_processes kit) (pc_processes pic)) = bt_values (pc_passports pic) \<and>
    pc_service_pids pic = pids_of_services (tg_value (vs_get (kt_services kit) (pc_services pic))) \<and>
    (stamped kit pic \<or> untouched kit pic)"

text \<open>The picture holds what a reader of the core's diffs holds.\<close>
definition shown :: "('p, 's, 'c) picture \<Rightarrow> (u32 \<rightharpoonup> process) \<Rightarrow> (u32 \<rightharpoonup> process_state) \<Rightarrow> bool" where
  "shown pic ps ss \<longleftrightarrow>
    maps_ok pic \<and>
    passports_of pic = (\<lambda>pid. map_option (\<lambda>p. info p (pid \<in> pc_service_pids pic)) (ps pid)) \<and>
    states_of pic = ss"

text \<open>A reader's maps hold each process once, with its state.\<close>
definition views :: "(u32 \<rightharpoonup> process) \<Rightarrow> (u32 \<rightharpoonup> process_state) \<Rightarrow> bool" where
  "views ps ss \<longleftrightarrow>
    (\<forall>pid. map_option pr_sequence_number (ps pid) = map_option ps_sequence_number (ss pid)) \<and>
    (\<forall>pid p. ps pid = Some p \<longrightarrow> pr_pid p = pid) \<and> (\<forall>pid s. ss pid = Some s \<longrightarrow> ps_pid s = pid)"

text \<open>A diff tells each process once.\<close>
definition tidy :: "diff \<Rightarrow> bool" where
  "tidy d \<longleftrightarrow>
    (\<forall>p \<in> set (df_passports d). \<forall>q \<in> set (df_passports d). pr_pid p = pr_pid q \<longrightarrow> p = q) \<and>
    (\<forall>s \<in> set (df_states d). \<forall>r \<in> set (df_states d). ps_pid s = ps_pid r \<longrightarrow> s = r)"

lemma info_simps [simp]:
  "pi_pid (info p b) = pr_pid p" "pi_sequence_number (info p b) = pr_sequence_number p"
  "pi_is_service (info p b) = b" "(info p b)\<lparr>pi_is_service := c\<rparr> = info p c"
  "pi_image_path (info p b) = pr_image_path p"
  by (simp_all add: info_def)

lemma stamp_simps [simp]:
  "pc_passports (stamp kit pic) = pc_passports pic" "pc_process_states (stamp kit pic) = pc_process_states pic"
  "pc_service_pids (stamp kit pic) = pc_service_pids pic" "pc_taken (stamp kit pic) = pc_taken pic"
  "pc_processes (stamp kit pic) = pc_processes pic" "pc_services (stamp kit pic) = pc_services pic"
  "pc_health (stamp kit pic) = pc_health pic" "pc_gone (stamp kit pic) = pc_gone pic"
  by (simp_all add: stamp_def Let_def)

lemma list_processes_simps [simp]:
  "pc_passports (list_processes kit pic) = pc_passports pic"
  "pc_process_states (list_processes kit pic) = pc_process_states pic"
  "pc_service_pids (list_processes kit pic) = pc_service_pids pic"
  "pc_services (list_processes kit pic) = pc_services pic"
  "pc_taken (list_processes kit pic) = pc_taken pic"
  "pc_health (list_processes kit pic) = pc_health pic"
  by (simp_all add: list_processes_def)

lemma stamped_stamp: "kit_ok kit \<Longrightarrow> stamped kit (stamp kit pic)"
  by (simp add: stamped_def stamp_def Let_def kit_ok_def versioned_okD)

lemma coherent_list:
  "kit_ok kit \<Longrightarrow>
    pc_service_pids pic = pids_of_services (tg_value (vs_get (kt_services kit) (pc_services pic))) \<Longrightarrow>
    coherent kit (list_processes kit pic)"
  using stamped_stamp by (auto simp: coherent_def list_processes_def kit_ok_def versioned_okD)

lemma coherent_stamp:
  "kit_ok kit \<Longrightarrow>
    tg_value (vs_get (kt_processes kit) (pc_processes pic)) = bt_values (pc_passports pic) \<Longrightarrow>
    pc_service_pids pic = pids_of_services (tg_value (vs_get (kt_services kit) (pc_services pic))) \<Longrightarrow>
    coherent kit (stamp kit pic)"
  using stamped_stamp by (auto simp: coherent_def)

lemma shown_same_else: "same_else pic pic' \<Longrightarrow> shown pic' ps ss \<Longrightarrow>
    pc_service_pids pic' = pc_service_pids pic"
  by (simp add: same_else_def)

lemma shown_paired:
  assumes "shown pic ps ss" "views ps ss"
  shows "paired_maps pic"
  unfolding paired_maps_def
proof
  fix pid
  have "map_option pi_sequence_number (passports_of pic pid) = map_option pr_sequence_number (ps pid)"
    using assms(1) by (simp add: shown_def option.map_comp comp_def)
  then show "map_option pi_sequence_number (passports_of pic pid) = map_option ps_sequence_number (states_of pic pid)"
    using assms by (simp add: shown_def views_def)
qed

lemma folds_show:
  assumes "shown pic ps ss" "views ps ss" "tidy d"
    and g: "fold (gone_one now) (df_gone d) (pic, False) = (pic1, listed1)"
    and p: "fold passport_one (df_passports d) (pic1, listed1) = (pic2, listed2)"
  shows "shown (fold state_one (df_states d) pic2) (apply_passports ps d) (apply_states ss d) \<and>
    same_else pic (fold state_one (df_states d) pic2) \<and>
    (listed2 \<or> pc_passports (fold state_one (df_states d) pic2) = pc_passports pic \<and>
      (df_states d = [] \<longrightarrow> pc_process_states (fold state_one (df_states d) pic2) = pc_process_states pic))"
proof -
  let ?pic3 = "fold state_one (df_states d) pic2" and ?pids = "pc_service_pids pic"
  have ok: "maps_ok pic" using assms(1) by (simp add: shown_def)
  note m1 = gone_all_maps [OF ok shown_paired [OF assms(1,2)] g]
  have ok1: "maps_ok pic1" using m1 by blast
  note m2 = passport_all_maps [OF ok1 p]
  have ok2: "maps_ok pic2" using m2 by blast
  note m3 = state_all_maps [OF ok2, of "df_states d"]
  have pids: "pc_service_pids pic1 = ?pids" "pc_service_pids ?pic3 = ?pids"
    using m1 m2 m3 by (simp_all add: same_else_def)
  have same: "same_else pic ?pic3"
    using m1 m2 m3 same_else_trans [of pic pic1 pic2] same_else_trans [of pic pic2 ?pic3] by blast
  let ?info = "\<lambda>pid p. info p (pid \<in> ?pids)"
  have ps_gone: "minus_gone pi_sequence_number (passports_of pic) G pid =
      map_option (?info pid) (minus_gone pr_sequence_number ps G pid)" for G pid
    using assms(1) by (simp add: shown_def minus_gone_def split: option.splits)
  have rev: "map_of (map (\<lambda>p. (pr_pid p, ?info (pr_pid p) p)) (rev (df_passports d))) =
      map_of (map (\<lambda>p. (pr_pid p, ?info (pr_pid p) p)) (df_passports d))"
    by (rule map_of_rev_same) (use assms(3) in \<open>auto simp: tidy_def\<close>)
  have "map_of (map (\<lambda>p. (pr_pid p, ?info (pr_pid p) p)) qs) pid =
      map_option (?info pid) (map_of (map (\<lambda>p. (pr_pid p, p)) qs) pid)" for qs pid
    by (induction qs) auto
  then have "passports_of pic2 pid = map_option (?info pid) (apply_passports ps d pid)" for pid
    using m1 m2 by (simp add: pids(1) rev map_add_def ps_gone apply_passports_def split: option.splits)
  moreover have "passports_of ?pic3 = passports_of pic2" using m3 by simp
  moreover have "states_of ?pic3 = apply_states ss d"
  proof -
    have "map_of (map (\<lambda>s. (ps_pid s, s)) (rev (df_states d))) = map_of (map (\<lambda>s. (ps_pid s, s)) (df_states d))"
      by (rule map_of_rev_same) (use assms(3) in \<open>auto simp: tidy_def\<close>)
    moreover have "states_of pic2 = minus_gone ps_sequence_number ss (set (df_gone d))"
      using m1 m2 assms(1) by (simp add: shown_def)
    ultimately show ?thesis using m3 by (simp add: apply_states_def)
  qed
  ultimately have "shown ?pic3 (apply_passports ps d) (apply_states ss d)"
    using m3 pids(2) by (auto simp: shown_def fun_eq_iff)
  moreover have "listed2 \<or> pc_passports ?pic3 = pc_passports pic \<and>
      (df_states d = [] \<longrightarrow> pc_process_states ?pic3 = pc_process_states pic)"
    using m1 m2 m3 by auto
  ultimately show ?thesis using same by blast
qed

lemma update_effect:
  assumes kit: "kit_ok kit" and sh: "shown pic ps ss" and v: "views ps ss" and t: "tidy d"
    and co: "coherent kit pic"
  shows "shown (snd (picture_update kit now addr d health pic)) (apply_passports ps d) (apply_states ss d) \<and>
    coherent kit (snd (picture_update kit now addr d health pic)) \<and>
    pc_service_pids (snd (picture_update kit now addr d health pic)) = pc_service_pids pic"
proof -
  obtain pic1 listed1 where g: "fold (gone_one now) (df_gone d) (pic, False) = (pic1, listed1)" by force
  obtain pic2 listed2 where p: "fold passport_one (df_passports d) (pic1, listed1) = (pic2, listed2)" by force
  let ?pic3 = "fold state_one (df_states d) pic2"
  define pic4 where "pic4 =
    (case df_sample d of Some sample \<Rightarrow> ?pic3\<lparr>pc_taken := (addr, sample)\<rparr> | None \<Rightarrow> ?pic3)\<lparr>pc_health := Some health\<rparr>"
  note folds = folds_show [OF sh v t g p]
  have p4: "pc_passports pic4 = pc_passports ?pic3" "pc_process_states pic4 = pc_process_states ?pic3"
    "pc_service_pids pic4 = pc_service_pids ?pic3" "pc_processes pic4 = pc_processes ?pic3"
    "pc_states pic4 = pc_states ?pic3" "pc_services pic4 = pc_services ?pic3" "pc_sample pic4 = pc_sample ?pic3"
    "df_sample d = None \<Longrightarrow> pc_taken pic4 = pc_taken ?pic3"
    by (simp_all add: pic4_def split: option.splits)
  have same: "pc_service_pids pic4 = pc_service_pids pic" "pc_processes pic4 = pc_processes pic"
    "pc_states pic4 = pc_states pic" "pc_services pic4 = pc_services pic" "pc_sample pic4 = pc_sample pic"
    "df_sample d = None \<Longrightarrow> pc_taken pic4 = pc_taken pic"
    using folds p4 by (auto simp: same_else_def)
  have sh4: "shown pic4 (apply_passports ps d) (apply_states ss d)"
    using folds p4 by (simp add: shown_def maps_ok_def)
  let ?restated = "df_states d \<noteq> [] \<or> df_sample d \<noteq> None"
  have u: "snd (picture_update kit now addr d health pic) =
      (if listed2 then list_processes kit pic4 else if ?restated then stamp kit pic4 else pic4)"
    by (simp add: picture_update_def g p Let_def pic4_def)
  have pids: "pc_service_pids pic4 = pids_of_services (tg_value (vs_get (kt_services kit) (pc_services pic4)))"
    using co same by (simp add: coherent_def)
  have still: "pc_passports pic4 = pc_passports pic" if "\<not> listed2" using folds that p4 by simp
  have same_states: "pc_process_states pic4 = pc_process_states pic" if "\<not> listed2" "\<not> ?restated"
    using folds that p4 by simp
  have list: "tg_value (vs_get (kt_processes kit) (pc_processes pic4)) = bt_values (pc_passports pic4)" if "\<not> listed2"
    using still [OF that] co same(2) by (simp add: coherent_def)
  have c: "coherent kit (snd (picture_update kit now addr d health pic))"
  proof (cases "listed2 \<or> ?restated")
    case True
    then show ?thesis
      unfolding u using coherent_list [OF kit pids] coherent_stamp [OF kit list pids] by (cases listed2) simp_all
  next
    case False
    then have quiet: "\<not> listed2" "\<not> ?restated" by auto
    then have "df_sample d = None" by blast
    then have "stamped kit pic4 \<or> untouched kit pic4"
      using co same still [OF quiet(1)] same_states [OF quiet]
      by (simp add: coherent_def stamped_def untouched_def)
    then show ?thesis unfolding u using quiet list [OF quiet(1)] pids by (simp add: coherent_def)
  qed
  have "shown (snd (picture_update kit now addr d health pic)) (apply_passports ps d) (apply_states ss d)"
    using sh4 unfolding u by (simp add: shown_def maps_ok_def)
  moreover have "pc_service_pids (snd (picture_update kit now addr d health pic)) = pc_service_pids pic"
    using same(1) unfolding u by simp
  ultimately show ?thesis using c by blast
qed

lemma services_effect:
  assumes kit: "kit_ok kit" and sh: "shown pic ps ss" and co: "coherent kit pic"
  shows "shown (snd (picture_services kit services pic)) ps ss \<and>
    coherent kit (snd (picture_services kit services pic))"
proof -
  obtain moved kept where k: "vs_set (kt_services kit) (map (follow_service (pc_followed pic)) services) (pc_services pic) =
      (moved, kept)" by force
  define old where "old = pc_service_pids pic"
  define pids where "pids = pids_of_services (tg_value (vs_get (kt_services kit) kept))"
  define moved_pic where "moved_pic =
    pic\<lparr>pc_services := kept, pc_passports := hm_map (set_service old pids) (pc_passports pic), pc_service_pids := pids\<rparr>"
  show ?thesis
  proof (cases "pids = old")
    case True
    then have "snd (picture_services kit services pic) = pic\<lparr>pc_services := kept\<rparr>"
      using k by (simp add: picture_services_def Let_def pids_def old_def)
    moreover have "shown (pic\<lparr>pc_services := kept\<rparr>) ps ss" using sh by (simp add: shown_def maps_ok_def)
    moreover have "coherent kit (pic\<lparr>pc_services := kept\<rparr>)"
      using co True by (simp add: coherent_def stamped_def untouched_def pids_def old_def)
    ultimately show ?thesis by simp
  next
    case False
    then have s: "snd (picture_services kit services pic) = list_processes kit moved_pic"
      using k False by (simp add: picture_services_def Let_def moved_pic_def flip: pids_def old_def)
    have "map_option (set_service old pids pid) (map_option (\<lambda>p. info p (pid \<in> old)) p) =
        map_option (\<lambda>p. info p (pid \<in> pids)) p" for pid p
      by (cases p) (auto simp: set_service_def)
    then have "shown moved_pic ps ss"
      using sh by (simp add: shown_def maps_ok_def moved_pic_def hm fun_eq_iff old_def)
    then have "shown (list_processes kit moved_pic) ps ss" by (simp add: shown_def maps_ok_def)
    moreover have "coherent kit (list_processes kit moved_pic)"
      by (rule coherent_list [OF kit]) (simp add: moved_pic_def pids_def)
    ultimately show ?thesis unfolding s by blast
  qed
qed

lemma status_effect:
  assumes kit: "kit_ok kit" and sh: "shown pic ps ss" and co: "coherent kit pic"
  shows "shown (snd (service_status_of kit name status pic)) ps ss \<and>
    coherent kit (snd (service_status_of kit name status pic))"
proof -
  have "shown (pic\<lparr>pc_followed := f\<rparr>) ps ss" "coherent kit (pic\<lparr>pc_followed := f\<rparr>)" for f
    using sh co by (simp_all add: shown_def maps_ok_def coherent_def stamped_def untouched_def)
  then show ?thesis
    using services_effect [OF kit, of "pic\<lparr>pc_followed := f\<rparr>" ps ss for f]
    by (cases status) (auto simp: service_status_of_def)
qed

section \<open>The core, the changes under way and the picture\<close>

text \<open>
  What can come about: the core reads, judges, observes; it takes what changed
  and sends it; the services tell theirs; the picture applies what was sent, in
  order.
\<close>
inductive feed_reach ::
  "('p, 's, 'c) kit \<Rightarrow> process_table \<Rightarrow> change list \<Rightarrow> ('p, 's, 'c) picture \<Rightarrow> bool" for kit where
  feed_new: "feed_reach kit table_new [] (picture_new kit epoch)"
| feed_reconcile: "feed_reach kit t sent pic \<Longrightarrow> rows_fit t rows \<Longrightarrow>
    feed_reach kit (fst (reconcile rows sight t)) sent pic"
| feed_judge: "feed_reach kit t sent pic \<Longrightarrow> feed_reach kit (judge img t) sent pic"
| feed_observe: "feed_reach kit t sent pic \<Longrightarrow> feed_reach kit (observe st t) sent pic"
| feed_take: "feed_reach kit t sent pic \<Longrightarrow> table_take diff_default t = (d, t') \<Longrightarrow>
    feed_reach kit t' (sent @ [Core now addr (d\<lparr>df_sample := sample\<rparr>) health]) pic"
| feed_scan: "feed_reach kit t sent pic \<Longrightarrow> feed_reach kit t (sent @ [Scan services]) pic"
| feed_status: "feed_reach kit t sent pic \<Longrightarrow> feed_reach kit t (sent @ [Status name status]) pic"
| feed_paint: "feed_reach kit t (change # sent) pic \<Longrightarrow> feed_reach kit t sent (snd (picture_apply kit change pic))"

text \<open>What a reader who holds \<^verbatim>\<open>ps\<close> and \<^verbatim>\<open>ss\<close> holds once it applied what was sent.\<close>
fun reads_through ::
  "(u32 \<rightharpoonup> process) \<Rightarrow> (u32 \<rightharpoonup> process_state) \<Rightarrow> change list \<Rightarrow> (u32 \<rightharpoonup> process) \<Rightarrow> (u32 \<rightharpoonup> process_state) \<Rightarrow> bool" where
  "reads_through ps ss [] ps' ss' = (ps = ps' \<and> ss = ss')"
| "reads_through ps ss (Core now addr d health # sent) ps' ss' =
    (tidy d \<and> views (apply_passports ps d) (apply_states ss d) \<and>
     reads_through (apply_passports ps d) (apply_states ss d) sent ps' ss')"
| "reads_through ps ss (Scan services # sent) ps' ss' = reads_through ps ss sent ps' ss'"
| "reads_through ps ss (Status name status # sent) ps' ss' = reads_through ps ss sent ps' ss'"

lemma reads_through_append:
  "reads_through ps ss sent ps' ss' \<Longrightarrow> reads_through ps' ss' later ps'' ss'' \<Longrightarrow>
    reads_through ps ss (sent @ later) ps'' ss''"
  by (induction ps ss sent ps' ss' rule: reads_through.induct) simp_all

lemma entry_views:
  "table_ok t \<Longrightarrow> table_get t pid = Some e \<Longrightarrow>
    pe_pid e = pid \<and> ps_pid (pe_state e) = pid \<and> ps_sequence_number (pe_state e) = pe_sequence_number e"
  unfolding table_ok_def entry_ok_def table_get_def by blast

lemma table_views:
  assumes "table_ok t"
  shows "views (map_option passport \<circ> table_get t) (map_option pe_state \<circ> table_get t)"
proof -
  have "pr_pid (passport e) = pe_pid e" "pr_sequence_number (passport e) = pe_sequence_number e" for e
    by (simp_all add: passport_def)
  note passport = this
  have "map_option pr_sequence_number (map_option passport (table_get t pid)) =
      map_option ps_sequence_number (map_option pe_state (table_get t pid))" for pid
    using entry_views [OF assms, of pid] passport by (cases "table_get t pid") simp_all
  moreover have "pr_pid p = pid" if "map_option passport (table_get t pid) = Some p" for pid p
    using entry_views [OF assms, of pid] passport that by (cases "table_get t pid") auto
  moreover have "ps_pid s = pid" if "map_option pe_state (table_get t pid) = Some s" for pid s
    using entry_views [OF assms, of pid] that by (cases "table_get t pid") auto
  ultimately show ?thesis unfolding views_def comp_apply by blast
qed

lemma take_tidy:
  assumes "table_ok t" "table_take diff_default t = (d, t')"
  shows "tidy (d\<lparr>df_sample := sample\<rparr>)"
proof -
  have d: "df_passports d = map passport (List.map_filter (hm_get (t_processes t)) (t_passports t))"
    "df_states d = map pe_state (List.map_filter (hm_get (t_processes t)) (t_states t))"
    using assms(2) by (auto simp: table_take_def diff_default_def)
  have listed: "hm_get (t_processes t) (pe_pid e) = Some e" if "hm_get (t_processes t) k = Some e" for k e
    using entry_views [OF assms(1), unfolded table_get_def, OF that] that by simp
  have e: "ps_pid (pe_state e) = pe_pid e" "pr_pid (passport e) = pe_pid e"
    if "hm_get (t_processes t) k = Some e" for k e
    using entry_views [OF assms(1), unfolded table_get_def, OF that] by (simp_all add: passport_def)
  have same: "e = e'" if "hm_get (t_processes t) k = Some e" "hm_get (t_processes t) k' = Some e'" "pe_pid e = pe_pid e'" for e e' k k'
    using listed [OF that(1)] listed [OF that(2)] that(3) by (metis option.inject)
  have entry: "\<exists>k. hm_get (t_processes t) k = Some e" if "e \<in> set (List.map_filter (hm_get (t_processes t)) ks)" for e ks
    using that by (auto simp: List.map_filter_def)
  have "p = q" if p: "p \<in> set (df_passports d)" "q \<in> set (df_passports d)" and pq: "pr_pid p = pr_pid q" for p q
  proof -
    obtain a b where a: "p = passport a" "a \<in> set (List.map_filter (hm_get (t_processes t)) (t_passports t))"
      and b: "q = passport b" "b \<in> set (List.map_filter (hm_get (t_processes t)) (t_passports t))"
      using p unfolding d by auto
    obtain j k where "hm_get (t_processes t) j = Some a" "hm_get (t_processes t) k = Some b"
      using entry a(2) b(2) by blast
    then show ?thesis using same e pq a(1) b(1) by metis
  qed
  moreover have "s = r" if p: "s \<in> set (df_states d)" "r \<in> set (df_states d)" and pq: "ps_pid s = ps_pid r" for s r
  proof -
    obtain a b where a: "s = pe_state a" "a \<in> set (List.map_filter (hm_get (t_processes t)) (t_states t))"
      and b: "r = pe_state b" "b \<in> set (List.map_filter (hm_get (t_processes t)) (t_states t))"
      using p unfolding d by auto
    obtain j k where "hm_get (t_processes t) j = Some a" "hm_get (t_processes t) k = Some b"
      using entry a(2) b(2) by blast
    then show ?thesis using same e pq a(1) b(1) by metis
  qed
  ultimately show ?thesis by (simp add: tidy_def)
qed

text \<open>The picture holds what a reader holds who applied all but the changes still under way.\<close>
definition feed_ok ::
  "('p, 's, 'c) kit \<Rightarrow> process_table \<Rightarrow> change list \<Rightarrow> ('p, 's, 'c) picture \<Rightarrow> (u32 \<rightharpoonup> process) \<Rightarrow> (u32 \<rightharpoonup> process_state) \<Rightarrow> bool"
  where
  "feed_ok kit t sent pic ps ss \<longleftrightarrow>
    table_reach t ps ss \<and> coherent kit pic \<and>
    (\<exists>ps0 ss0. shown pic ps0 ss0 \<and> views ps0 ss0 \<and> reads_through ps0 ss0 sent ps ss)"

lemma feed_new_ok:
  assumes "kit_ok kit"
  shows "feed_ok kit table_new [] (picture_new kit epoch) Map.empty Map.empty"
proof -
  have "coherent kit (picture_new kit epoch)"
    using assms by (simp add: coherent_def picture_new_def untouched_def kit_ok_def versioned_okD
        bt_values_def pids_of_services_def)
  moreover have "shown (picture_new kit epoch) Map.empty Map.empty"
    by (simp add: shown_def maps_ok_def picture_new_def)
  moreover have "views Map.empty Map.empty" by (simp add: views_def)
  ultimately show ?thesis using reach_new unfolding feed_ok_def by force
qed

lemma feed_sends:
  "feed_ok kit t sent pic ps ss \<Longrightarrow> table_reach t' ps' ss' \<Longrightarrow> reads_through ps ss later ps' ss' \<Longrightarrow>
    feed_ok kit t' (sent @ later) pic ps' ss'"
  unfolding feed_ok_def using reads_through_append by blast

lemma feed_paints:
  assumes "kit_ok kit" "feed_ok kit t (change # sent) pic ps ss"
  shows "feed_ok kit t sent (snd (picture_apply kit change pic)) ps ss"
proof -
  obtain ps0 ss0 where r: "table_reach t ps ss" "coherent kit pic" "shown pic ps0 ss0" "views ps0 ss0"
    "reads_through ps0 ss0 (change # sent) ps ss"
    using assms(2) unfolding feed_ok_def by blast
  show ?thesis
  proof (cases change)
    case (Core now addr d health)
    then show ?thesis
      using r update_effect [OF assms(1) r(3,4) _ r(2), of d now addr health] unfolding feed_ok_def by auto
  next
    case (Scan services)
    then show ?thesis using r services_effect [OF assms(1) r(3,2)] unfolding feed_ok_def by auto
  next
    case (Status name status)
    then show ?thesis using r status_effect [OF assms(1) r(3,2)] unfolding feed_ok_def by auto
  qed
qed

lemma take_fits:
  assumes "table_reach t ps ss" "table_take diff_default t = (d, t')"
  shows "reads_through ps ss [Core now addr (d\<lparr>df_sample := sample\<rparr>) health] (apply_passports ps d) (apply_states ss d)"
proof -
  have ok: "table_ok t" "synced ps ss t" using table_reach_ok [OF assms(1)] by simp_all
  have "views (apply_passports ps d) (apply_states ss d)"
    unfolding take_drains(1,2) [OF ok(2,1) assms(2)] by (rule table_views [OF ok(1)])
  moreover have "apply_passports ps (d\<lparr>df_sample := sample\<rparr>) = apply_passports ps d"
    "apply_states ss (d\<lparr>df_sample := sample\<rparr>) = apply_states ss d"
    by (simp_all add: apply_passports_def apply_states_def)
  ultimately show ?thesis using take_tidy [OF ok(1) assms(2), of sample] by simp
qed

lemma feed_reach_ok: "feed_reach kit t sent pic \<Longrightarrow> kit_ok kit \<Longrightarrow> \<exists>ps ss. feed_ok kit t sent pic ps ss"
proof (induction rule: feed_reach.induct)
  case (feed_new epoch)
  then show ?case using feed_new_ok by blast
next
  case (feed_reconcile t sent pic rows sight)
  then obtain ps ss where "feed_ok kit t sent pic ps ss" by blast
  then have "feed_ok kit (fst (reconcile rows sight t)) (sent @ []) pic ps ss"
    using feed_reconcile.hyps(2) by (auto intro!: feed_sends reach_reconcile simp: feed_ok_def)
  then show ?case by auto
next
  case (feed_judge t sent pic img)
  then obtain ps ss where "feed_ok kit t sent pic ps ss" by blast
  then have "feed_ok kit (judge img t) (sent @ []) pic ps ss"
    by (auto intro!: feed_sends reach_judge simp: feed_ok_def)
  then show ?case by auto
next
  case (feed_observe t sent pic st)
  then obtain ps ss where "feed_ok kit t sent pic ps ss" by blast
  then have "feed_ok kit (observe st t) (sent @ []) pic ps ss"
    by (auto intro!: feed_sends reach_observe simp: feed_ok_def)
  then show ?case by auto
next
  case (feed_take t sent pic d t' now addr sample health)
  then obtain ps ss where r: "feed_ok kit t sent pic ps ss" by blast
  then have t: "table_reach t ps ss" by (simp add: feed_ok_def)
  show ?case using feed_sends [OF r reach_take [OF t] take_fits [OF t]] feed_take.hyps(2) by blast
next
  case (feed_scan t sent pic services)
  then obtain ps ss where r: "feed_ok kit t sent pic ps ss" by blast
  then show ?case using feed_sends [OF r, of t ps ss "[Scan services]"] by (auto simp: feed_ok_def)
next
  case (feed_status t sent pic name status)
  then obtain ps ss where r: "feed_ok kit t sent pic ps ss" by blast
  then show ?case using feed_sends [OF r, of t ps ss "[Status name status]"] by (auto simp: feed_ok_def)
next
  case (feed_paint t change sent pic)
  then show ?case using feed_paints by blast
qed

section \<open>Properties\<close>

abbreviation apply_all :: "('p, 's, 'c) kit \<Rightarrow> change list \<Rightarrow> ('p, 's, 'c) picture \<Rightarrow> ('p, 's, 'c) picture" where
  "apply_all kit \<equiv> fold (\<lambda>change pic. snd (picture_apply kit change pic))"

lemma feed_paints_all:
  "kit_ok kit \<Longrightarrow> feed_ok kit t sent pic ps ss \<Longrightarrow> feed_ok kit t [] (apply_all kit sent pic) ps ss"
  by (induction sent arbitrary: pic) (simp_all add: feed_paints)

text \<open>
  C15 The picture is the core's table: whatever the core read, judged and
  observed, and however its diffs and the services' changes went, once the
  picture applied what was sent and what the core takes now, it holds exactly
  the passports and states of the table's processes, each flagged a service
  exactly if a service runs in it.
\<close>
theorem picture_shows_the_table:
  assumes "kit_ok kit" "feed_reach kit t sent pic" "table_take diff_default t = (d, t')"
    "pic' = apply_all kit (sent @ [Core now addr (d\<lparr>df_sample := sample\<rparr>) health]) pic"
  shows "(\<forall>pid. passports_of pic' pid =
      map_option (\<lambda>e. info (passport e) (pid \<in> pc_service_pids pic')) (table_get t pid)) \<and>
    (\<forall>pid. states_of pic' pid = map_option pe_state (table_get t pid))"
proof -
  obtain ps ss where "feed_ok kit t sent pic ps ss" using feed_reach_ok [OF assms(2,1)] by blast
  then have t: "table_reach t ps ss" "table_ok t" "synced ps ss t"
    using table_reach_ok by (auto simp: feed_ok_def)
  have "feed_ok kit t' [] pic' (apply_passports ps d) (apply_states ss d)"
    unfolding assms(4)
    using feed_paints_all [OF assms(1) feed_sends [OF \<open>feed_ok kit t sent pic ps ss\<close> reach_take [OF t(1) assms(3)]
        take_fits [OF t(1) assms(3)]]] .
  then have "shown pic' (apply_passports ps d) (apply_states ss d)" by (auto simp: feed_ok_def)
  then show ?thesis
    unfolding take_drains(1,2) [OF t(3,2) assms(3)] by (simp add: shown_def option.map_comp comp_def)
qed

definition counting_kit :: "(u64 \<times> process_info list, u64 \<times> process_states, u64 \<times> service_stats list) kit" where
  "counting_kit = \<lparr>kt_processes = counting, kt_states = counting, kt_services = counting\<rparr>"

lemma counting_kit_ok: "kit_ok counting_kit"
  by (simp add: kit_ok_def counting_kit_def counting_ok)

definition plain_health :: health where
  "plain_health = \<lparr>h_dropped_by_sink = 0, h_sessions = [], h_snapshot_error = None, h_taken_at = 0\<rparr>"

definition two_rows :: "row list" where
  "two_rows = [row_default\<lparr>r_pid := 4\<rparr>, row_default\<lparr>r_pid := 8\<rparr>]"

definition two_table :: process_table where
  "two_table = fst (reconcile two_rows sample_sighting table_new)"

lemma two_table_keys: "table_get two_table pid \<noteq> None \<longleftrightarrow> pid \<in> {4, 8}"
proof -
  have "hm_keys (t_processes two_table) = {4, 8}"
    using reconcile_effect [OF table_ok_new two_of_one_image(1), of sample_sighting]
    by (simp add: two_table_def two_rows_def)
  then show ?thesis unfolding table_get_def hm_keys_get [symmetric] by simp
qed

lemma two_table_reach: "feed_reach kit two_table [] (picture_new kit epoch)"
  unfolding two_table_def two_rows_def
  by (rule feed_reconcile [OF feed_new]) (use two_of_one_image(1) in simp)

theorem picture_shows_the_table_witness:
  "\<exists>d t'. table_take diff_default two_table = (d, t') \<and>
    dom (passports_of (apply_all counting_kit [Core 7 1 (d\<lparr>df_sample := None\<rparr>) plain_health]
      (picture_new counting_kit 3))) = {4, 8}"
proof -
  obtain d t' where d: "table_take diff_default two_table = (d, t')" by force
  let ?pic = "apply_all counting_kit ([] @ [Core 7 1 (d\<lparr>df_sample := None\<rparr>) plain_health]) (picture_new counting_kit 3)"
  have "passports_of ?pic pid \<noteq> None \<longleftrightarrow> pid \<in> {4, 8}" for pid
    using picture_shows_the_table [where now = 7 and addr = 1 and sample = None and health = plain_health,
        OF counting_kit_ok two_table_reach [of counting_kit 3] d refl, THEN conjunct1, rule_format, of pid]
      two_table_keys [of pid] by (cases "table_get two_table pid") simp_all
  then have "dom (passports_of ?pic) = {4, 8}" by (auto simp: dom_def)
  then show ?thesis using d by auto
qed

lemma views_of_shown:
  assumes "shown pic ps ss" "views ps ss"
  shows "map (\<lambda>p. (pi_pid p, pi_sequence_number p)) (bt_values (pc_passports pic)) =
      map (\<lambda>s. (ps_pid s, ps_sequence_number s)) (bt_values (pc_process_states pic))"
    "map pi_pid (bt_values (pc_passports pic)) = map fst (pc_passports pic)"
    "\<forall>p \<in> set (bt_values (pc_passports pic)). pi_is_service p \<longleftrightarrow> pi_pid p \<in> pc_service_pids pic"
proof -
  let ?m = "pc_passports pic" and ?n = "pc_process_states pic"
  have ok: "bt_ok ?m" "bt_ok ?n" using assms(1) by (simp_all add: shown_def maps_ok_def)
  have p: "pi_pid p = pid \<and> (pi_is_service p \<longleftrightarrow> pid \<in> pc_service_pids pic)" if "(pid, p) \<in> set ?m" for pid p
  proof -
    have "bt_get ?m pid = Some p" using that bt_ok_distinct [OF ok(1)] by simp
    then show ?thesis using assms by (auto simp: shown_def views_def)
  qed
  have s: "ps_pid s = pid" if "(pid, s) \<in> set ?n" for pid s
  proof -
    have "bt_get ?n pid = Some s" using that bt_ok_distinct [OF ok(2)] by simp
    then show ?thesis using assms by (auto simp: shown_def views_def)
  qed
  have "bt_get (bt_view (\<lambda>pid p. (pid, pi_sequence_number p)) ?m) = bt_get (bt_view (\<lambda>pid s. (pid, ps_sequence_number s)) ?n)"
  proof
    fix pid
    have "map_option (Pair pid) (map_option pi_sequence_number (bt_get ?m pid)) =
        map_option (Pair pid) (map_option ps_sequence_number (bt_get ?n pid))"
      using shown_paired [OF assms] by (simp add: paired_maps_def)
    then show "bt_get (bt_view (\<lambda>pid p. (pid, pi_sequence_number p)) ?m) pid =
        bt_get (bt_view (\<lambda>pid s. (pid, ps_sequence_number s)) ?n) pid"
      by (simp add: bt option.map_comp comp_def)
  qed
  then have "bt_view (\<lambda>pid p. (pid, pi_sequence_number p)) ?m = bt_view (\<lambda>pid s. (pid, ps_sequence_number s)) ?n"
    using bt_ext ok by (metis bt_ok_view)
  then have "map snd (bt_view (\<lambda>pid p. (pid, pi_sequence_number p)) ?m) =
      map snd (bt_view (\<lambda>pid s. (pid, ps_sequence_number s)) ?n)" by simp
  moreover have "map snd (bt_view (\<lambda>pid p. (pid, pi_sequence_number p)) ?m) =
      map (\<lambda>p. (pi_pid p, pi_sequence_number p)) (bt_values ?m)"
    using p by (auto simp: bt_view_def bt_values_def)
  moreover have "map snd (bt_view (\<lambda>pid s. (pid, ps_sequence_number s)) ?n) =
      map (\<lambda>s. (ps_pid s, ps_sequence_number s)) (bt_values ?n)"
    using s by (auto simp: bt_view_def bt_values_def)
  ultimately show "map (\<lambda>p. (pi_pid p, pi_sequence_number p)) (bt_values ?m) =
      map (\<lambda>s. (ps_pid s, ps_sequence_number s)) (bt_values ?n)" by simp
  show "map pi_pid (bt_values ?m) = map fst ?m" using p by (auto simp: bt_values_def)
  show "\<forall>p \<in> set (bt_values ?m). pi_is_service p \<longleftrightarrow> pi_pid p \<in> pc_service_pids pic"
    using p by (auto simp: bt_values_def)
qed

text \<open>
  C16 Everything published is of one moment: the processes are listed once
  each in order of pid, the states are those of exactly these processes in the
  same order, both and the sample carry the etag of the process list, and a
  process is flagged a service exactly if a listed service runs in it.
\<close>
theorem published_lists_agree:
  assumes "kit_ok kit" "feed_reach kit t sent pic"
    "snap = pb_snapshot (publish kit pic)"
    "processes = tg_value (sn_processes snap)"
  shows "sorted_wrt (<) (map pi_pid processes) \<and>
    map (\<lambda>p. (pi_pid p, pi_sequence_number p)) processes =
      map (\<lambda>s. (ps_pid s, ps_sequence_number s)) (pst_states (tg_value (sn_states snap))) \<and>
    (\<forall>p \<in> set processes. pi_is_service p \<longleftrightarrow> pi_pid p \<in> pids_of_services (tg_value (sn_services snap))) \<and>
    (processes \<noteq> [] \<longrightarrow>
      pst_passport_etag (tg_value (sn_states snap)) = tg_etag (sn_processes snap) \<and>
      s_passport_etag (pb_sample (publish kit pic)) = tg_etag (sn_processes snap))"
proof -
  obtain ps ss where "feed_ok kit t sent pic ps ss" using feed_reach_ok [OF assms(2,1)] by blast
  then obtain ps0 ss0 where sh: "shown pic ps0 ss0" "views ps0 ss0" and co: "coherent kit pic"
    unfolding feed_ok_def by blast
  note v = views_of_shown [OF sh]
  have p: "processes = bt_values (pc_passports pic)"
    using co by (simp add: assms(3,4) publish_def coherent_def)
  have s: "pst_states (tg_value (sn_states snap)) = bt_values (pc_process_states pic)"
    using co by (auto simp: assms(3) publish_def coherent_def stamped_def untouched_def
        process_states_default_def bt_values_def)
  have pids: "pc_service_pids pic = pids_of_services (tg_value (sn_services snap))"
    using co by (simp add: assms(3) publish_def coherent_def)
  have "sorted_wrt (<) (map pi_pid processes)"
    using sh(1) unfolding p v(2) by (simp add: shown_def maps_ok_def bt_ok_def)
  moreover have "pst_passport_etag (tg_value (sn_states snap)) = tg_etag (sn_processes snap) \<and>
      s_passport_etag (pb_sample (publish kit pic)) = tg_etag (sn_processes snap)" if "processes \<noteq> []"
  proof -
    have "stamped kit pic" using co that by (auto simp: p coherent_def untouched_def bt_values_def)
    then show ?thesis by (simp add: assms(3) publish_def stamped_def)
  qed
  ultimately show ?thesis using v(1,3) unfolding p s pids by blast
qed

theorem published_lists_agree_witness:
  "\<exists>d t'. table_take diff_default two_table = (d, t') \<and>
    map pi_pid (tg_value (sn_processes (pb_snapshot (publish counting_kit
      (snd (picture_apply counting_kit (Core 7 1 (d\<lparr>df_sample := None\<rparr>) plain_health) (picture_new counting_kit 3))))))) = [4, 8] \<and>
    kit_ok counting_kit"
proof -
  obtain d t' where d: "table_take diff_default two_table = (d, t')" by force
  let ?change = "Core 7 1 (d\<lparr>df_sample := None\<rparr>) plain_health"
  let ?pic = "snd (picture_apply counting_kit ?change (picture_new counting_kit 3))"
  have r: "feed_reach counting_kit t' [] ?pic"
    using feed_paint [OF feed_take [OF two_table_reach [of counting_kit 3] d, of 7 1 None plain_health, unfolded append_Nil]] .
  let ?ps = "tg_value (sn_processes (pb_snapshot (publish counting_kit ?pic)))"
  note agree = published_lists_agree [OF counting_kit_ok r refl refl]
  obtain ps ss where "feed_ok counting_kit two_table [] (picture_new counting_kit 3) ps ss"
    using feed_reach_ok [OF two_table_reach counting_kit_ok] by blast
  then have t: "table_reach two_table ps ss" "table_ok two_table" "synced ps ss two_table"
    using table_reach_ok by (auto simp: feed_ok_def)
  have "feed_ok counting_kit t' [] ?pic (apply_passports ps d) (apply_states ss d)"
    using feed_paints_all [OF counting_kit_ok feed_sends [OF \<open>feed_ok counting_kit two_table [] _ ps ss\<close> reach_take [OF t(1) d]
        take_fits [OF t(1) d, of 7 1 None plain_health]]] by simp
  then have sh: "shown ?pic (map_option passport \<circ> table_get two_table) (map_option pe_state \<circ> table_get two_table)"
    and co: "coherent counting_kit ?pic"
    unfolding take_drains(1,2) [OF t(3,2) d] by (auto simp: feed_ok_def)
  note v = views_of_shown [OF sh table_views [OF t(2)]]
  have p: "?ps = bt_values (pc_passports ?pic)" using co by (simp add: publish_def coherent_def)
  have "set (map pi_pid ?ps) = dom (passports_of ?pic)"
    unfolding p v(2) by (simp add: dom_map_of_conv_image_fst)
  also have "\<dots> = {4, 8}"
    using sh two_table_keys by (auto simp: shown_def dom_def)
  finally have "set (map pi_pid ?ps) = {4, 8}" .
  moreover have "sorted_wrt (<) [4 :: u32, 8]" by simp
  ultimately have "map pi_pid ?ps = [4, 8]"
    using agree strict_sorted_equal [of "map pi_pid ?ps" "[4, 8]"] by auto
  then show ?thesis using d counting_kit_ok by (intro exI conjI)
qed

section \<open>The processes gone lately\<close>

type_synonym left = "u32 \<times> u64 \<times> string \<times> instant"

definition remember_all :: "left list \<Rightarrow> gone_list" where
  "remember_all lefts = fold (\<lambda>(pid, seq, img, at) gl. remember pid seq img at gl) lefts gone_default"

text \<open>The last of the processes that left under this pid and number.\<close>
fun last_left :: "u32 \<times> u64 \<Rightarrow> left list \<Rightarrow> (instant \<times> string) option" where
  "last_left key [] = None"
| "last_left key ((pid, seq, img, at) # lefts) =
    (case last_left key lefts of Some x \<Rightarrow> Some x | None \<Rightarrow> if (pid, seq) = key then Some (at, img) else None)"

lemma last_left_snoc:
  "last_left key (lefts @ [(pid, seq, img, at)]) =
    (if (pid, seq) = key then Some (at, img) else last_left key lefts)"
  by (induction lefts) (auto split: option.splits)

lemma last_left_in: "last_left key lefts = Some (at, img) \<Longrightarrow> at \<in> set (map (\<lambda>(_, _, _, at). at) lefts)"
  by (induction lefts) (auto split: option.splits if_splits)

text \<open>Each image held is of the last to leave under its key, and whoever left lately is held.\<close>
definition gone_ok :: "instant \<Rightarrow> left list \<Rightarrow> gone_list \<Rightarrow> bool" where
  "gone_ok now lefts gl \<longleftrightarrow>
    sorted (map fst (gl_order gl)) \<and>
    (\<forall>key at img. hm_get (gl_images gl) key = Some (at, img) \<longrightarrow>
      (at, key) \<in> set (gl_order gl) \<and> last_left key lefts = Some (at, img)) \<and>
    (\<forall>key at img. last_left key lefts = Some (at, img) \<longrightarrow> now - at \<le> GONE_KEPT \<longrightarrow>
      hm_get (gl_images gl) key = Some (at, img))"

lemma forget_ok:
  "gone_ok now lefts gl \<Longrightarrow>
    gone_ok now lefts (forget now gl) \<and>
    (\<forall>(at, key) \<in> set (gl_order (forget now gl)). now - at \<le> GONE_KEPT) \<and>
    set (gl_order (forget now gl)) \<subseteq> set (gl_order gl)"
proof (induction now gl rule: forget.induct)
  case (1 now gl)
  show ?case
  proof (cases "gl_order gl")
    case Nil
    then show ?thesis using "1.prems" by (simp add: forget.simps)
  next
    case (Cons e order)
    obtain at key where e: "e = (at, key)" by (metis surj_pair)
    show ?thesis
    proof (cases "now - at > GONE_KEPT")
      case False
      have "at \<le> at'" if "(at', k) \<in> set order" for at' k
        using "1.prems" that by (force simp: gone_ok_def Cons e)
      then have "now - at' \<le> GONE_KEPT" if "(at', k) \<in> set (gl_order gl)" for at' k
      proof -
        have "at' = at \<or> (at', k) \<in> set order" using that by (auto simp: Cons e)
        with \<open>\<And>at' k. (at', k) \<in> set order \<Longrightarrow> at \<le> at'\<close> have "at \<le> at'" by blast
        then show ?thesis using False by linarith
      qed
      then show ?thesis using "1.prems" False by (auto simp: forget.simps [of now gl] Cons e)
    next
      case True
      let ?tail = "gl\<lparr>gl_order := order\<rparr>"
      define gl' where "gl' = (case hm_get (gl_images ?tail) key of
          None \<Rightarrow> ?tail
        | Some (left_at, _) \<Rightarrow>
            if left_at = at then ?tail\<lparr>gl_images := hm_del key (gl_images ?tail)\<rparr> else ?tail)"
      have f: "forget now gl = forget now gl'"
        using True by (simp add: forget.simps [of now gl] Cons e gl'_def split: option.splits prod.splits)
      have o: "gl_order gl' = order" by (simp add: gl'_def split: option.splits prod.splits)
      have img: "hm_get (gl_images gl') k =
          (if k = key \<and> (\<exists>i. hm_get (gl_images gl) key = Some (at, i)) then None else hm_get (gl_images gl) k)" for k
        by (auto simp: gl'_def hm split: option.splits prod.splits)
      note ok = "1.prems" [unfolded gone_ok_def]
      have "sorted (map fst order)" using ok by (simp add: Cons e)
      moreover have "(a, k) \<in> set order \<and> last_left k lefts = Some (a, i)"
        if "hm_get (gl_images gl') k = Some (a, i)" for k a i
      proof -
        have g: "hm_get (gl_images gl) k = Some (a, i)" "\<not> (k = key \<and> a = at)"
          using that unfolding img by (auto split: if_splits)
        then have "(a, k) \<in> set ((at, key) # order)" "last_left k lefts = Some (a, i)"
          using ok unfolding Cons e by blast+
        then show ?thesis using g(2) by auto
      qed
      moreover have "hm_get (gl_images gl') k = Some (a, i)"
        if l: "last_left k lefts = Some (a, i)" "now - a \<le> GONE_KEPT" for k a i
      proof -
        have "hm_get (gl_images gl) k = Some (a, i)" using ok l by blast
        moreover from this have "\<not> (k = key \<and> a = at)" using True l(2) by auto
        ultimately show ?thesis unfolding img by auto
      qed
      ultimately have "gone_ok now lefts gl'" unfolding gone_ok_def o by blast
      then have "gone_ok now lefts (forget now gl') \<and>
          (\<forall>(at, key) \<in> set (gl_order (forget now gl')). now - at \<le> GONE_KEPT) \<and>
          set (gl_order (forget now gl')) \<subseteq> set (gl_order gl')"
        using "1.IH" [OF Cons e [symmetric] True refl refl, folded gl'_def] by blast
      then show ?thesis unfolding f o by (auto simp: Cons)
    qed
  qed
qed

lemma gone_ok_later: "gone_ok now lefts gl \<Longrightarrow> now \<le> now' \<Longrightarrow> gone_ok now' lefts gl"
  unfolding gone_ok_def by (meson diff_le_mono le_trans)

lemma remember_ok:
  assumes "gone_ok now lefts gl" "\<forall>e \<in> set (gl_order gl). fst e \<le> now"
  shows "gone_ok now (lefts @ [(pid, seq, img, now)]) (remember pid seq img now gl) \<and>
    (\<forall>e \<in> set (gl_order (remember pid seq img now gl)). fst e \<le> now \<and> now - fst e \<le> GONE_KEPT)"
proof -
  define fl where "fl = forget now gl"
  have f: "gone_ok now lefts fl" "\<forall>(at, key) \<in> set (gl_order fl). now - at \<le> GONE_KEPT"
    "set (gl_order fl) \<subseteq> set (gl_order gl)"
    using forget_ok [OF assms(1)] unfolding fl_def by simp_all
  note ok = f(1) [unfolded gone_ok_def]
  have le: "\<forall>e \<in> set (gl_order fl). fst e \<le> now" using f(3) assms(2) by blast
  have r: "gl_order (remember pid seq img now gl) = gl_order fl @ [(now, pid, seq)]"
    "hm_get (gl_images (remember pid seq img now gl)) = (hm_get (gl_images fl))((pid, seq) \<mapsto> (now, img))"
    unfolding remember_def Let_def fl_def [symmetric] by (simp_all add: hm_get_put)
  have "sorted (map fst (gl_order (remember pid seq img now gl)))"
    using conjunct1 [OF ok] le unfolding r(1) by (simp add: sorted_append)
  moreover have "(at, key) \<in> set (gl_order (remember pid seq img now gl)) \<and>
      last_left key (lefts @ [(pid, seq, img, now)]) = Some (at, i)"
    if "hm_get (gl_images (remember pid seq img now gl)) key = Some (at, i)" for key at i
  proof (cases "key = (pid, seq)")
    case True
    then show ?thesis using that unfolding r by (simp add: last_left_snoc)
  next
    case False
    then have "hm_get (gl_images fl) key = Some (at, i)" using that unfolding r by simp
    then have "(at, key) \<in> set (gl_order fl) \<and> last_left key lefts = Some (at, i)" using ok by blast
    then show ?thesis using False unfolding r by (auto simp: last_left_snoc)
  qed
  moreover have "hm_get (gl_images (remember pid seq img now gl)) key = Some (at, i)"
    if "last_left key (lefts @ [(pid, seq, img, now)]) = Some (at, i)" "now - at \<le> GONE_KEPT" for key at i
  proof (cases "key = (pid, seq)")
    case True
    then show ?thesis using that unfolding r by (simp add: last_left_snoc)
  next
    case False
    then have "last_left key lefts = Some (at, i)" using that(1) by (auto simp: last_left_snoc split: if_splits)
    then have "hm_get (gl_images fl) key = Some (at, i)" using ok that(2) by blast
    then show ?thesis using False unfolding r by simp
  qed
  ultimately have "gone_ok now (lefts @ [(pid, seq, img, now)]) (remember pid seq img now gl)"
    unfolding gone_ok_def by blast
  moreover have "fst e \<le> now \<and> now - fst e \<le> GONE_KEPT"
    if "e \<in> set (gl_order (remember pid seq img now gl))" for e
    using f(2) le that unfolding r by (cases e) auto
  ultimately show ?thesis by blast
qed

abbreviation left_at :: "left \<Rightarrow> instant" where
  "left_at \<equiv> \<lambda>(_, _, _, at). at"

lemma remember_all_ok:
  assumes "sorted (map left_at lefts)" "\<forall>l \<in> set lefts. left_at l \<le> now"
  shows "gone_ok now lefts (remember_all lefts) \<and>
    (\<forall>e \<in> set (gl_order (remember_all lefts)). fst e \<le> now \<and>
      (\<forall>l \<in> set lefts. left_at l - fst e \<le> GONE_KEPT))"
  using assms
proof (induction lefts arbitrary: now rule: rev_induct)
  case Nil
  then show ?case by (simp add: remember_all_def gone_default_def gone_ok_def)
next
  case (snoc l lefts)
  obtain pid seq img at where l: "l = (pid, seq, img, at)" by (cases l) auto
  have before: "sorted (map left_at lefts)" "\<forall>l \<in> set lefts. left_at l \<le> at"
    using snoc.prems(1) by (auto simp: l sorted_append)
  note IH = snoc.IH [OF before]
  have step: "remember_all (lefts @ [l]) = remember pid seq img at (remember_all lefts)"
    by (simp add: remember_all_def l)
  have "\<forall>e \<in> set (gl_order (remember_all lefts)). fst e \<le> at" using IH by blast
  note r = remember_ok [OF conjunct1 [OF IH] this, of pid seq img, folded step]
  have now: "at \<le> now" using snoc.prems(2) by (simp add: l)
  have "gone_ok now (lefts @ [l]) (remember_all (lefts @ [l]))"
    using gone_ok_later [OF conjunct1 [OF r] now] by (simp add: l)
  moreover have "fst e \<le> now \<and> left_at m - fst e \<le> GONE_KEPT"
    if "e \<in> set (gl_order (remember_all (lefts @ [l])))" "m \<in> set (lefts @ [l])" for e m
  proof -
    have "fst e \<le> at" "at - fst e \<le> GONE_KEPT" using r that(1) by blast+
    moreover have "left_at m \<le> at" using that(2) before(2) by (auto simp: l)
    ultimately show ?thesis using now by linarith
  qed
  ultimately show ?case unfolding list.set_map by (metis (no_types, lifting) in_set_conv_decomp)
qed

text \<open>
  A process that left is named for ten seconds: asked at any time after,
  the image told is the one of the last process to leave under this pid and
  number if it left at most ten seconds before, and empty otherwise; and only
  processes that left within ten seconds of the latest to leave are held.
\<close>
theorem gone_named_for_ten_seconds:
  assumes "sorted (map left_at lefts)" "\<forall>l \<in> set lefts. left_at l \<le> now"
  shows "gone_image pid seq now (remember_all lefts) =
      (case last_left (pid, seq) lefts of
         Some (at, img) \<Rightarrow> if now - at \<le> secs 10 then img else ''''
       | None \<Rightarrow> '''') \<and>
    (\<forall>key at img. hm_get (gl_images (remember_all lefts)) key = Some (at, img) \<longrightarrow>
      (\<forall>l \<in> set lefts. left_at l - at \<le> secs 10))"
proof -
  note ok = remember_all_ok [OF assms]
  have g: "gone_ok now lefts (remember_all lefts)" using ok by blast
  note g' = g [unfolded gone_ok_def]
  have "\<forall>l \<in> set lefts. left_at l - at \<le> secs 10"
    if "hm_get (gl_images (remember_all lefts)) key = Some (at, img)" for key at img
  proof -
    have "(at, key) \<in> set (gl_order (remember_all lefts))" using g' that by blast
    then show ?thesis using ok unfolding GONE_KEPT_def by (metis fst_conv)
  qed
  moreover have "gone_image pid seq now (remember_all lefts) =
      (case last_left (pid, seq) lefts of
         Some (at, img) \<Rightarrow> if now - at \<le> secs 10 then img else ''''
       | None \<Rightarrow> '''')"
  proof (cases "hm_get (gl_images (remember_all lefts)) (pid, seq)")
    case None
    have "\<not> now - at \<le> GONE_KEPT" if "last_left (pid, seq) lefts = Some (at, img)" for at img
      using g' that None by (metis option.distinct(1))
    then show ?thesis using None by (simp add: gone_image_def GONE_KEPT_def split: option.splits prod.splits)
  next
    case (Some x)
    then have "last_left (pid, seq) lefts = Some x" using g' by (metis surj_pair)
    then show ?thesis using Some by (simp add: gone_image_def GONE_KEPT_def split: prod.splits)
  qed
  ultimately show ?thesis by blast
qed

theorem gone_named_for_ten_seconds_witness:
  "gone_image 8 2 (secs 14) (remember_all [(8, 2, ''a'', secs 1), (9, 1, ''b'', secs 3), (8, 2, ''c'', secs 4)]) = ''c'' \<and>
   gone_image 9 1 (secs 14) (remember_all [(8, 2, ''a'', secs 1), (9, 1, ''b'', secs 3), (8, 2, ''c'', secs 4)]) = ''''"
proof -
  let ?lefts = "[(8, 2, ''a'', secs 1), (9, 1, ''b'', secs 3), (8, 2, ''c'', secs 4)] :: left list"
  have s: "sorted (map left_at ?lefts)" "\<forall>l \<in> set ?lefts. left_at l \<le> secs 14" by simp_all
  show ?thesis
    using gone_named_for_ten_seconds [OF s, of 8 2] gone_named_for_ten_seconds [OF s, of 9 1] by simp
qed

section \<open>Every sample is published\<close>

text \<open>The samples a batch of changes brings, in order.\<close>
fun samples_of :: "change list \<Rightarrow> sample list" where
  "samples_of [] = []"
| "samples_of (Core now addr d health # batch) =
    (case df_sample d of Some s \<Rightarrow> s # samples_of batch | None \<Rightarrow> samples_of batch)"
| "samples_of (Scan services # batch) = samples_of batch"
| "samples_of (Status name status # batch) = samples_of batch"

text \<open>Each sample lies elsewhere than the one held when it comes.\<close>
fun fresh_samples :: "nat \<Rightarrow> change list \<Rightarrow> bool" where
  "fresh_samples held [] = True"
| "fresh_samples held (Core now addr d health # batch) =
    (case df_sample d of Some s \<Rightarrow> addr \<noteq> held \<and> fresh_samples addr batch | None \<Rightarrow> fresh_samples held batch)"
| "fresh_samples held (Scan services # batch) = fresh_samples held batch"
| "fresh_samples held (Status name status # batch) = fresh_samples held batch"

text \<open>A sample, whatever list it was stamped with.\<close>
definition unstamped :: "sample \<Rightarrow> sample" where
  "unstamped s = s\<lparr>s_passport_etag := 0\<rparr>"

lemma gone_fold_taken: "pc_taken (fst (fold (gone_one now) gs (pic, listed))) = pc_taken pic"
proof (induction gs arbitrary: pic listed)
  case (Cons g gs)
  obtain pic1 listed1 where one: "gone_one now g (pic, listed) = (pic1, listed1)" by force
  then have "pc_taken pic1 = pc_taken pic"
    by (auto simp: gone_one_def split: prod.splits option.splits if_splits)
  then show ?case using Cons.IH [of pic1 listed1] one by simp
qed simp

lemma passport_fold_taken: "pc_taken (fst (fold passport_one ps (pic, listed))) = pc_taken pic"
proof (induction ps arbitrary: pic listed)
  case (Cons p ps)
  obtain pic1 listed1 where one: "passport_one p (pic, listed) = (pic1, listed1)" by force
  then have "pc_taken pic1 = pc_taken pic"
    by (auto simp: passport_one_def Let_def split: if_splits)
  then show ?case using Cons.IH [of pic1 listed1] one by simp
qed simp

lemma state_fold_taken: "pc_taken (fold state_one ss pic) = pc_taken pic"
  by (induction ss arbitrary: pic) (simp_all add: state_one_def)

lemma update_taken:
  "pc_taken (snd (picture_update kit now addr d health pic)) =
    (case df_sample d of Some s \<Rightarrow> (addr, s) | None \<Rightarrow> pc_taken pic)"
  "df_sample d = Some s \<Longrightarrow> fst (picture_update kit now addr d health pic) \<and>
    unstamped (pc_sample (snd (picture_update kit now addr d health pic))) = unstamped s"
proof -
  obtain pic1 listed1 where g: "fold (gone_one now) (df_gone d) (pic, False) = (pic1, listed1)" by force
  obtain pic2 listed2 where p: "fold passport_one (df_passports d) (pic1, listed1) = (pic2, listed2)" by force
  have t: "pc_taken pic2 = pc_taken pic"
    using gone_fold_taken [of now "df_gone d" pic False] passport_fold_taken [of "df_passports d" pic1 listed1]
    by (simp add: g p)
  show "pc_taken (snd (picture_update kit now addr d health pic)) =
      (case df_sample d of Some s \<Rightarrow> (addr, s) | None \<Rightarrow> pc_taken pic)"
    by (simp add: picture_update_def g p Let_def state_fold_taken t split: option.splits)
  show "fst (picture_update kit now addr d health pic) \<and>
      unstamped (pc_sample (snd (picture_update kit now addr d health pic))) = unstamped s"
    if "df_sample d = Some s"
    using that by (simp add: picture_update_def g p Let_def list_processes_def stamp_def unstamped_def)
qed

lemma services_taken [simp]: "pc_taken (snd (picture_services kit services pic)) = pc_taken pic"
  by (simp add: picture_services_def Let_def split: prod.splits)

lemma status_taken [simp]: "pc_taken (snd (service_status_of kit name status pic)) = pc_taken pic"
  by (cases status) (simp_all add: service_status_of_def)

lemma paint_one_cases:
  assumes "fresh_samples (fst (pc_taken pic)) (change # batch)"
  obtains s where "samples_of (change # batch) = s # samples_of batch"
    "paint_one kit change (pic, told, out) =
      (snd (picture_apply kit change pic), False, out @ [publish kit (snd (picture_apply kit change pic))])"
    "unstamped (pb_sample (publish kit (snd (picture_apply kit change pic)))) = unstamped s"
    "fresh_samples (fst (pc_taken (snd (picture_apply kit change pic)))) batch"
  | told' where "samples_of (change # batch) = samples_of batch"
    "paint_one kit change (pic, told, out) = (snd (picture_apply kit change pic), told', out)"
    "fresh_samples (fst (pc_taken (snd (picture_apply kit change pic)))) batch"
proof -
  note sampled = that(1) and other = that(2)
  have quiet: thesis if same: "pc_taken (snd (picture_apply kit change pic)) = pc_taken pic"
    "samples_of (change # batch) = samples_of batch" "fresh_samples (fst (pc_taken pic)) batch"
  proof (rule other)
    show "samples_of (change # batch) = samples_of batch" by (rule same(2))
    show "paint_one kit change (pic, told, out) =
        (snd (picture_apply kit change pic), told \<or> fst (picture_apply kit change pic), out)"
      using same(1) by (simp add: paint_one_def Let_def split_def)
    show "fresh_samples (fst (pc_taken (snd (picture_apply kit change pic)))) batch" using same by simp
  qed
  show thesis
  proof (cases change)
    case (Core now addr d health)
    show thesis
    proof (cases "df_sample d")
      case None
      then show thesis using quiet assms by (simp add: Core update_taken(1))
    next
      case (Some s)
      have moved: "fst (picture_apply kit change pic)" "pc_taken (snd (picture_apply kit change pic)) = (addr, s)"
        using update_taken [where kit = kit and now = now and addr = addr and d = d and health = health and pic = pic] Some
        by (simp_all add: Core)
      have fresh: "addr \<noteq> fst (pc_taken pic)" "fresh_samples addr batch" using assms Some by (simp_all add: Core)
      show thesis
      proof (rule sampled)
        show "samples_of (change # batch) = s # samples_of batch" by (simp add: Core Some)
        show "paint_one kit change (pic, told, out) =
            (snd (picture_apply kit change pic), False, out @ [publish kit (snd (picture_apply kit change pic))])"
          using moved fresh(1) by (auto simp add: paint_one_def Let_def split_def)
        show "unstamped (pb_sample (publish kit (snd (picture_apply kit change pic)))) = unstamped s"
          using update_taken(2) [OF Some, where kit = kit and now = now and addr = addr and health = health and pic = pic] by (simp add: Core publish_def)
        show "fresh_samples (fst (pc_taken (snd (picture_apply kit change pic)))) batch"
          using moved(2) fresh(2) by simp
      qed
    qed
  next
    case (Scan services)
    then show thesis using quiet assms by simp
  next
    case (Status name status)
    then show thesis using quiet assms by simp
  qed
qed

lemma paint_fold:
  "fresh_samples (fst (pc_taken pic)) batch \<Longrightarrow>
    \<exists>told' new. fold (paint_one kit) batch (pic, told, out) = (apply_all kit batch pic, told', out @ new) \<and>
      map (unstamped \<circ> pb_sample) new = map unstamped (samples_of batch)"
proof (induction batch arbitrary: pic told out)
  case Nil
  then show ?case by simp
next
  case (Cons change batch)
  show ?case
  proof (rule paint_one_cases [OF Cons.prems, of kit told out])
    fix s
    let ?pic = "snd (picture_apply kit change pic)"
    assume s: "samples_of (change # batch) = s # samples_of batch"
      "paint_one kit change (pic, told, out) = (?pic, False, out @ [publish kit ?pic])"
      "unstamped (pb_sample (publish kit ?pic)) = unstamped s" "fresh_samples (fst (pc_taken ?pic)) batch"
    obtain told' new where "fold (paint_one kit) batch (?pic, False, out @ [publish kit ?pic]) =
        (apply_all kit batch ?pic, told', (out @ [publish kit ?pic]) @ new)"
      "map (unstamped \<circ> pb_sample) new = map unstamped (samples_of batch)"
      using Cons.IH [OF s(4)] by blast
    then show ?thesis using s(1-3) by (intro exI [of _ told'] exI [of _ "publish kit ?pic # new"]) (simp add: comp_def)
  next
    fix told'
    let ?pic = "snd (picture_apply kit change pic)"
    assume s: "samples_of (change # batch) = samples_of batch"
      "paint_one kit change (pic, told, out) = (?pic, told', out)" "fresh_samples (fst (pc_taken ?pic)) batch"
    then show ?thesis using Cons.IH [OF s(3), of told' out] by simp
  qed
qed

text \<open>
  No sample is skipped, however many changes come at once: painting a batch
  publishes each sample it brings, once and in order, and at most once more at
  the end for what else is new; the picture ends as if each change had been
  applied by itself.
\<close>
theorem every_sample_is_published:
  assumes "fresh_samples (fst (pc_taken pic)) batch" "paint kit batch pic = (pic', out)"
  shows "pic' = apply_all kit batch pic \<and>
    map (unstamped \<circ> pb_sample) (take (length (samples_of batch)) out) = map unstamped (samples_of batch) \<and>
    length out \<le> length (samples_of batch) + 1 \<and>
    (length out = length (samples_of batch) + 1 \<longrightarrow> last out = publish kit pic')"
proof -
  obtain told new where f: "fold (paint_one kit) batch (pic, False, []) = (apply_all kit batch pic, told, new)"
    "map (unstamped \<circ> pb_sample) new = map unstamped (samples_of batch)"
    using paint_fold [OF assms(1), of kit False "[]"] by auto
  then have l: "length new = length (samples_of batch)" by (metis length_map)
  have "pic' = apply_all kit batch pic" "out = (if told then new @ [publish kit pic'] else new)"
    using assms(2) f(1) by (auto simp: paint_def)
  then show ?thesis using f(2) l by auto
qed

theorem every_sample_is_published_witness:
  "\<exists>pic' out. paint counting_kit
      [Core 1 7 (diff_default\<lparr>df_sample := Some (sample_default\<lparr>s_snapshot := 5\<rparr>)\<rparr>) plain_health, Scan [],
       Core 2 8 (diff_default\<lparr>df_sample := Some (sample_default\<lparr>s_snapshot := 6\<rparr>)\<rparr>) plain_health]
      (picture_new counting_kit 3) = (pic', out) \<and>
    map (s_snapshot \<circ> unstamped \<circ> pb_sample) (take 2 out) = [5, 6]"
proof -
  let ?batch = "[Core 1 7 (diff_default\<lparr>df_sample := Some (sample_default\<lparr>s_snapshot := 5\<rparr>)\<rparr>) plain_health, Scan [],
       Core 2 8 (diff_default\<lparr>df_sample := Some (sample_default\<lparr>s_snapshot := 6\<rparr>)\<rparr>) plain_health]"
  obtain pic' out where p: "paint counting_kit ?batch (picture_new counting_kit 3) = (pic', out)" by force
  have "fresh_samples (fst (pc_taken (picture_new counting_kit 3))) ?batch" by (simp add: picture_new_def)
  from every_sample_is_published [OF this p]
  have "map (unstamped \<circ> pb_sample) (take 2 out) =
      [unstamped (sample_default\<lparr>s_snapshot := 5\<rparr>), unstamped (sample_default\<lparr>s_snapshot := 6\<rparr>)]"
    by (simp add: numeral_2_eq_2)
  then have "map s_snapshot (map (unstamped \<circ> pb_sample) (take 2 out)) = [5, 6]"
    by (simp add: unstamped_def)
  then show ?thesis using p by auto
qed

end
