(* ===== verification/Sampler.thy ===== *)
theory Sampler
  imports Feed Schedule
begin

text \<open>
  \<^verbatim>\<open>src/sampler.rs\<close>: the live subscriptions, what the core is asked to sample
  for them, and which samples each is delivered. An \<^verbatim>\<open>Arc<Slot>\<close> is an address,
  its content a store from addresses; the wake of the core and the waking of a
  waiting subscriber are calls without a result.
\<close>

section \<open>Subscribers\<close>

text \<open>\<^verbatim>\<open>Subscribe(spec, slot)\<close>, \<^verbatim>\<open>Unsubscribe(slot)\<close>, \<^verbatim>\<open>Idle(period)\<close>\<close>
datatype request = Subscribe metric_spec nat | Unsubscribe nat | Idle duration

record subscriber =
  sb_spec :: metric_spec
  sb_slot :: nat
  sb_delivered :: "sample option"

type_synonym slots = "nat \<Rightarrow> published option"

definition due_after :: "metric_spec \<Rightarrow> sample \<Rightarrow> u64" where
  "due_after spec sample =
    (let interval = period spec;
         slack = min interval (s_period sample) div 2
     in of_nat ((interval - slack) div 100))"

definition takes_sample :: "subscriber \<Rightarrow> sample \<Rightarrow> bool" where
  "takes_sample sb sample \<longleftrightarrow>
    (let lists_only = ms_processes (sb_spec sb) = {} \<and> ms_machine (sb_spec sb) = {}
     in covers (s_wanted sample) (sb_spec sb) \<and> (\<not> lists_only \<or> s_pids sample \<noteq> []) \<and>
        (case sb_delivered sb of
           None \<Rightarrow> True
         | Some held \<Rightarrow>
             s_snapshot held \<noteq> s_snapshot sample \<and>
             s_sampled_at sample \<ge> s_sampled_at held + due_after (sb_spec sb) sample))"

text \<open>\<^verbatim>\<open>Subscriber::deliver\<close>\<close>
definition subscriber_deliver :: "published \<Rightarrow> subscriber \<times> slots \<Rightarrow> subscriber \<times> slots" where
  "subscriber_deliver pub = (\<lambda>(sb, slots).
    if takes_sample sb (pb_sample pub)
    then (sb\<lparr>sb_delivered := Some (pb_sample pub)\<rparr>, slots(sb_slot sb := Some pub))
    else (sb, slots))"

section \<open>Subscriptions\<close>

record subscriptions =
  su_demand :: "metric_spec list"
  su_idle :: duration
  su_subscribers :: "subscriber list"
  su_slots :: slots

definition subscriptions_new :: "duration \<Rightarrow> subscriptions" where
  "subscriptions_new idle =
    \<lparr>su_demand = [spec_idle idle], su_idle = idle, su_subscribers = [], su_slots = (\<lambda>_. None)\<rparr>"

definition wanted_specs :: "subscriptions \<Rightarrow> metric_spec list" where
  "wanted_specs su =
    (let specs = map sb_spec (su_subscribers su)
     in if \<not> list_ex reads_processes specs then specs @ [spec_idle (su_idle su)] else specs)"

fun handle_request :: "request \<Rightarrow> published \<Rightarrow> subscriptions \<Rightarrow> subscriptions" where
  "handle_request (Subscribe spec slot) latest su =
    (let (sb, slots) = subscriber_deliver latest (\<lparr>sb_spec = spec, sb_slot = slot, sb_delivered = None\<rparr>, su_slots su);
         su = su\<lparr>su_subscribers := su_subscribers su @ [sb], su_slots := slots\<rparr>
     in su\<lparr>su_demand := wanted_specs su\<rparr>)"
| "handle_request (Unsubscribe slot) latest su =
    (let su = su\<lparr>su_subscribers := filter (\<lambda>sb. sb_slot sb \<noteq> slot) (su_subscribers su)\<rparr>
     in su\<lparr>su_demand := wanted_specs su\<rparr>)"
| "handle_request (Idle idle) latest su =
    (let su = su\<lparr>su_idle := idle\<rparr> in su\<lparr>su_demand := wanted_specs su\<rparr>)"

text \<open>The loop of \<^verbatim>\<open>deliver\<close> over the subscribers.\<close>
fun deliver_each :: "published \<Rightarrow> subscriber list \<Rightarrow> slots \<Rightarrow> subscriber list \<times> slots" where
  "deliver_each pub [] slots = ([], slots)"
| "deliver_each pub (sb # sbs) slots =
    (let (sb, slots) = subscriber_deliver pub (sb, slots);
         (sbs, slots) = deliver_each pub sbs slots
     in (sb # sbs, slots))"

definition subscriptions_deliver :: "published \<Rightarrow> subscriptions \<Rightarrow> subscriptions" where
  "subscriptions_deliver pub su =
    (let (sbs, slots) = deliver_each pub (su_subscribers su) (su_slots su)
     in su\<lparr>su_subscribers := sbs, su_slots := slots\<rparr>)"

text \<open>\<^verbatim>\<open>LocalSampler::latest\<close>\<close>
definition sampler_latest :: "metric_spec \<Rightarrow> nat \<Rightarrow> slots \<Rightarrow> sample option" where
  "sampler_latest spec slot slots = map_option (\<lambda>held. sample_project (pb_sample held) spec) (slots slot)"

text \<open>One turn of \<^verbatim>\<open>LocalSampler::published\<close>: what it returns, or None to wait.\<close>
definition sampler_published :: "nat \<Rightarrow> u64 \<Rightarrow> slots \<Rightarrow> published option" where
  "sampler_published slot if_none_match slots =
    (case slots slot of
       Some held \<Rightarrow> if s_snapshot (pb_sample held) \<noteq> if_none_match then Some held else None
     | None \<Rightarrow> None)"

section \<open>The demand\<close>

text \<open>What can come about: requests are handled and samples delivered, slots given out once.\<close>
inductive sampler_reach :: "subscriptions \<Rightarrow> nat set \<Rightarrow> bool" where
  sampler_new: "sampler_reach (subscriptions_new idle) {}"
| sampler_subscribe: "sampler_reach su used \<Longrightarrow> slot \<notin> used \<Longrightarrow>
    sampler_reach (handle_request (Subscribe spec slot) latest su) (insert slot used)"
| sampler_unsubscribe: "sampler_reach su used \<Longrightarrow> sampler_reach (handle_request (Unsubscribe slot) latest su) used"
| sampler_idle: "sampler_reach su used \<Longrightarrow> sampler_reach (handle_request (Idle idle) latest su) used"
| sampler_deliver: "sampler_reach su used \<Longrightarrow> sampler_reach (subscriptions_deliver pub su) used"

lemma deliver_one_keeps [simp]:
  "sb_spec (fst (subscriber_deliver pub (sb, slots))) = sb_spec sb"
  "sb_slot (fst (subscriber_deliver pub (sb, slots))) = sb_slot sb"
  by (simp_all add: subscriber_deliver_def)

lemma deliver_each_keeps [simp]:
  "map sb_spec (fst (deliver_each pub sbs slots)) = map sb_spec sbs"
  "map sb_slot (fst (deliver_each pub sbs slots)) = map sb_slot sbs"
proof (induction sbs arbitrary: slots)
  case (Cons sb sbs)
  { case 1 show ?case
      using Cons.IH(1) deliver_one_keeps(1) [of pub sb slots] by (auto simp: split_def Let_def) }
  { case 2 show ?case
      using Cons.IH(2) deliver_one_keeps(2) [of pub sb slots] by (auto simp: split_def Let_def) }
qed simp_all

lemma wanted_specs_cong:
  "map sb_spec (su_subscribers su) = map sb_spec (su_subscribers su') \<Longrightarrow> su_idle su = su_idle su' \<Longrightarrow>
    wanted_specs su = wanted_specs su'"
  by (simp add: wanted_specs_def Let_def)

text \<open>A subscriber holds, in its slot, the sample it was delivered last, and that covers what it asks.\<close>
definition holds_its_own :: "slots \<Rightarrow> subscriber \<Rightarrow> bool" where
  "holds_its_own slots sb \<longleftrightarrow>
    (case sb_delivered sb of
       None \<Rightarrow> True
     | Some s \<Rightarrow> covers (s_wanted s) (sb_spec sb) \<and> (\<exists>pub. slots (sb_slot sb) = Some pub \<and> pb_sample pub = s))"

definition subscriptions_ok :: "subscriptions \<Rightarrow> nat set \<Rightarrow> bool" where
  "subscriptions_ok su used \<longleftrightarrow>
    su_demand su = wanted_specs su \<and> distinct (map sb_slot (su_subscribers su)) \<and>
    sb_slot ` set (su_subscribers su) \<subseteq> used \<and> list_all (holds_its_own (su_slots su)) (su_subscribers su)"

lemma holds_deliver_one:
  "holds_its_own slots sb \<Longrightarrow>
    holds_its_own (snd (subscriber_deliver pub (sb, slots))) (fst (subscriber_deliver pub (sb, slots)))"
proof (cases "takes_sample sb (pb_sample pub)")
  case True
  then show ?thesis by (simp add: subscriber_deliver_def holds_its_own_def takes_sample_def Let_def)
qed (simp add: subscriber_deliver_def)

lemma deliver_one_slots: "slot \<noteq> sb_slot sb \<Longrightarrow> snd (subscriber_deliver pub (sb, slots)) slot = slots slot"
  by (simp add: subscriber_deliver_def)

lemma holds_cong: "slots (sb_slot sb) = slots' (sb_slot sb) \<Longrightarrow> holds_its_own slots sb = holds_its_own slots' sb"
  by (simp add: holds_its_own_def split: option.splits)

lemma deliver_each_slots:
  "slot \<notin> sb_slot ` set sbs \<Longrightarrow> snd (deliver_each pub sbs slots) slot = slots slot"
proof (induction sbs arbitrary: slots)
  case (Cons sb sbs)
  then show ?case using deliver_one_slots [of slot sb pub slots] by (simp add: split_def Let_def)
qed simp

lemma holds_deliver_each:
  "distinct (map sb_slot sbs) \<Longrightarrow> list_all (holds_its_own slots) sbs \<Longrightarrow>
    list_all (holds_its_own (snd (deliver_each pub sbs slots))) (fst (deliver_each pub sbs slots))"
proof (induction sbs arbitrary: slots)
  case (Cons sb sbs)
  obtain sb' slots' where one: "subscriber_deliver pub (sb, slots) = (sb', slots')" by force
  obtain sbs' slots'' where rest: "deliver_each pub sbs slots' = (sbs', slots'')" by force
  have slot: "sb_slot sb' = sb_slot sb" using deliver_one_keeps(2) [of pub sb slots] one by simp
  have apart: "sb_slot sb \<notin> sb_slot ` set sbs" using Cons.prems(1) by simp
  have "list_all (holds_its_own slots') sbs"
  proof -
    have "holds_its_own slots' x" if "x \<in> set sbs" for x
    proof -
      have "sb_slot x \<noteq> sb_slot sb" using apart that by (metis imageI)
      then have "slots (sb_slot x) = slots' (sb_slot x)"
        using deliver_one_slots [of "sb_slot x" sb pub slots] one by simp
      moreover have "holds_its_own slots x" using Cons.prems(2) that by (simp add: list_all_iff)
      ultimately show ?thesis using holds_cong [of slots x slots'] by simp
    qed
    then show ?thesis by (simp add: list_all_iff)
  qed
  then have later: "list_all (holds_its_own slots'') sbs'"
    using Cons.IH [of slots'] Cons.prems(1) rest by simp
  have "holds_its_own slots' sb'" using holds_deliver_one [of slots sb pub] Cons.prems(2) one by simp
  moreover have "slots'' (sb_slot sb') = slots' (sb_slot sb')"
    using deliver_each_slots [of "sb_slot sb'" sbs pub slots'] apart slot rest by simp
  ultimately have "holds_its_own slots'' sb'" using holds_cong by metis
  then show ?case using later one rest by simp
qed simp

lemma handled_ok:
  assumes "subscriptions_ok su used"
  shows "slot \<notin> used \<Longrightarrow> subscriptions_ok (handle_request (Subscribe spec slot) latest su) (insert slot used)"
    "subscriptions_ok (handle_request (Unsubscribe slot) latest su) used"
    "subscriptions_ok (handle_request (Idle idle) latest su) used"
    "subscriptions_ok (subscriptions_deliver pub su) used"
proof -
  have demand: "wanted_specs (su\<lparr>su_demand := d\<rparr>) = wanted_specs su" for su :: subscriptions and d
    by (simp add: wanted_specs_def Let_def)
  have ok: "distinct (map sb_slot (su_subscribers su))" "sb_slot ` set (su_subscribers su) \<subseteq> used"
    "list_all (holds_its_own (su_slots su)) (su_subscribers su)" "su_demand su = wanted_specs su"
    using assms by (simp_all add: subscriptions_ok_def)
  show "subscriptions_ok (handle_request (Subscribe spec slot) latest su) (insert slot used)" if new: "slot \<notin> used"
  proof -
    let ?sb = "\<lparr>sb_spec = spec, sb_slot = slot, sb_delivered = None\<rparr>"
    obtain sb slots where d: "subscriber_deliver latest (?sb, su_slots su) = (sb, slots)" by force
    have sb: "sb_slot sb = slot" using deliver_one_keeps(2) [of latest ?sb "su_slots su"] d by simp
    have "holds_its_own slots sb" using holds_deliver_one [of "su_slots su" ?sb latest] d by (simp add: holds_its_own_def)
    moreover have "holds_its_own slots x" if "x \<in> set (su_subscribers su)" for x
    proof -
      have "sb_slot x \<noteq> slot" using that ok(2) new by blast
      then have "su_slots su (sb_slot x) = slots (sb_slot x)"
        using deliver_one_slots [of "sb_slot x" ?sb latest "su_slots su"] d by simp
      moreover have "holds_its_own (su_slots su) x" using ok(3) that by (simp add: list_all_iff)
      ultimately show ?thesis using holds_cong [of "su_slots su" x slots] by simp
    qed
    ultimately have "list_all (holds_its_own slots) (su_subscribers su @ [sb])" by (simp add: list_all_iff)
    moreover have "handle_request (Subscribe spec slot) latest su =
        (let su = su\<lparr>su_subscribers := su_subscribers su @ [sb], su_slots := slots\<rparr> in su\<lparr>su_demand := wanted_specs su\<rparr>)"
      by (simp add: d)
    moreover have "slot \<notin> sb_slot ` set (su_subscribers su)" using ok(2) new by blast
    ultimately show ?thesis
      using ok(1,2) sb by (simp add: subscriptions_ok_def demand Let_def) blast
  qed
  show "subscriptions_ok (handle_request (Unsubscribe slot) latest su) used"
    using ok by (auto simp: subscriptions_ok_def demand list_all_iff Let_def distinct_map_filter)
  show "subscriptions_ok (handle_request (Idle idle) latest su) used"
    using ok by (simp add: subscriptions_ok_def demand Let_def)
  show "subscriptions_ok (subscriptions_deliver pub su) used"
  proof -
    obtain sbs slots where d: "deliver_each pub (su_subscribers su) (su_slots su) = (sbs, slots)" by force
    have keeps: "map sb_spec sbs = map sb_spec (su_subscribers su)" "map sb_slot sbs = map sb_slot (su_subscribers su)"
      using deliver_each_keeps [of pub "su_subscribers su" "su_slots su"] d by simp_all
    have "wanted_specs (su\<lparr>su_subscribers := sbs, su_slots := slots\<rparr>) = wanted_specs su"
      by (rule wanted_specs_cong) (simp_all add: keeps)
    moreover have "sb_slot ` set sbs = sb_slot ` set (su_subscribers su)" using keeps(2) by (metis list.set_map)
    ultimately show ?thesis
      using ok keeps holds_deliver_each [OF ok(1,3), of pub] d
      by (simp add: subscriptions_ok_def subscriptions_deliver_def)
  qed
qed

lemma sampler_reach_ok: "sampler_reach su used \<Longrightarrow> subscriptions_ok su used"
proof (induction rule: sampler_reach.induct)
  case (sampler_new idle)
  show ?case by (simp add: subscriptions_ok_def subscriptions_new_def wanted_specs_def)
qed (use handled_ok in blast)+

lemma reads_processes_idle [simp]: "reads_processes (spec_idle idle)"
  by (simp add: reads_processes_def spec_idle_def)


text \<open>
  What a subscriber reads is its own: the sample in its slot is the last one
  it was delivered and covers what it asks, so the projection it is given is
  exactly the counters of its spec.
\<close>
theorem slot_holds_its_own:
  assumes "sampler_reach su used" "sb \<in> set (su_subscribers su)" "sb_delivered sb = Some s"
  shows "covers (s_wanted s) (sb_spec sb) \<and>
    sampler_latest (sb_spec sb) (sb_slot sb) (su_slots su) = Some (sample_project s (sb_spec sb))"
proof -
  have "holds_its_own (su_slots su) sb"
    using sampler_reach_ok [OF assms(1)] assms(2) by (simp add: subscriptions_ok_def list_all_iff)
  then show ?thesis using assms(3) by (auto simp: holds_its_own_def sampler_latest_def)
qed

definition half_second :: metric_spec where
  "half_second = \<lparr>ms_interval = millis 500, ms_processes = {CpuCycles}, ms_machine = {}\<rparr>"

definition half_second_sample :: sample where
  "half_second_sample = sample_default\<lparr>s_snapshot := 1, s_wanted := half_second, s_period := millis 500\<rparr>"

definition nothing_published :: published where
  "nothing_published =
    \<lparr>pb_snapshot = \<lparr>sn_services = \<lparr>tg_etag = 0, tg_value = []\<rparr>, sn_processes = \<lparr>tg_etag = 0, tg_value = []\<rparr>,
       sn_states = \<lparr>tg_etag = 0, tg_value = process_states_default\<rparr>\<rparr>,
     pb_sample = sample_default, pb_dropped_by_sink = 0, pb_sessions = [], pb_snapshot_error = None,
     pb_reported_at = None\<rparr>"

definition one_subscriber :: subscriptions where
  "one_subscriber =
    subscriptions_deliver (nothing_published\<lparr>pb_sample := half_second_sample\<rparr>)
      (handle_request (Subscribe half_second 1) nothing_published (subscriptions_new (secs 2)))"

lemma one_subscriber_reach: "sampler_reach one_subscriber {1}"
  unfolding one_subscriber_def
  using sampler_deliver [OF sampler_subscribe [OF sampler_new [of "secs 2"], of 1 half_second nothing_published]] by simp

lemma one_subscriber_subs:
  "su_subscribers one_subscriber = [\<lparr>sb_spec = half_second, sb_slot = 1, sb_delivered = Some half_second_sample\<rparr>]"
  by (simp add: one_subscriber_def subscriptions_new_def subscriptions_deliver_def subscriber_deliver_def
      takes_sample_def covers_def half_second_def half_second_sample_def nothing_published_def
      sample_default_def spec_default_def spec_idle_def)


theorem slot_holds_its_own_witness:
  "sampler_latest half_second 1 (su_slots one_subscriber) = Some (sample_project half_second_sample half_second)"
  using slot_holds_its_own [OF one_subscriber_reach, of "\<lparr>sb_spec = half_second, sb_slot = 1, sb_delivered = Some half_second_sample\<rparr>" half_second_sample]
  by (simp add: one_subscriber_subs)

section \<open>Which samples are delivered\<close>

text \<open>The published samples a subscriber takes of those that come, by their place.\<close>
fun delivered_at :: "subscriber \<Rightarrow> nat \<Rightarrow> published list \<Rightarrow> nat list" where
  "delivered_at sb i [] = []"
| "delivered_at sb i (pub # pubs) =
    (if takes_sample sb (pb_sample pub) then [i] else []) @
    delivered_at (fst (subscriber_deliver pub (sb, \<lambda>_. None))) (Suc i) pubs"

text \<open>
  Samples taken every \<^verbatim>\<open>p\<close> ticks of 100 ns from \<^verbatim>\<open>t0\<close>, each late by less than half
  of it, for a subscriber that asks for every \<^verbatim>\<open>n\<close>-th.
\<close>
definition steady :: "metric_spec \<Rightarrow> nat \<Rightarrow> nat \<Rightarrow> nat \<Rightarrow> nat \<Rightarrow> published list \<Rightarrow> bool" where
  "steady spec t0 p n i pubs \<longleftrightarrow>
    (\<forall>k < length pubs. let s = pb_sample (pubs ! k) in
      covers (s_wanted s) spec \<and> s_pids s \<noteq> [] \<and> unat (s_snapshot s) = i + k \<and>
      s_period s = p * 100 \<and>
      t0 + (i + k) * p \<le> unat (s_sampled_at s) \<and> 2 * unat (s_sampled_at s) < 2 * (t0 + (i + k) * p) + p)"

lemma steady_Cons:
  "steady spec t0 p n i (pub # pubs) \<longleftrightarrow>
    (let s = pb_sample pub in
      covers (s_wanted s) spec \<and> s_pids s \<noteq> [] \<and> unat (s_snapshot s) = i \<and> s_period s = p * 100 \<and>
      t0 + i * p \<le> unat (s_sampled_at s) \<and> 2 * unat (s_sampled_at s) < 2 * (t0 + i * p) + p) \<and>
    steady spec t0 p n (Suc i) pubs"
  unfolding steady_def by (simp add: All_less_Suc2 Let_def)

lemma unat_due_after:
  assumes "period spec = n * p * 100" "s_period s = p * 100" "0 < n" "even p"
  shows "unat (due_after spec s) = n * p - p div 2"
proof -
  have "p * 100 \<le> n * p * 100" using assms(3) by (cases n) simp_all
  then have "min (n * p * 100) (p * 100) = p * 100" by (rule min_absorb2)
  moreover have "(n * p * 100 - p * 100 div 2) div 100 = n * p - p div 2"
  proof -
    obtain q where "p = 2 * q" using assms(4) by (auto elim: evenE)
    then have "n * p * 100 - p * 100 div 2 = (n * p - p div 2) * 100"
      unfolding diff_mult_distrib by simp
    then show ?thesis by simp
  qed
  ultimately have d: "due_after spec s = of_nat (n * p - p div 2)"
    using assms(1,2) by (simp add: due_after_def Let_def)
  have "n * p * 100 \<le> MAX_INTERVAL" using period_bounds [of spec] assms(1) by simp
  then have "n * p - p div 2 < 2 ^ 64" by (simp add: MAX_INTERVAL_def)
  then show ?thesis unfolding d by (simp add: unat_of_nat take_bit_nat_eq_self)
qed

lemma mult_mono_diff: "i + n \<le> j \<Longrightarrow> i * p + n * p \<le> j * (p :: nat)"
  using mult_le_mono1 [of "i + n" j p] by (simp add: add_mult_distrib)

text \<open>Whether the \<^verbatim>\<open>j\<close>-th sample is taken by a subscriber that took the \<^verbatim>\<open>i\<close>-th last.\<close>
lemma steady_takes:
  assumes per: "period (sb_spec sb) = n * p * 100" "0 < n" "even p" "0 < p"
    and s: "covers (s_wanted s) (sb_spec sb)" "s_pids s \<noteq> []" "s_period s = p * 100" "unat (s_snapshot s) = j"
      "t0 + j * p \<le> unat (s_sampled_at s)" "2 * unat (s_sampled_at s) < 2 * (t0 + j * p) + p"
    and held: "sb_delivered sb = Some h" "unat (s_snapshot h) = i"
      "t0 + i * p \<le> unat (s_sampled_at h)" "2 * unat (s_sampled_at h) < 2 * (t0 + i * p) + p"
      "unat (s_sampled_at h) + n * p < 2 ^ 64"
    and ij: "i < j" "j \<le> i + n"
  shows "takes_sample sb s \<longleftrightarrow> j = i + n"
proof -
  let ?due = "due_after (sb_spec sb) s"
  have due: "unat ?due = n * p - p div 2" using unat_due_after [OF per(1) s(3) per(2,3)] .
  have "p div 2 \<le> n * p" using per(2) by (metis div_le_dividend dual_order.trans le_square mult_le_mono1 nat_mult_1 Suc_leI One_nat_def)
  have sum: "unat (s_sampled_at h + ?due) = unat (s_sampled_at h) + (n * p - p div 2)"
    using held(5) due by (subst unat_add_lem [THEN iffD1]) simp_all
  have at: "s_sampled_at s \<ge> s_sampled_at h + ?due \<longleftrightarrow> unat (s_sampled_at h) + (n * p - p div 2) \<le> unat (s_sampled_at s)"
    by (simp add: word_le_nat_alt sum)
  have ids: "s_snapshot h \<noteq> s_snapshot s" using s(4) held(2) ij(1) by auto
  obtain q where q: "p = 2 * q" using per(3) by (auto elim: evenE)
  have "unat (s_sampled_at h) + (n * p - p div 2) \<le> unat (s_sampled_at s) \<longleftrightarrow> j = i + n"
  proof (cases "j = i + n")
    case True
    have "2 * unat (s_sampled_at h) < 2 * (t0 + i * p) + p" by (rule held(4))
    moreover have "t0 + i * p + n * p \<le> unat (s_sampled_at s)" using s(5) True by (simp add: add_mult_distrib)
    ultimately show ?thesis using True \<open>p div 2 \<le> n * p\<close> q by simp
  next
    case False
    then have "j + 1 \<le> i + n" using ij(2) by simp
    then have "j * p + p \<le> i * p + n * p" using mult_le_mono1 [of "j + 1" "i + n" p] by (simp add: add_mult_distrib)
    then show ?thesis using False s(6) held(3) \<open>p div 2 \<le> n * p\<close> q by simp
  qed
  then show ?thesis using s(1,2) ids held(1) at by (simp add: takes_sample_def)
qed

lemma delivered_at_steady:
  assumes "period (sb_spec sb) = n * p * 100" "0 < n" "even p" "0 < p"
    "steady (sb_spec sb) t0 p n j pubs" "t0 + (j + length pubs + n) * p + p < 2 ^ 64"
    "sb_delivered sb = Some h" "unat (s_snapshot h) = i"
    "t0 + i * p \<le> unat (s_sampled_at h)" "2 * unat (s_sampled_at h) < 2 * (t0 + i * p) + p"
    "i < j" "j \<le> i + n"
  shows "delivered_at sb j pubs = filter (\<lambda>k. (k - i) mod n = 0) [j..<j + length pubs]"
  using assms
proof (induction pubs arbitrary: sb j h i)
  case Nil
  then show ?case by simp
next
  case (Cons pub pubs)
  let ?s = "pb_sample pub"
  have s: "covers (s_wanted ?s) (sb_spec sb)" "s_pids ?s \<noteq> []" "s_period ?s = p * 100" "unat (s_snapshot ?s) = j"
    "t0 + j * p \<le> unat (s_sampled_at ?s)" "2 * unat (s_sampled_at ?s) < 2 * (t0 + j * p) + p"
    and rest: "steady (sb_spec sb) t0 p n (Suc j) pubs"
    using Cons.prems(5) unfolding steady_Cons Let_def by blast+
  have len: "t0 + (Suc j + length pubs + n) * p + p < 2 ^ 64" using Cons.prems(6) by simp
  have "t0 + (i + n) * p + p \<le> t0 + (Suc j + length pubs + n) * p + p"
    using Cons.prems(11) mult_le_mono1 [of "i + n" "Suc j + length pubs + n" p] by simp
  then have room: "unat (s_sampled_at h) + n * p < 2 ^ 64"
    using Cons.prems(10) len by (simp add: add_mult_distrib)
  have takes: "takes_sample sb ?s \<longleftrightarrow> j = i + n"
    by (rule steady_takes [OF Cons.prems(1-4) s Cons.prems(7-10) room Cons.prems(11,12)])
  have up: "[j..<j + length (pub # pubs)] = j # [Suc j..<Suc j + length pubs]"
    by (subst upt_conv_Cons) simp_all
  show ?case
  proof (cases "j = i + n")
    case True
    have mod: "(k - i) mod n = (k - j) mod n" if "k \<in> set [Suc j..<Suc j + length pubs]" for k
    proof -
      have "j \<le> k" using that by auto
      then have "k - i = (k - j) + n" using True by linarith
      then show ?thesis by simp
    qed
    let ?sb = "sb\<lparr>sb_delivered := Some ?s\<rparr>"
    have "delivered_at ?sb (Suc j) pubs = filter (\<lambda>k. (k - j) mod n = 0) [Suc j..<Suc j + length pubs]"
      by (rule Cons.IH [of ?sb "Suc j" ?s j]) (use Cons.prems(1-4) rest len s in simp_all)
    also have "\<dots> = filter (\<lambda>k. (k - i) mod n = 0) [Suc j..<Suc j + length pubs]"
      by (rule filter_cong [OF refl]) (simp add: mod)
    finally show ?thesis
      using takes True unfolding up by (simp add: subscriber_deliver_def)
  next
    case False
    then have "\<not> (j - i) mod n = 0" using Cons.prems(11,12) by simp
    moreover have "delivered_at sb (Suc j) pubs = filter (\<lambda>k. (k - i) mod n = 0) [Suc j..<Suc j + length pubs]"
      by (rule Cons.IH [of sb "Suc j" h i]) (use Cons.prems rest len False in simp_all)
    ultimately show ?thesis
      using takes False unfolding up by (simp add: subscriber_deliver_def)
  qed
qed

text \<open>
  A subscriber gets exactly the samples it is due: of samples the core takes
  every \<^verbatim>\<open>p\<close> ticks, each less than half of it late, one that asks for every
  \<^verbatim>\<open>n\<close>-th is delivered the first and every \<^verbatim>\<open>n\<close>-th after, never one between.
\<close>
theorem every_nth_sample_is_delivered:
  assumes "sb_delivered sb = None" "period (sb_spec sb) = n * p * 100" "0 < n" "even p" "0 < p"
    "steady (sb_spec sb) t0 p n 0 pubs" "t0 + (length pubs + n) * p + p < 2 ^ 64"
  shows "delivered_at sb 0 pubs = filter (\<lambda>k. k mod n = 0) [0..<length pubs]"
proof (cases pubs)
  case Nil
  then show ?thesis by simp
next
  case (Cons pub rest)
  let ?s = "pb_sample pub"
  let ?sb = "sb\<lparr>sb_delivered := Some ?s\<rparr>"
  have s: "covers (s_wanted ?s) (sb_spec sb)" "s_pids ?s \<noteq> []" "unat (s_snapshot ?s) = 0"
    "t0 + 0 * p \<le> unat (s_sampled_at ?s)" "2 * unat (s_sampled_at ?s) < 2 * (t0 + 0 * p) + p"
    and later: "steady (sb_spec sb) t0 p n (Suc 0) rest"
    using assms(6) unfolding Cons steady_Cons Let_def by simp_all
  have takes: "takes_sample sb ?s" using s(1,2) assms(1) by (simp add: takes_sample_def)
  have up: "[0..<length pubs] = 0 # [Suc 0..<Suc 0 + length rest]" unfolding Cons by (subst upt_conv_Cons) simp_all
  have "delivered_at ?sb (Suc 0) rest = filter (\<lambda>k. (k - 0) mod n = 0) [Suc 0..<Suc 0 + length rest]"
    by (rule delivered_at_steady [of ?sb n p t0 "Suc 0" rest ?s 0]) (use assms s later in \<open>simp_all add: Cons\<close>)
  then show ?thesis using takes unfolding up by (simp add: Cons subscriber_deliver_def)
qed

definition every_second_of :: "nat \<Rightarrow> published" where
  "every_second_of k =
    nothing_published\<lparr>pb_sample := half_second_sample\<lparr>s_snapshot := of_nat k, s_pids := [4], s_period := millis 500,
      s_sampled_at := of_nat (k * 5000000 + 7)\<rparr>\<rparr>"

theorem every_nth_sample_is_delivered_witness:
  "delivered_at \<lparr>sb_spec = half_second\<lparr>ms_interval := secs 1\<rparr>, sb_slot = 1, sb_delivered = None\<rparr> 0
    (map every_second_of [0..<5]) = [0, 2, 4]"
proof -
  let ?sb = "\<lparr>sb_spec = half_second\<lparr>ms_interval := secs 1\<rparr>, sb_slot = 1, sb_delivered = None\<rparr>"
  let ?pubs = "map every_second_of [0..<5]"
  have "steady (sb_spec ?sb) 0 5000000 2 0 ?pubs"
    unfolding steady_def Let_def
    by (auto simp: every_second_of_def half_second_sample_def half_second_def covers_def
        unat_of_nat take_bit_nat_eq_self unat_word_ariths)
  moreover have "period (sb_spec ?sb) = 2 * 5000000 * 100"
    by (simp add: period_def half_second_def MIN_INTERVAL_def MAX_INTERVAL_def)
  ultimately have "delivered_at ?sb 0 ?pubs = filter (\<lambda>k. k mod 2 = 0) [0..<length ?pubs]"
    using every_nth_sample_is_delivered [of ?sb 2 5000000 0 ?pubs] by simp
  then show ?thesis by (simp add: upt_rec)
qed

end
