(* ===== verification/Watch.thy ===== *)
theory Watch
  imports Sampler
begin

text \<open>
  \<^verbatim>\<open>src/watch.rs\<close>: what moved between two published snapshots, found by walking
  lists that are ordered by pid. The indices of the walk are the suffixes still
  to be walked.
\<close>

type_synonym row_key = "u32 \<times> u64"

abbreviation info_key :: "process_info \<Rightarrow> row_key" where
  "info_key p \<equiv> (pi_pid p, pi_sequence_number p)"

abbreviation state_key :: "process_state \<Rightarrow> row_key" where
  "state_key s \<equiv> (ps_pid s, ps_sequence_number s)"

text \<open>The upserted keys and the keys that left.\<close>
fun diff_rows :: "('r \<Rightarrow> row_key) \<Rightarrow> 'r list \<Rightarrow> 'r list \<Rightarrow> row_key list \<times> row_key list" where
  "diff_rows key (was # before) (now # after) =
    (if fst (key was) < fst (key now) then
       (let (upserted, left) = diff_rows key before (now # after) in (upserted, key was # left))
     else if fst (key was) > fst (key now) then
       (let (upserted, left) = diff_rows key (was # before) after in (key now # upserted, left))
     else
       (let (upserted, left) = diff_rows key before after
        in if key was \<noteq> key now then (key now # upserted, key was # left)
           else if was \<noteq> now then (key now # upserted, left)
           else (upserted, left)))"
| "diff_rows key (was # before) [] =
    (let (upserted, left) = diff_rows key before [] in (upserted, key was # left))"
| "diff_rows key [] (now # after) =
    (let (upserted, left) = diff_rows key [] after in (key now # upserted, left))"
| "diff_rows key [] [] = ([], [])"

definition changes_between :: "snapshot option \<Rightarrow> snapshot \<Rightarrow> changes" where
  "changes_between before after =
    (let states = pst_states (tg_value (sn_states after))
     in case before of
          None \<Rightarrow>
            \<lparr>ch_full = True, ch_passports = map info_key (tg_value (sn_processes after)), ch_left = [],
             ch_states = map state_key states, ch_services = True\<rparr>
        | Some before \<Rightarrow>
            (let changes = changes_default\<lparr>ch_services := tg_etag (sn_services before) \<noteq> tg_etag (sn_services after)\<rparr>;
                 changes =
                   (if tg_etag (sn_processes before) \<noteq> tg_etag (sn_processes after) then
                      (let (upserted, left) = diff_rows info_key (tg_value (sn_processes before)) (tg_value (sn_processes after))
                       in changes\<lparr>ch_passports := upserted, ch_left := left\<rparr>)
                    else changes)
             in if tg_etag (sn_states before) \<noteq> tg_etag (sn_states after) then
                  changes\<lparr>ch_states := fst (diff_rows state_key (pst_states (tg_value (sn_states before))) states)\<rparr>
                else changes))"

text \<open>
  \<^verbatim>\<open>LocalWatch::next\<close>: it waits for a sample later than the last one it showed (the
  first argument of \<open>sampler_published\<close>), then shows it against the lists shown last.
\<close>
definition watch_since :: "published option \<Rightarrow> u64" where
  "watch_since seen = (case seen of None \<Rightarrow> 0 | Some published \<Rightarrow> s_snapshot (pb_sample published))"

definition watch_next :: "metric_spec \<Rightarrow> published \<Rightarrow> published option \<Rightarrow> update \<times> published option" where
  "watch_next spec published seen =
    (\<lparr>up_snapshot = pb_snapshot published, up_sample = sample_project (pb_sample published) spec,
      up_changes = changes_between (map_option pb_snapshot seen) (pb_snapshot published)\<rparr>,
     Some published)"

section \<open>The walk finds what moved\<close>

text \<open>A list ordered by pid, each pid once.\<close>
definition ordered_rows :: "('r \<Rightarrow> row_key) \<Rightarrow> 'r list \<Rightarrow> bool" where
  "ordered_rows key rows \<longleftrightarrow> sorted_wrt (\<lambda>a b. fst (key a) < fst (key b)) rows"

lemma ordered_rows_simps [simp]:
  "ordered_rows key []"
  "ordered_rows key (r # rows) \<longleftrightarrow> (\<forall>x \<in> set rows. fst (key r) < fst (key x)) \<and> ordered_rows key rows"
  by (simp_all add: ordered_rows_def)

lemma diff_rows_exact:
  assumes "ordered_rows key before" "ordered_rows key after"
  shows "fst (diff_rows key before after) = map key (filter (\<lambda>r. r \<notin> set before) after) \<and>
    snd (diff_rows key before after) = map key (filter (\<lambda>r. key r \<notin> key ` set after) before)"
  using assms
proof (induction key before after rule: diff_rows.induct)
  case (1 key was before now after)
  consider (less) "fst (key was) < fst (key now)" | (greater) "fst (key now) < fst (key was)"
    | (same) "fst (key was) = fst (key now)" by (meson linorder_less_linear)
  then show ?case
  proof cases
    case less
    have gone: "key was \<notin> key ` set (now # after)" using "1.prems"(2) less by force
    have up: "filter (\<lambda>r. r \<notin> set (was # before)) (now # after) = filter (\<lambda>r. r \<notin> set before) (now # after)"
      by (rule filter_cong [OF refl]) (use gone in auto)
    show ?thesis
      unfolding up using "1.IH"(1) [OF less] "1.prems" less gone by (simp add: split_def Let_def)
  next
    case greater
    have new: "now \<notin> set (was # before)" using "1.prems"(1) greater by force
    have gone: "filter (\<lambda>r. key r \<notin> key ` set (now # after)) (was # before) =
        filter (\<lambda>r. key r \<notin> key ` set after) (was # before)"
    proof (rule filter_cong [OF refl])
      fix r
      assume "r \<in> set (was # before)"
      then have "key r \<noteq> key now" using "1.prems"(1) greater by force
      then show "(key r \<notin> key ` set (now # after)) = (key r \<notin> key ` set after)" by auto
    qed
    show ?thesis
      unfolding gone using "1.IH"(2) [OF less_not_sym [OF greater] greater] "1.prems" greater less_not_sym [OF greater] new
      by (simp add: split_def Let_def)
  next
    case same
    have fresh: "now \<notin> set before" "was \<notin> set after" "key was \<notin> key ` set after"
      using "1.prems" same by force+
    have other: "r \<noteq> was" if "r \<in> set after" for r using that fresh(2) by auto
    have keys: "key r \<noteq> key now" if "r \<in> set before" for r using that "1.prems"(1) same by force
    have IH: "fst (diff_rows key before after) = map key (filter (\<lambda>r. r \<notin> set before) after)"
      "snd (diff_rows key before after) = map key (filter (\<lambda>r. key r \<notin> key ` set after) before)"
      using "1.IH"(3) "1.prems" same by auto
    have up: "filter (\<lambda>r. r \<notin> set (was # before)) after = filter (\<lambda>r. r \<notin> set before) after"
      by (rule filter_cong) (use other in auto)
    have gone: "filter (\<lambda>r. key r \<notin> key ` set (now # after)) before = filter (\<lambda>r. key r \<notin> key ` set after) before"
      by (rule filter_cong) (use keys in auto)
    have "filter (\<lambda>r. r \<notin> set (was # before)) (now # after) =
        (if was = now then [] else [now]) @ filter (\<lambda>r. r \<notin> set before) after"
      using up fresh(1) by auto
    moreover have "filter (\<lambda>r. key r \<notin> key ` set (now # after)) (was # before) =
        (if key was = key now then [] else [was]) @ filter (\<lambda>r. key r \<notin> key ` set after) before"
      using gone fresh(3) by auto
    ultimately show ?thesis using IH same by (simp add: split_def Let_def)
  qed
qed (auto simp: split_def Let_def)

text \<open>
  The walk names exactly what moved: of two lists ordered by pid, the rows
  named new are the rows of the later one that the earlier one does not have as
  they are, and the rows named gone are those of the earlier one whose pid and
  number the later one does not list, each in order.
\<close>
theorem changes_name_what_moved:
  assumes "ordered_rows info_key (tg_value (sn_processes before))"
    "ordered_rows info_key (tg_value (sn_processes after))"
    "tg_etag (sn_processes before) \<noteq> tg_etag (sn_processes after)"
  shows "ch_passports (changes_between (Some before) after) =
      map info_key (filter (\<lambda>p. p \<notin> set (tg_value (sn_processes before))) (tg_value (sn_processes after))) \<and>
    ch_left (changes_between (Some before) after) =
      map info_key (filter (\<lambda>p. info_key p \<notin> info_key ` set (tg_value (sn_processes after)))
        (tg_value (sn_processes before))) \<and>
    \<not> ch_full (changes_between (Some before) after)"
  using diff_rows_exact [OF assms(1,2)] assms(3)
  by (auto simp: changes_between_def changes_default_def split_def Let_def)

text \<open>Two listed processes, one of which leaves, the pid of the other going to a third.\<close>
definition watched_row :: "u32 \<Rightarrow> u64 \<Rightarrow> process_info" where
  "watched_row pid sequence_number =
    \<lparr>pi_pid = pid, pi_parent_pid = 4, pi_session_id = 1, pi_name = ''p'', pi_cmdline = [], pi_package_full_name = '''',
     pi_package_relative_app_id = '''', pi_is_service = False, pi_is_kernel_process = False,
     pi_is_windows_process = False, pi_signature = StatusMicrosoft, pi_image_path = '''', pi_display_name = '''',
     pi_console_host_pid = 0, pi_start_time = 0, pi_sequence_number = sequence_number, pi_user = '''',
     pi_architecture = ArchUnknown, pi_elevated = None, pi_uac_virtualization = UacUnknown,
     pi_isolation = IsoUnknown, pi_dpi_awareness = DpiUnknown, pi_mitigations = None, pi_publisher = ''''\<rparr>"

definition watched :: "u64 \<Rightarrow> process_info list \<Rightarrow> snapshot" where
  "watched etag rows =
    \<lparr>sn_services = \<lparr>tg_etag = 1, tg_value = []\<rparr>, sn_processes = \<lparr>tg_etag = etag, tg_value = rows\<rparr>,
     sn_states = \<lparr>tg_etag = 1, tg_value = process_states_default\<rparr>\<rparr>"

lemma changes_name_what_moved_witness:
  "(let changes = changes_between (Some (watched 1 [watched_row 8 1, watched_row 12 2, watched_row 16 3]))
      (watched 2 [watched_row 8 1, watched_row 12 9])
    in ch_passports changes = [(12, 9)] \<and> ch_left changes = [(12, 2), (16, 3)])"
  using changes_name_what_moved [of "watched 1 [watched_row 8 1, watched_row 12 2, watched_row 16 3]"
      "watched 2 [watched_row 8 1, watched_row 12 9]"]
  by (simp add: watched_def watched_row_def)

end
