(* ===== verification/Wire_Enums.thy ===== *)
theory Wire_Enums
  imports Api
begin

text \<open>
  The enums of \<^verbatim>\<open>src/wire/encode.rs\<close> and \<^verbatim>\<open>src/wire/decode.rs\<close>, and what
  \<^verbatim>\<open>src/wire/mod.rs\<close> asks of a peer's version. The wire's enums are generated
  from a schema that is not in this repository; their variants are those the
  exhaustive matches of the two files name. A field of an enum may hold a value
  this build has no variant for (\<^verbatim>\<open>NotInSchema\<close>): its getter is an option.
\<close>

section \<open>Reading a message\<close>

text \<open>
  \<^verbatim>\<open>capnp::Result\<close>: a message that came from elsewhere may be malformed anywhere, so
  the getter of a pointer (text, list, struct) gives an error or the value. A
  message is the record of what its getters give; an encoder fills it with
  values its getters give back. The two errors of the code's own are those of
  \<^verbatim>\<open>held\<close> and \<^verbatim>\<open>based\<close>, with the two etags the second one's text names.
\<close>
datatype capnp_error = Malformed string | NeverCame | OtherBase u64 u64

type_synonym 'a read = "capnp_error + 'a"

text \<open>\<^verbatim>\<open>?\<close>\<close>
fun and_then :: "'a read \<Rightarrow> ('a \<Rightarrow> 'b read) \<Rightarrow> 'b read" where
  "and_then (Inl e) f = Inl e"
| "and_then (Inr x) f = f x"

text \<open>\<^verbatim>\<open>.map(..).collect::<capnp::Result<_>>()\<close>: the first error, or all of them.\<close>
fun read_all :: "('a \<Rightarrow> 'b read) \<Rightarrow> 'a list \<Rightarrow> 'b list read" where
  "read_all f [] = Inr []"
| "read_all f (x # xs) = and_then (f x) (\<lambda>y. and_then (read_all f xs) (\<lambda>ys. Inr (y # ys)))"

text \<open>A text: what its getter gives, and what \<^verbatim>\<open>to_str\<close> makes of it, which fails
  unless it is UTF-8.\<close>
type_synonym wire_text = "string read read"

definition read_text :: "wire_text \<Rightarrow> string read" where
  "read_text reader = and_then reader (\<lambda>t. and_then t Inr)"

abbreviation sent_text :: "string \<Rightarrow> wire_text" where
  "sent_text s \<equiv> Inr (Inr s)"

lemma read_sent_text [simp]: "read_text (sent_text s) = Inr s"
  by (simp add: read_text_def)

lemma read_all_map: "(\<And>x. x \<in> set xs \<Longrightarrow> f (g x) = Inr x) \<Longrightarrow> read_all f (map g xs) = Inr xs"
  by (induction xs) auto

lemma read_all_sent [simp]: "read_all f xs = Inr (map g xs) \<longleftrightarrow> (\<forall>x \<in> set xs. f x = Inr (g x))"
proof (induction xs)
  case (Cons x xs)
  show ?case
  proof (cases "f x")
    case (Inr y)
    then show ?thesis using Cons.IH by (cases "read_all f xs") auto
  qed simp
qed simp

lemma and_then_Inr: "and_then r f = Inr y \<longleftrightarrow> (\<exists>x. r = Inr x \<and> f x = Inr y)"
  by (cases r) auto

lemma and_then_Inl: "and_then r f = Inl e \<longleftrightarrow> r = Inl e \<or> (\<exists>x. r = Inr x \<and> f x = Inl e)"
  by (cases r) auto

section \<open>Enums\<close>

datatype wire_signature =
    WStatusUnknown | WStatusUnsigned | WStatusMicrosoft | WStatusThirdParty

fun encode_signature :: "signature_status \<Rightarrow> wire_signature" where
  "encode_signature StatusUnknown = WStatusUnknown"
| "encode_signature StatusUnsigned = WStatusUnsigned"
| "encode_signature StatusMicrosoft = WStatusMicrosoft"
| "encode_signature StatusThirdParty = WStatusThirdParty"

fun decode_signature :: "wire_signature option \<Rightarrow> signature_status" where
  "decode_signature (Some WStatusUnsigned) = StatusUnsigned"
| "decode_signature (Some WStatusMicrosoft) = StatusMicrosoft"
| "decode_signature (Some WStatusThirdParty) = StatusThirdParty"
| "decode_signature (Some WStatusUnknown) = StatusUnknown"
| "decode_signature None = StatusUnknown"

datatype wire_service_state =
    WSvcUnknown | WSvcStopped | WSvcStartPending | WSvcStopPending | WSvcRunning
    | WSvcContinuePending | WSvcPausePending | WSvcPaused

fun encode_service_state :: "service_state \<Rightarrow> wire_service_state" where
  "encode_service_state SvcUnknown = WSvcUnknown"
| "encode_service_state SvcStopped = WSvcStopped"
| "encode_service_state SvcStartPending = WSvcStartPending"
| "encode_service_state SvcStopPending = WSvcStopPending"
| "encode_service_state SvcRunning = WSvcRunning"
| "encode_service_state SvcContinuePending = WSvcContinuePending"
| "encode_service_state SvcPausePending = WSvcPausePending"
| "encode_service_state SvcPaused = WSvcPaused"

fun decode_service_state :: "wire_service_state option \<Rightarrow> service_state" where
  "decode_service_state (Some WSvcStopped) = SvcStopped"
| "decode_service_state (Some WSvcStartPending) = SvcStartPending"
| "decode_service_state (Some WSvcStopPending) = SvcStopPending"
| "decode_service_state (Some WSvcRunning) = SvcRunning"
| "decode_service_state (Some WSvcContinuePending) = SvcContinuePending"
| "decode_service_state (Some WSvcPausePending) = SvcPausePending"
| "decode_service_state (Some WSvcPaused) = SvcPaused"
| "decode_service_state (Some WSvcUnknown) = SvcUnknown"
| "decode_service_state None = SvcUnknown"

datatype wire_priority =
    WPrioUnknown | WPrioIdle | WPrioBelowNormal | WPrioNormal | WPrioAboveNormal
    | WPrioHigh | WPrioRealtime

fun encode_priority :: "process_priority \<Rightarrow> wire_priority" where
  "encode_priority PrioIdle = WPrioIdle"
| "encode_priority PrioBelowNormal = WPrioBelowNormal"
| "encode_priority PrioNormal = WPrioNormal"
| "encode_priority PrioAboveNormal = WPrioAboveNormal"
| "encode_priority PrioHigh = WPrioHigh"
| "encode_priority PrioRealtime = WPrioRealtime"

fun decode_priority :: "wire_priority option \<Rightarrow> process_priority option" where
  "decode_priority (Some WPrioIdle) = Some PrioIdle"
| "decode_priority (Some WPrioBelowNormal) = Some PrioBelowNormal"
| "decode_priority (Some WPrioNormal) = Some PrioNormal"
| "decode_priority (Some WPrioAboveNormal) = Some PrioAboveNormal"
| "decode_priority (Some WPrioHigh) = Some PrioHigh"
| "decode_priority (Some WPrioRealtime) = Some PrioRealtime"
| "decode_priority (Some WPrioUnknown) = None"
| "decode_priority None = None"

datatype wire_toggle =
    WToggleUnknown | WToggleOff | WToggleOn

fun encode_toggle :: "bool option \<Rightarrow> wire_toggle" where
  "encode_toggle None = WToggleUnknown"
| "encode_toggle (Some False) = WToggleOff"
| "encode_toggle (Some True) = WToggleOn"

fun decode_toggle :: "wire_toggle option \<Rightarrow> bool option" where
  "decode_toggle (Some WToggleOn) = Some True"
| "decode_toggle (Some WToggleOff) = Some False"
| "decode_toggle (Some WToggleUnknown) = None"
| "decode_toggle None = None"

datatype wire_architecture =
    WArchUnknown | WArchX86 | WArchX64 | WArchArm | WArchArm64 | WArchArm64X86Compatible
    | WArchArm64X64Compatible

fun encode_architecture :: "architecture \<Rightarrow> wire_architecture" where
  "encode_architecture ArchUnknown = WArchUnknown"
| "encode_architecture X86 = WArchX86"
| "encode_architecture X64 = WArchX64"
| "encode_architecture Arm = WArchArm"
| "encode_architecture Arm64 = WArchArm64"
| "encode_architecture Arm64X86Compatible = WArchArm64X86Compatible"
| "encode_architecture Arm64X64Compatible = WArchArm64X64Compatible"

fun decode_architecture :: "wire_architecture option \<Rightarrow> architecture" where
  "decode_architecture (Some WArchX86) = X86"
| "decode_architecture (Some WArchX64) = X64"
| "decode_architecture (Some WArchArm) = Arm"
| "decode_architecture (Some WArchArm64) = Arm64"
| "decode_architecture (Some WArchArm64X86Compatible) = Arm64X86Compatible"
| "decode_architecture (Some WArchArm64X64Compatible) = Arm64X64Compatible"
| "decode_architecture (Some WArchUnknown) = ArchUnknown"
| "decode_architecture None = ArchUnknown"

datatype wire_uac =
    WUacUnknown | WUacNotAllowed | WUacDisabled | WUacEnabled

fun encode_uac_virtualization :: "uac_virtualization \<Rightarrow> wire_uac" where
  "encode_uac_virtualization UacUnknown = WUacUnknown"
| "encode_uac_virtualization UacNotAllowed = WUacNotAllowed"
| "encode_uac_virtualization UacDisabled = WUacDisabled"
| "encode_uac_virtualization UacEnabled = WUacEnabled"

fun decode_uac_virtualization :: "wire_uac option \<Rightarrow> uac_virtualization" where
  "decode_uac_virtualization (Some WUacNotAllowed) = UacNotAllowed"
| "decode_uac_virtualization (Some WUacDisabled) = UacDisabled"
| "decode_uac_virtualization (Some WUacEnabled) = UacEnabled"
| "decode_uac_virtualization (Some WUacUnknown) = UacUnknown"
| "decode_uac_virtualization None = UacUnknown"

datatype wire_isolation =
    WIsoUnknown | WIsoNone | WIsoAppContainer | WIsoUwp | WIsoSilo

fun encode_isolation :: "isolation \<Rightarrow> wire_isolation" where
  "encode_isolation IsoUnknown = WIsoUnknown"
| "encode_isolation IsoNone = WIsoNone"
| "encode_isolation IsoAppContainer = WIsoAppContainer"
| "encode_isolation IsoUwp = WIsoUwp"
| "encode_isolation IsoSilo = WIsoSilo"

fun decode_isolation :: "wire_isolation option \<Rightarrow> isolation" where
  "decode_isolation (Some WIsoNone) = IsoNone"
| "decode_isolation (Some WIsoAppContainer) = IsoAppContainer"
| "decode_isolation (Some WIsoUwp) = IsoUwp"
| "decode_isolation (Some WIsoSilo) = IsoSilo"
| "decode_isolation (Some WIsoUnknown) = IsoUnknown"
| "decode_isolation None = IsoUnknown"

datatype wire_dpi =
    WDpiUnknown | WDpiUnaware | WDpiSystem | WDpiPerMonitor | WDpiPerMonitorV2
    | WDpiUnawareGdiScaled

fun encode_dpi_awareness :: "dpi_awareness \<Rightarrow> wire_dpi" where
  "encode_dpi_awareness DpiUnknown = WDpiUnknown"
| "encode_dpi_awareness DpiUnaware = WDpiUnaware"
| "encode_dpi_awareness DpiSystem = WDpiSystem"
| "encode_dpi_awareness DpiPerMonitor = WDpiPerMonitor"
| "encode_dpi_awareness DpiPerMonitorV2 = WDpiPerMonitorV2"
| "encode_dpi_awareness DpiUnawareGdiScaled = WDpiUnawareGdiScaled"

fun decode_dpi_awareness :: "wire_dpi option \<Rightarrow> dpi_awareness" where
  "decode_dpi_awareness (Some WDpiUnaware) = DpiUnaware"
| "decode_dpi_awareness (Some WDpiSystem) = DpiSystem"
| "decode_dpi_awareness (Some WDpiPerMonitor) = DpiPerMonitor"
| "decode_dpi_awareness (Some WDpiPerMonitorV2) = DpiPerMonitorV2"
| "decode_dpi_awareness (Some WDpiUnawareGdiScaled) = DpiUnawareGdiScaled"
| "decode_dpi_awareness (Some WDpiUnknown) = DpiUnknown"
| "decode_dpi_awareness None = DpiUnknown"

datatype wire_stack_protection =
    WStackUnknown | WStackOff | WStackCompatible | WStackStrict | WStackCompatibleAudit
    | WStackStrictAudit

fun encode_stack_protection :: "stack_protection \<Rightarrow> wire_stack_protection" where
  "encode_stack_protection StackUnknown = WStackUnknown"
| "encode_stack_protection StackOff = WStackOff"
| "encode_stack_protection StackCompatible = WStackCompatible"
| "encode_stack_protection StackStrict = WStackStrict"
| "encode_stack_protection StackCompatibleAudit = WStackCompatibleAudit"
| "encode_stack_protection StackStrictAudit = WStackStrictAudit"

fun decode_stack_protection :: "wire_stack_protection option \<Rightarrow> stack_protection" where
  "decode_stack_protection (Some WStackOff) = StackOff"
| "decode_stack_protection (Some WStackCompatible) = StackCompatible"
| "decode_stack_protection (Some WStackStrict) = StackStrict"
| "decode_stack_protection (Some WStackCompatibleAudit) = StackCompatibleAudit"
| "decode_stack_protection (Some WStackStrictAudit) = StackStrictAudit"
| "decode_stack_protection (Some WStackUnknown) = StackUnknown"
| "decode_stack_protection None = StackUnknown"

datatype wire_extended_cfg =
    WXfgUnknown | WXfgOff | WXfgAudit | WXfgOn

fun encode_extended_cfg :: "extended_cfg \<Rightarrow> wire_extended_cfg" where
  "encode_extended_cfg XfgUnknown = WXfgUnknown"
| "encode_extended_cfg XfgOff = WXfgOff"
| "encode_extended_cfg XfgAudit = WXfgAudit"
| "encode_extended_cfg XfgOn = WXfgOn"

fun decode_extended_cfg :: "wire_extended_cfg option \<Rightarrow> extended_cfg" where
  "decode_extended_cfg (Some WXfgOff) = XfgOff"
| "decode_extended_cfg (Some WXfgAudit) = XfgAudit"
| "decode_extended_cfg (Some WXfgOn) = XfgOn"
| "decode_extended_cfg (Some WXfgUnknown) = XfgUnknown"
| "decode_extended_cfg None = XfgUnknown"

datatype wire_io_priority =
    WIoUnknown | WIoVeryLow | WIoLow | WIoNormal | WIoHigh | WIoCritical

fun encode_io_priority :: "io_priority \<Rightarrow> wire_io_priority" where
  "encode_io_priority IoUnknown = WIoUnknown"
| "encode_io_priority IoVeryLow = WIoVeryLow"
| "encode_io_priority IoLow = WIoLow"
| "encode_io_priority IoNormal = WIoNormal"
| "encode_io_priority IoHigh = WIoHigh"
| "encode_io_priority IoCritical = WIoCritical"

fun decode_io_priority :: "wire_io_priority option \<Rightarrow> io_priority" where
  "decode_io_priority (Some WIoVeryLow) = IoVeryLow"
| "decode_io_priority (Some WIoLow) = IoLow"
| "decode_io_priority (Some WIoNormal) = IoNormal"
| "decode_io_priority (Some WIoHigh) = IoHigh"
| "decode_io_priority (Some WIoCritical) = IoCritical"
| "decode_io_priority (Some WIoUnknown) = IoUnknown"
| "decode_io_priority None = IoUnknown"

datatype wire_process_metric =
    WCpuUserTime | WCpuKernelTime | WCpuCycles | WWorkingSet | WPeakWorkingSet
    | WPrivateWorkingSet | WCommit | WPagedPool | WNonPagedPool | WPageFaults | WHandles
    | WThreads | WUserObjects | WGdiObjects | WIoReadOps | WIoWriteOps | WIoOtherOps
    | WIoReadBytes | WIoWriteBytes | WIoOtherBytes | WDiskReadOps | WDiskWriteOps
    | WDiskFlushOps | WDiskReadBytes | WDiskWriteBytes | WNetRxBytes | WNetTxBytes
    | WVirtualSize | WPeakVirtualSize | WPeakCommit | WPeakPagedPool | WPeakNonPagedPool
    | WHardFaults | WPeakThreads | WContextSwitches | WGpuDedicated | WGpuShared
    | WGpuEngines | WExclusiveMapped | WVmWorkingSet

fun encode_process_metric :: "process_metric \<Rightarrow> wire_process_metric" where
  "encode_process_metric CpuUserTime = WCpuUserTime"
| "encode_process_metric CpuKernelTime = WCpuKernelTime"
| "encode_process_metric CpuCycles = WCpuCycles"
| "encode_process_metric WorkingSet = WWorkingSet"
| "encode_process_metric PeakWorkingSet = WPeakWorkingSet"
| "encode_process_metric PrivateWorkingSet = WPrivateWorkingSet"
| "encode_process_metric Commit = WCommit"
| "encode_process_metric PagedPool = WPagedPool"
| "encode_process_metric NonPagedPool = WNonPagedPool"
| "encode_process_metric PageFaults = WPageFaults"
| "encode_process_metric Handles = WHandles"
| "encode_process_metric Threads = WThreads"
| "encode_process_metric UserObjects = WUserObjects"
| "encode_process_metric GdiObjects = WGdiObjects"
| "encode_process_metric IoReadOps = WIoReadOps"
| "encode_process_metric IoWriteOps = WIoWriteOps"
| "encode_process_metric IoOtherOps = WIoOtherOps"
| "encode_process_metric IoReadBytes = WIoReadBytes"
| "encode_process_metric IoWriteBytes = WIoWriteBytes"
| "encode_process_metric IoOtherBytes = WIoOtherBytes"
| "encode_process_metric DiskReadOps = WDiskReadOps"
| "encode_process_metric DiskWriteOps = WDiskWriteOps"
| "encode_process_metric DiskFlushOps = WDiskFlushOps"
| "encode_process_metric DiskReadBytes = WDiskReadBytes"
| "encode_process_metric DiskWriteBytes = WDiskWriteBytes"
| "encode_process_metric NetRxBytes = WNetRxBytes"
| "encode_process_metric NetTxBytes = WNetTxBytes"
| "encode_process_metric VirtualSize = WVirtualSize"
| "encode_process_metric PeakVirtualSize = WPeakVirtualSize"
| "encode_process_metric PeakCommit = WPeakCommit"
| "encode_process_metric PeakPagedPool = WPeakPagedPool"
| "encode_process_metric PeakNonPagedPool = WPeakNonPagedPool"
| "encode_process_metric HardFaults = WHardFaults"
| "encode_process_metric PeakThreads = WPeakThreads"
| "encode_process_metric ContextSwitches = WContextSwitches"
| "encode_process_metric GpuDedicated = WGpuDedicated"
| "encode_process_metric GpuShared = WGpuShared"
| "encode_process_metric GpuEngines = WGpuEngines"
| "encode_process_metric ExclusiveMapped = WExclusiveMapped"
| "encode_process_metric VmWorkingSet = WVmWorkingSet"

fun decode_process_metric :: "wire_process_metric \<Rightarrow> process_metric" where
  "decode_process_metric WCpuUserTime = CpuUserTime"
| "decode_process_metric WCpuKernelTime = CpuKernelTime"
| "decode_process_metric WCpuCycles = CpuCycles"
| "decode_process_metric WWorkingSet = WorkingSet"
| "decode_process_metric WPeakWorkingSet = PeakWorkingSet"
| "decode_process_metric WPrivateWorkingSet = PrivateWorkingSet"
| "decode_process_metric WCommit = Commit"
| "decode_process_metric WPagedPool = PagedPool"
| "decode_process_metric WNonPagedPool = NonPagedPool"
| "decode_process_metric WPageFaults = PageFaults"
| "decode_process_metric WHandles = Handles"
| "decode_process_metric WThreads = Threads"
| "decode_process_metric WUserObjects = UserObjects"
| "decode_process_metric WGdiObjects = GdiObjects"
| "decode_process_metric WIoReadOps = IoReadOps"
| "decode_process_metric WIoWriteOps = IoWriteOps"
| "decode_process_metric WIoOtherOps = IoOtherOps"
| "decode_process_metric WIoReadBytes = IoReadBytes"
| "decode_process_metric WIoWriteBytes = IoWriteBytes"
| "decode_process_metric WIoOtherBytes = IoOtherBytes"
| "decode_process_metric WDiskReadOps = DiskReadOps"
| "decode_process_metric WDiskWriteOps = DiskWriteOps"
| "decode_process_metric WDiskFlushOps = DiskFlushOps"
| "decode_process_metric WDiskReadBytes = DiskReadBytes"
| "decode_process_metric WDiskWriteBytes = DiskWriteBytes"
| "decode_process_metric WNetRxBytes = NetRxBytes"
| "decode_process_metric WNetTxBytes = NetTxBytes"
| "decode_process_metric WVirtualSize = VirtualSize"
| "decode_process_metric WPeakVirtualSize = PeakVirtualSize"
| "decode_process_metric WPeakCommit = PeakCommit"
| "decode_process_metric WPeakPagedPool = PeakPagedPool"
| "decode_process_metric WPeakNonPagedPool = PeakNonPagedPool"
| "decode_process_metric WHardFaults = HardFaults"
| "decode_process_metric WPeakThreads = PeakThreads"
| "decode_process_metric WContextSwitches = ContextSwitches"
| "decode_process_metric WGpuDedicated = GpuDedicated"
| "decode_process_metric WGpuShared = GpuShared"
| "decode_process_metric WGpuEngines = GpuEngines"
| "decode_process_metric WExclusiveMapped = ExclusiveMapped"
| "decode_process_metric WVmWorkingSet = VmWorkingSet"

datatype wire_machine_metric =
    WM_Cpu | WM_Memory | WM_Disk | WM_Network | WM_Processors | WM_Gpu
    | WM_NetworkAdapters | WM_Temperatures

fun encode_machine_metric :: "machine_metric \<Rightarrow> wire_machine_metric" where
  "encode_machine_metric M_Cpu = WM_Cpu"
| "encode_machine_metric M_Memory = WM_Memory"
| "encode_machine_metric M_Disk = WM_Disk"
| "encode_machine_metric M_Network = WM_Network"
| "encode_machine_metric M_Processors = WM_Processors"
| "encode_machine_metric M_Gpu = WM_Gpu"
| "encode_machine_metric M_NetworkAdapters = WM_NetworkAdapters"
| "encode_machine_metric M_Temperatures = WM_Temperatures"

fun decode_machine_metric :: "wire_machine_metric \<Rightarrow> machine_metric" where
  "decode_machine_metric WM_Cpu = M_Cpu"
| "decode_machine_metric WM_Memory = M_Memory"
| "decode_machine_metric WM_Disk = M_Disk"
| "decode_machine_metric WM_Network = M_Network"
| "decode_machine_metric WM_Processors = M_Processors"
| "decode_machine_metric WM_Gpu = M_Gpu"
| "decode_machine_metric WM_NetworkAdapters = M_NetworkAdapters"
| "decode_machine_metric WM_Temperatures = M_Temperatures"

datatype wire_gpu_engine_type =
    WEngineOther | WEngineThreeD | WEngineVideoDecode | WEngineVideoEncode
    | WEngineVideoProcessing | WEngineSceneAssembly | WEngineCopy | WEngineOverlay
    | WEngineCrypto | WEngineVideoCodec

fun encode_gpu_engine_kind :: "gpu_engine_kind \<Rightarrow> wire_gpu_engine_type" where
  "encode_gpu_engine_kind EngineOther = WEngineOther"
| "encode_gpu_engine_kind EngineThreeD = WEngineThreeD"
| "encode_gpu_engine_kind EngineVideoDecode = WEngineVideoDecode"
| "encode_gpu_engine_kind EngineVideoEncode = WEngineVideoEncode"
| "encode_gpu_engine_kind EngineVideoProcessing = WEngineVideoProcessing"
| "encode_gpu_engine_kind EngineSceneAssembly = WEngineSceneAssembly"
| "encode_gpu_engine_kind EngineCopy = WEngineCopy"
| "encode_gpu_engine_kind EngineOverlay = WEngineOverlay"
| "encode_gpu_engine_kind EngineCrypto = WEngineCrypto"
| "encode_gpu_engine_kind EngineVideoCodec = WEngineVideoCodec"

fun decode_gpu_engine_kind :: "wire_gpu_engine_type option \<Rightarrow> gpu_engine_kind" where
  "decode_gpu_engine_kind (Some WEngineThreeD) = EngineThreeD"
| "decode_gpu_engine_kind (Some WEngineVideoDecode) = EngineVideoDecode"
| "decode_gpu_engine_kind (Some WEngineVideoEncode) = EngineVideoEncode"
| "decode_gpu_engine_kind (Some WEngineVideoProcessing) = EngineVideoProcessing"
| "decode_gpu_engine_kind (Some WEngineSceneAssembly) = EngineSceneAssembly"
| "decode_gpu_engine_kind (Some WEngineCopy) = EngineCopy"
| "decode_gpu_engine_kind (Some WEngineOverlay) = EngineOverlay"
| "decode_gpu_engine_kind (Some WEngineCrypto) = EngineCrypto"
| "decode_gpu_engine_kind (Some WEngineVideoCodec) = EngineVideoCodec"
| "decode_gpu_engine_kind (Some WEngineOther) = EngineOther"
| "decode_gpu_engine_kind None = EngineOther"

text \<open>The start types of \<^verbatim>\<open>service_stats\<close> and \<^verbatim>\<open>services\<close>.\<close>
datatype wire_startup_type =
    WStartUnknown | WStartBoot | WStartSystem | WStartAutomatic | WStartManual | WStartDisabled

fun encode_startup_type :: "service_start_type \<Rightarrow> wire_startup_type" where
  "encode_startup_type StartUnknown = WStartUnknown"
| "encode_startup_type StartBoot = WStartBoot"
| "encode_startup_type StartSystem = WStartSystem"
| "encode_startup_type StartAutomatic = WStartAutomatic"
| "encode_startup_type StartManual = WStartManual"
| "encode_startup_type StartDisabled = WStartDisabled"

fun decode_startup_type :: "wire_startup_type option \<Rightarrow> service_start_type" where
  "decode_startup_type (Some WStartBoot) = StartBoot"
| "decode_startup_type (Some WStartSystem) = StartSystem"
| "decode_startup_type (Some WStartAutomatic) = StartAutomatic"
| "decode_startup_type (Some WStartManual) = StartManual"
| "decode_startup_type (Some WStartDisabled) = StartDisabled"
| "decode_startup_type _ = StartUnknown"

datatype wire_temperature_status = WTempUnknown | WTempAvailable | WTempUnavailable | WTempError

fun encode_temperature_status :: "temperature_status \<Rightarrow> wire_temperature_status" where
  "encode_temperature_status TempUnknown = WTempUnknown"
| "encode_temperature_status TempAvailable = WTempAvailable"
| "encode_temperature_status TempUnavailable = WTempUnavailable"
| "encode_temperature_status TempError = WTempError"

fun decode_temperature_status :: "wire_temperature_status option \<Rightarrow> temperature_status" where
  "decode_temperature_status (Some WTempAvailable) = TempAvailable"
| "decode_temperature_status (Some WTempUnavailable) = TempUnavailable"
| "decode_temperature_status (Some WTempError) = TempError"
| "decode_temperature_status _ = TempUnknown"

datatype wire_temperature_category =
    WTempOfUnknown | WTempOfCpu | WTempOfGpu | WTempOfMemory | WTempOfStorage

fun encode_temperature_category :: "temperature_category \<Rightarrow> wire_temperature_category" where
  "encode_temperature_category TempOfUnknown = WTempOfUnknown"
| "encode_temperature_category TempOfCpu = WTempOfCpu"
| "encode_temperature_category TempOfGpu = WTempOfGpu"
| "encode_temperature_category TempOfMemory = WTempOfMemory"
| "encode_temperature_category TempOfStorage = WTempOfStorage"

fun decode_temperature_category :: "wire_temperature_category option \<Rightarrow> temperature_category" where
  "decode_temperature_category (Some WTempOfCpu) = TempOfCpu"
| "decode_temperature_category (Some WTempOfGpu) = TempOfGpu"
| "decode_temperature_category (Some WTempOfMemory) = TempOfMemory"
| "decode_temperature_category (Some WTempOfStorage) = TempOfStorage"
| "decode_temperature_category _ = TempOfUnknown"

section \<open>Every value is read back\<close>

lemma signature_roundtrip [simp]: "decode_signature (Some (encode_signature v)) = v"
  by (cases v) simp_all

lemma service_state_roundtrip [simp]: "decode_service_state (Some (encode_service_state v)) = v"
  by (cases v) simp_all

lemma priority_roundtrip [simp]: "decode_priority (Some (encode_priority v)) = Some v"
  by (cases v) simp_all

lemma toggle_roundtrip [simp]: "decode_toggle (Some (encode_toggle v)) = v"
  by (cases v rule: encode_toggle.cases) simp_all

lemma architecture_roundtrip [simp]: "decode_architecture (Some (encode_architecture v)) = v"
  by (cases v) simp_all

lemma uac_virtualization_roundtrip [simp]: "decode_uac_virtualization (Some (encode_uac_virtualization v)) = v"
  by (cases v) simp_all

lemma isolation_roundtrip [simp]: "decode_isolation (Some (encode_isolation v)) = v"
  by (cases v) simp_all

lemma dpi_awareness_roundtrip [simp]: "decode_dpi_awareness (Some (encode_dpi_awareness v)) = v"
  by (cases v) simp_all

lemma stack_protection_roundtrip [simp]: "decode_stack_protection (Some (encode_stack_protection v)) = v"
  by (cases v) simp_all

lemma extended_cfg_roundtrip [simp]: "decode_extended_cfg (Some (encode_extended_cfg v)) = v"
  by (cases v) simp_all

lemma io_priority_roundtrip [simp]: "decode_io_priority (Some (encode_io_priority v)) = v"
  by (cases v) simp_all

lemma process_metric_roundtrip [simp]: "decode_process_metric (encode_process_metric v) = v"
  by (cases v) simp_all

lemma machine_metric_roundtrip [simp]: "decode_machine_metric (encode_machine_metric v) = v"
  by (cases v) simp_all

lemma gpu_engine_kind_roundtrip [simp]: "decode_gpu_engine_kind (Some (encode_gpu_engine_kind v)) = v"
  by (cases v) simp_all

lemma startup_type_roundtrip [simp]: "decode_startup_type (Some (encode_startup_type v)) = v"
  by (cases v) simp_all

lemma temperature_status_roundtrip [simp]:
  "decode_temperature_status (Some (encode_temperature_status v)) = v"
  by (cases v) simp_all

lemma temperature_category_roundtrip [simp]:
  "decode_temperature_category (Some (encode_temperature_category v)) = v"
  by (cases v) simp_all

section \<open>What a peer of some version takes\<close>

text \<open>\<^verbatim>\<open>Version\<close> of the handshake: its numbers, only compared.\<close>
record version =
  v_major :: nat
  v_minor :: nat
  v_patch :: nat

text \<open>\<^verbatim>\<open>(v.major, v.minor) >= (major, minor)\<close>\<close>
definition at_least :: "nat \<Rightarrow> nat \<Rightarrow> version \<Rightarrow> bool" where
  "at_least major minor v \<longleftrightarrow> v_major v > major \<or> v_major v = major \<and> v_minor v \<ge> minor"

definition takes_gaps :: "version option \<Rightarrow> bool" where
  "takes_gaps peer = (case peer of None \<Rightarrow> False | Some v \<Rightarrow> at_least 2 1 v)"

definition takes_watch :: "version \<Rightarrow> bool" where
  "takes_watch agent = at_least 2 2 agent"

definition takes_process_events :: "version \<Rightarrow> bool" where
  "takes_process_events agent = at_least 2 8 agent"

definition takes_temperatures :: "version \<Rightarrow> bool" where
  "takes_temperatures agent = at_least 2 11 agent"

definition takes_vm_working_set :: "version \<Rightarrow> bool" where
  "takes_vm_working_set agent = at_least 2 13 agent"

definition known_to :: "version \<Rightarrow> metric_spec \<Rightarrow> metric_spec" where
  "known_to agent spec =
    (let spec = (if \<not> takes_vm_working_set agent
                 then spec\<lparr>ms_processes := ms_processes spec - {VmWorkingSet}\<rparr> else spec);
         spec = (if \<not> takes_temperatures agent
                 then spec\<lparr>ms_machine := ms_machine spec - {M_Temperatures}\<rparr> else spec)
     in if \<not> at_least 2 6 agent
        then spec\<lparr>ms_processes := ms_processes spec - {ExclusiveMapped}\<rparr> else spec)"

section \<open>What a subscriber wants, on the wire\<close>

record wire_metric_spec =
  wms_interval_ms :: u32
  wms_processes :: "wire_process_metric option list read"
  wms_machine :: "wire_machine_metric option list read"

text \<open>
  \<^verbatim>\<open>as_millis().min(u32::MAX)\<close>; a set of metrics is iterated in the order its enum
  declares them.
\<close>
definition encode_metric_spec :: "metric_spec \<Rightarrow> wire_metric_spec" where
  "encode_metric_spec spec =
    \<lparr>wms_interval_ms = of_nat (min (ms_interval spec div 1000000) (2 ^ 32 - 1)),
     wms_processes = Inr (map (\<lambda>m. Some (encode_process_metric m))
       (filter (\<lambda>m. m \<in> ms_processes spec) process_metric_list)),
     wms_machine = Inr (map (\<lambda>m. Some (encode_machine_metric m))
       (filter (\<lambda>m. m \<in> ms_machine spec) machine_metric_list))\<rparr>"

text \<open>\<^verbatim>\<open>filter_map(Result::ok)\<close>: metrics this build does not know are left out.\<close>
definition known_of :: "'a option list \<Rightarrow> 'a list" where
  "known_of = List.map_filter id"

definition decode_metric_spec :: "wire_metric_spec \<Rightarrow> metric_spec read" where
  "decode_metric_spec w =
    and_then (wms_processes w) (\<lambda>processes. and_then (wms_machine w) (\<lambda>machine.
      Inr \<lparr>ms_interval = millis (unat (wms_interval_ms w)),
           ms_processes = decode_process_metric ` set (known_of processes),
           ms_machine = decode_machine_metric ` set (known_of machine)\<rparr>))"

lemma known_of_sent [simp]: "known_of (map (\<lambda>m. Some (f m)) ms) = map f ms"
  by (induction ms) (simp_all add: known_of_def List.map_filter_def)

lemma all_process_metrics: "m \<in> set process_metric_list"
  by (cases m) (simp_all add: process_metric_list_def)

lemma all_machine_metrics: "m \<in> set machine_metric_list"
  by (cases m) (simp_all add: machine_metric_list_def)

lemma spec_arrives:
  "decode_metric_spec (encode_metric_spec spec) =
    Inr \<lparr>ms_interval = millis (min (ms_interval spec div 1000000) 4294967295),
      ms_processes = ms_processes spec, ms_machine = ms_machine spec\<rparr>"
proof -
  define ms where "ms = min (ms_interval spec div 1000000) 4294967295"
  have "unat (of_nat ms :: u32) = ms"
    by (simp add: ms_def unat_of_nat take_bit_eq_mod min_def)
  then show ?thesis
    using all_process_metrics all_machine_metrics
    by (simp add: decode_metric_spec_def encode_metric_spec_def image_image ms_def [symmetric])
qed

lemma spec_survives_wire:
  assumes "decode_metric_spec (encode_metric_spec spec) = Inr asked"
  shows "ms_processes asked = ms_processes spec" "ms_machine asked = ms_machine spec"
    "ms_interval asked = millis (min (ms_interval spec div 1000000) 4294967295)"
  using assms by (auto simp: spec_arrives)

text \<open>
  What a subscriber asks for arrives: the same counters of the processes and
  of the machine, and a period that is the one asked for in whole milliseconds,
  however long or short an interval was given.
\<close>
theorem spec_survives_the_wire:
  "\<exists>spec'. decode_metric_spec (encode_metric_spec spec) = Inr spec' \<and>
    ms_processes spec' = ms_processes spec \<and> ms_machine spec' = ms_machine spec \<and>
    period spec' = millis (period spec div 1000000) \<and>
    ms_interval spec' \<le> ms_interval spec"
proof -
  define ms where "ms = min (ms_interval spec div 1000000) 4294967295"
  have "ms * 1000000 \<le> ms_interval spec"
    using mult_le_mono1 [of ms "ms_interval spec div 1000000" 1000000]
      div_times_less_eq_dividend [of "ms_interval spec" 1000000] by (simp add: ms_def)
  moreover have "period \<lparr>ms_interval = ms * 1000000, ms_processes = P, ms_machine = M\<rparr> =
      period spec div 1000000 * 1000000" for P M
    by (auto simp: period_def MIN_INTERVAL_def MAX_INTERVAL_def ms_def min_def)
  ultimately show ?thesis by (simp add: spec_arrives ms_def [symmetric])
qed

text \<open>
  Every value of every enum is read back as it was sent, and a value this
  build does not know is read as the unknown one of its enum.
\<close>
theorem enums_survive_the_wire:
  "decode_signature (Some (encode_signature sig)) = sig \<and> decode_signature None = StatusUnknown \<and>
   decode_service_state (Some (encode_service_state svc)) = svc \<and> decode_service_state None = SvcUnknown \<and>
   decode_priority (Some (encode_priority prio)) = Some prio \<and> decode_priority None = None \<and>
   decode_toggle (Some (encode_toggle on)) = on \<and> decode_toggle None = None \<and>
   decode_architecture (Some (encode_architecture arch)) = arch \<and> decode_architecture None = ArchUnknown \<and>
   decode_uac_virtualization (Some (encode_uac_virtualization uac)) = uac \<and>
   decode_uac_virtualization None = UacUnknown \<and>
   decode_isolation (Some (encode_isolation isol)) = isol \<and> decode_isolation None = IsoUnknown \<and>
   decode_dpi_awareness (Some (encode_dpi_awareness dpi)) = dpi \<and> decode_dpi_awareness None = DpiUnknown \<and>
   decode_stack_protection (Some (encode_stack_protection stack)) = stack \<and>
   decode_stack_protection None = StackUnknown \<and>
   decode_extended_cfg (Some (encode_extended_cfg xfg)) = xfg \<and> decode_extended_cfg None = XfgUnknown \<and>
   decode_io_priority (Some (encode_io_priority io)) = io \<and> decode_io_priority None = IoUnknown \<and>
   decode_process_metric (encode_process_metric pm) = pm \<and>
   decode_machine_metric (encode_machine_metric mm) = mm \<and>
   decode_gpu_engine_kind (Some (encode_gpu_engine_kind engine)) = engine \<and>
   decode_gpu_engine_kind None = EngineOther \<and>
   decode_startup_type (Some (encode_startup_type startup)) = startup \<and>
   decode_startup_type None = StartUnknown \<and>
   decode_temperature_status (Some (encode_temperature_status temp)) = temp \<and>
   decode_temperature_status None = TempUnknown \<and>
   decode_temperature_category (Some (encode_temperature_category category)) = category \<and>
   decode_temperature_category None = TempOfUnknown"
  by simp

end
