(* ===== verification/Wire_Lists.thy ===== *)
theory Wire_Lists
  imports Wire_Enums Watch
begin

text \<open>
  The lists of \<^verbatim>\<open>src/wire/encode.rs\<close> and \<^verbatim>\<open>src/wire/decode.rs\<close>: processes, their
  states and services as messages, and the update of a watch, which carries the
  lists as they moved since those the listener holds.
\<close>

section \<open>Processes\<close>

record wire_mitigations =
  wmit_dep :: "wire_toggle option"
  wmit_stack_protection :: "wire_stack_protection option"
  wmit_extended_cfg :: "wire_extended_cfg option"

record wire_process_info =
  wpi_pid :: u32
  wpi_parent_pid :: u32
  wpi_session_id :: u32
  wpi_name :: wire_text
  wpi_cmdline :: "wire_text list read"
  wpi_package_full_name :: wire_text
  wpi_package_relative_app_id :: wire_text
  wpi_is_service :: bool
  wpi_is_kernel_process :: bool
  wpi_is_windows_process :: bool
  wpi_signature :: "wire_signature option"
  wpi_image_path :: wire_text
  wpi_display_name :: wire_text
  wpi_console_host_pid :: u32
  wpi_start_time :: u64
  wpi_sequence_number :: u64
  wpi_user :: wire_text
  wpi_architecture :: "wire_architecture option"
  wpi_elevated :: "wire_toggle option"
  wpi_uac_virtualization :: "wire_uac option"
  wpi_isolation :: "wire_isolation option"
  wpi_dpi_awareness :: "wire_dpi option"
  wpi_mitigations :: "wire_mitigations read option"
  wpi_publisher :: wire_text

definition encode_mitigations :: "mitigations \<Rightarrow> wire_mitigations" where
  "encode_mitigations m =
    \<lparr>wmit_dep = Some (encode_toggle (mit_dep m)),
     wmit_stack_protection = Some (encode_stack_protection (mit_stack_protection m)),
     wmit_extended_cfg = Some (encode_extended_cfg (mit_extended_cfg m))\<rparr>"

definition encode_process_info :: "process_info \<Rightarrow> wire_process_info" where
  "encode_process_info e =
    \<lparr>wpi_pid = pi_pid e, wpi_parent_pid = pi_parent_pid e, wpi_session_id = pi_session_id e,
     wpi_name = sent_text (pi_name e),
     wpi_cmdline = Inr (map sent_text (pi_cmdline e)),
     wpi_package_full_name = sent_text (pi_package_full_name e),
     wpi_package_relative_app_id = sent_text (pi_package_relative_app_id e),
     wpi_is_service = pi_is_service e, wpi_is_kernel_process = pi_is_kernel_process e,
     wpi_is_windows_process = pi_is_windows_process e,
     wpi_signature = Some (encode_signature (pi_signature e)),
     wpi_image_path = sent_text (pi_image_path e), wpi_display_name = sent_text (pi_display_name e),
     wpi_console_host_pid = pi_console_host_pid e, wpi_start_time = pi_start_time e,
     wpi_sequence_number = pi_sequence_number e, wpi_user = sent_text (pi_user e),
     wpi_architecture = Some (encode_architecture (pi_architecture e)),
     wpi_elevated = Some (encode_toggle (pi_elevated e)),
     wpi_uac_virtualization = Some (encode_uac_virtualization (pi_uac_virtualization e)),
     wpi_isolation = Some (encode_isolation (pi_isolation e)),
     wpi_dpi_awareness = Some (encode_dpi_awareness (pi_dpi_awareness e)),
     wpi_mitigations = map_option (\<lambda>m. Inr (encode_mitigations m)) (pi_mitigations e),
     wpi_publisher = sent_text (pi_publisher e)\<rparr>"

definition decode_mitigations :: "wire_mitigations \<Rightarrow> mitigations" where
  "decode_mitigations m =
    \<lparr>mit_dep = decode_toggle (wmit_dep m),
     mit_stack_protection = decode_stack_protection (wmit_stack_protection m),
     mit_extended_cfg = decode_extended_cfg (wmit_extended_cfg m)\<rparr>"

text \<open>\<^verbatim>\<open>if has { Some(get()?) } else { None }\<close>\<close>
definition read_option :: "('a \<Rightarrow> 'b read) \<Rightarrow> 'a read option \<Rightarrow> 'b option read" where
  "read_option f x = (case x of None \<Rightarrow> Inr None | Some r \<Rightarrow> and_then r (\<lambda>y. and_then (f y) (\<lambda>z. Inr (Some z))))"

text \<open>The closure of \<^verbatim>\<open>processes\<close>, its fields in the order it reads them.\<close>
definition decode_process_info :: "wire_process_info \<Rightarrow> process_info read" where
  "decode_process_info p =
    and_then (read_text (wpi_name p)) (\<lambda>name.
    and_then (wpi_cmdline p) (\<lambda>arguments.
    and_then (read_all read_text arguments) (\<lambda>cmdline.
    and_then (read_text (wpi_package_full_name p)) (\<lambda>package_full_name.
    and_then (read_text (wpi_package_relative_app_id p)) (\<lambda>package_relative_app_id.
    and_then (read_text (wpi_image_path p)) (\<lambda>image_path.
    and_then (read_text (wpi_display_name p)) (\<lambda>display_name.
    and_then (read_text (wpi_user p)) (\<lambda>user.
    and_then (read_option (\<lambda>m. Inr (decode_mitigations m)) (wpi_mitigations p)) (\<lambda>mitigations.
    and_then (read_text (wpi_publisher p)) (\<lambda>publisher.
      Inr \<lparr>pi_pid = wpi_pid p, pi_parent_pid = wpi_parent_pid p, pi_session_id = wpi_session_id p,
           pi_name = name, pi_cmdline = cmdline, pi_package_full_name = package_full_name,
           pi_package_relative_app_id = package_relative_app_id, pi_is_service = wpi_is_service p,
           pi_is_kernel_process = wpi_is_kernel_process p,
           pi_is_windows_process = wpi_is_windows_process p,
           pi_signature = decode_signature (wpi_signature p), pi_image_path = image_path,
           pi_display_name = display_name, pi_console_host_pid = wpi_console_host_pid p,
           pi_start_time = wpi_start_time p, pi_sequence_number = wpi_sequence_number p, pi_user = user,
           pi_architecture = decode_architecture (wpi_architecture p),
           pi_elevated = decode_toggle (wpi_elevated p),
           pi_uac_virtualization = decode_uac_virtualization (wpi_uac_virtualization p),
           pi_isolation = decode_isolation (wpi_isolation p),
           pi_dpi_awareness = decode_dpi_awareness (wpi_dpi_awareness p),
           pi_mitigations = mitigations, pi_publisher = publisher\<rparr>))))))))))"

definition encode_processes :: "process_info list \<Rightarrow> wire_process_info list" where
  "encode_processes = map encode_process_info"

definition decode_processes :: "wire_process_info list \<Rightarrow> process_info list read" where
  "decode_processes = read_all decode_process_info"

lemma mitigations_roundtrip [simp]: "decode_mitigations (encode_mitigations m) = m"
  by (simp add: decode_mitigations_def encode_mitigations_def)

lemma process_info_roundtrip [simp]: "decode_process_info (encode_process_info e) = Inr e"
  by (cases "pi_mitigations e")
    (simp_all add: decode_process_info_def encode_process_info_def read_all_map read_option_def)

lemma processes_roundtrip [simp]: "decode_processes (encode_processes list) = Inr list"
  by (simp add: decode_processes_def encode_processes_def read_all_map)

section \<open>States\<close>

record wire_process_state =
  wps_pid :: u32
  wps_sequence_number :: u64
  wps_suspended :: "wire_toggle option"
  wps_efficiency_mode :: "wire_toggle option"
  wps_base_priority :: "wire_priority option"
  wps_power_throttling :: "wire_toggle option"
  wps_job_object_id :: u32
  wps_io_priority :: "wire_io_priority option"
  wps_vm_host :: "wire_toggle option"

definition encode_process_state :: "process_state \<Rightarrow> wire_process_state" where
  "encode_process_state e =
    \<lparr>wps_pid = ps_pid e, wps_sequence_number = ps_sequence_number e,
     wps_suspended = Some (encode_toggle (ps_suspended e)),
     wps_efficiency_mode = Some (encode_toggle (ps_efficiency_mode e)),
     wps_base_priority = Some (case ps_base_priority e of None \<Rightarrow> WPrioUnknown | Some p \<Rightarrow> encode_priority p),
     wps_power_throttling = Some (encode_toggle (ps_power_throttling e)),
     wps_job_object_id = ps_job_object_id e, wps_io_priority = Some (encode_io_priority (ps_io_priority e)),
     wps_vm_host = Some (encode_toggle (ps_vm_host e))\<rparr>"

text \<open>The closure of \<^verbatim>\<open>process_states\<close>.\<close>
definition decode_process_state :: "wire_process_state \<Rightarrow> process_state" where
  "decode_process_state s =
    \<lparr>ps_pid = wps_pid s, ps_sequence_number = wps_sequence_number s,
     ps_suspended = decode_toggle (wps_suspended s), ps_efficiency_mode = decode_toggle (wps_efficiency_mode s),
     ps_base_priority = decode_priority (wps_base_priority s),
     ps_power_throttling = decode_toggle (wps_power_throttling s), ps_job_object_id = wps_job_object_id s,
     ps_io_priority = decode_io_priority (wps_io_priority s), ps_vm_host = decode_toggle (wps_vm_host s)\<rparr>"

record wire_process_states =
  wpst_passport_etag :: u64
  wpst_states :: "wire_process_state list"

definition encode_process_states :: "process_states \<Rightarrow> wire_process_states" where
  "encode_process_states states =
    \<lparr>wpst_passport_etag = pst_passport_etag states, wpst_states = map encode_process_state (pst_states states)\<rparr>"

definition decode_process_states :: "wire_process_state list \<Rightarrow> process_state list" where
  "decode_process_states = map decode_process_state"

lemma process_state_roundtrip [simp]: "decode_process_state (encode_process_state e) = e"
  by (cases "ps_base_priority e") (simp_all add: decode_process_state_def encode_process_state_def)

lemma process_states_roundtrip [simp]: "decode_process_states (map encode_process_state list) = list"
  by (simp add: decode_process_states_def map_idI)

section \<open>Services\<close>

record wire_service_stats =
  wsv_name :: wire_text
  wsv_display_name :: wire_text
  wsv_pid :: u32
  wsv_state :: "wire_service_state option"
  wsv_load_group :: wire_text
  wsv_description :: wire_text
  wsv_image_path :: wire_text
  wsv_startup_type :: "wire_startup_type option"
  wsv_delayed_auto :: bool
  wsv_account :: wire_text
  wsv_service_type :: u32
  wsv_accepted_controls :: u32

definition encode_service_stats :: "service_stats \<Rightarrow> wire_service_stats" where
  "encode_service_stats svc =
    \<lparr>wsv_name = sent_text (sv_name svc), wsv_display_name = sent_text (sv_display_name svc),
     wsv_pid = sv_pid svc, wsv_state = Some (encode_service_state (sv_state svc)),
     wsv_load_group = sent_text (sv_load_group svc), wsv_description = sent_text (sv_description svc),
     wsv_image_path = sent_text (sv_image_path svc),
     wsv_startup_type = Some (encode_startup_type (sv_startup_type svc)),
     wsv_delayed_auto = sv_delayed_auto svc, wsv_account = sent_text (sv_account svc),
     wsv_service_type = sv_service_type svc, wsv_accepted_controls = sv_accepted_controls svc\<rparr>"

text \<open>The closure of \<^verbatim>\<open>services\<close>.\<close>
definition decode_service_stats :: "wire_service_stats \<Rightarrow> service_stats read" where
  "decode_service_stats s =
    and_then (read_text (wsv_name s)) (\<lambda>name.
    and_then (read_text (wsv_display_name s)) (\<lambda>display_name.
    and_then (read_text (wsv_load_group s)) (\<lambda>load_group.
    and_then (read_text (wsv_description s)) (\<lambda>description.
    and_then (read_text (wsv_image_path s)) (\<lambda>image_path.
    and_then (read_text (wsv_account s)) (\<lambda>account.
      Inr \<lparr>sv_name = name, sv_display_name = display_name, sv_pid = wsv_pid s,
           sv_state = decode_service_state (wsv_state s), sv_load_group = load_group,
           sv_description = description, sv_image_path = image_path,
           sv_startup_type = decode_startup_type (wsv_startup_type s),
           sv_delayed_auto = wsv_delayed_auto s, sv_account = account,
           sv_service_type = wsv_service_type s, sv_accepted_controls = wsv_accepted_controls s\<rparr>))))))"

definition encode_services :: "service_stats list \<Rightarrow> wire_service_stats list" where
  "encode_services = map encode_service_stats"

definition decode_services :: "wire_service_stats list \<Rightarrow> service_stats list read" where
  "decode_services = read_all decode_service_stats"

lemma service_stats_roundtrip [simp]: "decode_service_stats (encode_service_stats svc) = Inr svc"
  by (simp add: decode_service_stats_def encode_service_stats_def)

lemma services_roundtrip [simp]: "decode_services (encode_services list) = Inr list"
  by (simp add: decode_services_def encode_services_def read_all_map)

record wire_service_status =
  wst_state :: "wire_service_state option"
  wst_pid :: u32
  wst_exit_code :: u32
  wst_service_exit_code :: u32
  wst_checkpoint :: u32
  wst_wait_hint_ms :: u32

definition encode_service_status :: "service_status \<Rightarrow> wire_service_status" where
  "encode_service_status s =
    \<lparr>wst_state = Some (encode_service_state (st_state s)), wst_pid = st_pid s, wst_exit_code = st_exit_code s,
     wst_service_exit_code = st_service_exit_code s, wst_checkpoint = st_checkpoint s,
     wst_wait_hint_ms = st_wait_hint_ms s\<rparr>"

definition decode_service_status :: "wire_service_status \<Rightarrow> service_status" where
  "decode_service_status s =
    \<lparr>st_state = decode_service_state (wst_state s), st_pid = wst_pid s, st_exit_code = wst_exit_code s,
     st_service_exit_code = wst_service_exit_code s, st_checkpoint = wst_checkpoint s,
     st_wait_hint_ms = wst_wait_hint_ms s\<rparr>"

lemma service_status_roundtrip [simp]: "decode_service_status (encode_service_status s) = s"
  by (simp add: decode_service_status_def encode_service_status_def)

section \<open>What an update of a watch says of the lists\<close>

record 'r wire_delta =
  wd_base_etag :: u64
  wd_left :: "u64 list read"
  wd_upserted :: "'r list read"

text \<open>The unions of \<^verbatim>\<open>lists_update\<close>.\<close>
datatype 'r list_form = Unchanged | Full "'r list read" | Delta "'r wire_delta read"

datatype services_form = ServicesUnchanged | ServicesFull "wire_service_stats list read"

text \<open>None is a form this build does not know.\<close>
record lists_update =
  lu_passport_etag :: u64
  lu_passports :: "wire_process_info list_form option"
  lu_states_etag :: u64
  lu_states :: "wire_process_state list_form option"
  lu_services_etag :: u64
  lu_services :: "services_form option"

text \<open>
  \<^verbatim>\<open>binary_search_by_key\<close> of the standard library: the index of an element under
  the key in a list ordered by it, None when there is none.
\<close>
function bisect :: "(nat \<Rightarrow> u32) \<Rightarrow> u32 \<Rightarrow> nat \<Rightarrow> nat \<Rightarrow> nat option" where
  "bisect pid_at pid lo hi =
    (if lo < hi then
       (let mid = (lo + hi) div 2
        in if pid_at mid < pid then bisect pid_at pid (mid + 1) hi
           else if pid_at mid > pid then bisect pid_at pid lo mid
           else Some mid)
     else None)"
  by pat_completeness auto
termination by (relation "measure (\<lambda>(pid_at, pid, lo, hi). hi - lo)") auto

declare bisect.simps [simp del]

definition find_row :: "('r \<Rightarrow> row_key) \<Rightarrow> 'r list \<Rightarrow> row_key \<Rightarrow> 'r option" where
  "find_row key rows k =
    (case bisect (\<lambda>i. fst (key (rows ! i))) (fst k) 0 (length rows) of
       None \<Rightarrow> None
     | Some at \<Rightarrow> if at < length rows \<and> key (rows ! at) = k then Some (rows ! at) else None)"

text \<open>
  The rows an update names, in a list initialised for as many; \<open>blank\<close> is the row
  the message has where none was filled in.
\<close>
definition upserted_rows :: "('r \<Rightarrow> 'w) \<Rightarrow> 'w \<Rightarrow> ('r \<Rightarrow> row_key) \<Rightarrow> 'r list \<Rightarrow> row_key list \<Rightarrow> 'w list" where
  "upserted_rows encode blank key rows ks =
    map (\<lambda>k. case find_row key rows k of Some e \<Rightarrow> encode e | None \<Rightarrow> blank) ks"

record blanks =
  blank_process_info :: wire_process_info
  blank_process_state :: wire_process_state

definition sequence_numbers :: "row_key list \<Rightarrow> u64 list" where
  "sequence_numbers = map snd"

definition encode_passports :: "blanks \<Rightarrow> changes \<Rightarrow> snapshot \<Rightarrow> snapshot option \<Rightarrow> wire_process_info list_form" where
  "encode_passports blanks changes after before =
    (case before of
       None \<Rightarrow> Full (Inr (encode_processes (tg_value (sn_processes after))))
     | Some before \<Rightarrow>
         if tg_etag (sn_processes before) = tg_etag (sn_processes after) then Unchanged
         else Delta (Inr \<lparr>wd_base_etag = tg_etag (sn_processes before),
           wd_left = Inr (sequence_numbers (ch_left changes)),
           wd_upserted = Inr (upserted_rows encode_process_info (blank_process_info blanks) info_key
             (tg_value (sn_processes after)) (ch_passports changes))\<rparr>))"

definition encode_states :: "blanks \<Rightarrow> changes \<Rightarrow> snapshot \<Rightarrow> snapshot option \<Rightarrow> wire_process_state list_form" where
  "encode_states blanks changes after before =
    (let states = pst_states (tg_value (sn_states after))
     in case before of
          None \<Rightarrow> Full (Inr (map encode_process_state states))
        | Some before \<Rightarrow>
            if tg_etag (sn_states before) = tg_etag (sn_states after) then Unchanged
            else Delta (Inr \<lparr>wd_base_etag = tg_etag (sn_states before),
              wd_left = Inr (sequence_numbers (ch_left changes)),
              wd_upserted = Inr (upserted_rows encode_process_state (blank_process_state blanks) state_key
                states (ch_states changes))\<rparr>))"

text \<open>The lists of \<^verbatim>\<open>update\<close>.\<close>
definition encode_lists :: "blanks \<Rightarrow> update \<Rightarrow> snapshot option \<Rightarrow> lists_update" where
  "encode_lists blanks update before =
    (let after = up_snapshot update; changes = up_changes update
     in \<lparr>lu_passport_etag = tg_etag (sn_processes after),
         lu_passports = Some (encode_passports blanks changes after before),
         lu_states_etag = tg_etag (sn_states after),
         lu_states = Some (encode_states blanks changes after before),
         lu_services_etag = tg_etag (sn_services after),
         lu_services =
           Some (if (case before of None \<Rightarrow> False
                     | Some before \<Rightarrow> tg_etag (sn_services before) = tg_etag (sn_services after))
                 then ServicesUnchanged
                 else ServicesFull (Inr (encode_services (tg_value (sn_services after)))))\<rparr>)"

section \<open>What a listener makes of it\<close>

definition held :: "snapshot option \<Rightarrow> (snapshot \<Rightarrow> 'v tagged) \<Rightarrow> 'v tagged read" where
  "held before list = (case before of None \<Rightarrow> Inl NeverCame | Some s \<Rightarrow> Inr (list s))"

definition based :: "'v tagged \<Rightarrow> u64 \<Rightarrow> 'v tagged read" where
  "based list base = (if tg_etag list = base then Inr list else Inl (OtherBase base (tg_etag list)))"

text \<open>The sort of \<^verbatim>\<open>sort_by_key\<close> is stable, as \<open>sort_key\<close> is.\<close>
definition merge :: "'r list \<Rightarrow> u64 set \<Rightarrow> 'r list \<Rightarrow> ('r \<Rightarrow> row_key) \<Rightarrow> 'r list" where
  "merge before left upserted key =
    (let replaced = fst ` key ` set upserted
     in sort_key (\<lambda>row. fst (key row))
          (filter (\<lambda>row. snd (key row) \<notin> left \<and> fst (key row) \<notin> replaced) before @ upserted))"

text \<open>Each list with what it changes; the states' delta says nothing of those gone.\<close>
definition decode_passports ::
    "snapshot option \<Rightarrow> wire_process_info list_form \<Rightarrow> changes \<Rightarrow> (process_info list \<times> changes) read" where
  "decode_passports before form changes =
    (case form of
       Unchanged \<Rightarrow> and_then (held before sn_processes) (\<lambda>list. Inr (tg_value list, changes))
     | Full rows \<Rightarrow>
         and_then rows (\<lambda>rows. and_then (decode_processes rows) (\<lambda>list.
           Inr (list, changes\<lparr>ch_passports := map info_key list\<rparr>)))
     | Delta delta \<Rightarrow>
         and_then delta (\<lambda>delta. and_then (held before sn_processes) (\<lambda>list.
         and_then (based list (wd_base_etag delta)) (\<lambda>before.
         and_then (wd_left delta) (\<lambda>left. and_then (wd_upserted delta) (\<lambda>rows.
         and_then (decode_processes rows) (\<lambda>upserted.
           Inr (merge (tg_value before) (set left) upserted info_key,
             changes\<lparr>ch_left := map info_key (filter (\<lambda>p. pi_sequence_number p \<in> set left) (tg_value before)),
               ch_passports := map info_key upserted\<rparr>))))))))"

definition decode_states ::
    "snapshot option \<Rightarrow> wire_process_state list_form \<Rightarrow> changes \<Rightarrow> (process_state list \<times> changes) read" where
  "decode_states before form changes =
    (case form of
       Unchanged \<Rightarrow> and_then (held before sn_states) (\<lambda>list. Inr (pst_states (tg_value list), changes))
     | Full rows \<Rightarrow>
         and_then rows (\<lambda>rows. Inr (decode_process_states rows,
           changes\<lparr>ch_states := map state_key (decode_process_states rows)\<rparr>))
     | Delta delta \<Rightarrow>
         and_then delta (\<lambda>delta. and_then (held before sn_states) (\<lambda>list.
         and_then (based list (wd_base_etag delta)) (\<lambda>before.
         and_then (wd_left delta) (\<lambda>left. and_then (wd_upserted delta) (\<lambda>rows.
           Inr (merge (pst_states (tg_value before)) (set left) (decode_process_states rows) state_key,
             changes\<lparr>ch_states := map state_key (decode_process_states rows)\<rparr>)))))))"

definition decode_service_list ::
    "snapshot option \<Rightarrow> services_form \<Rightarrow> changes \<Rightarrow> (service_stats list \<times> changes) read" where
  "decode_service_list before form changes =
    (case form of
       ServicesUnchanged \<Rightarrow> and_then (held before sn_services) (\<lambda>list. Inr (tg_value list, changes))
     | ServicesFull rows \<Rightarrow>
         and_then rows (\<lambda>rows. and_then (decode_services rows) (\<lambda>list.
           Inr (list, changes\<lparr>ch_services := True\<rparr>))))"

text \<open>\<^verbatim>\<open>lists\<close>: None when a list comes in a form this build does not know.\<close>
definition decode_lists :: "snapshot option \<Rightarrow> lists_update \<Rightarrow> (snapshot \<times> changes) option read" where
  "decode_lists before lists_in =
    (case (lu_passports lists_in, lu_states lists_in, lu_services lists_in) of
       (Some passport_list, Some state_list, Some service_list) \<Rightarrow>
         and_then (decode_passports before passport_list (changes_default\<lparr>ch_full := before = None\<rparr>)) (\<lambda>(processes, changes).
         and_then (decode_states before state_list changes) (\<lambda>(states, changes).
         and_then (decode_service_list before service_list changes) (\<lambda>(services, changes).
           Inr (Some
             (\<lparr>sn_services = \<lparr>tg_etag = lu_services_etag lists_in, tg_value = services\<rparr>,
               sn_processes = \<lparr>tg_etag = lu_passport_etag lists_in, tg_value = processes\<rparr>,
               sn_states = \<lparr>tg_etag = lu_states_etag lists_in,
                 tg_value = \<lparr>pst_passport_etag = lu_passport_etag lists_in, pst_states = states\<rparr>\<rparr>\<rparr>, changes)))))
     | _ \<Rightarrow> Inr None)"

section \<open>Both ends hold the same lists\<close>

lemma bisect_finds:
  assumes "strict_mono_on {lo..<hi} pid_at" "lo \<le> i" "i < hi"
  shows "bisect pid_at (pid_at i) lo hi = Some i"
  using assms
proof (induction pid_at "pid_at i" lo hi rule: bisect.induct)
  case (1 pid_at lo hi)
  define mid where "mid = (lo + hi) div 2"
  have mid: "lo \<le> mid" "mid < hi" using 1 by (auto simp: mid_def)
  have less: "pid_at a < pid_at b \<longleftrightarrow> a < b" if "lo \<le> a" "a < hi" "lo \<le> b" "b < hi" for a b
    using strict_mono_on_less [OF "1.prems"(1), of a b] that by simp
  have right: "strict_mono_on {mid + 1..<hi} pid_at" and left: "strict_mono_on {lo..<mid} pid_at"
    using "1.prems"(1) mid by (auto simp: strict_mono_on_def)
  consider "mid < i" | "i < mid" | "i = mid" by linarith
  then show ?case
  proof cases
    case 1
    then have "pid_at mid < pid_at i" using less mid "1.prems" by simp
    then show ?thesis
      using "1.hyps"(1) [OF _ mid_def _ right] 1 mid "1.prems" by (subst bisect.simps) (simp add: mid_def [symmetric] Let_def)
  next
    case 2
    then have "pid_at i < pid_at mid" using less mid "1.prems" by simp
    then show ?thesis
      using "1.hyps"(2) [OF _ mid_def _ _ left] 2 mid "1.prems"
      by (subst bisect.simps) (auto simp: mid_def [symmetric] Let_def dest: less_not_sym)
  next
    case 3
    then show ?thesis using mid by (subst bisect.simps) (simp add: mid_def [symmetric] Let_def)
  qed
qed

lemma ordered_rows_nth:
  "ordered_rows key rows \<Longrightarrow> strict_mono_on {0..<length rows} (\<lambda>i. fst (key (rows ! i)))"
  by (auto simp: ordered_rows_def sorted_wrt_iff_nth_less strict_mono_on_def)

lemma ordered_rows_distinct: "ordered_rows key rows \<Longrightarrow> distinct (map (\<lambda>r. fst (key r)) rows)"
  by (induction rows) auto

lemma ordered_rows_inj:
  "ordered_rows key rows \<Longrightarrow> r \<in> set rows \<Longrightarrow> s \<in> set rows \<Longrightarrow> fst (key r) = fst (key s) \<Longrightarrow> r = s"
  using ordered_rows_distinct by (metis (mono_tags) distinct_map inj_onD)

lemma find_row_listed:
  assumes "ordered_rows key rows" "r \<in> set rows"
  shows "find_row key rows (key r) = Some r"
proof -
  obtain i where i: "i < length rows" "r = rows ! i" using assms(2) by (auto simp: in_set_conv_nth)
  have "bisect (\<lambda>i. fst (key (rows ! i))) (fst (key (rows ! i))) 0 (length rows) = Some i"
    using bisect_finds [OF ordered_rows_nth [OF assms(1)], of i] i(1) by simp
  then show ?thesis using i by (simp add: find_row_def)
qed

text \<open>Every named row that is listed is carried as it is.\<close>
lemma upserted_rows_listed:
  assumes "ordered_rows key rows" "set up \<subseteq> set rows"
  shows "upserted_rows encode blank key rows (map key up) = map encode up"
  unfolding upserted_rows_def map_map
proof (rule map_cong [OF refl])
  fix r
  assume "r \<in> set up"
  then show "(((\<lambda>k. case find_row key rows k of Some e \<Rightarrow> encode e | None \<Rightarrow> blank) \<circ> key) r) = encode r"
    using find_row_listed [OF assms(1), of r] assms(2) by auto
qed

lemma ordered_rows_unique:
  "ordered_rows key xs \<Longrightarrow> ordered_rows key ys \<Longrightarrow> set xs = set ys \<Longrightarrow> xs = ys"
proof (induction xs arbitrary: ys)
  case (Cons x xs)
  then obtain y ys' where ys: "ys = y # ys'" by (cases ys) auto
  have "x = y"
  proof (rule ccontr)
    assume "x \<noteq> y"
    then have "x \<in> set ys'" "y \<in> set xs" using Cons.prems(3) ys by auto
    then have "fst (key y) < fst (key x)" "fst (key x) < fst (key y)" using Cons.prems(1,2) ys by auto
    then show False by simp
  qed
  moreover have "x \<notin> set xs" "y \<notin> set ys'" using Cons.prems ys by auto
  ultimately have "set xs = set ys'" using Cons.prems(3) ys by auto
  then show ?case using Cons ys \<open>x = y\<close> by auto
qed simp

lemma sorted_distinct_ordered:
  "sorted (map (\<lambda>r. fst (key r)) rows) \<Longrightarrow> distinct (map (\<lambda>r. fst (key r)) rows) \<Longrightarrow> ordered_rows key rows"
  by (induction rows) (auto simp: order_less_le)

lemma sort_key_ordered:
  assumes "distinct (map (\<lambda>r. fst (key r)) rows)"
  shows "ordered_rows key (sort_key (\<lambda>r. fst (key r)) rows)"
proof (rule sorted_distinct_ordered)
  have "mset (map (\<lambda>r. fst (key r)) (sort_key (\<lambda>r. fst (key r)) rows)) = mset (map (\<lambda>r. fst (key r)) rows)"
    by simp
  then show "distinct (map (\<lambda>r. fst (key r)) (sort_key (\<lambda>r. fst (key r)) rows))"
    using assms by (metis mset_eq_imp_distinct_iff)
qed simp

text \<open>
  A merge of what moved gives the list it moved to: when every row that stays as
  it was is not named among those gone, and every other is.
\<close>
lemma merge_rebuilds:
  assumes before: "ordered_rows key before" and after: "ordered_rows key after"
    and gone: "\<And>r. r \<in> set before \<Longrightarrow> key r \<notin> key ` set after \<Longrightarrow>
      snd (key r) \<in> left \<or> fst (key r) \<in> fst ` key ` set after"
    and stays: "\<And>r. r \<in> set before \<Longrightarrow> r \<in> set after \<Longrightarrow> snd (key r) \<notin> left"
  shows "merge before left (filter (\<lambda>r. r \<notin> set before) after) key = after"
proof -
  let ?up = "filter (\<lambda>r. r \<notin> set before) after"
  let ?kept = "filter (\<lambda>row. snd (key row) \<notin> left \<and> fst (key row) \<notin> fst ` key ` set ?up) before"
  have kept: "set ?kept = set before \<inter> set after"
  proof (intro equalityI subsetI)
    fix r
    assume r: "r \<in> set ?kept"
    show "r \<in> set before \<inter> set after"
    proof (cases "r \<in> set after")
      case False
      have r': "r \<in> set before" "snd (key r) \<notin> left" "fst (key r) \<notin> fst ` key ` set ?up" using r by auto
      have "fst (key r) \<in> fst ` key ` set after"
        using gone [OF r'(1)] r'(2) by (metis imageI)
      then obtain s where s: "s \<in> set after" "fst (key r) = fst (key s)" by auto
      then have "s \<in> set before" using r'(3) by auto
      then have "s = r" using ordered_rows_inj [OF before] r'(1) s(2) by metis
      then show ?thesis using False s(1) by simp
    qed (use r in simp)
  next
    fix r
    assume r: "r \<in> set before \<inter> set after"
    have "fst (key r) \<noteq> fst (key s)" if "s \<in> set ?up" for s
      using ordered_rows_inj [OF after, of r s] r that by fastforce
    then have "fst (key r) \<notin> fst ` key ` set ?up" by blast
    then show "r \<in> set ?kept" using r stays by simp
  qed
  then have set: "set (?kept @ ?up) = set after" by auto
  have "distinct (map (\<lambda>r. fst (key r)) ?kept)" "distinct (map (\<lambda>r. fst (key r)) ?up)"
    by (intro distinct_map_filter ordered_rows_distinct [OF before] ordered_rows_distinct [OF after])+
  moreover have "(\<lambda>r. fst (key r)) ` set ?kept \<inter> (\<lambda>r. fst (key r)) ` set ?up = {}"
    by (auto simp: image_image)
  ultimately have "distinct (map (\<lambda>r. fst (key r)) (?kept @ ?up))" by simp
  then have "ordered_rows key (sort_key (\<lambda>r. fst (key r)) (?kept @ ?up))" by (rule sort_key_ordered)
  then show ?thesis
    unfolding merge_def Let_def by (intro ordered_rows_unique [OF _ after]) (simp_all only: set set_sort)
qed

text \<open>
  Lists as they are published: by pid, the states those of the listed processes,
  tagged with the etag of the list they belong to, and no two processes of one
  sequence number, which Windows gives once.
\<close>
definition lists_ok :: "snapshot \<Rightarrow> bool" where
  "lists_ok s \<longleftrightarrow>
    ordered_rows info_key (tg_value (sn_processes s)) \<and>
    ordered_rows state_key (pst_states (tg_value (sn_states s))) \<and>
    map state_key (pst_states (tg_value (sn_states s))) = map info_key (tg_value (sn_processes s)) \<and>
    pst_passport_etag (tg_value (sn_states s)) = tg_etag (sn_processes s) \<and>
    distinct (map pi_sequence_number (tg_value (sn_processes s)))"

text \<open>An etag tells one content from another.\<close>
definition etags_tell :: "snapshot \<Rightarrow> snapshot \<Rightarrow> bool" where
  "etags_tell a b \<longleftrightarrow>
    (tg_etag (sn_processes a) = tg_etag (sn_processes b) \<longrightarrow> tg_value (sn_processes a) = tg_value (sn_processes b)) \<and>
    (tg_etag (sn_states a) = tg_etag (sn_states b) \<longrightarrow> tg_value (sn_states a) = tg_value (sn_states b)) \<and>
    (tg_etag (sn_services a) = tg_etag (sn_services b) \<longrightarrow> tg_value (sn_services a) = tg_value (sn_services b))"

lemma ch_left_between:
  "ch_left (changes_between (Some before) after) =
    (if tg_etag (sn_processes before) = tg_etag (sn_processes after) then []
     else snd (diff_rows info_key (tg_value (sn_processes before)) (tg_value (sn_processes after))))"
  by (simp add: changes_between_def changes_default_def split_def Let_def)

lemma ch_passports_between:
  "ch_passports (changes_between (Some before) after) =
    (if tg_etag (sn_processes before) = tg_etag (sn_processes after) then []
     else fst (diff_rows info_key (tg_value (sn_processes before)) (tg_value (sn_processes after))))"
  by (simp add: changes_between_def changes_default_def split_def Let_def)

lemma ch_states_between:
  "ch_states (changes_between (Some before) after) =
    (if tg_etag (sn_states before) = tg_etag (sn_states after) then []
     else fst (diff_rows state_key (pst_states (tg_value (sn_states before))) (pst_states (tg_value (sn_states after)))))"
  by (simp add: changes_between_def changes_default_def split_def Let_def)

lemma in_image_filter: "x \<in> f ` {q \<in> B. P q} \<longleftrightarrow> (\<exists>q \<in> B. P q \<and> f q = x)"
  by blast

text \<open>The sequence numbers an update names gone are those of the processes that left.\<close>
lemma left_names_the_gone:
  assumes "lists_ok before" "lists_ok after" "etags_tell before after" "p \<in> set (tg_value (sn_processes before))"
  shows "pi_sequence_number p \<in> set (sequence_numbers (ch_left (changes_between (Some before) after))) \<longleftrightarrow>
    info_key p \<notin> info_key ` set (tg_value (sn_processes after))"
proof (cases "tg_etag (sn_processes before) = tg_etag (sn_processes after)")
  case True
  then have "tg_value (sn_processes before) = tg_value (sn_processes after)"
    using assms(3) by (simp add: etags_tell_def)
  then show ?thesis using True assms(4) by (simp add: ch_left_between sequence_numbers_def)
next
  case False
  let ?b = "tg_value (sn_processes before)" and ?a = "tg_value (sn_processes after)"
  have ord: "ordered_rows info_key ?b" "ordered_rows info_key ?a"
    using assms(1,2) unfolding lists_ok_def by blast+
  have "set (sequence_numbers (ch_left (changes_between (Some before) after))) =
      pi_sequence_number ` {q \<in> set ?b. info_key q \<notin> info_key ` set ?a}"
    using False diff_rows_exact [OF ord] by (simp add: ch_left_between sequence_numbers_def image_image)
  then have named: "pi_sequence_number p \<in> set (sequence_numbers (ch_left (changes_between (Some before) after))) \<longleftrightarrow>
      (\<exists>q \<in> set ?b. info_key q \<notin> info_key ` set ?a \<and> pi_sequence_number q = pi_sequence_number p)"
    by (simp only: in_image_filter)
  have same: "q = p" if "q \<in> set ?b" "pi_sequence_number q = pi_sequence_number p" for q
  proof -
    have "distinct (map pi_sequence_number ?b)" using assms(1) unfolding lists_ok_def by blast
    then show ?thesis using that assms(4) by (simp add: distinct_map inj_on_def)
  qed
  show ?thesis unfolding named
  proof
    assume "\<exists>q \<in> set ?b. info_key q \<notin> info_key ` set ?a \<and> pi_sequence_number q = pi_sequence_number p"
    then obtain q where q: "q \<in> set ?b" "info_key q \<notin> info_key ` set ?a" "pi_sequence_number q = pi_sequence_number p"
      by (elim bexE conjE)
    show "info_key p \<notin> info_key ` set ?a" using q(2) unfolding same [OF q(1,3)] .
  next
    assume "info_key p \<notin> info_key ` set ?a"
    then show "\<exists>q \<in> set ?b. info_key q \<notin> info_key ` set ?a \<and> pi_sequence_number q = pi_sequence_number p"
      by (intro bexI [OF _ assms(4)] conjI refl)
  qed
qed

lemma processes_roundtrip' [simp]: "decode_processes (map encode_process_info list) = Inr list"
  using processes_roundtrip [of list] by (simp add: encode_processes_def)

lemma passports_arrive:
  assumes "lists_ok before" "lists_ok after" "etags_tell before after"
  defines "changes \<equiv> changes_between (Some before) after"
  shows "decode_passports (Some before) (encode_passports blanks changes after (Some before)) ch =
    Inr (tg_value (sn_processes after),
      if tg_etag (sn_processes before) = tg_etag (sn_processes after) then ch
      else ch\<lparr>ch_left := ch_left changes, ch_passports := ch_passports changes\<rparr>)"
proof (cases "tg_etag (sn_processes before) = tg_etag (sn_processes after)")
  case True
  then have "tg_value (sn_processes before) = tg_value (sn_processes after)"
    using assms(3) unfolding etags_tell_def by blast
  then show ?thesis using True by (simp add: decode_passports_def encode_passports_def held_def)
next
  case False
  let ?b = "tg_value (sn_processes before)" and ?a = "tg_value (sn_processes after)"
  define up where "up = filter (\<lambda>r. r \<notin> set ?b) ?a"
  define left where "left = sequence_numbers (ch_left changes)"
  have ord: "ordered_rows info_key ?b" "ordered_rows info_key ?a"
    using assms(1,2) unfolding lists_ok_def by blast+
  note gone = left_names_the_gone [OF assms(1-3), folded changes_def left_def]
  have ups: "ch_passports changes = map info_key up"
    using False diff_rows_exact [OF ord] by (simp add: changes_def ch_passports_between up_def)
  have "merge ?b (set left) up info_key = ?a"
    unfolding up_def by (rule merge_rebuilds [OF ord]) (use gone in auto)
  moreover have "map info_key (filter (\<lambda>p. pi_sequence_number p \<in> set left) ?b) = ch_left changes"
  proof -
    have "filter (\<lambda>p. pi_sequence_number p \<in> set left) ?b = filter (\<lambda>p. info_key p \<notin> info_key ` set ?a) ?b"
      by (rule filter_cong [OF refl]) (rule gone)
    then show ?thesis
      using False diff_rows_exact [OF ord] by (simp add: changes_def ch_left_between)
  qed
  moreover have "upserted_rows encode_process_info blank info_key ?a (ch_passports changes) = map encode_process_info up" for blank
    unfolding ups by (rule upserted_rows_listed [OF ord(2)]) (auto simp: up_def)
  ultimately show ?thesis
    using False ups
    by (simp add: decode_passports_def encode_passports_def held_def based_def left_def [symmetric])
qed

lemma states_arrive:
  assumes "lists_ok before" "lists_ok after" "etags_tell before after"
  defines "changes \<equiv> changes_between (Some before) after"
  shows "decode_states (Some before) (encode_states blanks changes after (Some before)) ch =
    Inr (pst_states (tg_value (sn_states after)),
      if tg_etag (sn_states before) = tg_etag (sn_states after) then ch
      else ch\<lparr>ch_states := ch_states changes\<rparr>)"
proof (cases "tg_etag (sn_states before) = tg_etag (sn_states after)")
  case True
  then have "tg_value (sn_states before) = tg_value (sn_states after)"
    using assms(3) unfolding etags_tell_def by blast
  then show ?thesis using True by (simp add: decode_states_def encode_states_def held_def Let_def)
next
  case False
  let ?b = "pst_states (tg_value (sn_states before))" and ?a = "pst_states (tg_value (sn_states after))"
  define up where "up = filter (\<lambda>r. r \<notin> set ?b) ?a"
  define left where "left = sequence_numbers (ch_left changes)"
  have ord: "ordered_rows state_key ?b" "ordered_rows state_key ?a"
    using assms(1,2) unfolding lists_ok_def by blast+
  have keys: "state_key ` set ?b = info_key ` set (tg_value (sn_processes before))"
    "state_key ` set ?a = info_key ` set (tg_value (sn_processes after))"
    using assms(1,2) unfolding lists_ok_def list.set_map [symmetric] by argo+
  have gone: "snd (state_key r) \<in> set left \<longleftrightarrow> state_key r \<notin> state_key ` set ?a" if r: "r \<in> set ?b" for r
  proof -
    obtain p where p: "p \<in> set (tg_value (sn_processes before))" "state_key r = info_key p"
      using r keys(1) by (metis (no_types, lifting) imageE imageI)
    then show ?thesis
      using left_names_the_gone [OF assms(1-3) p(1), folded changes_def left_def] keys(2) by simp
  qed
  have ups: "ch_states changes = map state_key up"
    using False diff_rows_exact [OF ord] by (simp add: changes_def ch_states_between up_def)
  have "merge ?b (set left) up state_key = ?a"
    unfolding up_def by (rule merge_rebuilds [OF ord]) (use gone in auto)
  moreover have "upserted_rows encode_process_state blank state_key ?a (ch_states changes) = map encode_process_state up" for blank
    unfolding ups by (rule upserted_rows_listed [OF ord(2)]) (auto simp: up_def)
  ultimately show ?thesis
    using False ups
    by (simp add: decode_states_def encode_states_def held_def based_def left_def [symmetric] Let_def)
qed

text \<open>\<open>before\<close> as both ends hold it and the lists that come after it.\<close>
definition follows :: "snapshot option \<Rightarrow> snapshot \<Rightarrow> bool" where
  "follows before after \<longleftrightarrow>
    lists_ok after \<and> (case before of None \<Rightarrow> True | Some b \<Rightarrow> lists_ok b \<and> etags_tell b after)"

lemma changes_between_fields:
  "ch_full (changes_between (Some before) after) = False"
  "ch_services (changes_between (Some before) after) =
    (tg_etag (sn_services before) \<noteq> tg_etag (sn_services after))"
  by (simp_all add: changes_between_def changes_default_def split_def Let_def)

lemma first_lists_arrive:
  assumes "lists_ok after" "up_snapshot upd = after" "up_changes upd = changes_between None after"
  shows "decode_lists None (encode_lists blanks upd None) = Inr (Some (after, changes_between None after))"
proof -
  have "pst_passport_etag (tg_value (sn_states after)) = tg_etag (sn_processes after)"
    using assms(1) unfolding lists_ok_def by blast
  then show ?thesis
    using assms(2,3)
    by (simp add: decode_lists_def encode_lists_def encode_passports_def encode_states_def decode_passports_def
        decode_states_def decode_service_list_def changes_between_def changes_default_def Let_def
        encode_processes_def encode_services_def [symmetric])
qed

lemma later_lists_arrive:
  assumes ok: "lists_ok before" "lists_ok after" "etags_tell before after"
    and upd: "up_snapshot upd = after" "up_changes upd = changes_between (Some before) after"
  shows "decode_lists (Some before) (encode_lists blanks upd (Some before)) =
    Inr (Some (after, changes_between (Some before) after))"
proof -
  have etag: "pst_passport_etag (tg_value (sn_states after)) = tg_etag (sn_processes after)"
    using ok(2) unfolding lists_ok_def by blast
  have services: "tg_value (sn_services before) = tg_value (sn_services after)"
    if "tg_etag (sn_services before) = tg_etag (sn_services after)"
    using ok(3) that unfolding etags_tell_def by blast
  show ?thesis
    using etag services
    by (simp add: decode_lists_def encode_lists_def upd passports_arrive [OF ok] states_arrive [OF ok]
        decode_service_list_def held_def changes_default_def Let_def changes_between_fields
        ch_left_between ch_passports_between ch_states_between)
qed

lemma lists_arrive:
  assumes "follows before after" "up_snapshot upd = after" "up_changes upd = changes_between before after"
  shows "decode_lists before (encode_lists blanks upd before) = Inr (Some (after, changes_between before after))"
proof (cases before)
  case None
  then show ?thesis using assms first_lists_arrive by (simp add: follows_def)
next
  case (Some b)
  have "lists_ok after" "lists_ok b" "etags_tell b after"
    using assms(1) Some unfolding follows_def by simp_all
  then show ?thesis unfolding Some using later_lists_arrive assms(2,3) Some by blast
qed

text \<open>
  C18 The update of a watch carries its lists: whatever moved since the lists the
  listener holds, it has the agent's lists afterwards, row by row and under the
  same etags, and is told the same changes the agent found.
\<close>
theorem lists_survive_the_wire:
  assumes "follows before after"
    "upd = \<lparr>up_snapshot = after, up_sample = taken, up_changes = changes_between before after\<rparr>"
  shows "decode_lists before (encode_lists blanks upd before) = Inr (Some (after, changes_between before after))"
  using lists_arrive [OF assms(1)] assms(2) by simp

text \<open>Rows as they are where nothing was filled in, and two lists of which one follows the other.\<close>
definition empty_rows :: blanks where
  "empty_rows =
    \<lparr>blank_process_info = encode_process_info (watched_row 0 0),
     blank_process_state = encode_process_state (process_state_new 0 0)\<rparr>"

definition told :: "u64 \<Rightarrow> process_info list \<Rightarrow> snapshot" where
  "told etag rows =
    \<lparr>sn_services = \<lparr>tg_etag = 1, tg_value = []\<rparr>, sn_processes = \<lparr>tg_etag = etag, tg_value = rows\<rparr>,
     sn_states = \<lparr>tg_etag = etag, tg_value = \<lparr>pst_passport_etag = etag,
       pst_states = map (\<lambda>p. process_state_new (pi_pid p) (pi_sequence_number p)) rows\<rparr>\<rparr>\<rparr>"

lemma told_follows:
  "follows (Some (told 1 [watched_row 8 1, watched_row 12 2, watched_row 16 3]))
    (told 2 [watched_row 8 1, watched_row 12 9])"
  by (simp add: follows_def lists_ok_def etags_tell_def told_def watched_row_def)

lemma lists_survive_the_wire_witness:
  "\<exists>lists. decode_lists (Some (told 1 [watched_row 8 1, watched_row 12 2, watched_row 16 3])) lists =
      Inr (Some (told 2 [watched_row 8 1, watched_row 12 9],
        changes_between (Some (told 1 [watched_row 8 1, watched_row 12 2, watched_row 16 3]))
          (told 2 [watched_row 8 1, watched_row 12 9])))"
  using lists_survive_the_wire [OF told_follows refl, of empty_rows sample_default] by blast

text \<open>A delta of the processes is refused by a listener that holds them under another etag.\<close>
lemma delta_refused:
  assumes "up_snapshot upd = after" "tg_etag (sn_processes base) \<noteq> tg_etag (sn_processes after)"
    "tg_etag (sn_processes base) \<noteq> tg_etag (sn_processes own)"
  shows "decode_lists (Some own) (encode_lists blanks upd (Some base)) =
    Inl (OtherBase (tg_etag (sn_processes base)) (tg_etag (sn_processes own)))"
  using assms by (auto simp: decode_lists_def encode_lists_def encode_passports_def decode_passports_def
      encode_states_def held_def based_def Let_def)

text \<open>
  An update that says what moved is refused by a listener that does not hold
  what it moved from: one that holds nothing yet, or holds either list under
  another etag; and only then.
\<close>
theorem other_lists_are_refused:
  assumes "follows (Some base) after"
    "upd = \<lparr>up_snapshot = after, up_sample = taken, up_changes = changes_between (Some base) after\<rparr>"
    "passports_fit \<longleftrightarrow> tg_etag (sn_processes base) \<in> {tg_etag (sn_processes after), tg_etag (sn_processes own)}"
    "states_fit \<longleftrightarrow> tg_etag (sn_states base) \<in> {tg_etag (sn_states after), tg_etag (sn_states own)}"
  shows "decode_lists None (encode_lists blanks upd (Some base)) = Inl NeverCame \<and>
    (\<not> passports_fit \<longrightarrow> decode_lists (Some own) (encode_lists blanks upd (Some base)) =
      Inl (OtherBase (tg_etag (sn_processes base)) (tg_etag (sn_processes own)))) \<and>
    (passports_fit \<and> \<not> states_fit \<longrightarrow> decode_lists (Some own) (encode_lists blanks upd (Some base)) =
      Inl (OtherBase (tg_etag (sn_states base)) (tg_etag (sn_states own)))) \<and>
    (passports_fit \<and> states_fit \<longrightarrow>
      (\<exists>lists. decode_lists (Some own) (encode_lists blanks upd (Some base)) = Inr (Some lists)))"
proof -
  have ord: "ordered_rows info_key (tg_value (sn_processes base))" "ordered_rows info_key (tg_value (sn_processes after))"
    using assms(1) unfolding follows_def lists_ok_def option.case by blast+
  have rows: "\<exists>list. decode_processes (upserted_rows encode_process_info blank info_key
      (tg_value (sn_processes after)) (ch_passports (changes_between (Some base) after))) = Inr list" for blank
  proof (cases "tg_etag (sn_processes base) = tg_etag (sn_processes after)")
    case False
    let ?up = "filter (\<lambda>r. r \<notin> set (tg_value (sn_processes base))) (tg_value (sn_processes after))"
    have "upserted_rows encode_process_info blank info_key (tg_value (sn_processes after)) (map info_key ?up) =
        map encode_process_info ?up"
      by (rule upserted_rows_listed [OF ord(2)]) auto
    then show ?thesis using False diff_rows_exact [OF ord] by (simp add: ch_passports_between)
  qed (simp add: ch_passports_between upserted_rows_def decode_processes_def)
  obtain list where list: "decode_processes (upserted_rows encode_process_info (blank_process_info blanks) info_key
      (tg_value (sn_processes after)) (ch_passports (changes_between (Some base) after))) = Inr list"
    using rows by blast
  show ?thesis
    unfolding assms(2-4)
    by (auto simp: decode_lists_def encode_lists_def encode_passports_def encode_states_def decode_passports_def
        decode_states_def decode_service_list_def held_def based_def Let_def list encode_services_def [symmetric])
qed

lemma other_lists_are_refused_witness:
  "\<exists>lists. decode_lists None lists = Inl NeverCame \<and>
    decode_lists (Some (told 9 [watched_row 8 1])) lists = Inl (OtherBase 1 9) \<and>
    (\<exists>got. decode_lists (Some (told 1 [watched_row 4 7])) lists = Inr (Some got))"
proof -
  define upd where "upd = \<lparr>up_snapshot = told 2 [watched_row 8 1, watched_row 12 9], up_sample = sample_default,
    up_changes = changes_between (Some (told 1 [watched_row 8 1, watched_row 12 2, watched_row 16 3]))
      (told 2 [watched_row 8 1, watched_row 12 9])\<rparr>"
  note refused = other_lists_are_refused [OF told_follows upd_def refl refl, where blanks = empty_rows]
  show ?thesis
    using refused [where own = "told 9 [watched_row 8 1]"] refused [where own = "told 1 [watched_row 4 7]"]
    by (simp add: told_def) blast
qed

end
