(* ===== verification/Wire_Sample.thy ===== *)
theory Wire_Sample
  imports Wire_Lists
begin

text \<open>
  Samples on the wire: \<^verbatim>\<open>process_columns\<close> and \<^verbatim>\<open>machine_sample\<close> of
  \<^verbatim>\<open>src/wire/encode.rs\<close>, \<^verbatim>\<open>sample\<close>, \<^verbatim>\<open>gpus\<close>, \<^verbatim>\<open>machine_groups\<close> and \<^verbatim>\<open>temperatures\<close> of
  \<^verbatim>\<open>src/wire/decode.rs\<close>. A message is a record of its fields, each set by the setter and
  got by the getter of its name; a list or struct that was not set is None.
\<close>

section \<open>The columns of the processes\<close>

record wire_process_gpu_engine =
  wpg_row :: u32
  wpg_adapter_luid :: u64
  wpg_engine :: u32
  wpg_running_time :: u64

record wire_process_columns =
  wpc_snapshot :: u64
  wpc_sampled_at :: u64
  wpc_passport_etag :: u64
  wpc_pids :: "u32 list read"
  wpc_sequence_numbers :: "u64 list read"
  wpc_cpu_user_time :: "column read option"
  wpc_cpu_kernel_time :: "column read option"
  wpc_cpu_cycles :: "column read option"
  wpc_working_set :: "column read option"
  wpc_peak_working_set :: "column read option"
  wpc_private_working_set :: "column read option"
  wpc_commit :: "column read option"
  wpc_paged_pool :: "column read option"
  wpc_non_paged_pool :: "column read option"
  wpc_page_faults :: "column read option"
  wpc_handles :: "column read option"
  wpc_threads :: "column read option"
  wpc_user_objects :: "column read option"
  wpc_gdi_objects :: "column read option"
  wpc_io_read_ops :: "column read option"
  wpc_io_write_ops :: "column read option"
  wpc_io_other_ops :: "column read option"
  wpc_io_read_bytes :: "column read option"
  wpc_io_write_bytes :: "column read option"
  wpc_io_other_bytes :: "column read option"
  wpc_disk_read_ops :: "column read option"
  wpc_disk_write_ops :: "column read option"
  wpc_disk_flush_ops :: "column read option"
  wpc_disk_read_bytes :: "column read option"
  wpc_disk_write_bytes :: "column read option"
  wpc_net_rx_bytes :: "column read option"
  wpc_net_tx_bytes :: "column read option"
  wpc_virtual_size :: "column read option"
  wpc_peak_virtual_size :: "column read option"
  wpc_peak_commit :: "column read option"
  wpc_peak_paged_pool :: "column read option"
  wpc_peak_non_paged_pool :: "column read option"
  wpc_hard_faults :: "column read option"
  wpc_peak_threads :: "column read option"
  wpc_context_switches :: "column read option"
  wpc_gpu_dedicated :: "column read option"
  wpc_gpu_shared :: "column read option"
  wpc_exclusive_mapped :: "column read option"
  wpc_vm_working_set :: "column read option"
  wpc_gpu_engines :: "wire_process_gpu_engine list read option"

text \<open>A message with the numbers of a sample and no list set.\<close>
definition columns_unset :: "sample \<Rightarrow> wire_process_columns" where
  "columns_unset s =
    \<lparr>wpc_snapshot = s_snapshot s, wpc_sampled_at = s_sampled_at s, wpc_passport_etag = s_passport_etag s,
     wpc_pids = Inr [], wpc_sequence_numbers = Inr [],
     wpc_cpu_user_time = None, wpc_cpu_kernel_time = None, wpc_cpu_cycles = None, wpc_working_set = None,
     wpc_peak_working_set = None, wpc_private_working_set = None, wpc_commit = None, wpc_paged_pool = None,
     wpc_non_paged_pool = None, wpc_page_faults = None, wpc_handles = None, wpc_threads = None,
     wpc_user_objects = None, wpc_gdi_objects = None, wpc_io_read_ops = None, wpc_io_write_ops = None,
     wpc_io_other_ops = None, wpc_io_read_bytes = None, wpc_io_write_bytes = None,
     wpc_io_other_bytes = None, wpc_disk_read_ops = None, wpc_disk_write_ops = None,
     wpc_disk_flush_ops = None, wpc_disk_read_bytes = None, wpc_disk_write_bytes = None,
     wpc_net_rx_bytes = None, wpc_net_tx_bytes = None, wpc_virtual_size = None,
     wpc_peak_virtual_size = None, wpc_peak_commit = None, wpc_peak_paged_pool = None,
     wpc_peak_non_paged_pool = None, wpc_hard_faults = None, wpc_peak_threads = None,
     wpc_context_switches = None, wpc_gpu_dedicated = None, wpc_gpu_shared = None,
     wpc_exclusive_mapped = None, wpc_vm_working_set = None,
     wpc_gpu_engines = None\<rparr>"

definition sent_column :: "column option \<Rightarrow> column read option" where
  "sent_column v = map_option Inr v"

definition encode_process_gpu_engine :: "process_gpu_engine \<Rightarrow> wire_process_gpu_engine" where
  "encode_process_gpu_engine e =
    \<lparr>wpg_row = pge_row e, wpg_adapter_luid = pge_adapter_luid e, wpg_engine = pge_engine e,
     wpg_running_time = pge_running_time e\<rparr>"

text \<open>Where no process counter is wanted, the lists are left as they are: empty.\<close>
definition encode_process_columns :: "sample \<Rightarrow> wire_process_columns" where
  "encode_process_columns s =
    (if ms_processes (s_wanted s) = {} then columns_unset s
     else let c = s_columns s in (columns_unset s)
      \<lparr>wpc_pids := Inr (s_pids s), wpc_sequence_numbers := Inr (s_sequence_numbers s),
       wpc_cpu_user_time := sent_column (c CpuUserTime),
       wpc_cpu_kernel_time := sent_column (c CpuKernelTime), wpc_cpu_cycles := sent_column (c CpuCycles),
       wpc_working_set := sent_column (c WorkingSet),
       wpc_peak_working_set := sent_column (c PeakWorkingSet),
       wpc_private_working_set := sent_column (c PrivateWorkingSet), wpc_commit := sent_column (c Commit),
       wpc_paged_pool := sent_column (c PagedPool), wpc_non_paged_pool := sent_column (c NonPagedPool),
       wpc_page_faults := sent_column (c PageFaults), wpc_handles := sent_column (c Handles),
       wpc_threads := sent_column (c Threads), wpc_user_objects := sent_column (c UserObjects),
       wpc_gdi_objects := sent_column (c GdiObjects), wpc_io_read_ops := sent_column (c IoReadOps),
       wpc_io_write_ops := sent_column (c IoWriteOps), wpc_io_other_ops := sent_column (c IoOtherOps),
       wpc_io_read_bytes := sent_column (c IoReadBytes),
       wpc_io_write_bytes := sent_column (c IoWriteBytes),
       wpc_io_other_bytes := sent_column (c IoOtherBytes),
       wpc_disk_read_ops := sent_column (c DiskReadOps),
       wpc_disk_write_ops := sent_column (c DiskWriteOps),
       wpc_disk_flush_ops := sent_column (c DiskFlushOps),
       wpc_disk_read_bytes := sent_column (c DiskReadBytes),
       wpc_disk_write_bytes := sent_column (c DiskWriteBytes),
       wpc_net_rx_bytes := sent_column (c NetRxBytes), wpc_net_tx_bytes := sent_column (c NetTxBytes),
       wpc_virtual_size := sent_column (c VirtualSize),
       wpc_peak_virtual_size := sent_column (c PeakVirtualSize),
       wpc_peak_commit := sent_column (c PeakCommit), wpc_peak_paged_pool := sent_column (c PeakPagedPool),
       wpc_peak_non_paged_pool := sent_column (c PeakNonPagedPool),
       wpc_hard_faults := sent_column (c HardFaults), wpc_peak_threads := sent_column (c PeakThreads),
       wpc_context_switches := sent_column (c ContextSwitches),
       wpc_gpu_dedicated := sent_column (c GpuDedicated), wpc_gpu_shared := sent_column (c GpuShared),
       wpc_exclusive_mapped := sent_column (c ExclusiveMapped),
       wpc_vm_working_set := sent_column (c VmWorkingSet),
       wpc_gpu_engines := map_option (\<lambda>es. Inr (map encode_process_gpu_engine es)) (s_gpu_engines s)\<rparr>)"

definition got_columns :: "wire_process_columns \<Rightarrow> (process_metric \<times> column read option) list" where
  "got_columns p =
     [(CpuUserTime, wpc_cpu_user_time p), (CpuKernelTime, wpc_cpu_kernel_time p),
      (CpuCycles, wpc_cpu_cycles p), (WorkingSet, wpc_working_set p),
      (PeakWorkingSet, wpc_peak_working_set p), (PrivateWorkingSet, wpc_private_working_set p),
      (Commit, wpc_commit p), (PagedPool, wpc_paged_pool p), (NonPagedPool, wpc_non_paged_pool p),
      (PageFaults, wpc_page_faults p), (Handles, wpc_handles p), (Threads, wpc_threads p),
      (UserObjects, wpc_user_objects p), (GdiObjects, wpc_gdi_objects p), (IoReadOps, wpc_io_read_ops p),
      (IoWriteOps, wpc_io_write_ops p), (IoOtherOps, wpc_io_other_ops p),
      (IoReadBytes, wpc_io_read_bytes p), (IoWriteBytes, wpc_io_write_bytes p),
      (IoOtherBytes, wpc_io_other_bytes p), (DiskReadOps, wpc_disk_read_ops p),
      (DiskWriteOps, wpc_disk_write_ops p), (DiskFlushOps, wpc_disk_flush_ops p),
      (DiskReadBytes, wpc_disk_read_bytes p), (DiskWriteBytes, wpc_disk_write_bytes p),
      (NetRxBytes, wpc_net_rx_bytes p), (NetTxBytes, wpc_net_tx_bytes p),
      (VirtualSize, wpc_virtual_size p), (PeakVirtualSize, wpc_peak_virtual_size p),
      (PeakCommit, wpc_peak_commit p), (PeakPagedPool, wpc_peak_paged_pool p),
      (PeakNonPagedPool, wpc_peak_non_paged_pool p), (HardFaults, wpc_hard_faults p),
      (PeakThreads, wpc_peak_threads p), (ContextSwitches, wpc_context_switches p),
      (GpuDedicated, wpc_gpu_dedicated p), (GpuShared, wpc_gpu_shared p),
      (ExclusiveMapped, wpc_exclusive_mapped p), (VmWorkingSet, wpc_vm_working_set p)]"

text \<open>The columns read one by one; the first that fails fails them all.\<close>
fun decode_columns :: "(process_metric \<times> column read option) list \<Rightarrow> columns read" where
  "decode_columns [] = Inr no_columns"
| "decode_columns ((m, got) # onward) =
    and_then (read_option Inr got) (\<lambda>values.
    and_then (decode_columns onward) (\<lambda>read. Inr (read(m := values))))"

definition decode_process_gpu_engine :: "wire_process_gpu_engine \<Rightarrow> process_gpu_engine" where
  "decode_process_gpu_engine e =
    \<lparr>pge_row = wpg_row e, pge_adapter_luid = wpg_adapter_luid e, pge_engine = wpg_engine e,
     pge_running_time = wpg_running_time e\<rparr>"

section \<open>The groups of the machine\<close>

record wire_system_stats =
  wss_process_count :: u32
  wss_thread_count :: u32
  wss_handle_count :: u32
  wss_uptime_ms :: u64

record wire_cpu =
  wcu_idle_time :: u64
  wcu_kernel_time :: u64
  wcu_user_time :: u64
  wcu_interrupt_time :: u64
  wcu_dpc_time :: u64
  wcu_max_mhz :: u32
  wcu_current_mhz :: u32

record wire_memory =
  wmm_total_physical :: u64
  wmm_available_physical :: u64
  wmm_commit_limit :: u64
  wmm_committed :: u64

record wire_disk =
  wdk_read_ops :: u64
  wdk_write_ops :: u64
  wdk_read_bytes :: u64
  wdk_write_bytes :: u64

record wire_network =
  wnw_rx_bytes :: u64
  wnw_tx_bytes :: u64

record wire_processor =
  wlp_idle_time :: u64
  wlp_kernel_time :: u64
  wlp_user_time :: u64
  wlp_interrupt_time :: u64
  wlp_dpc_time :: u64

record wire_gpu_engine =
  wge_ordinal :: u32
  wge_type :: "wire_gpu_engine_type option"
  wge_name :: wire_text
  wge_running_time :: u64
  wge_frequency :: u64
  wge_max_frequency :: u64

record wire_gpu_adapter =
  wga_luid :: u64
  wga_name :: wire_text
  wga_dedicated_limit :: u64
  wga_dedicated_usage :: u64
  wga_shared_limit :: u64
  wga_shared_usage :: u64
  wga_temperature :: u32
  wga_fan_rpm :: u32
  wga_power :: u32
  wga_memory_frequency :: u64
  wga_engines :: "wire_gpu_engine list read"

record wire_network_adapter =
  wna_luid :: u64
  wna_name :: wire_text
  wna_description :: wire_text
  wna_if_type :: u32
  wna_hardware :: bool
  wna_receive_link_speed :: u64
  wna_transmit_link_speed :: u64
  wna_rx_bytes :: u64
  wna_tx_bytes :: u64

record wire_cpu_inventory =
  wci_active_package_count :: u32
  wci_physical_core_count :: u32
  wci_logical_processor_count :: u32
  wci_l1_cache_bytes :: u64
  wci_l2_cache_bytes :: u64
  wci_l3_cache_bytes :: u64
  wci_base_mhz :: u32
  wci_virtualization_hardware_supported :: "wire_toggle option"
  wci_virtualization_firmware_enabled :: "wire_toggle option"
  wci_hypervisor_present :: "wire_toggle option"

text \<open>A reading is a union; None is a form this build does not know.\<close>
datatype wire_reading = Celsius f64 | Unavailable

record wire_temperature_sensor =
  wts_id :: wire_text
  wts_name :: wire_text
  wts_reading :: "wire_reading option"

record wire_temperature_device =
  wtd_id :: wire_text
  wtd_name :: wire_text
  wtd_category :: "wire_temperature_category option"
  wtd_status :: "wire_temperature_status option"
  wtd_error :: wire_text
  wtd_sensors :: "wire_temperature_sensor list read"

record wire_temperatures =
  wtm_status :: "wire_temperature_status option"
  wtm_error :: wire_text
  wtm_devices :: "wire_temperature_device list read"

text \<open>A text never set is empty.\<close>
record wire_machine_sample =
  wmc_snapshot :: u64
  wmc_sampled_at :: u64
  wmc_system_stats :: "wire_system_stats read option"
  wmc_cpu_inventory :: "wire_cpu_inventory read option"
  wmc_cpu_name :: wire_text
  wmc_temperatures :: "wire_temperatures read option"
  wmc_cpu :: "wire_cpu read option"
  wmc_memory :: "wire_memory read option"
  wmc_disk :: "wire_disk read option"
  wmc_network :: "wire_network read option"
  wmc_processors :: "wire_processor list read option"
  wmc_gpus :: "wire_gpu_adapter list read option"
  wmc_network_adapters :: "wire_network_adapter list read option"

text \<open>\<^verbatim>\<open>f64::is_finite\<close>: not every bit of the exponent is set.\<close>
definition is_finite :: "f64 \<Rightarrow> bool" where
  "is_finite v \<longleftrightarrow> and v 0x7FF0000000000000 \<noteq> 0x7FF0000000000000"

text \<open>\<^verbatim>\<open>unwrap_or(NO_DATA)\<close> and \<^verbatim>\<open>(value != NO_DATA).then_some(value)\<close>; both widths' marker is all ones.\<close>
definition or_no_data :: "'a::len word option \<Rightarrow> 'a word" where
  "or_no_data v = (case v of None \<Rightarrow> - 1 | Some n \<Rightarrow> n)"

definition unless_no_data :: "'a::len word \<Rightarrow> 'a word option" where
  "unless_no_data n = (if n \<noteq> - 1 then Some n else None)"

definition encode_cpu_inventory :: "cpu_inventory \<Rightarrow> wire_cpu_inventory" where
  "encode_cpu_inventory i =
    \<lparr>wci_active_package_count = or_no_data (ci_active_package_count i),
     wci_physical_core_count = or_no_data (ci_physical_core_count i),
     wci_logical_processor_count = or_no_data (ci_logical_processor_count i),
     wci_l1_cache_bytes = or_no_data (ci_l1_cache_bytes i), wci_l2_cache_bytes = or_no_data (ci_l2_cache_bytes i),
     wci_l3_cache_bytes = or_no_data (ci_l3_cache_bytes i), wci_base_mhz = or_no_data (ci_base_mhz i),
     wci_virtualization_hardware_supported = Some (encode_toggle (ci_virtualization_hardware_supported i)),
     wci_virtualization_firmware_enabled = Some (encode_toggle (ci_virtualization_firmware_enabled i)),
     wci_hypervisor_present = Some (encode_toggle (ci_hypervisor_present i))\<rparr>"

definition decode_cpu_inventory :: "wire_cpu_inventory \<Rightarrow> cpu_inventory" where
  "decode_cpu_inventory i =
    \<lparr>ci_active_package_count = unless_no_data (wci_active_package_count i),
     ci_physical_core_count = unless_no_data (wci_physical_core_count i),
     ci_logical_processor_count = unless_no_data (wci_logical_processor_count i),
     ci_l1_cache_bytes = unless_no_data (wci_l1_cache_bytes i), ci_l2_cache_bytes = unless_no_data (wci_l2_cache_bytes i),
     ci_l3_cache_bytes = unless_no_data (wci_l3_cache_bytes i), ci_base_mhz = unless_no_data (wci_base_mhz i),
     ci_virtualization_hardware_supported = decode_toggle (wci_virtualization_hardware_supported i),
     ci_virtualization_firmware_enabled = decode_toggle (wci_virtualization_firmware_enabled i),
     ci_hypervisor_present = decode_toggle (wci_hypervisor_present i)\<rparr>"

definition encode_sensor :: "temperature_sensor \<Rightarrow> wire_temperature_sensor" where
  "encode_sensor s =
    \<lparr>wts_id = sent_text (ts_id s), wts_name = sent_text (ts_name s),
     wts_reading = Some (case ts_celsius s of
         Some v \<Rightarrow> if is_finite v then Celsius v else Unavailable
       | None \<Rightarrow> Unavailable)\<rparr>"

definition encode_device :: "temperature_device \<Rightarrow> wire_temperature_device" where
  "encode_device d =
    \<lparr>wtd_id = sent_text (td_id d), wtd_name = sent_text (td_name d),
     wtd_category = Some (encode_temperature_category (td_category d)),
     wtd_status = Some (encode_temperature_status (td_status d)), wtd_error = sent_text (td_error d),
     wtd_sensors = Inr (map encode_sensor (td_sensors d))\<rparr>"

definition encode_temperatures :: "machine_temperatures \<Rightarrow> wire_temperatures" where
  "encode_temperatures t =
    \<lparr>wtm_status = Some (encode_temperature_status (mt_status t)), wtm_error = sent_text (mt_error t),
     wtm_devices = Inr (map encode_device (mt_devices t))\<rparr>"

definition decode_sensor :: "wire_temperature_sensor \<Rightarrow> temperature_sensor read" where
  "decode_sensor s =
    and_then (read_text (wts_id s)) (\<lambda>sensor_id.
    and_then (read_text (wts_name s)) (\<lambda>name.
      Inr \<lparr>ts_id = sensor_id, ts_name = name,
           ts_celsius = (case wts_reading s of
               Some (Celsius v) \<Rightarrow> if is_finite v then Some v else None
             | _ \<Rightarrow> None)\<rparr>))"

definition decode_device :: "wire_temperature_device \<Rightarrow> temperature_device read" where
  "decode_device d =
    and_then (read_text (wtd_id d)) (\<lambda>device_id.
    and_then (read_text (wtd_name d)) (\<lambda>name.
    and_then (read_text (wtd_error d)) (\<lambda>error_text.
    and_then (wtd_sensors d) (\<lambda>sensors.
    and_then (read_all decode_sensor sensors) (\<lambda>sensors.
      Inr \<lparr>td_id = device_id, td_name = name, td_category = decode_temperature_category (wtd_category d),
           td_status = decode_temperature_status (wtd_status d), td_error = error_text,
           td_sensors = sensors\<rparr>)))))"

definition decode_temperatures :: "wire_temperatures \<Rightarrow> machine_temperatures read" where
  "decode_temperatures t =
    and_then (read_text (wtm_error t)) (\<lambda>error_text.
    and_then (wtm_devices t) (\<lambda>devices.
    and_then (read_all decode_device devices) (\<lambda>devices.
      Inr \<lparr>mt_status = decode_temperature_status (wtm_status t), mt_error = error_text,
           mt_devices = devices\<rparr>)))"

definition encode_gpu_engine :: "gpu_engine \<Rightarrow> wire_gpu_engine" where
  "encode_gpu_engine e =
    \<lparr>wge_ordinal = ge_ordinal e, wge_type = Some (encode_gpu_engine_kind (ge_kind e)),
     wge_name = sent_text (ge_name e), wge_running_time = ge_running_time e,
     wge_frequency = ge_frequency e, wge_max_frequency = ge_max_frequency e\<rparr>"

definition encode_gpu :: "gpu_adapter \<Rightarrow> wire_gpu_adapter" where
  "encode_gpu g =
    \<lparr>wga_luid = ga_luid g, wga_name = sent_text (ga_name g), wga_dedicated_limit = ga_dedicated_limit g,
     wga_dedicated_usage = ga_dedicated_usage g, wga_shared_limit = ga_shared_limit g,
     wga_shared_usage = ga_shared_usage g, wga_temperature = ga_temperature g, wga_fan_rpm = ga_fan_rpm g,
     wga_power = ga_power g, wga_memory_frequency = ga_memory_frequency g,
     wga_engines = Inr (map encode_gpu_engine (ga_engines g))\<rparr>"

definition decode_gpu_engine :: "wire_gpu_engine \<Rightarrow> gpu_engine read" where
  "decode_gpu_engine e =
    and_then (read_text (wge_name e)) (\<lambda>name.
      Inr \<lparr>ge_ordinal = wge_ordinal e, ge_kind = decode_gpu_engine_kind (wge_type e), ge_name = name,
           ge_running_time = wge_running_time e, ge_frequency = wge_frequency e,
           ge_max_frequency = wge_max_frequency e\<rparr>)"

text \<open>The closure of \<^verbatim>\<open>gpus\<close>.\<close>
definition decode_gpu :: "wire_gpu_adapter \<Rightarrow> gpu_adapter read" where
  "decode_gpu g =
    and_then (read_text (wga_name g)) (\<lambda>name.
    and_then (wga_engines g) (\<lambda>engines.
    and_then (read_all decode_gpu_engine engines) (\<lambda>engines.
      Inr \<lparr>ga_luid = wga_luid g, ga_name = name, ga_dedicated_limit = wga_dedicated_limit g,
           ga_dedicated_usage = wga_dedicated_usage g, ga_shared_limit = wga_shared_limit g,
           ga_shared_usage = wga_shared_usage g, ga_temperature = wga_temperature g,
           ga_fan_rpm = wga_fan_rpm g, ga_power = wga_power g,
           ga_memory_frequency = wga_memory_frequency g, ga_engines = engines\<rparr>)))"

definition encode_adapter :: "network_adapter \<Rightarrow> wire_network_adapter" where
  "encode_adapter a =
    \<lparr>wna_luid = na_luid a, wna_name = sent_text (na_name a), wna_description = sent_text (na_description a),
     wna_if_type = na_if_type a, wna_hardware = na_hardware a,
     wna_receive_link_speed = na_receive_link_speed a, wna_transmit_link_speed = na_transmit_link_speed a,
     wna_rx_bytes = na_rx_bytes a, wna_tx_bytes = na_tx_bytes a\<rparr>"

definition decode_adapter :: "wire_network_adapter \<Rightarrow> network_adapter read" where
  "decode_adapter a =
    and_then (read_text (wna_name a)) (\<lambda>name.
    and_then (read_text (wna_description a)) (\<lambda>description.
      Inr \<lparr>na_luid = wna_luid a, na_name = name, na_description = description, na_if_type = wna_if_type a,
           na_hardware = wna_hardware a, na_receive_link_speed = wna_receive_link_speed a,
           na_transmit_link_speed = wna_transmit_link_speed a, na_rx_bytes = wna_rx_bytes a,
           na_tx_bytes = wna_tx_bytes a\<rparr>))"

definition encode_system_stats :: "machine_system_stats \<Rightarrow> wire_system_stats" where
  "encode_system_stats stats =
    \<lparr>wss_process_count = sys_process_count stats, wss_thread_count = sys_thread_count stats,
     wss_handle_count = sys_handle_count stats, wss_uptime_ms = sys_uptime_ms stats\<rparr>"

definition encode_cpu :: "machine_cpu \<Rightarrow> wire_cpu" where
  "encode_cpu c =
    \<lparr>wcu_idle_time = cpu_idle_time c, wcu_kernel_time = cpu_kernel_time c, wcu_user_time = cpu_user_time c,
     wcu_interrupt_time = cpu_interrupt_time c, wcu_dpc_time = cpu_dpc_time c, wcu_max_mhz = cpu_max_mhz c,
     wcu_current_mhz = cpu_current_mhz c\<rparr>"

definition encode_memory :: "machine_memory \<Rightarrow> wire_memory" where
  "encode_memory m =
    \<lparr>wmm_total_physical = mem_total_physical m, wmm_available_physical = mem_available_physical m,
     wmm_commit_limit = mem_commit_limit m, wmm_committed = mem_committed m\<rparr>"

definition encode_disk :: "machine_disk \<Rightarrow> wire_disk" where
  "encode_disk d =
    \<lparr>wdk_read_ops = disk_read_ops d, wdk_write_ops = disk_write_ops d, wdk_read_bytes = disk_read_bytes d,
     wdk_write_bytes = disk_write_bytes d\<rparr>"

definition encode_network :: "machine_network \<Rightarrow> wire_network" where
  "encode_network n =
    \<lparr>wnw_rx_bytes = net_rx_bytes n, wnw_tx_bytes = net_tx_bytes n\<rparr>"

definition encode_processor :: "machine_processor \<Rightarrow> wire_processor" where
  "encode_processor p =
    \<lparr>wlp_idle_time = lp_idle_time p, wlp_kernel_time = lp_kernel_time p, wlp_user_time = lp_user_time p,
     wlp_interrupt_time = lp_interrupt_time p, wlp_dpc_time = lp_dpc_time p\<rparr>"

definition decode_system_stats :: "wire_system_stats \<Rightarrow> machine_system_stats" where
  "decode_system_stats stats =
    \<lparr>sys_process_count = wss_process_count stats, sys_thread_count = wss_thread_count stats,
     sys_handle_count = wss_handle_count stats, sys_uptime_ms = wss_uptime_ms stats\<rparr>"

definition decode_cpu :: "wire_cpu \<Rightarrow> machine_cpu" where
  "decode_cpu c =
    \<lparr>cpu_idle_time = wcu_idle_time c, cpu_kernel_time = wcu_kernel_time c, cpu_user_time = wcu_user_time c,
     cpu_interrupt_time = wcu_interrupt_time c, cpu_dpc_time = wcu_dpc_time c, cpu_max_mhz = wcu_max_mhz c,
     cpu_current_mhz = wcu_current_mhz c\<rparr>"

definition decode_memory :: "wire_memory \<Rightarrow> machine_memory" where
  "decode_memory m =
    \<lparr>mem_total_physical = wmm_total_physical m, mem_available_physical = wmm_available_physical m,
     mem_commit_limit = wmm_commit_limit m, mem_committed = wmm_committed m\<rparr>"

definition decode_disk :: "wire_disk \<Rightarrow> machine_disk" where
  "decode_disk d =
    \<lparr>disk_read_ops = wdk_read_ops d, disk_write_ops = wdk_write_ops d, disk_read_bytes = wdk_read_bytes d,
     disk_write_bytes = wdk_write_bytes d\<rparr>"

definition decode_network :: "wire_network \<Rightarrow> machine_network" where
  "decode_network n =
    \<lparr>net_rx_bytes = wnw_rx_bytes n, net_tx_bytes = wnw_tx_bytes n\<rparr>"

definition decode_processor :: "wire_processor \<Rightarrow> machine_processor" where
  "decode_processor p =
    \<lparr>lp_idle_time = wlp_idle_time p, lp_kernel_time = wlp_kernel_time p, lp_user_time = wlp_user_time p,
     lp_interrupt_time = wlp_interrupt_time p, lp_dpc_time = wlp_dpc_time p\<rparr>"

definition encode_machine_sample :: "sample \<Rightarrow> wire_machine_sample" where
  "encode_machine_sample s =
    (let m = s_machine s
     in \<lparr>wmc_snapshot = s_snapshot s, wmc_sampled_at = s_sampled_at s,
         wmc_system_stats = map_option (\<lambda>x. Inr (encode_system_stats x)) (m_system_stats m),
         wmc_cpu_inventory = map_option (\<lambda>i. Inr (encode_cpu_inventory i)) (m_cpu_inventory m),
         wmc_cpu_name = (case m_cpu_name m of Some name \<Rightarrow> sent_text name | None \<Rightarrow> sent_text ''''),
         wmc_temperatures = map_option (\<lambda>t. Inr (encode_temperatures t)) (m_temperatures m),
         wmc_cpu = map_option (\<lambda>x. Inr (encode_cpu x)) (m_cpu m),
         wmc_memory = map_option (\<lambda>x. Inr (encode_memory x)) (m_memory m),
         wmc_disk = map_option (\<lambda>x. Inr (encode_disk x)) (m_disk m),
         wmc_network = map_option (\<lambda>x. Inr (encode_network x)) (m_network m),
         wmc_processors = map_option (\<lambda>ps. Inr (map encode_processor ps)) (m_processors m),
         wmc_gpus = map_option (\<lambda>gs. Inr (map encode_gpu gs)) (m_gpus m),
         wmc_network_adapters = map_option (\<lambda>as. Inr (map encode_adapter as)) (m_network_adapters m)\<rparr>)"

text \<open>\<^verbatim>\<open>machine_groups\<close>\<close>
definition decode_machine_groups :: "wire_machine_sample \<Rightarrow> machine_sample read" where
  "decode_machine_groups m =
    and_then (read_option (\<lambda>x. Inr (decode_system_stats x)) (wmc_system_stats m)) (\<lambda>system_stats.
    and_then (read_option (\<lambda>i. Inr (decode_cpu_inventory i)) (wmc_cpu_inventory m)) (\<lambda>cpu_inventory.
    and_then (read_text (wmc_cpu_name m)) (\<lambda>name.
    and_then (read_option decode_temperatures (wmc_temperatures m)) (\<lambda>temperatures.
    and_then (read_option (\<lambda>x. Inr (decode_cpu x)) (wmc_cpu m)) (\<lambda>cpu.
    and_then (read_option (\<lambda>x. Inr (decode_memory x)) (wmc_memory m)) (\<lambda>memory.
    and_then (read_option (\<lambda>x. Inr (decode_disk x)) (wmc_disk m)) (\<lambda>disk.
    and_then (read_option (\<lambda>x. Inr (decode_network x)) (wmc_network m)) (\<lambda>network.
    and_then (read_option (\<lambda>ps. Inr (map decode_processor ps)) (wmc_processors m)) (\<lambda>processors.
    and_then (read_option (read_all decode_gpu) (wmc_gpus m)) (\<lambda>gpus.
    and_then (read_option (read_all decode_adapter) (wmc_network_adapters m)) (\<lambda>adapters.
      Inr \<lparr>m_cpu = cpu, m_cpu_name = (if name \<noteq> '''' then Some name else None), m_system_stats = system_stats,
           m_cpu_inventory = cpu_inventory, m_memory = memory, m_disk = disk, m_network = network,
           m_processors = processors, m_gpus = gpus, m_network_adapters = adapters,
           m_temperatures = temperatures\<rparr>)))))))))))"

text \<open>\<^verbatim>\<open>decode::sample\<close>: a sample as the agent sent it, for a subscription that asked for \<open>wanted\<close>.\<close>
definition decode_sample :: "wire_process_columns \<Rightarrow> wire_machine_sample \<Rightarrow> metric_spec \<Rightarrow> sample read" where
  "decode_sample p m wanted =
    and_then (wpc_pids p) (\<lambda>pids.
    and_then (wpc_sequence_numbers p) (\<lambda>sequence_numbers.
    and_then (decode_columns (got_columns p)) (\<lambda>columns.
    and_then (read_option (\<lambda>es. Inr (map decode_process_gpu_engine es)) (wpc_gpu_engines p)) (\<lambda>gpu_engines.
    and_then (decode_machine_groups m) (\<lambda>machine.
      Inr \<lparr>s_snapshot = wpc_snapshot p, s_sampled_at = wpc_sampled_at p, s_period = period wanted,
           s_wanted = wanted, s_passport_etag = wpc_passport_etag p, s_pids = pids,
           s_sequence_numbers = sequence_numbers, s_columns = columns, s_gpu_engines = gpu_engines,
           s_machine = machine\<rparr>)))))"

section \<open>A sample arrives as it was projected\<close>

lemma read_option_sent [simp]: "read_option Inr (map_option Inr v) = Inr v"
  by (cases v) (simp_all add: read_option_def)

lemma read_option_None [simp]: "read_option f None = Inr None"
  by (simp add: read_option_def)

lemma read_option_decoded:
  "(\<And>x. v = Some x \<Longrightarrow> decode (encode x) = Inr x) \<Longrightarrow>
    read_option decode (map_option (\<lambda>x. Inr (encode x)) v) = Inr v"
  by (cases v) (simp_all add: read_option_def)

lemma decode_columns_sent:
  "decode_columns (map (\<lambda>m. (m, sent_column (c m))) ms) = Inr (\<lambda>m. if m \<in> set ms then c m else None)"
proof (induction ms)
  case Nil
  then show ?case by (simp add: no_columns_def)
next
  case (Cons m ms)
  then show ?case by (auto simp: fun_eq_iff sent_column_def)
qed

text \<open>Every column has a setter and a getter of its own; the engines are carried beside them.\<close>
lemma columns_got:
  assumes "ms_processes (s_wanted s) \<noteq> {}" "s_columns s GpuEngines = None"
  shows "decode_columns (got_columns (encode_process_columns s)) = Inr (s_columns s)"
proof -
  have got: "got_columns (encode_process_columns s) =
      map (\<lambda>m. (m, sent_column (s_columns s m))) (filter (\<lambda>m. m \<noteq> GpuEngines) process_metric_list)"
    using assms(1) by (simp add: got_columns_def encode_process_columns_def process_metric_list_def Let_def)
  have "set (filter (\<lambda>m. m \<noteq> GpuEngines) process_metric_list) = {m. m \<noteq> GpuEngines}"
  proof -
    have "m \<in> set process_metric_list" for m by (cases m) (simp_all add: process_metric_list_def)
    then show ?thesis by auto
  qed
  then show ?thesis using assms(2) by (simp only: got decode_columns_sent) (auto simp: fun_eq_iff)
qed

lemma no_columns_got: "ms_processes (s_wanted s) = {} \<Longrightarrow> decode_columns (got_columns (encode_process_columns s)) = Inr no_columns"
  by (simp add: got_columns_def encode_process_columns_def columns_unset_def no_columns_def fun_eq_iff)

lemma process_gpu_engine_roundtrip [simp]: "decode_process_gpu_engine (encode_process_gpu_engine e) = e"
  by (simp add: decode_process_gpu_engine_def encode_process_gpu_engine_def)

lemma groups_roundtrip [simp]:
  "decode_system_stats (encode_system_stats stats) = stats" "decode_cpu (encode_cpu c) = c"
  "decode_memory (encode_memory m) = m" "decode_disk (encode_disk d) = d" "decode_network (encode_network n) = n"
  "decode_processor (encode_processor p) = p"
  by (simp_all add: decode_system_stats_def encode_system_stats_def decode_cpu_def encode_cpu_def decode_memory_def
      encode_memory_def decode_disk_def encode_disk_def decode_network_def encode_network_def decode_processor_def
      encode_processor_def)

lemma groups_arrive [simp]:
  "(\<And>x. decode (encode x) = x) \<Longrightarrow> read_option (\<lambda>x. Inr (decode x)) (map_option (\<lambda>x. Inr (encode x)) v) = Inr v"
  "(\<And>x. decode (encode x) = x) \<Longrightarrow>
    read_option (\<lambda>xs. Inr (map decode xs)) (map_option (\<lambda>xs. Inr (map encode xs)) vs) = Inr vs"
  by (auto simp: read_option_def map_idI split: option.split)

text \<open>
  What a machine's groups may hold to be told apart on the wire: no count is the
  value that stands for none, a processor that has a name has one that is not
  empty, a temperature is a number.
\<close>
definition inventory_ok :: "cpu_inventory \<Rightarrow> bool" where
  "inventory_ok i \<longleftrightarrow>
    Some (- 1) \<notin> {ci_active_package_count i, ci_physical_core_count i, ci_logical_processor_count i, ci_base_mhz i} \<and>
    Some (- 1) \<notin> {ci_l1_cache_bytes i, ci_l2_cache_bytes i, ci_l3_cache_bytes i}"

definition temperatures_ok :: "machine_temperatures \<Rightarrow> bool" where
  "temperatures_ok t \<longleftrightarrow>
    (\<forall>d \<in> set (mt_devices t). \<forall>s \<in> set (td_sensors d). case ts_celsius s of Some v \<Rightarrow> is_finite v | None \<Rightarrow> True)"

definition machine_ok :: "machine_sample \<Rightarrow> bool" where
  "machine_ok m \<longleftrightarrow>
    m_cpu_name m \<noteq> Some '''' \<and>
    (case m_cpu_inventory m of Some i \<Rightarrow> inventory_ok i | None \<Rightarrow> True) \<and>
    (case m_temperatures m of Some t \<Rightarrow> temperatures_ok t | None \<Rightarrow> True)"

lemma no_data_roundtrip: "Some (- 1) \<noteq> v \<Longrightarrow> unless_no_data (or_no_data v) = v"
  by (cases v) (simp_all add: unless_no_data_def or_no_data_def)

lemma cpu_inventory_roundtrip: "inventory_ok i \<Longrightarrow> decode_cpu_inventory (encode_cpu_inventory i) = i"
  by (simp add: decode_cpu_inventory_def encode_cpu_inventory_def inventory_ok_def no_data_roundtrip)

lemma sensor_roundtrip:
  "(case ts_celsius s of Some v \<Rightarrow> is_finite v | None \<Rightarrow> True) \<Longrightarrow> decode_sensor (encode_sensor s) = Inr s"
  by (cases "ts_celsius s") (simp_all add: decode_sensor_def encode_sensor_def)

lemma temperatures_roundtrip:
  assumes "temperatures_ok t"
  shows "decode_temperatures (encode_temperatures t) = Inr t"
proof -
  have "decode_device (encode_device d) = Inr d" if "d \<in> set (mt_devices t)" for d
  proof -
    have "read_all decode_sensor (map encode_sensor (td_sensors d)) = Inr (td_sensors d)"
      by (rule read_all_map, rule sensor_roundtrip) (use assms that in \<open>simp add: temperatures_ok_def\<close>)
    then show ?thesis by (simp add: decode_device_def encode_device_def)
  qed
  then show ?thesis by (simp add: decode_temperatures_def encode_temperatures_def read_all_map)
qed

lemma gpu_roundtrip [simp]: "decode_gpu (encode_gpu g) = Inr g"
  by (simp add: decode_gpu_def encode_gpu_def read_all_map decode_gpu_engine_def encode_gpu_engine_def)

lemma adapter_roundtrip [simp]: "decode_adapter (encode_adapter a) = Inr a"
  by (simp add: decode_adapter_def encode_adapter_def)

lemma machine_groups_roundtrip:
  assumes "machine_ok (s_machine s)"
  shows "decode_machine_groups (encode_machine_sample s) = Inr (s_machine s)"
proof -
  let ?m = "s_machine s"
  have "read_option (\<lambda>i. Inr (decode_cpu_inventory i)) (map_option (\<lambda>i. Inr (encode_cpu_inventory i)) (m_cpu_inventory ?m)) =
      Inr (m_cpu_inventory ?m)"
    by (rule read_option_decoded) (use assms in \<open>simp add: machine_ok_def cpu_inventory_roundtrip\<close>)
  moreover have "read_option decode_temperatures (map_option (\<lambda>t. Inr (encode_temperatures t)) (m_temperatures ?m)) =
      Inr (m_temperatures ?m)"
    by (rule read_option_decoded) (use assms in \<open>simp add: machine_ok_def temperatures_roundtrip\<close>)
  moreover have "read_option (read_all decode_gpu) (map_option (\<lambda>gs. Inr (map encode_gpu gs)) (m_gpus ?m)) = Inr (m_gpus ?m)"
    by (rule read_option_decoded) (simp add: read_all_map)
  moreover have "read_option (read_all decode_adapter) (map_option (\<lambda>as. Inr (map encode_adapter as)) (m_network_adapters ?m)) =
      Inr (m_network_adapters ?m)"
    by (rule read_option_decoded) (simp add: read_all_map)
  moreover have "\<exists>name. read_text (case m_cpu_name ?m of Some name \<Rightarrow> sent_text name | None \<Rightarrow> sent_text '''') = Inr name \<and>
      (if name \<noteq> '''' then Some name else None) = m_cpu_name ?m"
    using assms by (cases "m_cpu_name ?m") (auto simp: machine_ok_def)
  ultimately show ?thesis
    by (auto simp: decode_machine_groups_def encode_machine_sample_def Let_def)
qed

lemma machine_ok_project: "machine_ok m \<Longrightarrow> machine_ok (machine_project m wanted)"
  by (simp add: machine_ok_def machine_project_def kept_if_def)

lemma encoded_fields [simp]:
  "wpc_snapshot (encode_process_columns s) = s_snapshot s" "wpc_sampled_at (encode_process_columns s) = s_sampled_at s"
  "wpc_passport_etag (encode_process_columns s) = s_passport_etag s"
  "wpc_pids (encode_process_columns s) = Inr (if ms_processes (s_wanted s) = {} then [] else s_pids s)"
  "wpc_sequence_numbers (encode_process_columns s) = Inr (if ms_processes (s_wanted s) = {} then [] else s_sequence_numbers s)"
  "wpc_gpu_engines (encode_process_columns s) =
    (if ms_processes (s_wanted s) = {} then None else map_option (\<lambda>es. Inr (map encode_process_gpu_engine es)) (s_gpu_engines s))"
  by (simp_all add: encode_process_columns_def columns_unset_def Let_def)

lemma sample_roundtrip:
  assumes "machine_ok (s_machine s)" "s_columns s GpuEngines = None" "ms_processes (s_wanted s) \<noteq> {}"
  shows "decode_sample (encode_process_columns s) (encode_machine_sample s) wanted =
    Inr (s\<lparr>s_period := period wanted, s_wanted := wanted\<rparr>)"
  using assms(3) columns_got [OF assms(3,2)] machine_groups_roundtrip [OF assms(1)] by (simp add: decode_sample_def)

lemma samples_arrive:
  assumes "decode_metric_spec (encode_metric_spec spec) = Inr asked"
    "machine_ok (s_machine taken)" "s_columns taken GpuEngines = None"
  defines "sent \<equiv> sample_project taken asked"
  shows "decode_sample (encode_process_columns sent) (encode_machine_sample sent) spec =
    Inr ((sample_project taken spec)\<lparr>s_period := period spec\<rparr>)"
proof -
  note asked = spec_survives_wire [OF assms(1)]
  have ok: "machine_ok (s_machine sent)" "s_columns sent GpuEngines = None"
    using machine_ok_project [OF assms(2)] assms(3)
    by (simp_all add: sent_def sample_project_def columns_project_def Let_def)
  show ?thesis
  proof (cases "ms_processes spec = {}")
    case True
    then have none: "ms_processes (s_wanted sent) = {}" by (simp add: sent_def sample_project_def asked Let_def)
    have "(sample_project taken spec)\<lparr>s_period := period spec\<rparr> =
        sent\<lparr>s_period := period spec, s_wanted := spec, s_columns := no_columns, s_gpu_engines := None\<rparr>"
      "s_pids sent = []" "s_sequence_numbers sent = []"
      using True by (simp_all add: sent_def sample_project_def asked Let_def columns_project_def kept_if_def no_columns_def)
    then show ?thesis
      using none no_columns_got [OF none] machine_groups_roundtrip [OF ok(1)] by (simp add: decode_sample_def)
  next
    case False
    then have "ms_processes (s_wanted sent) \<noteq> {}" by (simp add: sent_def sample_project_def asked Let_def)
    from sample_roundtrip [OF ok this, of spec] show ?thesis
      unfolding sent_def by (simp add: sample_project_def Let_def asked)
  qed
qed

end
