(* ===== verification/Wire_Events.thy ===== *)
theory Wire_Events
  imports Wire_Enums History
begin

text \<open>
  A batch of process events on the wire: \<^verbatim>\<open>process_event_batch\<close> of
  \<^verbatim>\<open>src/wire/encode.rs\<close> and of \<^verbatim>\<open>src/wire/decode.rs\<close>.
\<close>

record wire_process_started =
  wes_parent_pid :: u32
  wes_parent_sequence_number :: u64
  wes_session_id :: u32
  wes_image_path :: wire_text
  wes_command_line :: wire_text
  wes_user :: wire_text
  wes_elevated :: "wire_toggle option"
  wes_package_full_name :: wire_text
  wes_working_directory :: wire_text
  wes_scheduled_task :: wire_text
  wes_parent_services :: "wire_text list read"

record wire_process_exited =
  wex_exit_code :: u32
  wex_cpu_cycles :: u64
  wex_io_read_ops :: u64
  wex_io_write_ops :: u64
  wex_io_read_bytes :: u64
  wex_io_write_bytes :: u64
  wex_peak_commit :: u64
  wex_handles :: u32
  wex_hard_faults :: u32
  wex_image_path :: wire_text
  wex_image_name :: wire_text
  wex_start_time :: u64

datatype wire_event_kind = WStarted "wire_process_started read" | WExited "wire_process_exited read"

text \<open>The kind is a union; None is one this build does not know.\<close>
record wire_process_event =
  wev_pid :: u32
  wev_sequence_number :: u64
  wev_time :: u64
  wev_kind :: "wire_event_kind option"

record wire_event_batch =
  web_history_from :: u64
  web_events :: "wire_process_event list read"
  web_lost :: u32

definition encode_started :: "process_started \<Rightarrow> wire_process_started" where
  "encode_started s =
    \<lparr>wes_parent_pid = st_parent_pid s, wes_parent_sequence_number = st_parent_sequence_number s,
     wes_session_id = st_session_id s, wes_image_path = sent_text (st_image_path s),
     wes_command_line = sent_text (st_command_line s), wes_user = sent_text (st_user s),
     wes_elevated = Some (encode_toggle (st_elevated s)),
     wes_package_full_name = sent_text (st_package_full_name s),
     wes_working_directory = sent_text (st_working_directory s),
     wes_scheduled_task = sent_text (st_scheduled_task s),
     wes_parent_services = Inr (map sent_text (st_parent_services s))\<rparr>"

definition encode_exited :: "process_exited \<Rightarrow> wire_process_exited" where
  "encode_exited x =
    \<lparr>wex_exit_code = ex_exit_code x, wex_cpu_cycles = ex_cpu_cycles x, wex_io_read_ops = ex_io_read_ops x,
     wex_io_write_ops = ex_io_write_ops x, wex_io_read_bytes = ex_io_read_bytes x,
     wex_io_write_bytes = ex_io_write_bytes x, wex_peak_commit = ex_peak_commit x,
     wex_handles = ex_handles x, wex_hard_faults = ex_hard_faults x,
     wex_image_path = sent_text (ex_image_path x), wex_image_name = sent_text (ex_image_name x),
     wex_start_time = ex_start_time x\<rparr>"

definition encode_event :: "process_event \<Rightarrow> wire_process_event" where
  "encode_event e =
    \<lparr>wev_pid = ev_pid e, wev_sequence_number = ev_sequence_number e, wev_time = ev_time e,
     wev_kind = Some (case ev_kind e of
         Started s \<Rightarrow> WStarted (Inr (encode_started s))
       | Exited x \<Rightarrow> WExited (Inr (encode_exited x)))\<rparr>"

definition encode_event_batch :: "process_event_batch \<Rightarrow> wire_event_batch" where
  "encode_event_batch batch =
    \<lparr>web_history_from = eb_history_from batch, web_events = Inr (map encode_event (eb_events batch)),
     web_lost = eb_lost batch\<rparr>"

definition decode_started :: "wire_process_started \<Rightarrow> process_started read" where
  "decode_started s =
    and_then (read_text (wes_image_path s)) (\<lambda>image_path.
    and_then (read_text (wes_command_line s)) (\<lambda>command_line.
    and_then (read_text (wes_user s)) (\<lambda>user.
    and_then (read_text (wes_package_full_name s)) (\<lambda>package_full_name.
    and_then (read_text (wes_working_directory s)) (\<lambda>working_directory.
    and_then (read_text (wes_scheduled_task s)) (\<lambda>scheduled_task.
    and_then (wes_parent_services s) (\<lambda>names.
    and_then (read_all read_text names) (\<lambda>parent_services.
      Inr \<lparr>st_parent_pid = wes_parent_pid s, st_parent_sequence_number = wes_parent_sequence_number s,
           st_session_id = wes_session_id s, st_image_path = image_path, st_command_line = command_line,
           st_user = user, st_elevated = decode_toggle (wes_elevated s),
           st_package_full_name = package_full_name, st_working_directory = working_directory,
           st_scheduled_task = scheduled_task, st_parent_services = parent_services\<rparr>))))))))"

definition decode_exited :: "wire_process_exited \<Rightarrow> process_exited read" where
  "decode_exited x =
    and_then (read_text (wex_image_path x)) (\<lambda>image_path.
    and_then (read_text (wex_image_name x)) (\<lambda>image_name.
      Inr \<lparr>ex_image_path = image_path, ex_image_name = image_name, ex_start_time = wex_start_time x,
           ex_exit_code = wex_exit_code x, ex_cpu_cycles = wex_cpu_cycles x,
           ex_io_read_ops = wex_io_read_ops x, ex_io_write_ops = wex_io_write_ops x,
           ex_io_read_bytes = wex_io_read_bytes x, ex_io_write_bytes = wex_io_write_bytes x,
           ex_peak_commit = wex_peak_commit x, ex_handles = wex_handles x,
           ex_hard_faults = wex_hard_faults x\<rparr>))"

definition decode_event :: "wire_process_event \<Rightarrow> process_event read" where
  "decode_event e =
    and_then
      (case wev_kind e of
         None \<Rightarrow> Inl (Malformed ''not in schema'')
       | Some (WStarted s) \<Rightarrow> and_then s (\<lambda>s. and_then (decode_started s) (\<lambda>s. Inr (Started s)))
       | Some (WExited x) \<Rightarrow> and_then x (\<lambda>x. and_then (decode_exited x) (\<lambda>x. Inr (Exited x))))
      (\<lambda>kind. Inr \<lparr>ev_pid = wev_pid e, ev_sequence_number = wev_sequence_number e, ev_time = wev_time e,
         ev_kind = kind\<rparr>)"

definition decode_event_batch :: "wire_event_batch \<Rightarrow> process_event_batch read" where
  "decode_event_batch batch =
    and_then (web_events batch) (\<lambda>events.
    and_then (read_all decode_event events) (\<lambda>events.
      Inr \<lparr>eb_history_from = web_history_from batch, eb_events = events, eb_lost = web_lost batch\<rparr>))"

lemma event_roundtrip [simp]: "decode_event (encode_event e) = Inr e"
  by (cases "ev_kind e")
    (simp_all add: decode_event_def encode_event_def decode_started_def encode_started_def
      decode_exited_def encode_exited_def read_all_map)

lemma event_batch_roundtrip [simp]: "decode_event_batch (encode_event_batch batch) = Inr batch"
  by (simp add: decode_event_batch_def encode_event_batch_def read_all_map)

end
