(* ===== verification/Rpc.thy ===== *)
theory Rpc
  imports Wire_Sample Wire_Events
begin

text \<open>
  \<^verbatim>\<open>crates/rpc\<close>: what the agent service answers on its pipe. A session is a count
  of what it holds; a call of the client is the method with its parameters as
  they were read; \<^verbatim>\<open>Local::run\<close>, which does the command, is a parameter. The
  cells the handlers share are the states the operations take and return.
\<close>

section \<open>What a session may hold\<close>

definition MAX_HELD :: nat where
  "MAX_HELD = 256"

datatype rpc_error = Overloaded | Failed capnp_error

definition hold_take :: "nat \<Rightarrow> (rpc_error + unit) \<times> nat" where
  "hold_take n = (if n \<ge> MAX_HELD then (Inl Overloaded, n) else (Inr (), n + 1))"

definition hold_drop :: "nat \<Rightarrow> nat" where
  "hold_drop n = n - 1"

text \<open>A session's holds as calls take them and handles are dropped; each hold is dropped once.\<close>
inductive holds_reach :: "nat \<Rightarrow> nat \<Rightarrow> bool" where
  holds_new: "holds_reach 0 0"
| holds_take: "holds_reach n handles \<Longrightarrow> hold_take n = (Inr (), n') \<Longrightarrow> holds_reach n' (handles + 1)"
| holds_refuse: "holds_reach n handles \<Longrightarrow> hold_take n = (Inl e, n') \<Longrightarrow> holds_reach n' handles"
| holds_drop: "holds_reach n (handles + 1) \<Longrightarrow> holds_reach (hold_drop n) handles"

section \<open>Sessions of the service\<close>

definition MAX_SESSIONS :: nat where
  "MAX_SESSIONS = 16"

text \<open>The sessions attached, and whether the agent was told that some are.\<close>
record serving =
  srv_attached :: nat
  srv_agent_attached :: bool

definition serving_new :: serving where
  "serving_new = \<lparr>srv_attached = 0, srv_agent_attached = False\<rparr>"

definition session_accepted :: "serving \<Rightarrow> bool \<times> serving" where
  "session_accepted s =
    (if srv_attached s \<ge> MAX_SESSIONS then (False, s)
     else (True, s\<lparr>srv_attached := srv_attached s + 1, srv_agent_attached := True\<rparr>))"

definition session_ended :: "serving \<Rightarrow> serving" where
  "session_ended s =
    (let s = s\<lparr>srv_attached := srv_attached s - 1\<rparr>
     in if srv_attached s = 0 then s\<lparr>srv_agent_attached := False\<rparr> else s)"

text \<open>The clients that come and the sessions that end, whose number is \<open>sessions\<close>.\<close>
inductive serving_reach :: "serving \<Rightarrow> nat \<Rightarrow> bool" where
  serving_starts: "serving_reach serving_new 0"
| serving_takes: "serving_reach s sessions \<Longrightarrow> session_accepted s = (True, s') \<Longrightarrow> serving_reach s' (sessions + 1)"
| serving_lets_go: "serving_reach s sessions \<Longrightarrow> session_accepted s = (False, s') \<Longrightarrow> serving_reach s' sessions"
| serving_ends: "serving_reach s (sessions + 1) \<Longrightarrow> serving_reach (session_ended s) sessions"

lemma holds_reach_count: "holds_reach n handles \<Longrightarrow> n = handles \<and> n \<le> MAX_HELD"
  by (induction rule: holds_reach.induct) (auto simp: hold_take_def hold_drop_def split: if_splits)

lemma serving_reach_count:
  "serving_reach s sessions \<Longrightarrow>
    srv_attached s = sessions \<and> sessions \<le> MAX_SESSIONS \<and> srv_agent_attached s = (sessions > 0)"
  by (induction rule: serving_reach.induct)
    (auto simp: serving_new_def session_accepted_def session_ended_def MAX_SESSIONS_def Let_def split: if_splits)

text \<open>
  The service never has more than its bounds open: a session holds as many
  samplers and watches as have handles out, and a call is refused exactly when
  there are 256; there are as many sessions as are attached, at most 16, and the
  agent is told someone is attached exactly while one is.
\<close>
theorem the_service_is_bounded:
  assumes "holds_reach n handles" "serving_reach s sessions"
  shows "n = handles \<and> handles \<le> 256 \<and> (fst (hold_take n) = Inl Overloaded \<longleftrightarrow> handles = 256) \<and>
    srv_attached s = sessions \<and> sessions \<le> 16 \<and> (srv_agent_attached s \<longleftrightarrow> sessions > 0) \<and>
    (fst (session_accepted s) \<longleftrightarrow> sessions < 16)"
  using holds_reach_count [OF assms(1)] serving_reach_count [OF assms(2)]
  by (auto simp: hold_take_def session_accepted_def MAX_HELD_def MAX_SESSIONS_def)

lemma the_service_is_bounded_witness:
  "fst (hold_take 1) = Inr () \<and> srv_agent_attached (snd (session_accepted serving_new)) \<and>
    \<not> srv_agent_attached (session_ended (snd (session_accepted serving_new)))"
proof -
  have h: "holds_reach 1 1"
    using holds_take [OF holds_new, of 1] by (simp add: hold_take_def MAX_HELD_def)
  have s: "serving_reach (snd (session_accepted serving_new)) 1"
    using serving_takes [OF serving_starts, of "snd (session_accepted serving_new)"]
    by (simp add: session_accepted_def serving_new_def MAX_SESSIONS_def)
  have e: "serving_reach (session_ended (snd (session_accepted serving_new))) 0"
    using serving_ends [of _ 0] s by simp
  show ?thesis
    using the_service_is_bounded [OF h s] the_service_is_bounded [OF h e]
    by (cases "fst (hold_take 1)") (simp_all add: hold_take_def MAX_HELD_def)
qed

section \<open>Answers\<close>

datatype response_status = ResponseOk | ResponseNotModified

record response_meta =
  rm_etag :: u64
  rm_status :: "response_status option"

definition unconditional :: response_meta where
  "unconditional = \<lparr>rm_etag = 0, rm_status = Some ResponseOk\<rparr>"

text \<open>The meta, and whether the payload goes with it.\<close>
definition conditional :: "u64 \<Rightarrow> u64 \<Rightarrow> response_meta \<times> bool" where
  "conditional if_none_match etag =
    (if if_none_match \<noteq> 0 \<and> if_none_match = etag
     then (\<lparr>rm_etag = etag, rm_status = Some ResponseNotModified\<rparr>, False)
     else (\<lparr>rm_etag = etag, rm_status = Some ResponseOk\<rparr>, True))"

text \<open>A list that was not filled in is empty.\<close>
record 'p response =
  re_meta :: "response_meta read"
  re_payload :: 'p

definition get_services :: "snapshot \<Rightarrow> u64 \<Rightarrow> wire_service_stats list read response" where
  "get_services agent if_none_match =
    (let (meta, filled) = conditional if_none_match (tg_etag (sn_services agent))
     in \<lparr>re_meta = Inr meta,
         re_payload = Inr (if filled then encode_services (tg_value (sn_services agent)) else [])\<rparr>)"

definition get_processes :: "snapshot \<Rightarrow> u64 \<Rightarrow> wire_process_info list read response" where
  "get_processes agent if_none_match =
    (let (meta, filled) = conditional if_none_match (tg_etag (sn_processes agent))
     in \<lparr>re_meta = Inr meta,
         re_payload = Inr (if filled then encode_processes (tg_value (sn_processes agent)) else [])\<rparr>)"

text \<open>The etag of the passports and the states.\<close>
definition get_process_states :: "snapshot \<Rightarrow> u64 \<Rightarrow> (u64 \<times> wire_process_state list read) response" where
  "get_process_states agent if_none_match =
    (let (meta, filled) = conditional if_none_match (tg_etag (sn_states agent));
         out = encode_process_states (tg_value (sn_states agent))
     in \<lparr>re_meta = Inr meta,
         re_payload = (if filled then (wpst_passport_etag out, Inr (wpst_states out)) else (0, Inr []))\<rparr>)"

text \<open>\<^verbatim>\<open>SamplerImpl::sample\<close>: an older peer is spared columns with gaps.\<close>
definition answer_sample :: "bool \<Rightarrow> sample \<Rightarrow> response_meta \<times> wire_process_columns \<times> wire_machine_sample" where
  "answer_sample gaps s =
    (let s = (if \<not> gaps then s\<lparr>s_columns := without_gaps (s_columns s)\<rparr> else s)
     in (\<lparr>rm_etag = s_snapshot s, rm_status = Some ResponseOk\<rparr>, encode_process_columns s, encode_machine_sample s))"

lemma answered_sample:
  assumes "decode_metric_spec (encode_metric_spec spec) = Inr asked"
    "machine_ok (s_machine taken)" "s_columns taken GpuEngines = None"
    and "given = (if gaps then taken else taken\<lparr>s_columns := without_gaps (s_columns taken)\<rparr>)"
  shows "answer_sample gaps (sample_project taken asked) =
      (\<lparr>rm_etag = s_snapshot taken, rm_status = Some ResponseOk\<rparr>, encode_process_columns (sample_project given asked),
       encode_machine_sample (sample_project given asked)) \<and>
    decode_sample (encode_process_columns (sample_project given asked)) (encode_machine_sample (sample_project given asked)) spec =
      Inr ((sample_project given spec)\<lparr>s_period := period spec\<rparr>)"
proof
  show "answer_sample gaps (sample_project taken asked) =
      (\<lparr>rm_etag = s_snapshot taken, rm_status = Some ResponseOk\<rparr>, encode_process_columns (sample_project given asked),
       encode_machine_sample (sample_project given asked))"
  proof -
    have "(sample_project taken asked)\<lparr>s_columns := without_gaps (s_columns (sample_project taken asked))\<rparr> =
        sample_project (taken\<lparr>s_columns := without_gaps (s_columns taken)\<rparr>) asked"
      by (cases taken) (simp add: sample_project_def without_gaps_project Let_def)
    then have "(if \<not> gaps then (sample_project taken asked)\<lparr>s_columns := without_gaps (s_columns (sample_project taken asked))\<rparr>
        else sample_project taken asked) = sample_project given asked"
      by (simp add: assms(4))
    moreover have "s_snapshot (sample_project given asked) = s_snapshot taken" by (simp add: assms(4) sample_project_def Let_def)
    ultimately show ?thesis by (simp add: answer_sample_def Let_def)
  qed
  have "machine_ok (s_machine given)" "s_columns given GpuEngines = None"
    using assms(2,3) by (simp_all add: assms(4) without_gaps_def)
  then show "decode_sample (encode_process_columns (sample_project given asked))
      (encode_machine_sample (sample_project given asked)) spec = Inr ((sample_project given spec)\<lparr>s_period := period spec\<rparr>)"
    by (rule samples_arrive [OF assms(1)])
qed

text \<open>
  C19 A subscriber over the pipe gets what it asked for: whatever spec it sent and for
  whatever more the sample was taken, the sample it reads has the columns, the engines and
  the groups of its spec, each with the values taken, and no others, under the moment and
  the number of the sample; its period is the one the subscriber asked for. A peer that is
  too old for gaps gets the same without the columns that have any. The values a machine's
  group may hold are those the wire tells apart from none at all.
\<close>
theorem samples_survive_the_wire:
  assumes "decode_metric_spec (encode_metric_spec spec) = Inr asked"
    "machine_ok (s_machine taken)" "s_columns taken GpuEngines = None"
  shows "\<exists>meta p m. answer_sample gaps (sample_project taken asked) = (meta, p, m) \<and> rm_etag meta = s_snapshot taken \<and>
    decode_sample p m spec =
      Inr ((sample_project (if gaps then taken else taken\<lparr>s_columns := without_gaps (s_columns taken)\<rparr>) spec)
        \<lparr>s_period := period spec\<rparr>)"
  using answered_sample [OF assms refl, of gaps] by (intro exI conjI) (erule conjunct1, simp, erule conjunct2)

text \<open>A sample whose working sets have a gap, asked for by a peer that reads gaps and by one that does not.\<close>
definition gap_sample :: sample where
  "gap_sample = half_second_sample\<lparr>s_pids := [4], s_sequence_numbers := [7],
     s_columns := no_columns(Handles := Some (C32 [9]), WorkingSet := Some (C64 [NO_DATA_U64])),
     s_machine := machine_sample_default\<lparr>m_memory :=
       Some \<lparr>mem_total_physical = 4, mem_available_physical = 3, mem_commit_limit = 2, mem_committed = 1\<rparr>\<rparr>\<rparr>"

definition gap_spec :: metric_spec where
  "gap_spec = \<lparr>ms_interval = millis 500, ms_processes = {Handles, WorkingSet}, ms_machine = {M_Memory}\<rparr>"

lemma samples_survive_the_wire_witness:
  "\<exists>asked meta p m taken. answer_sample False (sample_project gap_sample asked) = (meta, p, m) \<and>
    decode_sample p m gap_spec = Inr taken \<and> s_columns taken Handles = Some (C32 [9]) \<and> s_columns taken WorkingSet = None \<and>
    m_memory (s_machine taken) = m_memory (s_machine gap_sample)"
proof -
  have arrives: "decode_metric_spec (encode_metric_spec gap_spec) = Inr gap_spec"
    by (simp add: spec_arrives gap_spec_def)
  have ok: "machine_ok (s_machine gap_sample)" "s_columns gap_sample GpuEngines = None"
    by (simp_all add: gap_sample_def machine_ok_def machine_sample_default_def no_columns_def)
  obtain meta p m where "answer_sample False (sample_project gap_sample gap_spec) = (meta, p, m)"
      "decode_sample p m gap_spec =
        Inr ((sample_project (gap_sample\<lparr>s_columns := without_gaps (s_columns gap_sample)\<rparr>) gap_spec)\<lparr>s_period := period gap_spec\<rparr>)"
    using samples_survive_the_wire [OF arrives ok, of False] by auto
  moreover have "s_columns (sample_project (gap_sample\<lparr>s_columns := without_gaps (s_columns gap_sample)\<rparr>) gap_spec) Handles = Some (C32 [9])"
    "s_columns (sample_project (gap_sample\<lparr>s_columns := without_gaps (s_columns gap_sample)\<rparr>) gap_spec) WorkingSet = None"
    "m_memory (s_machine (sample_project (gap_sample\<lparr>s_columns := without_gaps (s_columns gap_sample)\<rparr>) gap_spec)) =
      m_memory (s_machine gap_sample)"
    by (simp_all add: gap_sample_def gap_spec_def sample_project_def columns_project_def without_gaps_def has_gaps_def
        NO_DATA_U32_def machine_project_def kept_if_def Let_def)
  ultimately show ?thesis by (intro exI [of _ gap_spec] exI [of _ meta] exI [of _ p] exI [of _ m]) simp
qed

section \<open>Commands\<close>

text \<open>The calls of the pipe that run a command.\<close>
datatype rpc_call =
  CallKill u32 | CallSuspend u32 | CallResume u32 | CallSetPriority u32 "wire_priority option"
| CallSetAffinity u32 u64 | CallServiceStart wire_text | CallServiceStop wire_text
| CallServicePause wire_text | CallServiceResume wire_text | CallServiceRestart wire_text

definition ERROR_INVALID_PARAMETER :: u32 where
  "ERROR_INVALID_PARAMETER = 87"

definition code :: "command_result \<Rightarrow> u32" where
  "code outcome = (case outcome of Inl e \<Rightarrow> e | Inr () \<Rightarrow> 0)"

text \<open>A command that panicked fails the call.\<close>
definition run_command :: "(command \<Rightarrow> command_result read) \<Rightarrow> command \<Rightarrow> u32 read" where
  "run_command run c = and_then (run c) (\<lambda>outcome. Inr (code outcome))"

text \<open>\<^verbatim>\<open>service_method!\<close>\<close>
definition service_method :: "(command \<Rightarrow> command_result read) \<Rightarrow> (string \<Rightarrow> command) \<Rightarrow> wire_text \<Rightarrow> u32 read" where
  "service_method run c text_in = and_then (read_text text_in) (\<lambda>name. run_command run (c name))"

fun handle_call :: "(command \<Rightarrow> command_result read) \<Rightarrow> rpc_call \<Rightarrow> u32 read" where
  "handle_call run (CallKill pid) = run_command run (Kill pid)"
| "handle_call run (CallSuspend pid) = run_command run (Suspend pid)"
| "handle_call run (CallResume pid) = run_command run (Resume pid)"
| "handle_call run (CallSetPriority pid priority) =
    (case decode_priority priority of
       Some priority \<Rightarrow> run_command run (SetPriority pid priority)
     | None \<Rightarrow> Inr (code (Inl ERROR_INVALID_PARAMETER)))"
| "handle_call run (CallSetAffinity pid affinity) = run_command run (SetAffinity pid affinity)"
| "handle_call run (CallServiceStart name) = service_method run ServiceStart name"
| "handle_call run (CallServiceStop name) = service_method run ServiceStop name"
| "handle_call run (CallServicePause name) = service_method run ServicePause name"
| "handle_call run (CallServiceResume name) = service_method run ServiceResume name"
| "handle_call run (CallServiceRestart name) = service_method run ServiceRestart name"

end
