(* ===== verification/Remote.thy ===== *)
theory Remote
  imports Rpc
begin

text \<open>
  \<^verbatim>\<open>src/remote/mod.rs\<close>, the client's end of the pipe, and the watch of
  \<^verbatim>\<open>crates/rpc/src/handler.rs\<close> it listens to: what a session keeps of the lists it
  read, how it joins them into one picture, what a listener makes of each update
  pushed to it, and the commands. A call is answered by whatever lists the agent
  has by then; the timeouts and the tasks of the runtime are left out.
\<close>

section \<open>What a session holds of the lists\<close>

record remote_cache =
  rc_services :: "service_stats list tagged option"
  rc_processes :: "process_info list tagged option"
  rc_states :: "process_states tagged option"

definition cache_new :: remote_cache where
  "cache_new = \<lparr>rc_services = None, rc_processes = None, rc_states = None\<rparr>"

definition etag_of :: "'v tagged option \<Rightarrow> u64" where
  "etag_of h = (case h of None \<Rightarrow> 0 | Some t \<Rightarrow> tg_etag t)"

definition not_modified :: "response_meta \<Rightarrow> bool read" where
  "not_modified meta =
    (case rm_status meta of
       Some ResponseOk \<Rightarrow> Inr False
     | Some ResponseNotModified \<Rightarrow> Inr True
     | None \<Rightarrow> Inl (Malformed ''the agent answered with a status this client does not know''))"

definition keep_processes :: "wire_process_info list read response \<Rightarrow> remote_cache \<Rightarrow> remote_cache read" where
  "keep_processes reply cache =
    and_then (re_meta reply) (\<lambda>meta. and_then (not_modified meta) (\<lambda>same.
      if same then Inr cache
      else and_then (re_payload reply) (\<lambda>rows. and_then (decode_processes rows) (\<lambda>list.
        Inr (cache\<lparr>rc_processes := Some \<lparr>tg_etag = rm_etag meta, tg_value = list\<rparr>\<rparr>)))))"

definition keep_services :: "wire_service_stats list read response \<Rightarrow> remote_cache \<Rightarrow> remote_cache read" where
  "keep_services reply cache =
    and_then (re_meta reply) (\<lambda>meta. and_then (not_modified meta) (\<lambda>same.
      if same then Inr cache
      else and_then (re_payload reply) (\<lambda>rows. and_then (decode_services rows) (\<lambda>list.
        Inr (cache\<lparr>rc_services := Some \<lparr>tg_etag = rm_etag meta, tg_value = list\<rparr>\<rparr>)))))"

definition keep_states :: "(u64 \<times> wire_process_state list read) response \<Rightarrow> remote_cache \<Rightarrow> remote_cache read" where
  "keep_states reply cache =
    and_then (re_meta reply) (\<lambda>meta. and_then (not_modified meta) (\<lambda>same.
      if same then Inr cache
      else (let (passport_etag, rows) = re_payload reply
            in and_then rows (\<lambda>rows.
              Inr (cache\<lparr>rc_states := Some \<lparr>tg_etag = rm_etag meta,
                tg_value = \<lparr>pst_passport_etag = passport_etag, pst_states = decode_process_states rows\<rparr>\<rparr>\<rparr>)))))"

definition joined :: "remote_cache \<Rightarrow> u64 option" where
  "joined cache =
    (case rc_states cache of
       None \<Rightarrow> None
     | Some states \<Rightarrow>
         if etag_of (rc_processes cache) = pst_passport_etag (tg_value states)
         then Some (pst_passport_etag (tg_value states)) else None)"

definition JOIN_ATTEMPTS :: nat where
  "JOIN_ATTEMPTS = 3"

text \<open>
  The attempts to join, of which \<open>n\<close> are left; \<open>agent k\<close> are the lists of the agent
  when the \<open>k\<close>-th call of the session reaches it.
\<close>
fun join_lists :: "nat \<Rightarrow> nat \<Rightarrow> (nat \<Rightarrow> snapshot) \<Rightarrow> remote_cache \<Rightarrow> remote_cache read" where
  "join_lists 0 k agent cache = Inr cache"
| "join_lists (Suc n) k agent cache =
    (if joined cache \<noteq> None then Inr cache
     else and_then (keep_processes (get_processes (agent k) (etag_of (rc_processes cache))) cache) (\<lambda>cache.
       if joined cache \<noteq> None then Inr cache
       else and_then (keep_states (get_process_states (agent (k + 1)) (etag_of (rc_states cache))) cache) (\<lambda>cache.
         join_lists n (k + 2) agent cache)))"

text \<open>\<^verbatim>\<open>Session::snapshot\<close>\<close>
definition remote_snapshot :: "(nat \<Rightarrow> snapshot) \<Rightarrow> remote_cache \<Rightarrow> (snapshot option \<times> remote_cache) read" where
  "remote_snapshot agent cache =
    (let services = get_services (agent 0) (etag_of (rc_services cache));
         processes = get_processes (agent 1) (etag_of (rc_processes cache));
         states = get_process_states (agent 2) (etag_of (rc_states cache))
     in and_then (keep_services services cache) (\<lambda>cache.
        and_then (keep_processes processes cache) (\<lambda>cache.
        and_then (keep_states states cache) (\<lambda>cache.
        and_then (join_lists JOIN_ATTEMPTS 3 agent cache) (\<lambda>cache.
          Inr (if joined cache = None then None
               else (case (rc_services cache, rc_processes cache, rc_states cache) of
                       (Some services, Some processes, Some states) \<Rightarrow>
                         Some \<lparr>sn_services = services, sn_processes = processes, sn_states = states\<rparr>
                     | _ \<Rightarrow> None), cache))))))"

section \<open>The listener of a watch\<close>

text \<open>What \<^verbatim>\<open>update\<close> fills in: the lists and the sample.\<close>
record wire_update =
  wu_lists :: "lists_update read"
  wu_processes :: "wire_process_columns read"
  wu_machine :: "wire_machine_sample read"

definition encode_update :: "blanks \<Rightarrow> update \<Rightarrow> snapshot option \<Rightarrow> wire_update" where
  "encode_update blanks upd before =
    \<lparr>wu_lists = Inr (encode_lists blanks upd before),
     wu_processes = Inr (encode_process_columns (up_sample upd)),
     wu_machine = Inr (encode_machine_sample (up_sample upd))\<rparr>"

definition update_sample :: "metric_spec \<Rightarrow> wire_update \<Rightarrow> sample read" where
  "update_sample spec w =
    and_then (wu_processes w) (\<lambda>p. and_then (wu_machine w) (\<lambda>m. decode_sample p m spec))"

text \<open>The lists the listener holds change only when the whole update was read.\<close>
definition listener_decode ::
    "metric_spec \<Rightarrow> wire_update \<Rightarrow> snapshot option \<Rightarrow> (update option \<times> snapshot option) read" where
  "listener_decode spec w own =
    and_then (wu_lists w) (\<lambda>form. and_then (decode_lists own form) (\<lambda>decoded.
      case decoded of
        None \<Rightarrow> Inr (None, own)
      | Some (snap, changes) \<Rightarrow>
          and_then (update_sample spec w) (\<lambda>taken.
            Inr (Some \<lparr>up_snapshot = snap, up_sample = taken, up_changes = changes\<rparr>, Some snap))))"

text \<open>\<open>fresh\<close> is what \<^verbatim>\<open>Session::snapshot\<close> gives by then.\<close>
definition listener_resync ::
    "metric_spec \<Rightarrow> wire_update \<Rightarrow> snapshot option read \<Rightarrow> snapshot option \<Rightarrow> update read \<times> snapshot option" where
  "listener_resync spec w fresh own =
    (case update_sample spec w of
       Inl e \<Rightarrow> (Inl e, own)
     | Inr taken \<Rightarrow>
         (case fresh of
            Inl e \<Rightarrow> (Inl e, own)
          | Inr None \<Rightarrow> (Inl (Malformed ''the lists kept changing while they were read afresh''), own)
          | Inr (Some snap) \<Rightarrow>
              (Inr \<lparr>up_snapshot = snap, up_sample = taken, up_changes = changes_default\<lparr>ch_full := True\<rparr>\<rparr>,
               Some snap)))"

text \<open>\<^verbatim>\<open>ListenerImpl::update\<close>: what it hands to the watch's reader, which is also its answer.\<close>
definition listener_update ::
    "metric_spec \<Rightarrow> snapshot option read \<Rightarrow> wire_update \<Rightarrow> snapshot option \<Rightarrow> update read \<times> snapshot option" where
  "listener_update spec fresh w own =
    (case listener_decode spec w own of
       Inr (Some upd, own) \<Rightarrow> (Inr upd, own)
     | Inr (None, own) \<Rightarrow> listener_resync spec w fresh own
     | Inl e \<Rightarrow> (Inl e, own))"

text \<open>
  \<^verbatim>\<open>push\<close>: every update of a watch, each against the lists of the one before, until
  the listener fails one. The list is what the watch's reader takes.
\<close>
fun push_all ::
    "blanks \<Rightarrow> metric_spec \<Rightarrow> snapshot option read \<Rightarrow> update list \<Rightarrow> snapshot option \<Rightarrow> snapshot option \<Rightarrow> update read list" where
  "push_all blanks spec fresh [] before own = []"
| "push_all blanks spec fresh (u # us) before own =
    (case listener_update spec fresh (encode_update blanks u before) own of
       (Inl e, own) \<Rightarrow> [Inl e]
     | (Inr upd, own) \<Rightarrow> Inr upd # push_all blanks spec fresh us (Some (up_snapshot u)) own)"

text \<open>The updates of a \<^verbatim>\<open>LocalWatch\<close> for the snapshots its sampler is delivered.\<close>
fun watch_all :: "metric_spec \<Rightarrow> published list \<Rightarrow> published option \<Rightarrow> update list" where
  "watch_all spec [] seen = []"
| "watch_all spec (p # ps) seen =
    (let (upd, seen) = watch_next spec p seen in upd # watch_all spec ps seen)"

section \<open>Commands and pings\<close>

definition call_of :: "command \<Rightarrow> rpc_call" where
  "call_of c =
    (case c of
       Kill pid \<Rightarrow> CallKill pid
     | Suspend pid \<Rightarrow> CallSuspend pid
     | Resume pid \<Rightarrow> CallResume pid
     | SetPriority pid priority \<Rightarrow> CallSetPriority pid (Some (encode_priority priority))
     | SetAffinity pid affinity \<Rightarrow> CallSetAffinity pid affinity
     | ServiceStart name \<Rightarrow> CallServiceStart (sent_text name)
     | ServiceStop name \<Rightarrow> CallServiceStop (sent_text name)
     | ServicePause name \<Rightarrow> CallServicePause (sent_text name)
     | ServiceResume name \<Rightarrow> CallServiceResume (sent_text name)
     | ServiceRestart name \<Rightarrow> CallServiceRestart (sent_text name))"

text \<open>\<^verbatim>\<open>Session::run\<close>; \<open>call\<close> is how the agent answers.\<close>
definition remote_run :: "(rpc_call \<Rightarrow> u32 read) \<Rightarrow> command \<Rightarrow> command_result read" where
  "remote_run call c = and_then (call (call_of c)) (\<lambda>n. Inr (if n = 0 then Inr () else Inl n))"

text \<open>\<^verbatim>\<open>Session::ping\<close>; the nonce wraps.\<close>
definition remote_ping :: "(u64 \<Rightarrow> u64 read) \<Rightarrow> u64 \<Rightarrow> unit read \<times> u64" where
  "remote_ping call nonce =
    (let nonce = nonce + 1
     in (and_then (call nonce) (\<lambda>echoed.
           if echoed \<noteq> nonce then Inl (Malformed ''the agent echoed another nonce'') else Inr ()), nonce))"

section \<open>Commands do what was asked\<close>

text \<open>
  A command given at one end of the pipe is run at the other: the agent runs
  the very command, a failure to run it fails the call, and its outcome is the
  one the client is told (an error of code 0, which Windows does not give, apart).
\<close>
theorem commands_run_as_given:
  "remote_run (handle_call run) c =
    and_then (run c) (\<lambda>outcome. Inr (if outcome = Inl 0 then Inr () else outcome))"
proof -
  have told: "(if code outcome = 0 then Inr () else Inl (code outcome)) =
      (if outcome = Inl 0 then Inr () else outcome)" for outcome
    by (cases outcome) (simp_all add: code_def split: unit.split)
  have code: "and_then (run_command run c) (\<lambda>n. Inr (if n = 0 then Inr () else Inl n)) =
      and_then (run c) (\<lambda>outcome. Inr (if outcome = Inl 0 then Inr () else outcome))"
    unfolding run_command_def by (cases "run c") (simp_all add: told)
  have call: "handle_call run (call_of c) = run_command run c"
    by (cases c) (simp_all add: call_of_def service_method_def)
  show ?thesis unfolding remote_run_def call by (rule code)
qed

section \<open>A snapshot is of one moment\<close>

text \<open>The lists the agent ever had: an etag tells their content, and the states name the etag
  of the processes they are of.\<close>
definition agent_lists :: "snapshot set \<Rightarrow> bool" where
  "agent_lists A \<longleftrightarrow>
    (\<forall>a \<in> A. \<forall>b \<in> A. etags_tell a b) \<and>
    (\<forall>a \<in> A. pst_passport_etag (tg_value (sn_states a)) = tg_etag (sn_processes a))"

text \<open>Whatever a session holds, the agent had.\<close>
definition truthful :: "snapshot set \<Rightarrow> remote_cache \<Rightarrow> bool" where
  "truthful A cache \<longleftrightarrow>
    rc_services cache \<in> insert None (Some ` sn_services ` A) \<and>
    rc_processes cache \<in> insert None (Some ` sn_processes ` A) \<and>
    rc_states cache \<in> insert None (Some ` sn_states ` A)"

lemma tagged_eqI: "tg_etag a = tg_etag b \<Longrightarrow> tg_value a = tg_value b \<Longrightarrow> a = (b :: 'v tagged)"
  by (cases a; cases b) simp

lemma etags_tell_tagged:
  assumes "etags_tell a b"
  shows "tg_etag (sn_processes a) = tg_etag (sn_processes b) \<Longrightarrow> sn_processes a = sn_processes b"
    "tg_etag (sn_states a) = tg_etag (sn_states b) \<Longrightarrow> sn_states a = sn_states b"
    "tg_etag (sn_services a) = tg_etag (sn_services b) \<Longrightarrow> sn_services a = sn_services b"
  using assms unfolding etags_tell_def by (blast intro: tagged_eqI)+

lemma agent_lists_tell: "agent_lists A \<Longrightarrow> a \<in> A \<Longrightarrow> b \<in> A \<Longrightarrow> etags_tell a b"
  unfolding agent_lists_def by blast

lemma held_is_current:
  assumes "h \<in> insert None (Some ` f ` A)" "\<And>b. b \<in> A \<Longrightarrow> tg_etag (f b) = tg_etag (f a) \<Longrightarrow> f b = f a"
    "etag_of h \<noteq> 0" "etag_of h = tg_etag (f a)"
  shows "h = Some (f a)"
proof -
  obtain t where t: "h = Some t" using assms(3) by (cases h) (simp_all add: etag_of_def)
  then obtain b where "b \<in> A" "t = f b" using assms(1) by auto
  then show ?thesis using assms(2,4) t by (simp add: etag_of_def)
qed

text \<open>Whether or not the agent leaves a list out of its answer, the session holds it afterwards.\<close>
lemma kept_processes:
  assumes "agent_lists A" "a \<in> A" "truthful A cache"
  shows "keep_processes (get_processes a (etag_of (rc_processes cache))) cache =
    Inr (cache\<lparr>rc_processes := Some (sn_processes a)\<rparr>)"
proof -
  have "rc_processes cache = Some (sn_processes a)"
    if "etag_of (rc_processes cache) \<noteq> 0" "etag_of (rc_processes cache) = tg_etag (sn_processes a)"
    by (rule held_is_current [where f = sn_processes and A = A, OF _ _ that])
      (use assms(3) etags_tell_tagged(1) agent_lists_tell [OF assms(1) _ assms(2)] in \<open>auto simp: truthful_def\<close>)
  then show ?thesis
    by (cases cache) (auto simp: keep_processes_def get_processes_def conditional_def not_modified_def Let_def)
qed

lemma kept_services:
  assumes "agent_lists A" "a \<in> A" "truthful A cache"
  shows "keep_services (get_services a (etag_of (rc_services cache))) cache =
    Inr (cache\<lparr>rc_services := Some (sn_services a)\<rparr>)"
proof -
  have "rc_services cache = Some (sn_services a)"
    if "etag_of (rc_services cache) \<noteq> 0" "etag_of (rc_services cache) = tg_etag (sn_services a)"
    by (rule held_is_current [where f = sn_services and A = A, OF _ _ that])
      (use assms(3) etags_tell_tagged(3) agent_lists_tell [OF assms(1) _ assms(2)] in \<open>auto simp: truthful_def\<close>)
  then show ?thesis
    by (cases cache) (auto simp: keep_services_def get_services_def conditional_def not_modified_def Let_def)
qed

lemma kept_states:
  assumes "agent_lists A" "a \<in> A" "truthful A cache"
  shows "keep_states (get_process_states a (etag_of (rc_states cache))) cache =
    Inr (cache\<lparr>rc_states := Some (sn_states a)\<rparr>)"
proof -
  have "rc_states cache = Some (sn_states a)"
    if "etag_of (rc_states cache) \<noteq> 0" "etag_of (rc_states cache) = tg_etag (sn_states a)"
    by (rule held_is_current [where f = sn_states and A = A, OF _ _ that])
      (use assms(3) etags_tell_tagged(2) agent_lists_tell [OF assms(1) _ assms(2)] in \<open>auto simp: truthful_def\<close>)
  then show ?thesis
    by (cases cache) (auto simp: keep_states_def get_process_states_def conditional_def not_modified_def Let_def
        encode_process_states_def)
qed

text \<open>A session that holds all three lists, each of some moment of the agent.\<close>
abbreviation holds :: "snapshot \<Rightarrow> snapshot \<Rightarrow> snapshot \<Rightarrow> remote_cache" where
  "holds a b c \<equiv>
    \<lparr>rc_services = Some (sn_services a), rc_processes = Some (sn_processes b), rc_states = Some (sn_states c)\<rparr>"

lemma truthful_holds: "a \<in> A \<Longrightarrow> b \<in> A \<Longrightarrow> c \<in> A \<Longrightarrow> truthful A (holds a b c)"
  by (simp add: truthful_def)

lemma joined_holds:
  assumes "agent_lists A" "c \<in> A"
  shows "joined (holds a b c) \<noteq> None \<longleftrightarrow> tg_etag (sn_processes b) = tg_etag (sn_processes c)"
  using assms by (simp add: joined_def etag_of_def agent_lists_def)

text \<open>The attempts never fail; they end joined when the lists stand still over one of them.\<close>
lemma join_lists_ends:
  assumes "agent_lists A" "\<And>i. agent i \<in> A" "a \<in> A" "b \<in> A" "c \<in> A"
  shows "\<exists>b' \<in> A. \<exists>c' \<in> A. join_lists n k agent (holds a b c) = Inr (holds a b' c') \<and>
    ((\<exists>i < n. tg_etag (sn_processes (agent (k + 2 * i))) = tg_etag (sn_processes (agent (k + 2 * i + 1)))) \<longrightarrow>
      joined (holds a b' c') \<noteq> None)"
  using assms(4,5)
proof (induction n arbitrary: k b c)
  case 0
  then show ?case by auto
next
  case (Suc n)
  let ?p = "agent k" and ?s = "agent (k + 1)"
  have p: "keep_processes (get_processes ?p (etag_of (rc_processes (holds a b c)))) (holds a b c) = Inr (holds a ?p c)"
    using kept_processes [OF assms(1,2) truthful_holds [OF assms(3) Suc.prems]] by simp
  have s: "keep_states (get_process_states ?s (etag_of (rc_states (holds a ?p c)))) (holds a ?p c) = Inr (holds a ?p ?s)"
    using kept_states [OF assms(1,2) truthful_holds [OF assms(3,2) Suc.prems(2)]] by simp
  consider "joined (holds a b c) \<noteq> None" | "joined (holds a b c) = None" "joined (holds a ?p c) \<noteq> None"
    | "joined (holds a b c) = None" "joined (holds a ?p c) = None" by blast
  then show ?case
  proof cases
    case 1
    then show ?thesis using Suc.prems by auto
  next
    case 2
    then have "join_lists (Suc n) k agent (holds a b c) = Inr (holds a ?p c)" using p by simp
    then show ?thesis using 2 assms(2) Suc.prems(2) by blast
  next
    case 3
    then have rest: "join_lists (Suc n) k agent (holds a b c) = join_lists n (k + 2) agent (holds a ?p ?s)"
      using p s by simp
    obtain b' c' where IH: "b' \<in> A" "c' \<in> A" "join_lists n (k + 2) agent (holds a ?p ?s) = Inr (holds a b' c')"
      "(\<exists>i < n. tg_etag (sn_processes (agent (k + 2 + 2 * i))) = tg_etag (sn_processes (agent (k + 2 + 2 * i + 1)))) \<longrightarrow>
        joined (holds a b' c') \<noteq> None"
      using Suc.IH [of ?p ?s "k + 2"] assms(2) by blast
    have "joined (holds a b' c') \<noteq> None"
      if "i < Suc n" "tg_etag (sn_processes (agent (k + 2 * i))) = tg_etag (sn_processes (agent (k + 2 * i + 1)))" for i
    proof (cases i)
      case 0
      then have now: "joined (holds a ?p ?s) \<noteq> None"
        using that(2) joined_holds [OF assms(1,2)] by simp
      then have "join_lists n (k + 2) agent (holds a ?p ?s) = Inr (holds a ?p ?s)"
        by (cases n) simp_all
      then show ?thesis using IH(3) now by simp
    next
      case (Suc j)
      then show ?thesis using IH(4) that by auto
    qed
    then show ?thesis unfolding rest using IH(1-3) by blast
  qed
qed

lemma remote_snapshot_holds:
  assumes "agent_lists A" "\<And>i. agent i \<in> A" "truthful A cache"
  obtains b c where "b \<in> A" "c \<in> A"
    "remote_snapshot agent cache =
      Inr (if joined (holds (agent 0) b c) = None then None
           else Some \<lparr>sn_services = sn_services (agent 0), sn_processes = sn_processes b, sn_states = sn_states c\<rparr>,
        holds (agent 0) b c)"
    "(\<exists>i < 3. tg_etag (sn_processes (agent (3 + 2 * i))) = tg_etag (sn_processes (agent (4 + 2 * i)))) \<Longrightarrow>
      joined (holds (agent 0) b c) \<noteq> None"
proof -
  let ?c1 = "cache\<lparr>rc_services := Some (sn_services (agent 0))\<rparr>"
  let ?c2 = "?c1\<lparr>rc_processes := Some (sn_processes (agent 1))\<rparr>"
  have t1: "truthful A ?c1" and t2: "truthful A ?c2" using assms(2,3) by (simp_all add: truthful_def)
  have k1: "keep_services (get_services (agent 0) (etag_of (rc_services cache))) cache = Inr ?c1"
    by (rule kept_services [OF assms(1,2,3)])
  have k2: "keep_processes (get_processes (agent 1) (etag_of (rc_processes cache))) ?c1 = Inr ?c2"
    using kept_processes [OF assms(1,2) t1, of 1] by simp
  have k3: "keep_states (get_process_states (agent 2) (etag_of (rc_states cache))) ?c2 =
      Inr (holds (agent 0) (agent 1) (agent 2))"
    using kept_states [OF assms(1,2) t2, of 2] by (cases cache) simp
  obtain b c where bc: "b \<in> A" "c \<in> A" "join_lists 3 3 agent (holds (agent 0) (agent 1) (agent 2)) = Inr (holds (agent 0) b c)"
    "(\<exists>i < 3. tg_etag (sn_processes (agent (3 + 2 * i))) = tg_etag (sn_processes (agent (3 + 2 * i + 1)))) \<longrightarrow>
      joined (holds (agent 0) b c) \<noteq> None"
    using join_lists_ends [of A agent "agent 0" "agent 1" "agent 2" 3 3] assms(1,2) by blast
  have "remote_snapshot agent cache =
      Inr (if joined (holds (agent 0) b c) = None then None
           else Some \<lparr>sn_services = sn_services (agent 0), sn_processes = sn_processes b, sn_states = sn_states c\<rparr>,
        holds (agent 0) b c)"
    unfolding remote_snapshot_def Let_def k1 and_then.simps k2 k3 JOIN_ATTEMPTS_def bc(3) by simp
  then show thesis using that bc(1,2,4) by (simp add: add.commute)
qed

text \<open>
  C20 A session's snapshot is of one moment: whatever the agent's lists did while
  it was read, its processes and its states are those the agent had together, its
  services ones the agent had, and there is none only if the process list moved
  between the two reads of every attempt to join them. What the session holds for
  the next time is again what the agent had.
\<close>
theorem snapshots_are_of_one_moment:
  assumes "agent_lists A" "\<And>i. agent i \<in> A" "truthful A cache"
  shows "\<exists>out cache'. remote_snapshot agent cache = Inr (out, cache') \<and> truthful A cache' \<and>
    (\<forall>s. out = Some s \<longrightarrow>
      sn_services s = sn_services (agent 0) \<and> (\<exists>a \<in> A. sn_processes s = sn_processes a \<and> sn_states s = sn_states a)) \<and>
    (out = None \<longrightarrow>
      (\<forall>i < 3. tg_etag (sn_processes (agent (3 + 2 * i))) \<noteq> tg_etag (sn_processes (agent (4 + 2 * i)))))"
proof -
  obtain b c where bc: "b \<in> A" "c \<in> A"
    "remote_snapshot agent cache =
      Inr (if joined (holds (agent 0) b c) = None then None
           else Some \<lparr>sn_services = sn_services (agent 0), sn_processes = sn_processes b, sn_states = sn_states c\<rparr>,
        holds (agent 0) b c)"
    "(\<exists>i < 3. tg_etag (sn_processes (agent (3 + 2 * i))) = tg_etag (sn_processes (agent (4 + 2 * i)))) \<Longrightarrow>
      joined (holds (agent 0) b c) \<noteq> None"
    using remote_snapshot_holds [of A agent cache] assms by blast
  have same: "sn_processes b = sn_processes c" if "joined (holds (agent 0) b c) \<noteq> None"
    using that joined_holds [OF assms(1) bc(2)]
      etags_tell_tagged(1) [OF agent_lists_tell [OF assms(1) bc(1,2)]] by blast
  show ?thesis
  proof (cases "joined (holds (agent 0) b c) = None")
    case True
    then have "\<not> (\<exists>i < 3. tg_etag (sn_processes (agent (3 + 2 * i))) = tg_etag (sn_processes (agent (4 + 2 * i))))"
      using bc(4) by blast
    then show ?thesis unfolding bc(3) using True truthful_holds [OF assms(2) bc(1,2), of 0] by simp
  next
    case False
    then show ?thesis
      unfolding bc(3) using same bc(2) truthful_holds [OF assms(2) bc(1,2), of 0] by auto
  qed
qed

lemma snapshots_are_of_one_moment_witness:
  "\<exists>cache'. remote_snapshot (\<lambda>_. told 2 [watched_row 8 1]) cache_new = Inr (Some (told 2 [watched_row 8 1]), cache')"
proof -
  have A: "agent_lists {told 2 [watched_row 8 1]}" "\<And>i. (\<lambda>_. told 2 [watched_row 8 1]) i \<in> {told 2 [watched_row 8 1]}"
    "truthful {told 2 [watched_row 8 1]} cache_new"
    by (simp_all add: agent_lists_def etags_tell_def told_def truthful_def cache_new_def)
  obtain out cache' where out: "remote_snapshot (\<lambda>_. told 2 [watched_row 8 1]) cache_new = Inr (out, cache')"
    "\<forall>s. out = Some s \<longrightarrow> sn_services s = sn_services (told 2 [watched_row 8 1]) \<and>
      (\<exists>a \<in> {told 2 [watched_row 8 1]}. sn_processes s = sn_processes a \<and> sn_states s = sn_states a)"
    "out = None \<longrightarrow> (\<forall>i < (3 :: nat). tg_etag (sn_processes (told 2 [watched_row 8 1])) \<noteq>
      tg_etag (sn_processes (told 2 [watched_row 8 1])))"
    using snapshots_are_of_one_moment [OF A] by (elim exE conjE)
  have "out \<noteq> None" using out(3) by (auto dest: spec [where x = 0])
  then obtain s where s: "out = Some s" by blast
  then have "s = told 2 [watched_row 8 1]" using out(2) by (cases s) (simp add: told_def)
  then show ?thesis using out(1) s by blast
qed

section \<open>A watch over the pipe\<close>

text \<open>Published lists that come one after another, each following the one before.\<close>
fun follow_all :: "snapshot option \<Rightarrow> published list \<Rightarrow> bool" where
  "follow_all before [] \<longleftrightarrow> True"
| "follow_all before (p # ps) \<longleftrightarrow> follows before (pb_snapshot p) \<and> follow_all (Some (pb_snapshot p)) ps"

definition sample_ok :: "published \<Rightarrow> bool" where
  "sample_ok p \<longleftrightarrow> machine_ok (s_machine (pb_sample p)) \<and> s_columns (pb_sample p) GpuEngines = None"

definition at_period :: "metric_spec \<Rightarrow> update \<Rightarrow> update" where
  "at_period spec upd = upd\<lparr>up_sample := (up_sample upd)\<lparr>s_period := period spec\<rparr>\<rparr>"

lemma update_arrives:
  assumes "decode_metric_spec (encode_metric_spec spec) = Inr asked"
    "follows (map_option pb_snapshot seen) (pb_snapshot p)" "sample_ok p"
  shows "listener_update spec fresh
      (encode_update blanks (fst (watch_next asked p seen)) (map_option pb_snapshot seen)) (map_option pb_snapshot seen) =
    (Inr (at_period spec (fst (watch_next spec p seen))), Some (pb_snapshot p))"
proof -
  let ?sent = "sample_project (pb_sample p) asked"
  have "decode_sample (encode_process_columns ?sent) (encode_machine_sample ?sent) spec =
      Inr ((sample_project (pb_sample p) spec)\<lparr>s_period := period spec\<rparr>)"
    using samples_arrive [OF assms(1)] assms(3) by (simp add: sample_ok_def)
  moreover have "decode_lists (map_option pb_snapshot seen)
      (encode_lists blanks (fst (watch_next asked p seen)) (map_option pb_snapshot seen)) =
    Inr (Some (pb_snapshot p, changes_between (map_option pb_snapshot seen) (pb_snapshot p)))"
    using lists_arrive [OF assms(2), of "fst (watch_next asked p seen)"] by (simp add: watch_next_def)
  ultimately show ?thesis
    by (simp add: listener_update_def listener_decode_def encode_update_def update_sample_def at_period_def
        watch_next_def)
qed

text \<open>Every update as it would be had the sample been taken at the period of the spec.\<close>
lemma pushed_updates:
  assumes "decode_metric_spec (encode_metric_spec spec) = Inr asked" "list_all sample_ok pubs"
  shows "follow_all (map_option pb_snapshot seen) pubs \<Longrightarrow>
    push_all blanks spec fresh (watch_all asked pubs seen) (map_option pb_snapshot seen) (map_option pb_snapshot seen) =
      map (\<lambda>upd. Inr (at_period spec upd)) (watch_all spec pubs seen)"
  using assms(2)
proof (induction pubs arbitrary: seen)
  case (Cons p ps)
  have next_seen: "snd (watch_next s p seen) = Some p" "up_snapshot (fst (watch_next s p seen)) = pb_snapshot p" for s
    by (simp_all add: watch_next_def)
  show ?case
    using update_arrives [OF assms(1), of seen p fresh blanks] Cons.IH [of "Some p"] Cons.prems
    by (simp add: split_def Let_def next_seen)
qed simp

lemma at_period_same:
  "\<forall>p \<in> set pubs. s_period (pb_sample p) = period spec \<Longrightarrow> upd \<in> set (watch_all spec pubs seen) \<Longrightarrow> at_period spec upd = upd"
proof (induction pubs arbitrary: seen)
  case (Cons p ps)
  have "at_period spec (fst (watch_next spec p seen)) = fst (watch_next spec p seen)"
    using Cons.prems(1) by (simp add: at_period_def watch_next_def sample_project_def Let_def)
  then show ?case using Cons.IH [of "snd (watch_next spec p seen)"] Cons.prems by (auto simp: split_def Let_def)
qed simp

text \<open>
  C21 A watch over the pipe shows what a watch in the agent's own process would, update by
  update: the same lists, the same changes and the same samples, except that a sample says
  for its period the one the spec asks for, where the agent's own says the one it was taken
  at; where every sample was taken at the period asked for, the two watches show the very
  same. None of the updates is failed, and none needs the lists to be read afresh.
\<close>
theorem remote_watch_shows_the_local:
  assumes "decode_metric_spec (encode_metric_spec spec) = Inr asked" "follow_all None pubs" "list_all sample_ok pubs"
  shows "push_all blanks spec fresh (watch_all asked pubs None) None None =
      map (\<lambda>upd. Inr (at_period spec upd)) (watch_all spec pubs None) \<and>
    ((\<forall>p \<in> set pubs. s_period (pb_sample p) = period spec) \<longrightarrow>
      push_all blanks spec fresh (watch_all asked pubs None) None None = map Inr (watch_all spec pubs None))"
proof -
  have "push_all blanks spec fresh (watch_all asked pubs None) None None =
      map (\<lambda>upd. Inr (at_period spec upd)) (watch_all spec pubs None)"
    using pushed_updates [OF assms(1,3), of None] assms(2) by simp
  then show ?thesis using at_period_same by (auto cong: map_cong)
qed

definition two_published :: "published list" where
  "two_published =
    [nothing_published\<lparr>pb_snapshot := told 1 [watched_row 8 1, watched_row 12 2, watched_row 16 3]\<rparr>,
     nothing_published\<lparr>pb_snapshot := told 2 [watched_row 8 1, watched_row 12 9]\<rparr>]"

lemma remote_watch_shows_the_local_witness:
  "\<exists>asked. push_all empty_rows half_second (Inr None) (watch_all asked two_published None) None None =
    map (\<lambda>upd. Inr (at_period half_second upd)) (watch_all half_second two_published None) \<and>
    length (watch_all half_second two_published None) = 2"
proof -
  have "follows None (told 1 [watched_row 8 1, watched_row 12 2, watched_row 16 3])"
    using told_follows by (simp add: follows_def)
  then have "follow_all None two_published"
    using told_follows by (simp add: two_published_def)
  moreover have "list_all sample_ok two_published"
    by (simp add: two_published_def nothing_published_def sample_ok_def sample_default_def machine_ok_def
        machine_sample_default_def no_columns_def)
  ultimately show ?thesis
    using remote_watch_shows_the_local [OF spec_arrives, where blanks = empty_rows and fresh = "Inr None"
        and pubs = two_published, of half_second]
    by (auto simp: two_published_def Let_def split_def)
qed

text \<open>
  C22 Reading the lists afresh does not carry a watch on once they have moved: when
  an update comes in a form the client does not know and the lists it then reads
  are no longer those of the update, that update is shown, all of it new, but the
  next one, which says what moved since the lists of the update, is refused and
  the watch is over.
\<close>
theorem lists_read_afresh_end_the_watch:
  assumes "wu_lists w = Inr form" "decode_lists own form = Inr None" "update_sample spec w = Inr taken"
    "tg_etag (sn_processes base) \<notin> {tg_etag (sn_processes after), tg_etag (sn_processes later)}"
    "upd = \<lparr>up_snapshot = after, up_sample = taken', up_changes = changes_between (Some base) after\<rparr>"
  shows "\<exists>own'. listener_update spec (Inr (Some later)) w own =
      (Inr \<lparr>up_snapshot = later, up_sample = taken, up_changes = changes_default\<lparr>ch_full := True\<rparr>\<rparr>, own') \<and>
    listener_update spec fresh (encode_update blanks upd (Some base)) own' =
      (Inl (OtherBase (tg_etag (sn_processes base)) (tg_etag (sn_processes later))), own')"
proof -
  have first: "listener_update spec (Inr (Some later)) w own =
      (Inr \<lparr>up_snapshot = later, up_sample = taken, up_changes = changes_default\<lparr>ch_full := True\<rparr>\<rparr>, Some later)"
    using assms(1-3) by (simp add: listener_update_def listener_decode_def listener_resync_def)
  have "decode_lists (Some later) (encode_lists blanks upd (Some base)) =
      Inl (OtherBase (tg_etag (sn_processes base)) (tg_etag (sn_processes later)))"
    by (rule delta_refused [where after = after]) (use assms(4,5) in simp_all)
  then show ?thesis
    unfolding first by (simp add: listener_update_def listener_decode_def encode_update_def)
qed

lemma lists_read_afresh_end_the_watch_witness:
  "\<exists>own' w upd. fst (listener_update spec_default (Inr (Some (told 9 [watched_row 8 1]))) w None) \<noteq> Inl NeverCame \<and>
    listener_update spec_default (Inr None) (encode_update empty_rows upd (Some (told 1 [watched_row 4 7]))) own' =
      (Inl (OtherBase 1 9), own')"
proof -
  let ?w = "\<lparr>wu_lists = Inr \<lparr>lu_passport_etag = 1, lu_passports = None, lu_states_etag = 1, lu_states = None,
      lu_services_etag = 1, lu_services = None\<rparr>,
    wu_processes = Inr (encode_process_columns sample_default),
    wu_machine = Inr (encode_machine_sample sample_default)\<rparr>"
  have ok: "machine_ok (s_machine sample_default)" "s_columns sample_default GpuEngines = None"
    by (simp_all add: sample_default_def machine_ok_def machine_sample_default_def no_columns_def)
  have sent: "sample_project sample_default spec_default = sample_default"
    by (simp add: sample_default_def sample_project_def spec_default_def spec_idle_def columns_project_def
        no_columns_def kept_if_def machine_project_def machine_sample_default_def Let_def)
  have "decode_metric_spec (encode_metric_spec spec_default) = Inr spec_default"
    by (simp add: spec_arrives spec_default_def spec_idle_def MAX_INTERVAL_def)
  then obtain taken where taken: "update_sample spec_default ?w = Inr taken"
    using samples_arrive [OF _ ok, of spec_default spec_default] by (simp add: update_sample_def sent)
  have unknown: "decode_lists None \<lparr>lu_passport_etag = 1, lu_passports = None, lu_states_etag = 1, lu_states = None,
      lu_services_etag = 1, lu_services = None\<rparr> = Inr None"
    by (simp add: decode_lists_def)
  show ?thesis
    using lists_read_afresh_end_the_watch [OF _ unknown taken _ refl, where base = "told 1 [watched_row 4 7]"
        and after = "told 2 [watched_row 4 7]" and later = "told 9 [watched_row 8 1]" and fresh = "Inr None"
        and blanks = empty_rows]
    by (simp add: told_def) (metis fst_conv sum.distinct(1))
qed

end
