(* ===== verification/Router.thy ===== *)
theory Router
  imports Traffic Process_Events
begin

text \<open>
  \<^verbatim>\<open>crates/core/src/etw/router.rs\<close> and \<^verbatim>\<open>crates/core/src/sink.rs\<close>: the events of
  every session go to one core that routes them by provider, to a handler or into
  a batch; a batch is handed over as one change when its window has passed, into a
  channel of bounded length that the core's tick drains. The sessions themselves
  are the ETW library's. Timestamps are in 100 ns since 1601 and do not come near
  the bounds of their type: integers.
\<close>

section \<open>The channel\<close>

text \<open>The channel's changes in order; a wake is counted.\<close>
record sink =
  sk_capacity :: nat
  sk_queue :: "state_change list"
  sk_dropped :: u64
  sk_high_water :: nat
  sk_wakes :: nat

definition DEFAULT_CAPACITY :: nat where
  "DEFAULT_CAPACITY = 4096"

definition sink_bounded :: "nat \<Rightarrow> sink" where
  "sink_bounded capacity =
    \<lparr>sk_capacity = capacity, sk_queue = [], sk_dropped = 0, sk_high_water = max (capacity div 2) 1, sk_wakes = 0\<rparr>"

definition emit :: "state_change \<Rightarrow> sink \<Rightarrow> sink" where
  "emit change s =
    (let s = (if length (sk_queue s) < sk_capacity s then s\<lparr>sk_queue := sk_queue s @ [change]\<rparr>
              else s\<lparr>sk_dropped := sk_dropped s + 1\<rparr>)
     in if length (sk_queue s) \<ge> sk_high_water s then s\<lparr>sk_wakes := sk_wakes s + 1\<rparr> else s)"

definition emit_all :: "state_change list \<Rightarrow> sink \<Rightarrow> sink" where
  "emit_all changes s = fold emit changes s"

section \<open>Batches and routes\<close>

record kernel_event =
  ke_provider :: "128 word"
  ke_opcode :: u8
  ke_timestamp :: int
  ke_user_data :: "u8 list"

text \<open>The two implementations of \<^verbatim>\<open>Batch\<close>.\<close>
datatype batch = DiskBatch disk_deltas | NetBatch net_deltas

fun batch_add :: "kernel_event \<Rightarrow> batch \<Rightarrow> batch" where
  "batch_add e (DiskBatch deltas) = DiskBatch (disk_batch_event (ke_opcode e, ke_user_data e) deltas)"
| "batch_add e (NetBatch deltas) = NetBatch (net_batch_event (ke_provider e, ke_opcode e, ke_user_data e) deltas)"

fun batch_take :: "batch \<Rightarrow> state_change option \<times> batch" where
  "batch_take (DiskBatch deltas) = (let (change, deltas) = disk_batch_take deltas in (change, DiskBatch deltas))"
| "batch_take (NetBatch deltas) = (let (change, deltas) = net_batch_take deltas in (change, NetBatch deltas))"

record batch_slot =
  bs_batch :: batch
  bs_window :: int
  bs_since :: "int option"

datatype target = ToHandler nat | ToBatch nat

type_synonym handler = "kernel_event \<Rightarrow> state_change list"

text \<open>What a builder gathers; its sessions' names and flags are handed to ETW.\<close>
record router_builder =
  rb_handlers :: "handler list"
  rb_batches :: "batch_slot list"
  rb_routes :: "(128 word \<times> target list) list"

definition builder_new :: router_builder where
  "builder_new = \<lparr>rb_handlers = [], rb_batches = [], rb_routes = []\<rparr>"

text \<open>\<^verbatim>\<open>timestamp_ticks\<close>\<close>
definition timestamp_ticks :: "duration \<Rightarrow> int" where
  "timestamp_ticks d = int (d div 100)"

fun add_target :: "128 word \<Rightarrow> target \<Rightarrow> (128 word \<times> target list) list \<Rightarrow> (128 word \<times> target list) list" where
  "add_target key target [] = [(key, [target])]"
| "add_target key target ((g, targets) # routes) =
    (if g = key then (g, targets @ [target]) # routes else (g, targets) # add_target key target routes)"

definition builder_route :: "(128 word) list \<Rightarrow> target \<Rightarrow> router_builder \<Rightarrow> router_builder" where
  "builder_route providers target b =
    b\<lparr>rb_routes := fold (\<lambda>key. add_target key target) providers (rb_routes b)\<rparr>"

definition builder_on :: "(128 word) list \<Rightarrow> handler \<Rightarrow> router_builder \<Rightarrow> router_builder" where
  "builder_on providers handler b =
    (let idx = length (rb_handlers b)
     in builder_route providers (ToHandler idx) (b\<lparr>rb_handlers := rb_handlers b @ [handler]\<rparr>))"

definition builder_batched :: "(128 word) list \<Rightarrow> duration \<Rightarrow> batch \<Rightarrow> router_builder \<Rightarrow> router_builder" where
  "builder_batched providers window batch b =
    (let idx = length (rb_batches b)
     in builder_route providers (ToBatch idx)
          (b\<lparr>rb_batches := rb_batches b @ [\<lparr>bs_batch = batch, bs_window = timestamp_ticks window, bs_since = None\<rparr>]\<rparr>))"

definition BATCH_WINDOW :: duration where
  "BATCH_WINDOW = millis 10"

definition DISK_IO_TASK_GUID :: "128 word" where
  "DISK_IO_TASK_GUID = 0x3d6fa8d4fe0511d09dda00c04fd7ba7c"

text \<open>\<^verbatim>\<open>KernelDiskProvider::register\<close> and \<^verbatim>\<open>KernelNetworkProvider::register\<close>\<close>
definition register_disk :: "router_builder \<Rightarrow> router_builder" where
  "register_disk b = builder_batched [DISK_IO_TASK_GUID] BATCH_WINDOW (DiskBatch []) b"

definition register_network :: "router_builder \<Rightarrow> router_builder" where
  "register_network b = builder_batched [TCPIP_TASK_GUID, UDPIP_TASK_GUID] BATCH_WINDOW (NetBatch []) b"

section \<open>Routing\<close>

record router_core =
  rt_routes :: "(128 word \<times> target list) list"
  rt_handlers :: "handler list"
  rt_batches :: "batch_slot list"
  rt_sink :: sink

text \<open>\<^verbatim>\<open>KernelRouterBuilder::start\<close>: the core the sessions' traces share.\<close>
definition router_start :: "router_builder \<Rightarrow> sink \<Rightarrow> router_core" where
  "router_start b s =
    \<lparr>rt_routes = rb_routes b, rt_handlers = rb_handlers b, rt_batches = rb_batches b, rt_sink = s\<rparr>"

definition deliver_to :: "kernel_event \<Rightarrow> int \<Rightarrow> target \<Rightarrow> router_core \<Rightarrow> router_core" where
  "deliver_to e now target core =
    (case target of
       ToHandler idx \<Rightarrow> core\<lparr>rt_sink := emit_all ((rt_handlers core ! idx) e) (rt_sink core)\<rparr>
     | ToBatch idx \<Rightarrow>
         (let slot = rt_batches core ! idx;
              slot = slot\<lparr>bs_batch := batch_add e (bs_batch slot),
                bs_since := (case bs_since slot of None \<Rightarrow> Some now | Some since \<Rightarrow> Some since)\<rparr>
          in core\<lparr>rt_batches := (rt_batches core)[idx := slot]\<rparr>))"

definition deliver :: "kernel_event \<Rightarrow> int \<Rightarrow> router_core \<Rightarrow> router_core" where
  "deliver e now core =
    (case map_of (rt_routes core) (ke_provider e) of
       None \<Rightarrow> core
     | Some targets \<Rightarrow>
         if ke_user_data e = [] then core else fold (deliver_to e now) targets core)"

fun hand_over_slots :: "int \<Rightarrow> batch_slot list \<Rightarrow> sink \<Rightarrow> batch_slot list \<times> sink" where
  "hand_over_slots now [] s = ([], s)"
| "hand_over_slots now (slot # slots) s =
    (let (slot, s) =
       (case bs_since slot of
          None \<Rightarrow> (slot, s)
        | Some since \<Rightarrow>
            if now - since < bs_window slot then (slot, s)
            else (let (change, batch) = batch_take (bs_batch slot)
                  in (slot\<lparr>bs_since := None, bs_batch := batch\<rparr>,
                      case change of Some change \<Rightarrow> emit change s | None \<Rightarrow> s)));
         (slots, s) = hand_over_slots now slots s
     in (slot # slots, s))"

definition hand_over_due :: "int \<Rightarrow> router_core \<Rightarrow> router_core" where
  "hand_over_due now core =
    (let (slots, s) = hand_over_slots now (rt_batches core) (rt_sink core)
     in core\<lparr>rt_batches := slots, rt_sink := s\<rparr>)"

definition router_event :: "kernel_event \<Rightarrow> router_core \<Rightarrow> router_core" where
  "router_event e core = (let now = ke_timestamp e in hand_over_due now (deliver e now core))"

text \<open>\<^verbatim>\<open>KernelRouter::flush\<close>; its argument is the time it is by then.\<close>
definition router_flush :: "int \<Rightarrow> router_core \<Rightarrow> router_core" where
  "router_flush now core = hand_over_due now core"

text \<open>What the tick applies: \<^verbatim>\<open>for change in self.rx.try_iter()\<close>.\<close>
definition drain :: "router_core \<Rightarrow> system_state \<Rightarrow> router_core \<times> system_state" where
  "drain core s =
    (core\<lparr>rt_sink := (rt_sink core)\<lparr>sk_queue := []\<rparr>\<rparr>, fold system_apply (sk_queue (rt_sink core)) s)"

section \<open>Whose session a name is\<close>

definition KERNEL_SESSION_NAME :: string where
  "KERNEL_SESSION_NAME = ''Uniproc-Kernel''"

definition SESSION_NAME_PREFIX :: string where
  "SESSION_NAME_PREFIX = ''Uniproc-''"

definition is_hex_digit :: "char \<Rightarrow> bool" where
  "is_hex_digit c \<longleftrightarrow> c \<in> set ''0123456789abcdefABCDEF''"

definition is_guid :: "string \<Rightarrow> bool" where
  "is_guid t \<longleftrightarrow>
    length t = 36 \<and>
    list_all (\<lambda>(i, c). if i \<in> {8, 13, 18, 23} then c = CHR ''-'' else is_hex_digit c) (enumerate 0 t)"

text \<open>\<^verbatim>\<open>strip_prefix\<close>\<close>
definition strip_prefix :: "string \<Rightarrow> string \<Rightarrow> string option" where
  "strip_prefix prefix t = (if take (length prefix) t = prefix then Some (drop (length prefix) t) else None)"

definition is_default_session :: "string \<Rightarrow> bool" where
  "is_default_session name \<longleftrightarrow>
    name = KERNEL_SESSION_NAME \<or>
    (case strip_prefix SESSION_NAME_PREFIX name of Some rest \<Rightarrow> is_guid rest | None \<Rightarrow> False)"

text \<open>
  \<^verbatim>\<open>stop_leftover_sessions\<close>: of the sessions that run, those of this core that
  could be stopped.
\<close>
definition stop_leftover_sessions :: "string list \<Rightarrow> (string \<Rightarrow> bool) \<Rightarrow> string list" where
  "stop_leftover_sessions running stop = filter (\<lambda>name. is_default_session name \<and> stop name) running"

section \<open>What goes through the channel\<close>

definition room :: "sink \<Rightarrow> nat" where
  "room s = sk_capacity s - length (sk_queue s)"

lemma emit_all_keeps [simp]: "sk_capacity (emit_all changes s) = sk_capacity s"
  by (induction changes arbitrary: s) (simp_all add: emit_all_def emit_def Let_def)

lemma emit_all_Cons: "emit_all (c # changes) s = emit_all changes (emit c s)"
  by (simp add: emit_all_def)

text \<open>What there is room for is queued in order, the rest is dropped and counted.\<close>
lemma emit_all_queue:
  "sk_queue (emit_all changes s) = sk_queue s @ take (room s) changes"
  "sk_dropped (emit_all changes s) = sk_dropped s + of_nat (length (drop (room s) changes))"
proof (induction changes arbitrary: s)
  case (Cons c changes)
  { case 1
    show ?case using Cons.IH(1) [of "emit c s"]
      by (cases "length (sk_queue s) < sk_capacity s")
        (simp_all add: emit_all_Cons emit_def room_def Let_def take_Cons' Suc_diff_Suc)
  next
    case 2
    show ?case using Cons.IH(2) [of "emit c s"]
      by (cases "length (sk_queue s) < sk_capacity s")
        (simp_all add: emit_all_Cons emit_def room_def Let_def drop_Cons' Suc_diff_Suc)
  }
qed (simp_all add: emit_all_def)

text \<open>A slot once its window is looked at, and the change it hands over.\<close>
definition slot_due :: "int \<Rightarrow> batch_slot \<Rightarrow> bool" where
  "slot_due now slot = (case bs_since slot of None \<Rightarrow> False | Some since \<Rightarrow> now - since \<ge> bs_window slot)"

definition settled :: "int \<Rightarrow> batch_slot \<Rightarrow> batch_slot" where
  "settled now slot =
    (if slot_due now slot then slot\<lparr>bs_since := None, bs_batch := snd (batch_take (bs_batch slot))\<rparr> else slot)"

definition due_changes :: "int \<Rightarrow> batch_slot list \<Rightarrow> state_change list" where
  "due_changes now slots =
    List.map_filter (\<lambda>slot. if slot_due now slot then fst (batch_take (bs_batch slot)) else None) slots"

lemma hand_over_slots_eq:
  "hand_over_slots now slots s = (map (settled now) slots, emit_all (due_changes now slots) s)"
proof (induction slots arbitrary: s)
  case Nil
  then show ?case by (simp add: due_changes_def emit_all_def List.map_filter_def)
next
  case (Cons slot slots)
  show ?case
  proof (cases "bs_since slot")
    case None
    then show ?thesis
      by (simp add: Cons.IH settled_def slot_due_def due_changes_def List.map_filter_simps)
  next
    case (Some since)
    show ?thesis
    proof (cases "now - since < bs_window slot")
      case True
      then show ?thesis
        using Some by (simp add: Cons.IH settled_def slot_due_def due_changes_def List.map_filter_simps)
    next
      case False
      then have due: "slot_due now slot" using Some by (simp add: slot_due_def)
      show ?thesis
        using Some False due
        by (simp add: Cons.IH settled_def due_changes_def List.map_filter_simps split_def emit_all_Cons
            split: option.splits)
    qed
  qed
qed

lemma hand_over_due_eq:
  "hand_over_due now core =
    core\<lparr>rt_batches := map (settled now) (rt_batches core),
      rt_sink := emit_all (due_changes now (rt_batches core)) (rt_sink core)\<rparr>"
  by (simp add: hand_over_due_def hand_over_slots_eq)

section \<open>Counting traffic\<close>

text \<open>
  One of the machine's totals: what a delta of a batch adds to it, what an event
  adds to the delta, and the total itself.
\<close>
locale traffic_count =
  fixes wn :: "net_delta \<Rightarrow> u64" and gn :: "network_event \<Rightarrow> u64"
    and wd :: "disk_delta \<Rightarrow> u64" and gd :: "disk_event \<Rightarrow> u64"
    and total_of :: "machine_totals \<Rightarrow> u64"
  assumes net_zero: "wn net_delta_default = 0"
    and net_add: "\<And>d e. wn (net_delta_add d e) = wn d + gn e"
    and disk_zero: "wd disk_delta_default = 0"
    and disk_add: "\<And>d e. wd (disk_delta_add d e) = wd d + gd e"
    and total_net: "\<And>d m. total_of (add_net d m) = total_of m + wn d"
    and total_disk: "\<And>d m. total_of (add_disk d m) = total_of m + wd d"
    and total_new: "total_of machine_totals_default = 0"

fun change_weight :: "(net_delta \<Rightarrow> u64) \<Rightarrow> (disk_delta \<Rightarrow> u64) \<Rightarrow> state_change \<Rightarrow> u64" where
  "change_weight wn wd (Network deltas) = batch_sum wn deltas"
| "change_weight wn wd (Disk deltas) = batch_sum wd deltas"

fun batch_weight :: "(net_delta \<Rightarrow> u64) \<Rightarrow> (disk_delta \<Rightarrow> u64) \<Rightarrow> batch \<Rightarrow> u64" where
  "batch_weight wn wd (NetBatch deltas) = batch_sum wn deltas"
| "batch_weight wn wd (DiskBatch deltas) = batch_sum wd deltas"

text \<open>What the providers route to a batch, decoded.\<close>
definition event_weight :: "(network_event \<Rightarrow> u64) \<Rightarrow> (disk_event \<Rightarrow> u64) \<Rightarrow> kernel_event \<Rightarrow> u64" where
  "event_weight gn gd e =
    (if ke_user_data e = [] then 0
     else if ke_provider e \<in> {TCPIP_TASK_GUID, UDPIP_TASK_GUID} then
       (case decode_network (ke_provider e) (ke_opcode e) (ke_user_data e) of Some n \<Rightarrow> gn n | None \<Rightarrow> 0)
     else if ke_provider e = DISK_IO_TASK_GUID then
       (case decode_disk (ke_opcode e) (ke_user_data e) of Some (_, d) \<Rightarrow> gd d | None \<Rightarrow> 0)
     else 0)"

text \<open>What is in the batches, in the channel, and was dropped.\<close>
definition on_the_way ::
    "(net_delta \<Rightarrow> u64) \<Rightarrow> (disk_delta \<Rightarrow> u64) \<Rightarrow> router_core \<Rightarrow> state_change list \<Rightarrow> u64" where
  "on_the_way wn wd core lost =
    sum_list (map (\<lambda>slot. batch_weight wn wd (bs_batch slot)) (rt_batches core)) +
    sum_list (map (change_weight wn wd) (sk_queue (rt_sink core))) +
    sum_list (map (change_weight wn wd) lost)"

lemma take_moves:
  "batch_weight wn wd (snd (batch_take b)) +
    (case fst (batch_take b) of Some change \<Rightarrow> change_weight wn wd change | None \<Rightarrow> 0) = batch_weight wn wd b"
  by (cases b) (simp_all add: net_batch_take_def disk_batch_take_def)

lemma settled_moves:
  "sum_list (map (\<lambda>slot. batch_weight wn wd (bs_batch slot)) (map (settled now) slots)) +
    sum_list (map (change_weight wn wd) (due_changes now slots)) =
   sum_list (map (\<lambda>slot. batch_weight wn wd (bs_batch slot)) slots)"
proof (induction slots)
  case Nil
  then show ?case by (simp add: due_changes_def List.map_filter_def)
next
  case (Cons slot slots)
  have "batch_weight wn wd (bs_batch (settled now slot)) +
      (case (if slot_due now slot then fst (batch_take (bs_batch slot)) else None) of
         Some change \<Rightarrow> change_weight wn wd change | None \<Rightarrow> 0) = batch_weight wn wd (bs_batch slot)"
    using take_moves [of wn wd "bs_batch slot"] by (simp add: settled_def)
  moreover have "sum_list (map (change_weight wn wd) (due_changes now (slot # slots))) =
      (case (if slot_due now slot then fst (batch_take (bs_batch slot)) else None) of
         Some change \<Rightarrow> change_weight wn wd change | None \<Rightarrow> 0) +
      sum_list (map (change_weight wn wd) (due_changes now slots))"
    by (simp add: due_changes_def List.map_filter_simps split: option.split)
  moreover have "(a + A) + (c + C) = b + B" if "a + c = b" "A + C = B" for a A b B c C :: u64
    unfolding that [symmetric] by (simp add: algebra_simps)
  ultimately show ?case using Cons.IH by (simp only: list.map sum_list.Cons)
qed

lemma emitted_is_queued_or_lost:
  "sum_list (map f (sk_queue (emit_all changes s))) + sum_list (map f (lost @ drop (room s) changes)) =
    sum_list (map f (sk_queue s)) + sum_list (map f lost) + (sum_list (map f changes) :: u64)"
proof -
  have "sum_list (map f changes) = sum_list (map f (take (room s) changes)) + sum_list (map f (drop (room s) changes))"
    by (metis append_take_drop_id map_append sum_list.append)
  then show ?thesis by (simp add: emit_all_queue(1))
qed

lemma hand_over_moves:
  "on_the_way wn wd (hand_over_due now core) (lost @ drop (room (rt_sink core)) (due_changes now (rt_batches core))) =
    on_the_way wn wd core lost"
proof -
  have regroup: "b + (q + l) = b' + q' + l'" if "b + c = b'" "q + l = q' + l' + c" for b c b' q l q' l' :: u64
    unfolding that(1) [symmetric] that(2) by (simp add: algebra_simps)
  show ?thesis
    using regroup [OF settled_moves emitted_is_queued_or_lost]
    by (simp add: on_the_way_def hand_over_due_eq add.assoc)
qed

section \<open>The core of the two kernel providers and the process events\<close>

text \<open>\<^verbatim>\<open>start_router\<close> with the providers in the order they are registered; the handler of
  the process events hands its events to its own queue.\<close>
definition kernel_core :: "handler \<Rightarrow> router_core" where
  "kernel_core handler =
    router_start (builder_on [KERNEL_PROCESS, PROCESS, TASK_SCHEDULER] handler
      (register_network (register_disk builder_new))) (sink_bounded DEFAULT_CAPACITY)"

definition slot_of :: "batch \<Rightarrow> int option \<Rightarrow> batch_slot" where
  "slot_of batch since = \<lparr>bs_batch = batch, bs_window = timestamp_ticks BATCH_WINDOW, bs_since = since\<rparr>"

definition core_ok :: "handler \<Rightarrow> router_core \<Rightarrow> bool" where
  "core_ok handler core \<longleftrightarrow>
    rt_routes core = rt_routes (kernel_core handler) \<and> rt_handlers core = [handler] \<and>
    (\<exists>disk since net since'. rt_batches core = [slot_of (DiskBatch disk) since, slot_of (NetBatch net) since'])"

lemmas guids = TCPIP_TASK_GUID_def UDPIP_TASK_GUID_def DISK_IO_TASK_GUID_def KERNEL_PROCESS_def PROCESS_def
  TASK_SCHEDULER_def

lemma kernel_core_routes:
  "rt_routes (kernel_core handler) =
    [(DISK_IO_TASK_GUID, [ToBatch 0]), (TCPIP_TASK_GUID, [ToBatch 1]), (UDPIP_TASK_GUID, [ToBatch 1]),
     (KERNEL_PROCESS, [ToHandler 0]), (PROCESS, [ToHandler 0]), (TASK_SCHEDULER, [ToHandler 0])]"
  by (simp add: kernel_core_def router_start_def builder_on_def builder_route_def register_network_def
      register_disk_def builder_batched_def builder_new_def Let_def guids)

lemma kernel_core_ok: "core_ok handler (kernel_core handler)"
  unfolding core_ok_def
  by (simp add: kernel_core_def router_start_def builder_on_def builder_route_def register_network_def
      register_disk_def builder_batched_def builder_new_def Let_def slot_of_def)

lemma settled_disk: "\<exists>disk' since'. settled now (slot_of (DiskBatch disk) since) = slot_of (DiskBatch disk') since'"
  by (auto simp: settled_def slot_of_def Let_def split_def)

lemma settled_net: "\<exists>net' since'. settled now (slot_of (NetBatch net) since) = slot_of (NetBatch net') since'"
  by (auto simp: settled_def slot_of_def Let_def split_def)

lemma hand_over_ok: "core_ok handler core \<Longrightarrow> core_ok handler (hand_over_due now core)"
  using settled_disk settled_net by (fastforce simp: core_ok_def hand_over_due_eq)

lemma deliver_cases:
  assumes "core_ok handler core" "\<And>e. handler e = []"
  shows "deliver e now core =
    (if ke_user_data e = [] then core
     else if ke_provider e = DISK_IO_TASK_GUID then deliver_to e now (ToBatch 0) core
     else if ke_provider e \<in> {TCPIP_TASK_GUID, UDPIP_TASK_GUID} then deliver_to e now (ToBatch 1) core
     else core)"
proof -
  have "deliver_to e now (ToHandler 0) core = core"
    using assms by (simp add: core_ok_def deliver_to_def emit_all_def)
  then show ?thesis
    using assms(1) by (simp add: core_ok_def deliver_def kernel_core_routes)
qed

context traffic_count
begin

lemma batch_sum_net_one: "batch_sum wn (net_batch_add e deltas) = batch_sum wn deltas + gn e"
  using batch_sum_net [of wn gn "[e]", OF net_zero net_add] by simp

lemma batch_sum_disk_one: "batch_sum wd (disk_batch_add k e deltas) = batch_sum wd deltas + gd e"
  using batch_sum_disk [of wd gd "[(k, e)]", OF disk_zero disk_add] by simp

text \<open>An event is added to its batch once, and to no other.\<close>
lemma delivered_counts:
  assumes "core_ok handler core" "\<And>e. handler e = []"
  shows "core_ok handler (deliver e now core) \<and>
    rt_sink (deliver e now core) = rt_sink core \<and>
    on_the_way wn wd (deliver e now core) lost = on_the_way wn wd core lost + event_weight gn gd e"
proof -
  obtain disk since net since' where b: "rt_batches core = [slot_of (DiskBatch disk) since, slot_of (NetBatch net) since']"
    using assms(1) unfolding core_ok_def by blast
  have differ: "DISK_IO_TASK_GUID \<noteq> TCPIP_TASK_GUID" "DISK_IO_TASK_GUID \<noteq> UDPIP_TASK_GUID"
    by (simp_all add: guids)
  have disk_one: "batch_sum wd (disk_batch_event (ke_opcode e, ke_user_data e) disk) = batch_sum wd disk +
      (case decode_disk (ke_opcode e) (ke_user_data e) of Some (_, d) \<Rightarrow> gd d | None \<Rightarrow> 0)"
    by (simp add: disk_batch_event_def batch_sum_disk_one split: option.split)
  have net_one: "batch_sum wn (net_batch_event (ke_provider e, ke_opcode e, ke_user_data e) net) = batch_sum wn net +
      (case decode_network (ke_provider e) (ke_opcode e) (ke_user_data e) of Some n \<Rightarrow> gn n | None \<Rightarrow> 0)"
    by (simp add: net_batch_event_def batch_sum_net_one split: option.split)
  consider "ke_user_data e = []" | "ke_user_data e \<noteq> []" "ke_provider e = DISK_IO_TASK_GUID"
    | "ke_user_data e \<noteq> []" "ke_provider e \<in> {TCPIP_TASK_GUID, UDPIP_TASK_GUID}"
    | "ke_user_data e \<noteq> []" "ke_provider e \<notin> {DISK_IO_TASK_GUID, TCPIP_TASK_GUID, UDPIP_TASK_GUID}" by blast
  then show ?thesis
  proof cases
    case 2
    then have d: "deliver e now core = deliver_to e now (ToBatch 0) core" by (simp add: deliver_cases [OF assms])
    show ?thesis
      unfolding d using assms(1) 2 differ b disk_one
      by (auto simp: deliver_to_def core_ok_def slot_of_def on_the_way_def event_weight_def Let_def algebra_simps)
  next
    case 3
    then have "ke_provider e \<noteq> DISK_IO_TASK_GUID" using differ by auto
    then have d: "deliver e now core = deliver_to e now (ToBatch 1) core" using 3 by (simp add: deliver_cases [OF assms])
    show ?thesis
      unfolding d using assms(1) 3 b net_one
      by (auto simp: deliver_to_def core_ok_def slot_of_def on_the_way_def event_weight_def Let_def algebra_simps)
  qed (use assms(1) in \<open>simp_all add: deliver_cases [OF assms] event_weight_def\<close>)
qed

lemma fold_total_net: "total_of (fold (add_net \<circ> snd) deltas m) = total_of m + batch_sum wn deltas"
  by (induction deltas arbitrary: m) (simp_all add: total_net add.assoc)

lemma fold_total_disk: "total_of (fold (add_disk \<circ> snd) deltas m) = total_of m + batch_sum wd deltas"
  by (induction deltas arbitrary: m) (simp_all add: total_disk add.assoc)

lemma applied_counts:
  "total_of (sy_machine_totals (fold system_apply changes s)) =
    total_of (sy_machine_totals s) + sum_list (map (change_weight wn wd) changes)"
proof (induction changes arbitrary: s)
  case (Cons c changes)
  then show ?case by (cases c) (simp_all add: fold_total_net fold_total_disk add.assoc)
qed simp

lemma drain_counts:
  "drain core s = (core', s') \<Longrightarrow>
    total_of (sy_machine_totals s') + on_the_way wn wd core' lost = total_of (sy_machine_totals s) + on_the_way wn wd core lost"
  by (auto simp: drain_def on_the_way_def applied_counts algebra_simps)

end

interpretation rx: traffic_count "\<lambda>d. nd_rx_bytes d - nd_loopback_rx_bytes d" "outside received" "\<lambda>_. 0" "\<lambda>_. 0" to_net_rx_bytes
  by unfold_locales
    (simp_all add: net_delta_add_sums(3) net_delta_default_def add_net_def add_disk_def machine_totals_default_def)

interpretation tx: traffic_count "\<lambda>d. nd_tx_bytes d - nd_loopback_tx_bytes d" "outside sent" "\<lambda>_. 0" "\<lambda>_. 0" to_net_tx_bytes
  by unfold_locales
    (simp_all add: net_delta_add_sums(4) net_delta_default_def add_net_def add_disk_def machine_totals_default_def)

interpretation disk_read: traffic_count "\<lambda>_. 0" "\<lambda>_. 0" dd_read_bytes "disk_bytes DiskRead" to_disk_read_bytes
  by unfold_locales
    (simp_all add: disk_delta_add_sums disk_delta_default_def add_net_def add_disk_def machine_totals_default_def)

interpretation disk_write: traffic_count "\<lambda>_. 0" "\<lambda>_. 0" dd_write_bytes "disk_bytes DiskWrite" to_disk_write_bytes
  by unfold_locales
    (simp_all add: disk_delta_add_sums disk_delta_default_def add_net_def add_disk_def machine_totals_default_def)

text \<open>
  The core as events come, flushes and ticks happen in any order; \<open>lost\<close> are the
  changes the channel had no room for, and whatever else a tick does to its state
  leaves the machine's totals alone.
\<close>
inductive kernel_reach ::
    "handler \<Rightarrow> router_core \<Rightarrow> system_state \<Rightarrow> kernel_event list \<Rightarrow> state_change list \<Rightarrow> bool" for handler where
  kernel_starts: "kernel_reach handler (kernel_core handler) system_state_new [] []"
| kernel_event: "kernel_reach handler core s events lost \<Longrightarrow>
    refused = drop (room (rt_sink core)) (due_changes (ke_timestamp e) (rt_batches (deliver e (ke_timestamp e) core))) \<Longrightarrow>
    kernel_reach handler (router_event e core) s (events @ [e]) (lost @ refused)"
| kernel_flush: "kernel_reach handler core s events lost \<Longrightarrow>
    refused = drop (room (rt_sink core)) (due_changes now (rt_batches core)) \<Longrightarrow>
    kernel_reach handler (router_flush now core) s events (lost @ refused)"
| kernel_tick: "kernel_reach handler core s events lost \<Longrightarrow> drain core s = (core', s') \<Longrightarrow>
    kernel_reach handler core' s' events lost"
| kernel_other: "kernel_reach handler core s events lost \<Longrightarrow> sy_machine_totals s' = sy_machine_totals s \<Longrightarrow>
    kernel_reach handler core s' events lost"

lemma kernel_reach_ok:
  assumes "kernel_reach handler core s events lost" "\<And>e. handler e = []"
  shows "core_ok handler core"
  using assms(1)
proof induction
  case kernel_starts
  show ?case by (rule kernel_core_ok)
next
  case (kernel_event core s events lost refused e)
  then show ?case
    using rx.delivered_counts [OF _ assms(2)] hand_over_ok by (simp add: router_event_def Let_def)
next
  case (kernel_flush core s events lost refused now)
  then show ?case using hand_over_ok by (simp add: router_flush_def)
next
  case (kernel_tick core s events lost core' s')
  then have "core' = core\<lparr>rt_sink := (rt_sink core)\<lparr>sk_queue := []\<rparr>\<rparr>" by (simp add: drain_def)
  then show ?case using kernel_tick.IH by (simp add: core_ok_def)
qed simp

lemma kernel_core_empty:
  "on_the_way wn wd (kernel_core handler) [] = 0"
  by (simp add: kernel_core_def router_start_def builder_on_def builder_route_def register_network_def
      register_disk_def builder_batched_def builder_new_def Let_def on_the_way_def sink_bounded_def)

context traffic_count
begin

lemma kernel_conserves:
  assumes "kernel_reach handler core s events lost" "\<And>e. handler e = []"
  shows "total_of (sy_machine_totals s) + on_the_way wn wd core lost = sum_list (map (event_weight gn gd) events)"
  using assms(1)
proof induction
  case kernel_starts
  then show ?case by (simp add: system_state_new_def total_new kernel_core_empty)
next
  case (kernel_event core s events lost refused e)
  let ?now = "ke_timestamp e"
  have ok: "core_ok handler core" by (rule kernel_reach_ok [OF kernel_event.hyps(1) assms(2)])
  note delivered = delivered_counts [OF ok assms(2), where e = e and now = ?now and lost = lost]
  have "on_the_way wn wd (router_event e core) (lost @ refused) = on_the_way wn wd core lost + event_weight gn gd e"
    using hand_over_moves [of wn wd ?now "deliver e ?now core" lost] delivered kernel_event.hyps(2)
    by (simp add: router_event_def Let_def)
  then show ?case using kernel_event.IH by (simp add: algebra_simps)
next
  case (kernel_flush core s events lost refused now)
  then show ?case using hand_over_moves [of wn wd now core lost] by (simp add: router_flush_def)
next
  case (kernel_tick core s events lost core' s')
  then show ?case using drain_counts by metis
qed simp

end

lemma kernel_dropped:
  assumes "kernel_reach handler core s events lost" "\<And>e. handler e = []"
  shows "sk_dropped (rt_sink core) = of_nat (length lost)"
  using assms(1)
proof induction
  case kernel_starts
  then show ?case
    by (simp add: kernel_core_def router_start_def sink_bounded_def)
next
  case (kernel_event core s events lost refused e)
  have ok: "core_ok handler core" by (rule kernel_reach_ok [OF kernel_event.hyps(1) assms(2)])
  then have "rt_sink (deliver e (ke_timestamp e) core) = rt_sink core"
    using rx.delivered_counts [OF ok assms(2)] by blast
  then show ?case
    using kernel_event by (simp add: router_event_def hand_over_due_eq emit_all_queue(2) Let_def)
next
  case (kernel_flush core s events lost refused now)
  then show ?case by (simp add: router_flush_def hand_over_due_eq emit_all_queue(2))
qed (auto simp: drain_def)

text \<open>
  C23 No byte goes missing between the kernel's events and the machine's totals:
  at any moment what the totals have, together with what is still in a batch, in
  the channel or was dropped for want of room in it, is what the events carried,
  each counter for itself; and the drops are counted.
\<close>
theorem every_byte_is_accounted_for:
  assumes "kernel_reach handler core s events lost" "\<And>e. handler e = []"
  shows
    "to_net_rx_bytes (sy_machine_totals s) + on_the_way (\<lambda>d. nd_rx_bytes d - nd_loopback_rx_bytes d) (\<lambda>_. 0) core lost =
       sum_list (map (event_weight (outside received) (\<lambda>_. 0)) events) \<and>
     to_net_tx_bytes (sy_machine_totals s) + on_the_way (\<lambda>d. nd_tx_bytes d - nd_loopback_tx_bytes d) (\<lambda>_. 0) core lost =
       sum_list (map (event_weight (outside sent) (\<lambda>_. 0)) events) \<and>
     to_disk_read_bytes (sy_machine_totals s) + on_the_way (\<lambda>_. 0) dd_read_bytes core lost =
       sum_list (map (event_weight (\<lambda>_. 0) (disk_bytes DiskRead)) events) \<and>
     to_disk_write_bytes (sy_machine_totals s) + on_the_way (\<lambda>_. 0) dd_write_bytes core lost =
       sum_list (map (event_weight (\<lambda>_. 0) (disk_bytes DiskWrite)) events) \<and>
     sk_dropped (rt_sink core) = of_nat (length lost)"
  using rx.kernel_conserves [OF assms] tx.kernel_conserves [OF assms] disk_read.kernel_conserves [OF assms]
    disk_write.kernel_conserves [OF assms] kernel_dropped [OF assms] by blast

text \<open>A batch does not wait longer than its window once anything comes.\<close>
lemma settled_waits:
  "slot \<in> set (rt_batches (hand_over_due now core)) \<Longrightarrow> bs_since slot = Some since \<Longrightarrow> now - since < bs_window slot"
  by (auto simp: hand_over_due_eq settled_def slot_due_def split: if_splits option.splits)

definition received_event :: kernel_event where
  "received_event =
    \<lparr>ke_provider = TCPIP_TASK_GUID, ke_opcode = 11, ke_timestamp = 1000,
     ke_user_data = [4, 0, 0, 0, 100, 0, 0, 0, 10, 0, 0, 1, 10, 0, 0, 2, 0, 80, 1, 187]\<rparr>"

lemma received_event_weight: "event_weight (outside received) (\<lambda>_. 0) received_event = 100"
  by (simp add: event_weight_def received_event_def decode_network_def network_kind_def read_flow_def read_bytes_def
      v4_loopback_def outside_def received_def Let_def)

text \<open>A received packet, the flush that closes its batch and the tick that applies it.\<close>
lemma every_byte_is_accounted_for_witness:
  "\<exists>core s lost. kernel_reach (\<lambda>_. []) core s [received_event] lost \<and>
    to_net_rx_bytes (sy_machine_totals s) +
      on_the_way (\<lambda>d. nd_rx_bytes d - nd_loopback_rx_bytes d) (\<lambda>_. 0) core lost = 100"
proof -
  obtain lost where "kernel_reach (\<lambda>_. []) (router_event received_event (kernel_core (\<lambda>_. []))) system_state_new [received_event] lost"
    using kernel_event [OF kernel_starts refl] by (metis append_Nil)
  then obtain lost' where flushed: "kernel_reach (\<lambda>_. [])
      (router_flush 200000 (router_event received_event (kernel_core (\<lambda>_. [])))) system_state_new [received_event] lost'"
    using kernel_flush by blast
  obtain core s where "drain (router_flush 200000 (router_event received_event (kernel_core (\<lambda>_. [])))) system_state_new = (core, s)"
    by force
  from kernel_tick [OF flushed this] have "kernel_reach (\<lambda>_. []) core s [received_event] lost'" .
  then show ?thesis
    using every_byte_is_accounted_for [where handler = "\<lambda>_. []"] received_event_weight by fastforce
qed

end
