(* ===== verification/Probes.thy ===== *)
theory Probes
  imports Snapshot
begin

text \<open>
  \<^verbatim>\<open>crates/core/src/probes.rs\<close>: the handle a listed process is kept open with, what
  it is asked through it, and whose turn it is. What Windows answers during one
  \<^verbatim>\<open>sync\<close> is a record of functions; a handle is a number.
\<close>

section \<open>What a handle tells\<close>

type_synonym handle = nat

text \<open>Windows' answers: a failed call is \<open>None\<close>.\<close>
record windows_view =
  wv_open_full :: "u32 \<Rightarrow> handle option"
  wv_open_limited :: "u32 \<Rightarrow> handle option"
  wv_power_state_mask :: "handle \<Rightarrow> u32 option"
  wv_io_priority :: "handle \<Rightarrow> u32 option"

definition PROBE_ROUND :: duration where
  "PROBE_ROUND = secs 10"

definition POWER_THROTTLING_EXECUTION_SPEED :: u32 where
  "POWER_THROTTLING_EXECUTION_SPEED = 1"

record probed =
  pb_power_throttling :: "bool option"
  pb_io_priority :: io_priority

definition probed_default :: probed where
  "probed_default = \<lparr>pb_power_throttling = None, pb_io_priority = IoUnknown\<rparr>"

definition power_throttling :: "windows_view \<Rightarrow> handle \<Rightarrow> bool option" where
  "power_throttling v h =
    map_option (\<lambda>state_mask. and state_mask POWER_THROTTLING_EXECUTION_SPEED \<noteq> 0) (wv_power_state_mask v h)"

definition io_priority :: "windows_view \<Rightarrow> handle \<Rightarrow> io_priority" where
  "io_priority v h =
    (case wv_io_priority v h of
       None \<Rightarrow> IoUnknown
     | Some hint \<Rightarrow>
         if hint = 0 then IoVeryLow else if hint = 1 then IoLow else if hint = 2 then IoNormal
         else if hint = 3 then IoHigh else if hint = 4 then IoCritical else IoUnknown)"

record opened =
  op_sequence_number :: u64
  op_full :: bool
  op_handle :: "handle option"
  op_listed :: u64
  op_probed :: probed

definition probe :: "windows_view \<Rightarrow> opened \<Rightarrow> opened" where
  "probe v o' =
    (case op_handle o' of
       Some h \<Rightarrow>
         o'\<lparr>op_probed := \<lparr>pb_power_throttling = power_throttling v h, pb_io_priority = io_priority v h\<rparr>\<rparr>
     | None \<Rightarrow> o')"

section \<open>The handles\<close>

record open_handles =
  hd_open :: "(u32, opened) hashmap"
  hd_synced :: u64
  hd_last :: "instant option"
  hd_cursor :: u32

definition handles_default :: open_handles where
  "handles_default = \<lparr>hd_open = [], hd_synced = 0, hd_last = None, hd_cursor = 0\<rparr>"

text \<open>The rows before the first whose pid is at or past the cursor.\<close>
definition partition_point :: "('a \<Rightarrow> bool) \<Rightarrow> 'a list \<Rightarrow> nat" where
  "partition_point P xs = length (takeWhile P xs)"

definition div_ceil :: "nat \<Rightarrow> nat \<Rightarrow> nat" where
  "div_ceil a b = (a + (b - 1)) div b"

definition turn :: "row list \<Rightarrow> u32 \<Rightarrow> duration \<Rightarrow> nat \<times> nat \<times> u32" where
  "turn rows cursor since =
    (let share = div_ceil (length rows * since) PROBE_ROUND;
         share = min share (length rows);
         start = partition_point (\<lambda>row. r_pid row < cursor) rows mod max (length rows) 1;
         i = (start + share) mod max (length rows) 1;
         next = (if i < length rows then r_pid (rows ! i) else 0)
     in (start, share, next))"

definition open_row :: "windows_view \<Rightarrow> u64 \<Rightarrow> row \<Rightarrow> opened" where
  "open_row v now row =
    (let full = wv_open_full v (r_pid row)
     in probe v
          \<lparr>op_sequence_number = r_sequence_number row, op_full = full \<noteq> None,
           op_handle = (case full of Some h \<Rightarrow> Some h | None \<Rightarrow> wv_open_limited v (r_pid row)),
           op_listed = now, op_probed = probed_default\<rparr>)"

definition sync_row :: "windows_view \<Rightarrow> u64 \<Rightarrow> row \<Rightarrow> (u32, opened) hashmap \<Rightarrow> (u32, opened) hashmap" where
  "sync_row v now row opens =
    (case hm_get opens (r_pid row) of
       Some o' \<Rightarrow>
         if op_sequence_number o' = r_sequence_number row then hm_put (r_pid row) (o'\<lparr>op_listed := now\<rparr>) opens
         else hm_put (r_pid row) (open_row v now row) opens
     | None \<Rightarrow> hm_put (r_pid row) (open_row v now row) opens)"

definition probe_row :: "windows_view \<Rightarrow> row \<Rightarrow> (u32, opened) hashmap \<Rightarrow> (u32, opened) hashmap" where
  "probe_row v row opens =
    (case hm_get opens (r_pid row) of
       Some o' \<Rightarrow> hm_put (r_pid row) (probe v o') opens
     | None \<Rightarrow> opens)"

text \<open>\<^verbatim>\<open>rows.iter().cycle().skip(start).take(share)\<close>\<close>
definition taken_in_turn :: "'a list \<Rightarrow> nat \<Rightarrow> nat \<Rightarrow> 'a list" where
  "taken_in_turn rows start share =
    (if rows = [] then [] else map (\<lambda>k. rows ! ((start + k) mod length rows)) [0..<share])"

definition handles_sync :: "windows_view \<Rightarrow> row list \<Rightarrow> instant \<Rightarrow> open_handles \<Rightarrow> open_handles" where
  "handles_sync v rows at h =
    (let now = hd_synced h + 1;
         opens = fold (sync_row v now) rows (hd_open h);
         opens = filter (\<lambda>(_, o'). op_listed o' = now) opens;
         since = (case hd_last h of None \<Rightarrow> 0 | Some t \<Rightarrow> at - t);
         (start, share, next) = turn rows (hd_cursor h) since
     in \<lparr>hd_open = fold (probe_row v) (taken_in_turn rows start share) opens,
         hd_synced = now, hd_last = Some at, hd_cursor = next\<rparr>)"

definition handles_get :: "open_handles \<Rightarrow> u32 \<Rightarrow> handle option" where
  "handles_get h pid = Option.bind (hm_get (hd_open h) pid) op_handle"

definition handles_full :: "open_handles \<Rightarrow> u32 \<Rightarrow> handle option" where
  "handles_full h pid =
    (case hm_get (hd_open h) pid of None \<Rightarrow> None | Some o' \<Rightarrow> if op_full o' then op_handle o' else None)"

definition handles_probed :: "open_handles \<Rightarrow> u32 \<Rightarrow> probed" where
  "handles_probed h pid = (case hm_get (hd_open h) pid of Some o' \<Rightarrow> op_probed o' | None \<Rightarrow> probed_default)"

section \<open>One turn after another\<close>

lemma div_ceil_ge:
  assumes "0 < b"
  shows "a \<le> div_ceil a b * b"
proof -
  have "(a + (b - 1)) div b * b + (a + (b - 1)) mod b = a + (b - 1)" by (rule div_mult_mod_eq)
  moreover have "(a + (b - 1)) mod b < b" by (rule mod_less_divisor [OF assms])
  ultimately show ?thesis unfolding div_ceil_def by linarith
qed

text \<open>How many rows after the row a turn starts with a row is, going round.\<close>
definition steps_to :: "nat \<Rightarrow> nat \<Rightarrow> nat \<Rightarrow> nat" where
  "steps_to n s j = (if s \<le> j then j - s else j + n - s)"

definition turn_start :: "row list \<Rightarrow> u32 \<Rightarrow> nat" where
  "turn_start rows cursor = partition_point (\<lambda>row. r_pid row < cursor) rows mod max (length rows) 1"

lemma turn_start_less: "rows \<noteq> [] \<Longrightarrow> turn_start rows cursor < length rows"
  by (simp add: turn_start_def max_def Suc_le_eq)

lemma partition_point_at:
  "sorted_wrt (<) (map r_pid rows) \<Longrightarrow> i < length rows \<Longrightarrow>
    partition_point (\<lambda>row. r_pid row < r_pid (rows ! i)) rows = i"
proof (induction rows arbitrary: i)
  case (Cons r rows)
  show ?case
  proof (cases i)
    case 0
    then show ?thesis by (simp add: partition_point_def)
  next
    case (Suc k)
    then have k: "k < length rows" using Cons.prems(2) by simp
    then have "r_pid r < r_pid (rows ! k)" using Cons.prems(1) by simp
    then show ?thesis using Cons.IH [OF _ k] Cons.prems(1) Suc by (simp add: partition_point_def)
  qed
qed simp

lemma turn_reaches:
  assumes n: "length rows = n" "j < n" and s: "s < n" and d: "steps_to n s j < share"
  shows "rows ! j \<in> set (taken_in_turn rows s share)"
proof -
  have "(s + steps_to n s j) mod n = j"
    using n s by (simp add: steps_to_def)
  then show ?thesis
    using n d by (force simp: taken_in_turn_def)
qed

lemma steps_to_next:
  assumes "s < n" "j < n" "share \<le> steps_to n s j"
  shows "steps_to n s j = share + steps_to n ((s + share) mod n) j"
proof (cases "s + share < n")
  case True
  then show ?thesis using assms by (auto simp: steps_to_def split: if_splits)
next
  case False
  then have "(s + share) mod n = s + share - n" 
    using assms by (simp add: steps_to_def le_mod_geq split: if_splits)
  then show ?thesis using assms False by (auto simp: steps_to_def split: if_splits)
qed

section \<open>One sync\<close>

text \<open>What a process with this handle is read as.\<close>
definition asked_of :: "windows_view \<Rightarrow> handle option \<Rightarrow> probed" where
  "asked_of v h' =
    (case h' of
       Some h \<Rightarrow> \<lparr>pb_power_throttling = power_throttling v h, pb_io_priority = io_priority v h\<rparr>
     | None \<Rightarrow> probed_default)"

definition opened_ok :: "u64 \<Rightarrow> opened \<Rightarrow> bool" where
  "opened_ok now o' \<longleftrightarrow> op_listed o' = now \<and> (op_handle o' = None \<longrightarrow> op_probed o' = probed_default)"

definition handles_ok :: "open_handles \<Rightarrow> bool" where
  "handles_ok h \<longleftrightarrow> hm_ok (hd_open h) \<and>
    (\<forall>pid o'. hm_get (hd_open h) pid = Some o' \<longrightarrow> opened_ok (hd_synced h) o')"

lemma handles_ok_default: "handles_ok handles_default"
  by (simp add: handles_ok_def handles_default_def)

lemma probe_fields [simp]:
  "op_sequence_number (probe v o') = op_sequence_number o'" "op_full (probe v o') = op_full o'"
  "op_handle (probe v o') = op_handle o'" "op_listed (probe v o') = op_listed o'"
  by (simp_all add: probe_def split: option.split)

lemma probe_asks: "opened_ok now o' \<Longrightarrow> op_probed (probe v o') = asked_of v (op_handle o')"
  by (simp add: probe_def asked_of_def opened_ok_def split: option.split)

lemma probe_ok: "opened_ok now o' \<Longrightarrow> opened_ok now (probe v o')"
  by (auto simp: opened_ok_def probe_def split: option.splits)

lemma probe_twice [simp]: "probe v (probe v o') = probe v o'"
  by (simp add: probe_def split: option.split)

text \<open>What a row's entry is once the row was seen, given what it was.\<close>
definition synced_entry :: "windows_view \<Rightarrow> u64 \<Rightarrow> row \<Rightarrow> opened option \<Rightarrow> opened" where
  "synced_entry v now row before =
    (case before of
       Some o' \<Rightarrow>
         if op_sequence_number o' = r_sequence_number row then o'\<lparr>op_listed := now\<rparr> else open_row v now row
     | None \<Rightarrow> open_row v now row)"

lemma sync_row_eq:
  "sync_row v now row opens = hm_put (r_pid row) (synced_entry v now row (hm_get opens (r_pid row))) opens"
  by (simp add: sync_row_def synced_entry_def split: option.split)

lemma open_row_fields [simp]:
  "op_sequence_number (open_row v now row) = r_sequence_number row" "op_listed (open_row v now row) = now"
  by (simp_all add: open_row_def Let_def)

lemma open_row_asks: "op_probed (open_row v now row) = asked_of v (op_handle (open_row v now row))"
  by (simp add: open_row_def probe_def asked_of_def Let_def split: option.split)

lemma synced_entry_ok:
  "(\<And>o'. before = Some o' \<Longrightarrow> opened_ok earlier o') \<Longrightarrow> opened_ok now (synced_entry v now row before)"
  by (auto simp: synced_entry_def opened_ok_def open_row_asks asked_of_def split: option.splits)

lemma synced_entry_fields [simp]:
  "op_sequence_number (synced_entry v now row before) = r_sequence_number row"
  "op_listed (synced_entry v now row before) = now"
  by (simp_all add: synced_entry_def split: option.split)

lemma sync_rows_get:
  "distinct (map r_pid rows) \<Longrightarrow>
    hm_ok opens \<Longrightarrow>
    hm_ok (fold (sync_row v now) rows opens) \<and>
    (\<forall>row \<in> set rows. hm_get (fold (sync_row v now) rows opens) (r_pid row) =
      Some (synced_entry v now row (hm_get opens (r_pid row)))) \<and>
    (\<forall>pid. pid \<notin> r_pid ` set rows \<longrightarrow> hm_get (fold (sync_row v now) rows opens) pid = hm_get opens pid)"
proof (induction rows arbitrary: opens)
  case (Cons row rows)
  let ?next = "sync_row v now row opens"
  have ok: "hm_ok ?next" and get: "hm_get ?next = (hm_get opens)(r_pid row \<mapsto> synced_entry v now row (hm_get opens (r_pid row)))"
    using Cons.prems(2) by (simp_all add: sync_row_eq hm)
  have d: "distinct (map r_pid rows)" and fresh: "r_pid row \<notin> r_pid ` set rows" using Cons.prems(1) by simp_all
  note ih = Cons.IH [OF d ok]
  have "hm_get (fold (sync_row v now) rows ?next) (r_pid r) = Some (synced_entry v now r (hm_get opens (r_pid r)))"
    if "r \<in> set (row # rows)" for r
  proof (cases "r = row")
    case True
    then show ?thesis using ih fresh get by simp
  next
    case False
    then have "r \<in> set rows" using that by simp
    moreover from this have "r_pid r \<noteq> r_pid row" using fresh by (metis image_eqI)
    ultimately show ?thesis using ih get by simp
  qed
  moreover have "hm_get (fold (sync_row v now) rows ?next) pid = hm_get opens pid"
    if "pid \<notin> r_pid ` set (row # rows)" for pid
    using ih get that by simp
  ultimately show ?case using ih by simp
qed simp

lemma probe_rows_get:
  "hm_get (fold (probe_row v) rs opens) pid =
    map_option (\<lambda>o'. if pid \<in> r_pid ` set rs then probe v o' else o') (hm_get opens pid)"
proof (induction rs arbitrary: opens)
  case (Cons r rs)
  have "hm_get (probe_row v r opens) pid =
      map_option (\<lambda>o'. if pid = r_pid r then probe v o' else o') (hm_get opens pid)"
    by (cases "hm_get opens (r_pid r)"; cases "hm_get opens pid") (auto simp: probe_row_def hm)
  then have "hm_get (fold (probe_row v) (r # rs) opens) pid =
      map_option (\<lambda>o'. if pid \<in> r_pid ` set rs then probe v o' else o')
        (map_option (\<lambda>o'. if pid = r_pid r then probe v o' else o') (hm_get opens pid))"
    by (simp only: fold_simps comp_apply Cons.IH)
  then show ?case by (cases "hm_get opens pid") auto
qed (simp add: option.map_ident)

lemma probe_rows_ok: "hm_ok opens \<Longrightarrow> hm_ok (fold (probe_row v) rs opens)"
  by (induction rs arbitrary: opens) (simp_all add: probe_row_def split: option.split)

lemma handles_sync_eq:
  assumes "hd_last h = Some t"
  shows "handles_sync v rows at h =
    (let share = fst (snd (turn rows (hd_cursor h) (at - t)))
     in \<lparr>hd_open = fold (probe_row v) (taken_in_turn rows (turn_start rows (hd_cursor h)) share)
          (filter (\<lambda>(_, o'). op_listed o' = hd_synced h + 1) (fold (sync_row v (hd_synced h + 1)) rows (hd_open h))),
         hd_synced = hd_synced h + 1, hd_last = Some at,
         hd_cursor = snd (snd (turn rows (hd_cursor h) (at - t)))\<rparr>)"
  using assms by (simp add: handles_sync_def turn_def turn_start_def Let_def)

text \<open>After a sync the handles are those of the listed processes, each as it was or read just now.\<close>
lemma sync_entries:
  assumes ok: "handles_ok h" and d: "distinct (map r_pid rows)"
  shows "handles_ok (handles_sync v rows at h) \<and>
    hm_keys (hd_open (handles_sync v rows at h)) = r_pid ` set rows \<and>
    (\<forall>row \<in> set rows. \<exists>o'. hm_get (hd_open (handles_sync v rows at h)) (r_pid row) = Some o' \<and>
      o' = (let before = synced_entry v (hd_synced h + 1) row (hm_get (hd_open h) (r_pid row));
                (start, share, _) = turn rows (hd_cursor h) (case hd_last h of None \<Rightarrow> 0 | Some t \<Rightarrow> at - t)
            in if r_pid row \<in> r_pid ` set (taken_in_turn rows start share) then probe v before else before))"
proof -
  define now where "now = hd_synced h + 1"
  obtain start share after where t:
      "turn rows (hd_cursor h) (case hd_last h of None \<Rightarrow> 0 | Some t \<Rightarrow> at - t) = (start, share, after)"
    using prod_cases3 by blast
  define synced where "synced = fold (sync_row v now) rows (hd_open h)"
  define kept where "kept = filter (\<lambda>(_, o'). op_listed o' = now) synced"
  define turned where "turned = fold (probe_row v) (taken_in_turn rows start share) kept"
  have h': "hd_open (handles_sync v rows at h) = turned" "hd_synced (handles_sync v rows at h) = now"
    by (simp_all add: handles_sync_def t now_def turned_def kept_def synced_def Let_def)
  have hok: "hm_ok (hd_open h)" "\<And>pid o'. hm_get (hd_open h) pid = Some o' \<Longrightarrow> opened_ok (hd_synced h) o'"
    using ok by (simp_all add: handles_ok_def)
  note rows_get = sync_rows_get [OF d hok(1), of v now, folded synced_def]
  have synced_ok: "hm_ok synced" using rows_get by blast
  then have kept_ok: "hm_ok kept" by (simp add: kept_def)
  have kept_get: "hm_get kept pid = (case hm_get synced pid of Some o' \<Rightarrow> if op_listed o' = now then Some o' else None | None \<Rightarrow> None)" for pid
    by (simp add: kept_def hm_get_filter [OF synced_ok] split: option.split)
  have differ: "hd_synced h \<noteq> now" by (simp add: now_def)
  have kept_out: "hm_get kept pid = None" if "pid \<notin> r_pid ` set rows" for pid
    using rows_get that hok(2) differ by (auto simp: kept_get opened_ok_def split: option.split)
  have kept_in: "hm_get kept (r_pid row) = Some (synced_entry v now row (hm_get (hd_open h) (r_pid row)))"
    if "row \<in> set rows" for row
    using rows_get that by (simp add: kept_get)
  have turned_get: "hm_get turned pid =
      map_option (\<lambda>o'. if pid \<in> r_pid ` set (taken_in_turn rows start share) then probe v o' else o') (hm_get kept pid)" for pid
    by (simp add: turned_def probe_rows_get)
  have "opened_ok now o'" if got: "hm_get turned pid = Some o'" for pid o'
  proof -
    have "pid \<in> r_pid ` set rows"
    proof (rule ccontr)
      assume "pid \<notin> r_pid ` set rows"
      from kept_out [OF this] got show False by (simp add: turned_get)
    qed
    then obtain row where row: "row \<in> set rows" "pid = r_pid row" by blast
    have "opened_ok now (synced_entry v now row (hm_get (hd_open h) (r_pid row)))"
      by (rule synced_entry_ok) (rule hok(2))
    then show ?thesis using got probe_ok kept_in [OF row(1)] by (auto simp: turned_get row(2) split: if_splits)
  qed
  then have "handles_ok (handles_sync v rows at h)"
    using kept_ok by (simp add: handles_ok_def h') (simp add: turned_def probe_rows_ok)
  moreover have "hm_keys turned = r_pid ` set rows"
  proof -
    have "pid \<in> hm_keys turned \<longleftrightarrow> hm_get turned pid \<noteq> None" for pid by (rule hm_keys_get)
    moreover have "hm_get turned pid \<noteq> None \<longleftrightarrow> pid \<in> r_pid ` set rows" for pid
      using kept_out [of pid] kept_in by (cases "pid \<in> r_pid ` set rows") (auto simp: turned_get)
    ultimately show ?thesis by blast
  qed
  ultimately show ?thesis
    using kept_in turned_get by (simp add: h' t now_def)
qed

section \<open>A round of turns\<close>

definition handles_syncs :: "row list \<Rightarrow> (instant \<times> windows_view) list \<Rightarrow> open_handles \<Rightarrow> open_handles" where
  "handles_syncs rows steps h = fold (\<lambda>(at, v). handles_sync v rows at) steps h"

text \<open>The entry of a listed process is as one of these steps read it.\<close>
definition read_by :: "windows_view set \<Rightarrow> row \<Rightarrow> open_handles \<Rightarrow> bool" where
  "read_by vs row h \<longleftrightarrow>
    (\<exists>o' v. hm_get (hd_open h) (r_pid row) = Some o' \<and> op_sequence_number o' = r_sequence_number row \<and>
      v \<in> vs \<and> op_probed o' = asked_of v (op_handle o'))"

lemma read_by_mono: "read_by vs row h \<Longrightarrow> vs \<subseteq> ws \<Longrightarrow> read_by ws row h"
  unfolding read_by_def by blast

lemma turn_next:
  assumes "sorted_wrt (<) (map r_pid rows)" "rows \<noteq> []"
    and "turn rows cursor since = (start, share, after)"
  shows "start = turn_start rows cursor \<and> share \<le> length rows \<and>
    turn_start rows after = (start + share) mod length rows \<and>
    (share < length rows \<longrightarrow> length rows * since \<le> share * PROBE_ROUND)"
proof -
  let ?n = "length rows"
  have n: "max ?n 1 = ?n" using assms(2) by (cases rows) simp_all
  have start: "start = turn_start rows cursor"
    and share: "share = min (div_ceil (?n * since) PROBE_ROUND) ?n"
    and "after = (if (start + share) mod ?n < ?n then r_pid (rows ! ((start + share) mod ?n)) else 0)"
    using assms(3) unfolding turn_def turn_start_def n Let_def prod.inject by blast+
  then have after: "after = r_pid (rows ! ((start + share) mod ?n))" using assms(2) by simp
  have "(start + share) mod ?n < ?n" using assms(2) by simp
  then have "turn_start rows after = (start + share) mod ?n"
    using partition_point_at [OF assms(1)] by (simp add: after turn_start_def n)
  moreover have "?n * since \<le> div_ceil (?n * since) PROBE_ROUND * PROBE_ROUND"
    by (rule div_ceil_ge) (simp add: PROBE_ROUND_def)
  ultimately show ?thesis using start share by simp
qed

lemma sorted_distinct_pids: "sorted_wrt (<) (map r_pid rows) \<Longrightarrow> distinct (map r_pid rows)"
  by (simp add: strict_sorted_iff)

text \<open>A process is read in a sync, or as many rows nearer to its turn as the time since is worth.\<close>
lemma sync_step:
  fixes v :: windows_view and at :: instant
  assumes ok: "handles_ok h" and at: "hd_last h = Some t"
    and sorted: "sorted_wrt (<) (map r_pid rows)" and j: "j < length rows"
  defines "h' \<equiv> handles_sync v rows at h"
  shows "handles_ok h' \<and> hd_last h' = Some at \<and>
    (read_by {v} (rows ! j) h' \<or>
     (\<exists>share. steps_to (length rows) (turn_start rows (hd_cursor h)) j =
          share + steps_to (length rows) (turn_start rows (hd_cursor h')) j \<and>
        length rows * (at - t) \<le> share * PROBE_ROUND)) \<and>
    (\<forall>vs. read_by vs (rows ! j) h \<longrightarrow> read_by (insert v vs) (rows ! j) h')"
proof -
  let ?row = "rows ! j" and ?n = "length rows"
  define before where "before = synced_entry v (hd_synced h + 1) ?row (hm_get (hd_open h) (r_pid ?row))"
  obtain start share after where t: "turn rows (hd_cursor h) (at - t) = (start, share, after)"
    using prod_cases3 by blast
  have ne: "rows \<noteq> []" using j by auto
  note next_turn = turn_next [OF sorted ne t]
  have in_rows: "?row \<in> set rows" using j by simp
  have cursor: "hd_cursor h' = after" "hd_last h' = Some at"
    using handles_sync_eq [OF at] t by (simp_all add: h'_def)
  note entries = sync_entries [OF ok sorted_distinct_pids [OF sorted], of v at, folded h'_def]
  have entry: "hm_get (hd_open h') (r_pid ?row) =
      Some (if r_pid ?row \<in> r_pid ` set (taken_in_turn rows start share) then probe v before else before)"
    using entries in_rows by (simp add: at t before_def Let_def)
  have before_ok: "opened_ok (hd_synced h + 1) before"
    unfolding before_def using ok by (intro synced_entry_ok [of _ "hd_synced h"]) (simp add: handles_ok_def)
  have "read_by {v} ?row h'" if "?row \<in> set (taken_in_turn rows start share)"
    using entry that probe_asks [OF before_ok, of v] by (auto simp: read_by_def before_def)
  moreover have "\<exists>share. steps_to ?n (turn_start rows (hd_cursor h)) j =
        share + steps_to ?n (turn_start rows after) j \<and> ?n * (at - t) \<le> share * PROBE_ROUND"
    if out: "?row \<notin> set (taken_in_turn rows start share)"
  proof -
    have s: "start < ?n" using next_turn turn_start_less [OF ne] by simp
    have far: "share \<le> steps_to ?n start j"
      using turn_reaches [OF refl j s] out by (meson not_le)
    moreover have "steps_to ?n start j < ?n" using s j by (auto simp: steps_to_def)
    ultimately have "?n * (at - t) \<le> share * PROBE_ROUND" using next_turn by simp
    then show ?thesis using steps_to_next [OF s j far] next_turn by metis
  qed
  moreover have "read_by (insert v vs) ?row h'" if r: "read_by vs ?row h" for vs
  proof -
    obtain o' w where o': "hm_get (hd_open h) (r_pid ?row) = Some o'"
        "op_sequence_number o' = r_sequence_number ?row" "w \<in> vs" "op_probed o' = asked_of w (op_handle o')"
      using r by (auto simp: read_by_def)
    then have b: "before = o'\<lparr>op_listed := hd_synced h + 1\<rparr>" by (simp add: before_def synced_entry_def)
    show ?thesis
      using entry o' probe_asks [OF before_ok, of v] by (auto simp: read_by_def b split: if_splits)
  qed
  ultimately show ?thesis using entries cursor by blast
qed

lemma syncs_read:
  assumes "handles_ok h" "hd_last h = Some t" "sorted_wrt (<) (map r_pid rows)" "j < length rows"
    "sorted (t # map fst steps)"
  shows "handles_ok (handles_syncs rows steps h) \<and> hd_last (handles_syncs rows steps h) = Some (last (t # map fst steps)) \<and>
    (read_by (snd ` set steps) (rows ! j) (handles_syncs rows steps h) \<or>
     (\<exists>share. steps_to (length rows) (turn_start rows (hd_cursor h)) j =
          share + steps_to (length rows) (turn_start rows (hd_cursor (handles_syncs rows steps h))) j \<and>
        length rows * (last (t # map fst steps) - t) \<le> share * PROBE_ROUND))"
  using assms(5)
proof (induction steps rule: rev_induct)
  case Nil
  then show ?case using assms by (simp add: handles_syncs_def)
next
  case (snoc step steps)
  obtain at v where step: "step = (at, v)" by force
  let ?n = "length rows" and ?t = "last (t # map fst steps)" and ?h = "handles_syncs rows steps h"
  let ?to = "\<lambda>h. steps_to (length rows) (turn_start rows (hd_cursor h)) j"
  have sorted: "sorted (t # map fst steps)" using snoc.prems by (simp add: sorted_append)
  note ih = snoc.IH [OF sorted]
  have next_h: "handles_syncs rows (steps @ [step]) h = handles_sync v rows at ?h"
    by (simp add: handles_syncs_def step)
  have later: "?t \<le> at" "t \<le> ?t"
    using snoc.prems last_in_set [of "t # map fst steps"] by (auto simp: step sorted_append simp del: last.simps)
  note one = sync_step [OF conjunct1 [OF ih] conjunct1 [OF conjunct2 [OF ih]] assms(3,4), of v at]
  have read: "read_by (snd ` set (steps @ [step])) (rows ! j) (handles_sync v rows at ?h)"
    if "read_by (snd ` set steps) (rows ! j) ?h \<or> read_by {v} (rows ! j) (handles_sync v rows at ?h)"
  proof -
    have "read_by (insert v (snd ` set steps)) (rows ! j) (handles_sync v rows at ?h)"
      using that one read_by_mono [of "{v}" _ _ "insert v (snd ` set steps)"] by blast
    then show ?thesis by (simp add: step)
  qed
  have farther: "\<exists>share. ?to h = share + ?to (handles_sync v rows at ?h) \<and> ?n * (at - t) \<le> share * PROBE_ROUND"
    if "?to h = a + ?to ?h" "?n * (?t - t) \<le> a * PROBE_ROUND"
      "?to ?h = b + ?to (handles_sync v rows at ?h)" "?n * (at - ?t) \<le> b * PROBE_ROUND" for a b
  proof -
    have "at - t = (?t - t) + (at - ?t)" using later by simp
    then have "?n * (at - t) = ?n * (?t - t) + ?n * (at - ?t)" by (simp only: distrib_left)
    also have "\<dots> \<le> (a + b) * PROBE_ROUND" using that by (simp add: distrib_right)
    finally show ?thesis using that by (intro exI [of _ "a + b"]) simp
  qed
  have "last (t # map fst (steps @ [step])) = at" by (simp add: step)
  then show ?case unfolding next_h using one ih read farther by blast
qed

text \<open>
  C24 Whatever the listed processes answer and however the syncs fall: once
  \<^verbatim>\<open>PROBE_ROUND\<close> has passed over syncs of one list, every process of the list has
  been read by one of them and is told as it answered there, a process that could
  not be opened as the default.
\<close>
theorem every_process_is_probed_in_a_round:
  assumes "handles_ok h" "hd_last h = Some t"
    and "sorted_wrt (<) (map r_pid rows)" "sorted (t # map fst steps)"
    and "last (t # map fst steps) - t \<ge> PROBE_ROUND" "row \<in> set rows"
  shows "\<exists>o' v. hm_get (hd_open (handles_syncs rows steps h)) (r_pid row) = Some o' \<and>
      op_sequence_number o' = r_sequence_number row \<and> v \<in> snd ` set steps \<and>
      handles_probed (handles_syncs rows steps h) (r_pid row) = asked_of v (op_handle o')"
proof -
  obtain j where j: "j < length rows" "row = rows ! j" using assms(6) by (metis in_set_conv_nth)
  let ?n = "length rows"
  have "\<not> ?n * (last (t # map fst steps) - t) \<le> share * PROBE_ROUND"
    if "steps_to ?n (turn_start rows (hd_cursor h)) j = share + more" for share more
  proof -
    have ne: "rows \<noteq> []" using j by auto
    have "share < ?n"
      using that j turn_start_less [OF ne, of "hd_cursor h"] by (auto simp: steps_to_def split: if_splits)
    then have "share * PROBE_ROUND < ?n * PROBE_ROUND" by (simp add: PROBE_ROUND_def)
    also have "\<dots> \<le> ?n * (last (t # map fst steps) - t)" using assms(5) by simp
    finally show ?thesis by simp
  qed
  then have "read_by (snd ` set steps) row (handles_syncs rows steps h)"
    using syncs_read [OF assms(1-3) j(1) assms(4)] j(2) by blast
  then obtain o' v where "hm_get (hd_open (handles_syncs rows steps h)) (r_pid row) = Some o'"
      "op_sequence_number o' = r_sequence_number row" "v \<in> snd ` set steps" "op_probed o' = asked_of v (op_handle o')"
    unfolding read_by_def by blast
  then show ?thesis by (intro exI [of _ o'] exI [of _ v]) (simp add: handles_probed_def)
qed

definition two_rows :: "row list" where
  "two_rows = [row_default\<lparr>r_pid := 4\<rparr>, row_default\<lparr>r_pid := 8\<rparr>]"

text \<open>A view in which every process opens and is throttled or not.\<close>
definition throttled_view :: "bool \<Rightarrow> windows_view" where
  "throttled_view b =
    \<lparr>wv_open_full = (\<lambda>pid. Some (unat pid)), wv_open_limited = (\<lambda>_. None),
     wv_power_state_mask = (\<lambda>_. Some (if b then 1 else 0)), wv_io_priority = (\<lambda>_. Some 2)\<rparr>"

lemma every_process_is_probed_in_a_round_witness:
  "\<exists>(o' :: opened) v. handles_probed
      (handles_syncs two_rows [(secs 5, throttled_view True), (secs 10, throttled_view False)]
        (handles_sync (throttled_view True) two_rows 0 handles_default)) 8 = asked_of v (op_handle o') \<and>
    v \<in> {throttled_view True, throttled_view False}"
proof -
  let ?h = "handles_sync (throttled_view True) two_rows 0 handles_default"
  let ?steps = "[(secs 5, throttled_view True), (secs 10, throttled_view False)]"
  have ok: "handles_ok ?h"
    using sync_entries [OF handles_ok_default, of two_rows "throttled_view True" 0] by (simp add: two_rows_def)
  have at: "hd_last ?h = Some 0" by (simp add: handles_sync_def split_def Let_def)
  have sorted: "sorted_wrt (<) (map r_pid two_rows)" by (simp add: two_rows_def)
  have steps: "sorted (0 # map fst ?steps)" "last (0 # map fst ?steps) - 0 \<ge> PROBE_ROUND"
    by (simp_all add: PROBE_ROUND_def)
  have row: "row_default\<lparr>r_pid := 8\<rparr> \<in> set two_rows" by (simp add: two_rows_def)
  have pid: "r_pid (row_default\<lparr>r_pid := 8\<rparr>) = 8" by simp
  have views: "snd ` set ?steps = {throttled_view True, throttled_view False}" by simp
  define h where "h = handles_syncs two_rows ?steps ?h"
  note every_process_is_probed_in_a_round [OF ok at sorted steps row, folded h_def, unfolded pid views]
  then show ?thesis unfolding h_def by blast
qed

text \<open>
  The round holds for a list that stays. When processes that had their turn leave,
  the share of a turn shrinks with the list while as many wait as before: of the
  four processes here the last one is still told as it answered 10 s ago.
\<close>
definition four_rows :: "row list" where
  "four_rows = map (\<lambda>pid. row_default\<lparr>r_pid := pid\<rparr>) [4, 8, 12, 16]"

definition throttled_entry :: "bool \<Rightarrow> u32 \<Rightarrow> u64 \<Rightarrow> u32 \<times> opened" where
  "throttled_entry b pid now =
    (pid, \<lparr>op_sequence_number = 0, op_full = True, op_handle = Some (unat pid), op_listed = now,
       op_probed = \<lparr>pb_power_throttling = Some b, pb_io_priority = IoNormal\<rparr>\<rparr>)"

lemmas sync_by_hand = handles_sync_def turn_def partition_point_def div_ceil_def PROBE_ROUND_def taken_in_turn_def
  sync_row_def open_row_def probe_row_def probe_def throttled_view_def power_throttling_def io_priority_def
  POWER_THROTTLING_EXECUTION_SPEED_def handles_default_def four_rows_def throttled_entry_def row_default_def

lemma four_first:
  "handles_sync (throttled_view True) four_rows 0 handles_default =
    \<lparr>hd_open = map (\<lambda>pid. throttled_entry True pid 1) [4, 8, 12, 16],
     hd_synced = 1, hd_last = Some 0, hd_cursor = 4\<rparr>"
  by (simp add: sync_by_hand)

lemma four_second:
  "handles_sync (throttled_view False) four_rows (secs 5)
     \<lparr>hd_open = map (\<lambda>pid. throttled_entry True pid 1) [4, 8, 12, 16],
      hd_synced = 1, hd_last = Some 0, hd_cursor = 4\<rparr> =
   \<lparr>hd_open = [throttled_entry False 4 2, throttled_entry False 8 2, throttled_entry True 12 2, throttled_entry True 16 2],
    hd_synced = 2, hd_last = Some (secs 5), hd_cursor = 12\<rparr>"
  by (simp add: sync_by_hand upt_conv_Cons)

lemma four_third:
  "handles_sync (throttled_view False) (drop 2 four_rows) (secs 10)
     \<lparr>hd_open = [throttled_entry False 4 2, throttled_entry False 8 2, throttled_entry True 12 2, throttled_entry True 16 2],
      hd_synced = 2, hd_last = Some (secs 5), hd_cursor = 12\<rparr> =
   \<lparr>hd_open = [throttled_entry False 12 3, throttled_entry True 16 3],
    hd_synced = 3, hd_last = Some (secs 10), hd_cursor = 16\<rparr>"
  by (simp add: sync_by_hand upt_conv_Cons)

lemma a_shrinking_list_takes_longer:
  "let h = handles_sync (throttled_view True) four_rows 0 handles_default;
       h = handles_sync (throttled_view False) four_rows (secs 5) h;
       h = handles_sync (throttled_view False) (drop 2 four_rows) (secs 10) h
   in handles_probed h 12 = \<lparr>pb_power_throttling = Some False, pb_io_priority = IoNormal\<rparr> \<and>
      handles_probed h 16 = \<lparr>pb_power_throttling = Some True, pb_io_priority = IoNormal\<rparr>"
  unfolding Let_def four_first four_second four_third by (simp add: handles_probed_def throttled_entry_def)

end
