(* ===== verification/Prober.thy ===== *)
theory Prober
  imports Sample
begin

text \<open>
  \<^verbatim>\<open>crates/core/src/providers/prober.rs\<close>: a worker that probes the processes it is
  handed whenever they are due, and what its three users make of it
  (\<^verbatim>\<open>mapped.rs\<close>, \<^verbatim>\<open>vm_host.rs\<close>, \<^verbatim>\<open>vm_memory.rs\<close>): when a process is due, whom they hand
  on and what they tell. What happens as the worker comes to the \<open>k\<close>-th process of a
  round is the \<open>k\<close>-th moment.
\<close>

section \<open>The worker\<close>

definition FULL_ROUND :: duration where
  "FULL_ROUND = secs 300"

definition REST :: nat where
  "REST = 3"

record listed =
  ls_pid :: u32
  ls_sequence_number :: u64
  ls_shared :: u64

record seen =
  sn_sequence_number :: u64
  sn_shared :: u64
  sn_at :: instant

type_synonym is_due = "seen option \<Rightarrow> listed \<Rightarrow> instant \<Rightarrow> bool"

text \<open>\<^verbatim>\<open>probed\<close> is shared with whoever asks, \<^verbatim>\<open>seen\<close> is the worker's own.\<close>
record 'a worker =
  wk_seen :: "(u32, seen) hashmap"
  wk_probed :: "(u32, u64 \<times> 'a) hashmap"

definition worker_new :: "'a worker" where
  "worker_new = \<lparr>wk_seen = [], wk_probed = []\<rparr>"

text \<open>
  As the worker comes to a process: whether a newer list waits, what the time is, what
  the probe of a pid answers and how long it takes, and whether the worker was stopped
  while it rested after it.
\<close>
record 'a moment =
  mo_newer :: bool
  mo_at :: instant
  mo_answer :: "u32 \<Rightarrow> 'a"
  mo_took :: duration
  mo_stopped :: bool

definition shared :: "row \<Rightarrow> u64" where
  "shared row = sat_sub (r_working_set row) (r_private_working_set row)"

text \<open>\<^verbatim>\<open>Prober::read\<close>: the list it hands the worker.\<close>
definition prober_read :: "row list \<Rightarrow> listed list" where
  "prober_read rows =
    map (\<lambda>row. \<lparr>ls_pid = r_pid row, ls_sequence_number = r_sequence_number row, ls_shared = shared row\<rparr>) rows"

text \<open>\<^verbatim>\<open>Prober::get\<close>\<close>
definition prober_get :: "'a worker \<Rightarrow> row \<Rightarrow> 'a option" where
  "prober_get w row =
    (case hm_get (wk_probed w) (r_pid row) of
       Some (sequence_number, answer) \<Rightarrow> if sequence_number = r_sequence_number row then Some answer else None
     | None \<Rightarrow> None)"

text \<open>The list received, or the last of those that wait behind it.\<close>
definition newest :: "'b \<Rightarrow> 'b list \<Rightarrow> 'b" where
  "newest list waiting = (if waiting = [] then list else last waiting)"

definition still_listed :: "(u32, u64) hashmap \<Rightarrow> u32 \<Rightarrow> u64 \<Rightarrow> bool" where
  "still_listed listed pid sequence_number \<longleftrightarrow> hm_get listed pid = Some sequence_number"

definition listed_map :: "listed list \<Rightarrow> (u32, u64) hashmap" where
  "listed_map list = fold (\<lambda>l. hm_put (ls_pid l) (ls_sequence_number l)) list []"

definition worker_forget :: "listed list \<Rightarrow> 'a worker \<Rightarrow> 'a worker" where
  "worker_forget list w =
    (let listed = listed_map list
     in \<lparr>wk_seen = filter (\<lambda>(pid, s). still_listed listed pid (sn_sequence_number s)) (wk_seen w),
         wk_probed = filter (\<lambda>(pid, (sequence_number, _)). still_listed listed pid sequence_number) (wk_probed w)\<rparr>)"

definition probe_one :: "listed \<Rightarrow> 'a moment \<Rightarrow> 'a worker \<Rightarrow> 'a worker" where
  "probe_one l m w =
    \<lparr>wk_seen = hm_put (ls_pid l)
       \<lparr>sn_sequence_number = ls_sequence_number l, sn_shared = ls_shared l, sn_at = mo_at m\<rparr> (wk_seen w),
     wk_probed = hm_put (ls_pid l) (ls_sequence_number l, mo_answer m (ls_pid l)) (wk_probed w)\<rparr>"

text \<open>The second component: whether the worker goes on.\<close>
fun probe_due :: "listed list \<Rightarrow> (nat \<Rightarrow> 'a moment) \<Rightarrow> 'a worker \<Rightarrow> 'a worker \<times> bool" where
  "probe_due [] m w = (w, True)"
| "probe_due (l # due) m w =
    (if mo_newer (m 0) then (w, True)
     else let w = probe_one l (m 0) w
          in if mo_stopped (m 0) then (w, False) else probe_due due (\<lambda>k. m (Suc k)) w)"

definition due_now :: "is_due \<Rightarrow> listed list \<Rightarrow> instant \<Rightarrow> 'a worker \<Rightarrow> listed list" where
  "due_now is_due list now w = filter (\<lambda>l. is_due (hm_get (wk_seen w) (ls_pid l)) l now) list"

text \<open>One turn of \<^verbatim>\<open>work\<close>'s loop, for a list received and those that wait behind it.\<close>
definition worker_round ::
    "is_due \<Rightarrow> listed list \<Rightarrow> listed list list \<Rightarrow> instant \<Rightarrow> (nat \<Rightarrow> 'a moment) \<Rightarrow> 'a worker \<Rightarrow> 'a worker \<times> bool" where
  "worker_round is_due list waiting now m w =
    (let list = newest list waiting;
         w = worker_forget list w
     in probe_due (due_now is_due list now w) m w)"

text \<open>How long the worker rests after a probe.\<close>
definition rest :: "'a moment \<Rightarrow> duration" where
  "rest m = mo_took m * REST"

section \<open>Its users\<close>

text \<open>\<^verbatim>\<open>mapped.rs\<close>; the differences of word-sized counters do not wrap where they are compared.\<close>
definition MOVED_BYTES :: u64 where
  "MOVED_BYTES = push_bit 20 4"

definition MOVED_PARTS :: u64 where
  "MOVED_PARTS = 20"

definition abs_diff :: "'a::len word \<Rightarrow> 'a word \<Rightarrow> 'a word" where
  "abs_diff a b = (if a < b then b - a else a - b)"

definition mapped_is_due :: is_due where
  "mapped_is_due before l now =
    (case before of
       None \<Rightarrow> True
     | Some s \<Rightarrow>
         if sn_sequence_number s \<noteq> ls_sequence_number l then True
         else let moved = abs_diff (sn_shared s) (ls_shared l)
              in moved \<ge> MOVED_BYTES \<or> moved * MOVED_PARTS \<ge> max (sn_shared s) 1 \<or> now - sn_at s \<ge> FULL_ROUND)"

text \<open>\<^verbatim>\<open>Mapped::get\<close>\<close>
definition mapped_get :: "u64 worker \<Rightarrow> row \<Rightarrow> u64" where
  "mapped_get w row = (case prober_get w row of Some bytes \<Rightarrow> bytes | None \<Rightarrow> NO_DATA_U64)"

text \<open>\<^verbatim>\<open>vm_host.rs\<close>\<close>
definition CANDIDATE :: u64 where
  "CANDIDATE = push_bit 20 256"

definition GROWN :: u64 where
  "GROWN = push_bit 20 256"

definition vm_host_candidate :: "row \<Rightarrow> bool" where
  "vm_host_candidate row \<longleftrightarrow> shared row \<ge> CANDIDATE"

definition vm_host_is_due :: is_due where
  "vm_host_is_due before l now =
    (case before of
       None \<Rightarrow> True
     | Some s \<Rightarrow>
         if sn_sequence_number s \<noteq> ls_sequence_number l then True
         else ls_shared l \<ge> sat_add (sn_shared s) GROWN \<or> now - sn_at s \<ge> FULL_ROUND)"

text \<open>\<^verbatim>\<open>VmHosts::read\<close> and \<^verbatim>\<open>VmHosts::get\<close>\<close>
definition vm_hosts_read :: "row list \<Rightarrow> listed list" where
  "vm_hosts_read rows = prober_read (filter vm_host_candidate rows)"

definition vm_hosts_get :: "bool option worker \<Rightarrow> row \<Rightarrow> bool option" where
  "vm_hosts_get w row =
    (if \<not> vm_host_candidate row then Some False
     else case prober_get w row of Some answer \<Rightarrow> answer | None \<Rightarrow> None)"

text \<open>\<^verbatim>\<open>vm_memory.rs\<close>\<close>
definition PERIOD :: duration where
  "PERIOD = secs 1"

definition FRESH :: duration where
  "FRESH = secs 10"

record reading =
  rg_sequence :: u64
  rg_at :: instant
  rg_bytes :: u64

definition vm_memory_due :: is_due where
  "vm_memory_due before l now =
    (case before of
       None \<Rightarrow> True
     | Some s \<Rightarrow> sn_sequence_number s \<noteq> ls_sequence_number l \<or> now - sn_at s \<ge> PERIOD)"

text \<open>\<^verbatim>\<open>VmMemory::read\<close>: when it last handed a list on, and the list it hands on now if any.\<close>
definition vm_memory_read ::
    "row list \<Rightarrow> bool option worker \<Rightarrow> instant \<Rightarrow> instant option \<Rightarrow> instant option \<times> listed list option" where
  "vm_memory_read rows hosts now submitted =
    (if (case submitted of Some at \<Rightarrow> now - at < PERIOD | None \<Rightarrow> False) then (submitted, None)
     else (Some now, Some (prober_read (filter (\<lambda>row. vm_hosts_get hosts row = Some True) rows))))"

definition for_row :: "row \<Rightarrow> instant \<Rightarrow> reading \<Rightarrow> u64" where
  "for_row row now r =
    (if rg_sequence r = r_sequence_number row \<and> now - rg_at r \<le> FRESH then rg_bytes r else NO_DATA_U64)"

definition vm_memory_get :: "reading worker \<Rightarrow> instant \<Rightarrow> row \<Rightarrow> bool \<Rightarrow> u64" where
  "vm_memory_get w now row vm_host =
    (if \<not> vm_host then NO_DATA_U64
     else case prober_get w row of Some r \<Rightarrow> for_row row now r | None \<Rightarrow> NO_DATA_U64)"

section \<open>What the worker was told\<close>

type_synonym 'a telling = "u32 \<times> u64 \<times> instant \<times> 'a"

text \<open>What the probes of a round answered, and when.\<close>
fun told :: "listed list \<Rightarrow> (nat \<Rightarrow> 'a moment) \<Rightarrow> 'a telling list" where
  "told [] m = []"
| "told (l # due) m =
    (if mo_newer (m 0) then []
     else (ls_pid l, ls_sequence_number l, mo_at (m 0), mo_answer (m 0) (ls_pid l)) #
       (if mo_stopped (m 0) then [] else told due (\<lambda>k. m (Suc k))))"

definition round_told :: "is_due \<Rightarrow> listed list \<Rightarrow> listed list list \<Rightarrow> instant \<Rightarrow> (nat \<Rightarrow> 'a moment) \<Rightarrow> 'a worker \<Rightarrow> 'a telling list" where
  "round_told is_due list waiting now m w =
    told (due_now is_due (newest list waiting) now (worker_forget (newest list waiting) w)) m"

inductive worker_reach :: "is_due \<Rightarrow> 'a worker \<Rightarrow> 'a telling set \<Rightarrow> bool" for is_due where
  worker_starts: "worker_reach is_due worker_new {}"
| worker_turns: "worker_reach is_due w log \<Longrightarrow> worker_round is_due list waiting now m w = (w', goes_on) \<Longrightarrow>
    worker_reach is_due w' (log \<union> set (round_told is_due list waiting now m w))"

text \<open>What is seen and what is shown go together, and is what some probe answered.\<close>
definition shown_as_told :: "'a telling set \<Rightarrow> 'a worker \<Rightarrow> u32 \<Rightarrow> bool" where
  "shown_as_told log w pid \<longleftrightarrow>
    (case hm_get (wk_seen w) pid of
       None \<Rightarrow> hm_get (wk_probed w) pid = None
     | Some s \<Rightarrow> \<exists>a. hm_get (wk_probed w) pid = Some (sn_sequence_number s, a) \<and>
         (pid, sn_sequence_number s, sn_at s, a) \<in> log)"

definition worker_ok :: "'a telling set \<Rightarrow> 'a worker \<Rightarrow> bool" where
  "worker_ok log w \<longleftrightarrow> hm_ok (wk_seen w) \<and> hm_ok (wk_probed w) \<and> (\<forall>pid. shown_as_told log w pid)"

lemma shown_as_told_mono: "shown_as_told log w pid \<Longrightarrow> log \<subseteq> log' \<Longrightarrow> shown_as_told log' w pid"
  by (cases "hm_get (wk_seen w) pid") (auto simp: shown_as_told_def)

lemma worker_ok_mono: "worker_ok log w \<Longrightarrow> log \<subseteq> log' \<Longrightarrow> worker_ok log' w"
  using shown_as_told_mono unfolding worker_ok_def by blast

lemma probe_one_ok:
  assumes "worker_ok log w" "(ls_pid l, ls_sequence_number l, mo_at m, mo_answer m (ls_pid l)) \<in> log"
  shows "worker_ok log (probe_one l m w)"
proof -
  have "shown_as_told log (probe_one l m w) pid" for pid
  proof (cases "pid = ls_pid l")
    case True
    then show ?thesis using assms(2) by (simp add: shown_as_told_def probe_one_def hm)
  next
    case False
    then have "shown_as_told log (probe_one l m w) pid = shown_as_told log w pid"
      by (simp add: shown_as_told_def probe_one_def hm cong: option.case_cong)
    then show ?thesis using assms(1) by (simp add: worker_ok_def)
  qed
  then show ?thesis using assms(1) by (simp add: worker_ok_def probe_one_def)
qed

lemma worker_forget_get:
  assumes "worker_ok log w"
  shows "hm_get (wk_seen (worker_forget list w)) pid =
      (case hm_get (wk_seen w) pid of
         Some s \<Rightarrow> if still_listed (listed_map list) pid (sn_sequence_number s) then Some s else None | None \<Rightarrow> None) \<and>
    hm_get (wk_probed (worker_forget list w)) pid =
      (case hm_get (wk_probed w) pid of
         Some (n, a) \<Rightarrow> if still_listed (listed_map list) pid n then Some (n, a) else None | None \<Rightarrow> None)"
  using assms by (simp add: worker_ok_def worker_forget_def Let_def hm_get_filter split: option.split)

lemma worker_forget_ok:
  assumes "worker_ok log w"
  shows "worker_ok log (worker_forget list w)"
proof -
  have "shown_as_told log (worker_forget list w) pid" for pid
  proof -
    have "shown_as_told log w pid" using assms by (simp add: worker_ok_def)
    then show ?thesis
      using worker_forget_get [OF assms, of list pid]
      by (cases "hm_get (wk_seen w) pid") (auto simp: shown_as_told_def)
  qed
  moreover have "hm_ok (wk_seen (worker_forget list w)) \<and> hm_ok (wk_probed (worker_forget list w))"
    using assms by (simp add: worker_ok_def worker_forget_def Let_def)
  ultimately show ?thesis by (simp add: worker_ok_def)
qed

lemma probe_due_ok:
  "worker_ok log w \<Longrightarrow> worker_ok (log \<union> set (told due m)) (fst (probe_due due m w))"
proof (induction due arbitrary: m w log)
  case (Cons l due)
  show ?case
  proof (cases "mo_newer (m 0)")
    case True
    then show ?thesis using Cons.prems by simp
  next
    case False
    let ?t = "(ls_pid l, ls_sequence_number l, mo_at (m 0), mo_answer (m 0) (ls_pid l))"
    have one: "worker_ok (insert ?t log) (probe_one l (m 0) w)"
      by (rule probe_one_ok [OF worker_ok_mono [OF Cons.prems]]) auto
    show ?thesis
      using False one Cons.IH [OF one, of "\<lambda>k. m (Suc k)"] by (simp add: Let_def)
  qed
qed simp

lemma worker_reach_ok: "worker_reach is_due w log \<Longrightarrow> worker_ok log w"
proof (induction rule: worker_reach.induct)
  case worker_starts
  then show ?case by (simp add: worker_ok_def shown_as_told_def worker_new_def)
next
  case (worker_turns w log list waiting now m w' goes_on)
  have w': "w' = fst (probe_due (due_now is_due (newest list waiting) now (worker_forget (newest list waiting) w)) m
      (worker_forget (newest list waiting) w))"
    using worker_turns.hyps(2) by (simp add: worker_round_def Let_def)
  show ?case
    unfolding round_told_def w' by (rule probe_due_ok [OF worker_forget_ok [OF worker_turns.IH]])
qed

section \<open>A round that is not cut short\<close>

lemma listed_fold_get:
  "distinct (map ls_pid list) \<Longrightarrow>
    hm_get (fold (\<lambda>l. hm_put (ls_pid l) (ls_sequence_number l)) list m) pid = Some n \<longleftrightarrow>
      (\<exists>l \<in> set list. ls_pid l = pid \<and> ls_sequence_number l = n) \<or> (pid \<notin> ls_pid ` set list \<and> hm_get m pid = Some n)"
proof (induction list arbitrary: m)
  case (Cons l list)
  then have fresh: "ls_pid l \<notin> ls_pid ` set list" by simp
  show ?case
  proof (cases "pid = ls_pid l")
    case True
    then have "ls_pid l' \<noteq> pid" if "l' \<in> set list" for l' using fresh that by (metis image_eqI)
    then show ?thesis using Cons True by (auto simp: hm)
  next
    case False
    then show ?thesis using Cons by (auto simp: hm)
  qed
qed simp

lemma listed_map_get:
  "distinct (map ls_pid list) \<Longrightarrow>
    hm_get (listed_map list) pid = Some n \<longleftrightarrow> (\<exists>l \<in> set list. ls_pid l = pid \<and> ls_sequence_number l = n)"
  by (simp add: listed_map_def listed_fold_get)

lemma probe_due_outside:
  "pid \<notin> ls_pid ` set due \<Longrightarrow>
    hm_get (wk_probed (fst (probe_due due m w))) pid = hm_get (wk_probed w) pid"
  by (induction due arbitrary: m w) (simp_all add: probe_one_def hm Let_def)

text \<open>Every process that is due in a round that goes through is probed.\<close>
lemma probe_due_all:
  assumes "distinct (map ls_pid due)" "l \<in> set due" "snd (probe_due due m w)" "\<And>k. k < length due \<Longrightarrow> \<not> mo_newer (m k)"
  shows "\<exists>at a. hm_get (wk_probed (fst (probe_due due m w))) (ls_pid l) = Some (ls_sequence_number l, a) \<and>
    (ls_pid l, ls_sequence_number l, at, a) \<in> set (told due m)"
  using assms
proof (induction due arbitrary: m w)
  case (Cons d due)
  have "\<not> mo_newer (m 0)" using Cons.prems(4) [of 0] by simp
  then have goes: "\<not> mo_stopped (m 0)" "snd (probe_due due (\<lambda>k. m (Suc k)) (probe_one d (m 0) w))"
    using Cons.prems(3) by (auto simp: Let_def split: if_splits)
  show ?case
  proof (cases "l = d")
    case True
    then show ?thesis
      using \<open>\<not> mo_newer (m 0)\<close> goes(1) Cons.prems(1)
      by (intro exI [of _ "mo_at (m 0)"]) (simp add: Let_def probe_due_outside probe_one_def hm)
  next
    case False
    then show ?thesis
      using \<open>\<not> mo_newer (m 0)\<close> goes Cons.prems Cons.IH [of "\<lambda>k. m (Suc k)" "probe_one d (m 0) w"]
      by (fastforce simp: Let_def)
  qed
qed simp

section \<open>When a process is due\<close>

text \<open>What every rule of the kind has: a process not seen is due, and so is one seen a round ago.\<close>
locale due_rule =
  fixes is_due :: is_due and round :: duration
  assumes due_unseen: "is_due None l now"
    and due_other: "sn_sequence_number s \<noteq> ls_sequence_number l \<Longrightarrow> is_due (Some s) l now"
    and due_round: "round \<le> now - sn_at s \<Longrightarrow> is_due (Some s) l now"
begin

text \<open>What is not due was probed under its number less than a round ago.\<close>
lemma not_due: "\<not> is_due before l now \<Longrightarrow> \<exists>s. before = Some s \<and> sn_sequence_number s = ls_sequence_number l \<and> now - sn_at s < round"
  using due_unseen due_other due_round by (cases before) (metis | metis not_less)+

lemma round_answers:
  assumes reach: "worker_reach is_due w log"
    and goes: "worker_round is_due list waiting now m w = (w', True)"
    and newer: "\<And>k. k < length (newest list waiting) \<Longrightarrow> \<not> mo_newer (m k)"
    and d: "distinct (map ls_pid (newest list waiting))"
    and l: "l \<in> set (newest list waiting)"
  shows "\<exists>a at. hm_get (wk_probed w') (ls_pid l) = Some (ls_sequence_number l, a) \<and>
    ((ls_pid l, ls_sequence_number l, at, a) \<in> log \<and> now - at < round \<or>
     (ls_pid l, ls_sequence_number l, at, a) \<in> set (round_told is_due list waiting now m w))"
proof -
  let ?list = "newest list waiting"
  define kept where "kept = worker_forget ?list w"
  define due where "due = due_now is_due ?list now kept"
  have ok: "worker_ok log kept" unfolding kept_def by (rule worker_forget_ok [OF worker_reach_ok [OF reach]])
  have w': "w' = fst (probe_due due m kept)" "snd (probe_due due m kept)"
    using goes by (simp_all add: worker_round_def due_def kept_def Let_def)
  have short: "length due \<le> length ?list" by (simp add: due_def due_now_def)
  have dd: "distinct (map ls_pid due)" using d by (simp add: due_def due_now_def distinct_map_filter)
  have t: "set (round_told is_due list waiting now m w) = set (told due m)"
    by (simp add: round_told_def due_def kept_def)
  show ?thesis
  proof (cases "l \<in> set due")
    case True
    then show ?thesis using probe_due_all [OF dd True w'(2)] newer short by (auto simp: t w'(1))
  next
    case False
    then obtain s where s: "hm_get (wk_seen kept) (ls_pid l) = Some s"
        "sn_sequence_number s = ls_sequence_number l" "now - sn_at s < round"
      using l not_due [of _ l now] unfolding due_def due_now_def by fastforce
    then obtain a where "hm_get (wk_probed kept) (ls_pid l) = Some (sn_sequence_number s, a)"
        "(ls_pid l, sn_sequence_number s, sn_at s, a) \<in> log"
      using ok by (auto simp: worker_ok_def shown_as_told_def dest!: spec [of _ "ls_pid l"])
    moreover have "ls_pid l \<notin> ls_pid ` set due"
    proof
      assume "ls_pid l \<in> ls_pid ` set due"
      then obtain l' where l': "l' \<in> set due" "ls_pid l' = ls_pid l" by auto
      then have "l' \<in> set ?list" by (simp add: due_def due_now_def)
      then have "l' = l" using d l l'(2) by (meson distinct_map inj_onD)
      then show False using False l'(1) by simp
    qed
    ultimately show ?thesis using s by (auto simp: w'(1) probe_due_outside)
  qed
qed

end

interpretation mapped_rule: due_rule mapped_is_due FULL_ROUND
  by unfold_locales (simp_all add: mapped_is_due_def Let_def)

interpretation vm_host_rule: due_rule vm_host_is_due FULL_ROUND
  by unfold_locales (simp_all add: vm_host_is_due_def)

interpretation vm_memory_rule: due_rule vm_memory_due PERIOD
  by unfold_locales (simp_all add: vm_memory_due_def)

text \<open>What a round's list leaves out is forgotten.\<close>
lemma probe_due_within:
  assumes "\<forall>pid n a. hm_get (wk_probed w) pid = Some (n, a) \<longrightarrow> (pid, n) \<in> L"
    and "(\<lambda>l. (ls_pid l, ls_sequence_number l)) ` set due \<subseteq> L"
    and "hm_get (wk_probed (fst (probe_due due m w))) pid = Some (n, a)"
  shows "(pid, n) \<in> L"
  using assms
proof (induction due arbitrary: m w)
  case (Cons l due)
  have one: "\<forall>p k b. hm_get (wk_probed (probe_one l (m 0) w)) p = Some (k, b) \<longrightarrow> (p, k) \<in> L"
    using Cons.prems(1,2) by (auto simp: probe_one_def hm split: if_splits)
  have more: "(\<lambda>l. (ls_pid l, ls_sequence_number l)) ` set due \<subseteq> L" using Cons.prems(2) by simp
  consider "mo_newer (m 0)" | "\<not> mo_newer (m 0)" "mo_stopped (m 0)" | "\<not> mo_newer (m 0)" "\<not> mo_stopped (m 0)" by blast
  then show ?case
  proof cases
    case 1
    then have "hm_get (wk_probed w) pid = Some (n, a)" using Cons.prems(3) by simp
    then show ?thesis using Cons.prems(1) by blast
  next
    case 2
    then have "hm_get (wk_probed (probe_one l (m 0) w)) pid = Some (n, a)" using Cons.prems(3) by (simp add: Let_def)
    then show ?thesis using one by blast
  next
    case 3
    then have "hm_get (wk_probed (fst (probe_due due (\<lambda>k. m (Suc k)) (probe_one l (m 0) w)))) pid = Some (n, a)"
      using Cons.prems(3) by (simp add: Let_def)
    then show ?thesis by (rule Cons.IH [where w = "probe_one l (m 0) w", OF one more])
  qed
next
  case Nil
  then show ?case by simp
qed

lemma round_forgets:
  assumes "worker_reach is_due w log" "worker_round is_due list waiting now m w = (w', goes_on)"
    and d: "distinct (map ls_pid (newest list waiting))"
    and out: "(pid, n) \<notin> (\<lambda>l. (ls_pid l, ls_sequence_number l)) ` set (newest list waiting)"
  shows "hm_get (wk_probed w') pid \<noteq> Some (n, a)"
proof
  let ?list = "newest list waiting" and ?key = "\<lambda>l. (ls_pid l, ls_sequence_number l)"
  define kept where "kept = worker_forget ?list w"
  assume told: "hm_get (wk_probed w') pid = Some (n, a)"
  have w': "w' = fst (probe_due (due_now is_due ?list now kept) m kept)"
    using assms(2) by (simp add: worker_round_def kept_def Let_def)
  have within: "(p, k) \<in> ?key ` set ?list" if "hm_get (wk_probed kept) p = Some (k, b)" for p k b
  proof -
    have "still_listed (listed_map ?list) p k"
      using that worker_forget_get [OF worker_reach_ok [OF assms(1)], of ?list p]
      by (auto simp: kept_def split: option.splits if_splits)
    then show ?thesis using listed_map_get [OF d] by (force simp: still_listed_def)
  qed
  have "?key ` set (due_now is_due ?list now kept) \<subseteq> ?key ` set ?list" by (auto simp: due_now_def)
  from probe_due_within [where w = kept, OF _ this told [unfolded w']] within out show False by blast
qed

section \<open>What the users are told\<close>

definition row_key :: "row \<Rightarrow> u32 \<times> u64" where
  "row_key row = (r_pid row, r_sequence_number row)"

definition due_rules :: "(is_due \<times> duration) set" where
  "due_rules = {(mapped_is_due, FULL_ROUND), (vm_host_is_due, FULL_ROUND), (vm_memory_due, PERIOD)}"

lemma due_rules_answer:
  assumes "(is_due, round) \<in> due_rules" "worker_reach is_due w log"
    and "worker_round is_due list waiting now m w = (w', True)"
    and "\<And>k. k < length (newest list waiting) \<Longrightarrow> \<not> mo_newer (m k)"
    and "distinct (map ls_pid (newest list waiting))" "l \<in> set (newest list waiting)"
  shows "\<exists>a at. hm_get (wk_probed w') (ls_pid l) = Some (ls_sequence_number l, a) \<and>
    ((ls_pid l, ls_sequence_number l, at, a) \<in> log \<and> now - at < round \<or>
     (ls_pid l, ls_sequence_number l, at, a) \<in> set (round_told is_due list waiting now m w))"
  using assms(1) mapped_rule.round_answers [of w log list waiting now m w' l] vm_host_rule.round_answers [of w log list waiting now m w' l]
    vm_memory_rule.round_answers [of w log list waiting now m w' l] assms(2-)
  unfolding due_rules_def by fast

text \<open>
  C25 After a round of the worker that no newer list cut short, every process of its
  list is told as a probe answered for that very process: in this round, or less than
  the rule's time ago (five minutes for mapped memory and hosts, a second for their
  memory); whatever is not on the list is told nothing.
\<close>
theorem probes_stand_for_a_round:
  assumes "(is_due, round) \<in> due_rules" "worker_reach is_due w log"
    and "newest list waiting = prober_read rows" "distinct (map r_pid rows)"
    and "worker_round is_due list waiting now m w = (w', True)"
    and "\<forall>k < length rows. \<not> mo_newer (m k)"
  shows "(\<forall>row \<in> set rows. \<exists>a at. prober_get w' row = Some a \<and>
      ((r_pid row, r_sequence_number row, at, a) \<in> log \<and> now - at < round \<or>
       (r_pid row, r_sequence_number row, at, a) \<in> set (round_told is_due list waiting now m w))) \<and>
    (\<forall>row. row_key row \<notin> row_key ` set rows \<longrightarrow> prober_get w' row = None)"
proof -
  have d: "distinct (map ls_pid (newest list waiting))"
    using assms(3,4) by (simp add: prober_read_def comp_def)
  have short: "\<not> mo_newer (m k)" if "k < length (newest list waiting)" for k
    using assms(3,6) that by (simp add: prober_read_def)
  have keys: "(\<lambda>l. (ls_pid l, ls_sequence_number l)) ` set (newest list waiting) = row_key ` set rows"
    using assms(3) by (simp add: prober_read_def row_key_def image_image)
  have "\<exists>a at. prober_get w' row = Some a \<and>
      ((r_pid row, r_sequence_number row, at, a) \<in> log \<and> now - at < round \<or>
       (r_pid row, r_sequence_number row, at, a) \<in> set (round_told is_due list waiting now m w))"
    if "row \<in> set rows" for row
  proof -
    let ?l = "\<lparr>ls_pid = r_pid row, ls_sequence_number = r_sequence_number row, ls_shared = shared row\<rparr>"
    have "?l \<in> set (newest list waiting)" using that assms(3) by (simp add: prober_read_def)
    from due_rules_answer [OF assms(1,2,5) short d this] show ?thesis
      by (auto simp: prober_get_def)
  qed
  moreover have "prober_get w' row = None" if "row_key row \<notin> row_key ` set rows" for row
  proof -
    have out: "(r_pid row, r_sequence_number row) \<notin> (\<lambda>l. (ls_pid l, ls_sequence_number l)) ` set (newest list waiting)"
      using that keys by (simp add: row_key_def [of row])
    show ?thesis
    proof (rule ccontr)
      assume "prober_get w' row \<noteq> None"
      then obtain a where "hm_get (wk_probed w') (r_pid row) = Some (r_sequence_number row, a)"
        by (auto simp: prober_get_def split: option.splits if_splits)
      then show False using round_forgets [OF assms(2,5) d out] by blast
    qed
  qed
  ultimately show ?thesis by blast
qed

section \<open>Two machines\<close>

text \<open>Rounds over one list, each on its own moments.\<close>
definition vm_rounds :: "listed list \<Rightarrow> (instant \<times> (nat \<Rightarrow> 'a moment)) list \<Rightarrow> 'a worker \<Rightarrow> 'a worker" where
  "vm_rounds list rounds w = fold (\<lambda>(now, m) w. fst (worker_round vm_memory_due list [] now m w)) rounds w"

text \<open>A round starts once the worker has rested from the probe of the one before.\<close>
fun rested :: "(instant \<times> (nat \<Rightarrow> 'a moment)) list \<Rightarrow> bool" where
  "rested ((now, m) # (now', m') # rounds) \<longleftrightarrow>
    now' \<ge> mo_at (m 0) + mo_took (m 0) + rest (m 0) \<and> rested ((now', m') # rounds)"
| "rested _ \<longleftrightarrow> True"

lemma starved_round:
  assumes two: "list = [first, second]" "ls_pid first \<noteq> ls_pid second"
    and m: "\<not> mo_newer (m 0)" "\<not> mo_stopped (m 0)" "mo_newer (m 1)"
    and before: "hm_get (wk_seen w) (ls_pid first) = None \<or>
      (\<exists>s. hm_get (wk_seen w) (ls_pid first) = Some s \<and> sn_at s + PERIOD \<le> now)"
    and ok: "worker_ok log w" and none: "hm_get (wk_probed w) (ls_pid second) = None"
  defines "w' \<equiv> fst (worker_round vm_memory_due list [] now m w)"
  shows "(\<exists>log. worker_ok log w') \<and> hm_get (wk_probed w') (ls_pid second) = None \<and>
    (\<exists>s. hm_get (wk_seen w') (ls_pid first) = Some s \<and> sn_at s = mo_at (m 0))"
proof -
  define kept where "kept = worker_forget list w"
  have kept_ok: "worker_ok log kept" unfolding kept_def by (rule worker_forget_ok [OF ok])
  note get = worker_forget_get [OF ok, of list, folded kept_def]
  have "hm_get (wk_seen kept) (ls_pid first) = None \<or>
      (\<exists>s. hm_get (wk_seen kept) (ls_pid first) = Some s \<and> sn_at s + PERIOD \<le> now)"
    using before get [of "ls_pid first"] by (auto split: if_splits)
  then have "vm_memory_due (hm_get (wk_seen kept) (ls_pid first)) first now"
    by (auto simp: vm_memory_due_def)
  then have "due_now vm_memory_due list now kept = first # filter (\<lambda>l. vm_memory_due (hm_get (wk_seen kept) (ls_pid l)) l now) [second]"
    by (simp add: due_now_def two(1))
  then have w': "w' = probe_one first (m 0) kept"
    using m by (simp add: w'_def worker_round_def newest_def kept_def [symmetric] Let_def)
  have "hm_get (wk_probed kept) (ls_pid second) = None" using none get [of "ls_pid second"] by simp
  moreover have "\<exists>log. worker_ok log w'"
    unfolding w' by (rule exI, rule probe_one_ok [OF worker_ok_mono [OF kept_ok subset_UNIV]]) simp
  ultimately show ?thesis using two(2) by (simp add: w' probe_one_def hm)
qed

lemma starved_rounds:
  assumes two: "list = [first, second]" "ls_pid first \<noteq> ls_pid second"
    and "rested rounds"
    and "\<forall>(now, m) \<in> set rounds. \<not> mo_newer (m 0) \<and> \<not> mo_stopped (m 0) \<and> mo_newer (m 1) \<and>
      mo_took (m 0) + rest (m 0) \<ge> PERIOD"
    and "\<exists>log. worker_ok log w" "hm_get (wk_probed w) (ls_pid second) = None"
    and "hm_get (wk_seen w) (ls_pid first) = None \<or>
      (\<exists>s. hm_get (wk_seen w) (ls_pid first) = Some s \<and> (rounds \<noteq> [] \<longrightarrow> sn_at s + PERIOD \<le> fst (hd rounds)))"
  shows "hm_get (wk_probed (vm_rounds list rounds w)) (ls_pid second) = None"
  using assms(3-)
proof (induction rounds arbitrary: w)
  case (Cons r rounds)
  obtain now m where r: "r = (now, m)" by force
  let ?w = "fst (worker_round vm_memory_due list [] now m w)"
  obtain log where ok: "worker_ok log w" using Cons.prems(3) by blast
  have m: "\<not> mo_newer (m 0)" "\<not> mo_stopped (m 0)" "mo_newer (m 1)" and long: "mo_took (m 0) + rest (m 0) \<ge> PERIOD"
    using Cons.prems(2) by (simp_all add: r)
  have before: "hm_get (wk_seen w) (ls_pid first) = None \<or>
      (\<exists>s. hm_get (wk_seen w) (ls_pid first) = Some s \<and> sn_at s + PERIOD \<le> now)"
    using Cons.prems(5) by (simp add: r)
  note one = starved_round [OF two m before ok Cons.prems(4)]
  then obtain s where s: "hm_get (wk_seen ?w) (ls_pid first) = Some s" "sn_at s = mo_at (m 0)" by blast
  have "sn_at s + PERIOD \<le> fst (hd rounds)" if "rounds \<noteq> []"
    using that Cons.prems(1) s(2) long by (cases rounds) (auto simp: r)
  moreover have "rested rounds" using Cons.prems(1) by (cases rounds) (auto simp: r)
  ultimately have "hm_get (wk_probed (vm_rounds list rounds ?w)) (ls_pid second) = None"
    using one s(1) Cons.prems(2) by (intro Cons.IH) auto
  then show ?case by (simp add: vm_rounds_def r)
qed (simp add: vm_rounds_def)

text \<open>
  C26 Of two processes that host a machine, the second is never told the memory of
  its machine while a probe of the first and the rest after it take a second or more
  and lists keep coming: the next list has come by then, its round starts with the
  first host again, which is due again, and never gets to the second.
\<close>
theorem a_slow_host_starves_the_next:
  assumes "ls_pid first \<noteq> ls_pid second" "rested rounds"
    and "\<forall>(now, m) \<in> set rounds. \<not> mo_newer (m 0) \<and> \<not> mo_stopped (m 0) \<and> mo_newer (m 1) \<and>
      mo_took (m 0) + rest (m 0) \<ge> PERIOD"
    and "row_key row = (ls_pid second, ls_sequence_number second)"
  shows "vm_memory_get (vm_rounds [first, second] rounds worker_new) now row vm_host = NO_DATA_U64"
proof -
  have "\<exists>log. worker_ok log (worker_new :: reading worker)"
    using worker_reach_ok [OF worker_starts] by blast
  then have "hm_get (wk_probed (vm_rounds [first, second] rounds worker_new)) (ls_pid second) = None"
    by (intro starved_rounds [OF refl assms(1,2,3)]) (simp_all add: worker_new_def)
  then show ?thesis using assms(4) by (simp add: vm_memory_get_def prober_get_def row_key_def)
qed

definition slow_moment :: "instant \<Rightarrow> nat \<Rightarrow> reading moment" where
  "slow_moment at k =
    \<lparr>mo_newer = (k > 0), mo_at = at, mo_answer = (\<lambda>_. \<lparr>rg_sequence = 1, rg_at = at, rg_bytes = 4096\<rparr>),
     mo_took = millis 300, mo_stopped = False\<rparr>"

text \<open>Two rounds in which a probe takes 300 ms: the first host is told its memory, the second is not.\<close>
lemma a_slow_host_starves_the_next_witness:
  "let first = \<lparr>ls_pid = 4, ls_sequence_number = 1, ls_shared = 0\<rparr>;
       second = \<lparr>ls_pid = 8, ls_sequence_number = 1, ls_shared = 0\<rparr>;
       w = vm_rounds [first, second] [(0, slow_moment 0), (secs 2, slow_moment (secs 2))] worker_new
   in vm_memory_get w (secs 2) (row_default\<lparr>r_pid := 4, r_sequence_number := 1\<rparr>) True = 4096 \<and>
      vm_memory_get w (secs 2) (row_default\<lparr>r_pid := 8, r_sequence_number := 1\<rparr>) True = NO_DATA_U64"
proof -
  let ?first = "\<lparr>ls_pid = 4, ls_sequence_number = 1, ls_shared = 0\<rparr>" and ?second = "\<lparr>ls_pid = 8, ls_sequence_number = 1, ls_shared = 0\<rparr>"
  let ?rounds = "[(0, slow_moment 0), (secs 2, slow_moment (secs 2))]"
  have "vm_memory_get (vm_rounds [?first, ?second] ?rounds worker_new) (secs 2) (row_default\<lparr>r_pid := 4, r_sequence_number := 1\<rparr>) True = 4096"
    by (simp add: vm_rounds_def worker_round_def newest_def worker_forget_def worker_new_def due_now_def vm_memory_due_def
        probe_one_def slow_moment_def vm_memory_get_def prober_get_def for_row_def listed_map_def still_listed_def
        FRESH_def PERIOD_def row_default_def Let_def)
  moreover have "vm_memory_get (vm_rounds [?first, ?second] ?rounds worker_new) (secs 2) (row_default\<lparr>r_pid := 8, r_sequence_number := 1\<rparr>) True = NO_DATA_U64"
    by (rule a_slow_host_starves_the_next)
      (simp_all add: slow_moment_def rest_def REST_def PERIOD_def row_key_def)
  ultimately show ?thesis unfolding Let_def by blast
qed

text \<open>One process, seen for the first time and forgotten once it is gone.\<close>
lemma probes_stand_for_a_round_witness:
  "\<exists>w log. worker_reach vm_memory_due w log \<and>
    prober_get w (row_default\<lparr>r_pid := 4, r_sequence_number := 1\<rparr>) = Some (7 :: nat)"
proof -
  let ?row = "row_default\<lparr>r_pid := 4, r_sequence_number := 1\<rparr>"
  let ?m = "\<lambda>k :: nat. \<lparr>mo_newer = False, mo_at = 5, mo_answer = (\<lambda>_. 7 :: nat), mo_took = 1, mo_stopped = False\<rparr>"
  let ?round = "worker_round vm_memory_due (prober_read [?row]) [] 5 ?m worker_new"
  have round: "?round = (fst ?round, True)"
    by (simp add: worker_round_def newest_def worker_forget_def worker_new_def due_now_def vm_memory_due_def
        probe_one_def prober_read_def Let_def)
  have told: "set (round_told vm_memory_due (prober_read [?row]) [] 5 ?m worker_new) = {(4, 1, 5, 7)}"
    by (simp add: round_told_def newest_def worker_forget_def worker_new_def due_now_def vm_memory_due_def
        prober_read_def row_default_def Let_def)
  have "\<exists>a at. prober_get (fst ?round) ?row = Some a \<and> (r_pid ?row, r_sequence_number ?row, at, a) \<in> {(4, 1, 5, 7)}"
    using probes_stand_for_a_round [OF _ worker_starts _ _ round, of PERIOD "[?row]"] told
    by (simp add: due_rules_def newest_def)
  then have "prober_get (fst ?round) ?row = Some 7" by auto
  with worker_turns [OF worker_starts round] show ?thesis by blast
qed

end
