(* ===== verification/Gpu.thy ===== *)
theory Gpu
  imports Probes Sample
begin

text \<open>
  \<^verbatim>\<open>crates/core/src/providers/gpu.rs\<close>: the hardware adapters, their engines and memory,
  and what each process uses of them. What the graphics kernel answers is an argument:
  a query that fails has a negative status, which is None here. Byte counts wrap, as they
  do where overflow is not checked.
\<close>

section \<open>State\<close>

text \<open>What a tick asks of the GPUs (\<^verbatim>\<open>gpu::Wanted\<close>) and what it read (\<^verbatim>\<open>gpu::Read\<close>).\<close>
record gpu_wanted =
  gw_memory :: bool
  gw_engines :: bool
  gw_adapters :: bool

definition gpu_wanted_any :: "gpu_wanted \<Rightarrow> bool" where
  "gpu_wanted_any w \<longleftrightarrow> gw_memory w \<or> gw_engines w \<or> gw_adapters w"

record gpu_read =
  gr_adapters :: "gpu_adapter list option"
  gr_engines :: "process_gpu_engine list option"

definition gpu_read_default :: gpu_read where
  "gpu_read_default = \<lparr>gr_adapters = None, gr_engines = None\<rparr>"

record gpu_node =
  nd_ordinal :: u32
  nd_kind :: gpu_engine_kind
  nd_name :: string
  nd_max_frequency :: u64
  nd_total :: u64

record gpu_segment =
  sm_id :: u32
  sm_aperture :: bool

text \<open>An adapter by its LUID.\<close>
type_synonym luid = "u32 \<times> u32"

record adapter =
  ad_luid :: luid
  ad_key :: u64
  ad_name :: string
  ad_nodes :: "gpu_node list"
  ad_segments :: "gpu_segment list"
  ad_shared_limit :: u64

text \<open>What a process holds on one adapter, as last read.\<close>
record on_adapter =
  on_key :: u64
  on_nodes :: "u64 list"

record gpu_used =
  us_sequence_number :: u64
  us_listed :: u64
  us_dedicated :: u64
  us_shared :: u64
  us_on :: "on_adapter list"
  us_checked :: bool

record gpu =
  gp_adapters :: "adapter list"
  gp_enumerated :: "instant option"
  gp_processes :: "(u32, gpu_used) hashmap"
  gp_ticks :: u64
  gp_cursor :: u32
  gp_last :: "instant option"

definition gpu_new :: gpu where
  "gpu_new = \<lparr>gp_adapters = [], gp_enumerated = None, gp_processes = [], gp_ticks = 0, gp_cursor = 0, gp_last = None\<rparr>"

section \<open>The graphics kernel\<close>

record engine_answer =
  en_named :: bool
  en_type :: i32
  en_name :: "u16 list"
  en_max_frequency :: u64

record segment_answer =
  sa_resident :: u64
  sa_commit_limit :: u64

record adapter_perf =
  pf_temperature :: u32
  pf_fan_rpm :: u32
  pf_power :: u32
  pf_memory_frequency :: u64

text \<open>
  The kernel at one moment. An adapter that is opened tells its type's flags, how many
  engines and segments it has, each of them, its names and the limit of shared memory.
\<close>
record graphics =
  gk_adapters :: "luid list option"
  gk_type :: "luid \<Rightarrow> u32 option"
  gk_counts :: "luid \<Rightarrow> (nat \<times> nat) option"
  gk_engine :: "luid \<Rightarrow> nat \<Rightarrow> engine_answer"
  gk_aperture :: "luid \<Rightarrow> nat \<Rightarrow> bool"
  gk_description :: "luid \<Rightarrow> u16 list option"
  gk_registry_name :: "luid \<Rightarrow> u16 list option"
  gk_shared_limit :: "luid \<Rightarrow> u64"
  gk_segment :: "luid \<Rightarrow> u32 \<Rightarrow> segment_answer option"
  gk_perf :: "luid \<Rightarrow> adapter_perf option"
  gk_process_segment :: "luid \<Rightarrow> handle \<Rightarrow> u32 \<Rightarrow> u64 option"
  gk_process_node :: "luid \<Rightarrow> handle \<Rightarrow> u32 \<Rightarrow> u64 option"

section \<open>Adapters\<close>

definition ENUMERATE_EVERY :: duration where
  "ENUMERATE_EVERY = secs 60"

definition SOFTWARE_DEVICE :: u32 where
  "SOFTWARE_DEVICE = 4"

definition luid_key :: "luid \<Rightarrow> u64" where
  "luid_key luid = or (push_bit 32 (ucast (fst luid))) (ucast (snd luid))"

definition wide :: "u16 list \<Rightarrow> string" where
  "wide units = from_utf16_lossy (takeWhile (\<lambda>u. u \<noteq> 0) units)"

definition adapter_name :: "graphics \<Rightarrow> luid \<Rightarrow> string" where
  "adapter_name gk luid =
    (let described = (case gk_description gk luid of None \<Rightarrow> '''' | Some units \<Rightarrow> wide units)
     in if described \<noteq> '''' then described
        else (case gk_registry_name gk luid of None \<Rightarrow> '''' | Some units \<Rightarrow> wide units))"

definition engine_kind :: "i32 \<Rightarrow> gpu_engine_kind" where
  "engine_kind engine =
    (if engine = 1 then EngineThreeD else if engine = 2 then EngineVideoDecode else if engine = 3 then EngineVideoEncode
     else if engine = 4 then EngineVideoProcessing else if engine = 5 then EngineSceneAssembly
     else if engine = 6 then EngineCopy else if engine = 7 then EngineOverlay else if engine = 8 then EngineCrypto
     else if engine = 9 then EngineVideoCodec else EngineOther)"

definition open_node :: "graphics \<Rightarrow> luid \<Rightarrow> nat \<Rightarrow> gpu_node" where
  "open_node gk luid ordinal =
    (let e = gk_engine gk luid ordinal
     in \<lparr>nd_ordinal = of_nat ordinal, nd_kind = (if en_named e then engine_kind (en_type e) else EngineOther),
         nd_name = (if en_named e then wide (en_name e) else ''''),
         nd_max_frequency = en_max_frequency e, nd_total = 0\<rparr>)"

definition open_adapter :: "graphics \<Rightarrow> luid \<Rightarrow> adapter option" where
  "open_adapter gk luid =
    (case gk_type gk luid of
       None \<Rightarrow> None
     | Some flags \<Rightarrow>
         if and flags SOFTWARE_DEVICE \<noteq> 0 then None
         else (case gk_counts gk luid of
                 None \<Rightarrow> None
               | Some (nodes, segments) \<Rightarrow>
                   Some \<lparr>ad_luid = luid, ad_key = luid_key luid, ad_name = adapter_name gk luid,
                     ad_nodes = map (open_node gk luid) [0..<nodes],
                     ad_segments = map (\<lambda>i. \<lparr>sm_id = of_nat i, sm_aperture = gk_aperture gk luid i\<rparr>) [0..<segments],
                     ad_shared_limit = gk_shared_limit gk luid\<rparr>))"

text \<open>An adapter that was known keeps its engines' totals; the others are opened.\<close>
definition enumerate_one :: "graphics \<Rightarrow> luid \<Rightarrow> adapter list \<times> adapter list \<Rightarrow> adapter list \<times> adapter list" where
  "enumerate_one gk luid s =
    (let (before, adapters) = s
     in case position (\<lambda>old. ad_key old = luid_key luid) before of
          Some at \<Rightarrow> (swap_remove before at, adapters @ [before ! at])
        | None \<Rightarrow>
            (case open_adapter gk luid of
               Some adapter \<Rightarrow> (before, adapters @ [adapter])
             | None \<Rightarrow> (before, adapters)))"

definition gpu_enumerate :: "graphics \<Rightarrow> instant \<Rightarrow> gpu \<Rightarrow> gpu" where
  "gpu_enumerate gk now g =
    (case gk_adapters gk of
       None \<Rightarrow> g\<lparr>gp_enumerated := Some now\<rparr>
     | Some found \<Rightarrow>
         g\<lparr>gp_enumerated := Some now, gp_adapters := snd (fold (enumerate_one gk) found (gp_adapters g, []))\<rparr>)"

text \<open>The adapter as it is now, its engines as the processes' reads add up.\<close>
definition describe_segment :: "graphics \<Rightarrow> luid \<Rightarrow> gpu_segment \<Rightarrow> gpu_adapter \<Rightarrow> gpu_adapter" where
  "describe_segment gk luid segment a =
    (case gk_segment gk luid (sm_id segment) of
       None \<Rightarrow> a
     | Some info \<Rightarrow>
         if sm_aperture segment then a\<lparr>ga_shared_usage := ga_shared_usage a + sa_resident info\<rparr>
         else a\<lparr>ga_dedicated_limit := ga_dedicated_limit a + sa_commit_limit info,
                ga_dedicated_usage := ga_dedicated_usage a + sa_resident info\<rparr>)"

definition describe_adapter :: "graphics \<Rightarrow> adapter \<Rightarrow> gpu_adapter" where
  "describe_adapter gk ad =
    (let a = \<lparr>ga_luid = ad_key ad, ga_name = ad_name ad, ga_dedicated_limit = 0, ga_dedicated_usage = 0,
           ga_shared_limit = ad_shared_limit ad, ga_shared_usage = 0, ga_temperature = 0, ga_fan_rpm = 0,
           ga_power = 0, ga_memory_frequency = 0,
           ga_engines = map (\<lambda>node. \<lparr>ge_ordinal = nd_ordinal node, ge_kind = nd_kind node, ge_name = nd_name node,
             ge_running_time = nd_total node, ge_frequency = 0, ge_max_frequency = nd_max_frequency node\<rparr>) (ad_nodes ad)\<rparr>;
         a = fold (describe_segment gk (ad_luid ad)) (ad_segments ad) a
     in case gk_perf gk (ad_luid ad) of
          None \<Rightarrow> a
        | Some perf \<Rightarrow> a\<lparr>ga_temperature := pf_temperature perf, ga_fan_rpm := pf_fan_rpm perf,
            ga_power := pf_power perf, ga_memory_frequency := pf_memory_frequency perf\<rparr>)"

section \<open>Processes\<close>

text \<open>Whether a process is read this tick.\<close>
definition gpu_due :: "gpu_used \<Rightarrow> bool \<Rightarrow> bool \<Rightarrow> bool" where
  "gpu_due used young in_turn \<longleftrightarrow> \<not> us_checked used \<or> us_on used \<noteq> [] \<or> young \<or> in_turn"

definition in_turn :: "nat \<Rightarrow> nat \<Rightarrow> nat \<Rightarrow> nat \<Rightarrow> bool" where
  "in_turn index len start share \<longleftrightarrow> (index + len - start) mod len < share"

text \<open>What a process ran on an engine since \<open>before\<close>; a read that went backwards adds nothing.\<close>
definition ran_since :: "u64 list \<Rightarrow> u64 list \<Rightarrow> nat \<Rightarrow> u64" where
  "ran_since before now i =
    (let added = (if length before = length now then now ! i - before ! i else now ! i)
     in if 0 < sint added then added else 0)"

definition account :: "gpu_node list \<Rightarrow> u64 list \<Rightarrow> u64 list \<Rightarrow> gpu_node list" where
  "account nodes before now =
    map (\<lambda>(i, node). if i < length now then node\<lparr>nd_total := nd_total node + ran_since before now i\<rparr> else node)
      (enumerate 0 nodes)"

text \<open>Committed bytes in dedicated and in shared segments; None without a context on the adapter.\<close>
fun segments_memory :: "(u32 \<Rightarrow> u64 option) \<Rightarrow> gpu_segment list \<Rightarrow> u64 \<times> u64 \<Rightarrow> (u64 \<times> u64) option" where
  "segments_memory query [] bytes = Some bytes"
| "segments_memory query (segment # segments) (dedicated, shared) =
    (case query (sm_id segment) of
       None \<Rightarrow> None
     | Some committed \<Rightarrow>
         segments_memory query segments
           (if sm_aperture segment then (dedicated, shared + committed) else (dedicated + committed, shared)))"

definition adapter_memory :: "graphics \<Rightarrow> adapter \<Rightarrow> handle \<Rightarrow> (u64 \<times> u64) option" where
  "adapter_memory gk ad h = segments_memory (gk_process_segment gk (ad_luid ad) h) (ad_segments ad) (0, 0)"

definition adapter_running :: "graphics \<Rightarrow> adapter \<Rightarrow> handle \<Rightarrow> u64 list option" where
  "adapter_running gk ad h = those (map (\<lambda>node. gk_process_node gk (ad_luid ad) h (nd_ordinal node)) (ad_nodes ad))"

definition on_position :: "adapter \<Rightarrow> gpu_used \<Rightarrow> nat option" where
  "on_position ad used = position (\<lambda>on. on_key on = ad_key ad) (us_on used)"

text \<open>The engines' part of a read: \<open>used\<close> has an entry for the adapter at \<open>at\<close>.\<close>
definition read_engines ::
    "graphics \<Rightarrow> gpu_wanted \<Rightarrow> handle \<Rightarrow> nat \<Rightarrow> nat \<Rightarrow> adapter \<Rightarrow> gpu_used \<times> process_gpu_engine list \<Rightarrow>
      adapter \<times> gpu_used \<times> process_gpu_engine list" where
  "read_engines gk wanted h index at ad s =
    (let (used, engines) = s
     in if \<not> (gw_engines wanted \<or> gw_adapters wanted) then (ad, used, engines)
        else (case adapter_running gk ad h of
                None \<Rightarrow> (ad, used\<lparr>us_on := swap_remove (us_on used) at\<rparr>, engines)
              | Some now \<Rightarrow>
                  (let on = us_on used ! at;
                       ad = ad\<lparr>ad_nodes := account (ad_nodes ad) (on_nodes on) now\<rparr>;
                       used = used\<lparr>us_on := (us_on used)[at := on\<lparr>on_nodes := now\<rparr>]\<rparr>;
                       told = (if gw_engines wanted
                         then map (\<lambda>(node, running). \<lparr>pge_row = of_nat index, pge_adapter_luid = ad_key ad,
                             pge_engine = nd_ordinal node, pge_running_time = running\<rparr>)
                           (filter (\<lambda>(node, running). running \<noteq> 0) (zip (ad_nodes ad) now))
                         else [])
                   in (ad, used, engines @ told))))"

definition read_adapter ::
    "graphics \<Rightarrow> gpu_wanted \<Rightarrow> handle \<Rightarrow> nat \<Rightarrow> adapter \<Rightarrow> gpu_used \<times> process_gpu_engine list \<Rightarrow>
      adapter \<times> gpu_used \<times> process_gpu_engine list" where
  "read_adapter gk wanted h index ad s =
    (let (used, engines) = s;
         at = on_position ad used;
         bytes = (if gw_memory wanted then adapter_memory gk ad h else Some (0, 0))
     in case bytes of
          None \<Rightarrow>
            (ad, case at of Some at \<Rightarrow> used\<lparr>us_on := swap_remove (us_on used) at\<rparr> | None \<Rightarrow> used, engines)
        | Some (dedicated, shared) \<Rightarrow>
            (let used = used\<lparr>us_dedicated := us_dedicated used + dedicated, us_shared := us_shared used + shared\<rparr>;
                 (at, used) = (case at of
                     Some at \<Rightarrow> (at, used)
                   | None \<Rightarrow> (length (us_on used), used\<lparr>us_on := us_on used @ [\<lparr>on_key = ad_key ad, on_nodes = []\<rparr>]\<rparr>))
             in read_engines gk wanted h index at ad (used, engines)))"

fun read_adapters ::
    "graphics \<Rightarrow> gpu_wanted \<Rightarrow> handle \<Rightarrow> nat \<Rightarrow> adapter list \<Rightarrow> gpu_used \<times> process_gpu_engine list \<Rightarrow>
      adapter list \<times> gpu_used \<times> process_gpu_engine list" where
  "read_adapters gk wanted h index [] s = ([], s)"
| "read_adapters gk wanted h index (ad # ads) s =
    (let (ad, s) = read_adapter gk wanted h index ad s; (ads, s) = read_adapters gk wanted h index ads s
     in (ad # ads, s))"

text \<open>The entry of a row, before it is asked: a new process, or one whose pid was reused, holds nothing.\<close>
definition used_entry :: "u64 \<Rightarrow> row \<Rightarrow> (u32, gpu_used) hashmap \<Rightarrow> gpu_used" where
  "used_entry tick row processes =
    (let used = (case hm_get processes (r_pid row) of
           Some used \<Rightarrow> used
         | None \<Rightarrow> \<lparr>us_sequence_number = r_sequence_number row, us_listed = tick, us_dedicated = 0, us_shared = 0,
             us_on = [], us_checked = False\<rparr>);
         used = (if us_sequence_number used \<noteq> r_sequence_number row
           then used\<lparr>us_sequence_number := r_sequence_number row, us_on := [], us_checked := False\<rparr> else used)
     in used\<lparr>us_listed := tick\<rparr>)"

definition read_row ::
    "graphics \<Rightarrow> gpu_wanted \<Rightarrow> open_handles \<Rightarrow> u64 \<Rightarrow> u64 \<Rightarrow> (nat \<Rightarrow> bool) \<Rightarrow> nat \<times> row \<Rightarrow>
      (u32, gpu_used) hashmap \<times> adapter list \<times> process_gpu_engine list \<Rightarrow>
      (u32, gpu_used) hashmap \<times> adapter list \<times> process_gpu_engine list" where
  "read_row gk wanted handles tick now turns r s =
    (let (index, row) = r; (processes, adapters, engines) = s;
         used = used_entry tick row processes
     in case handles_full handles (r_pid row) of
          None \<Rightarrow>
            (hm_put (r_pid row) (used\<lparr>us_dedicated := NO_DATA_U64, us_shared := NO_DATA_U64, us_on := []\<rparr>) processes,
             adapters, engines)
        | Some h \<Rightarrow>
            (let used = used\<lparr>us_dedicated := 0, us_shared := 0\<rparr>;
                 young = sat_sub now (r_create_time row) < of_nat (PROBE_ROUND div 100)
             in if \<not> gpu_due used young (turns index) then (hm_put (r_pid row) used processes, adapters, engines)
                else let (adapters, used, engines) =
                           read_adapters gk wanted h index adapters (used\<lparr>us_checked := True\<rparr>, engines)
                     in (hm_put (r_pid row) used processes, adapters, engines)))"

text \<open>\<open>at\<close> is the instant of the tick, \<open>now\<close> the same as a file time.\<close>
definition gpu_processes ::
    "graphics \<Rightarrow> gpu_wanted \<Rightarrow> instant \<Rightarrow> u64 \<Rightarrow> row list \<Rightarrow> open_handles \<Rightarrow> gpu \<Rightarrow> process_gpu_engine list \<times> gpu" where
  "gpu_processes gk wanted at now rows handles g =
    (let tick = gp_ticks g + 1;
         since = (case gp_last g of None \<Rightarrow> 0 | Some last_at \<Rightarrow> at - last_at);
         (start, share, next_cursor) = turn rows (gp_cursor g) since;
         turns = (\<lambda>index. in_turn index (length rows) start share);
         (processes, adapters, engines) =
           fold (read_row gk wanted handles tick now turns) (enumerate 0 rows) (gp_processes g, gp_adapters g, [])
     in (engines, g\<lparr>gp_ticks := tick, gp_last := Some at, gp_cursor := next_cursor, gp_adapters := adapters,
          gp_processes := filter (\<lambda>(_, used). us_listed used = tick) processes\<rparr>))"

definition read_gpu ::
    "graphics \<Rightarrow> gpu_wanted \<Rightarrow> instant \<Rightarrow> u64 \<Rightarrow> row list \<Rightarrow> open_handles \<Rightarrow> gpu \<Rightarrow> gpu_read \<times> gpu" where
  "read_gpu gk wanted at now rows handles g =
    (let due = (case gp_enumerated g of None \<Rightarrow> True | Some enumerated \<Rightarrow> at - enumerated \<ge> ENUMERATE_EVERY);
         g = (if due then gpu_enumerate gk at g else g);
         (engines, g) = gpu_processes gk wanted at now rows handles g
     in (\<lparr>gr_adapters = (if gw_adapters wanted then Some (map (describe_adapter gk) (gp_adapters g)) else None),
          gr_engines = (if gw_engines wanted then Some engines else None)\<rparr>, g))"

definition gpu_used_of :: "gpu \<Rightarrow> row \<Rightarrow> gpu_used option" where
  "gpu_used_of g row =
    (case hm_get (gp_processes g) (r_pid row) of
       None \<Rightarrow> None
     | Some used \<Rightarrow>
         if us_sequence_number used = r_sequence_number row \<and> us_listed used = gp_ticks g then Some used else None)"

definition gpu_dedicated :: "gpu \<Rightarrow> row \<Rightarrow> u64" where
  "gpu_dedicated g row = (case gpu_used_of g row of None \<Rightarrow> NO_DATA_U64 | Some used \<Rightarrow> us_dedicated used)"

definition gpu_shared :: "gpu \<Rightarrow> row \<Rightarrow> u64" where
  "gpu_shared g row = (case gpu_used_of g row of None \<Rightarrow> NO_DATA_U64 | Some used \<Rightarrow> us_shared used)"

section \<open>What one read adds\<close>

definition on_map :: "gpu_used \<Rightarrow> u64 \<rightharpoonup> u64 list" where
  "on_map used = map_of (map (\<lambda>on. (on_key on, on_nodes on)) (us_on used))"

definition on_ok :: "gpu_used \<Rightarrow> bool" where
  "on_ok used \<longleftrightarrow> distinct (map on_key (us_on used))"

text \<open>What a process is held to have run on an adapter's engines; nothing is known of none.\<close>
definition held_nodes :: "gpu_used \<Rightarrow> u64 \<Rightarrow> u64 list" where
  "held_nodes used k = (case on_map used k of None \<Rightarrow> [] | Some ns \<Rightarrow> ns)"

definition ran_on :: "gpu_used \<Rightarrow> u64 \<Rightarrow> nat \<Rightarrow> u64" where
  "ran_on used k i = (if i < length (held_nodes used k) then held_nodes used k ! i else 0)"

text \<open>A process's engines as this tick reads them, if it has a context on the adapter.\<close>
definition engines_now :: "graphics \<Rightarrow> gpu_wanted \<Rightarrow> handle \<Rightarrow> adapter \<Rightarrow> u64 list option" where
  "engines_now gk wanted h ad =
    (if gw_memory wanted \<and> adapter_memory gk ad h = None then None else adapter_running gk ad h)"

text \<open>Adapters but for what their engines ran.\<close>
definition same_adapter :: "adapter \<Rightarrow> adapter \<Rightarrow> bool" where
  "same_adapter ad ad' \<longleftrightarrow> ad_luid ad' = ad_luid ad \<and> ad_key ad' = ad_key ad \<and> ad_segments ad' = ad_segments ad \<and>
    map nd_ordinal (ad_nodes ad') = map nd_ordinal (ad_nodes ad)"

definition total_of :: "adapter \<Rightarrow> nat \<Rightarrow> u64" where
  "total_of ad i = nd_total (ad_nodes ad ! i)"

lemma same_adapter_refl [simp]: "same_adapter ad ad"
  by (simp add: same_adapter_def)

lemma same_adapter_trans: "same_adapter a b \<Longrightarrow> same_adapter b c \<Longrightarrow> same_adapter a c"
  by (simp add: same_adapter_def)

lemma same_adapter_length: "same_adapter ad ad' \<Longrightarrow> length (ad_nodes ad') = length (ad_nodes ad)"
  unfolding same_adapter_def by (metis length_map)

lemma same_adapter_reads:
  assumes "same_adapter ad ad'"
  shows "adapter_memory gk ad' h = adapter_memory gk ad h" and "adapter_running gk ad' h = adapter_running gk ad h"
    and "engines_now gk wanted h ad' = engines_now gk wanted h ad"
proof -
  show m: "adapter_memory gk ad' h = adapter_memory gk ad h"
    using assms by (simp add: adapter_memory_def same_adapter_def)
  have "map (\<lambda>node. gk_process_node gk l h (nd_ordinal node)) ns = map (gk_process_node gk l h) (map nd_ordinal ns)" for l ns
    by simp
  then show r: "adapter_running gk ad' h = adapter_running gk ad h"
    using assms unfolding adapter_running_def same_adapter_def by metis
  show "engines_now gk wanted h ad' = engines_now gk wanted h ad" by (simp add: engines_now_def m r)
qed

lemma adapter_running_length: "adapter_running gk ad h = Some now \<Longrightarrow> length now = length (ad_nodes ad)"
proof -
  have "those xs = Some ys \<Longrightarrow> length ys = length xs" for xs :: "u64 option list" and ys
    by (induction xs arbitrary: ys) (auto split: option.splits)
  then show "adapter_running gk ad h = Some now \<Longrightarrow> length now = length (ad_nodes ad)"
    unfolding adapter_running_def by fastforce
qed

lemma account_length [simp]: "length (account nodes before now) = length nodes"
  by (simp add: account_def)

lemma account_nth:
  "i < length nodes \<Longrightarrow> account nodes before now ! i =
    (if i < length now then (nodes ! i)\<lparr>nd_total := nd_total (nodes ! i) + ran_since before now i\<rparr> else nodes ! i)"
  by (simp add: account_def nth_enumerate_eq)

lemma same_adapter_account: "same_adapter ad (ad\<lparr>ad_nodes := account (ad_nodes ad) before now\<rparr>)"
  by (auto simp: same_adapter_def account_nth intro: nth_equalityI)

lemma on_map_swap_remove:
  assumes ok: "on_ok used" and at: "at < length (us_on used)"
  shows "on_map (used\<lparr>us_on := swap_remove (us_on used) at\<rparr>) = (on_map used)(on_key (us_on used ! at) := None)"
    and "on_ok (used\<lparr>us_on := swap_remove (us_on used) at\<rparr>)"
proof -
  let ?f = "\<lambda>on. (on_key on, on_nodes on)" and ?xs = "us_on used" and ?ys = "swap_remove (us_on used) at"
  have m: "mset ?xs = add_mset (?xs ! at) (mset ?ys)" by (rule mset_swap_remove [OF at])
  then have keys: "mset (map on_key ?xs) = add_mset (on_key (?xs ! at)) (mset (map on_key ?ys))" by simp
  then have d: "distinct (on_key (?xs ! at) # map on_key ?ys)"
    using ok unfolding on_ok_def by (metis mset.simps(2) mset_eq_imp_distinct_iff)
  then show "on_ok (used\<lparr>us_on := ?ys\<rparr>)" by (simp add: on_ok_def)
  have set: "set (map ?f ?xs) = set (map ?f (?xs ! at # ?ys))"
    using mset_eq_setD [OF m [folded mset.simps(2)]] by (simp only: set_map)
  have dx: "distinct (map fst (map ?f ?xs))" using ok by (simp add: on_ok_def comp_def)
  have dy: "distinct (map fst (map ?f (?xs ! at # ?ys)))" using d by (simp add: comp_def)
  have whole: "map_of (map ?f ?xs) = map_of (map ?f (?xs ! at # ?ys))"
    using map_of_inject_set [OF dx dy] set by blast
  have "map_of (map ?f ?ys) (on_key (?xs ! at)) = None"
    using d by (auto simp: map_of_eq_None_iff)
  then show "on_map (used\<lparr>us_on := ?ys\<rparr>) = (on_map used)(on_key (?xs ! at) := None)"
    unfolding on_map_def by (simp add: whole fun_eq_iff)
qed

lemma on_map_None: "on_map used k = None \<longleftrightarrow> k \<notin> on_key ` set (us_on used)"
  by (simp add: on_map_def map_of_eq_None_iff image_image)

lemma map_of_snoc: "k \<notin> fst ` set xs \<Longrightarrow> map_of (xs @ [(k, v)]) = (map_of xs)(k \<mapsto> v)"
  by (induction xs) (auto simp: fun_eq_iff)

lemma on_map_append:
  "on_ok used \<Longrightarrow> on_map used k = None \<Longrightarrow>
    on_map (used\<lparr>us_on := us_on used @ [\<lparr>on_key = k, on_nodes = ns\<rparr>]\<rparr>) = (on_map used)(k \<mapsto> ns) \<and>
    on_ok (used\<lparr>us_on := us_on used @ [\<lparr>on_key = k, on_nodes = ns\<rparr>]\<rparr>)"
  unfolding on_map_None by (simp add: on_map_def on_ok_def map_of_snoc image_image del: map_of_append)

lemma on_map_update:
  assumes ok: "on_ok used" and at: "at < length (us_on used)"
  shows "on_map (used\<lparr>us_on := (us_on used)[at := (us_on used ! at)\<lparr>on_nodes := ns\<rparr>]\<rparr>) =
      (on_map used)(on_key (us_on used ! at) \<mapsto> ns)"
    and "on_ok (used\<lparr>us_on := (us_on used)[at := (us_on used ! at)\<lparr>on_nodes := ns\<rparr>]\<rparr>)"
proof -
  let ?xs = "us_on used"
  have keys: "map on_key (?xs[at := (?xs ! at)\<lparr>on_nodes := ns\<rparr>]) = map on_key ?xs"
    by (simp add: map_update list_update_same_conv at)
  then show "on_ok (used\<lparr>us_on := ?xs[at := (?xs ! at)\<lparr>on_nodes := ns\<rparr>]\<rparr>)" using ok by (simp add: on_ok_def)
  have "distinct (map on_key xs) \<Longrightarrow> at < length xs \<Longrightarrow>
      map_of (map (\<lambda>on. (on_key on, on_nodes on)) (xs[at := (xs ! at)\<lparr>on_nodes := ns\<rparr>])) =
      (map_of (map (\<lambda>on. (on_key on, on_nodes on)) xs))(on_key (xs ! at) \<mapsto> ns)" for xs :: "on_adapter list"
  proof (induction xs arbitrary: at)
    case (Cons x xs)
    show ?case
    proof (cases at)
      case (Suc n)
      then have "on_key (xs ! n) \<noteq> on_key x" using Cons.prems by (metis distinct.simps(2) length_Cons length_map list.simps(9) not_less_eq nth_map nth_mem)
      then show ?thesis using Cons.IH [of n] Cons.prems Suc by (auto simp: fun_eq_iff)
    qed (auto simp: fun_eq_iff)
  qed simp
  then show "on_map (used\<lparr>us_on := ?xs[at := (?xs ! at)\<lparr>on_nodes := ns\<rparr>]\<rparr>) = (on_map used)(on_key (?xs ! at) \<mapsto> ns)"
    using ok at by (simp add: on_map_def on_ok_def)
qed

lemma on_position_Some: "on_position ad used = Some at \<Longrightarrow> at < length (us_on used) \<and> on_key (us_on used ! at) = ad_key ad"
  unfolding on_position_def by (rule position_Some)

lemma on_position_None: "on_position ad used = None \<longleftrightarrow> on_map used (ad_key ad) = None"
  unfolding on_position_def position_None on_map_None by (metis image_iff)

definition gained_by :: "u64 list option \<Rightarrow> u64 list \<Rightarrow> nat \<Rightarrow> u64" where
  "gained_by now before i = (case now of None \<Rightarrow> 0 | Some now \<Rightarrow> ran_since before now i)"

definition same_process :: "gpu_used \<Rightarrow> gpu_used \<Rightarrow> bool" where
  "same_process used used' \<longleftrightarrow> us_sequence_number used' = us_sequence_number used \<and> us_listed used' = us_listed used"

text \<open>
  A read of an adapter: what it leaves of other adapters' entries, what the process is
  held to have run on this one, and what its engines' totals gain.
\<close>
definition read_effect :: "u64 list option \<Rightarrow> adapter \<Rightarrow> gpu_used \<Rightarrow> adapter \<Rightarrow> gpu_used \<Rightarrow> bool" where
  "read_effect now ad used ad' used' \<longleftrightarrow> same_adapter ad ad' \<and> on_ok used' \<and> same_process used used' \<and>
    (\<forall>k. k \<noteq> ad_key ad \<longrightarrow> held_nodes used' k = held_nodes used k) \<and>
    held_nodes used' (ad_key ad) = (case now of None \<Rightarrow> [] | Some ns \<Rightarrow> ns) \<and>
    (\<forall>i < length (ad_nodes ad). total_of ad' i = total_of ad i + gained_by now (held_nodes used (ad_key ad)) i)"

lemma held_nodes_cong: "us_on used' = us_on used \<Longrightarrow> held_nodes used' = held_nodes used \<and> on_ok used' = on_ok used \<and> on_map used' = on_map used"
  by (auto simp: held_nodes_def on_map_def on_ok_def)

lemma held_at:
  assumes "on_ok used" "at < length (us_on used)"
  shows "on_map used (on_key (us_on used ! at)) = Some (on_nodes (us_on used ! at))"
proof -
  let ?f = "\<lambda>on. (on_key on, on_nodes on)"
  have d: "distinct (map fst (map ?f (us_on used)))" using assms(1) by (simp add: on_ok_def comp_def)
  have m: "?f (us_on used ! at) \<in> set (map ?f (us_on used))"
    unfolding list.set_map by (rule imageI) (rule nth_mem [OF assms(2)])
  show ?thesis unfolding on_map_def by (rule map_of_is_SomeI [OF d m])
qed

lemma read_engines_effect:
  assumes wanted: "gw_engines wanted \<or> gw_adapters wanted" and ok: "on_ok used"
    and at: "at < length (us_on used)" "on_key (us_on used ! at) = ad_key ad"
    and r: "read_engines gk wanted h index at ad (used, engines) = (ad', used', engines')"
  shows "read_effect (adapter_running gk ad h) ad used ad' used'"
proof (cases "adapter_running gk ad h")
  case None
  then have "ad' = ad" "used' = used\<lparr>us_on := swap_remove (us_on used) at\<rparr>"
    using r wanted by (auto simp: read_engines_def)
  then show ?thesis
    using on_map_swap_remove [OF ok at(1)] at(2)
    by (simp add: None read_effect_def same_process_def held_nodes_def gained_by_def)
next
  case (Some now)
  then have ad': "ad' = ad\<lparr>ad_nodes := account (ad_nodes ad) (on_nodes (us_on used ! at)) now\<rparr>"
    and used': "used' = used\<lparr>us_on := (us_on used)[at := (us_on used ! at)\<lparr>on_nodes := now\<rparr>]\<rparr>"
    using r wanted by (auto simp: read_engines_def Let_def)
  have held: "on_map used (ad_key ad) = Some (on_nodes (us_on used ! at))"
    using held_at [OF ok at(1)] at(2) by simp
  show ?thesis
    using on_map_update [OF ok at(1), of now] at(2) adapter_running_length [OF Some]
    by (simp add: Some read_effect_def same_process_def ad' used' same_adapter_account held total_of_def account_nth gained_by_def
        held_nodes_def)
qed

lemma read_adapter_effect:
  assumes wanted: "gw_engines wanted \<or> gw_adapters wanted" and ok: "on_ok used"
    and r: "read_adapter gk wanted h index ad (used, engines) = (ad', used', engines')"
  shows "read_effect (engines_now gk wanted h ad) ad used ad' used'"
proof (cases "if gw_memory wanted then adapter_memory gk ad h else Some (0, 0)")
  case None
  then have now: "engines_now gk wanted h ad = None" by (simp add: engines_now_def split: if_splits)
  show ?thesis
  proof (cases "on_position ad used")
    case Nowhere: None
    then have "ad' = ad" "used' = used" using r None by (auto simp: read_adapter_def)
    moreover have "on_map used (ad_key ad) = None" using Nowhere on_position_None by blast
    ultimately show ?thesis using ok by (simp add: now read_effect_def same_process_def held_nodes_def gained_by_def)
  next
    case (Some at)
    note at = on_position_Some [OF this]
    have "ad' = ad" "used' = used\<lparr>us_on := swap_remove (us_on used) at\<rparr>" using r None Some by (auto simp: read_adapter_def)
    then show ?thesis
      using on_map_swap_remove [OF ok, of at] at by (simp add: now read_effect_def same_process_def held_nodes_def gained_by_def)
  qed
next
  case (Some bytes)
  obtain d m where bytes: "bytes = (d, m)" by force
  have now: "engines_now gk wanted h ad = adapter_running gk ad h"
    using Some by (auto simp: engines_now_def split: if_splits)
  let ?u = "used\<lparr>us_dedicated := us_dedicated used + d, us_shared := us_shared used + m\<rparr>"
  have u: "on_ok ?u" "on_map ?u = on_map used" using ok held_nodes_cong [of ?u used] by simp_all
  show ?thesis
  proof (cases "on_position ad used")
    case Nowhere: None
    let ?v = "?u\<lparr>us_on := us_on ?u @ [\<lparr>on_key = ad_key ad, on_nodes = []\<rparr>]\<rparr>"
    have none: "on_map ?u (ad_key ad) = None" using Nowhere on_position_None u(2) by metis
    note v = on_map_append [OF u(1) none, of "[]"]
    have "read_engines gk wanted h index (length (us_on used)) ad (?v, engines) = (ad', used', engines')"
      using r Some bytes Nowhere by (simp add: read_adapter_def)
    from read_engines_effect [OF wanted conjunct2 [OF v] _ _ this]
    have "read_effect (adapter_running gk ad h) ad ?v ad' used'" by simp
    moreover have "held_nodes ?v = held_nodes used" using v u(2) none by (auto simp: held_nodes_def fun_eq_iff)
    ultimately show ?thesis by (simp add: now read_effect_def same_process_def)
  next
    case At: (Some at)
    note at = on_position_Some [OF this]
    have "read_engines gk wanted h index at ad (?u, engines) = (ad', used', engines')"
      using r Some bytes At by (simp add: read_adapter_def)
    from read_engines_effect [OF wanted u(1) _ _ this] at
    have "read_effect (adapter_running gk ad h) ad ?u ad' used'" by simp
    moreover have "held_nodes ?u = held_nodes used" using u(2) by (simp add: held_nodes_def fun_eq_iff)
    ultimately show ?thesis by (simp add: now read_effect_def same_process_def)
  qed
qed

text \<open>What a read of a process makes of one adapter.\<close>
definition adapter_reads :: "(adapter \<Rightarrow> u64 list option) \<Rightarrow> gpu_used \<Rightarrow> gpu_used \<Rightarrow> adapter \<Rightarrow> adapter \<Rightarrow> bool" where
  "adapter_reads now used used' ad ad' \<longleftrightarrow> same_adapter ad ad' \<and>
    held_nodes used' (ad_key ad) = (case now ad of None \<Rightarrow> [] | Some ns \<Rightarrow> ns) \<and>
    (\<forall>i < length (ad_nodes ad). total_of ad' i = total_of ad i + gained_by (now ad) (held_nodes used (ad_key ad)) i)"

lemma read_adapters_effect:
  assumes wanted: "gw_engines wanted \<or> gw_adapters wanted"
  shows "on_ok used \<Longrightarrow> distinct (map ad_key ads) \<Longrightarrow>
    read_adapters gk wanted h index ads (used, engines) = (ads', used', engines') \<Longrightarrow>
    on_ok used' \<and> same_process used used' \<and> (\<forall>k. k \<notin> ad_key ` set ads \<longrightarrow> held_nodes used' k = held_nodes used k) \<and>
    list_all2 (adapter_reads (engines_now gk wanted h) used used') ads ads'"
proof (induction ads arbitrary: used engines ads')
  case Nil
  then show ?case by (simp add: same_process_def)
next
  case (Cons ad ads)
  obtain ad1 used1 engines1 where one: "read_adapter gk wanted h index ad (used, engines) = (ad1, used1, engines1)"
    by (metis prod_cases3)
  obtain ads2 where tail: "read_adapters gk wanted h index ads (used1, engines1) = (ads2, used', engines')" "ads' = ad1 # ads2"
    using Cons.prems(3) by (auto simp: one split: prod.splits)
  have e: "read_effect (engines_now gk wanted h ad) ad used ad1 used1"
    by (rule read_adapter_effect [OF wanted Cons.prems(1) one])
  then have "on_ok used1" by (simp add: read_effect_def)
  moreover have d: "distinct (map ad_key ads)" "ad_key ad \<notin> ad_key ` set ads" using Cons.prems(2) by simp_all
  ultimately have ih: "on_ok used'" "same_process used1 used'" "\<forall>k. k \<notin> ad_key ` set ads \<longrightarrow> held_nodes used' k = held_nodes used1 k"
      "list_all2 (adapter_reads (engines_now gk wanted h) used1 used') ads ads2"
    using Cons.IH [OF _ _ tail(1)] by simp_all
  have "adapter_reads (engines_now gk wanted h) used used' a b"
    if "a \<in> set ads" "adapter_reads (engines_now gk wanted h) used1 used' a b" for a b
  proof -
    have "ad_key a \<noteq> ad_key ad" using that(1) d(2) by (metis imageI)
    then have "held_nodes used1 (ad_key a) = held_nodes used (ad_key a)" using e by (simp add: read_effect_def)
    then show ?thesis using that(2) by (simp add: adapter_reads_def)
  qed
  then have "list_all2 (adapter_reads (engines_now gk wanted h) used used') ads ads2"
    using ih(4) by (rule list.rel_mono_strong [rotated])
  moreover have "adapter_reads (engines_now gk wanted h) used used' ad ad1"
    using e ih(3) d(2) by (simp add: adapter_reads_def read_effect_def)
  ultimately show ?case using ih e tail(2) by (auto simp: read_effect_def same_process_def)
qed

section \<open>What a tick adds\<close>

text \<open>A row's engines as this tick reads them: none when it has no handle or is not its turn.\<close>
definition row_now ::
    "graphics \<Rightarrow> gpu_wanted \<Rightarrow> open_handles \<Rightarrow> u64 \<Rightarrow> u64 \<Rightarrow> (nat \<Rightarrow> bool) \<Rightarrow> nat \<times> row \<Rightarrow> (u32, gpu_used) hashmap \<Rightarrow>
      adapter \<Rightarrow> u64 list option" where
  "row_now gk wanted handles tick now turns r processes ad =
    (case handles_full handles (r_pid (snd r)) of
       None \<Rightarrow> None
     | Some h \<Rightarrow>
         if gpu_due (used_entry tick (snd r) processes) (sat_sub now (r_create_time (snd r)) < of_nat (PROBE_ROUND div 100)) (turns (fst r))
         then engines_now gk wanted h ad else None)"

definition processes_ok :: "(u32, gpu_used) hashmap \<Rightarrow> bool" where
  "processes_ok processes \<longleftrightarrow> hm_ok processes \<and> (\<forall>p used. hm_get processes p = Some used \<longrightarrow> on_ok used)"

lemma used_entry_ok: "processes_ok processes \<Longrightarrow> on_ok (used_entry tick row processes)"
  by (auto simp: used_entry_def processes_ok_def Let_def on_ok_def split: option.splits)

lemma used_entry_fields [simp]:
  "us_sequence_number (used_entry tick row processes) = r_sequence_number row"
  "us_listed (used_entry tick row processes) = tick"
  by (simp_all add: used_entry_def Let_def)

lemma held_none: "us_on used = [] \<Longrightarrow> held_nodes used k = []"
  by (simp add: held_nodes_def on_map_def)

lemma read_row_effect:
  assumes wanted: "gw_engines wanted \<or> gw_adapters wanted" and ok: "processes_ok processes"
    and keys: "distinct (map ad_key ads)"
    and r: "read_row gk wanted handles tick now turns r (processes, ads, engines) = (processes', ads', engines')"
  shows "\<exists>used'. processes' = hm_put (r_pid (snd r)) used' processes \<and> processes_ok processes' \<and>
    us_sequence_number used' = r_sequence_number (snd r) \<and> us_listed used' = tick \<and>
    list_all2 (adapter_reads (row_now gk wanted handles tick now turns r processes) (used_entry tick (snd r) processes) used') ads ads'"
proof -
  obtain index row where r': "r = (index, row)" by force
  let ?u = "used_entry tick row processes" and ?n = "row_now gk wanted handles tick now turns r processes"
  have put: "processes_ok (hm_put (r_pid row) u processes)" if "on_ok u" for u
    using ok that by (auto simp: processes_ok_def hm)
  have same: "list_all2 (adapter_reads ?n ?u u) ads ads" if "\<And>ad. ?n ad = None" "us_on u = []" for u
    using that by (simp add: list_all2_same adapter_reads_def gained_by_def held_none)
  show ?thesis
  proof (cases "handles_full handles (r_pid row)")
    case None
    let ?v = "?u\<lparr>us_dedicated := NO_DATA_U64, us_shared := NO_DATA_U64, us_on := []\<rparr>"
    have "processes' = hm_put (r_pid row) ?v processes" "ads' = ads" using r None by (auto simp: r' read_row_def)
    moreover have "?n ad = None" for ad using None by (simp add: row_now_def r')
    ultimately show ?thesis using put [of ?v] same [of ?v] by (intro exI [of _ ?v]) (simp add: r' on_ok_def)
  next
    case (Some h)
    let ?due = "gpu_due ?u (sat_sub now (r_create_time row) < of_nat (PROBE_ROUND div 100)) (turns index)"
    let ?w = "?u\<lparr>us_dedicated := 0, us_shared := 0\<rparr>"
    have due_eq: "gpu_due ?w y t = gpu_due ?u y t" for y t by (simp add: gpu_due_def)
    show ?thesis
    proof (cases ?due)
      case False
      then have empty: "us_on ?u = []" by (simp add: gpu_due_def)
      have "processes' = hm_put (r_pid row) ?w processes" "ads' = ads"
        using r Some False by (auto simp: r' read_row_def Let_def due_eq)
      moreover have "?n ad = None" for ad using False by (simp add: row_now_def r' Some)
      ultimately show ?thesis
        using put [of ?w] same [of ?w] empty used_entry_ok [OF ok] by (intro exI [of _ ?w]) (simp add: r' on_ok_def)
    next
      case True
      obtain ads1 used1 engines1 where a: "read_adapters gk wanted h index ads (?w\<lparr>us_checked := True\<rparr>, engines) = (ads1, used1, engines1)"
        by (metis prod_cases3)
      have p: "processes' = hm_put (r_pid row) used1 processes" "ads' = ads1"
        using r Some True a by (auto simp: r' read_row_def Let_def due_eq)
      have w: "on_ok (?w\<lparr>us_checked := True\<rparr>)" "held_nodes (?w\<lparr>us_checked := True\<rparr>) = held_nodes ?u"
        using used_entry_ok [OF ok, of tick row] held_nodes_cong [of "?w\<lparr>us_checked := True\<rparr>" ?u] by simp_all
      note e = read_adapters_effect [OF wanted w(1) keys a]
      have "?n = engines_now gk wanted h" using True by (simp add: row_now_def r' Some fun_eq_iff)
      moreover have "adapter_reads n (?w\<lparr>us_checked := True\<rparr>) used1 = adapter_reads n ?u used1" for n
        by (simp add: adapter_reads_def fun_eq_iff w(2))
      ultimately have "list_all2 (adapter_reads ?n ?u used1) ads ads1" using e by simp
      then show ?thesis using e p put [of used1] by (intro exI [of _ used1]) (simp add: r' same_process_def)
    qed
  qed
qed

definition row_left :: "u64 \<Rightarrow> (adapter \<Rightarrow> u64 list option) \<Rightarrow> row \<Rightarrow> adapter list \<Rightarrow> gpu_used \<Rightarrow> bool" where
  "row_left tick now row ads used \<longleftrightarrow> us_sequence_number used = r_sequence_number row \<and> us_listed used = tick \<and>
    (\<forall>j < length ads. held_nodes used (ad_key (ads ! j)) = (case now (ads ! j) of None \<Rightarrow> [] | Some ns \<Rightarrow> ns))"

lemma used_entry_put: "p \<noteq> r_pid row \<Longrightarrow> used_entry tick row (hm_put p used processes) = used_entry tick row processes"
  by (simp add: used_entry_def hm)

lemma row_now_put:
  "p \<noteq> r_pid (snd r) \<Longrightarrow>
    row_now gk wanted handles tick now turns r (hm_put p used processes) = row_now gk wanted handles tick now turns r processes"
  by (simp add: row_now_def used_entry_put fun_eq_iff split: option.split)

lemma row_now_same:
  "same_adapter ad ad' \<Longrightarrow> row_now gk wanted handles tick now turns r processes ad' = row_now gk wanted handles tick now turns r processes ad"
  by (simp add: row_now_def same_adapter_reads(3) split: option.split)

lemma read_rows_effect:
  assumes wanted: "gw_engines wanted \<or> gw_adapters wanted"
  shows "distinct (map (\<lambda>r. r_pid (snd r)) rs) \<Longrightarrow> processes_ok ps \<Longrightarrow> distinct (map ad_key ads) \<Longrightarrow>
    fold (read_row gk wanted handles tick now turns) rs (ps, ads, es) = (ps', ads', es') \<Longrightarrow>
    processes_ok ps' \<and> list_all2 same_adapter ads ads' \<and>
    (\<forall>p. p \<notin> (\<lambda>r. r_pid (snd r)) ` set rs \<longrightarrow> hm_get ps' p = hm_get ps p) \<and>
    (\<forall>r \<in> set rs. \<exists>used. hm_get ps' (r_pid (snd r)) = Some used \<and>
      row_left tick (row_now gk wanted handles tick now turns r ps) (snd r) ads used) \<and>
    (\<forall>j < length ads. \<forall>i < length (ad_nodes (ads ! j)). total_of (ads' ! j) i = total_of (ads ! j) i +
      (\<Sum>r \<leftarrow> rs. gained_by (row_now gk wanted handles tick now turns r ps (ads ! j))
        (held_nodes (used_entry tick (snd r) ps) (ad_key (ads ! j))) i))"
proof (induction rs arbitrary: ps ads es)
  case Nil
  then show ?case by (simp add: list_all2_same)
next
  case (Cons r rs)
  let ?n = "row_now gk wanted handles tick now turns"
  obtain ps1 ads1 es1 where one: "read_row gk wanted handles tick now turns r (ps, ads, es) = (ps1, ads1, es1)"
    by (metis prod_cases3)
  have tail: "fold (read_row gk wanted handles tick now turns) rs (ps1, ads1, es1) = (ps', ads', es')"
    using Cons.prems(4) one by simp
  obtain used where u: "ps1 = hm_put (r_pid (snd r)) used ps" "processes_ok ps1" "us_sequence_number used = r_sequence_number (snd r)"
      "us_listed used = tick" "list_all2 (adapter_reads (?n r ps) (used_entry tick (snd r) ps) used) ads ads1"
    using read_row_effect [OF wanted Cons.prems(2,3) one] by blast
  have len: "length ads1 = length ads" using u(5) by (simp add: list_all2_lengthD)
  have at: "adapter_reads (?n r ps) (used_entry tick (snd r) ps) used (ads ! j) (ads1 ! j)" if "j < length ads" for j
    using u(5) that by (simp add: list_all2_nthD)
  then have same: "same_adapter (ads ! j) (ads1 ! j)" if "j < length ads" for j using that by (simp add: adapter_reads_def)
  then have "map ad_key ads1 = map ad_key ads" using len by (intro nth_equalityI) (simp_all add: same_adapter_def)
  then have keys: "distinct (map ad_key ads1)" using Cons.prems(3) by simp
  have other: "r_pid (snd r) \<noteq> r_pid (snd q)" if "q \<in> set rs" for q using Cons.prems(1) that by auto
  have n1: "?n q ps1 (ads1 ! j) = ?n q ps (ads ! j)" if "q \<in> set rs" "j < length ads" for q j
    using row_now_same [OF same [OF that(2)]] row_now_put [OF other [OF that(1)]] by (simp add: u(1))
  have ih: "processes_ok ps' \<and> list_all2 same_adapter ads1 ads' \<and>
      (\<forall>p. p \<notin> (\<lambda>r. r_pid (snd r)) ` set rs \<longrightarrow> hm_get ps' p = hm_get ps1 p) \<and>
      (\<forall>q \<in> set rs. \<exists>used. hm_get ps' (r_pid (snd q)) = Some used \<and> row_left tick (?n q ps1) (snd q) ads1 used) \<and>
      (\<forall>j < length ads1. \<forall>i < length (ad_nodes (ads1 ! j)). total_of (ads' ! j) i = total_of (ads1 ! j) i +
        (\<Sum>q \<leftarrow> rs. gained_by (?n q ps1 (ads1 ! j)) (held_nodes (used_entry tick (snd q) ps1) (ad_key (ads1 ! j))) i))"
    using Cons.IH [OF _ u(2) keys tail] Cons.prems(1) by simp
  have "r_pid (snd r) \<notin> (\<lambda>r. r_pid (snd r)) ` set rs" using other by auto
  then have mine: "hm_get ps' (r_pid (snd r)) = Some used" using ih by (simp add: u(1) hm)
  have left: "row_left tick (?n r ps) (snd r) ads used"
    using at u(3,4) by (simp add: row_left_def adapter_reads_def)
  have lefts: "row_left tick (?n q ps) (snd q) ads v" if "q \<in> set rs" "row_left tick (?n q ps1) (snd q) ads1 v" for q v
    using that(2) n1 [OF that(1)] same by (simp add: row_left_def len same_adapter_def)
  have sums: "(\<Sum>q \<leftarrow> rs. gained_by (?n q ps1 (ads1 ! j)) (held_nodes (used_entry tick (snd q) ps1) (ad_key (ads1 ! j))) i) =
      (\<Sum>q \<leftarrow> rs. gained_by (?n q ps (ads ! j)) (held_nodes (used_entry tick (snd q) ps) (ad_key (ads ! j))) i)"
    if "j < length ads" for j i
    using n1 that same [OF that] other
    by (intro arg_cong [where f = sum_list] map_cong refl) (simp add: u(1) used_entry_put same_adapter_def)
  have totals: "total_of (ads' ! j) i = total_of (ads ! j) i +
      (\<Sum>q \<leftarrow> r # rs. gained_by (?n q ps (ads ! j)) (held_nodes (used_entry tick (snd q) ps) (ad_key (ads ! j))) i)"
    if "j < length ads" "i < length (ad_nodes (ads ! j))" for j i
    using ih at [OF that(1)] that same_adapter_length [OF same [OF that(1)]]
    by (simp add: len sums [OF that(1)] adapter_reads_def add.assoc)
  have "list_all2 same_adapter ads ads'"
    using ih len same_adapter_trans [OF same] by (simp add: list_all2_conv_all_nth)
  then show ?case using ih mine left lefts totals by (auto simp: u(1) hm)
qed

definition gpu_ok :: "gpu \<Rightarrow> bool" where
  "gpu_ok g \<longleftrightarrow> processes_ok (gp_processes g) \<and> distinct (map ad_key (gp_adapters g)) \<and>
    (\<forall>p used. hm_get (gp_processes g) p = Some used \<longrightarrow> us_listed used = gp_ticks g)"

definition gpu_turns :: "gpu \<Rightarrow> instant \<Rightarrow> row list \<Rightarrow> nat \<Rightarrow> bool" where
  "gpu_turns g at rows =
    (case turn rows (gp_cursor g) (case gp_last g of None \<Rightarrow> 0 | Some last_at \<Rightarrow> at - last_at) of
       (start, share, _) \<Rightarrow> (\<lambda>index. in_turn index (length rows) start share))"

text \<open>What a tick reads of a row's engines.\<close>
definition tick_now ::
    "graphics \<Rightarrow> gpu_wanted \<Rightarrow> instant \<Rightarrow> u64 \<Rightarrow> row list \<Rightarrow> open_handles \<Rightarrow> gpu \<Rightarrow> nat \<times> row \<Rightarrow> adapter \<Rightarrow> u64 list option" where
  "tick_now gk wanted at now rows handles g r =
    row_now gk wanted handles (gp_ticks g + 1) now (gpu_turns g at rows) r (gp_processes g)"

text \<open>What was held of a row's process when the tick began.\<close>
definition held_before :: "gpu \<Rightarrow> row \<Rightarrow> u64 \<Rightarrow> u64 list" where
  "held_before g row k = held_nodes (used_entry (gp_ticks g + 1) row (gp_processes g)) k"

lemma gpu_tick_effect:
  assumes ok: "gpu_ok g" and wanted: "gw_engines wanted \<or> gw_adapters wanted" and rows: "distinct (map r_pid rows)"
    and t: "gpu_processes gk wanted at now rows handles g = (engines, g')"
  shows "gpu_ok g' \<and> list_all2 same_adapter (gp_adapters g) (gp_adapters g') \<and>
    hm_keys (gp_processes g') = r_pid ` set rows \<and>
    (\<forall>r \<in> set (enumerate 0 rows). \<exists>used. hm_get (gp_processes g') (r_pid (snd r)) = Some used \<and>
      row_left (gp_ticks g + 1) (tick_now gk wanted at now rows handles g r) (snd r) (gp_adapters g) used) \<and>
    (\<forall>j < length (gp_adapters g). \<forall>i < length (ad_nodes (gp_adapters g ! j)).
      total_of (gp_adapters g' ! j) i = total_of (gp_adapters g ! j) i +
      (\<Sum>r \<leftarrow> enumerate 0 rows. gained_by (tick_now gk wanted at now rows handles g r (gp_adapters g ! j))
        (held_before g (snd r) (ad_key (gp_adapters g ! j))) i))"
proof -
  let ?tick = "gp_ticks g + 1" and ?ps = "gp_processes g" and ?ads = "gp_adapters g" and ?rs = "enumerate 0 rows"
  obtain start share next_cursor where turn: "turn rows (gp_cursor g) (case gp_last g of None \<Rightarrow> 0 | Some l \<Rightarrow> at - l) = (start, share, next_cursor)"
    by (metis prod_cases3)
  then have turns: "gpu_turns g at rows = (\<lambda>index. in_turn index (length rows) start share)" by (simp add: gpu_turns_def)
  obtain ps' ads' es' where f: "fold (read_row gk wanted handles ?tick now (gpu_turns g at rows)) ?rs (?ps, ?ads, []) = (ps', ads', es')"
    by (metis prod_cases3)
  have g': "g' = g\<lparr>gp_ticks := ?tick, gp_last := Some at, gp_cursor := next_cursor, gp_adapters := ads',
      gp_processes := filter (\<lambda>(_, used). us_listed used = ?tick) ps'\<rparr>"
    using t turn f by (simp add: gpu_processes_def Let_def turns)
  have ps: "processes_ok ?ps" and keys: "distinct (map ad_key ?ads)" and listed: "\<And>p used. hm_get ?ps p = Some used \<Longrightarrow> us_listed used = gp_ticks g"
    using ok by (auto simp: gpu_ok_def)
  have snds: "map (\<lambda>r. r_pid (snd r)) ?rs = map r_pid rows" by (metis comp_apply map_map map_snd_enumerate map_cong)
  note e = read_rows_effect [OF wanted _ ps keys f, unfolded snds, OF rows]
  have pids: "(\<lambda>r. r_pid (snd r)) ` set ?rs = r_pid ` set rows" by (metis snds set_map)
  have hm: "hm_ok ps'" using e by (simp add: processes_ok_def)
  have get: "hm_get (gp_processes g') p = (if p \<in> r_pid ` set rows then hm_get ps' p else None)" for p
  proof (cases "p \<in> r_pid ` set rows")
    case True
    then obtain r where "r \<in> set ?rs" "p = r_pid (snd r)" unfolding pids [symmetric] by auto
    then obtain used where "hm_get ps' p = Some used" "us_listed used = ?tick" using e by (auto simp: row_left_def)
    then show ?thesis using True by (simp add: g' hm_get_filter [OF hm])
  next
    case False
    then have "hm_get ps' p = hm_get ?ps p" using e pids by blast
    then show ?thesis using False listed by (auto simp: g' hm_get_filter [OF hm] split: option.split)
  qed
  have here: "\<exists>used. hm_get ps' (r_pid (snd r)) = Some used \<and> row_left ?tick (tick_now gk wanted at now rows handles g r) (snd r) ?ads used"
    if "r \<in> set ?rs" for r
    using e that by (simp add: tick_now_def)
  have keys': "hm_keys (gp_processes g') = r_pid ` set rows"
  proof -
    have "hm_get ps' p \<noteq> None" if "p \<in> r_pid ` set rows" for p
      using that here unfolding pids [symmetric] by fastforce
    then have "p \<in> hm_keys (gp_processes g') \<longleftrightarrow> p \<in> r_pid ` set rows" for p
      unfolding hm_keys_get get by auto
    then show ?thesis by blast
  qed
  have "map ad_key ads' = map ad_key ?ads"
    using e by (intro nth_equalityI) (auto simp: list_all2_conv_all_nth same_adapter_def)
  moreover have listed': "us_listed used = ?tick" if g: "hm_get (gp_processes g') p = Some used" for p used
  proof -
    have "p \<in> r_pid ` set rows" using g get by (metis option.distinct(1))
    then obtain r where r: "r \<in> set ?rs" "p = r_pid (snd r)" unfolding pids [symmetric] by auto
    then have "hm_get ps' p = Some used" using g get by (metis option.distinct(1))
    then show ?thesis using here [OF r(1)] r(2) by (auto simp: row_left_def)
  qed
  moreover have "processes_ok (gp_processes g')"
  proof -
    have "hm_ok (gp_processes g')" using hm by (simp add: g')
    moreover have "on_ok used" if "hm_get (gp_processes g') p = Some used" for p used
    proof -
      have "hm_get ps' p = Some used" using that get by (metis option.distinct(1))
      then show ?thesis using e by (auto simp: processes_ok_def)
    qed
    ultimately show ?thesis by (simp add: processes_ok_def)
  qed
  moreover have "gp_ticks g' = ?tick" "gp_adapters g' = ads'" by (simp_all add: g')
  ultimately have "gpu_ok g'" using keys unfolding gpu_ok_def by metis
  moreover have "\<exists>used. hm_get (gp_processes g') (r_pid (snd r)) = Some used \<and>
      row_left ?tick (tick_now gk wanted at now rows handles g r) (snd r) ?ads used" if "r \<in> set ?rs" for r
    using here [OF that] get pids that by auto
  ultimately show ?thesis using e keys' by (simp add: g' tick_now_def held_before_def)
qed

section \<open>Tick after tick\<close>

text \<open>
  A tick that reads the engines of every process it may have read before: none goes
  backwards, and none that was read is refused.
\<close>
definition goes_on :: "u64 list option \<Rightarrow> u64 list \<Rightarrow> bool" where
  "goes_on now before \<longleftrightarrow>
    (case now of
       None \<Rightarrow> before = []
     | Some ns \<Rightarrow>
         if length before = length ns
         then (\<forall>i < length ns. before ! i \<le> ns ! i \<and> unat (ns ! i - before ! i) < 2 ^ 63)
         else before = [] \<and> (\<forall>i < length ns. unat (ns ! i) < 2 ^ 63))"

definition steady ::
    "graphics \<Rightarrow> gpu_wanted \<Rightarrow> instant \<Rightarrow> u64 \<Rightarrow> row list \<Rightarrow> open_handles \<Rightarrow> gpu \<Rightarrow> bool" where
  "steady gk wanted at now rows handles g \<longleftrightarrow>
    (gw_engines wanted \<or> gw_adapters wanted) \<and> distinct (map r_pid rows) \<and>
    list_all (\<lambda>r. list_all (\<lambda>ad. goes_on (tick_now gk wanted at now rows handles g r ad) (held_before g (snd r) (ad_key ad)))
      (gp_adapters g)) (enumerate 0 rows)"

text \<open>Whether a process that was listed is listed still.\<close>
definition still_there :: "row list \<Rightarrow> u32 \<Rightarrow> gpu_used \<Rightarrow> bool" where
  "still_there rows p used \<longleftrightarrow> (\<exists>row \<in> set rows. r_pid row = p \<and> r_sequence_number row = us_sequence_number used)"

definition used_at :: "gpu \<Rightarrow> u32 \<Rightarrow> gpu_used" where
  "used_at g p = the (hm_get (gp_processes g) p)"

text \<open>What the processes that left in a tick had run.\<close>
definition left_ran :: "gpu \<Rightarrow> row list \<Rightarrow> u64 \<Rightarrow> nat \<Rightarrow> u64" where
  "left_ran g rows k i =
    (\<Sum>p \<in> hm_keys (gp_processes g). if still_there rows p (used_at g p) then 0 else ran_on (used_at g p) k i)"

text \<open>What the processes that are listed are known to have run.\<close>
definition listed_ran :: "gpu \<Rightarrow> u64 \<Rightarrow> nat \<Rightarrow> u64" where
  "listed_ran g k i = (\<Sum>p \<in> hm_keys (gp_processes g). ran_on (used_at g p) k i)"

text \<open>From adapters just found: \<open>gone\<close> is what processes that left had run.\<close>
inductive gpu_run :: "gpu \<Rightarrow> (u64 \<Rightarrow> nat \<Rightarrow> u64) \<Rightarrow> bool" where
  found: "gp_processes g = [] \<Longrightarrow> distinct (map ad_key (gp_adapters g)) \<Longrightarrow>
      list_all (\<lambda>ad. list_all (\<lambda>node. nd_total node = 0) (ad_nodes ad)) (gp_adapters g) \<Longrightarrow> gpu_run g (\<lambda>_ _. 0)"
| ticked: "gpu_run g gone \<Longrightarrow> steady gk wanted at now rows handles g \<Longrightarrow>
      gpu_processes gk wanted at now rows handles g = (engines, g') \<Longrightarrow>
      gpu_run g' (\<lambda>k i. gone k i + left_ran g rows k i)"

lemma sint_pos:
  assumes "unat (w :: u64) < 2 ^ 63"
  shows "0 < sint w \<longleftrightarrow> w \<noteq> 0"
proof -
  have "unat w < 2 ^ 63" by (rule assms)
  then have u: "uint w < 2 ^ 63" unfolding uint_nat by (metis of_nat_less_iff of_nat_numeral of_nat_power)
  have "- (2 ^ 63) \<le> uint w" by (rule order_trans [of _ 0]) simp_all
  then have "sint w = uint w" using u by (simp add: sint_uint signed_take_bit_int_eq_self)
  moreover have "0 < uint w \<longleftrightarrow> w \<noteq> 0" using uint_ge_0 [of w] uint_0_iff [of w] by linarith
  ultimately show ?thesis by simp
qed

lemma gained_going_on:
  assumes "goes_on now before" and "\<forall>ns. now = Some ns \<longrightarrow> i < length ns"
  shows "gained_by now before i =
    (case now of None \<Rightarrow> 0 | Some ns \<Rightarrow> ns ! i) - (if i < length before then before ! i else 0)"
proof (cases now)
  case None
  then show ?thesis using assms(1) by (simp add: goes_on_def gained_by_def)
next
  case (Some ns)
  have i: "i < length ns" using assms(2) Some by simp
  then have "unat (ns ! i - (if i < length before then before ! i else 0)) < 2 ^ 63"
    using assms(1) Some by (auto simp: goes_on_def split: if_splits)
  then show ?thesis
    using assms(1) i Some sint_pos by (auto simp: goes_on_def gained_by_def ran_since_def Let_def split: if_splits)
qed

text \<open>What a row's process is held to have run before the tick: nothing if it was not there.\<close>
lemma held_before_ran:
  assumes rows: "distinct (map r_pid rows)" and row: "row \<in> set rows"
  shows "(if i < length (held_before g row k) then held_before g row k ! i else 0) =
    (if r_pid row \<in> hm_keys (gp_processes g) \<and> still_there rows (r_pid row) (used_at g (r_pid row))
     then ran_on (used_at g (r_pid row)) k i else 0)"
proof -
  have there: "still_there rows (r_pid row) u \<longleftrightarrow> r_sequence_number row = us_sequence_number u" for u
    using rows row unfolding still_there_def by (metis (no_types, lifting) distinct_map inj_onD)
  show ?thesis
  proof (cases "hm_get (gp_processes g) (r_pid row)")
    case None
    then have "r_pid row \<notin> hm_keys (gp_processes g)" by (simp add: hm_keys_get)
    moreover have "held_before g row k = []"
      using None by (simp add: held_before_def used_entry_def held_none)
    ultimately show ?thesis by simp
  next
    case (Some u)
    then have key: "r_pid row \<in> hm_keys (gp_processes g)" by (simp add: hm_keys_get)
    have used: "used_at g (r_pid row) = u" by (simp add: used_at_def Some)
    show ?thesis
    proof (cases "us_sequence_number u = r_sequence_number row")
      case True
      then have "held_before g row k = held_nodes u k"
        by (simp add: held_before_def used_entry_def Some Let_def held_nodes_def on_map_def)
      then show ?thesis using True key there by (simp add: used ran_on_def)
    next
      case False
      then have "held_before g row k = []"
        by (simp add: held_before_def used_entry_def Some Let_def held_none)
      then show ?thesis using False there by (simp add: used)
    qed
  qed
qed

lemma steady_tick_adds:
  assumes ok: "gpu_ok g" and steady: "steady gk wanted at now rows handles g"
    and t: "gpu_processes gk wanted at now rows handles g = (engines, g')"
    and j: "j < length (gp_adapters g)" and i: "i < length (ad_nodes (gp_adapters g ! j))"
  shows "total_of (gp_adapters g' ! j) i + listed_ran g (ad_key (gp_adapters g ! j)) i =
    total_of (gp_adapters g ! j) i + left_ran g rows (ad_key (gp_adapters g ! j)) i + listed_ran g' (ad_key (gp_adapters g ! j)) i"
proof -
  let ?ad = "gp_adapters g ! j" and ?rs = "enumerate 0 rows"
  let ?k = "ad_key ?ad"
  have wanted: "gw_engines wanted \<or> gw_adapters wanted" and rows: "distinct (map r_pid rows)"
    and on: "\<And>r. r \<in> set ?rs \<Longrightarrow> goes_on (tick_now gk wanted at now rows handles g r ?ad) (held_before g (snd r) ?k)"
    using steady j by (auto simp: steady_def list_all_iff)
  note e = gpu_tick_effect [OF ok wanted rows t]
  let ?f = "\<lambda>p. ran_on (used_at g' p) ?k i"
  let ?b = "\<lambda>p. if p \<in> hm_keys (gp_processes g) \<and> still_there rows p (used_at g p) then ran_on (used_at g p) ?k i else 0"
  have gain: "gained_by (tick_now gk wanted at now rows handles g r ?ad) (held_before g (snd r) ?k) i = ?f (r_pid (snd r)) - ?b (r_pid (snd r))"
    if r: "r \<in> set ?rs" for r
  proof -
    let ?now = "tick_now gk wanted at now rows handles g r ?ad"
    have row: "snd r \<in> set rows" using r by (metis imageI list.set_map map_snd_enumerate)
    obtain used where u: "hm_get (gp_processes g') (r_pid (snd r)) = Some used"
        "row_left (gp_ticks g + 1) (tick_now gk wanted at now rows handles g r) (snd r) (gp_adapters g) used"
      using e r by blast
    then have held: "held_nodes used ?k = (case ?now of None \<Rightarrow> [] | Some ns \<Rightarrow> ns)" using j by (simp add: row_left_def)
    have len: "i < length ns" if "?now = Some ns" for ns
      using that i adapter_running_length
      by (auto simp: tick_now_def row_now_def engines_now_def split: option.splits if_splits)
    have "?f (r_pid (snd r)) = (case ?now of None \<Rightarrow> 0 | Some ns \<Rightarrow> ns ! i)"
      using u(1) held len by (simp add: used_at_def ran_on_def split: option.split)
    then show ?thesis
      using gained_going_on [OF on [OF r], of i] len held_before_ran [OF rows row, where g = g and k = ?k and i = i] by simp
  qed
  have snds: "map (\<lambda>r. h (r_pid (snd r))) ?rs = map h (map r_pid rows)" for h :: "u32 \<Rightarrow> u64"
  proof -
    have "map (\<lambda>r. h (r_pid (snd r))) ?rs = map (\<lambda>row. h (r_pid row)) (map snd ?rs)" by (simp only: map_map comp_def)
    then show ?thesis by simp
  qed
  have over: "(\<Sum>r \<leftarrow> ?rs. h (r_pid (snd r))) = (\<Sum>p \<in> r_pid ` set rows. h p)" for h :: "u32 \<Rightarrow> u64"
    unfolding snds using sum_list_distinct_conv_sum_set [OF rows, of h] by simp
  have "(\<Sum>r \<leftarrow> ?rs. gained_by (tick_now gk wanted at now rows handles g r ?ad) (held_before g (snd r) ?k) i) =
      (\<Sum>r \<leftarrow> ?rs. ?f (r_pid (snd r)) - ?b (r_pid (snd r)))"
    using gain by (intro arg_cong [where f = sum_list] map_cong refl) simp
  also have "\<dots> = (\<Sum>p \<in> r_pid ` set rows. ?f p) - (\<Sum>p \<in> r_pid ` set rows. ?b p)"
    unfolding sum_list_subtractf using over [of ?f] over [of ?b] by simp
  also have "(\<Sum>p \<in> r_pid ` set rows. ?f p) = listed_ran g' ?k i" using e by (simp add: listed_ran_def)
  also have "(\<Sum>p \<in> r_pid ` set rows. ?b p) =
      (\<Sum>p \<in> hm_keys (gp_processes g). if still_there rows p (used_at g p) then ran_on (used_at g p) ?k i else 0)"
  proof (rule sum.mono_neutral_cong)
    show "(if still_there rows p (used_at g p) then ran_on (used_at g p) ?k i else 0) = 0"
      if "p \<in> hm_keys (gp_processes g) - r_pid ` set rows" for p
      using that by (auto simp: still_there_def)
  qed auto
  finally have sums: "(\<Sum>r \<leftarrow> ?rs. gained_by (tick_now gk wanted at now rows handles g r ?ad) (held_before g (snd r) ?k) i) =
      listed_ran g' ?k i - (\<Sum>p \<in> hm_keys (gp_processes g). if still_there rows p (used_at g p) then ran_on (used_at g p) ?k i else 0)" .
  have split: "listed_ran g ?k i = left_ran g rows ?k i +
      (\<Sum>p \<in> hm_keys (gp_processes g). if still_there rows p (used_at g p) then ran_on (used_at g p) ?k i else 0)"
    unfolding listed_ran_def left_ran_def sum.distrib [symmetric] by (rule sum.cong) auto
  have "total_of (gp_adapters g' ! j) i = total_of ?ad i +
      (\<Sum>r \<leftarrow> ?rs. gained_by (tick_now gk wanted at now rows handles g r ?ad) (held_before g (snd r) ?k) i)"
    using e i j by simp
  then show ?thesis unfolding sums split by simp
qed

lemma gpu_run_adds_up:
  "gpu_run g gone \<Longrightarrow> gpu_ok g \<and> (\<forall>j < length (gp_adapters g). \<forall>i < length (ad_nodes (gp_adapters g ! j)).
    total_of (gp_adapters g ! j) i = gone (ad_key (gp_adapters g ! j)) i + listed_ran g (ad_key (gp_adapters g ! j)) i)"
proof (induction rule: gpu_run.induct)
  case (found g)
  then show ?case by (simp add: gpu_ok_def processes_ok_def listed_ran_def total_of_def list_all_length)
next
  case (ticked g gone gk wanted at now rows handles engines g')
  then have ok: "gpu_ok g" by blast
  have w: "gw_engines wanted \<or> gw_adapters wanted" "distinct (map r_pid rows)" using ticked.hyps(2) by (simp_all add: steady_def)
  note e = gpu_tick_effect [OF ok w ticked.hyps(3)]
  have "total_of (gp_adapters g' ! j) i = gone (ad_key (gp_adapters g' ! j)) i + left_ran g rows (ad_key (gp_adapters g' ! j)) i +
      listed_ran g' (ad_key (gp_adapters g' ! j)) i"
    if "j < length (gp_adapters g')" "i < length (ad_nodes (gp_adapters g' ! j))" for j i
  proof -
    have j: "j < length (gp_adapters g)" using that(1) e by (simp add: list_all2_conv_all_nth)
    have same: "same_adapter (gp_adapters g ! j) (gp_adapters g' ! j)" using e j by (simp add: list_all2_conv_all_nth)
    have i: "i < length (ad_nodes (gp_adapters g ! j))" using that(2) same_adapter_length [OF same] by simp
    have k: "ad_key (gp_adapters g' ! j) = ad_key (gp_adapters g ! j)" using same by (simp add: same_adapter_def)
    have "total_of (gp_adapters g ! j) i = gone (ad_key (gp_adapters g ! j)) i + listed_ran g (ad_key (gp_adapters g ! j)) i"
      using ticked.IH j i by blast
    then show ?thesis
      using steady_tick_adds [OF ok ticked.hyps(2,3) j i] unfolding k by (simp add: algebra_simps)
  qed
  then show ?case using e by blast
qed

text \<open>
  C30 Tick after tick, as long as every reading of a process that has run on an adapter
  answers, with as many engines as before, none of which has run less or by half its
  counter more, an engine's total is exactly what the processes that are listed have run
  on it, as last read, and what those that left had run: each process counts once, from
  nothing when its pid was used before, however adapters lie in the lists. A reading that
  fails does break it, as \<open>a_failed_read_counts_twice\<close> shows.
\<close>
theorem an_engine_adds_up_its_processes:
  assumes "gpu_run g gone" "ad \<in> set (gp_adapters g)" "i < length (ad_nodes ad)"
  shows "nd_total (ad_nodes ad ! i) = gone (ad_key ad) i +
    (\<Sum>p \<in> hm_keys (gp_processes g). ran_on (used_at g p) (ad_key ad) i)"
  using gpu_run_adds_up [OF assms(1)] assms(2,3) by (auto simp: in_set_conv_nth total_of_def listed_ran_def)

section \<open>A pid used again\<close>

text \<open>One adapter with one engine; a process has run so long on it.\<close>
definition one_engine :: "u64 \<Rightarrow> graphics" where
  "one_engine running = \<lparr>gk_adapters = None, gk_type = (\<lambda>_. None), gk_counts = (\<lambda>_. None),
    gk_engine = (\<lambda>_ _. \<lparr>en_named = False, en_type = 0, en_name = [], en_max_frequency = 0\<rparr>), gk_aperture = (\<lambda>_ _. False),
    gk_description = (\<lambda>_. None), gk_registry_name = (\<lambda>_. None), gk_shared_limit = (\<lambda>_. 0), gk_segment = (\<lambda>_ _. None),
    gk_perf = (\<lambda>_. None), gk_process_segment = (\<lambda>_ _ _. None), gk_process_node = (\<lambda>_ _ _. Some running)\<rparr>"

definition engines_only :: gpu_wanted where
  "engines_only = \<lparr>gw_memory = False, gw_engines = True, gw_adapters = False\<rparr>"

definition one_adapter :: gpu where
  "one_adapter = gpu_new\<lparr>gp_adapters := [\<lparr>ad_luid = (0, 1), ad_key = 1, ad_name = '''',
    ad_nodes = [\<lparr>nd_ordinal = 0, nd_kind = EngineThreeD, nd_name = '''', nd_max_frequency = 0, nd_total = 0\<rparr>],
    ad_segments = [], ad_shared_limit = 0\<rparr>]\<rparr>"

definition pid_four :: "u64 \<Rightarrow> row list" where
  "pid_four n = [row_default\<lparr>r_pid := 4, r_sequence_number := n\<rparr>]"

definition four_open :: open_handles where
  "four_open = handles_default\<lparr>hd_open := [(4, \<lparr>op_sequence_number = 7, op_full = True, op_handle = Some 12, op_listed = 0,
    op_probed = probed_default\<rparr>)]\<rparr>"

definition after_first :: gpu where
  "after_first = snd (gpu_processes (one_engine 100) engines_only 0 0 (pid_four 7) four_open one_adapter)"

definition after_second :: gpu where
  "after_second = snd (gpu_processes (one_engine 5) engines_only 0 0 (pid_four 8) four_open after_first)"

lemma four_rows [simp]: "map r_pid (pid_four n) = [4]" "enumerate 0 (pid_four n) = [(0, row_default\<lparr>r_pid := 4, r_sequence_number := n\<rparr>)]"
  by (simp_all add: pid_four_def)

lemma four_turn: "turn (pid_four n) 0 0 = (0, 0, 4)"
  by (simp add: turn_def pid_four_def div_ceil_def partition_point_def PROBE_ROUND_def)

lemma four_full: "handles_full four_open 4 = Some 12"
  by (simp add: handles_full_def four_open_def handles_default_def)

lemma one_engine_runs:
  "read_adapters (one_engine t) engines_only 12 0 [ad] (used, es) =
    (let (ad, s) = read_adapter (one_engine t) engines_only 12 0 ad (used, es) in ([ad], s))"
  by (simp split: prod.split)

lemma after_first_eq:
  "after_first = one_adapter\<lparr>gp_adapters := [(hd (gp_adapters one_adapter))\<lparr>ad_nodes := [(hd (ad_nodes (hd (gp_adapters one_adapter))))\<lparr>nd_total := 100\<rparr>]\<rparr>],
     gp_processes := [(4, \<lparr>us_sequence_number = 7, us_listed = 1, us_dedicated = 0, us_shared = 0,
       us_on = [\<lparr>on_key = 1, on_nodes = [100]\<rparr>], us_checked = True\<rparr>)], gp_ticks := 1, gp_cursor := 4, gp_last := Some 0\<rparr>"
  unfolding after_first_def gpu_processes_def
  by (simp add: four_turn four_full one_adapter_def gpu_new_def read_row_def used_entry_def gpu_due_def
      read_adapter_def on_position_def engines_only_def read_engines_def adapter_running_def one_engine_def account_def
      ran_since_def Let_def)

lemma four_turn_again: "turn (pid_four n) 4 0 = (0, 0, 4)"
  by (simp add: turn_def pid_four_def div_ceil_def partition_point_def PROBE_ROUND_def)

lemma after_second_eq:
  "after_second = after_first\<lparr>gp_adapters := [(hd (gp_adapters one_adapter))\<lparr>ad_nodes := [(hd (ad_nodes (hd (gp_adapters one_adapter))))\<lparr>nd_total := 105\<rparr>]\<rparr>],
     gp_processes := [(4, \<lparr>us_sequence_number = 8, us_listed = 2, us_dedicated = 0, us_shared = 0,
       us_on = [\<lparr>on_key = 1, on_nodes = [5]\<rparr>], us_checked = True\<rparr>)], gp_ticks := 2\<rparr>"
  unfolding after_second_def gpu_processes_def
  by (simp add: after_first_eq four_turn_again four_full one_adapter_def gpu_new_def read_row_def used_entry_def gpu_due_def
      read_adapter_def on_position_def engines_only_def read_engines_def adapter_running_def one_engine_def account_def
      ran_since_def Let_def)

lemma first_steady: "steady (one_engine 100) engines_only 0 0 (pid_four 7) four_open one_adapter"
  by (simp add: steady_def engines_only_def one_adapter_def gpu_new_def goes_on_def tick_now_def row_now_def held_before_def
      used_entry_def held_nodes_def on_map_def four_full gpu_due_def engines_now_def adapter_running_def one_engine_def Let_def)

lemma second_steady: "steady (one_engine 5) engines_only 0 0 (pid_four 8) four_open after_first"
  by (simp add: after_first_eq steady_def engines_only_def one_adapter_def gpu_new_def goes_on_def tick_now_def row_now_def
      held_before_def used_entry_def held_nodes_def on_map_def four_full gpu_due_def engines_now_def adapter_running_def
      one_engine_def Let_def)

theorem an_engine_adds_up_its_processes_witness:
  "nd_total (ad_nodes (hd (gp_adapters after_second)) ! 0) =
    left_ran one_adapter (pid_four 7) 1 0 + left_ran after_first (pid_four 8) 1 0 +
    (\<Sum>p \<in> hm_keys (gp_processes after_second). ran_on (used_at after_second p) 1 0)"
proof -
  have "gpu_run one_adapter (\<lambda>_ _. 0)" by (rule gpu_run.found) (simp_all add: one_adapter_def gpu_new_def)
  from gpu_run.ticked [OF this first_steady, of _ after_first]
  have "gpu_run after_first (\<lambda>k i. 0 + left_ran one_adapter (pid_four 7) k i)" by (metis after_first_def prod.collapse)
  from gpu_run.ticked [OF this second_steady, of _ after_second]
  have "gpu_run after_second (\<lambda>k i. 0 + left_ran one_adapter (pid_four 7) k i + left_ran after_first (pid_four 8) k i)"
    by (metis after_second_def prod.collapse)
  from an_engine_adds_up_its_processes [OF this, of "hd (gp_adapters after_second)" 0] show ?thesis
    by (simp add: after_second_eq one_adapter_def gpu_new_def)
qed

text \<open>A read that fails once is taken for a process that ran nothing: all it ran is added again.\<close>
lemma a_failed_read_counts_twice:
  assumes "adapter_running gk ad h = None" "adapter_running gk' ad h = Some now" "on_position ad used = Some 0" "us_on used = [on]"
    and "wanted = \<lparr>gw_memory = False, gw_engines = False, gw_adapters = True\<rparr>"
    and "i < length (ad_nodes ad)" "0 < sint (now ! i)"
  shows "let (ad1, used1, es1) = read_adapter gk wanted h index ad (used, es);
      (ad2, used2, es2) = read_adapter gk' wanted h index ad1 (used1, es1)
    in total_of ad2 i = total_of ad i + now ! i"
proof -
  have "ad_nodes ad \<noteq> []" using assms(6) by auto
  then show ?thesis
    using assms adapter_running_length [OF assms(2)]
    by (simp add: read_adapter_def read_engines_def swap_remove_def on_position_def Let_def total_of_def account_nth ran_since_def)
qed

end
