(* ===== verification/Supervisor.thy ===== *)
theory Supervisor
  imports Schedule Router Probes Prober Gpu
begin

text \<open>
  \<^verbatim>\<open>crates/core/src/supervisor.rs\<close>: the core's tick. What a tick meets is a record: the
  instants at which it looks at the clock, what the sessions answer, the changes that
  wait in the channel, the verdicts that came, and what a reading of the machine
  brings. What the worker threads tell (\<^verbatim>\<open>prober.rs\<close>) is what it is as the tick reads
  it, and the GPUs and the machine's counters are functions of what is asked of them.
\<close>

section \<open>Reading\<close>

text \<open>What one reading meets.\<close>
record world =
  w_list :: "string + row list"
  w_now_100ns :: u64
  w_sight :: "row \<Rightarrow> sighted"
  w_windows :: windows_view
  w_at :: instant
  w_hosts :: "bool option worker"
  w_mapped :: "u64 worker"
  w_vm_memory :: "reading worker"
  w_user_objects :: "handle \<Rightarrow> u32"
  w_gdi_objects :: "handle \<Rightarrow> u32"
  w_gpu :: "gpu_wanted \<Rightarrow> row list \<Rightarrow> gpu_read"
  w_gpu_dedicated :: "row \<Rightarrow> u64"
  w_gpu_shared :: "row \<Rightarrow> u64"
  w_machine :: "machine_metric set \<Rightarrow> machine_totals \<Rightarrow> machine_sample"

text \<open>The lists handed to the workers and the images asked for are what it hands on.\<close>
record reader =
  rd_state :: system_state
  rd_rows :: "row list"
  rd_handles :: open_handles
  rd_vm_submitted :: "instant option"
  rd_snapshots :: u64
  rd_session :: "u32 option"
  rd_fresh :: "sample option"
  rd_asked :: "image_request list"
  rd_hosts_listed :: "listed list list"
  rd_mapped_listed :: "listed list list"
  rd_vm_listed :: "listed list list"

definition reader_new :: "u32 option \<Rightarrow> reader" where
  "reader_new session =
    \<lparr>rd_state = system_state_new, rd_rows = [], rd_handles = handles_default, rd_vm_submitted = None,
     rd_snapshots = 0, rd_session = session, rd_fresh = None, rd_asked = [], rd_hosts_listed = [],
     rd_mapped_listed = [], rd_vm_listed = []\<rparr>"

text \<open>The state told of one row.\<close>
definition row_state :: "open_handles \<Rightarrow> bool option worker \<Rightarrow> row \<Rightarrow> process_state" where
  "row_state h hosts row =
    (let probed = handles_probed h (r_pid row);
         base_priority = from_base (r_base_priority row)
     in \<lparr>ps_pid = r_pid row, ps_sequence_number = r_sequence_number row,
         ps_suspended = Some (r_suspended row),
         ps_efficiency_mode =
           (case (pb_power_throttling probed, base_priority) of
              (Some eco, Some base) \<Rightarrow> Some (eco \<and> base = PrioIdle) | _ \<Rightarrow> None),
         ps_base_priority = base_priority, ps_power_throttling = pb_power_throttling probed,
         ps_job_object_id = r_job_object_id row, ps_io_priority = pb_io_priority probed,
         ps_vm_host = vm_hosts_get hosts row\<rparr>)"

definition observe_rows :: "system_state \<Rightarrow> open_handles \<Rightarrow> bool option worker \<Rightarrow> row list \<Rightarrow> system_state" where
  "observe_rows s h hosts rows = fold (\<lambda>row. system_observe (row_state h hosts row)) rows s"

text \<open>\<^verbatim>\<open>Beside::gui\<close>\<close>
definition gui :: "reader \<Rightarrow> (handle \<Rightarrow> u32) \<Rightarrow> row \<Rightarrow> u32" where
  "gui r counted_by row =
    (case handles_get (rd_handles r) (r_pid row) of
       Some h \<Rightarrow> if rd_session r = Some (r_session_id row) then counted_by h else NO_DATA_U32
     | None \<Rightarrow> NO_DATA_U32)"

definition beside :: "world \<Rightarrow> reader \<Rightarrow> extras" where
  "beside w r =
    \<lparr>x_user_objects = gui r (w_user_objects w),
     x_gdi_objects = gui r (w_gdi_objects w),
     x_net_rx_bytes = (\<lambda>row. nst_recv_bytes (system_network (rd_state r) (r_pid row) (r_sequence_number row))),
     x_net_tx_bytes = (\<lambda>row. nst_sent_bytes (system_network (rd_state r) (r_pid row) (r_sequence_number row))),
     x_gpu_dedicated = w_gpu_dedicated w,
     x_gpu_shared = w_gpu_shared w,
     x_exclusive_mapped = mapped_get (w_mapped w),
     x_vm_working_set = (\<lambda>row. vm_memory_get (w_vm_memory w) (w_at w) row (vm_hosts_get (w_hosts w) row = Some True))\<rparr>"

text \<open>What a reading of the processes changes: the part of \<^verbatim>\<open>sample\<close> under \<^verbatim>\<open>if reads_processes\<close>.\<close>
definition read_processes :: "world \<Rightarrow> row list \<Rightarrow> reader \<Rightarrow> reader" where
  "read_processes w rows r =
    (let (state, asked) = system_reconcile rows (w_sight w) (rd_state r);
         handles = handles_sync (w_windows w) rows (w_at w) (rd_handles r)
     in r\<lparr>rd_rows := rows, rd_state := observe_rows state handles (w_hosts w) rows, rd_handles := handles,
          rd_asked := rd_asked r @ asked,
          rd_hosts_listed := rd_hosts_listed r @ [vm_hosts_read rows]\<rparr>)"

text \<open>The lists handed to the workers a spec wants answers of.\<close>
definition hand_lists :: "world \<Rightarrow> metric_spec \<Rightarrow> reader \<Rightarrow> reader" where
  "hand_lists w spec r =
    (let r = (if ExclusiveMapped \<in> ms_processes spec
              then r\<lparr>rd_mapped_listed := rd_mapped_listed r @ [prober_read (rd_rows r)]\<rparr> else r)
     in if VmWorkingSet \<in> ms_processes spec
        then (case vm_memory_read (rd_rows r) (w_hosts w) (w_at w) (rd_vm_submitted r) of
                (submitted, list) \<Rightarrow>
                  r\<lparr>rd_vm_submitted := submitted,
                    rd_vm_listed := rd_vm_listed r @ (case list of Some l \<Rightarrow> [l] | None \<Rightarrow> [])\<rparr>)
        else r)"

definition gpu_wanted_of :: "metric_spec \<Rightarrow> gpu_wanted" where
  "gpu_wanted_of spec =
    \<lparr>gw_memory = (GpuDedicated \<in> ms_processes spec \<or> GpuShared \<in> ms_processes spec),
     gw_engines = (GpuEngines \<in> ms_processes spec),
     gw_adapters = (M_Gpu \<in> ms_machine spec)\<rparr>"

text \<open>The part of \<^verbatim>\<open>sample\<close> that builds the sample.\<close>
definition build_sample :: "world \<Rightarrow> metric_spec \<Rightarrow> bool \<Rightarrow> reader \<Rightarrow> reader" where
  "build_sample w spec reads r =
    (let rows = rd_rows r;
         wanted = gpu_wanted_of spec;
         gpu = (if gpu_wanted_any wanted then w_gpu w wanted rows else gpu_read_default);
         columns = columns_build (ms_processes spec) rows (beside w r);
         machine = (if ms_machine spec = {} then machine_sample_default
                    else w_machine w (ms_machine spec) (sy_machine_totals (rd_state r)));
         machine = machine\<lparr>m_gpus := gr_adapters gpu\<rparr>;
         sample =
           \<lparr>s_snapshot = rd_snapshots r + 1, s_sampled_at = w_now_100ns w, s_period = period spec, s_wanted = spec,
            s_passport_etag = 0,
            s_pids = (if reads then map r_pid rows else []),
            s_sequence_numbers = (if reads then map r_sequence_number rows else []),
            s_columns = columns, s_gpu_engines = gr_engines gpu, s_machine = machine\<rparr>
     in r\<lparr>rd_snapshots := rd_snapshots r + 1, rd_fresh := Some sample\<rparr>)"

text \<open>\<^verbatim>\<open>Reader::sample\<close>: the error of the reading if it failed. A reading empties the rows first.\<close>
definition reader_sample :: "world \<Rightarrow> metric_spec \<Rightarrow> bool \<Rightarrow> reader \<Rightarrow> reader \<times> string option" where
  "reader_sample w spec reads r =
    (if reads then
       (case w_list w of
          Inl error \<Rightarrow> (r\<lparr>rd_rows := []\<rparr>, Some error)
        | Inr rows \<Rightarrow> (build_sample w spec reads (hand_lists w spec (read_processes w rows r)), None))
     else (build_sample w spec reads r, None))"

text \<open>\<^verbatim>\<open>Reader::await_verdicts\<close>: what \<^verbatim>\<open>images.next\<close> gives, None when the deadline has come.\<close>
fun await_verdicts :: "image option list \<Rightarrow> reader \<Rightarrow> reader" where
  "await_verdicts next_images r =
    (if system_pending (rd_state r) = [] then r
     else case next_images of
            Some img # later \<Rightarrow> await_verdicts later (r\<lparr>rd_state := system_judge img (rd_state r)\<rparr>)
          | _ \<Rightarrow> r)"

section \<open>The tick\<close>

definition FIRST_VERDICTS :: duration where
  "FIRST_VERDICTS = secs 60"

definition SESSIONS_CHECKED :: duration where
  "SESSIONS_CHECKED = secs 30"

definition SLOWEST_FLUSH_MS :: nat where
  "SLOWEST_FLUSH_MS = 1000"

definition FLUSH_TIMER_MS :: nat where
  "FLUSH_TIMER_MS = 50"

definition HEALTH_TOLD_EVERY :: duration where
  "HEALTH_TOLD_EVERY = secs 1"

text \<open>A clamped number of milliseconds: it fits \<^verbatim>\<open>u32\<close>, being half a period at most.\<close>
definition flush_timer_for :: "metric_spec list \<Rightarrow> nat" where
  "flush_timer_for specs =
    (let ms = (case map period specs of
                 [] \<Rightarrow> SLOWEST_FLUSH_MS
               | p # ps \<Rightarrow> (foldl min p ps div 2) div 1000000)
     in if ms < FLUSH_TIMER_MS then FLUSH_TIMER_MS else if ms > SLOWEST_FLUSH_MS then SLOWEST_FLUSH_MS else ms)"

record supervisor =
  sv_router :: bool
  sv_sessions_checked :: instant
  sv_reader :: reader
  sv_schedule :: schedule
  sv_flush_timer :: nat
  sv_health_told :: instant
  sv_snapshot_error :: "string option"
  sv_temperatures :: bool

text \<open>What one tick meets; \<^verbatim>\<open>tw_start\<close> is whether the sessions start.\<close>
record tick_world =
  tw_sessions_at :: instant
  tw_healthy :: bool
  tw_start :: bool
  tw_specs :: "metric_spec list"
  tw_health_at :: instant
  tw_health :: "session_health list"
  tw_changes :: "state_change list"
  tw_judged :: "image list"
  tw_take_at :: instant
  tw_world :: world

text \<open>What a tick asks of the sessions and tells the providers.\<close>
record tick_calls =
  tc_started :: bool
  tc_flush_timer :: "nat option"
  tc_flushed :: bool
  tc_health :: "session_health list option"

definition no_calls :: tick_calls where
  "no_calls = \<lparr>tc_started = False, tc_flush_timer = None, tc_flushed = False, tc_health = None\<rparr>"

definition keep_sessions :: "tick_world \<Rightarrow> supervisor \<times> tick_calls \<Rightarrow> supervisor \<times> tick_calls" where
  "keep_sessions w = (\<lambda>(s, calls).
    if tw_sessions_at w - sv_sessions_checked s < SESSIONS_CHECKED then (s, calls)
    else (let s = s\<lparr>sv_sessions_checked := tw_sessions_at w\<rparr>
          in if sv_router s \<and> tw_healthy w then (s, calls)
             else (let s = s\<lparr>sv_router := False\<rparr>
                   in if tw_start w
                      then (s\<lparr>sv_router := True, sv_flush_timer := FLUSH_TIMER_MS\<rparr>, calls\<lparr>tc_started := True\<rparr>)
                      else (s, calls))))"

definition temperature_demand :: "metric_spec list \<Rightarrow> bool" where
  "temperature_demand specs = list_ex (\<lambda>spec. M_Temperatures \<in> ms_machine spec) specs"

text \<open>What the tick has to do with the sessions: their flush timer, a flush, their health.\<close>
definition tend_sessions :: "tick_world \<Rightarrow> supervisor \<times> tick_calls \<Rightarrow> supervisor \<times> tick_calls" where
  "tend_sessions w = (\<lambda>(s, calls).
    if \<not> sv_router s then (s, calls)
    else (let flush_timer = flush_timer_for (tw_specs w);
              (s, calls) =
                (if flush_timer \<noteq> sv_flush_timer s
                 then (s\<lparr>sv_flush_timer := flush_timer\<rparr>, calls\<lparr>tc_flush_timer := Some flush_timer\<rparr>)
                 else (s, calls));
              calls = calls\<lparr>tc_flushed := True\<rparr>
          in if tw_health_at w - sv_health_told s \<ge> HEALTH_TOLD_EVERY
             then (s\<lparr>sv_health_told := tw_health_at w\<rparr>, calls\<lparr>tc_health := Some (tw_health w)\<rparr>)
             else (s, calls)))"

text \<open>What the providers sent and the verdicts that came.\<close>
definition apply_news :: "tick_world \<Rightarrow> supervisor \<Rightarrow> supervisor" where
  "apply_news w s =
    (let state = fold system_apply (tw_changes w) (rd_state (sv_reader s));
         state = fold system_judge (tw_judged w) state
     in s\<lparr>sv_reader := (sv_reader s)\<lparr>rd_state := state\<rparr>\<rparr>)"

text \<open>Unless a sample is still to be handed on, what is due is sampled.\<close>
definition sample_due :: "tick_world \<Rightarrow> supervisor \<Rightarrow> supervisor" where
  "sample_due w s =
    (if rd_fresh (sv_reader s) \<noteq> None then s
     else (case schedule_take (sv_schedule s) (tw_specs w) (tw_take_at w) of
             (schedule, None) \<Rightarrow> s\<lparr>sv_schedule := schedule\<rparr>
           | (schedule, Some due) \<Rightarrow>
               (case reader_sample (tw_world w) (d_spec due) (d_reads_processes due) (sv_reader s) of
                  (reader, error) \<Rightarrow> s\<lparr>sv_schedule := schedule, sv_reader := reader, sv_snapshot_error := error\<rparr>)))"

definition hand_on :: "diff \<Rightarrow> supervisor \<Rightarrow> supervisor \<times> diff" where
  "hand_on diff s =
    (let (diff, state) = system_take diff (rd_state (sv_reader s))
     in (s\<lparr>sv_reader := (sv_reader s)\<lparr>rd_state := state, rd_fresh := None\<rparr>\<rparr>,
         diff\<lparr>df_sample := rd_fresh (sv_reader s)\<rparr>))"

text \<open>\<^verbatim>\<open>Supervisor::tick\<close>\<close>
definition tick :: "tick_world \<Rightarrow> diff \<Rightarrow> supervisor \<Rightarrow> supervisor \<times> diff \<times> tick_calls" where
  "tick w diff s =
    (let (s, calls) = keep_sessions w (s, no_calls);
         s = s\<lparr>sv_temperatures := temperature_demand (tw_specs w)\<rparr>;
         (s, calls) = tend_sessions w (s, calls);
         s = sample_due w (apply_news w s);
         (s, diff) = hand_on diff s
     in (s, diff, calls))"

text \<open>
  \<^verbatim>\<open>Supervisor::start\<close>, once its providers run: the first sample and the wait for its
  images' verdicts. An error ends the start.
\<close>
definition supervisor_start ::
    "u32 option \<Rightarrow> bool \<Rightarrow> metric_spec list \<Rightarrow> instant \<Rightarrow> world \<Rightarrow> image option list \<Rightarrow> string + supervisor" where
  "supervisor_start session router specs sampled w next_images =
    (let (schedule, due) = schedule_take schedule_new specs sampled;
         first = (case due of Some d \<Rightarrow> d_spec d | None \<Rightarrow> spec_default)
     in case reader_sample w first True (reader_new session) of
          (_, Some error) \<Rightarrow> Inl error
        | (r, None) \<Rightarrow>
            Inr \<lparr>sv_router = router, sv_sessions_checked = sampled, sv_reader = await_verdicts next_images r,
                 sv_schedule = schedule, sv_flush_timer = FLUSH_TIMER_MS, sv_health_told = sampled,
                 sv_snapshot_error = None, sv_temperatures = temperature_demand specs\<rparr>)"

text \<open>\<^verbatim>\<open>Supervisor::health\<close>\<close>
definition supervisor_health :: "u64 \<Rightarrow> session_health list \<Rightarrow> instant \<Rightarrow> supervisor \<Rightarrow> health" where
  "supervisor_health dropped sessions now s =
    \<lparr>h_dropped_by_sink = dropped, h_sessions = (if sv_router s then sessions else []),
     h_snapshot_error = sv_snapshot_error s, h_taken_at = now\<rparr>"

text \<open>\<^verbatim>\<open>Supervisor::due\<close>\<close>
definition supervisor_due :: "instant \<Rightarrow> supervisor \<Rightarrow> instant" where
  "supervisor_due now s =
    (case schedule_due (sv_schedule s) of Some at \<Rightarrow> at | None \<Rightarrow> now + MAX_INTERVAL)"

section \<open>What a reading does to the table\<close>

abbreviation table_in :: "reader \<Rightarrow> process_table" where
  "table_in r \<equiv> sy_processes (rd_state r)"

abbreviation table_of :: "supervisor \<Rightarrow> process_table" where
  "table_of s \<equiv> table_in (sv_reader s)"

text \<open>The listed processes as pid and sequence number.\<close>
definition listing :: "process_table \<Rightarrow> u32 \<Rightarrow> u64 option" where
  "listing t pid = map_option pe_sequence_number (table_get t pid)"

text \<open>A sample of a reading of the processes has the listed ones for rows; one of the machine alone has none.\<close>
definition sample_fits :: "bool \<Rightarrow> sample \<Rightarrow> process_table \<Rightarrow> bool" where
  "sample_fits reads x t \<longleftrightarrow> length (s_sequence_numbers x) = length (s_pids x) \<and>
    (if reads then distinct (s_pids x) \<and> listing t = map_of (zip (s_pids x) (s_sequence_numbers x))
     else s_pids x = [])"

lemma listing_judge: "listing (judge img t) = listing t"
proof -
  have "hm_get (t_processes (judge img t)) pid = map_option (\<lambda>e. if \<exists>r. hm_get (t_images t) (im_path img) = Some r then judge_entry img e else e) (hm_get (t_processes t) pid)" for pid
    by (cases "hm_get (t_images t) (im_path img)") (simp_all add: judge_def hm option.map_ident)
  then show ?thesis by (intro ext) (auto simp: listing_def table_get_def option.map_comp intro!: option.map_cong)
qed

lemma listing_observe: "listing (observe st t) = listing t"
  by (rule ext) (simp add: listing_def table_get_def observe_def hm split: option.split)

lemma system_apply_processes [simp]: "sy_processes (system_apply c s) = sy_processes s"
  by (cases c) simp_all

lemma fold_apply_processes [simp]: "sy_processes (fold system_apply cs s) = sy_processes s"
  by (induction cs arbitrary: s) simp_all

lemma observe_rows_table:
  "sy_processes (observe_rows s h hosts rows) = fold (\<lambda>row. observe (row_state h hosts row)) rows (sy_processes s)"
  by (induction rows arbitrary: s) (simp_all add: observe_rows_def system_observe_def)

lemma fold_observe_reach:
  "table_reach t ps ss \<Longrightarrow> table_reach (fold (\<lambda>row. observe (st row)) rows t) ps ss"
  by (induction rows arbitrary: t) (auto intro: reach_observe)

lemma listing_fold_observe: "listing (fold (\<lambda>row. observe (st row)) rows t) = listing t"
  by (induction rows arbitrary: t) (simp_all add: listing_observe)

lemma fold_judge_table:
  "sy_processes (fold system_judge imgs s) = fold judge imgs (sy_processes s)"
  by (induction imgs arbitrary: s) (simp_all add: system_judge_def)

lemma fold_judge_reach: "table_reach t ps ss \<Longrightarrow> table_reach (fold judge imgs t) ps ss"
  by (induction imgs arbitrary: t) (auto intro: reach_judge)

lemma listing_fold_judge: "listing (fold judge imgs t) = listing t"
  by (induction imgs arbitrary: t) (simp_all add: listing_judge)

lemma read_processes_fields [simp]:
  "rd_rows (read_processes w rows r) = rows"
  "rd_snapshots (read_processes w rows r) = rd_snapshots r"
  by (simp_all add: read_processes_def Let_def split: prod.split)

lemma read_processes_table:
  "table_in (read_processes w rows r) =
    fold (\<lambda>row. observe (row_state (handles_sync (w_windows w) rows (w_at w) (rd_handles r)) (w_hosts w) row)) rows
      (fst (reconcile rows (w_sight w) (table_in r)))"
  by (simp add: read_processes_def system_reconcile_def observe_rows_table Let_def split: prod.split)

lemma hand_lists_fields [simp]:
  "rd_state (hand_lists w spec r) = rd_state r" "rd_rows (hand_lists w spec r) = rd_rows r"
  "rd_snapshots (hand_lists w spec r) = rd_snapshots r"
  by (simp_all add: hand_lists_def Let_def split: prod.split)

lemma build_sample_fields [simp]:
  "rd_state (build_sample w spec reads r) = rd_state r"
  by (simp add: build_sample_def Let_def)

text \<open>What the GPUs and the machine answer to what a spec asks of them.\<close>
definition gpu_of :: "world \<Rightarrow> metric_spec \<Rightarrow> row list \<Rightarrow> gpu_read" where
  "gpu_of w spec rows =
    (if gpu_wanted_any (gpu_wanted_of spec) then w_gpu w (gpu_wanted_of spec) rows else gpu_read_default)"

definition machine_of :: "world \<Rightarrow> metric_spec \<Rightarrow> system_state \<Rightarrow> row list \<Rightarrow> machine_sample" where
  "machine_of w spec state rows =
    (if ms_machine spec = {} then machine_sample_default
     else w_machine w (ms_machine spec) (sy_machine_totals state))\<lparr>m_gpus := gr_adapters (gpu_of w spec rows)\<rparr>"

text \<open>The sample a reading leaves.\<close>
lemma build_sample_fresh:
  "\<exists>x. rd_fresh (build_sample w spec reads r) = Some x \<and> s_wanted x = spec \<and> s_period x = period spec \<and>
    s_snapshot x = rd_snapshots r + 1 \<and>
    s_pids x = (if reads then map r_pid (rd_rows r) else []) \<and>
    s_sequence_numbers x = (if reads then map r_sequence_number (rd_rows r) else []) \<and>
    s_columns x = columns_build (ms_processes spec) (rd_rows r) (beside w r) \<and>
    s_gpu_engines x = gr_engines (gpu_of w spec (rd_rows r)) \<and>
    s_machine x = machine_of w spec (rd_state r) (rd_rows r)"
  by (simp add: build_sample_def gpu_of_def machine_of_def Let_def)

lemma map_of_rows:
  "distinct (map r_pid rows) \<Longrightarrow> row \<in> set rows \<Longrightarrow>
    map_of (zip (map r_pid rows) (map r_sequence_number rows)) (r_pid row) = Some (r_sequence_number row)"
proof (induction rows)
  case (Cons r rows)
  show ?case
  proof (cases "row = r")
    case False
    then have "row \<in> set rows" using Cons.prems(2) by simp
    moreover from this have "r_pid row \<noteq> r_pid r" using Cons.prems(1) by (metis distinct.simps(2) image_eqI list.simps(9) set_map)
    ultimately show ?thesis using Cons by simp
  qed simp
qed simp

lemma map_of_rows_None: "pid \<notin> r_pid ` set rows \<Longrightarrow> map_of (zip (map r_pid rows) (map r_sequence_number rows)) pid = None"
  by (induction rows) auto

text \<open>After a reconcile the table lists exactly the rows.\<close>
lemma listing_reconcile:
  assumes "table_ok t" "rows_fit t rows"
  shows "listing (fst (reconcile rows sight t)) = map_of (zip (map r_pid rows) (map r_sequence_number rows))"
proof
  fix pid
  note e = reconcile_effect [OF assms, of sight]
  show "listing (fst (reconcile rows sight t)) pid = map_of (zip (map r_pid rows) (map r_sequence_number rows)) pid"
  proof (cases "pid \<in> r_pid ` set rows")
    case True
    then obtain row where row: "row \<in> set rows" "pid = r_pid row" by blast
    then have "listing (fst (reconcile rows sight t)) pid = Some (r_sequence_number row)"
      using e row_entry_fields by (fastforce simp: listing_def)
    then show ?thesis using map_of_rows [OF _ row(1)] assms(2) row(2) by (simp add: rows_fit_def)
  next
    case False
    then have "table_get (fst (reconcile rows sight t)) pid = None"
      using e hm_keys_get [of pid "t_processes (fst (reconcile rows sight t))"] by (simp add: table_get_def)
    then show ?thesis by (simp only: listing_def map_of_rows_None [OF False] option.map)
  qed
qed

text \<open>What a reading is asked to bring: rows that fit the table.\<close>
definition world_fits :: "world \<Rightarrow> reader \<Rightarrow> bool" where
  "world_fits w r \<longleftrightarrow> (case w_list w of Inl _ \<Rightarrow> True | Inr rows \<Rightarrow> rows_fit (table_in r) rows)"

lemma reader_sample_keeps:
  assumes reach: "table_reach (table_in r) ps ss" and fits: "world_fits w r"
    and s: "reader_sample w spec reads r = (r', error)"
  shows "table_reach (table_in r') ps ss \<and>
    (case error of
       Some e \<Rightarrow> reads \<and> w_list w = Inl e \<and> rd_state r' = rd_state r \<and> rd_fresh r' = rd_fresh r
     | None \<Rightarrow> \<exists>x. rd_fresh r' = Some x \<and> sample_fits reads x (table_in r') \<and> s_wanted x = spec \<and> s_period x = period spec)"
proof (cases "reads \<and> (\<exists>rows. w_list w = Inr rows)")
  case True
  then obtain rows where rows: "w_list w = Inr rows" and reads: reads by blast
  let ?read = "hand_lists w spec (read_processes w rows r)"
  have r': "r' = build_sample w spec reads ?read" "error = None"
    using s rows reads by (simp_all add: reader_sample_def)
  have fit: "rows_fit (table_in r) rows" using fits rows by (simp add: world_fits_def)
  have t: "table_in r' = table_in (read_processes w rows r)" by (simp add: r')
  have "listing (table_in r') = map_of (zip (map r_pid rows) (map r_sequence_number rows))"
    unfolding t read_processes_table listing_fold_observe
    using listing_reconcile [OF _ fit] table_reach_ok [OF reach] by blast
  moreover have "table_reach (table_in r') ps ss"
    unfolding t read_processes_table by (intro fold_observe_reach reach_reconcile reach fit)
  ultimately show ?thesis
    using build_sample_fresh [of w spec reads ?read] reads fit by (auto simp: r' sample_fits_def rows_fit_def)
next
  case False
  then show ?thesis
    using s reach build_sample_fresh [of w spec reads r]
    by (auto simp: reader_sample_def sample_fits_def split: sum.splits if_splits)
qed

lemma await_verdicts_keeps:
  "table_reach (table_in r) ps ss \<Longrightarrow>
    table_reach (table_in (await_verdicts imgs r)) ps ss \<and> listing (table_in (await_verdicts imgs r)) = listing (table_in r) \<and>
    rd_fresh (await_verdicts imgs r) = rd_fresh r"
proof (induction imgs arbitrary: r)
  case (Cons img imgs)
  show ?case
  proof (cases "system_pending (rd_state r) = [] \<or> img = None")
    case True
    then show ?thesis using Cons.prems by auto
  next
    case False
    then obtain i where i: "img = Some i" by blast
    let ?r = "r\<lparr>rd_state := system_judge i (rd_state r)\<rparr>"
    have "table_reach (table_in ?r) ps ss" using reach_judge [OF Cons.prems] by (simp add: system_judge_def)
    from Cons.IH [OF this] show ?thesis using False i by (simp add: system_judge_def listing_judge)
  qed
qed simp

section \<open>The supervisor as it runs\<close>

text \<open>The table as the tick finds it, once the news are applied.\<close>
definition tick_fits :: "tick_world \<Rightarrow> supervisor \<Rightarrow> bool" where
  "tick_fits w s \<longleftrightarrow> world_fits (tw_world w) (sv_reader (apply_news w s))"

text \<open>A core as it starts and ticks, with what whoever applied every diff holds.\<close>
inductive core_reach :: "supervisor \<Rightarrow> (u32 \<rightharpoonup> process) \<Rightarrow> (u32 \<rightharpoonup> process_state) \<Rightarrow> bool" where
  core_starts: "supervisor_start session router specs sampled w imgs = Inr s \<Longrightarrow> world_fits w (reader_new session) \<Longrightarrow>
    core_reach s Map.empty Map.empty"
| core_ticks: "core_reach s ps ss \<Longrightarrow> tick_fits w s \<Longrightarrow> tick w diff_default s = (s', d, calls) \<Longrightarrow>
    core_reach s' (apply_passports ps d) (apply_states ss d)"

text \<open>The sample that waits is of a reading of the processes or, where it says so, of the machine alone.\<close>
definition core_ok :: "bool \<Rightarrow> supervisor \<Rightarrow> (u32 \<rightharpoonup> process) \<Rightarrow> (u32 \<rightharpoonup> process_state) \<Rightarrow> bool" where
  "core_ok reads s ps ss \<longleftrightarrow> table_reach (table_of s) ps ss \<and> schedule_ok (sv_schedule s) \<and>
    (\<forall>x. rd_fresh (sv_reader s) = Some x \<longrightarrow> sample_fits reads x (table_of s))"

text \<open>What a tick takes from the schedule, and whether the sample it hands on is of the processes: the
  first sample, which still waits, is.\<close>
definition tick_due :: "tick_world \<Rightarrow> supervisor \<Rightarrow> due_spec option" where
  "tick_due w s = snd (schedule_take (sv_schedule s) (tw_specs w) (tw_take_at w))"

definition tick_reads :: "tick_world \<Rightarrow> supervisor \<Rightarrow> bool" where
  "tick_reads w s \<longleftrightarrow> rd_fresh (sv_reader s) \<noteq> None \<or>
    (case tick_due w s of Some due \<Rightarrow> d_reads_processes due | None \<Rightarrow> False)"

lemma keep_sessions_keeps:
  "keep_sessions w (s, calls) = (s', calls') \<Longrightarrow> sv_reader s' = sv_reader s \<and> sv_schedule s' = sv_schedule s \<and>
    sv_snapshot_error s' = sv_snapshot_error s"
  by (auto simp: keep_sessions_def Let_def split: if_splits)

lemma tend_sessions_keeps:
  "tend_sessions w (s, calls) = (s', calls') \<Longrightarrow> sv_reader s' = sv_reader s \<and> sv_schedule s' = sv_schedule s \<and>
    sv_snapshot_error s' = sv_snapshot_error s"
  by (auto simp: tend_sessions_def Let_def split: if_splits)

text \<open>The tick without what it does with the sessions.\<close>
lemma tick_parts:
  assumes "tick w diff s = (s', d, calls)"
  obtains s1 where "sv_reader s1 = sv_reader s" "sv_schedule s1 = sv_schedule s" "sv_snapshot_error s1 = sv_snapshot_error s"
    "(s', d) = hand_on diff (sample_due w (apply_news w s1))" "apply_news w s1 = s1\<lparr>sv_reader := sv_reader (apply_news w s)\<rparr>"
proof -
  obtain s0 c0 where k: "keep_sessions w (s, no_calls) = (s0, c0)" by force
  obtain s1 c1 where t: "tend_sessions w (s0\<lparr>sv_temperatures := temperature_demand (tw_specs w)\<rparr>, c0) = (s1, c1)" by force
  have "sv_reader s1 = sv_reader s" "sv_schedule s1 = sv_schedule s" "sv_snapshot_error s1 = sv_snapshot_error s"
    using keep_sessions_keeps [OF k] tend_sessions_keeps [OF t] by simp_all
  moreover have "(s', d) = hand_on diff (sample_due w (apply_news w s1))"
    using assms by (simp add: tick_def k t Let_def split: prod.splits)
  moreover have "apply_news w s1 = s1\<lparr>sv_reader := sv_reader (apply_news w s)\<rparr>"
    using calculation(1) by (simp add: apply_news_def Let_def)
  ultimately show ?thesis by (rule that)
qed

lemma apply_news_table:
  "table_of (apply_news w s) = fold judge (tw_judged w) (table_of s)"
  "rd_fresh (sv_reader (apply_news w s)) = rd_fresh (sv_reader s)"
  by (simp_all add: apply_news_def fold_judge_table Let_def)

lemma news_ok:
  assumes "core_ok b s ps ss" "sv_reader s1 = sv_reader s" "sv_schedule s1 = sv_schedule s"
  shows "core_ok b (apply_news w s1) ps ss \<and> listing (table_of (apply_news w s1)) = listing (table_of s) \<and>
    tick_due w (apply_news w s1) = tick_due w s \<and> tick_reads w (apply_news w s1) = tick_reads w s"
  using assms fold_judge_reach [of "table_of s" ps ss "tw_judged w"]
  by (simp add: core_ok_def apply_news_table listing_fold_judge sample_fits_def tick_reads_def tick_due_def)
    (simp add: apply_news_def Let_def)

lemma sample_due_keeps:
  assumes ok: "core_ok True s ps ss" and fits: "world_fits (tw_world w) (sv_reader s)"
  shows "core_ok (tick_reads w s) (sample_due w s) ps ss \<and>
    (rd_fresh (sv_reader (sample_due w s)) = None \<longleftrightarrow> rd_fresh (sv_reader s) = None \<and>
      (case tick_due w s of Some due \<Rightarrow> d_reads_processes due \<and> (\<exists>e. w_list (tw_world w) = Inl e) | None \<Rightarrow> True))"
proof (cases "rd_fresh (sv_reader s)")
  case None
  obtain schedule due where sch: "schedule_take (sv_schedule s) (tw_specs w) (tw_take_at w) = (schedule, due)" by force
  have schedule: "schedule_ok schedule"
    using schedule_take_ok [of "sv_schedule s" "tw_specs w" "tw_take_at w"] ok by (simp add: core_ok_def sch)
  show ?thesis
  proof (cases due)
    case None
    then show ?thesis using ok schedule \<open>rd_fresh (sv_reader s) = None\<close>
      by (simp add: sample_due_def core_ok_def sch tick_due_def)
  next
    case (Some d)
    obtain r error where r: "reader_sample (tw_world w) (d_spec d) (d_reads_processes d) (sv_reader s) = (r, error)" by force
    have "table_reach (table_of s) ps ss" using ok by (simp add: core_ok_def)
    note kept = reader_sample_keeps [OF this fits r]
    have failed: "error \<noteq> None \<longleftrightarrow> d_reads_processes d \<and> (\<exists>e. w_list (tw_world w) = Inl e)"
      using r by (auto simp: reader_sample_def split: if_splits sum.splits)
    have due: "sample_due w s = s\<lparr>sv_schedule := schedule, sv_reader := r, sv_snapshot_error := error\<rparr>"
        "tick_due w s = Some d" "tick_reads w s = d_reads_processes d"
      using None by (simp_all add: sample_due_def tick_due_def tick_reads_def sch Some r)
    show ?thesis
    proof (cases error)
      case None
      then show ?thesis using kept failed schedule by (auto simp: due core_ok_def)
    next
      case (Some e)
      then show ?thesis using kept failed schedule \<open>rd_fresh (sv_reader s) = None\<close> by (auto simp: due core_ok_def)
    qed
  qed
next
  case (Some x)
  then show ?thesis using ok by (simp add: sample_due_def tick_reads_def)
qed

lemma hand_on_keeps:
  assumes ok: "core_ok b s ps ss" and h: "hand_on diff_default s = (s', d)"
  shows "core_ok True s' (apply_passports ps d) (apply_states ss d) \<and>
    apply_passports ps d = map_option passport \<circ> table_get (table_of s') \<and>
    apply_states ss d = map_option pe_state \<circ> table_get (table_of s') \<and>
    df_sample d = rd_fresh (sv_reader s) \<and> rd_fresh (sv_reader s') = None \<and>
    listing (table_of s') = listing (table_of s) \<and> sv_snapshot_error s' = sv_snapshot_error s"
proof -
  obtain d0 t where t: "table_take diff_default (table_of s) = (d0, t)" by force
  have s': "s' = s\<lparr>sv_reader := (sv_reader s)\<lparr>rd_state := (rd_state (sv_reader s))\<lparr>sy_processes := t\<rparr>, rd_fresh := None\<rparr>\<rparr>"
    and d: "d = d0\<lparr>df_sample := rd_fresh (sv_reader s)\<rparr>"
    using h by (simp_all add: hand_on_def system_take_def t)
  have reach: "table_reach (table_of s) ps ss" using ok by (simp add: core_ok_def)
  have same: "table_get t = table_get (table_of s)" using t by (auto simp: table_take_def table_get_def)
  then have listed: "listing t = listing (table_of s)" by (intro ext) (simp add: listing_def)
  have maps: "apply_passports ps d = apply_passports ps d0" "apply_states ss d = apply_states ss d0"
    by (simp_all add: d apply_passports_def apply_states_def)
  have "synced ps ss (table_of s)" "table_ok (table_of s)" using table_reach_ok [OF reach] by simp_all
  note drains = take_drains [OF this t]
  show ?thesis
    using reach_take [OF reach t] drains(1,2) ok listed
    by (simp add: maps s' same core_ok_def) (simp add: d)
qed

lemma core_reach_ok: "core_reach s ps ss \<Longrightarrow> core_ok True s ps ss"
proof (induction rule: core_reach.induct)
  case (core_starts session router specs sampled w imgs s)
  obtain schedule due where sch: "schedule_take schedule_new specs sampled = (schedule, due)" by force
  let ?spec = "case due of Some d \<Rightarrow> d_spec d | None \<Rightarrow> spec_default"
  obtain r where r: "reader_sample w ?spec True (reader_new session) = (r, None)"
    and s: "sv_reader s = await_verdicts imgs r" "sv_schedule s = schedule"
    using core_starts(1) by (auto simp: supervisor_start_def sch split: prod.splits option.splits)
  have new: "table_reach (table_in (reader_new session)) Map.empty Map.empty"
    by (simp add: reader_new_def system_state_new_def reach_new)
  have "schedule_ok (fst (schedule_take schedule_new specs sampled))"
    by (rule schedule_take_ok) (simp add: schedule_new_def schedule_ok_def)
  then have "schedule_ok schedule" by (simp add: sch)
  moreover note first = reader_sample_keeps [OF new core_starts(2) r]
  moreover note await_verdicts_keeps [OF conjunct1 [OF first], of imgs]
  ultimately show ?case by (auto simp: core_ok_def s sample_fits_def)
next
  case (core_ticks s ps ss w s' d calls)
  obtain s1 where s1: "sv_reader s1 = sv_reader s" "sv_schedule s1 = sv_schedule s"
      "(s', d) = hand_on diff_default (sample_due w (apply_news w s1))"
      "apply_news w s1 = s1\<lparr>sv_reader := sv_reader (apply_news w s)\<rparr>"
    using tick_parts [OF core_ticks(3)] by metis
  have "core_ok True (apply_news w s1) ps ss" using news_ok [OF core_ticks.IH s1(1,2)] by blast
  moreover have "world_fits (tw_world w) (sv_reader (apply_news w s1))"
    using core_ticks(2) by (simp add: tick_fits_def s1(4))
  ultimately have "core_ok (tick_reads w (apply_news w s1)) (sample_due w (apply_news w s1)) ps ss"
    using sample_due_keeps by blast
  from hand_on_keeps [OF this s1(3) [symmetric]] show ?case by blast
qed

text \<open>What is sampled without the processes wants none of their counters.\<close>
definition alone :: "metric_spec \<times> bool \<Rightarrow> bool" where
  "alone g \<longleftrightarrow> snd g \<or> ms_processes (fst g) = {}"

lemma join_group_alone: "list_all alone gs \<Longrightarrow> list_all alone (join_group s gs)"
  by (induction gs rule: join_group.induct)
    (auto simp: alone_def clamped_def reads_processes_def spec_union_def)

lemma by_interval_alone: "list_all alone (by_interval specs)"
proof (induction specs rule: rev_induct)
  case Nil
  then show ?case by (simp add: by_interval_def)
next
  case (snoc s specs)
  then show ?case by (simp add: by_interval_snoc join_group_alone)
qed

lemma fold_due_inv:
  assumes "\<And>t g r. (g, r) \<in> set gs \<Longrightarrow> (\<And>e. t = Some e \<Longrightarrow> Q e) \<Longrightarrow> Q (add_due t g r)"
  shows "(\<And>e. t = Some e \<Longrightarrow> Q e) \<Longrightarrow> fold_due P gs t = Some d \<Longrightarrow> Q d"
  using assms
proof (induction gs arbitrary: t)
  case (Cons g gs)
  obtain h r where g: "g = (h, r)" by force
  have "Q e" if "(if P (h, r) then Some (add_due t h r) else t) = Some e" for e
    using that Cons.prems(1) Cons.prems(3) [of h r t] by (auto simp: g split: if_splits)
  then show ?case
    using Cons.IH [of "if P (h, r) then Some (add_due t h r) else t"] Cons.prems(2,3) by (simp add: g)
qed simp

lemma take_alone:
  assumes "schedule_ok s" "snd (schedule_take s specs now) = Some d"
  shows "d_reads_processes d \<or> ms_processes (d_spec d) = {}"
proof (rule fold_due_inv [OF _ _ assms(2) [unfolded schedule_take_fold [OF assms(1)]]])
  show "d_reads_processes (add_due t g r) \<or> ms_processes (d_spec (add_due t g r)) = {}"
    if "(g, r) \<in> set (by_interval specs)" "\<And>e. t = Some e \<Longrightarrow> d_reads_processes e \<or> ms_processes (d_spec e) = {}" for t g r
  proof -
    have "alone (g, r)" using that(1) by_interval_alone [of specs] by (auto simp: list_all_iff)
    then show ?thesis using that(2) by (cases t) (auto simp: alone_def add_due_def spec_union_def)
  qed
qed simp

lemma take_bounded:
  assumes "schedule_ok s" "snd (schedule_take s specs now) = Some d"
  shows "period (d_spec d) = ms_interval (d_spec d)"
proof -
  have "due_bounded d"
  proof (rule fold_due_inv [OF _ _ assms(2) [unfolded schedule_take_fold [OF assms(1)]]])
    show "due_bounded (add_due t g r)"
      if "(g, r) \<in> set (by_interval specs)" "\<And>e. t = Some e \<Longrightarrow> due_bounded e" for t g r
      using add_due_serves(1) [OF _ that(2), of g r t] that(1) by_interval_groups [of specs] by (auto simp: list_all_iff)
  qed simp
  then show ?thesis by (simp add: due_bounded_def)
qed

text \<open>One value for each row, and no column that is not wanted.\<close>
definition rectangular :: "sample \<Rightarrow> bool" where
  "rectangular x \<longleftrightarrow> length (s_sequence_numbers x) = length (s_pids x) \<and>
    (\<forall>m. case s_columns x m of
           Some c \<Rightarrow> m \<in> ms_processes (s_wanted x) \<and> column_length c = length (s_pids x)
         | None \<Rightarrow> m \<notin> ms_processes (s_wanted x) \<or> m = GpuEngines)"

lemma column_of_None: "column_of x rows m = None \<longleftrightarrow> m = GpuEngines"
  by (cases m) auto

lemma build_sample_rectangular:
  assumes "reads \<or> ms_processes spec = {}"
  shows "\<exists>x. rd_fresh (build_sample w spec reads r) = Some x \<and> rectangular x \<and> s_wanted x = spec \<and> s_period x = period spec \<and>
    s_pids x = (if reads then map r_pid (rd_rows r) else []) \<and>
    s_columns x = columns_build (ms_processes spec) (rd_rows r) (beside w r) \<and>
    s_gpu_engines x = gr_engines (gpu_of w spec (rd_rows r)) \<and> s_machine x = machine_of w spec (rd_state r) (rd_rows r)"
proof -
  obtain x where x: "rd_fresh (build_sample w spec reads r) = Some x" "s_wanted x = spec" "s_period x = period spec"
      "s_pids x = (if reads then map r_pid (rd_rows r) else [])"
      "s_sequence_numbers x = (if reads then map r_sequence_number (rd_rows r) else [])"
      "s_columns x = columns_build (ms_processes spec) (rd_rows r) (beside w r)"
      "s_gpu_engines x = gr_engines (gpu_of w spec (rd_rows r))" "s_machine x = machine_of w spec (rd_state r) (rd_rows r)"
    using build_sample_fresh by blast
  have "case s_columns x m of
           Some c \<Rightarrow> m \<in> ms_processes spec \<and> column_length c = length (s_pids x)
         | None \<Rightarrow> m \<notin> ms_processes spec \<or> m = GpuEngines" for m
  proof (cases "m \<in> ms_processes spec")
    case True
    then have "reads" using assms by auto
    then show ?thesis
      using True x(4,6) column_of_None [of "beside w r" "rd_rows r" m] column_of_length [of "beside w r" "rd_rows r" m]
      by (simp add: columns_build_def split: option.split)
  next
    case False
    then show ?thesis using x(6) by (simp add: columns_build_def)
  qed
  then have "rectangular x" using x(4,5) unfolding rectangular_def x(2) by simp
  then show ?thesis using x by blast
qed

lemma gui_same: "rd_handles r' = rd_handles r \<Longrightarrow> rd_session r' = rd_session r \<Longrightarrow> gui r' = gui r"
  by (intro ext) (simp add: gui_def split: option.split)

text \<open>What the counters of a row and the machine's totals rest on is the same once the diff is handed on.\<close>
lemma build_sample_kept:
  "rd_rows (build_sample w spec reads r) = rd_rows r"
  "machine_of w' spec' (rd_state (build_sample w spec reads r)) rows = machine_of w' spec' (rd_state r) rows"
  "beside w' (build_sample w spec reads r) = beside w' r"
  using gui_same [of "build_sample w spec reads r" r] by (simp_all add: build_sample_def beside_def Let_def)

lemma reader_kept:
  assumes "r' = r\<lparr>rd_state := (rd_state r)\<lparr>sy_processes := t\<rparr>, rd_fresh := f\<rparr>"
  shows "rd_rows r' = rd_rows r" "beside w r' = beside w r"
    "machine_of w spec (rd_state r') rows = machine_of w spec (rd_state r) rows"
  using gui_same [of r' r] by (simp_all add: assms beside_def system_network_def machine_of_def)

text \<open>The tick's reading, when nothing waits to be handed on and a spec asks.\<close>
definition tick_read ::
    "tick_world \<Rightarrow> metric_spec \<Rightarrow> supervisor \<Rightarrow> supervisor \<Rightarrow> diff \<Rightarrow> supervisor \<Rightarrow> due_spec \<Rightarrow> reader \<Rightarrow> string option \<Rightarrow> bool" where
  "tick_read w spec s s' d s1 due r error \<longleftrightarrow>
    sv_reader s1 = sv_reader s \<and> sv_schedule s1 = sv_schedule s \<and>
    hand_on diff_default (sample_due w (apply_news w s1)) = (s', d) \<and>
    snd (schedule_take (sv_schedule s) (tw_specs w) (tw_take_at w)) = Some due \<and>
    covers (d_spec due) spec \<and> ms_interval (d_spec due) \<le> period spec \<and>
    (reads_processes spec \<longrightarrow> d_reads_processes due) \<and>
    reader_sample (tw_world w) (d_spec due) (d_reads_processes due) (sv_reader (apply_news w s1)) = (r, error) \<and>
    sv_reader (sample_due w (apply_news w s1)) = r \<and> sv_snapshot_error (sample_due w (apply_news w s1)) = error"

lemma tick_reading:
  assumes "core_reach s ps ss" "rd_fresh (sv_reader s) = None"
    and "tick w diff_default s = (s', d, calls)"
    and "spec \<in> set (tw_specs w)" "spec_asks (sv_schedule s) spec (tw_take_at w)"
  shows "\<exists>s1 due r error. tick_read w spec s s' d s1 due r error"
proof -
  obtain s1 where s1: "sv_reader s1 = sv_reader s" "sv_schedule s1 = sv_schedule s"
      "(s', d) = hand_on diff_default (sample_due w (apply_news w s1))"
    using tick_parts [OF assms(3)] by metis
  have sch: "sv_schedule (apply_news w s1) = sv_schedule s" "rd_fresh (sv_reader (apply_news w s1)) = None"
    using s1 assms(2) by (simp_all add: apply_news_def Let_def)
  have "schedule_ok (sv_schedule s)" using core_reach_ok [OF assms(1)] by (simp add: core_ok_def)
  from take_serves_asking [OF this assms(4,5)]
  obtain due where due: "snd (schedule_take (sv_schedule s) (tw_specs w) (tw_take_at w)) = Some due"
      "covers (d_spec due) spec" "ms_interval (d_spec due) \<le> period spec" "reads_processes spec \<longrightarrow> d_reads_processes due"
    by blast
  obtain r error where r: "reader_sample (tw_world w) (d_spec due) (d_reads_processes due) (sv_reader (apply_news w s1)) = (r, error)"
    by force
  have "sv_reader (sample_due w (apply_news w s1)) = r" "sv_snapshot_error (sample_due w (apply_news w s1)) = error"
    using due(1) r by (cases "schedule_take (sv_schedule s) (tw_specs w) (tw_take_at w)"; simp add: sample_due_def sch)+
  then have "tick_read w spec s s' d s1 due r error"
    using s1 due r unfolding tick_read_def by simp
  then show ?thesis by blast
qed

text \<open>
  C4 Tick after tick, whoever applied the diffs holds exactly the passports and the
  states of the processes the core lists. The sample a diff brings has a row for each
  of them, once, and no other, and has no row only when this tick sampled for specs
  that want none of the processes; no spec that asks at it does. A tick brings no
  sample only when nothing was due or the list due could not be read.
\<close>
theorem ticks_tell_the_table:
  assumes "core_reach s ps ss" "tick_fits w s" "tick w diff_default s = (s', d, calls)"
  shows "apply_passports ps d = map_option passport \<circ> table_get (table_of s') \<and>
    apply_states ss d = map_option pe_state \<circ> table_get (table_of s') \<and>
    (\<forall>x. df_sample d = Some x \<longrightarrow> sample_fits (tick_reads w s) x (table_of s')) \<and>
    (df_sample d = None \<longleftrightarrow> rd_fresh (sv_reader s) = None \<and>
      (case tick_due w s of Some due \<Rightarrow> d_reads_processes due \<and> (\<exists>e. w_list (tw_world w) = Inl e) | None \<Rightarrow> True)) \<and>
    (\<forall>spec \<in> set (tw_specs w). spec_asks (sv_schedule s) spec (tw_take_at w) \<and> reads_processes spec \<longrightarrow> tick_reads w s) \<and>
    rd_fresh (sv_reader s') = None"
proof -
  obtain s1 where s1: "sv_reader s1 = sv_reader s" "sv_schedule s1 = sv_schedule s"
      "(s', d) = hand_on diff_default (sample_due w (apply_news w s1))"
      "apply_news w s1 = s1\<lparr>sv_reader := sv_reader (apply_news w s)\<rparr>"
    using tick_parts [OF assms(3)] by metis
  note news = news_ok [OF core_reach_ok [OF assms(1)] s1(1,2), of w]
  have "world_fits (tw_world w) (sv_reader (apply_news w s1))"
    using assms(2) by (simp add: tick_fits_def s1(4))
  note due = sample_due_keeps [OF conjunct1 [OF news] this]
  note h = hand_on_keeps [OF conjunct1 [OF due] s1(3) [symmetric]]
  have fresh: "rd_fresh (sv_reader (apply_news w s1)) = rd_fresh (sv_reader s)"
    using s1(1) by (simp add: apply_news_table)
  have "sample_fits (tick_reads w s) x (table_of s')" if "df_sample d = Some x" for x
    using due news that h by (simp add: core_ok_def sample_fits_def)
  moreover have "df_sample d = None \<longleftrightarrow> rd_fresh (sv_reader s) = None \<and>
      (case tick_due w s of Some due \<Rightarrow> d_reads_processes due \<and> (\<exists>e. w_list (tw_world w) = Inl e) | None \<Rightarrow> True)"
    using due news h fresh by simp
  moreover have "tick_reads w s"
    if "spec \<in> set (tw_specs w)" "spec_asks (sv_schedule s) spec (tw_take_at w) \<and> reads_processes spec" for spec
    using take_serves_asking [of "sv_schedule s" spec "tw_specs w" "tw_take_at w"] that core_reach_ok [OF assms(1)]
    by (auto simp: tick_reads_def tick_due_def core_ok_def)
  ultimately show ?thesis using h by blast
qed


text \<open>What the core says of its list after a tick that finds nothing to hand on.\<close>
lemma tick_error:
  assumes "tick w diff s = (s', d, calls)" "rd_fresh (sv_reader s) = None"
  shows "sv_snapshot_error s' =
    (case tick_due w s of
       None \<Rightarrow> sv_snapshot_error s
     | Some due \<Rightarrow> if d_reads_processes due then (case w_list (tw_world w) of Inl e \<Rightarrow> Some e | Inr _ \<Rightarrow> None) else None)"
proof -
  obtain s1 where s1: "sv_reader s1 = sv_reader s" "sv_schedule s1 = sv_schedule s" "sv_snapshot_error s1 = sv_snapshot_error s"
      "(s', d) = hand_on diff (sample_due w (apply_news w s1))"
    using tick_parts [OF assms(1)] by metis
  have "sv_snapshot_error s' = sv_snapshot_error (sample_due w (apply_news w s1))"
    using s1(4) by (simp add: hand_on_def Let_def split: prod.splits)
  moreover have "sv_schedule (apply_news w s1) = sv_schedule s" "rd_fresh (sv_reader (apply_news w s1)) = None"
      "sv_snapshot_error (apply_news w s1) = sv_snapshot_error s"
    using s1 assms(2) by (simp_all add: apply_news_def Let_def)
  ultimately show ?thesis
    by (cases "schedule_take (sv_schedule s) (tw_specs w) (tw_take_at w)")
      (auto simp: sample_due_def tick_due_def reader_sample_def split: option.splits sum.splits)
qed

text \<open>
  C6 A list of processes that cannot be read leaves the picture as it was: the tick
  brings no sample, the listed processes are those listed before, nobody who applied
  the diffs loses one, and the core says why until it samples again. The next tick
  that takes a sample says of the list what it met reading it, and nothing if it did
  not read it: a sample of the machine alone clears the error of a list that has not
  been read since.
\<close>
theorem a_failed_read_leaves_the_picture:
  assumes "core_reach s ps ss" "rd_fresh (sv_reader s) = None"
    and "tick w diff_default s = (s', d, calls)" "w_list (tw_world w) = Inl error"
    and "spec \<in> set (tw_specs w)" "spec_asks (sv_schedule s) spec (tw_take_at w)" "reads_processes spec"
  shows "df_sample d = None \<and> listing (table_of s') = listing (table_of s) \<and>
    dom (apply_passports ps d) = dom (listing (table_of s)) \<and>
    h_snapshot_error (supervisor_health dropped sessions now s') = Some error \<and>
    (\<forall>w' s'' d' calls'. tick w' diff_default s' = (s'', d', calls') \<longrightarrow>
       h_snapshot_error (supervisor_health dropped sessions now s'') =
         (case tick_due w' s' of
            None \<Rightarrow> Some error
          | Some due \<Rightarrow>
              if d_reads_processes due then (case w_list (tw_world w') of Inl e \<Rightarrow> Some e | Inr _ \<Rightarrow> None) else None))"
proof -
  obtain s1 due r e where "tick_read w spec s s' d s1 due r e"
    using tick_reading [OF assms(1-3,5,6)] by blast
  note t = this [unfolded tick_read_def]
  have fits: "world_fits (tw_world w) (sv_reader (apply_news w s1))" by (simp add: world_fits_def assms(4))
  have "d_reads_processes due" using t assms(7) by blast
  moreover have "reader_sample (tw_world w) (d_spec due) (d_reads_processes due) (sv_reader (apply_news w s1)) = (r, e)"
    using t by blast
  ultimately have re: "r = (sv_reader (apply_news w s1))\<lparr>rd_rows := []\<rparr>" "e = Some error"
    using assms(4) by (simp_all add: reader_sample_def)
  have news: "core_ok True (apply_news w s1) ps ss \<and> listing (table_of (apply_news w s1)) = listing (table_of s)"
    using news_ok [OF core_reach_ok [OF assms(1)]] t by blast
  note sample_due_keeps [OF conjunct1 [OF news] fits]
  from hand_on_keeps [OF conjunct1 [OF this]] have h:
      "apply_passports ps d = map_option passport \<circ> table_get (table_of s')"
      "df_sample d = rd_fresh r" "rd_fresh (sv_reader s') = None" "listing (table_of s') = listing (table_in r)"
      "sv_snapshot_error s' = e"
    using t by auto
  have fresh: "rd_fresh (sv_reader (apply_news w s1)) = None" using assms(2) t by (simp add: apply_news_def Let_def)
  have listed: "listing (table_of s') = listing (table_of s)" using h(4) news by (simp add: re(1))
  have "dom (apply_passports ps d) = dom (listing (table_of s'))"
    using h(1) by (auto simp: listing_def dom_def)
  moreover have "df_sample d = None" using h(2) fresh by (simp add: re(1))
  moreover have "sv_snapshot_error s' = Some error" using h(5) by (simp add: re(2))
  moreover have "sv_snapshot_error s'' = (case tick_due w' s' of
        None \<Rightarrow> Some error
      | Some due \<Rightarrow> if d_reads_processes due then (case w_list (tw_world w') of Inl e \<Rightarrow> Some e | Inr _ \<Rightarrow> None) else None)"
    if "tick w' diff_default s' = (s'', d', calls')" for w' s'' d' calls'
    using tick_error [OF that h(3)] h(5) by (simp add: re(2) split: option.split)
  ultimately show ?thesis using listed by (simp add: supervisor_health_def)
qed

text \<open>Half the fastest interval, within its bounds: a sample sees what came before the last one.\<close>
lemma flush_timer_bounds: "FLUSH_TIMER_MS \<le> flush_timer_for specs \<and> flush_timer_for specs \<le> SLOWEST_FLUSH_MS"
  by (simp add: flush_timer_for_def Let_def FLUSH_TIMER_MS_def SLOWEST_FLUSH_MS_def)

lemma flush_timer_half:
  assumes "spec \<in> set specs"
  shows "flush_timer_for specs = FLUSH_TIMER_MS \<or> millis (2 * flush_timer_for specs) \<le> period spec"
proof -
  obtain p ps where p: "map period specs = p # ps" using assms by (cases "map period specs") auto
  have "period spec \<in> set (p # ps)" using assms p by (metis image_eqI list.set_map)
  then have "foldl min p ps \<le> period spec" using foldl_min [of p ps] by auto
  moreover have "millis (2 * (foldl min p ps div 2 div 1000000)) \<le> foldl min p ps" by simp
  ultimately have half: "millis (2 * (foldl min p ps div 2 div 1000000)) \<le> period spec" by (rule order.trans [rotated])
  show ?thesis
    using half unfolding flush_timer_for_def p Let_def list.case FLUSH_TIMER_MS_def SLOWEST_FLUSH_MS_def by auto
qed

section \<open>A core that runs\<close>

definition quiet_world :: "(string + row list) \<Rightarrow> world" where
  "quiet_world list =
    \<lparr>w_list = list, w_now_100ns = 0, w_sight = sample_sighting, w_windows = throttled_view False, w_at = 0,
     w_hosts = worker_new, w_mapped = worker_new, w_vm_memory = worker_new, w_user_objects = (\<lambda>_. 0),
     w_gdi_objects = (\<lambda>_. 0), w_gpu = (\<lambda>_ _. gpu_read_default), w_gpu_dedicated = (\<lambda>_. 0), w_gpu_shared = (\<lambda>_. 0),
     w_machine = (\<lambda>_ _. machine_sample_default)\<rparr>"

definition quiet_tick :: "metric_spec list \<Rightarrow> (string + row list) \<Rightarrow> tick_world" where
  "quiet_tick specs list =
    \<lparr>tw_sessions_at = 0, tw_healthy = True, tw_start = True, tw_specs = specs, tw_health_at = 0, tw_health = [],
     tw_changes = [], tw_judged = [], tw_take_at = 5, tw_world = quiet_world list\<rparr>"

definition handles_spec :: metric_spec where
  "handles_spec = \<lparr>ms_interval = secs 1, ms_processes = {Handles}, ms_machine = {}\<rparr>"

text \<open>A core that started on one process, and one that ticked once without anybody asking.\<close>
lemma core_runs:
  "\<exists>s. core_reach s Map.empty Map.empty \<and> sv_schedule s = []"
proof -
  let ?w = "quiet_world (Inr [row_default\<lparr>r_pid := 4\<rparr>])"
  obtain s where s: "supervisor_start None False [] 0 ?w [] = Inr s"
    by (simp add: supervisor_start_def schedule_new_def schedule_take_def by_interval_def reader_sample_def quiet_world_def)
  have "world_fits ?w (reader_new None)"
    by (simp add: world_fits_def quiet_world_def rows_fit_def reader_new_def system_state_new_def table_new_def)
  from core_starts [OF s this] have "core_reach s Map.empty Map.empty" .
  moreover have "sv_schedule s = []"
    using s by (auto simp: supervisor_start_def schedule_new_def schedule_take_def by_interval_def
        split: prod.splits option.splits)
  ultimately show ?thesis by blast
qed

lemma core_ticked:
  "\<exists>s ps ss. core_reach s ps ss \<and> rd_fresh (sv_reader s) = None \<and> sv_schedule s = []"
proof -
  obtain s where s: "core_reach s Map.empty Map.empty" "sv_schedule s = []" using core_runs by blast
  let ?w = "quiet_tick [] (Inl ''down'')"
  obtain s' d calls where t: "tick ?w diff_default s = (s', d, calls)" by (metis prod_cases3)
  have "tick_fits ?w s" by (simp add: tick_fits_def world_fits_def quiet_tick_def quiet_world_def)
  from core_ticks [OF s(1) this t] have reach: "core_reach s' (apply_passports Map.empty d) (apply_states Map.empty d)" .
  obtain s1 where s1: "sv_schedule s1 = sv_schedule s" "(s', d) = hand_on diff_default (sample_due ?w (apply_news ?w s1))"
    using tick_parts [OF t] by metis
  have "sv_schedule (sample_due ?w (apply_news ?w s1)) = []"
    using s(2) s1(1) by (simp add: sample_due_def schedule_take_def by_interval_def quiet_tick_def apply_news_def Let_def)
  then have "sv_schedule s' = []" "rd_fresh (sv_reader s') = None"
    using s1(2) by (simp_all add: hand_on_def Let_def split: prod.splits)
  then show ?thesis using reach by blast
qed

lemma handles_spec_asks: "sv_schedule s = [] \<Longrightarrow> spec_asks (sv_schedule s) handles_spec now"
  by (simp add: spec_asks_def cadence_at_def)

lemma ticks_tell_the_table_witness:
  "\<exists>s w s' d calls. core_reach s Map.empty Map.empty \<and> tick w diff_default s = (s', d, calls) \<and>
    apply_passports Map.empty d = map_option passport \<circ> table_get (table_of s')"
proof -
  obtain s where s: "core_reach s Map.empty Map.empty" using core_runs by blast
  let ?w = "quiet_tick [] (Inl ''down'')"
  obtain s' d calls where t: "tick ?w diff_default s = (s', d, calls)" by (metis prod_cases3)
  have "tick_fits ?w s" by (simp add: tick_fits_def world_fits_def quiet_tick_def quiet_world_def)
  from ticks_tell_the_table [OF s this t] s t show ?thesis by blast
qed


lemma a_failed_read_leaves_the_picture_witness:
  "\<exists>s w s' d calls. tick w diff_default s = (s', d, calls) \<and> df_sample d = None \<and>
    h_snapshot_error (supervisor_health 0 [] 0 s') = Some ''down''"
proof -
  obtain s ps ss where s: "core_reach s ps ss" "rd_fresh (sv_reader s) = None" "sv_schedule s = []"
    using core_ticked by blast
  let ?w = "quiet_tick [handles_spec] (Inl ''down'')"
  obtain s' d calls where t: "tick ?w diff_default s = (s', d, calls)" by (metis prod_cases3)
  have w: "w_list (tw_world ?w) = Inl ''down''" "handles_spec \<in> set (tw_specs ?w)"
    by (simp_all add: quiet_tick_def quiet_world_def)
  have "reads_processes handles_spec" by (simp add: reads_processes_def handles_spec_def)
  from a_failed_read_leaves_the_picture [OF s(1,2) t w(1,2) handles_spec_asks [OF s(3)] this] t
  show ?thesis by blast
qed

end
