(* ===== verification/Text.thy ===== *)
theory Text
  imports Prelude
begin

text \<open>
  What the agent does with text: ASCII case, prefixes and suffixes, trimming. A string
  is its UTF-8 bytes, as in Rust; white space is every character Unicode calls so, by
  its encoding.
\<close>

section \<open>Case\<close>

definition ascii_lower :: "char \<Rightarrow> char" where
  "ascii_lower c = (if 65 \<le> (of_char c :: nat) \<and> (of_char c :: nat) \<le> 90 then char_of ((of_char c :: nat) + 32) else c)"

abbreviation to_ascii_lowercase :: "string \<Rightarrow> string" where
  "to_ascii_lowercase \<equiv> map ascii_lower"

definition eq_ignore_ascii_case :: "string \<Rightarrow> string \<Rightarrow> bool" where
  "eq_ignore_ascii_case s t \<longleftrightarrow> to_ascii_lowercase s = to_ascii_lowercase t"

definition is_ascii_alphabetic :: "char \<Rightarrow> bool" where
  "is_ascii_alphabetic c \<longleftrightarrow> 97 \<le> (of_char (ascii_lower c) :: nat) \<and> (of_char (ascii_lower c) :: nat) \<le> 122"

section \<open>Prefixes and suffixes\<close>

definition starts_with :: "string \<Rightarrow> string \<Rightarrow> bool" where
  "starts_with t prefix \<longleftrightarrow> take (length prefix) t = prefix"

definition ends_with :: "string \<Rightarrow> string \<Rightarrow> bool" where
  "ends_with t suffix \<longleftrightarrow> length suffix \<le> length t \<and> drop (length t - length suffix) t = suffix"

definition strip_prefix :: "string \<Rightarrow> string \<Rightarrow> string option" where
  "strip_prefix t prefix = (if starts_with t prefix then Some (drop (length prefix) t) else None)"

lemma starts_with_append [simp]: "starts_with (p @ t) p"
  by (simp add: starts_with_def)

lemma strip_prefix_append [simp]: "strip_prefix (p @ t) p = Some t"
  by (simp add: strip_prefix_def)

lemma strip_prefix_Some: "strip_prefix t p = Some u \<longleftrightarrow> t = p @ u"
  by (auto simp: strip_prefix_def starts_with_def) (metis append_take_drop_id)

lemma starts_with_Cons [simp]: "starts_with (a # t) (b # p) \<longleftrightarrow> a = b \<and> starts_with t p"
  by (auto simp: starts_with_def)

lemma starts_with_Nil [simp]: "starts_with t []" "starts_with [] (b # p) \<longleftrightarrow> False"
  by (simp_all add: starts_with_def)

section \<open>Trimming\<close>

text \<open>The characters of Unicode's White_Space, encoded.\<close>
definition WHITE_SPACE :: "string list" where
  "WHITE_SPACE =
    map (\<lambda>n. [char_of (n :: nat)]) [9, 10, 11, 12, 13, 32] @
    map (map (char_of :: nat \<Rightarrow> char))
      ([[0xC2, 0x85], [0xC2, 0xA0], [0xE1, 0x9A, 0x80]] @ map (\<lambda>n. [0xE2, 0x80, n]) [0x80..<0x8B] @
       [[0xE2, 0x80, 0xA8], [0xE2, 0x80, 0xA9], [0xE2, 0x80, 0xAF], [0xE2, 0x81, 0x9F], [0xE3, 0x80, 0x80]])"

text \<open>\<open>n\<close> bounds how many characters are taken off.\<close>
fun trim_start_matches :: "string list \<Rightarrow> nat \<Rightarrow> string \<Rightarrow> string" where
  "trim_start_matches ws 0 t = t"
| "trim_start_matches ws (Suc n) t =
    (case find (starts_with t) ws of
       None \<Rightarrow> t
     | Some w \<Rightarrow> trim_start_matches ws n (drop (length w) t))"

definition trim_end_matches :: "string list \<Rightarrow> string \<Rightarrow> string" where
  "trim_end_matches ws t = rev (trim_start_matches (map rev ws) (length t) (rev t))"

text \<open>What is trimmed of both ends.\<close>
definition trim_matches :: "string list \<Rightarrow> string \<Rightarrow> string" where
  "trim_matches ws t = trim_end_matches ws (trim_start_matches ws (length t) t)"

definition trim :: "string \<Rightarrow> string" where
  "trim t = trim_matches WHITE_SPACE t"

lemma trim_start_length: "length (trim_start_matches ws n t) \<le> length t"
proof (induction ws n t rule: trim_start_matches.induct)
  case (2 ws n t)
  then show ?case by (fastforce split: option.split)
qed simp

lemma trim_start_done:
  "[] \<notin> set ws \<Longrightarrow> length t \<le> n \<Longrightarrow> find (starts_with (trim_start_matches ws n t)) ws = None"
proof (induction ws n t rule: trim_start_matches.induct)
  case (1 ws t)
  then have "t = []" by simp
  moreover have "\<not> starts_with [] w" if "w \<in> set ws" for w
    using that "1.prems"(1) by (auto simp: starts_with_def)
  ultimately show ?case by (simp add: find_None_iff)
next
  case (2 ws n t)
  show ?case
  proof (cases "find (starts_with t) ws")
    case None
    then show ?thesis by simp
  next
    case (Some w)
    then have "w \<in> set ws" "starts_with t w" by (auto simp: find_Some_iff)
    then have "w \<noteq> []" "t \<noteq> []" using "2.prems"(1) by (auto simp: starts_with_def)
    then have "length (drop (length w) t) \<le> n" using "2.prems"(2) by (cases w) auto
    then show ?thesis using "2.IH" [OF Some] "2.prems"(1) Some by simp
  qed
qed

end
