(* ===== verification/Vm_Memory.thy ===== *)
theory Vm_Memory
  imports Prober Probes Ordered_Map Text
begin

text \<open>
  \<^verbatim>\<open>crates/core/src/providers/vm_memory.rs\<close>: the memory a host of virtual machines
  keeps in its working set, in which a machine's backing file that is mapped more than
  once counts once. Windows' calls are arguments: a query of a region, the name of a
  mapped file, the identity of a file, the blocks of a working set; \<open>late\<close> is whether
  the scan has taken its time. A \<^verbatim>\<open>usize\<close> has 64 bits.
\<close>

section \<open>Checked arithmetic\<close>

definition checked_add :: "u64 \<Rightarrow> u64 \<Rightarrow> u64 option" where
  "checked_add a b = (if unat a + unat b < 2 ^ 64 then Some (a + b) else None)"

definition checked_mul :: "u64 \<Rightarrow> u64 \<Rightarrow> u64 option" where
  "checked_mul a b = (if unat a * unat b < 2 ^ 64 then Some (a * b) else None)"

lemma checked_add_unat: "checked_add a b = Some c \<Longrightarrow> unat c = unat a + unat b"
  by (auto simp: checked_add_def unat_word_ariths split: if_splits)

lemma checked_mul_unat: "checked_mul a b = Some c \<Longrightarrow> unat c = unat a * unat b"
  by (auto simp: checked_mul_def unat_word_ariths split: if_splits)

section \<open>The views of backing files\<close>

definition REGIONS :: nat where
  "REGIONS = 65536"

definition PAGES :: nat where
  "PAGES = 16 * 2 ^ 20"

definition FILES :: nat where
  "FILES = 128"

record backing =
  bk_volume :: u64
  bk_file :: "u8 list"
  bk_bytes :: u64

record view =
  vw_base :: u64
  vw_end :: u64
  vw_backing :: backing
  vw_complete :: bool

text \<open>What \<^verbatim>\<open>VirtualQueryEx\<close> tells of the region an address is in.\<close>
record region =
  rn_base :: u64
  rn_size :: u64
  rn_mapped :: bool
  rn_allocation :: u64
  rn_protect :: u32

text \<open>
  The process as the scan asks it. A mapped file's name is its length in UTF-16 units
  and the name, if it is well-formed.
\<close>
record process_memory =
  pm_region :: "u64 \<Rightarrow> region option"
  pm_name :: "u64 \<Rightarrow> nat \<times> string option"
  pm_identity :: "string \<Rightarrow> backing option"
  pm_late :: "nat \<Rightarrow> bool"

text \<open>\<^verbatim>\<open>info.Protect & (8 | 128) == 0\<close>: no copy-on-write.\<close>
definition written_through :: "u32 \<Rightarrow> bool" where
  "written_through protect \<longleftrightarrow> and protect (or 8 128) = 0"

definition HARDDISK_VOLUME :: string where
  "HARDDISK_VOLUME = CHR 0x5C # ''Device'' @ CHR 0x5C # ''HarddiskVolume''"

record scan =
  sc_address :: u64
  sc_allocations :: "(u64 \<times> view option) list"
  sc_files :: "(string, backing) hashmap"

text \<open>The file of that name: known, or opened and identified unless there are too many.\<close>
definition scan_file :: "process_memory \<Rightarrow> string \<Rightarrow> (string, backing) hashmap \<Rightarrow> (backing \<times> (string, backing) hashmap) option" where
  "scan_file pm path files =
    (case hm_get files path of
       Some identity \<Rightarrow> Some (identity, files)
     | None \<Rightarrow>
         if length files \<ge> FILES then None
         else (case pm_identity pm path of
                 None \<Rightarrow> None
               | Some identity \<Rightarrow> Some (identity, hm_put path identity files)))"

text \<open>A mapped region that starts a view, if what it maps is a machine's memory.\<close>
definition scan_new :: "process_memory \<Rightarrow> region \<Rightarrow> u64 \<Rightarrow> (string, backing) hashmap \<Rightarrow> (view option \<times> (string, backing) hashmap) option" where
  "scan_new pm info end files =
    (case pm_name pm (rn_base info) of
       (len, name) \<Rightarrow>
         if len \<ge> 2048 - 1 then None
         else (case name of
                 None \<Rightarrow> None
               | Some path \<Rightarrow>
                   if ends_with (map ascii_lower path) ''.vmem'' then
                     if \<not> starts_with path HARDDISK_VOLUME then None
                     else (case scan_file pm path files of
                             None \<Rightarrow> None
                           | Some (identity, files) \<Rightarrow>
                               Some (Some \<lparr>vw_base = rn_allocation info, vw_end = end, vw_backing = identity,
                                  vw_complete = (rn_allocation info = rn_base info \<and> written_through (rn_protect info))\<rparr>, files))
                   else Some (None, files)))"

text \<open>One region: what the map of allocations is after it.\<close>
definition scan_region :: "process_memory \<Rightarrow> region \<Rightarrow> u64 \<Rightarrow> scan \<Rightarrow> scan option" where
  "scan_region pm info end s =
    (if \<not> rn_mapped info then Some (s\<lparr>sc_address := end\<rparr>)
     else (case bt_get (sc_allocations s) (rn_allocation info) of
             Some (Some v) \<Rightarrow>
               Some (s\<lparr>sc_address := end,
                 sc_allocations := bt_put (rn_allocation info)
                   (Some (v\<lparr>vw_complete := (vw_complete v \<and> vw_end v = rn_base info \<and> written_through (rn_protect info)),
                            vw_end := end\<rparr>)) (sc_allocations s)\<rparr>)
           | Some None \<Rightarrow> Some (s\<lparr>sc_address := end\<rparr>)
           | None \<Rightarrow>
               (case scan_new pm info end (sc_files s) of
                  None \<Rightarrow> None
                | Some (view, files) \<Rightarrow>
                    Some (s\<lparr>sc_address := end, sc_allocations := bt_put (rn_allocation info) view (sc_allocations s),
                      sc_files := files\<rparr>))))"

text \<open>\<^verbatim>\<open>mappings\<close>, with the regions it may still ask for.\<close>
fun scan_regions :: "process_memory \<Rightarrow> u64 \<Rightarrow> nat \<Rightarrow> scan \<Rightarrow> (view list \<times> (string, backing) hashmap) option" where
  "scan_regions pm maximum 0 s = None"
| "scan_regions pm maximum (Suc n) s =
    (if sc_address s > maximum then Some (List.map_filter snd (sc_allocations s), sc_files s)
     else if pm_late pm n then None
     else case pm_region pm (sc_address s) of
            None \<Rightarrow> None
          | Some info \<Rightarrow>
              (case checked_add (rn_base info) (rn_size info) of
                 None \<Rightarrow> None
               | Some end \<Rightarrow>
                   if end \<le> sc_address s then None
                   else (case scan_region pm info end s of
                           None \<Rightarrow> None
                         | Some s \<Rightarrow> scan_regions pm maximum n s)))"

definition scan_start :: scan where
  "scan_start = \<lparr>sc_address = 0, sc_allocations = [], sc_files = []\<rparr>"

definition mappings :: "process_memory \<Rightarrow> u64 \<Rightarrow> (view list \<times> (string, backing) hashmap) option" where
  "mappings pm maximum = scan_regions pm maximum REGIONS scan_start"

section \<open>Counting\<close>

definition whole_file :: "view \<Rightarrow> bool" where
  "whole_file v \<longleftrightarrow> vw_complete v \<and> vw_end v - vw_base v = bk_bytes (vw_backing v)"

fun later_views :: "backing list \<Rightarrow> view list \<Rightarrow> (u64 \<times> u64) list" where
  "later_views before [] = []"
| "later_views before (v # vs) =
    (if \<not> whole_file v then later_views before vs
     else if vw_backing v \<in> set before then (vw_base v, vw_end v) # later_views before vs
     else later_views (vw_backing v # before) vs)"

definition duplicates :: "view list \<Rightarrow> (u64 \<times> u64) list" where
  "duplicates views = later_views [] (sort_key vw_base views)"

definition kept_block :: "(u64 \<times> u64) list \<Rightarrow> u64 \<Rightarrow> bool" where
  "kept_block excluded address \<longleftrightarrow>
    (let index = partition_point (\<lambda>(base, _). base \<le> address) excluded
     in index = 0 \<or> address \<ge> snd (excluded ! (index - 1)))"

fun count_blocks :: "(nat \<Rightarrow> bool) \<Rightarrow> (u64 \<times> u64) list \<Rightarrow> u64 \<Rightarrow> nat \<Rightarrow> u64 \<Rightarrow> u64 list \<Rightarrow> u64 option" where
  "count_blocks late excluded page index kept [] = Some kept"
| "count_blocks late excluded page index kept (block # blocks) =
    (if index mod 4096 = 0 \<and> late index then None
     else case checked_mul (drop_bit 12 block) page of
            None \<Rightarrow> None
          | Some address \<Rightarrow>
              if kept_block excluded address then
                (case checked_add kept page of
                   None \<Rightarrow> None
                 | Some kept \<Rightarrow> count_blocks late excluded page (Suc index) kept blocks)
              else count_blocks late excluded page (Suc index) kept blocks)"

text \<open>
  \<^verbatim>\<open>working_set\<close>: the query of the \<open>k\<close>-th try fills a buffer of a length, whose first word
  is the number of entries; it fails for want of room, or otherwise.
\<close>
datatype queried = Filled "u64 list" | TooShort u64 | Failed

fun vm_working_set_loop :: "(nat \<Rightarrow> nat \<Rightarrow> queried) \<Rightarrow> (nat \<Rightarrow> bool) \<Rightarrow> nat \<Rightarrow> nat \<Rightarrow> u64 list option" where
  "vm_working_set_loop query late 0 len = None"
| "vm_working_set_loop query late (Suc n) len =
    (if late n \<or> len * 8 \<ge> 2 ^ 32 then None
     else case query n len of
            Filled blocks \<Rightarrow>
              (let entries = unat (hd blocks)
               in if entries \<ge> len \<or> entries > PAGES then None else Some (tl (take (entries + 1) blocks)))
          | TooShort entries \<Rightarrow>
              (let size = unat entries + unat entries div 8 + 2
               in if unat entries > PAGES \<or> size \<ge> 2 ^ 64 \<or> size > PAGES + 1 then None
                  else vm_working_set_loop query late n size)
          | Failed \<Rightarrow> None)"

definition vm_working_set :: "(nat \<Rightarrow> nat \<Rightarrow> queried) \<Rightarrow> (nat \<Rightarrow> bool) \<Rightarrow> u64 list option" where
  "vm_working_set query late = vm_working_set_loop query late 4 16384"

text \<open>
  \<^verbatim>\<open>probe\<close>, once the process is open: its sequence number, its memory, what its working
  set holds, and the files' identities looked at once more.
\<close>
definition vm_probe ::
    "u64 option \<Rightarrow> process_memory \<Rightarrow> u64 \<Rightarrow> u64 \<Rightarrow> (nat \<Rightarrow> nat \<Rightarrow> queried) \<Rightarrow> (nat \<Rightarrow> bool) \<Rightarrow> (nat \<Rightarrow> bool) \<Rightarrow>
      (string \<Rightarrow> backing option) \<Rightarrow> instant \<Rightarrow> reading option" where
  "vm_probe sequence pm maximum page query late count_late identity_again at =
    (case sequence of
       None \<Rightarrow> None
     | Some sequence \<Rightarrow>
         (case mappings pm maximum of
            None \<Rightarrow> None
          | Some (views, files) \<Rightarrow>
              (case vm_working_set query late of
                 None \<Rightarrow> None
               | Some blocks \<Rightarrow>
                   (case count_blocks count_late (duplicates views) page 0 0 blocks of
                      None \<Rightarrow> None
                    | Some bytes \<Rightarrow>
                        if list_all (\<lambda>(path, identity). identity_again path = Some identity) files
                        then Some \<lparr>rg_sequence = sequence, rg_at = at, rg_bytes = bytes\<rparr>
                        else None))))"

section \<open>The views of a scan\<close>

text \<open>
  A query at the start of a page tells of a region that starts there and is whole
  pages, as Windows documents: it rounds the address down to a page.
\<close>
definition regions_by_page :: "nat \<Rightarrow> process_memory \<Rightarrow> bool" where
  "regions_by_page page pm \<longleftrightarrow> (\<forall>a info. unat a mod page = 0 \<longrightarrow> pm_region pm a = Some info \<longrightarrow>
    rn_base info = a \<and> unat (rn_size info) mod page = 0)"

text \<open>Views that are complete end before the next one starts, and before where the scan is.\<close>
definition views_apart :: "u64 \<Rightarrow> (u64 \<rightharpoonup> view option) \<Rightarrow> bool" where
  "views_apart reached m \<longleftrightarrow>
    (\<forall>a v. m a = Some (Some v) \<longrightarrow> vw_base v = a \<and> (vw_complete v \<longrightarrow> a < vw_end v \<and> vw_end v \<le> reached)) \<and>
    (\<forall>a b v u. m a = Some (Some v) \<longrightarrow> m b = Some (Some u) \<longrightarrow> vw_complete v \<longrightarrow> vw_complete u \<longrightarrow> a < b \<longrightarrow>
      vw_end v \<le> b)"

lemma views_apartD:
  assumes "views_apart reached m" "m a = Some (Some v)"
  shows "vw_base v = a" "vw_complete v \<Longrightarrow> a < vw_end v" "vw_complete v \<Longrightarrow> vw_end v \<le> reached"
    "m b = Some (Some u) \<Longrightarrow> vw_complete v \<Longrightarrow> vw_complete u \<Longrightarrow> a < b \<Longrightarrow> vw_end v \<le> b"
  using assms unfolding views_apart_def by blast+

text \<open>The one view that changes ends where the scan is by then; it started where the scan was, or ended there.\<close>
lemma views_apart_put:
  assumes apart: "views_apart reached m" and on: "reached < reached'"
    and v: "vw_base v = k" "vw_complete v \<Longrightarrow> vw_end v = reached'"
    and grows: "vw_complete v \<Longrightarrow> k = reached \<or> (\<exists>u. m k = Some (Some u) \<and> vw_complete u \<and> vw_end u = reached)"
  shows "views_apart reached' (m(k \<mapsto> Some v))"
proof -
  have k: "k \<le> reached" if c: "vw_complete v"
  proof -
    from grows [OF c] consider "k = reached" | u where "m k = Some (Some u)" "vw_complete u" "vw_end u = reached" by blast
    then show ?thesis
    proof cases
      case 2
      then show ?thesis using views_apartD(2) [OF apart 2(1)] by simp
    qed simp
  qed
  have before: "vw_end u \<le> k" if u: "m a = Some (Some u)" "vw_complete u" "a < k" and c: "vw_complete v" for a u
  proof -
    from grows [OF c] consider "k = reached" | w where "m k = Some (Some w)" "vw_complete w" by blast
    then show ?thesis
    proof cases
      case 1
      then show ?thesis using views_apartD(3) [OF apart u(1)] u(2) by simp
    next
      case 2
      then show ?thesis using views_apartD(4) [OF apart u(1) 2(1)] u(2,3) by simp
    qed
  qed
  have after: "\<not> k < b" if u: "m b = Some (Some u)" "vw_complete u" and c: "vw_complete v" for b u
  proof
    assume kb: "k < b"
    have b: "b < reached" using views_apartD(2,3) [OF apart u(1)] u(2) by simp
    from grows [OF c] consider "k = reached" | w where "m k = Some (Some w)" "vw_complete w" "vw_end w = reached" by blast
    then show False
    proof cases
      case 1
      then show ?thesis using b kb by simp
    next
      case 2
      then show ?thesis using views_apartD(4) [OF apart 2(1) u(1)] u(2) kb b by simp
    qed
  qed
  show ?thesis
    unfolding views_apart_def
  proof (intro conjI allI impI)
    fix a u assume "(m(k \<mapsto> Some v)) a = Some (Some u)"
    then have u: "a = k \<and> u = v \<or> a \<noteq> k \<and> m a = Some (Some u)" by (auto split: if_splits)
    then show "vw_base u = a" using v(1) views_apartD(1) [OF apart] by blast
    assume c: "vw_complete u"
    show "a < vw_end u" using u c k v(2) on views_apartD(2) [OF apart] by fastforce
    show "vw_end u \<le> reached'" using u c v(2) on views_apartD(3) [OF apart, of a u] by fastforce
  next
    fix a b u w
    assume "(m(k \<mapsto> Some v)) a = Some (Some u)" "(m(k \<mapsto> Some v)) b = Some (Some w)"
    then have u: "a = k \<and> u = v \<or> a \<noteq> k \<and> m a = Some (Some u)" and w: "b = k \<and> w = v \<or> b \<noteq> k \<and> m b = Some (Some w)"
      by (auto split: if_splits)
    assume c: "vw_complete u" "vw_complete w" "a < b"
    show "vw_end u \<le> b"
      using u w
    proof (elim disjE conjE)
      assume "a = k" "u = v" "b \<noteq> k" "m b = Some (Some w)"
      then show ?thesis using after [of b w] c by simp
    next
      assume "a \<noteq> k" "m a = Some (Some u)" "b = k" "w = v"
      then show ?thesis using before [of a u] c by simp
    next
      assume "m a = Some (Some u)" "m b = Some (Some w)"
      then show ?thesis using views_apartD(4) [OF apart] c by blast
    qed (use c in simp)
  qed
qed

lemma views_apart_on: "views_apart reached m \<Longrightarrow> reached < reached' \<Longrightarrow> views_apart reached' m"
  unfolding views_apart_def by (meson less_imp_le order_trans)

lemma views_apart_none: "views_apart reached m \<Longrightarrow> m k = None \<Longrightarrow> views_apart reached (m(k \<mapsto> None))"
  unfolding views_apart_def fun_upd_apply by simp

definition scan_ok :: "nat \<Rightarrow> scan \<Rightarrow> bool" where
  "scan_ok page s \<longleftrightarrow> bt_ok (sc_allocations s) \<and> unat (sc_address s) mod page = 0 \<and>
    views_apart (sc_address s) (bt_get (sc_allocations s))"

lemma scan_new_view:
  "scan_new pm info end files = Some (Some v, files') \<Longrightarrow>
    vw_base v = rn_allocation info \<and> vw_end v = end \<and> (vw_complete v \<longrightarrow> rn_allocation info = rn_base info)"
  by (auto simp: scan_new_def split: prod.splits option.splits if_splits)

lemma scan_region_ok:
  assumes ok: "scan_ok page s" and base: "rn_base info = sc_address s" and on: "sc_address s < end"
    and page: "unat end mod page = 0" and s': "scan_region pm info end s = Some s'"
  shows "scan_ok page s' \<and> sc_address s' = end"
proof -
  let ?m = "bt_get (sc_allocations s)" and ?k = "rn_allocation info"
  have bt: "bt_ok (sc_allocations s)" and apart: "views_apart (sc_address s) ?m" using ok by (simp_all add: scan_ok_def)
  note moved = views_apart_on [OF apart on]
  show ?thesis
  proof (cases "rn_mapped info")
    case False
    then show ?thesis using s' bt moved page by (auto simp: scan_region_def scan_ok_def)
  next
    case True
    show ?thesis
    proof (cases "?m ?k")
      case None
      then obtain view files where n: "scan_new pm info end (sc_files s) = Some (view, files)"
          "s' = s\<lparr>sc_address := end, sc_allocations := bt_put ?k view (sc_allocations s), sc_files := files\<rparr>"
        using s' True by (auto simp: scan_region_def split: option.splits)
      have "views_apart end (?m(?k \<mapsto> view))"
      proof (cases view)
        case None
        then show ?thesis using views_apart_none [OF moved \<open>?m ?k = None\<close>] by simp
      next
        case (Some v)
        then have v: "vw_base v = ?k" "vw_end v = end" "vw_complete v \<longrightarrow> ?k = sc_address s"
          using scan_new_view n(1) base by auto
        show ?thesis unfolding Some by (rule views_apart_put [OF apart on v(1)]) (use v in auto)
      qed
      then show ?thesis using bt page by (simp add: n(2) scan_ok_def bt_get_put)
    next
      case (Some old)
      show ?thesis
      proof (cases old)
        case None
        then show ?thesis using Some s' True bt moved page by (auto simp: scan_region_def scan_ok_def)
      next
        case (Some v)
        let ?v = "v\<lparr>vw_complete := (vw_complete v \<and> vw_end v = rn_base info \<and> written_through (rn_protect info)), vw_end := end\<rparr>"
        have old: "?m ?k = Some (Some v)" using Some \<open>?m ?k = Some old\<close> by simp
        have "views_apart end (?m(?k \<mapsto> Some ?v))"
          by (rule views_apart_put [OF apart on]) (use views_apartD(1) [OF apart old] old base in auto)
        moreover have "s' = s\<lparr>sc_address := end, sc_allocations := bt_put ?k (Some ?v) (sc_allocations s)\<rparr>"
          using s' True old by (simp add: scan_region_def)
        ultimately show ?thesis using bt page by (simp add: scan_ok_def bt_get_put)
      qed
    qed
  qed
qed

text \<open>What a scan returns.\<close>
definition views_fit :: "view list \<Rightarrow> bool" where
  "views_fit views \<longleftrightarrow> sorted_wrt (\<lambda>v u. vw_base v < vw_base u) views \<and>
    (\<forall>v \<in> set views. vw_complete v \<longrightarrow> vw_base v < vw_end v) \<and>
    (\<forall>v \<in> set views. \<forall>u \<in> set views. vw_complete v \<longrightarrow> vw_complete u \<longrightarrow> vw_base v < vw_base u \<longrightarrow> vw_end v \<le> vw_base u)"

lemma sorted_values:
  "bt_ok m \<Longrightarrow> (\<And>a v. bt_get m a = Some (Some v) \<Longrightarrow> vw_base v = a) \<Longrightarrow>
    sorted_wrt (\<lambda>v u. vw_base v < vw_base u) (List.map_filter snd m) \<and>
    (\<forall>v. v \<in> set (List.map_filter snd m) \<longleftrightarrow> bt_get m (vw_base v) = Some (Some v))"
proof (induction m)
  case Nil
  then show ?case by (simp add: List.map_filter_simps)
next
  case (Cons x m)
  obtain a w where x: "x = (a, w)" by force
  have ok: "bt_ok m" and above: "\<And>k. k \<in> fst ` set m \<Longrightarrow> a < k" using Cons.prems(1) by (auto simp: x bt_ok_def)
  have later: "a < k" if "bt_get m k = Some y" for k y
    using above that by (metis image_eqI map_of_SomeD fst_conv)
  have bases: "vw_base v = k" if "bt_get m k = Some (Some v)" for k v
  proof -
    have "k \<noteq> a" using later [OF that] by simp
    then show ?thesis using Cons.prems(2) [of k v] that by (simp add: x)
  qed
  note ih = Cons.IH [OF ok bases]
  have own: "w = Some v \<Longrightarrow> vw_base v = a" for v using Cons.prems(2) [of a v] by (simp add: x)
  have "a < vw_base v" if "v \<in> set (List.map_filter snd m)" for v using ih later that by blast
  then show ?case
    using ih own later by (cases w) (auto simp: x List.map_filter_simps)
qed

lemma scan_regions_fit:
  assumes page: "regions_by_page page pm" "page dvd 2 ^ 64"
  shows "scan_ok page s \<Longrightarrow> scan_regions pm maximum n s = Some (views, files) \<Longrightarrow> views_fit views"
proof (induction n arbitrary: s)
  case (Suc n)
  show ?case
  proof (cases "sc_address s > maximum")
    case True
    then have views: "views = List.map_filter snd (sc_allocations s)" using Suc.prems(2) by simp
    have apart: "views_apart (sc_address s) (bt_get (sc_allocations s))" and bt: "bt_ok (sc_allocations s)"
      using Suc.prems(1) by (simp_all add: scan_ok_def)
    note v = sorted_values [OF bt views_apartD(1) [OF apart], folded views]
    show ?thesis
      unfolding views_fit_def using v views_apartD(2,4) [OF apart] by meson
  next
    case False
    then obtain info till s' where s': "pm_region pm (sc_address s) = Some info" "checked_add (rn_base info) (rn_size info) = Some till"
        "sc_address s < till" "scan_region pm info till s = Some s'" "scan_regions pm maximum n s' = Some (views, files)"
      using Suc.prems(2) by (auto split: if_splits option.splits)
    have at: "unat (sc_address s) mod page = 0" using Suc.prems(1) by (simp add: scan_ok_def)
    then have info: "rn_base info = sc_address s" "unat (rn_size info) mod page = 0"
      using page(1) s'(1) by (auto simp: regions_by_page_def)
    have "unat till mod page = 0"
      using checked_add_unat [OF s'(2)] at info by (simp add: mod_0_imp_dvd)
    from scan_region_ok [OF Suc.prems(1) info(1) s'(3) this s'(4)] show ?thesis
      using Suc.IH s'(5) by blast
  qed
qed simp

lemma mappings_fit: "regions_by_page page pm \<Longrightarrow> page dvd 2 ^ 64 \<Longrightarrow> mappings pm maximum = Some (views, files) \<Longrightarrow> views_fit views"
  unfolding mappings_def by (rule scan_regions_fit [of page pm scan_start]) (simp_all add: scan_ok_def scan_start_def views_apart_def)

section \<open>What is left out of the count\<close>

text \<open>A whole mapping of a file that has another before it.\<close>
definition mapped_before :: "view list \<Rightarrow> view \<Rightarrow> bool" where
  "mapped_before views v \<longleftrightarrow> whole_file v \<and>
    (\<exists>u \<in> set views. whole_file u \<and> vw_backing u = vw_backing v \<and> vw_base u < vw_base v)"

definition inside :: "view \<Rightarrow> u64 \<Rightarrow> bool" where
  "inside v a \<longleftrightarrow> vw_base v \<le> a \<and> a < vw_end v"

lemma later_views_set:
  "sorted_wrt (\<lambda>v u. vw_base v < vw_base u) vs \<Longrightarrow>
    x \<in> set (later_views before vs) \<longleftrightarrow>
      (\<exists>v \<in> set vs. whole_file v \<and> x = (vw_base v, vw_end v) \<and> (vw_backing v \<in> set before \<or> mapped_before vs v))"
proof (induction vs arbitrary: before)
  case (Cons v vs)
  have first: "\<not> mapped_before (v # vs) v" using Cons.prems by (auto simp: mapped_before_def)
  have rest: "mapped_before (v # vs) u \<longleftrightarrow> whole_file u \<and> (mapped_before vs u \<or> whole_file v \<and> vw_backing v = vw_backing u)"
    if "u \<in> set vs" for u
    using Cons.prems that by (auto simp: mapped_before_def)
  have ih: "x \<in> set (later_views b vs) \<longleftrightarrow>
      (\<exists>u \<in> set vs. whole_file u \<and> x = (vw_base u, vw_end u) \<and> (vw_backing u \<in> set b \<or> mapped_before vs u))" for b
    using Cons.IH Cons.prems by simp
  show ?case
  proof (cases "whole_file v")
    case False
    then have "mapped_before (v # vs) u \<longleftrightarrow> mapped_before vs u" if "u \<in> set vs" for u
      using rest [OF that] by (auto simp: mapped_before_def)
    then show ?thesis using False by (auto simp: ih)
  next
    case True
    have iff: "(vw_backing u \<in> set before \<or> mapped_before (v # vs) u) \<longleftrightarrow>
        (vw_backing u \<in> set (vw_backing v # before) \<or> mapped_before vs u)" if "u \<in> set vs" "whole_file u" for u
      using rest [OF that(1)] that(2) True by auto
    have later: "(\<exists>u \<in> set vs. whole_file u \<and> x = (vw_base u, vw_end u) \<and> (vw_backing u \<in> set before \<or> mapped_before (v # vs) u)) \<longleftrightarrow>
        x \<in> set (later_views (vw_backing v # before) vs)"
      unfolding ih by (rule bex_cong [OF refl]) (use iff in blast)
    show ?thesis
    proof (cases "vw_backing v \<in> set before")
      case in_before: True
      then have same: "set (vw_backing v # before) = set before" by auto
      have "x \<in> set (later_views (vw_backing v # before) vs) \<longleftrightarrow> x \<in> set (later_views before vs)"
        unfolding ih same ..
      then show ?thesis using True in_before later by simp
    next
      case new: False
      then show ?thesis using True first later by simp
    qed
  qed
qed simp

lemma later_views_sorted:
  assumes "views_fit vs" "set ws \<subseteq> set vs" "sorted_wrt (\<lambda>v u. vw_base v < vw_base u) ws"
  shows "sorted_wrt (\<lambda>(b, e) (b', e'). b < b' \<and> e \<le> b') (later_views before ws)"
  using assms(2,3)
proof (induction ws arbitrary: before)
  case (Cons v ws)
  have ws: "sorted_wrt (\<lambda>v u. vw_base v < vw_base u) ws" using Cons.prems(2) by simp
  have "fst x > vw_base v \<and> vw_end v \<le> fst x" if x: "x \<in> set (later_views before' ws)" and whole: "whole_file v" for x before'
  proof -
    obtain u where u: "u \<in> set ws" "whole_file u" "x = (vw_base u, vw_end u)"
      using later_views_set [OF ws, THEN iffD1, OF x] by blast
    then have "vw_base v < vw_base u" using Cons.prems(2) by simp
    then show ?thesis
      using assms(1) Cons.prems(1) u whole by (auto simp: views_fit_def whole_file_def)
  qed
  then show ?case using Cons by auto
qed simp

lemma kept_block_iff:
  assumes "sorted_wrt (\<lambda>(b, e) (b', e'). b < b' \<and> e \<le> b') xs"
  shows "kept_block xs a \<longleftrightarrow> (\<forall>(b, e) \<in> set xs. \<not> (b \<le> a \<and> a < e))"
  using assms
proof (induction xs rule: rev_induct)
  case Nil
  then show ?case by (simp add: kept_block_def partition_point_def)
next
  case (snoc x xs)
  obtain b e where x: "x = (b, e)" by force
  have sorted: "sorted_wrt (\<lambda>(b, e) (b', e'). b < b' \<and> e \<le> b') xs" and below: "\<And>c d. (c, d) \<in> set xs \<Longrightarrow> c < b \<and> d \<le> b"
    using snoc.prems by (auto simp: x sorted_wrt_append)
  show ?case
  proof (cases "b \<le> a")
    case True
    then have all: "\<forall>y \<in> set xs. (case y of (c, d) \<Rightarrow> c \<le> a)" using below by fastforce
    then have "partition_point (\<lambda>(c, d). c \<le> a) (xs @ [x]) = Suc (length xs)"
      using True by (simp add: partition_point_def x takeWhile_append2 takeWhile_eq_all_conv [THEN iffD2])
    then have "kept_block (xs @ [x]) a \<longleftrightarrow> a \<ge> e" by (simp add: kept_block_def x)
    moreover have "\<forall>(c, d) \<in> set xs. \<not> (c \<le> a \<and> a < d)" using below True by fastforce
    ultimately show ?thesis using True by (auto simp: x)
  next
    case False
    have "takeWhile P (xs @ [x]) = takeWhile P xs" if "\<not> P x" for P :: "u64 \<times> u64 \<Rightarrow> bool"
      using that by (induction xs) simp_all
    then have "partition_point (\<lambda>(c, d). c \<le> a) (xs @ [x]) = partition_point (\<lambda>(c, d). c \<le> a) xs"
      using False by (simp add: partition_point_def x)
    moreover have "partition_point (\<lambda>(c, d). c \<le> a) xs \<le> length xs"
      by (simp add: partition_point_def length_takeWhile_le)
    ultimately have "kept_block (xs @ [x]) a \<longleftrightarrow> kept_block xs a"
      by (cases "partition_point (\<lambda>(c, d). c \<le> a) xs") (simp_all add: kept_block_def nth_append)
    then show ?thesis using snoc.IH [OF sorted] False by (auto simp: x)
  qed
qed

definition block_address :: "u64 \<Rightarrow> u64 \<Rightarrow> u64" where
  "block_address page block = drop_bit 12 block * page"

lemma count_blocks_exact:
  "count_blocks late excluded page i kept blocks = Some bytes \<Longrightarrow>
    unat bytes = unat kept + unat page * length (filter (\<lambda>b. kept_block excluded (block_address page b)) blocks)"
proof (induction blocks arbitrary: i kept)
  case (Cons b blocks)
  obtain address where a: "checked_mul (drop_bit 12 b) page = Some address" "address = block_address page b"
    using Cons.prems by (auto simp: checked_mul_def block_address_def split: if_splits option.splits)
  show ?case
  proof (cases "kept_block excluded address")
    case True
    then obtain kept' where k: "checked_add kept page = Some kept'" "count_blocks late excluded page (Suc i) kept' blocks = Some bytes"
      using Cons.prems a(1) by (auto split: if_splits option.splits)
    show ?thesis using Cons.IH [OF k(2)] checked_add_unat [OF k(1)] True a(2) by simp
  next
    case False
    then have "count_blocks late excluded page (Suc i) kept blocks = Some bytes"
      using Cons.prems a(1) by (auto split: if_splits)
    then show ?thesis using Cons.IH False a(2) by simp
  qed
qed simp

text \<open>A machine of two pages of memory, mapped twice.\<close>
definition twice_mapped :: process_memory where
  "twice_mapped = \<lparr>
    pm_region = (\<lambda>a. if a = 0 \<or> a = 4096
      then Some \<lparr>rn_base = a, rn_size = 4096, rn_mapped = True, rn_allocation = a, rn_protect = 4\<rparr> else None),
    pm_name = (\<lambda>_. (29, Some (HARDDISK_VOLUME @ ''3.vmem''))),
    pm_identity = (\<lambda>_. Some \<lparr>bk_volume = 1, bk_file = replicate 16 7, bk_bytes = 4096\<rparr>),
    pm_late = (\<lambda>_. False)\<rparr>"

lemma scan_regions_last:
  "0 < n \<Longrightarrow> maximum < sc_address s \<Longrightarrow>
    scan_regions pm maximum n s = Some (List.map_filter snd (sc_allocations s), sc_files s)"
  by (cases n) simp_all

lemma scan_regions_next:
  "0 < n \<Longrightarrow> \<not> maximum < sc_address s \<Longrightarrow> \<not> pm_late pm (n - 1) \<Longrightarrow> pm_region pm (sc_address s) = Some info \<Longrightarrow>
    checked_add (rn_base info) (rn_size info) = Some till \<Longrightarrow> sc_address s < till \<Longrightarrow>
    scan_region pm info till s = Some s' \<Longrightarrow> scan_regions pm maximum n s = scan_regions pm maximum (n - 1) s'"
  by (cases n) (auto simp: not_le)

lemma twice_mapped_views:
  "mappings twice_mapped 8191 = Some (
    [\<lparr>vw_base = 0, vw_end = 4096, vw_backing = \<lparr>bk_volume = 1, bk_file = replicate 16 7, bk_bytes = 4096\<rparr>, vw_complete = True\<rparr>,
     \<lparr>vw_base = 4096, vw_end = 8192, vw_backing = \<lparr>bk_volume = 1, bk_file = replicate 16 7, bk_bytes = 4096\<rparr>, vw_complete = True\<rparr>],
    [(HARDDISK_VOLUME @ ''3.vmem'', \<lparr>bk_volume = 1, bk_file = replicate 16 7, bk_bytes = 4096\<rparr>)])"
proof -
  have vmem: "ends_with (map ascii_lower (HARDDISK_VOLUME @ ''3.vmem'')) ''.vmem''" by code_simp
  have disk: "starts_with (HARDDISK_VOLUME @ ''3.vmem'') HARDDISK_VOLUME" by (simp add: starts_with_def)
  have through: "written_through 4" by code_simp
  let ?b = "\<lparr>bk_volume = 1, bk_file = replicate 16 7, bk_bytes = 4096\<rparr> :: backing"
  let ?r = "\<lambda>a. \<lparr>rn_base = a, rn_size = 4096, rn_mapped = True, rn_allocation = a, rn_protect = 4\<rparr> :: region"
  let ?p = "HARDDISK_VOLUME @ ''3.vmem''"
  let ?v = "\<lambda>a e. \<lparr>vw_base = a, vw_end = e, vw_backing = ?b, vw_complete = True\<rparr> :: view"
  let ?s1 = "\<lparr>sc_address = 4096, sc_allocations = [(0, Some (?v 0 4096))], sc_files = [(?p, ?b)]\<rparr> :: scan"
  let ?s2 = "\<lparr>sc_address = 8192, sc_allocations = [(0, Some (?v 0 4096)), (4096, Some (?v 4096 8192))],
      sc_files = [(?p, ?b)]\<rparr> :: scan"
  have one: "scan_region twice_mapped (?r 0) 4096 scan_start = Some ?s1"
    using vmem disk through
    by (simp add: scan_region_def scan_new_def scan_file_def scan_start_def twice_mapped_def FILES_def)
  have two: "scan_region twice_mapped (?r 4096) 8192 ?s1 = Some ?s2"
    using vmem disk through
    by (simp add: scan_region_def scan_new_def scan_file_def twice_mapped_def FILES_def)
  have "mappings twice_mapped 8191 = scan_regions twice_mapped 8191 (REGIONS - 1) ?s1"
    unfolding mappings_def
    by (rule scan_regions_next [OF _ _ _ _ _ _ one])
      (simp_all add: REGIONS_def scan_start_def twice_mapped_def checked_add_def)
  also have "\<dots> = scan_regions twice_mapped 8191 (REGIONS - 1 - 1) ?s2"
    by (rule scan_regions_next [OF _ _ _ _ _ _ two])
      (simp_all add: REGIONS_def twice_mapped_def checked_add_def)
  also have "\<dots> = Some ([?v 0 4096, ?v 4096 8192], [(?p, ?b)])"
    by (subst scan_regions_last) (simp_all add: REGIONS_def List.map_filter_simps)
  finally show ?thesis .
qed

text \<open>
  C27 Of the mappings of a machine's memory the scan found whole, those of a file that
  is mapped whole at a lower address are left out of the count, and nothing else is:
  the bytes told are a page for every block of the working set that lies in no such
  mapping, so what backs a machine counts once however often it is mapped.
\<close>
theorem a_file_counts_once:
  assumes "regions_by_page (unat page) pm" "unat page dvd 2 ^ 64"
    and "mappings pm maximum = Some (views, files)"
    and "count_blocks late (duplicates views) page 0 0 blocks = Some bytes"
  shows "unat bytes = unat page *
    length (filter (\<lambda>b. \<not> (\<exists>v \<in> set views. mapped_before views v \<and> inside v (block_address page b))) blocks)"
proof -
  have fit: "views_fit views" by (rule mappings_fit [OF assms(1-3)])
  then have sorted: "sorted_wrt (\<lambda>v u. vw_base v < vw_base u) views" by (simp add: views_fit_def)
  then have "sorted (map vw_base views)"
    by (simp add: sorted_map) (rule sorted_wrt_mono_rel, auto)
  then have d: "duplicates views = later_views [] views" by (simp add: duplicates_def sort_key_id_if_sorted)
  have kept: "kept_block (duplicates views) a \<longleftrightarrow> \<not> (\<exists>v \<in> set views. mapped_before views v \<and> inside v a)" for a
    unfolding d kept_block_iff [OF later_views_sorted [OF fit subset_refl sorted]]
    using later_views_set [OF sorted, where before = "[]"] by (fastforce simp: inside_def mapped_before_def)
  show ?thesis using count_blocks_exact [OF assms(4)] by (simp add: kept)
qed

theorem a_file_counts_once_witness:
  "unat (4096 :: u64) = unat (4096 :: u64) * length (filter (\<lambda>b. \<not> (\<exists>v \<in> set (fst (the (mappings twice_mapped 8191))).
      mapped_before (fst (the (mappings twice_mapped 8191))) v \<and> inside v (block_address 4096 b))) [0, 4096])"
proof -
  have page: "regions_by_page (unat (4096 :: u64)) twice_mapped"
    by (auto simp: regions_by_page_def twice_mapped_def split: if_splits)
  have counted: "count_blocks (\<lambda>_. False) (duplicates (fst (the (mappings twice_mapped 8191)))) 4096 0 0 [0, 4096] = Some 4096"
    by (simp add: twice_mapped_views duplicates_def whole_file_def checked_mul_def checked_add_def
        kept_block_def partition_point_def)
  show ?thesis
    by (rule a_file_counts_once [OF page _ _ counted, where maximum = 8191 and files = "snd (the (mappings twice_mapped 8191))"])
      (simp_all add: twice_mapped_views)
qed

end
