(* ===== verification/Process_Read.thy ===== *)
theory Process_Read
  imports Process_Table Text
begin

text \<open>
  What a process's handle, memory and token tell when a snapshot first lists it:
  \<^verbatim>\<open>read\<close> of \<^verbatim>\<open>crates/core/src/providers/process/mod.rs\<close>, \<^verbatim>\<open>probe\<close> of
  \<^verbatim>\<open>providers/process/passport.rs\<close> and the queries of \<^verbatim>\<open>providers/utils.rs\<close>. What
  Windows answers about an open handle is a record of answers.
\<close>

section \<open>Text in a buffer\<close>

definition le_word :: "u8 list \<Rightarrow> u64" where
  "le_word bytes = foldr (\<lambda>b n. ucast b + 256 * n) bytes 0"

definition UNICODE_STRING_SIZE :: nat where
  "UNICODE_STRING_SIZE = 16"

text \<open>\<^verbatim>\<open>Length\<close> of the \<^verbatim>\<open>UNICODE_STRING\<close> a buffer starts with, less an odd byte.\<close>
definition string_length :: "u8 list \<Rightarrow> nat" where
  "string_length buffer = unat (and (le_word (take 2 buffer)) (not 1))"

definition string_buffer :: "u8 list \<Rightarrow> u64" where
  "string_buffer buffer = le_word (take 8 (drop 8 buffer))"

text \<open>\<open>address\<close> is where the buffer lies.\<close>
definition unicode_string_in :: "u64 \<Rightarrow> u8 list \<Rightarrow> u16 list option" where
  "unicode_string_in address buffer =
    (if length buffer < UNICODE_STRING_SIZE then None
     else let len = string_length buffer
          in if len = 0 then Some []
             else if string_buffer buffer < address then None
             else let start = unat (string_buffer buffer - address)
                  in if start < UNICODE_STRING_SIZE \<or> start + len \<ge> 2 ^ 64 \<or> start + len > length buffer then None
                     else Some (le_units (take len (drop start buffer))))"

section \<open>A handle's queries\<close>

definition STATUS_BUFFER_TOO_SMALL :: i32 where
  "STATUS_BUFFER_TOO_SMALL = 0xC0000023"

definition STATUS_BUFFER_OVERFLOW :: i32 where
  "STATUS_BUFFER_OVERFLOW = 0x80000005"

text \<open>An answer to a query given room for so many bytes; \<open>nq_buffer\<close> is what the buffer holds then.\<close>
record nt_query =
  nq_status :: i32
  nq_needed :: u32
  nq_address :: u64
  nq_buffer :: "u8 list"

definition nt_error :: "i32 \<Rightarrow> bool" where
  "nt_error status \<longleftrightarrow> sint status < 0"

definition wants_more_room :: "nt_query \<Rightarrow> nat \<Rightarrow> bool" where
  "wants_more_room q words \<longleftrightarrow>
    nq_status q \<in> {STATUS_INFO_LENGTH_MISMATCH, STATUS_BUFFER_TOO_SMALL, STATUS_BUFFER_OVERFLOW} \<and>
    unat (nq_needed q) > words * 8"

text \<open>\<open>words\<close> is the length the scratch was left at; the second part is the one it is left at now.\<close>
definition query_command_line :: "(nat \<Rightarrow> nt_query) \<Rightarrow> nat \<Rightarrow> string option \<times> nat" where
  "query_command_line query words =
    (let words = (if words = 0 then 512 else words);
         q = query (words * 8);
         (q, words) = (if wants_more_room q words
           then let words = (unat (nq_needed q) + 7) div 8 in (query (words * 8), words)
           else (q, words))
     in (if nt_error (nq_status q) then None
         else map_option from_utf16_lossy (unicode_string_in (nq_address q) (nq_buffer q)), words))"

text \<open>\<open>argv\<close> is \<^verbatim>\<open>CommandLineToArgvW\<close>: None is null, an argument that is not text is None.\<close>
definition parse_cmd_line :: "(string \<Rightarrow> string option list option) \<Rightarrow> string \<Rightarrow> string list" where
  "parse_cmd_line argv cmd_line =
    (if trim cmd_line = '''' then []
     else case argv cmd_line of
            None \<Rightarrow> []
          | Some args \<Rightarrow> map (\<lambda>a. case a of None \<Rightarrow> '''' | Some t \<Rightarrow> t) args)"

text \<open>A query asked twice: for the length in units with the final NUL, then for the units.\<close>
record sized_query =
  sz_length :: u32
  sz_code :: i32
  sz_filled :: u32
  sz_units :: "u16 list"

definition sized_text :: "sized_query \<Rightarrow> string option" where
  "sized_text q =
    (if sz_length q = 0 \<or> sz_code q \<noteq> 0 then None
     else Some (from_utf16_lossy (take (unat (sz_filled q) - 1) (sz_units q))))"

definition get_process_package_info :: "sized_query \<Rightarrow> sized_query \<Rightarrow> (string \<times> string) option" where
  "get_process_package_info full_name aumid =
    (let package_full_name = sized_text full_name;
         package_relative_app_id = (case sized_text aumid of
             None \<Rightarrow> None
           | Some aumid \<Rightarrow>
               if CHR ''!'' \<in> set aumid then Some (tl (dropWhile (\<lambda>c. c \<noteq> CHR ''!'') aumid)) else None)
     in case (package_relative_app_id, package_full_name) of
          (Some relative, Some full) \<Rightarrow> Some (full, relative)
        | _ \<Rightarrow> None)"

text \<open>A path is asked for with room for so many units: the units, or the error code.\<close>
fun image_path_in :: "(nat \<Rightarrow> i32 + u16 list) \<Rightarrow> nat list \<Rightarrow> string option" where
  "image_path_in query [] = None"
| "image_path_in query (room # rooms) =
    (case query room of
       Inr units \<Rightarrow> Some (from_utf16_lossy units)
     | Inl code \<Rightarrow> if code \<noteq> 122 then None else image_path_in query rooms)"

definition query_image_path :: "(nat \<Rightarrow> i32 + u16 list) \<Rightarrow> string option" where
  "query_image_path query = image_path_in query [1024, 32 * 1024]"

definition console_host_from :: "u64 \<Rightarrow> u32" where
  "console_host_from value = (if and value 3 = 1 then ucast (and value (not 3)) else 0)"

definition query_console_host_pid :: "u64 option \<Rightarrow> u32" where
  "query_console_host_pid value = (case value of None \<Rightarrow> 0 | Some value \<Rightarrow> console_host_from value)"

section \<open>The passport\<close>

definition machine :: "u16 \<Rightarrow> architecture" where
  "machine image_machine =
    (if image_machine = 0x014c then X86
     else if image_machine = 0x8664 then X64
     else if image_machine = 0x01c4 then Arm
     else if image_machine = 0xaa64 then Arm64
     else ArchUnknown)"

text \<open>What \<^verbatim>\<open>IsWow64Process2\<close> and \<^verbatim>\<open>GetProcessInformation\<close> tell.\<close>
definition architecture_of :: "bool \<times> u16 \<times> u16 \<Rightarrow> u16 option \<Rightarrow> architecture" where
  "architecture_of wow64 info =
    (case wow64 of
       (ok, wow, native) \<Rightarrow>
         if ok \<and> wow \<noteq> 0 then machine wow
         else (case info of Some process_machine \<Rightarrow> machine process_machine | None \<Rightarrow> machine native))"

fun uac_virtualization_of :: "bool option \<Rightarrow> bool option \<Rightarrow> uac_virtualization" where
  "uac_virtualization_of (Some False) _ = UacNotAllowed"
| "uac_virtualization_of (Some True) (Some True) = UacEnabled"
| "uac_virtualization_of (Some True) (Some False) = UacDisabled"
| "uac_virtualization_of _ _ = UacUnknown"

fun isolation_of :: "bool option \<Rightarrow> bool \<Rightarrow> isolation" where
  "isolation_of (Some True) packaged = (if packaged then IsoUwp else IsoAppContainer)"
| "isolation_of (Some False) packaged = IsoNone"
| "isolation_of None packaged = IsoUnknown"

text \<open>Whether a context equals each known one; None is a null context.\<close>
datatype dpi_context = UnawareGdiScaled | PerMonitorAwareV2 | PerMonitorAware | SystemAware | Unaware

definition dpi_awareness_of :: "(dpi_context \<Rightarrow> bool) option \<Rightarrow> dpi_awareness" where
  "dpi_awareness_of context =
    (case context of
       None \<Rightarrow> DpiUnknown
     | Some is_known \<Rightarrow>
         (case find (\<lambda>(known, _). is_known known)
             [(UnawareGdiScaled, DpiUnawareGdiScaled), (PerMonitorAwareV2, DpiPerMonitorV2),
              (PerMonitorAware, DpiPerMonitor), (SystemAware, DpiSystem), (Unaware, DpiUnaware)] of
            None \<Rightarrow> DpiUnknown
          | Some (_, awareness) \<Rightarrow> awareness))"

definition stack_protection_of :: "u32 \<Rightarrow> stack_protection" where
  "stack_protection_of flags =
    (let strict = and flags 16 \<noteq> 0
     in if and flags 1 \<noteq> 0 then (if strict then StackStrict else StackCompatible)
        else if and flags 2 \<noteq> 0 then (if strict then StackStrictAudit else StackCompatibleAudit)
        else StackOff)"

definition extended_cfg_of :: "u32 \<Rightarrow> extended_cfg" where
  "extended_cfg_of flags =
    (if and flags 8 \<noteq> 0 then XfgOn else if and flags 16 \<noteq> 0 then XfgAudit else XfgOff)"

text \<open>The flags of the three mitigation policies, where they can be read.\<close>
definition mitigations_of :: "u32 option \<Rightarrow> u32 option \<Rightarrow> u32 option \<Rightarrow> architecture \<Rightarrow> mitigations option" where
  "mitigations_of dep cfg shadow architecture =
    (let always_dep = architecture \<in> {X64, Arm64};
         dep = (case dep of Some flags \<Rightarrow> Some flags | None \<Rightarrow> if always_dep then Some 1 else None)
     in if dep = None \<and> cfg = None \<and> shadow = None then None
        else Some \<lparr>mit_dep = map_option (\<lambda>flags. and flags 1 \<noteq> 0) dep,
          mit_stack_protection = (case shadow of None \<Rightarrow> StackUnknown | Some flags \<Rightarrow> stack_protection_of flags),
          mit_extended_cfg = (case cfg of None \<Rightarrow> XfgUnknown | Some flags \<Rightarrow> extended_cfg_of flags)\<rparr>)"

text \<open>What an open handle and its token answer.\<close>
record process_token =
  tk_user :: "u8 list option"
  tk_app_container :: "bool option"
  tk_elevation :: "bool option"
  tk_virtualization_allowed :: "bool option"
  tk_virtualization_enabled :: "bool option"

record process_handle =
  ph_sequence_number :: "u64 option"
  ph_command_line :: "nat \<Rightarrow> nt_query"
  ph_image_path :: "nat \<Rightarrow> i32 + u16 list"
  ph_package_full_name :: sized_query
  ph_aumid :: sized_query
  ph_console_host :: "u64 option"
  ph_token :: "process_token option"
  ph_wow64 :: "bool \<times> u16 \<times> u16"
  ph_machine :: "u16 option"
  ph_dpi :: "(dpi_context \<Rightarrow> bool) option"
  ph_dep :: "u32 option"
  ph_cfg :: "u32 option"
  ph_shadow_stack :: "u32 option"

text \<open>What names an account: its domain and name, as \<^verbatim>\<open>LookupAccountSidW\<close> writes them.\<close>
definition lookup_account :: "(u8 list \<Rightarrow> (u16 list \<times> u16 list) option) \<Rightarrow> u8 list \<Rightarrow> string option" where
  "lookup_account lookup sid =
    (case lookup sid of
       None \<Rightarrow> None
     | Some (domain, name) \<Rightarrow>
         (let domain = from_utf16_lossy domain; name = from_utf16_lossy name
          in Some (if domain = '''' then name else domain @ CHR 0x5C # name)))"

type_synonym sid_names = "(u8 list, string) hashmap"

definition sid_name :: "(u8 list \<Rightarrow> (u16 list \<times> u16 list) option) \<Rightarrow> u8 list \<Rightarrow> sid_names \<Rightarrow> string \<times> sid_names" where
  "sid_name lookup sid names =
    (case hm_get names sid of
       Some name \<Rightarrow> (name, names)
     | None \<Rightarrow>
         (let name = (case lookup_account lookup sid of None \<Rightarrow> '''' | Some name \<Rightarrow> name)
          in (name, hm_put sid name names)))"

definition user_name :: "(u8 list \<Rightarrow> (u16 list \<times> u16 list) option) \<Rightarrow> u8 list option \<Rightarrow> sid_names \<Rightarrow> string \<times> sid_names" where
  "user_name lookup sid names = (case sid of None \<Rightarrow> ('''', names) | Some sid \<Rightarrow> sid_name lookup sid names)"

definition token_passport_default :: token_passport where
  "token_passport_default = \<lparr>pp_user = '''', pp_architecture = ArchUnknown, pp_elevated = None,
     pp_uac_virtualization = UacUnknown, pp_isolation = IsoUnknown, pp_dpi_awareness = DpiUnknown, pp_mitigations = None\<rparr>"

definition passport_probe ::
    "(u8 list \<Rightarrow> (u16 list \<times> u16 list) option) \<Rightarrow> process_handle option \<Rightarrow> u8 list option \<Rightarrow> bool \<Rightarrow> sid_names \<Rightarrow>
      token_passport \<times> sid_names" where
  "passport_probe lookup process sid packaged names =
    (case process of
       None \<Rightarrow>
         (let (user, names) = user_name lookup sid names
          in (token_passport_default\<lparr>pp_user := user\<rparr>, names))
     | Some h \<Rightarrow>
         (let token = ph_token h;
              sid = (case sid of Some sid \<Rightarrow> Some sid | None \<Rightarrow> Option.bind token tk_user);
              app_container = Option.bind token tk_app_container;
              architecture = architecture_of (ph_wow64 h) (ph_machine h);
              (user, names) = user_name lookup sid names
          in (\<lparr>pp_user = user, pp_architecture = architecture,
                pp_elevated = Option.bind token tk_elevation,
                pp_uac_virtualization = (case token of None \<Rightarrow> UacUnknown
                  | Some t \<Rightarrow> uac_virtualization_of (tk_virtualization_allowed t) (tk_virtualization_enabled t)),
                pp_isolation = isolation_of app_container packaged,
                pp_dpi_awareness = dpi_awareness_of (ph_dpi h),
                pp_mitigations = mitigations_of (ph_dep h) (ph_cfg h) (ph_shadow_stack h) architecture\<rparr>, names)))"

section \<open>Reading a process\<close>

text \<open>What \<^verbatim>\<open>read\<close> keeps from one process to the next: the scratch's length and the names.\<close>
record readers =
  rs_words :: nat
  rs_names :: sid_names

text \<open>The handle, if it is one of the process that was listed.\<close>
definition handle_of :: "process_handle option \<Rightarrow> u64 \<Rightarrow> process_handle option" where
  "handle_of opened sequence_number =
    (case opened of
       None \<Rightarrow> None
     | Some h \<Rightarrow>
         (case ph_sequence_number h of
            None \<Rightarrow> Some h
          | Some n \<Rightarrow> if n = sequence_number then Some h else None))"

definition read_process ::
    "(string \<Rightarrow> string option list option) \<Rightarrow> (u8 list \<Rightarrow> (u16 list \<times> u16 list) option) \<Rightarrow>
      process_handle option \<Rightarrow> u64 \<Rightarrow> u8 list option \<Rightarrow> string \<times> string \<Rightarrow> readers \<Rightarrow> process_read \<times> readers" where
  "read_process argv lookup opened sequence_number listed_sid package s =
    (let h = handle_of opened sequence_number;
         (line, words) = (case h of None \<Rightarrow> (None, rs_words s) | Some h \<Rightarrow> query_command_line (ph_command_line h) (rs_words s));
         (full_name, relative) = (case Option.bind h (\<lambda>h. get_process_package_info (ph_package_full_name h) (ph_aumid h)) of
             Some p \<Rightarrow> p | None \<Rightarrow> package);
         (passport, names) = passport_probe lookup h listed_sid (full_name \<noteq> '''') (rs_names s)
     in (\<lparr>rd_command_line = (case line of None \<Rightarrow> [] | Some line \<Rightarrow> parse_cmd_line argv line),
          rd_image_path = (case Option.bind h (\<lambda>h. query_image_path (ph_image_path h)) of None \<Rightarrow> '''' | Some path \<Rightarrow> path),
          rd_package_full_name = full_name, rd_package_relative_app_id = relative,
          rd_console_host_pid = (case h of None \<Rightarrow> 0 | Some h \<Rightarrow> query_console_host_pid (ph_console_host h)),
          rd_passport = passport\<rparr>, \<lparr>rs_words = words, rs_names = names\<rparr>))"

section \<open>What a read tells\<close>

text \<open>Text is never taken from outside the buffer, nor from the structure in front of it.\<close>
lemma text_stays_in_the_buffer:
  assumes "unicode_string_in address buffer = Some units" "units \<noteq> []"
  shows "\<exists>start. UNICODE_STRING_SIZE \<le> start \<and> start + string_length buffer \<le> length buffer \<and>
    units = le_units (take (string_length buffer) (drop start buffer))"
  using assms
  by (intro exI [where x = "unat (string_buffer buffer - address)"])
    (auto simp: unicode_string_in_def Let_def not_less split: if_splits)

lemma length_le_units: "length (le_units bytes) = length bytes div 2"
  by (induction bytes rule: le_units.induct) simp_all

text \<open>The query grows its room to what was asked for, once.\<close>
lemma command_line_room:
  "snd (query_command_line query words) \<ge> words"
  by (auto simp: query_command_line_def wants_more_room_def Let_def split: if_splits)

text \<open>A handle to another process than the one listed tells nothing: neither do a pid that was reused.\<close>
lemma a_reused_pid_reads_nothing:
  assumes "ph_sequence_number h = Some n" "n \<noteq> sequence_number"
  shows "read_process argv lookup (Some h) sequence_number listed_sid package s =
    read_process argv lookup None sequence_number listed_sid package s"
  using assms by (simp add: read_process_def handle_of_def)

lemma unread_process:
  "read_process argv lookup None sequence_number listed_sid package s =
    (let (user, names) = user_name lookup listed_sid (rs_names s)
     in (\<lparr>rd_command_line = [], rd_image_path = '''', rd_package_full_name = fst package,
          rd_package_relative_app_id = snd package, rd_console_host_pid = 0,
          rd_passport = token_passport_default\<lparr>pp_user := user\<rparr>\<rparr>, s\<lparr>rs_names := names\<rparr>))"
  by (simp add: read_process_def handle_of_def passport_probe_def split: prod.splits)

text \<open>The names stay those first looked up.\<close>
lemma sid_name_again:
  "sid_name lookup sid names = (name, names') \<Longrightarrow> sid_name lookup' sid names' = (name, names')"
  by (auto simp: sid_name_def Let_def hm split: option.splits)

end
