(* ===== verification/Images.thy ===== *)
theory Images
  imports Process_Read
begin

text \<open>
  Which program an image is and who signed it: \<^verbatim>\<open>Images\<close> of
  \<^verbatim>\<open>crates/core/src/providers/process/mod.rs\<close>, the store of verdicts in
  \<^verbatim>\<open>signature_cache.rs\<close>, \<^verbatim>\<open>check_signer\<close> of \<^verbatim>\<open>providers/utils.rs\<close> and the names of
  \<^verbatim>\<open>providers/display_name.rs\<close>. What Windows answers at one moment is a record; the
  store is a map from paths whose insertions may fail.
\<close>

section \<open>Who signed a file\<close>

text \<open>
  The first signer of a file or catalog that verified: its subject, and what the
  policy check of its chain answers for each flags: whether it ran, and its error.
\<close>
record signer =
  sn_subject :: "string option"
  sn_chain :: "(u32 \<Rightarrow> bool \<times> u32) option"

definition CHECK_APPLICATION_ROOT :: u32 where
  "CHECK_APPLICATION_ROOT = 131072"

definition roots_at_microsoft :: "(u32 \<Rightarrow> bool \<times> u32) option \<Rightarrow> bool" where
  "roots_at_microsoft chain =
    (case chain of
       None \<Rightarrow> False
     | Some policy \<Rightarrow> list_ex (\<lambda>flags. fst (policy flags) \<and> snd (policy flags) = 0) [0, CHECK_APPLICATION_ROOT])"

definition signer_verdict :: "signer option \<Rightarrow> process_signature \<times> string option" where
  "signer_verdict signer =
    (case signer of
       None \<Rightarrow> (SigUnknown, None)
     | Some s \<Rightarrow> (if roots_at_microsoft (sn_chain s) then SigMicrosoft else SigThirdParty, sn_subject s))"

text \<open>
  The trust provider: what it says of a file, and of a member of a catalog by its tag;
  the hash of a file that can be read, and the first catalog that lists a hash.
\<close>
record trust =
  tr_verify :: "string \<Rightarrow> i32 \<times> signer option"
  tr_hash :: "string \<Rightarrow> u8 list option"
  tr_catalog :: "u8 list \<Rightarrow> string option"
  tr_member :: "string \<Rightarrow> string \<Rightarrow> string \<Rightarrow> i32 \<times> signer option"

definition TRUST_E_NOSIGNATURE :: i32 where
  "TRUST_E_NOSIGNATURE = 0x800B0100"

definition TRUST_E_SUBJECT_FORM_UNKNOWN :: i32 where
  "TRUST_E_SUBJECT_FORM_UNKNOWN = 0x800B0003"

definition hex_digit :: "nat \<Rightarrow> char" where
  "hex_digit n = char_of (if n < 10 then 48 + n else 55 + n)"

definition hex_tag :: "u8 list \<Rightarrow> string" where
  "hex_tag hash = concat (map (\<lambda>b. [hex_digit (unat b div 16), hex_digit (unat b mod 16)]) hash)"

definition catalog_signature :: "trust \<Rightarrow> string \<Rightarrow> (process_signature \<times> string option) option" where
  "catalog_signature tr path =
    (case tr_hash tr path of
       None \<Rightarrow> None
     | Some hash \<Rightarrow>
         (case tr_catalog tr hash of
            None \<Rightarrow> None
          | Some catalog \<Rightarrow>
              (let (status, signer) = tr_member tr catalog (hex_tag hash) path
               in if status = 0 then Some (signer_verdict signer) else None)))"

definition check_signer :: "trust \<Rightarrow> string \<Rightarrow> process_signature \<times> string option" where
  "check_signer tr path =
    (let (status, signer) = tr_verify tr path
     in if status = 0 then signer_verdict signer
        else if status = TRUST_E_NOSIGNATURE \<or> status = TRUST_E_SUBJECT_FORM_UNKNOWN
        then (case catalog_signature tr path of Some v \<Rightarrow> v | None \<Rightarrow> (SigUnsigned, None))
        else (SigUnknown, None))"

definition is_windows_process :: "bool \<Rightarrow> process_signature \<Rightarrow> bool" where
  "is_windows_process is_kernel signature \<longleftrightarrow> is_kernel \<or> signature = SigMicrosoft"

section \<open>Packages\<close>

text \<open>
  An element of a manifest: its local name, its attributes, the text it starts with and
  its children.
\<close>
datatype element = Element (el_name: string) (el_attributes: "(string \<times> string) list")
  (el_text: "string option") (el_children: "element list")

fun descendants :: "element \<Rightarrow> element list" where
  "descendants (Element n as t cs) = Element n as t cs # concat (map descendants cs)"

text \<open>What Windows knows of packages, and what it answers for one by its full name.\<close>
record packages =
  pk_publisher :: "string \<Rightarrow> string option"
  pk_origin :: "string \<Rightarrow> i32 \<times> i32"
  pk_installed_path :: "string \<Rightarrow> string option"
  pk_staged_path :: "string \<Rightarrow> string option"
  pk_base_name :: "string \<Rightarrow> string option"
  pk_manifest :: "string \<Rightarrow> element option"
  pk_indirect :: "string \<Rightarrow> u16 list option"

definition MICROSOFT_PUBLISHERS :: "string list" where
  "MICROSOFT_PUBLISHERS =
    [''CN=Microsoft Corporation, O=Microsoft Corporation, L=Redmond, S=Washington, C=US'',
     ''CN=Microsoft Windows, O=Microsoft Corporation, L=Redmond, S=Washington, C=US'']"

definition package_publisher :: "packages \<Rightarrow> string \<Rightarrow> string option" where
  "package_publisher pk full_name =
    (case pk_publisher pk full_name of
       None \<Rightarrow> None
     | Some p \<Rightarrow> if p = '''' then None else Some p)"

definition package_from_windows_or_store :: "packages \<Rightarrow> string \<Rightarrow> bool" where
  "package_from_windows_or_store pk full_name =
    (let (status, origin) = pk_origin pk full_name in status = 0 \<and> (origin = 2 \<or> origin = 3))"

definition package_signature :: "packages \<Rightarrow> string \<Rightarrow> process_signature option" where
  "package_signature pk full_name =
    (case package_publisher pk full_name of
       None \<Rightarrow> None
     | Some publisher \<Rightarrow>
         Some (if publisher \<in> set MICROSOFT_PUBLISHERS \<and> package_from_windows_or_store pk full_name
               then SigMicrosoft else SigThirdParty))"

definition signature_of :: "trust \<Rightarrow> packages \<Rightarrow> string \<Rightarrow> string \<Rightarrow> process_signature \<times> string option" where
  "signature_of tr pk image_path full_name =
    (let (signature, signer) = check_signer tr image_path
     in if signature \<noteq> SigUnsigned \<or> full_name = '''' then (signature, signer)
        else (case package_signature pk full_name of
                Some signature \<Rightarrow> (signature, None)
              | None \<Rightarrow> (signature, signer)))"

section \<open>Names\<close>

fun find_map :: "('a \<Rightarrow> 'b option) \<Rightarrow> 'a list \<Rightarrow> 'b option" where
  "find_map f [] = None"
| "find_map f (x # xs) = (case f x of Some y \<Rightarrow> Some y | None \<Rightarrow> find_map f xs)"

definition non_empty :: "string \<Rightarrow> string option" where
  "non_empty t = (if t = '''' then None else Some t)"

definition package_path :: "packages \<Rightarrow> string \<Rightarrow> string option" where
  "package_path pk full_name =
    (case pk_installed_path pk full_name of Some path \<Rightarrow> Some path | None \<Rightarrow> pk_staged_path pk full_name)"

text \<open>A byte that starts a character.\<close>
definition is_char_boundary :: "string \<Rightarrow> nat \<Rightarrow> bool" where
  "is_char_boundary t i \<longleftrightarrow> i = length t \<or> i < length t \<and> \<not> (128 \<le> (of_char (t ! i) :: nat) \<and> (of_char (t ! i) :: nat) < 192)"

definition is_inside :: "string \<Rightarrow> string \<Rightarrow> bool" where
  "is_inside path dir =
    (let dir = trim_end_matches [[CHR 0x5C], ''/''] dir
     in if dir = '''' \<or> length path \<le> length dir \<or> \<not> is_char_boundary path (length dir) then False
        else eq_ignore_ascii_case (take (length dir) path) dir \<and>
          (let tail = drop (length dir) path in starts_with tail [CHR 0x5C] \<or> starts_with tail ''/''))"

definition manifest_display_name :: "element \<Rightarrow> string \<Rightarrow> string option" where
  "manifest_display_name doc app =
    (let from_application =
           Option.bind (find (\<lambda>n. el_name n = ''Application'' \<and> map_of (el_attributes n) ''Id'' = Some app) (descendants doc))
             (\<lambda>a. Option.bind (find (\<lambda>n. el_name n = ''VisualElements'') (descendants a))
               (\<lambda>visual. map_of (el_attributes visual) ''DisplayName''));
         from_package =
           Option.bind (find (\<lambda>n. el_name n = ''Properties'') (descendants doc))
             (\<lambda>props. Option.bind (find (\<lambda>c. el_name c = ''DisplayName'') (el_children props)) el_text)
     in Option.bind (case from_application of Some name \<Rightarrow> Some name | None \<Rightarrow> from_package)
          (\<lambda>name. non_empty (trim name)))"

definition SCHEME :: string where
  "SCHEME = ''ms-resource:''"

text \<open>A text that starts with the scheme has a character start after it.\<close>
definition resource_uris :: "string \<Rightarrow> string \<Rightarrow> string list option" where
  "resource_uris v package_name =
    (if length v < length SCHEME \<or> \<not> eq_ignore_ascii_case (take (length SCHEME) v) SCHEME then None
     else let tail = drop (length SCHEME) v
          in Some (map (\<lambda>path. SCHEME @ path)
              (case strip_prefix tail ''//'' of
                 Some authority \<Rightarrow>
                   if starts_with authority ''/'' then [''//'' @ package_name @ authority] else [''//'' @ authority]
               | None \<Rightarrow>
                   if starts_with tail ''/'' then [''//'' @ package_name @ tail]
                   else [''//'' @ package_name @ ''/Resources/'' @ tail, ''//'' @ package_name @ ''/'' @ tail])))"

definition shown_text :: "u16 list \<Rightarrow> string" where
  "shown_text units = trim (trim_matches [[char_of (0 :: nat)]] (from_utf16_lossy units))"

definition load_indirect :: "packages \<Rightarrow> string \<Rightarrow> string \<Rightarrow> string option" where
  "load_indirect pk full_name uri =
    (case pk_indirect pk (CHR ''@'' # CHR ''{'' # full_name @ ''?'' @ uri @ ''}'') of
       None \<Rightarrow> None
     | Some units \<Rightarrow>
         (let resolved = shown_text units
          in if resolved \<noteq> '''' \<and> \<not> starts_with resolved ''@'' then Some resolved else None))"

text \<open>A name of the manifest: a reference looked up, or the name itself.\<close>
definition declared_name :: "packages \<Rightarrow> string \<Rightarrow> string \<Rightarrow> string \<Rightarrow> string option" where
  "declared_name pk full_name base v =
    (case resource_uris v base of
       Some uris \<Rightarrow> find_map (load_indirect pk full_name) uris
     | None \<Rightarrow> Some v)"

definition package_display_name :: "packages \<Rightarrow> string \<Rightarrow> string \<Rightarrow> string \<Rightarrow> string option" where
  "package_display_name pk full_name dir app =
    (case pk_base_name pk full_name of
       None \<Rightarrow> None
     | Some base \<Rightarrow>
         (case Option.bind (pk_manifest pk dir) (\<lambda>doc. manifest_display_name doc app) of
            Some v \<Rightarrow> declared_name pk full_name base v
          | None \<Rightarrow> load_indirect pk full_name (''ms-resource://'' @ base @ ''/resources/AppName'')))"

definition package_publisher_display_name :: "packages \<Rightarrow> string \<Rightarrow> string option" where
  "package_publisher_display_name pk full_name =
    (case (package_path pk full_name, pk_base_name pk full_name) of
       (Some dir, Some base) \<Rightarrow>
         Option.bind (pk_manifest pk dir)
           (\<lambda>doc. Option.bind (find (\<lambda>n. el_name n = ''Properties'') (descendants doc))
             (\<lambda>props. Option.bind (find (\<lambda>c. el_name c = ''PublisherDisplayName'') (el_children props))
               (\<lambda>name. Option.bind (el_text name)
                 (\<lambda>t. Option.bind (non_empty (trim t)) (declared_name pk full_name base)))))
     | _ \<Rightarrow> None)"

text \<open>What the version resource and the shell call a file.\<close>
record file_names =
  fn_description :: "string \<Rightarrow> string option"
  fn_shell :: "string \<Rightarrow> u16 list"

definition file_description :: "file_names \<Rightarrow> string \<Rightarrow> string option" where
  "file_description fnm image_path = Option.bind (fn_description fnm image_path) (\<lambda>t. non_empty (trim t))"

definition shell_display_name :: "file_names \<Rightarrow> string \<Rightarrow> string option" where
  "shell_display_name fnm image_path = non_empty (shown_text (fn_shell fnm image_path))"

definition package_name_of :: "packages \<Rightarrow> string \<Rightarrow> string \<Rightarrow> string \<Rightarrow> string option" where
  "package_name_of pk image_path full_name app =
    (if full_name = '''' then None
     else case package_path pk full_name of
            None \<Rightarrow> None
          | Some dir \<Rightarrow> if is_inside image_path dir then package_display_name pk full_name dir app else None)"

definition resolve_name :: "packages \<Rightarrow> file_names \<Rightarrow> string \<Rightarrow> string \<Rightarrow> string \<Rightarrow> string option" where
  "resolve_name pk fnm image_path full_name app =
    (case package_name_of pk image_path full_name app of
       Some name \<Rightarrow> Some name
     | None \<Rightarrow>
         if image_path = '''' then None
         else (case file_description fnm image_path of
                 Some name \<Rightarrow> Some name
               | None \<Rightarrow> shell_display_name fnm image_path))"

section \<open>The stamp of a file\<close>

record stamp =
  st_size :: u64
  st_modified_ms :: u64
  st_file_id :: "u64 \<times> u64"
  st_usn :: u64

text \<open>What a handle on a file answers: its length, its time, its id and the record of its last change.\<close>
record file_answers =
  fa_length :: u64
  fa_modified_ms :: "u64 option"
  fa_id :: "u8 list option"
  fa_usn_record :: "u8 list option"

definition last_usn :: "u8 list option \<Rightarrow> u64 option" where
  "last_usn record =
    (case record of
       None \<Rightarrow> None
     | Some bytes \<Rightarrow>
         (case slice_get bytes 4 6 of
            None \<Rightarrow> None
          | Some version \<Rightarrow>
              (let at = (if le_word version = 2 then Some 24 else if le_word version = 3 then Some 40 else None)
               in case at of
                    None \<Rightarrow> None
                  | Some at \<Rightarrow> map_option le_word (slice_get bytes at (at + 8)))))"

definition file_stamp :: "file_answers option \<Rightarrow> stamp option" where
  "file_stamp opened =
    (case opened of
       None \<Rightarrow> None
     | Some f \<Rightarrow>
         (case (fa_modified_ms f, fa_id f) of
            (Some modified_ms, Some bytes) \<Rightarrow>
              Some \<lparr>st_size = fa_length f, st_modified_ms = modified_ms,
                st_file_id = (le_word (take 8 bytes), le_word (take 8 (drop 8 bytes))),
                st_usn = (case last_usn (fa_usn_record f) of None \<Rightarrow> 0 | Some usn \<Rightarrow> usn)\<rparr>
          | _ \<Rightarrow> None))"

section \<open>The store of verdicts\<close>

definition RESOLVER :: u32 where
  "RESOLVER = 7"

record cached_verdict =
  cv_signature :: u8
  cv_is_windows_process :: bool
  cv_display_name :: string
  cv_signer :: string
  cv_size :: u64
  cv_modified_ms :: u64
  cv_resolver :: u32
  cv_file_id :: "u64 \<times> u64"
  cv_usn :: u64

fun signature_to_code :: "process_signature \<Rightarrow> u8" where
  "signature_to_code SigUnknown = 0"
| "signature_to_code SigUnsigned = 1"
| "signature_to_code SigMicrosoft = 2"
| "signature_to_code SigThirdParty = 3"

definition signature_from_code :: "u8 \<Rightarrow> process_signature" where
  "signature_from_code code =
    (if code = 1 then SigUnsigned else if code = 2 then SigMicrosoft else if code = 3 then SigThirdParty else SigUnknown)"

lemma signature_code_roundtrip [simp]: "signature_from_code (signature_to_code s) = s"
  by (cases s) (simp_all add: signature_from_code_def)

text \<open>Whether a stored verdict still answers for a file.\<close>
definition describes :: "cached_verdict \<Rightarrow> stamp \<Rightarrow> bool" where
  "describes v stamp \<longleftrightarrow>
    st_usn stamp \<noteq> 0 \<and> cv_size v = st_size stamp \<and> cv_modified_ms v = st_modified_ms stamp \<and>
    cv_file_id v = st_file_id stamp \<and> cv_usn v = st_usn stamp \<and> cv_resolver v = RESOLVER"

type_synonym verdict_store = "(string, cached_verdict) hashmap"

definition lookup_verdict :: "verdict_store \<Rightarrow> string \<Rightarrow> stamp \<Rightarrow> cached_verdict option" where
  "lookup_verdict store path stamp =
    (case hm_get store path of
       None \<Rightarrow> None
     | Some cached \<Rightarrow> if describes cached stamp then Some cached else None)"

text \<open>An insertion the store refuses is only logged.\<close>
definition remember_verdict :: "bool \<Rightarrow> string \<Rightarrow> cached_verdict \<Rightarrow> verdict_store \<Rightarrow> verdict_store" where
  "remember_verdict taken path v store = (if taken then hm_put path v store else store)"

section \<open>Judging an image\<close>

text \<open>The machine at the moment an image is judged.\<close>
record machine_now =
  mn_drive_type :: "char \<Rightarrow> i32"
  mn_exists :: "string \<Rightarrow> bool"
  mn_opened :: "string \<Rightarrow> file_answers option"
  mn_trust :: trust
  mn_packages :: packages
  mn_names :: file_names
  mn_store_takes :: bool

definition BACKSLASH :: char where
  "BACKSLASH = CHR 0x5C"

definition MUP :: string where
  "MUP = BACKSLASH # ''device'' @ BACKSLASH # ''mup''"

definition is_remote :: "(char \<Rightarrow> i32) \<Rightarrow> string \<Rightarrow> bool" where
  "is_remote drive_type path =
    (let lower = to_ascii_lowercase path;
         verbatim = (case strip_prefix lower [BACKSLASH, BACKSLASH, CHR ''?'', BACKSLASH] of
             Some tail \<Rightarrow> Some tail
           | None \<Rightarrow> strip_prefix lower [BACKSLASH, BACKSLASH, CHR ''.'', BACKSLASH])
     in case verbatim of
          Some tail \<Rightarrow> starts_with tail (''unc'' @ [BACKSLASH]) \<or> starts_with tail (''globalroot'' @ MUP)
        | None \<Rightarrow>
            if starts_with lower [BACKSLASH, BACKSLASH] \<or> starts_with lower MUP then True
            else (case lower of
                    letter # colon # _ \<Rightarrow>
                      colon = CHR '':'' \<and> is_ascii_alphabetic letter \<and> drive_type letter = 4
                  | _ \<Rightarrow> False))"

type_synonym judged_verdicts = "(string, stamp \<times> image_verdict) hashmap"

text \<open>What is looked up without any store: the signature, the signer's name and the name.\<close>
definition look_up_image :: "machine_now \<Rightarrow> image_request \<Rightarrow> process_signature \<times> string \<times> string" where
  "look_up_image w rq =
    (let (signature, signer) = signature_of (mn_trust w) (mn_packages w) (iq_path rq) (iq_package_full_name rq);
         name = resolve_name (mn_packages w) (mn_names w) (iq_path rq) (iq_package_full_name rq) (iq_package_relative_app_id rq)
     in (signature, case signer of None \<Rightarrow> '''' | Some s \<Rightarrow> s, case name of None \<Rightarrow> '''' | Some n \<Rightarrow> n))"

definition publisher_of :: "machine_now \<Rightarrow> image_request \<Rightarrow> string \<Rightarrow> string" where
  "publisher_of w rq signer =
    (if iq_package_full_name rq = '''' then signer
     else case package_publisher_display_name (mn_packages w) (iq_package_full_name rq) of
            None \<Rightarrow> '''' | Some name \<Rightarrow> name)"

definition judge_afresh :: "machine_now \<Rightarrow> image_request \<Rightarrow> stamp option \<Rightarrow> verdict_store option \<Rightarrow> image_verdict \<times> verdict_store option" where
  "judge_afresh w rq stamp store =
    (let hit = (case (stamp, store) of
             (Some stamp, Some store) \<Rightarrow> lookup_verdict store (iq_path rq) stamp
           | _ \<Rightarrow> None);
         (signature, is_windows, name, signer, store) = (case hit of
             Some hit \<Rightarrow>
               (signature_from_code (cv_signature hit), cv_is_windows_process hit, cv_display_name hit, cv_signer hit, store)
           | None \<Rightarrow>
               (let (signature, signer, name) = look_up_image w rq;
                    is_windows = is_windows_process False signature;
                    store = (case (stamp, store) of
                        (Some stamp, Some store) \<Rightarrow>
                          Some (remember_verdict (mn_store_takes w) (iq_path rq)
                            \<lparr>cv_signature = signature_to_code signature, cv_is_windows_process = is_windows,
                             cv_display_name = name, cv_signer = signer, cv_size = st_size stamp,
                             cv_modified_ms = st_modified_ms stamp, cv_resolver = RESOLVER,
                             cv_file_id = st_file_id stamp, cv_usn = st_usn stamp\<rparr> store)
                      | _ \<Rightarrow> store)
                in (signature, is_windows, name, signer, store)))
     in (\<lparr>iv_signature = signature, iv_is_windows_process = is_windows, iv_display_name = name,
          iv_publisher = publisher_of w rq signer\<rparr>, store))"

text \<open>The stamp is read before the image is judged.\<close>
definition judge_image ::
    "machine_now \<Rightarrow> image_request \<Rightarrow> verdict_store option \<times> judged_verdicts \<Rightarrow> image_verdict \<times> verdict_store option \<times> judged_verdicts" where
  "judge_image w rq s =
    (let (store, judged_before) = s; path = iq_path rq
     in if is_remote (mn_drive_type w) path \<or> \<not> mn_exists w path then (image_verdict_default, s)
        else (let stamp = file_stamp (mn_opened w path);
                  known = (case stamp of
                      None \<Rightarrow> None
                    | Some stamp \<Rightarrow>
                        (case hm_get judged_before path of
                           None \<Rightarrow> None
                         | Some (before, verdict) \<Rightarrow> if before = stamp then Some verdict else None))
              in case known of
                   Some verdict \<Rightarrow> (verdict, s)
                 | None \<Rightarrow>
                     (let (verdict, store) = judge_afresh w rq stamp store
                      in (verdict, store, case stamp of
                            None \<Rightarrow> judged_before
                          | Some stamp \<Rightarrow> hm_put path (stamp, verdict) judged_before))))"

text \<open>The worker: the requests it took before it was told to stop, each at its moment.\<close>
fun judge_all ::
    "(machine_now \<times> image_request) list \<Rightarrow> verdict_store option \<times> judged_verdicts \<Rightarrow>
      image list \<times> verdict_store option \<times> judged_verdicts" where
  "judge_all [] s = ([], s)"
| "judge_all ((w, rq) # rest) s =
    (let (verdict, s) = judge_image w rq s; (images, s) = judge_all rest s
     in (\<lparr>im_path = iq_path rq, im_verdict = verdict\<rparr> # images, s))"

section \<open>What a remembered verdict is of\<close>

definition stamp_at :: "machine_now \<times> image_request \<Rightarrow> stamp option" where
  "stamp_at m = file_stamp (mn_opened (fst m) (iq_path (snd m)))"

text \<open>The image is a file of this machine that is there.\<close>
definition is_here :: "machine_now \<times> image_request \<Rightarrow> bool" where
  "is_here m \<longleftrightarrow> \<not> is_remote (mn_drive_type (fst m)) (iq_path (snd m)) \<and> mn_exists (fst m) (iq_path (snd m))"

text \<open>A moment and one before it at which the path had the same size, time, id and place in the journal.\<close>
definition same_file :: "machine_now \<times> image_request \<Rightarrow> machine_now \<times> image_request \<Rightarrow> bool" where
  "same_file before m \<longleftrightarrow> before = m \<or>
    iq_path (snd before) = iq_path (snd m) \<and> stamp_at before = stamp_at m \<and> stamp_at m \<noteq> None"

text \<open>What is looked up of an image, and what a store of earlier runs holds: signature, Windows's own, name and signer.\<close>
type_synonym known_image = "process_signature \<times> bool \<times> string \<times> string"

definition looked_up :: "machine_now \<times> image_request \<Rightarrow> known_image" where
  "looked_up m =
    (case look_up_image (fst m) (snd m) of
       (signature, signer, name) \<Rightarrow> (signature, is_windows_process False signature, name, signer))"

definition stored :: "cached_verdict \<Rightarrow> known_image" where
  "stored v = (signature_from_code (cv_signature v), cv_is_windows_process v, cv_display_name v, cv_signer v)"

definition verdict_of :: "machine_now \<times> image_request \<Rightarrow> known_image \<Rightarrow> image_verdict" where
  "verdict_of m known =
    (case known of (signature, is_windows, name, signer) \<Rightarrow>
       \<lparr>iv_signature = signature, iv_is_windows_process = is_windows, iv_display_name = name,
        iv_publisher = publisher_of (fst m) (snd m) signer\<rparr>)"

text \<open>
  What is known of an image at a moment: looked up at a moment of the same file, or held
  for it by the store of earlier runs.
\<close>
definition known_at ::
    "verdict_store option \<Rightarrow> (machine_now \<times> image_request) set \<Rightarrow> machine_now \<times> image_request \<Rightarrow> known_image \<Rightarrow> bool" where
  "known_at store past m known \<longleftrightarrow>
    (\<exists>before \<in> past. same_file before m \<and> is_here before \<and> known = looked_up before) \<or>
    (\<exists>kept v s. store = Some kept \<and> hm_get kept (iq_path (snd m)) = Some v \<and> stamp_at m = Some s \<and>
       describes v s \<and> known = stored v)"

text \<open>A verdict formed at a moment of the same file from what was known of it then.\<close>
definition verdict_from ::
    "verdict_store option \<Rightarrow> (machine_now \<times> image_request) set \<Rightarrow> machine_now \<times> image_request \<Rightarrow> image_verdict \<Rightarrow> bool" where
  "verdict_from store past m verdict \<longleftrightarrow>
    (\<exists>formed \<in> past. same_file formed m \<and> is_here formed \<and>
       (\<exists>known. known_at store past formed known \<and> verdict = verdict_of formed known))"

text \<open>An image told as it is to be at a moment: by a verdict of the same file, or as unknown.\<close>
definition told_right :: "verdict_store option \<Rightarrow> (machine_now \<times> image_request) set \<Rightarrow> machine_now \<times> image_request \<Rightarrow> image \<Rightarrow> bool" where
  "told_right store past m told \<longleftrightarrow> im_path told = iq_path (snd m) \<and>
    (if is_here m then verdict_from store past m (im_verdict told) else im_verdict told = image_verdict_default)"

definition cached_of :: "stamp \<Rightarrow> known_image \<Rightarrow> cached_verdict" where
  "cached_of s known =
    (case known of (signature, is_windows, name, signer) \<Rightarrow>
       \<lparr>cv_signature = signature_to_code signature, cv_is_windows_process = is_windows, cv_display_name = name,
        cv_signer = signer, cv_size = st_size s, cv_modified_ms = st_modified_ms s, cv_resolver = RESOLVER,
        cv_file_id = st_file_id s, cv_usn = st_usn s\<rparr>)"

text \<open>What the store holds beyond what it held at first was looked up for the file it describes.\<close>
definition store_ok :: "verdict_store option \<Rightarrow> (machine_now \<times> image_request) set \<Rightarrow> verdict_store option \<Rightarrow> bool" where
  "store_ok store past now \<longleftrightarrow> (\<forall>kept path v. now = Some kept \<longrightarrow> hm_get kept path = Some v \<longrightarrow>
    (\<exists>first. store = Some first \<and> hm_get first path = Some v) \<or>
    (\<exists>m \<in> past. \<exists>s. iq_path (snd m) = path \<and> stamp_at m = Some s \<and> is_here m \<and> v = cached_of s (looked_up m)))"

definition judged_ok :: "verdict_store option \<Rightarrow> (machine_now \<times> image_request) set \<Rightarrow> judged_verdicts \<Rightarrow> bool" where
  "judged_ok store past judged_before \<longleftrightarrow> (\<forall>path s v. hm_get judged_before path = Some (s, v) \<longrightarrow>
    (\<exists>m \<in> past. iq_path (snd m) = path \<and> stamp_at m = Some s \<and> is_here m \<and>
      (\<exists>known. known_at store past m known \<and> v = verdict_of m known)))"

lemma known_at_mono: "known_at store past m known \<Longrightarrow> past \<subseteq> past' \<Longrightarrow> known_at store past' m known"
  unfolding known_at_def by blast

lemma store_ok_mono:
  assumes "store_ok store past now" "past \<subseteq> past'"
  shows "store_ok store past' now"
  unfolding store_ok_def
proof (intro allI impI)
  fix kept path v assume "now = Some kept" "hm_get kept path = Some v"
  then have "(\<exists>first. store = Some first \<and> hm_get first path = Some v) \<or>
      (\<exists>m \<in> past. \<exists>s. iq_path (snd m) = path \<and> stamp_at m = Some s \<and> is_here m \<and> v = cached_of s (looked_up m))"
    using assms(1) unfolding store_ok_def by blast
  then show "(\<exists>first. store = Some first \<and> hm_get first path = Some v) \<or>
      (\<exists>m \<in> past'. \<exists>s. iq_path (snd m) = path \<and> stamp_at m = Some s \<and> is_here m \<and> v = cached_of s (looked_up m))"
    using assms(2) by (elim disjE) (blast, blast)
qed

lemma judged_ok_mono: "judged_ok store past now \<Longrightarrow> past \<subseteq> past' \<Longrightarrow> judged_ok store past' now"
  unfolding judged_ok_def using known_at_mono by (meson subsetD)

lemma described_stamp: "describes (cached_of s known) s' \<Longrightarrow> s' = s"
  by (cases s; cases s'; cases known) (simp add: describes_def cached_of_def)

lemma stored_cached [simp]: "stored (cached_of s known) = known"
  by (cases known) (simp add: stored_def cached_of_def)

lemma judge_afresh_miss:
  assumes "case (stamp, store) of (Some s, Some kept) \<Rightarrow> lookup_verdict kept (iq_path rq) s = None | _ \<Rightarrow> True"
  shows "judge_afresh w rq stamp store =
    (verdict_of (w, rq) (looked_up (w, rq)),
     case (stamp, store) of
       (Some s, Some kept) \<Rightarrow> Some (remember_verdict (mn_store_takes w) (iq_path rq) (cached_of s (looked_up (w, rq))) kept)
     | _ \<Rightarrow> store)"
  using assms
  by (simp add: judge_afresh_def verdict_of_def looked_up_def cached_of_def Let_def split: option.splits prod.splits)

lemma judge_afresh_hit:
  assumes "lookup_verdict kept (iq_path rq) s = Some v"
  shows "judge_afresh w rq (Some s) (Some kept) = (verdict_of (w, rq) (stored v), Some kept)"
  using assms by (simp add: judge_afresh_def verdict_of_def stored_def)

lemma judge_afresh_known:
  assumes ok: "store_ok store past now" and m: "(w, rq) \<in> past" "is_here (w, rq)"
    and j: "judge_afresh w rq (stamp_at (w, rq)) now = (verdict, now')"
  shows "(\<exists>known. known_at store past (w, rq) known \<and> verdict = verdict_of (w, rq) known) \<and> store_ok store past now'"
proof (cases "\<exists>s kept v. stamp_at (w, rq) = Some s \<and> now = Some kept \<and> lookup_verdict kept (iq_path rq) s = Some v")
  case True
  then obtain s kept v where hit: "stamp_at (w, rq) = Some s" "now = Some kept" "lookup_verdict kept (iq_path rq) s = Some v"
    by blast
  then have got: "hm_get kept (iq_path rq) = Some v" "describes v s"
    by (auto simp: lookup_verdict_def split: option.splits if_splits)
  have verdict: "verdict = verdict_of (w, rq) (stored v)" "now' = now"
    using j judge_afresh_hit [OF hit(3), of w] by (simp_all add: hit(1,2))
  have "(\<exists>first. store = Some first \<and> hm_get first (iq_path rq) = Some v) \<or>
      (\<exists>m \<in> past. \<exists>s. iq_path (snd m) = iq_path rq \<and> stamp_at m = Some s \<and> is_here m \<and> v = cached_of s (looked_up m))"
    using ok hit(2) got(1) unfolding store_ok_def by blast
  then have "known_at store past (w, rq) (stored v)"
  proof
    assume "\<exists>m \<in> past. \<exists>s. iq_path (snd m) = iq_path rq \<and> stamp_at m = Some s \<and> is_here m \<and> v = cached_of s (looked_up m)"
    then obtain m' s' where m': "m' \<in> past" "iq_path (snd m') = iq_path rq" "stamp_at m' = Some s'" "is_here m'"
        "v = cached_of s' (looked_up m')"
      by blast
    then have "s = s'" using described_stamp got(2) by blast
    then have "same_file m' (w, rq)" using m' hit(1) by (simp add: same_file_def)
    then show ?thesis using m' unfolding known_at_def by auto
  qed (use hit(1) got(2) in \<open>auto simp: known_at_def\<close>)
  then show ?thesis using verdict ok by blast
next
  case False
  then have miss: "case (stamp_at (w, rq), now) of (Some s, Some kept) \<Rightarrow> lookup_verdict kept (iq_path rq) s = None | _ \<Rightarrow> True"
    by (auto split: option.splits)
  have verdict: "verdict = verdict_of (w, rq) (looked_up (w, rq))"
    and now': "now' = (case (stamp_at (w, rq), now) of
       (Some s, Some kept) \<Rightarrow> Some (remember_verdict (mn_store_takes w) (iq_path rq) (cached_of s (looked_up (w, rq))) kept)
     | _ \<Rightarrow> now)"
    using j judge_afresh_miss [OF miss] by simp_all
  have "known_at store past (w, rq) (looked_up (w, rq))"
    using m by (auto simp: known_at_def same_file_def)
  moreover have "store_ok store past now'"
  proof (cases "\<exists>s kept. stamp_at (w, rq) = Some s \<and> now = Some kept")
    case True
    then obtain s kept where s: "stamp_at (w, rq) = Some s" "now = Some kept" by blast
    have put: "now' = Some (remember_verdict (mn_store_takes w) (iq_path rq) (cached_of s (looked_up (w, rq))) kept)"
      by (simp add: now' s)
    show ?thesis
      unfolding store_ok_def
    proof (intro allI impI)
      fix kept' path v assume "now' = Some kept'" and v: "hm_get kept' path = Some v"
      then have kept': "kept' = remember_verdict (mn_store_takes w) (iq_path rq) (cached_of s (looked_up (w, rq))) kept"
        by (simp add: put)
      show "(\<exists>first. store = Some first \<and> hm_get first path = Some v) \<or>
          (\<exists>m \<in> past. \<exists>s. iq_path (snd m) = path \<and> stamp_at m = Some s \<and> is_here m \<and> v = cached_of s (looked_up m))"
      proof (cases "mn_store_takes w \<and> path = iq_path rq")
        case True
        then have "v = cached_of s (looked_up (w, rq))" using v by (simp add: kept' remember_verdict_def hm)
        then show ?thesis using True m s(1) by (intro disjI2 bexI [of _ "(w, rq)"] exI [of _ s]) simp_all
      next
        case False
        then have "hm_get kept path = Some v" using v by (auto simp: kept' remember_verdict_def hm split: if_splits)
        then show ?thesis using ok s(2) unfolding store_ok_def by blast
      qed
    qed
  next
    case False
    then have "now' = now" unfolding now' by (auto split: option.splits)
    then show ?thesis using ok by simp
  qed
  ultimately show ?thesis using verdict by blast
qed

lemma judge_image_known:
  assumes store: "store_ok store past now" and known: "judged_ok store past judged_before" and m: "(w, rq) \<in> past"
    and j: "judge_image w rq (now, judged_before) = (verdict, now', judged_before')"
  shows "(if is_here (w, rq) then verdict_from store past (w, rq) verdict else verdict = image_verdict_default) \<and>
    store_ok store past now' \<and> judged_ok store past judged_before'"
proof (cases "is_here (w, rq)")
  case False
  then show ?thesis using j store known by (auto simp: judge_image_def is_here_def)
next
  case True
  then have there: "\<not> (is_remote (mn_drive_type w) (iq_path rq) \<or> \<not> mn_exists w (iq_path rq))" by (simp add: is_here_def)
  let ?stamp = "stamp_at (w, rq)"
  let ?known = "case ?stamp of None \<Rightarrow> None
    | Some stamp \<Rightarrow> (case hm_get judged_before (iq_path rq) of None \<Rightarrow> None
        | Some (before, verdict) \<Rightarrow> if before = stamp then Some verdict else None)"
  show ?thesis
  proof (cases ?known)
    case (Some v)
    then obtain s where s: "?stamp = Some s" "hm_get judged_before (iq_path rq) = Some (s, v)"
      by (auto split: option.splits if_splits)
    have out: "verdict = v" "now' = now" "judged_before' = judged_before"
      using j there s by (auto simp: judge_image_def stamp_at_def)
    obtain m' k where "m' \<in> past" "iq_path (snd m') = iq_path rq" "stamp_at m' = Some s" "is_here m'"
        "known_at store past m' k" "v = verdict_of m' k"
      using known s(2) unfolding judged_ok_def by blast
    moreover from this have "same_file m' (w, rq)" using s(1) by (simp add: same_file_def)
    ultimately have "verdict_from store past (w, rq) v" unfolding verdict_from_def by blast
    then show ?thesis using True store known out by simp
  next
    case None
    obtain v k where v: "judge_afresh w rq ?stamp now = (v, k)" by force
    have j': "verdict = v" "now' = k" "judged_before' = (case ?stamp of None \<Rightarrow> judged_before
        | Some stamp \<Rightarrow> hm_put (iq_path rq) (stamp, v) judged_before)"
      using j there None v by (auto simp: judge_image_def Let_def stamp_at_def split: prod.splits)
    note fresh = judge_afresh_known [OF store m True v]
    moreover have "same_file (w, rq) (w, rq)" by (simp add: same_file_def)
    ultimately have "verdict_from store past (w, rq) v" using m True unfolding verdict_from_def by blast
    moreover have "judged_ok store past judged_before'"
    proof (cases ?stamp)
      case None
      then show ?thesis using known j'(3) by simp
    next
      case (Some s)
      show ?thesis
        unfolding judged_ok_def
      proof (intro allI impI)
        fix path s' v' assume got: "hm_get judged_before' path = Some (s', v')"
        show "\<exists>m \<in> past. iq_path (snd m) = path \<and> stamp_at m = Some s' \<and> is_here m \<and>
            (\<exists>known. known_at store past m known \<and> v' = verdict_of m known)"
        proof (cases "path = iq_path rq")
          case path: True
          then have "s' = s" "v' = v" using got Some j'(3) by (simp_all add: hm)
          then show ?thesis using m True path Some fresh by (intro bexI [of _ "(w, rq)"]) auto
        next
          case False
          then have "hm_get judged_before path = Some (s', v')" using got Some j'(3) by (simp add: hm)
          then show ?thesis using known unfolding judged_ok_def by blast
        qed
      qed
    qed
    ultimately show ?thesis using True fresh j' by simp
  qed
qed

lemma judge_all_known:
  assumes "store_ok store past now" "judged_ok store past judged_before"
    and "judge_all run (now, judged_before) = (images, now', judged_before')"
  shows "length images = length run \<and>
    (\<forall>i < length run. told_right store (past \<union> set (take (Suc i) run)) (run ! i) (images ! i)) \<and>
    store_ok store (past \<union> set run) now'"
  using assms
proof (induction run arbitrary: past now judged_before images)
  case (Cons m run)
  obtain w rq where m: "m = (w, rq)" by force
  obtain v k b where j: "judge_image w rq (now, judged_before) = (v, k, b)" by (metis prod_cases3)
  obtain images' where r: "judge_all run (k, b) = (images', now', judged_before')"
      "images = \<lparr>im_path = iq_path rq, im_verdict = v\<rparr> # images'"
    using Cons.prems(3) by (auto simp: m j split: prod.splits)
  let ?past = "insert m past"
  have "store_ok store ?past now" by (rule store_ok_mono [OF Cons.prems(1)]) blast
  moreover have "judged_ok store ?past judged_before" by (rule judged_ok_mono [OF Cons.prems(2)]) blast
  moreover have "(w, rq) \<in> ?past" by (simp add: m)
  ultimately have step: "(if is_here m then verdict_from store ?past m v else v = image_verdict_default) \<and>
      store_ok store ?past k \<and> judged_ok store ?past b"
    using judge_image_known [of store ?past now judged_before w rq v k b] j unfolding m by blast
  have more: "length images' = length run \<and>
      (\<forall>i < length run. told_right store (?past \<union> set (take (Suc i) run)) (run ! i) (images' ! i)) \<and>
      store_ok store (?past \<union> set run) now'"
    using Cons.IH [of ?past k b images'] step r(1) by blast
  have "told_right store (past \<union> set (take (Suc i) (m # run))) ((m # run) ! i) (images ! i)"
    if "i < length (m # run)" for i
  proof (cases i)
    case 0
    have "told_right store ?past m (images ! 0)"
      using conjunct1 [OF step] r(2) by (cases "is_here m") (simp_all add: told_right_def m)
    then show ?thesis using 0 by simp
  next
    case (Suc n)
    have "past \<union> set (take (Suc i) (m # run)) = ?past \<union> set (take (Suc n) run)" using Suc by simp
    then show ?thesis using Suc that more by (simp add: r(2) del: take_Suc_Cons)
  qed
  moreover have "past \<union> set (m # run) = ?past \<union> set run" by simp
  ultimately show ?case using more by (simp add: r(2) del: take_Suc_Cons)
qed simp

lemma judged_from_nothing:
  assumes "judge_all run (store, []) = (images, store', judged_before)"
  shows "length images = length run" "store_ok store (set run) store'"
    and "i < length run \<Longrightarrow> told_right store (set (take (Suc i) run)) (run ! i) (images ! i)"
proof -
  have "store_ok store {} store" "judged_ok store {} []" by (simp_all add: store_ok_def judged_ok_def)
  from judge_all_known [OF this assms, unfolded Un_empty_left]
  show "length images = length run" "store_ok store (set run) store'"
    and "i < length run \<Longrightarrow> told_right store (set (take (Suc i) run)) (run ! i) (images ! i)"
    by blast+
qed

text \<open>
  C28 What is told of an image that is a file of this machine is what was looked up at a
  moment no later at which the path had the same size, time, file id and place in the
  change journal, with the publisher named at such a moment, or what a store of earlier
  runs held for exactly that; so a verdict is looked up afresh at the moment itself when
  the path has not been asked for with its present stamp and no store describes it, or
  has no stamp. Anything else is told as unknown. What the store holds in the end it held
  at first or was looked up for the file whose stamp it bears.
\<close>
theorem verdicts_are_of_the_same_file:
  assumes "judge_all run (store, []) = (images, store', judged_before)"
  shows "length images = length run \<and>
    (\<forall>i < length run. told_right store (set (take (Suc i) run)) (run ! i) (images ! i)) \<and>
    store_ok store (set run) store'"
  using judged_from_nothing [OF assms] by blast

section \<open>Who is told to be Microsoft\<close>

definition chain_of_microsoft :: "signer \<Rightarrow> bool" where
  "chain_of_microsoft s \<longleftrightarrow>
    (\<exists>policy. sn_chain s = Some policy \<and> (\<exists>flags \<in> {0, CHECK_APPLICATION_ROOT}. policy flags = (True, 0)))"

text \<open>The file verified, or a catalog that lists its hash did, and the chain ends at Microsoft.\<close>
definition signed_by_microsoft :: "trust \<Rightarrow> string \<Rightarrow> bool" where
  "signed_by_microsoft tr path \<longleftrightarrow> (\<exists>s. chain_of_microsoft s \<and>
    (tr_verify tr path = (0, Some s) \<or>
     (\<exists>hash catalog. tr_hash tr path = Some hash \<and> tr_catalog tr hash = Some catalog \<and>
       tr_member tr catalog (hex_tag hash) path = (0, Some s))))"

text \<open>An installed package of a publisher of Microsoft's, from Windows or the Store.\<close>
definition package_of_microsoft :: "packages \<Rightarrow> string \<Rightarrow> bool" where
  "package_of_microsoft pk full_name \<longleftrightarrow> full_name \<noteq> '''' \<and>
    (\<exists>p \<in> set MICROSOFT_PUBLISHERS. pk_publisher pk full_name = Some p) \<and>
    fst (pk_origin pk full_name) = 0 \<and> snd (pk_origin pk full_name) \<in> {2, 3}"

lemma signer_verdict_microsoft:
  "fst (signer_verdict signer) = SigMicrosoft \<Longrightarrow> \<exists>s. signer = Some s \<and> chain_of_microsoft s"
  by (auto simp: signer_verdict_def roots_at_microsoft_def chain_of_microsoft_def prod_eq_iff split: option.splits if_splits)

lemma check_signer_microsoft:
  assumes "fst (check_signer tr path) = SigMicrosoft"
  shows "signed_by_microsoft tr path"
proof -
  obtain status signer where v: "tr_verify tr path = (status, signer)" by force
  consider "status = 0" "fst (signer_verdict signer) = SigMicrosoft"
    | c where "catalog_signature tr path = Some c" "fst c = SigMicrosoft"
    using assms by (auto simp: check_signer_def v split: if_splits option.splits)
  then show ?thesis
  proof cases
    case 1
    then show ?thesis using signer_verdict_microsoft v by (fastforce simp: signed_by_microsoft_def)
  next
    case 2
    then obtain hash catalog signer' where h: "tr_hash tr path = Some hash" "tr_catalog tr hash = Some catalog"
        "tr_member tr catalog (hex_tag hash) path = (0, signer')" "fst (signer_verdict signer') = SigMicrosoft"
      by (auto simp: catalog_signature_def split: option.splits prod.splits if_splits)
    then show ?thesis using signer_verdict_microsoft by (fastforce simp: signed_by_microsoft_def)
  qed
qed

lemma package_signature_microsoft:
  "package_signature pk full_name = Some SigMicrosoft \<Longrightarrow> full_name \<noteq> '''' \<Longrightarrow> package_of_microsoft pk full_name"
  by (auto simp: package_signature_def package_publisher_def package_from_windows_or_store_def package_of_microsoft_def
      split: option.splits if_splits prod.splits)

lemma looked_up_microsoft:
  assumes "fst (looked_up (w, rq)) = SigMicrosoft"
  shows "signed_by_microsoft (mn_trust w) (iq_path rq) \<or> package_of_microsoft (mn_packages w) (iq_package_full_name rq)"
proof -
  have "fst (signature_of (mn_trust w) (mn_packages w) (iq_path rq) (iq_package_full_name rq)) = SigMicrosoft"
    using assms by (auto simp: looked_up_def look_up_image_def split: prod.splits)
  then have "fst (check_signer (mn_trust w) (iq_path rq)) = SigMicrosoft \<or>
      iq_package_full_name rq \<noteq> [] \<and> package_signature (mn_packages w) (iq_package_full_name rq) = Some SigMicrosoft"
    by (auto simp: signature_of_def split: prod.splits if_splits option.splits)
  then show ?thesis using check_signer_microsoft package_signature_microsoft by blast
qed

lemma same_file_stamp: "same_file before m \<Longrightarrow> stamp_at before = stamp_at m"
  by (auto simp: same_file_def)

lemma verdict_of_signature [simp]: "iv_signature (verdict_of m known) = fst known"
  by (cases known) (simp add: verdict_of_def)

lemma same_file_trans: "same_file a b \<Longrightarrow> same_file b c \<Longrightarrow> same_file a c"
  by (auto simp: same_file_def)

text \<open>
  C29 An image is told to be Microsoft's only if it is a file of this machine, there at
  that moment, and at a moment no later, with the same size, time, file id and place in
  the journal, its own signature or a catalog that lists its hash verified to a chain that
  ends at a root of Microsoft's, or it was asked for as a package of Microsoft's that came
  with Windows or from the Store; or a store of earlier runs held so for exactly that file.
  Neither a name nor a path is ever enough, and no file with another stamp is told for it.
\<close>
theorem microsoft_is_never_taken_on_trust:
  assumes "judge_all run (store, []) = (images, store', judged_before)"
    and "i < length run" "iv_signature (im_verdict (images ! i)) = SigMicrosoft"
  shows "is_here (run ! i) \<and>
    ((\<exists>(w, rq) \<in> set (take (Suc i) run). same_file (w, rq) (run ! i) \<and> is_here (w, rq) \<and>
       (signed_by_microsoft (mn_trust w) (iq_path rq) \<or> package_of_microsoft (mn_packages w) (iq_package_full_name rq))) \<or>
     (\<exists>kept v s. store = Some kept \<and> hm_get kept (iq_path (snd (run ! i))) = Some v \<and> stamp_at (run ! i) = Some s \<and>
       describes v s \<and> signature_from_code (cv_signature v) = SigMicrosoft))"
proof -
  note told = judged_from_nothing(3) [OF assms(1,2), unfolded told_right_def]
  have here: "is_here (run ! i)"
    using told assms(3) by (cases "is_here (run ! i)") (simp_all add: image_verdict_default_def)
  then have "verdict_from store (set (take (Suc i) run)) (run ! i) (im_verdict (images ! i))"
    using told by (simp only: if_True)
  then obtain formed known where f: "formed \<in> set (take (Suc i) run)" "same_file formed (run ! i)"
      "known_at store (set (take (Suc i) run)) formed known" "im_verdict (images ! i) = verdict_of formed known"
    unfolding verdict_from_def by blast
  then have known: "fst known = SigMicrosoft" using assms(3) by simp
  from f(3) consider
      (looked) before where "before \<in> set (take (Suc i) run)" "same_file before formed" "is_here before" "known = looked_up before"
    | (stored) kept v s where "store = Some kept" "hm_get kept (iq_path (snd formed)) = Some v" "stamp_at formed = Some s"
        "describes v s" "known = stored v"
    unfolding known_at_def by blast
  then show ?thesis
  proof cases
    case looked
    have "same_file before (run ! i)" using looked(2) f(2) by (rule same_file_trans)
    then show ?thesis using looked here known looked_up_microsoft [of "fst before" "snd before"] by force
  next
    case stored
    have "iq_path (snd formed) = iq_path (snd (run ! i))" "stamp_at formed = stamp_at (run ! i)"
      using f(2) by (auto simp: same_file_def)
    then show ?thesis using stored here known by (intro conjI disjI2 exI [of _ kept] exI [of _ v] exI [of _ s]) (simp_all add: stored_def)
  qed
qed

section \<open>Where the stores and the test for another machine fall short\<close>

text \<open>
  On a volume without a change journal the store is never asked, but what this run
  judged is: a file written over in place, with its size and time put back, is told as
  the file that was there before.
\<close>
lemma an_unjournaled_file_is_told_as_before:
  assumes "hm_get judged_before (iq_path rq) = Some (s, verdict)" "stamp_at (w, rq) = Some s" "st_usn s = 0"
    and "\<not> is_remote (mn_drive_type w) (iq_path rq)" "mn_exists w (iq_path rq)"
  shows "judge_image w rq (store, judged_before) = (verdict, store, judged_before)" and "\<not> describes cached s"
  using assms by (simp_all add: judge_image_def stamp_at_def describes_def)

text \<open>A path by its drive is remote when the drive is; the same path, verbatim, never is.\<close>
lemma a_verbatim_drive_is_never_remote:
  "\<not> is_remote drive_type (BACKSLASH # BACKSLASH # CHR ''?'' # BACKSLASH # CHR ''Z'' # CHR '':'' # BACKSLASH # tail)"
  "drive_type (CHR ''z'') = 4 \<Longrightarrow> is_remote drive_type (CHR ''Z'' # CHR '':'' # BACKSLASH # tail)"
proof -
  have "char_of (122 :: nat) = CHR ''z''" by code_simp
  then show "drive_type (CHR ''z'') = 4 \<Longrightarrow> is_remote drive_type (CHR ''Z'' # CHR '':'' # BACKSLASH # tail)"
    by (simp add: is_remote_def BACKSLASH_def MUP_def ascii_lower_def strip_prefix_def is_ascii_alphabetic_def Let_def)
qed (simp add: is_remote_def BACKSLASH_def MUP_def ascii_lower_def strip_prefix_def Let_def)

section \<open>A file replaced\<close>

text \<open>A machine with one file, of one signer, last changed at a place of the journal.\<close>
definition one_file :: "u8 \<Rightarrow> signer option \<Rightarrow> machine_now" where
  "one_file usn signer = \<lparr>
    mn_drive_type = (\<lambda>_. 3), mn_exists = (\<lambda>_. True),
    mn_opened = (\<lambda>_. Some \<lparr>fa_length = 10, fa_modified_ms = Some 1, fa_id = Some (replicate 16 7),
      fa_usn_record = Some ([0, 0, 0, 0, 2, 0] @ replicate 18 0 @ usn # replicate 7 0)\<rparr>),
    mn_trust = \<lparr>tr_verify = (\<lambda>_. (0, signer)), tr_hash = (\<lambda>_. None), tr_catalog = (\<lambda>_. None), tr_member = (\<lambda>_ _ _. (1, None))\<rparr>,
    mn_packages = \<lparr>pk_publisher = (\<lambda>_. None), pk_origin = (\<lambda>_. (1, 0)), pk_installed_path = (\<lambda>_. None), pk_staged_path = (\<lambda>_. None),
      pk_base_name = (\<lambda>_. None), pk_manifest = (\<lambda>_. None), pk_indirect = (\<lambda>_. None)\<rparr>,
    mn_names = \<lparr>fn_description = (\<lambda>_. Some ''A tool''), fn_shell = (\<lambda>_. [])\<rparr>,
    mn_store_takes = True\<rparr>"

definition tool_request :: image_request where
  "tool_request = \<lparr>iq_path = CHR ''C'' # CHR '':'' # BACKSLASH # ''a.exe'', iq_package_full_name = '''', iq_package_relative_app_id = ''''\<rparr>"

definition other_signer :: signer where
  "other_signer = \<lparr>sn_subject = Some ''Probe'', sn_chain = Some (\<lambda>_. (True, 1))\<rparr>"

definition microsoft_signer :: signer where
  "microsoft_signer = \<lparr>sn_subject = Some ''Microsoft'', sn_chain = Some (\<lambda>_. (True, 0))\<rparr>"

text \<open>The file of another signer, looked at twice, then one of Microsoft's in its place.\<close>
definition replaced_run :: "(machine_now \<times> image_request) list" where
  "replaced_run = [(one_file 1 (Some other_signer), tool_request), (one_file 1 (Some other_signer), tool_request),
    (one_file 2 (Some microsoft_signer), tool_request)]"

lemma one_file_stamp:
  "stamp_at (one_file usn signer, rq) = Some \<lparr>st_size = 10, st_modified_ms = 1,
    st_file_id = (le_word (replicate 8 7), le_word (replicate 8 7)), st_usn = ucast usn\<rparr>"
proof -
  let ?r = "[0, 0, 0, 0, 2, 0] @ replicate 18 0 @ usn # replicate 7 0 :: u8 list"
  have "slice_get ?r 4 6 = Some [2, 0]" "slice_get ?r 24 32 = Some (usn # replicate 7 0)"
    by (simp_all add: slice_get_def numeral_eq_Suc)
  moreover have "replicate 7 (0 :: u8) = [0, 0, 0, 0, 0, 0, 0]" by (simp add: numeral_eq_Suc)
  then have "le_word [2, 0] = 2" "le_word (usn # replicate 7 0) = ucast usn" by (simp_all add: le_word_def)
  ultimately have "last_usn (Some ?r) = Some (ucast usn)" by (simp add: last_usn_def)
  then show ?thesis by (simp add: stamp_at_def one_file_def file_stamp_def)
qed

lemma replaced_run_here: "is_here (replaced_run ! 1)" "is_here (replaced_run ! 2)"
  by (simp_all add: is_here_def replaced_run_def one_file_def tool_request_def is_remote_def BACKSLASH_def MUP_def
      ascii_lower_def strip_prefix_def Let_def)

lemma replaced_at_last: "m \<in> set replaced_run \<Longrightarrow> same_file m (replaced_run ! 2) \<longleftrightarrow> m = replaced_run ! 2"
  by (auto simp: same_file_def replaced_run_def one_file_stamp)

lemma replaced_is_microsoft: "fst (looked_up (replaced_run ! 2)) = SigMicrosoft"
  by (simp add: looked_up_def look_up_image_def replaced_run_def one_file_def tool_request_def microsoft_signer_def
      signature_of_def check_signer_def signer_verdict_def roots_at_microsoft_def split: prod.split)

lemma replaced_run_judged:
  assumes "judge_all replaced_run (Some [], []) = (images, store', before)"
  shows "iv_signature (im_verdict (images ! 2)) = SigMicrosoft"
proof -
  have "2 < length replaced_run" "set (take (Suc 2) replaced_run) = set replaced_run" by (simp_all add: replaced_run_def)
  then have "verdict_from (Some []) (set replaced_run) (replaced_run ! 2) (im_verdict (images ! 2))"
    using judged_from_nothing(3) [OF assms, of 2] replaced_run_here(2) by (simp add: told_right_def)
  then obtain formed known where "formed \<in> set replaced_run" "same_file formed (replaced_run ! 2)"
      "known_at (Some []) (set replaced_run) formed known" "im_verdict (images ! 2) = verdict_of formed known"
    by (auto simp: verdict_from_def)
  then show ?thesis using replaced_at_last replaced_is_microsoft by (auto simp: known_at_def)
qed

theorem verdicts_are_of_the_same_file_witness:
  "\<exists>images. fst (judge_all replaced_run (Some [], [])) = images \<and>
    verdict_from (Some []) (set (take 2 replaced_run)) (replaced_run ! 1) (im_verdict (images ! 1)) \<and>
    verdict_from (Some []) (set replaced_run) (replaced_run ! 2) (im_verdict (images ! 2)) \<and>
    \<not> same_file (replaced_run ! 1) (replaced_run ! 2)"
proof -
  obtain images store' before where j: "judge_all replaced_run (Some [], []) = (images, store', before)"
    by (metis prod_cases3)
  have "verdict_from (Some []) (set (take (Suc i) replaced_run)) (replaced_run ! i) (im_verdict (images ! i))"
    if "i < 3" "is_here (replaced_run ! i)" for i
  proof -
    have "i < length replaced_run" using that(1) by (simp add: replaced_run_def)
    then have "told_right (Some []) (set (take (Suc i) replaced_run)) (replaced_run ! i) (images ! i)"
      using verdicts_are_of_the_same_file [OF j] by blast
    then show ?thesis using that(2) by (simp add: told_right_def)
  qed
  from this [OF _ replaced_run_here(1)] this [OF _ replaced_run_here(2)]
  have "verdict_from (Some []) (set (take 2 replaced_run)) (replaced_run ! 1) (im_verdict (images ! 1))"
    "verdict_from (Some []) (set (take 3 replaced_run)) (replaced_run ! 2) (im_verdict (images ! 2))"
    by (simp_all add: numeral_2_eq_2 numeral_3_eq_3)
  moreover have "take 3 replaced_run = replaced_run" by (simp add: replaced_run_def)
  moreover have "\<not> same_file (replaced_run ! 1) (replaced_run ! 2)"
    using same_file_stamp [of "replaced_run ! 1" "replaced_run ! 2"] by (auto simp: replaced_run_def one_file_stamp)
  ultimately show ?thesis using j by simp
qed

theorem microsoft_is_never_taken_on_trust_witness:
  "\<exists>images store' before. judge_all replaced_run (Some [], []) = (images, store', before) \<and>
    iv_signature (im_verdict (images ! 2)) = SigMicrosoft \<and>
    (\<exists>(w, rq) \<in> set (take 3 replaced_run). same_file (w, rq) (replaced_run ! 2) \<and>
      (signed_by_microsoft (mn_trust w) (iq_path rq) \<or> package_of_microsoft (mn_packages w) (iq_package_full_name rq)))"
proof -
  obtain images store' before where j: "judge_all replaced_run (Some [], []) = (images, store', before)"
    by (metis prod_cases3)
  note told = replaced_run_judged [OF j]
  have "2 < length replaced_run" by (simp add: replaced_run_def)
  from microsoft_is_never_taken_on_trust [OF j this told] have
      "\<exists>(w, rq) \<in> set (take 3 replaced_run). same_file (w, rq) (replaced_run ! 2) \<and>
        (signed_by_microsoft (mn_trust w) (iq_path rq) \<or> package_of_microsoft (mn_packages w) (iq_package_full_name rq))"
    unfolding case_prod_unfold eval_nat_numeral by (elim conjE disjE) (blast, simp)
  then show ?thesis using j told by blast
qed

end
