(* ===== verification/Services.thy ===== *)
theory Services
  imports Api
begin

text \<open>
  \<^verbatim>\<open>src/scm/\<close> but for the watcher, and \<^verbatim>\<open>src/commands/\<close>: the inventory of services, starting
  and stopping them, and the commands on processes. Windows is a function of the calls
  made so far and the next one, so that it may answer the same call differently each
  time; every function hands on the calls made.
\<close>

section \<open>Calls\<close>

datatype system_call =
  OpenManager | OpenService string u32 | StartService string | ControlService string u32 | QueryStatus string
| Pause duration
| OpenProcess u32 u32 | TerminateProcess u32 | SuspendProcess u32 | ResumeProcess u32
| SetPriorityClass u32 u32 | SetAffinityMask u32 u64

text \<open>The Win32 code a call fails with, or what it tells: for a status, the state.\<close>
type_synonym windows = "system_call list \<Rightarrow> system_call \<Rightarrow> u32 + u32"

definition try_call ::
    "windows \<Rightarrow> system_call \<Rightarrow> system_call list \<Rightarrow> (u32 \<Rightarrow> system_call list \<Rightarrow> command_result \<times> system_call list) \<Rightarrow>
      command_result \<times> system_call list" where
  "try_call w c h next_step = (case w h c of Inl code \<Rightarrow> (Inl code, h @ [c]) | Inr v \<Rightarrow> next_step v (h @ [c]))"

definition last_call :: "windows \<Rightarrow> system_call \<Rightarrow> system_call list \<Rightarrow> command_result \<times> system_call list" where
  "last_call w c h = try_call w c h (\<lambda>_ h. (Inr (), h))"

section \<open>Starting and stopping a service\<close>

definition SERVICE_QUERY_STATUS :: u32 where "SERVICE_QUERY_STATUS = 4"
definition SERVICE_START :: u32 where "SERVICE_START = 16"
definition SERVICE_STOP :: u32 where "SERVICE_STOP = 32"
definition SERVICE_PAUSE_CONTINUE :: u32 where "SERVICE_PAUSE_CONTINUE = 64"
definition SERVICE_CONTROL_STOP :: u32 where "SERVICE_CONTROL_STOP = 1"
definition SERVICE_CONTROL_PAUSE :: u32 where "SERVICE_CONTROL_PAUSE = 2"
definition SERVICE_CONTROL_CONTINUE :: u32 where "SERVICE_CONTROL_CONTINUE = 3"
definition SERVICE_STOPPED :: u32 where "SERVICE_STOPPED = 1"
definition ERROR_SERVICE_NOT_ACTIVE :: u32 where "ERROR_SERVICE_NOT_ACTIVE = 1062"
definition POLL_EVERY :: duration where "POLL_EVERY = millis 100"
definition ERROR_TIMEOUT :: u32 where "ERROR_TIMEOUT = 1460"

datatype service_action = ActStart | ActStop | ActPause | ActResume | ActRestart

definition start_service :: "windows \<Rightarrow> string \<Rightarrow> system_call list \<Rightarrow> command_result \<times> system_call list" where
  "start_service w name h =
    try_call w (OpenService name SERVICE_START) h (\<lambda>_ h. last_call w (StartService name) h)"

definition send_control :: "windows \<Rightarrow> string \<Rightarrow> u32 \<Rightarrow> u32 \<Rightarrow> system_call list \<Rightarrow> command_result \<times> system_call list" where
  "send_control w name control access h =
    try_call w (OpenService name access) h (\<lambda>_ h. last_call w (ControlService name control) h)"

fun wait_loop :: "windows \<Rightarrow> string \<Rightarrow> u32 \<Rightarrow> nat \<Rightarrow> system_call list \<Rightarrow> command_result \<times> system_call list" where
  "wait_loop w name desired 0 h = (Inl ERROR_TIMEOUT, h)"
| "wait_loop w name desired (Suc n) h =
    try_call w (QueryStatus name) h (\<lambda>state h.
      if state = desired then (Inr (), h) else wait_loop w name desired n (h @ [Pause POLL_EVERY]))"

definition wait_for_status :: "windows \<Rightarrow> string \<Rightarrow> u32 \<Rightarrow> system_call list \<Rightarrow> command_result \<times> system_call list" where
  "wait_for_status w name desired h =
    try_call w (OpenService name SERVICE_QUERY_STATUS) h (\<lambda>_ h. wait_loop w name desired 300 h)"

definition stop_service :: "windows \<Rightarrow> string \<Rightarrow> system_call list \<Rightarrow> command_result \<times> system_call list" where
  "stop_service w name h = send_control w name SERVICE_CONTROL_STOP (or SERVICE_STOP SERVICE_QUERY_STATUS) h"

definition restart_service :: "windows \<Rightarrow> string \<Rightarrow> system_call list \<Rightarrow> command_result \<times> system_call list" where
  "restart_service w name h =
    (let (stopped, h) = stop_service w name h;
         go_on = (case wait_for_status w name SERVICE_STOPPED h of
             (Inl code, h) \<Rightarrow> (Inl code, h)
           | (Inr _, h) \<Rightarrow> start_service w name h)
     in case stopped of
          Inl code \<Rightarrow> if code \<noteq> ERROR_SERVICE_NOT_ACTIVE then (Inl code, h) else go_on
        | Inr _ \<Rightarrow> go_on)"

fun act_on_service :: "windows \<Rightarrow> string \<Rightarrow> service_action \<Rightarrow> system_call list \<Rightarrow> command_result \<times> system_call list" where
  "act_on_service w name ActStart h = start_service w name h"
| "act_on_service w name ActStop h = stop_service w name h"
| "act_on_service w name ActPause h = send_control w name SERVICE_CONTROL_PAUSE SERVICE_PAUSE_CONTINUE h"
| "act_on_service w name ActResume h = send_control w name SERVICE_CONTROL_CONTINUE SERVICE_PAUSE_CONTINUE h"
| "act_on_service w name ActRestart h = restart_service w name h"

text \<open>\<^verbatim>\<open>Scm::connection\<close>: opened on first use; \<open>held\<close> is whether it was.\<close>
definition scm_connection :: "windows \<Rightarrow> bool \<Rightarrow> system_call list \<Rightarrow> (u32 option \<times> bool) \<times> system_call list" where
  "scm_connection w held h =
    (if held then ((None, True), h)
     else case w h OpenManager of
            Inl code \<Rightarrow> ((Some code, False), h @ [OpenManager])
          | Inr _ \<Rightarrow> ((None, True), h @ [OpenManager]))"

text \<open>
  \<^verbatim>\<open>ServiceControl::act\<close>: the result, whether the service stays followed, whether the
  connection is held.
\<close>
definition control_act ::
    "windows \<Rightarrow> bool \<Rightarrow> string \<Rightarrow> service_action \<Rightarrow> system_call list \<Rightarrow> (command_result \<times> bool \<times> bool) \<times> system_call list" where
  "control_act w held name action h =
    (case scm_connection w held h of
       ((Some code, held), h) \<Rightarrow> ((Inl code, False, held), h)
     | ((None, held), h) \<Rightarrow>
         (case act_on_service w name action h of
            (result, h) \<Rightarrow> ((result, result = Inr (), held), h)))"

section \<open>Commands\<close>

definition ERROR_BUSY :: u32 where "ERROR_BUSY = 170"
definition ERROR_ACCESS_DENIED :: u32 where "ERROR_ACCESS_DENIED = 5"
definition PROCESS_TERMINATE :: u32 where "PROCESS_TERMINATE = 1"
definition PROCESS_SUSPEND_RESUME :: u32 where "PROCESS_SUSPEND_RESUME = 0x800"
definition PROCESS_SET_INFORMATION :: u32 where "PROCESS_SET_INFORMATION = 0x200"

datatype target = OnProcess u32 | OnService string

fun target_of :: "command \<Rightarrow> target" where
  "target_of (Kill pid) = OnProcess pid"
| "target_of (Suspend pid) = OnProcess pid"
| "target_of (Resume pid) = OnProcess pid"
| "target_of (SetPriority pid _) = OnProcess pid"
| "target_of (SetAffinity pid _) = OnProcess pid"
| "target_of (ServiceStart name) = OnService name"
| "target_of (ServiceStop name) = OnService name"
| "target_of (ServicePause name) = OnService name"
| "target_of (ServiceResume name) = OnService name"
| "target_of (ServiceRestart name) = OnService name"

fun priority_class :: "process_priority \<Rightarrow> u32" where
  "priority_class PrioIdle = 0x40"
| "priority_class PrioBelowNormal = 0x4000"
| "priority_class PrioNormal = 0x20"
| "priority_class PrioAboveNormal = 0x8000"
| "priority_class PrioHigh = 0x80"
| "priority_class PrioRealtime = 0x100"

text \<open>What a process is asked, with the access it takes; an NTSTATUS is told as the Win32 code it stands for.\<close>
definition on_process :: "windows \<Rightarrow> u32 \<Rightarrow> u32 \<Rightarrow> system_call \<Rightarrow> system_call list \<Rightarrow> command_result \<times> system_call list" where
  "on_process w access pid c h = try_call w (OpenProcess access pid) h (\<lambda>_ h. last_call w c h)"

text \<open>\<open>me\<close> is the agent's own pid.\<close>
definition kill_process :: "windows \<Rightarrow> u32 \<Rightarrow> u32 \<Rightarrow> system_call list \<Rightarrow> command_result \<times> system_call list" where
  "kill_process w me pid h =
    (if pid = me then (Inl ERROR_ACCESS_DENIED, h) else on_process w PROCESS_TERMINATE pid (TerminateProcess pid) h)"

definition suspend_process :: "windows \<Rightarrow> u32 \<Rightarrow> u32 \<Rightarrow> system_call list \<Rightarrow> command_result \<times> system_call list" where
  "suspend_process w me pid h =
    (if pid = me then (Inl ERROR_ACCESS_DENIED, h) else on_process w PROCESS_SUSPEND_RESUME pid (SuspendProcess pid) h)"

definition service_command ::
    "windows \<Rightarrow> bool \<Rightarrow> string \<Rightarrow> service_action \<Rightarrow> system_call list \<Rightarrow> command_result \<times> system_call list" where
  "service_command w held name action h = (case control_act w held name action h of ((result, _), h) \<Rightarrow> (result, h))"

fun execute :: "windows \<Rightarrow> u32 \<Rightarrow> bool \<Rightarrow> command \<Rightarrow> system_call list \<Rightarrow> command_result \<times> system_call list" where
  "execute w me held (Kill pid) h = kill_process w me pid h"
| "execute w me held (Suspend pid) h = suspend_process w me pid h"
| "execute w me held (Resume pid) h = on_process w PROCESS_SUSPEND_RESUME pid (ResumeProcess pid) h"
| "execute w me held (SetPriority pid priority) h =
    on_process w PROCESS_SET_INFORMATION pid (SetPriorityClass pid (priority_class priority)) h"
| "execute w me held (SetAffinity pid bits) h = on_process w PROCESS_SET_INFORMATION pid (SetAffinityMask pid bits) h"
| "execute w me held (ServiceStart name) h = service_command w held name ActStart h"
| "execute w me held (ServiceStop name) h = service_command w held name ActStop h"
| "execute w me held (ServicePause name) h = service_command w held name ActPause h"
| "execute w me held (ServiceResume name) h = service_command w held name ActResume h"
| "execute w me held (ServiceRestart name) h = service_command w held name ActRestart h"

text \<open>\<open>busy\<close>: whether the runner, which is not of this repository, has a command in flight for a target.\<close>
definition run_command ::
    "(target \<Rightarrow> bool) \<Rightarrow> windows \<Rightarrow> u32 \<Rightarrow> bool \<Rightarrow> command \<Rightarrow> system_call list \<Rightarrow> command_result \<times> system_call list" where
  "run_command busy w me held c h = (if busy (target_of c) then (Inl ERROR_BUSY, h) else execute w me held c h)"

section \<open>A restart\<close>

text \<open>The calls of \<open>k\<close> polls that found the service in another state.\<close>
definition polls :: "string \<Rightarrow> nat \<Rightarrow> system_call list" where
  "polls name k = concat (replicate k [QueryStatus name, Pause POLL_EVERY])"

lemma polls_simps [simp]:
  "polls name 0 = []" "polls name (Suc k) = QueryStatus name # Pause POLL_EVERY # polls name k"
  by (simp_all add: polls_def)

lemma set_polls: "set (polls name k) \<subseteq> {QueryStatus name, Pause POLL_EVERY}"
  by (induction k) auto

definition pauses :: "system_call list \<Rightarrow> nat" where
  "pauses calls = length (filter (\<lambda>c. case c of Pause _ \<Rightarrow> True | _ \<Rightarrow> False) calls)"

lemma pauses_simps [simp]:
  "pauses [] = 0" "pauses (Pause d # cs) = Suc (pauses cs)" "pauses (cs @ ds) = pauses cs + pauses ds"
  "pauses (OpenService n a # cs) = pauses cs" "pauses (QueryStatus n # cs) = pauses cs"
  "pauses (ControlService n m # cs) = pauses cs" "pauses (StartService n # cs) = pauses cs"
  by (simp_all add: pauses_def)

lemma pauses_in_polls [simp]: "pauses (polls name k) = k"
  by (induction k) simp_all

text \<open>The next \<open>k\<close> polls are answered, and none with the state waited for.\<close>
fun still_elsewhere :: "windows \<Rightarrow> string \<Rightarrow> u32 \<Rightarrow> system_call list \<Rightarrow> nat \<Rightarrow> bool" where
  "still_elsewhere w name desired h 0 \<longleftrightarrow> True"
| "still_elsewhere w name desired h (Suc k) \<longleftrightarrow>
    (case w h (QueryStatus name) of Inl _ \<Rightarrow> False | Inr s \<Rightarrow> s \<noteq> desired) \<and>
    still_elsewhere w name desired (h @ polls name 1) k"

lemma wait_loop_ends:
  "\<exists>k\<le>n. still_elsewhere w name desired h k \<and>
    (wait_loop w name desired n h =
       (if k = n then (Inl ERROR_TIMEOUT, h @ polls name k)
        else (case w (h @ polls name k) (QueryStatus name) of Inl code \<Rightarrow> Inl code | Inr _ \<Rightarrow> Inr (),
              h @ polls name k @ [QueryStatus name]))) \<and>
    (k < n \<longrightarrow> (\<forall>s. w (h @ polls name k) (QueryStatus name) = Inr s \<longrightarrow> s = desired))"
proof (induction n arbitrary: h)
  case 0
  show ?case by simp
next
  case (Suc n)
  show ?case
  proof (cases "case w h (QueryStatus name) of Inl _ \<Rightarrow> False | Inr s \<Rightarrow> s \<noteq> desired")
    case True
    then obtain s where s: "w h (QueryStatus name) = Inr s" "s \<noteq> desired" by (auto split: sum.splits)
    obtain k where k: "k \<le> n" "still_elsewhere w name desired (h @ polls name 1) k"
      "wait_loop w name desired n (h @ polls name 1) =
       (if k = n then (Inl ERROR_TIMEOUT, (h @ polls name 1) @ polls name k)
        else (case w ((h @ polls name 1) @ polls name k) (QueryStatus name) of Inl code \<Rightarrow> Inl code | Inr _ \<Rightarrow> Inr (),
              (h @ polls name 1) @ polls name k @ [QueryStatus name]))"
      "k < n \<longrightarrow> (\<forall>s. w ((h @ polls name 1) @ polls name k) (QueryStatus name) = Inr s \<longrightarrow> s = desired)"
      using Suc.IH [of "h @ polls name 1"] by blast
    show ?thesis
      using k s True by (intro exI [of _ "Suc k"]) (simp add: try_call_def)
  next
    case False
    then show ?thesis
      by (intro exI [of _ 0]) (auto simp: try_call_def split: sum.splits)
  qed
qed

definition waiting_calls :: "string \<Rightarrow> system_call set" where
  "waiting_calls name = {OpenService name (or SERVICE_STOP SERVICE_QUERY_STATUS), ControlService name SERVICE_CONTROL_STOP,
    OpenService name SERVICE_QUERY_STATUS, QueryStatus name, Pause POLL_EVERY}"

text \<open>How the wait goes: its calls start nothing, and one that ends well was told the service had stopped.\<close>
lemma wait_for_status_calls:
  assumes "wait_for_status w name desired h = (r, h')"
  shows "\<exists>made. h' = h @ made \<and> set made \<subseteq> waiting_calls name \<and>
    pauses made \<le> 300 \<and>
    (r = Inr () \<longrightarrow> (\<exists>earlier. made = earlier @ [QueryStatus name] \<and> w (h @ earlier) (QueryStatus name) = Inr desired))"
proof (cases "w h (OpenService name SERVICE_QUERY_STATUS)")
  case (Inl code)
  then show ?thesis using assms
    by (intro exI [of _ "[OpenService name SERVICE_QUERY_STATUS]"])
      (auto simp: wait_for_status_def try_call_def waiting_calls_def)
next
  case (Inr v)
  let ?o = "[OpenService name SERVICE_QUERY_STATUS]"
  obtain k where k: "k \<le> 300"
    "wait_loop w name desired 300 (h @ ?o) =
      (if k = 300 then (Inl ERROR_TIMEOUT, (h @ ?o) @ polls name k)
       else (case w ((h @ ?o) @ polls name k) (QueryStatus name) of Inl code \<Rightarrow> Inl code | Inr _ \<Rightarrow> Inr (),
             (h @ ?o) @ polls name k @ [QueryStatus name]))"
    "k < 300 \<longrightarrow> (\<forall>s. w ((h @ ?o) @ polls name k) (QueryStatus name) = Inr s \<longrightarrow> s = desired)"
    using wait_loop_ends [of 300 w name desired "h @ ?o"] by blast
  have loop: "wait_loop w name desired 300 (h @ ?o) = (r, h')"
    using assms Inr by (simp add: wait_for_status_def try_call_def)
  have within: "set (polls name k) \<subseteq> waiting_calls name"
    using set_polls [of name k] by (auto simp: waiting_calls_def)
  show ?thesis
  proof (cases "k = 300")
    case True
    then show ?thesis using k loop within
      by (intro exI [of _ "?o @ polls name k"]) (auto simp: waiting_calls_def)
  next
    case False
    then have k3: "k < 300" using k by simp
    show ?thesis using k(2,3) k3 loop within
      by (intro exI [of _ "?o @ polls name k @ [QueryStatus name]"])
        (auto simp: waiting_calls_def split: sum.splits)
  qed
qed

lemma stop_service_calls:
  assumes "stop_service w name h = (r, h')"
  shows "\<exists>made. h' = h @ made \<and> set made \<subseteq> waiting_calls name \<and> pauses made = 0"
  using assms
  by (auto simp: stop_service_def send_control_def last_call_def try_call_def waiting_calls_def split: sum.splits)

lemma start_service_calls:
  assumes "start_service w name h = (r, h')"
  shows "(h' = h @ [OpenService name SERVICE_START] \<and> r \<noteq> Inr ()) \<or>
    (h' = h @ [OpenService name SERVICE_START, StartService name] \<and>
     (r = Inr () \<longleftrightarrow> (\<exists>v. w (h @ [OpenService name SERVICE_START]) (StartService name) = Inr v)))"
  using assms
  by (auto simp: start_service_def last_call_def try_call_def split: sum.splits)

lemma restart_cases:
  assumes "restart_service w name h = (r, h')"
  obtains (refused) code where "stop_service w name h = (Inl code, h')" "r = Inl code"
  | (waited) stopped h1 code where "stop_service w name h = (stopped, h1)"
      "wait_for_status w name SERVICE_STOPPED h1 = (Inl code, h')" "r = Inl code"
  | (started) stopped h1 h2 where "stop_service w name h = (stopped, h1)"
      "wait_for_status w name SERVICE_STOPPED h1 = (Inr (), h2)" "start_service w name h2 = (r, h')"
proof -
  obtain stopped h1 where stop: "stop_service w name h = (stopped, h1)" by fastforce
  obtain ended h2 where wait: "wait_for_status w name SERVICE_STOPPED h1 = (ended, h2)" by fastforce
  show ?thesis
    using assms stop wait refused waited started
    by (cases stopped; cases ended) (auto simp: restart_service_def split: if_splits)
qed

lemma a_start_was_made:
  "StartService name \<notin> waiting_calls name"
  by (simp add: waiting_calls_def)

text \<open>
  C31 A restart starts a service only once Windows told it had stopped, right after the
  question; it asks for at most half a minute, and it answers well exactly when the
  start was made and went through.
\<close>
theorem a_restart_starts_only_what_stopped:
  assumes "restart_service w name h = (r, h')"
  shows "\<exists>made. h' = h @ made \<and> pauses made \<le> 300 \<and>
    (StartService name \<in> set made \<longrightarrow>
      (\<exists>earlier. made = earlier @ [QueryStatus name, OpenService name SERVICE_START, StartService name] \<and>
        w (h @ earlier) (QueryStatus name) = Inr SERVICE_STOPPED)) \<and>
    (r = Inr () \<longleftrightarrow> StartService name \<in> set made \<and> (\<exists>v. w (butlast h') (StartService name) = Inr v))"
  using assms
proof (cases rule: restart_cases)
  case (refused code)
  obtain m1 where "h' = h @ m1" "set m1 \<subseteq> waiting_calls name" "pauses m1 = 0"
    using stop_service_calls [OF refused(1)] by blast
  then show ?thesis using refused a_start_was_made [of name] by (intro exI [of _ m1]) auto
next
  case (waited stopped h1 code)
  obtain m1 where m1: "h1 = h @ m1" "set m1 \<subseteq> waiting_calls name" "pauses m1 = 0"
    using stop_service_calls [OF waited(1)] by blast
  obtain m2 where m2: "h' = h1 @ m2" "set m2 \<subseteq> waiting_calls name" "pauses m2 \<le> 300"
    using wait_for_status_calls [OF waited(2)] by blast
  show ?thesis using m1 m2 waited(3) a_start_was_made [of name] by (intro exI [of _ "m1 @ m2"]) auto
next
  case (started stopped h1 h2)
  obtain m1 where m1: "h1 = h @ m1" "set m1 \<subseteq> waiting_calls name" "pauses m1 = 0"
    using stop_service_calls [OF started(1)] by blast
  obtain m2 earlier where m2: "h2 = h1 @ m2" "set m2 \<subseteq> waiting_calls name" "pauses m2 \<le> 300"
    "m2 = earlier @ [QueryStatus name]" "w (h1 @ earlier) (QueryStatus name) = Inr SERVICE_STOPPED"
    using wait_for_status_calls [OF started(2)] by blast
  consider "h' = h2 @ [OpenService name SERVICE_START]" "r \<noteq> Inr ()"
    | "h' = h2 @ [OpenService name SERVICE_START, StartService name]"
      "r = Inr () \<longleftrightarrow> (\<exists>v. w (h2 @ [OpenService name SERVICE_START]) (StartService name) = Inr v)"
    using start_service_calls [OF started(3)] by blast
  then show ?thesis
  proof cases
    case 1
    then show ?thesis using m1 m2 a_start_was_made [of name]
      by (intro exI [of _ "m1 @ m2 @ [OpenService name SERVICE_START]"]) auto
  next
    case 2
    then show ?thesis using m1 m2
      by (intro exI [of _ "m1 @ m2 @ [OpenService name SERVICE_START, StartService name]"])
        (auto simp: butlast_append)
  qed
qed

text \<open>A service that is stopping when first asked, and stopped when asked again.\<close>
definition stops_slowly :: windows where
  "stops_slowly h c =
    (case c of QueryStatus _ \<Rightarrow> if length h < 5 then Inr 3 else Inr SERVICE_STOPPED | _ \<Rightarrow> Inr 0)"

lemma it_is_restarted:
  "restart_service stops_slowly ''w'' [] = (Inr (),
    [OpenService ''w'' (or SERVICE_STOP SERVICE_QUERY_STATUS), ControlService ''w'' SERVICE_CONTROL_STOP,
     OpenService ''w'' SERVICE_QUERY_STATUS, QueryStatus ''w'', Pause POLL_EVERY, QueryStatus ''w'',
     OpenService ''w'' SERVICE_START, StartService ''w''])"
proof -
  have "wait_loop stops_slowly ''w'' SERVICE_STOPPED (Suc (Suc 298))
      [OpenService ''w'' (or SERVICE_STOP SERVICE_QUERY_STATUS), ControlService ''w'' SERVICE_CONTROL_STOP,
       OpenService ''w'' SERVICE_QUERY_STATUS] =
    (Inr (), [OpenService ''w'' (or SERVICE_STOP SERVICE_QUERY_STATUS), ControlService ''w'' SERVICE_CONTROL_STOP,
       OpenService ''w'' SERVICE_QUERY_STATUS, QueryStatus ''w'', Pause POLL_EVERY, QueryStatus ''w''])"
    by (simp only: wait_loop.simps) (simp add: try_call_def stops_slowly_def SERVICE_STOPPED_def)
  then show ?thesis
    by (simp add: restart_service_def stop_service_def send_control_def start_service_def wait_for_status_def
      last_call_def try_call_def stops_slowly_def)
qed

lemma a_restart_starts_only_what_stopped_witness:
  "\<exists>earlier. snd (restart_service stops_slowly ''w'' []) =
      earlier @ [QueryStatus ''w'', OpenService ''w'' SERVICE_START, StartService ''w''] \<and>
    stops_slowly earlier (QueryStatus ''w'') = Inr SERVICE_STOPPED"
  using a_restart_starts_only_what_stopped [OF it_is_restarted] by (auto simp: it_is_restarted)

section \<open>What a command reaches\<close>

text \<open>The target a call is about; none for the connection and a pause.\<close>
fun call_target :: "system_call \<Rightarrow> target option" where
  "call_target OpenManager = None"
| "call_target (OpenService name _) = Some (OnService name)"
| "call_target (StartService name) = Some (OnService name)"
| "call_target (ControlService name _) = Some (OnService name)"
| "call_target (QueryStatus name) = Some (OnService name)"
| "call_target (Pause _) = None"
| "call_target (OpenProcess _ pid) = Some (OnProcess pid)"
| "call_target (TerminateProcess pid) = Some (OnProcess pid)"
| "call_target (SuspendProcess pid) = Some (OnProcess pid)"
| "call_target (ResumeProcess pid) = Some (OnProcess pid)"
| "call_target (SetPriorityClass pid _) = Some (OnProcess pid)"
| "call_target (SetAffinityMask pid _) = Some (OnProcess pid)"

definition calls_only :: "target \<Rightarrow> system_call list \<Rightarrow> bool" where
  "calls_only t made \<longleftrightarrow> list_all (\<lambda>c. call_target c \<in> {None, Some t}) made"

lemma calls_only_simps [simp]:
  "calls_only t []" "calls_only t (c # cs) \<longleftrightarrow> call_target c \<in> {None, Some t} \<and> calls_only t cs"
  "calls_only t (cs @ ds) \<longleftrightarrow> calls_only t cs \<and> calls_only t ds"
  by (auto simp: calls_only_def)

text \<open>A step that only adds calls about a target.\<close>
definition adds_only :: "target \<Rightarrow> system_call list \<Rightarrow> 'r \<times> system_call list \<Rightarrow> bool" where
  "adds_only t h out \<longleftrightarrow> (\<exists>made. snd out = h @ made \<and> calls_only t made)"

lemma adds_only_done [simp]: "adds_only t h (r, h)"
  by (simp add: adds_only_def)

lemma adds_only_trans:
  "adds_only t h (r, h1) \<Longrightarrow> adds_only t h1 out \<Longrightarrow> adds_only t h out"
  by (fastforce simp: adds_only_def)

lemma adds_only_call:
  "call_target c \<in> {None, Some t} \<Longrightarrow> adds_only t (h @ [c]) out \<Longrightarrow> adds_only t h out"
  by (fastforce simp: adds_only_def)

lemma adds_only_try:
  assumes "call_target c \<in> {None, Some t}" "\<And>v. adds_only t (h @ [c]) (next_step v (h @ [c]))"
  shows "adds_only t h (try_call w c h next_step)"
proof (rule adds_only_call [OF assms(1)])
  show "adds_only t (h @ [c]) (try_call w c h next_step)"
    using assms(2) by (cases "w h c") (simp_all add: try_call_def)
qed

lemma adds_only_last: "call_target c \<in> {None, Some t} \<Longrightarrow> adds_only t h (last_call w c h)"
  by (auto simp: last_call_def intro: adds_only_try)

lemma start_service_only: "adds_only (OnService name) h (start_service w name h)"
  by (auto simp: start_service_def intro!: adds_only_try adds_only_last)

lemma send_control_only: "adds_only (OnService name) h (send_control w name control access h)"
  by (auto simp: send_control_def intro!: adds_only_try adds_only_last)

lemma wait_loop_only: "adds_only (OnService name) h (wait_loop w name desired n h)"
proof (induction n arbitrary: h)
  case (Suc n)
  have "adds_only (OnService name) (h @ [QueryStatus name]) (wait_loop w name desired n ((h @ [QueryStatus name]) @ [Pause POLL_EVERY]))"
    by (rule adds_only_call [OF _ Suc.IH]) simp
  then have "adds_only (OnService name) (h @ [QueryStatus name])
      (if v = desired then (Inr (), h @ [QueryStatus name])
       else wait_loop w name desired n ((h @ [QueryStatus name]) @ [Pause POLL_EVERY]))" for v
    by (cases "v = desired") simp_all
  then show ?case unfolding wait_loop.simps by (rule adds_only_try [rotated]) simp
qed simp

lemma restart_service_only: "adds_only (OnService name) h (restart_service w name h)"
proof -
  obtain r h' where out: "restart_service w name h = (r, h')" by fastforce
  have wait: "adds_only (OnService name) h (wait_for_status w name desired h)" for h desired
    by (auto simp: wait_for_status_def intro!: adds_only_try wait_loop_only)
  show ?thesis
    using out
  proof (cases rule: restart_cases)
    case (refused code)
    then show ?thesis using send_control_only [of name h w] out by (metis stop_service_def adds_only_def snd_conv)
  next
    case (waited stopped h1 code)
    then show ?thesis using send_control_only [of name h w] wait [of h1] out adds_only_trans
      by (metis stop_service_def)
  next
    case (started stopped h1 h2)
    then show ?thesis using send_control_only [of name h w] wait [of h1] start_service_only [of name h2 w] out adds_only_trans
      by (metis stop_service_def)
  qed
qed

lemma act_on_service_only: "adds_only (OnService name) h (act_on_service w name action h)"
  by (cases action) (simp_all add: start_service_only send_control_only restart_service_only stop_service_def)

lemma service_command_only: "adds_only (OnService name) h (service_command w held name action h)"
proof (cases "scm_connection w held h")
  case (Pair r h1)
  obtain code held' where r: "r = (code, held')" by fastforce
  have conn: "adds_only (OnService name) h (r, h1)"
    using Pair by (auto simp: scm_connection_def adds_only_def split: if_splits sum.splits)
  show ?thesis
  proof (cases code)
    case None
    obtain result h2 where act: "act_on_service w name action h1 = (result, h2)" by fastforce
    have "adds_only (OnService name) h (result, h2)"
      using adds_only_trans [OF conn act_on_service_only] act by metis
    then show ?thesis using Pair r None act by (simp add: service_command_def control_act_def adds_only_def)
  next
    case (Some c)
    then show ?thesis using Pair r conn by (simp add: service_command_def control_act_def adds_only_def)
  qed
qed

text \<open>
  C32 A command calls Windows about the process or service it names and no other, nothing
  at all while another command runs for it, and nothing to kill or suspend the agent.
\<close>
theorem a_command_reaches_only_its_target:
  "adds_only (target_of c) h (run_command busy w me held c h) \<and>
    (busy (target_of c) \<or> c \<in> {Kill me, Suspend me} \<longrightarrow>
      snd (run_command busy w me held c h) = h \<and> fst (run_command busy w me held c h) \<noteq> Inr ())"
  by (cases c)
    (auto simp: run_command_def kill_process_def suspend_process_def on_process_def service_command_only
      intro!: adds_only_try adds_only_last)

lemma a_command_reaches_only_its_target_witness:
  "run_command (\<lambda>_. False) stops_slowly 7 False (Kill 7) [] = (Inl ERROR_ACCESS_DENIED, []) \<and>
   snd (run_command (\<lambda>t. t = OnProcess 9) stops_slowly 7 False (Kill 9) []) = []"
  using a_command_reaches_only_its_target [of "Kill 9" "[]" "\<lambda>t. t = OnProcess 9" stops_slowly 7 False]
  by (simp add: run_command_def kill_process_def)

end
