(* ===== verification/Inventory.thy ===== *)
theory Inventory
  imports Api
begin

text \<open>
  \<^verbatim>\<open>src/scm/inventory.rs\<close>, the state and status of \<^verbatim>\<open>src/scm/mod.rs\<close> and the progress of
  \<^verbatim>\<open>src/scm/own.rs\<close>: how the machine's services are listed, and how each is described by its
  configuration, which is read again when the service runs in another process or the
  reading is half a minute old.
\<close>

section \<open>States\<close>

definition service_state_of :: "u32 \<Rightarrow> service_state" where
  "service_state_of raw =
    (if raw = 1 then SvcStopped
     else if raw = 2 then SvcStartPending
     else if raw = 3 then SvcStopPending
     else if raw = 4 then SvcRunning
     else if raw = 5 then SvcContinuePending
     else if raw = 6 then SvcPausePending
     else if raw = 7 then SvcPaused
     else SvcUnknown)"

text \<open>\<^verbatim>\<open>SERVICE_STATUS_PROCESS\<close>.\<close>
record raw_status =
  dwServiceType :: u32
  dwCurrentState :: u32
  dwControlsAccepted :: u32
  dwWin32ExitCode :: u32
  dwServiceSpecificExitCode :: u32
  dwCheckPoint :: u32
  dwWaitHint :: u32
  dwProcessId :: u32

definition service_status_of :: "raw_status \<Rightarrow> service_status" where
  "service_status_of raw =
    \<lparr>st_state = service_state_of (dwCurrentState raw), st_pid = dwProcessId raw,
     st_exit_code = dwWin32ExitCode raw, st_service_exit_code = dwServiceSpecificExitCode raw,
     st_checkpoint = dwCheckPoint raw, st_wait_hint_ms = dwWaitHint raw\<rparr>"

definition START_STEPS :: u32 where "START_STEPS = 5"
definition STOP_STEPS :: u32 where "STOP_STEPS = 2"

text \<open>The steps behind a pending start or stop and all its steps: the progress is their quotient.\<close>
definition service_progress :: "service_status \<Rightarrow> (u32 \<times> u32) option" where
  "service_progress status =
    (case (case st_state status of
             SvcStartPending \<Rightarrow> Some START_STEPS
           | SvcStopPending \<Rightarrow> Some STOP_STEPS
           | _ \<Rightarrow> None) of
       None \<Rightarrow> None
     | Some steps \<Rightarrow> Some (min (st_checkpoint status) steps, steps))"

section \<open>Configuration\<close>

text \<open>What Windows tells of a service opened for its configuration; a text that is no UTF-16 is None.\<close>
record config_answers =
  an_config_size :: u32
  an_config :: "(string option \<times> string option \<times> u32 \<times> string option) option"
  an_delayed :: "bool option"
  an_description_size :: u32
  an_description :: "string option option"

record service_config =
  cf_load_group :: string
  cf_description :: string
  cf_image_path :: string
  cf_pid :: u32
  cf_startup_type :: service_start_type
  cf_delayed_auto :: bool
  cf_account :: string
  cf_read_at :: "instant option"

definition startup_type :: "u32 \<Rightarrow> service_start_type" where
  "startup_type v =
    (if v = 0 then StartBoot
     else if v = 1 then StartSystem
     else if v = 2 then StartAutomatic
     else if v = 3 then StartManual
     else if v = 4 then StartDisabled
     else StartUnknown)"

definition or_default :: "string option \<Rightarrow> string" where
  "or_default t = (case t of Some text \<Rightarrow> text | None \<Rightarrow> [])"

text \<open>\<^verbatim>\<open>config\<close>: the answers are None for a service that cannot be opened.\<close>
definition read_config :: "config_answers option \<Rightarrow> instant \<Rightarrow> service_config option" where
  "read_config answers now =
    (case answers of
       None \<Rightarrow> None
     | Some a \<Rightarrow>
         if an_config_size a = 0 then None
         else (case an_config a of
             None \<Rightarrow> None
           | Some (load_group, image_path, start, account) \<Rightarrow>
               Some \<lparr>cf_load_group = or_default load_group,
                 cf_description =
                   (if an_description_size a > 0 then (case an_description a of Some t \<Rightarrow> or_default t | None \<Rightarrow> []) else []),
                 cf_image_path = or_default image_path,
                 cf_pid = 0,
                 cf_startup_type =
                   (if an_delayed a = None \<and> startup_type start = StartAutomatic then StartUnknown else startup_type start),
                 cf_delayed_auto = (case an_delayed a of Some d \<Rightarrow> d | None \<Rightarrow> False),
                 cf_account = or_default account,
                 cf_read_at = Some now\<rparr>))"

section \<open>Describing a scan\<close>

definition CONFIG_AGE :: duration where "CONFIG_AGE = secs 30"

definition config_is_current :: "(string, service_config) hashmap \<Rightarrow> service_stats \<Rightarrow> instant \<Rightarrow> bool" where
  "config_is_current configs service now =
    (case hm_get configs (sv_name service) of
       None \<Rightarrow> False
     | Some c \<Rightarrow> cf_pid c = sv_pid service \<and>
         (case cf_read_at c of None \<Rightarrow> False | Some at \<Rightarrow> now - at < CONFIG_AGE))"

definition described :: "service_config \<Rightarrow> service_stats \<Rightarrow> service_stats" where
  "described c service = service
    \<lparr>sv_load_group := cf_load_group c, sv_description := cf_description c, sv_image_path := cf_image_path c,
     sv_startup_type := cf_startup_type c, sv_delayed_auto := cf_delayed_auto c, sv_account := cf_account c\<rparr>"

text \<open>
  One service of the scan. \<open>ask\<close> is what Windows answers about a service at a time, and
  \<open>now\<close> when the service's turn comes: the age is looked at and the configuration read at it.
\<close>
definition describe_one ::
    "(string \<Rightarrow> instant \<Rightarrow> config_answers option) \<Rightarrow> instant \<Rightarrow> service_stats \<Rightarrow>
      (string, service_config) hashmap \<Rightarrow> service_stats \<times> (string, service_config) hashmap" where
  "describe_one ask now service configs =
    (let configs = (if config_is_current configs service now then configs
           else case read_config (ask (sv_name service) now) now of
                  Some read \<Rightarrow> hm_put (sv_name service) (read\<lparr>cf_pid := sv_pid service\<rparr>) configs
                | None \<Rightarrow> configs)
     in (case hm_get configs (sv_name service) of Some c \<Rightarrow> described c service | None \<Rightarrow> service, configs))"

fun describe_each ::
    "(string \<Rightarrow> instant \<Rightarrow> config_answers option) \<Rightarrow> (nat \<Rightarrow> instant) \<Rightarrow> service_stats list \<Rightarrow>
      (string, service_config) hashmap \<Rightarrow> service_stats list \<times> (string, service_config) hashmap" where
  "describe_each ask clock [] configs = ([], configs)"
| "describe_each ask clock (service # services) configs =
    (case describe_one ask (clock 0) service configs of
       (service, configs) \<Rightarrow>
         (case describe_each ask (\<lambda>i. clock (Suc i)) services configs of
            (services, configs) \<Rightarrow> (service # services, configs)))"

definition describe_services ::
    "(string \<Rightarrow> instant \<Rightarrow> config_answers option) \<Rightarrow> (nat \<Rightarrow> instant) \<Rightarrow> service_stats list \<Rightarrow>
      (string, service_config) hashmap \<Rightarrow> service_stats list \<times> (string, service_config) hashmap" where
  "describe_services ask clock services configs =
    (case describe_each ask clock services configs of
       (services, configs) \<Rightarrow>
         (services, filter (\<lambda>(name, _). list_ex (\<lambda>s. sv_name s = name) services) configs))"

section \<open>Listing\<close>

definition ERROR_MORE_DATA :: u32 where "ERROR_MORE_DATA = 234"
definition LIST_ATTEMPTS :: nat where "LIST_ATTEMPTS = 4"
definition LIST_SLACK :: u32 where "LIST_SLACK = 4096"

record raw_service =
  rs_name :: "string option"
  rs_display_name :: "string option"
  rs_status :: raw_status

definition service_entry :: "raw_service \<Rightarrow> service_stats" where
  "service_entry e = (service_stats_new (or_default (rs_name e)) (dwProcessId (rs_status e)))
    \<lparr>sv_display_name := or_default (rs_display_name e),
     sv_state := service_state_of (dwCurrentState (rs_status e)),
     sv_service_type := dwServiceType (rs_status e),
     sv_accepted_controls := dwControlsAccepted (rs_status e)\<rparr>"

text \<open>
  \<^verbatim>\<open>EnumServicesStatusExW\<close> with a buffer of that many bytes: the services, or the code it
  failed with and the bytes it says are needed.
\<close>
type_synonym service_listing = "u32 \<Rightarrow> (u32 \<times> u32) + raw_service list"

text \<open>The buffer is counted in 64-bit words.\<close>
definition words_for :: "u32 \<Rightarrow> nat" where
  "words_for needed = unat ((needed + LIST_SLACK) div 8) + (if (needed + LIST_SLACK) mod 8 = 0 then 0 else 1)"

fun enumerate_services :: "(nat \<Rightarrow> service_listing) \<Rightarrow> nat \<Rightarrow> nat \<Rightarrow> service_stats list option \<times> nat" where
  "enumerate_services win 0 held = (None, held)"
| "enumerate_services win (Suc n) held =
    (case win 0 (of_nat (held * 8)) of
       Inr found \<Rightarrow> (Some (map service_entry found), held)
     | Inl (code, needed) \<Rightarrow>
         if code = ERROR_MORE_DATA then enumerate_services (\<lambda>i. win (Suc i)) n (words_for needed)
         else (None, held))"

record inventory =
  iv_words :: nat
  iv_configs :: "(string, service_config) hashmap"

definition inventory_new :: inventory where
  "inventory_new = \<lparr>iv_words = 0, iv_configs = []\<rparr>"

definition scan_services ::
    "(nat \<Rightarrow> service_listing) \<Rightarrow> (string \<Rightarrow> instant \<Rightarrow> config_answers option) \<Rightarrow> (nat \<Rightarrow> instant) \<Rightarrow> inventory \<Rightarrow>
      service_stats list option \<times> inventory" where
  "scan_services win ask clock v =
    (case enumerate_services win LIST_ATTEMPTS (iv_words v) of
       (None, held) \<Rightarrow> (None, v\<lparr>iv_words := held\<rparr>)
     | (Some services, held) \<Rightarrow>
         (case describe_services ask clock services (iv_configs v) of
            (services, configs) \<Rightarrow> (Some services, \<lparr>iv_words = held, iv_configs = configs\<rparr>)))"

section \<open>What a scan tells\<close>

text \<open>The services a scan lists, with the time each one's turn comes.\<close>
definition listed_by :: "(nat \<Rightarrow> service_listing) \<Rightarrow> inventory \<Rightarrow> service_stats list" where
  "listed_by win v = (case enumerate_services win LIST_ATTEMPTS (iv_words v) of (None, _) \<Rightarrow> [] | (Some services, _) \<Rightarrow> services)"

definition sighted :: "(nat \<Rightarrow> instant) \<Rightarrow> service_stats list \<Rightarrow> (string \<times> u32 \<times> instant) set" where
  "sighted clock services = (\<lambda>i. (sv_name (services ! i), sv_pid (services ! i), clock i)) ` {0..<length services}"

type_synonym scan_input = "(nat \<Rightarrow> service_listing) \<times> (nat \<Rightarrow> instant)"

fun scan_run :: "(string \<Rightarrow> instant \<Rightarrow> config_answers option) \<Rightarrow> scan_input list \<Rightarrow> inventory \<Rightarrow> inventory" where
  "scan_run ask [] v = v"
| "scan_run ask ((win, clock) # scans) v = scan_run ask scans (snd (scan_services win ask clock v))"

fun sightings :: "(string \<Rightarrow> instant \<Rightarrow> config_answers option) \<Rightarrow> scan_input list \<Rightarrow> inventory \<Rightarrow> (string \<times> u32 \<times> instant) set" where
  "sightings ask [] v = {}"
| "sightings ask ((win, clock) # scans) v =
    sighted clock (listed_by win v) \<union> sightings ask scans (snd (scan_services win ask clock v))"

text \<open>What is held of a service was read of it, while it was listed in that process.\<close>
definition config_true ::
    "(string \<Rightarrow> instant \<Rightarrow> config_answers option) \<Rightarrow> (string \<times> u32 \<times> instant) set \<Rightarrow> string \<Rightarrow> service_config \<Rightarrow> bool" where
  "config_true ask seen name c \<longleftrightarrow>
    (case cf_read_at c of
       None \<Rightarrow> False
     | Some at \<Rightarrow> (name, cf_pid c, at) \<in> seen \<and>
         map_option (\<lambda>r. r\<lparr>cf_pid := cf_pid c\<rparr>) (read_config (ask name at) at) = Some c)"

definition configs_true ::
    "(string \<Rightarrow> instant \<Rightarrow> config_answers option) \<Rightarrow> (string \<times> u32 \<times> instant) set \<Rightarrow> (string, service_config) hashmap \<Rightarrow> bool" where
  "configs_true ask seen configs \<longleftrightarrow>
    hm_ok configs \<and> (\<forall>name c. hm_get configs name = Some c \<longrightarrow> config_true ask seen name c)"

lemma configs_true_mono: "configs_true ask seen configs \<Longrightarrow> seen \<subseteq> seen' \<Longrightarrow> configs_true ask seen' configs"
  by (fastforce simp: configs_true_def config_true_def split: option.splits)

lemma read_config_at: "read_config answers now = Some c \<Longrightarrow> cf_read_at c = Some now"
  by (auto simp: read_config_def split: option.splits if_splits)

lemma config_true_read:
  "read_config (ask name now) now = Some c \<Longrightarrow> (name, pid, now) \<in> seen \<Longrightarrow>
    config_true ask seen name (c\<lparr>cf_pid := pid\<rparr>)"
  using read_config_at [of "ask name now" now c] by (simp add: config_true_def)

text \<open>What is told of a service: the configuration of at most half a minute ago when it can be read now.\<close>
definition told_fresh ::
    "(string \<Rightarrow> instant \<Rightarrow> config_answers option) \<Rightarrow> (string \<times> u32 \<times> instant) set \<Rightarrow> instant \<Rightarrow> service_stats \<Rightarrow> service_stats \<Rightarrow> bool" where
  "told_fresh ask seen now listed told \<longleftrightarrow>
    (\<exists>at c. read_config (ask (sv_name listed) at) at = Some c \<and> now - at < CONFIG_AGE \<and>
      (sv_name listed, sv_pid listed, at) \<in> seen \<and> told = described c listed)"

lemma described_pid [simp]: "described (c\<lparr>cf_pid := pid\<rparr>) s = described c s"
  by (simp add: described_def)

lemma described_name [simp]: "sv_name (described c s) = sv_name s"
  by (simp add: described_def)

lemma describe_one_true:
  assumes "configs_true ask seen configs" "(sv_name s, sv_pid s, now) \<in> seen"
    "describe_one ask now s configs = (told, configs')"
  shows "configs_true ask seen configs'" "sv_name told = sv_name s"
    "read_config (ask (sv_name s) now) now \<noteq> None \<Longrightarrow> told_fresh ask seen now s told"
proof -
  show name: "sv_name told = sv_name s"
    using assms(3) by (auto simp: describe_one_def Let_def split: option.splits)
  consider (current) "config_is_current configs s now" | (unread) "\<not> config_is_current configs s now" "read_config (ask (sv_name s) now) now = None"
    | (read) c where "\<not> config_is_current configs s now" "read_config (ask (sv_name s) now) now = Some c"
    by (cases "read_config (ask (sv_name s) now) now") auto
  then have "configs_true ask seen configs' \<and>
    (read_config (ask (sv_name s) now) now \<noteq> None \<longrightarrow> told_fresh ask seen now s told)"
  proof cases
    case current
    then obtain c at where c: "hm_get configs (sv_name s) = Some c" "cf_pid c = sv_pid s" "cf_read_at c = Some at"
      "now - at < CONFIG_AGE"
      by (auto simp: config_is_current_def split: option.splits)
    have told: "told = described c s" "configs' = configs"
      using assms(3) current c by (auto simp: describe_one_def)
    have "config_true ask seen (sv_name s) c" using assms(1) c by (simp add: configs_true_def)
    then obtain r where r: "read_config (ask (sv_name s) at) at = Some r" "c = r\<lparr>cf_pid := cf_pid c\<rparr>"
      "(sv_name s, cf_pid c, at) \<in> seen"
      using c by (auto simp: config_true_def)
    have "described c s = described r s" using r(2) described_pid by metis
    then have "told_fresh ask seen now s told" using r c told unfolding told_fresh_def by metis
    then show ?thesis using told assms(1) by simp
  next
    case unread
    then show ?thesis using assms(1,3) by (simp add: describe_one_def)
  next
    case (read c)
    let ?c = "c\<lparr>cf_pid := sv_pid s\<rparr>"
    have new: "configs' = hm_put (sv_name s) ?c configs" and told: "told = described c s"
      using assms(3) read by (auto simp: describe_one_def hm)
    have "configs_true ask seen configs'"
      using assms(1) config_true_read [of ask "sv_name s" now c "sv_pid s" seen] read(2) assms(2)
      unfolding new by (simp add: configs_true_def hm)
    moreover have "told_fresh ask seen now s told"
      using read(2) assms(2) told unfolding told_fresh_def CONFIG_AGE_def
      by (intro exI [of _ now] exI [of _ c]) simp
    ultimately show ?thesis by simp
  qed
  then show "configs_true ask seen configs'"
    "read_config (ask (sv_name s) now) now \<noteq> None \<Longrightarrow> told_fresh ask seen now s told" by auto
qed

lemma describe_each_true:
  assumes "configs_true ask seen configs" "sighted clock services \<subseteq> seen"
    "describe_each ask clock services configs = (told, configs')"
  shows "configs_true ask seen configs' \<and> map sv_name told = map sv_name services \<and>
    (\<forall>i<length services. read_config (ask (sv_name (services ! i)) (clock i)) (clock i) \<noteq> None \<longrightarrow>
      told_fresh ask seen (clock i) (services ! i) (told ! i))"
  using assms
proof (induction services arbitrary: clock configs told)
  case Nil
  then show ?case by simp
next
  case (Cons s services)
  obtain t configs1 where one: "describe_one ask (clock 0) s configs = (t, configs1)" by fastforce
  obtain ts where each: "describe_each ask (\<lambda>i. clock (Suc i)) services configs1 = (ts, configs')" and told: "told = t # ts"
    using Cons.prems(3) one by (auto split: prod.splits)
  have seen: "(sv_name s, sv_pid s, clock 0) \<in> seen"
    using Cons.prems(2) by (force simp: sighted_def)
  have "sighted (\<lambda>i. clock (Suc i)) services \<subseteq> seen"
    using Cons.prems(2) by (fastforce simp: sighted_def)
  note first = describe_one_true [OF Cons.prems(1) seen one]
  note rest' = Cons.IH [OF first(1) \<open>sighted (\<lambda>i. clock (Suc i)) services \<subseteq> seen\<close> each]
  show ?case
  proof (intro conjI allI impI)
    show "configs_true ask seen configs'" using rest' by simp
    show "map sv_name told = map sv_name (s # services)" using rest' first(2) told by simp
  next
    fix i
    assume "i < length (s # services)"
      "read_config (ask (sv_name ((s # services) ! i)) (clock i)) (clock i) \<noteq> None"
    then show "told_fresh ask seen (clock i) ((s # services) ! i) (told ! i)"
      using rest' first(3) told by (cases i) simp_all
  qed
qed

lemma configs_true_filter: "configs_true ask seen configs \<Longrightarrow> configs_true ask seen (filter P configs)"
  by (auto simp: configs_true_def hm split: option.splits if_splits)

lemma scan_services_true:
  assumes "configs_true ask seen (iv_configs v)" "sighted clock (listed_by win v) \<subseteq> seen"
    "scan_services win ask clock v = (told, v')"
  shows "configs_true ask seen (iv_configs v')"
    "told = Some services \<Longrightarrow> map sv_name services = map sv_name (listed_by win v) \<and>
      (\<forall>i<length services.
        read_config (ask (sv_name (services ! i)) (clock i)) (clock i) \<noteq> None \<longrightarrow>
        told_fresh ask seen (clock i) (listed_by win v ! i) (services ! i)) \<and>
      hm_keys (iv_configs v') \<subseteq> sv_name ` set services"
proof -
  obtain found held where list: "enumerate_services win LIST_ATTEMPTS (iv_words v) = (found, held)" by fastforce
  have "configs_true ask seen (iv_configs v') \<and>
    (\<forall>services. told = Some services \<longrightarrow> map sv_name services = map sv_name (listed_by win v) \<and>
      (\<forall>i<length services.
        read_config (ask (sv_name (services ! i)) (clock i)) (clock i) \<noteq> None \<longrightarrow>
        told_fresh ask seen (clock i) (listed_by win v ! i) (services ! i)) \<and>
      hm_keys (iv_configs v') \<subseteq> sv_name ` set services)"
  proof (cases found)
    case None
    then show ?thesis using assms list by (auto simp: scan_services_def)
  next
    case (Some ss)
    obtain told' configs' where each: "describe_each ask clock ss (iv_configs v) = (told', configs')" by fastforce
    have ss: "listed_by win v = ss" using list Some by (simp add: listed_by_def)
    note d = describe_each_true [OF assms(1) assms(2) [unfolded ss] each]
    have names: "map sv_name told' = map sv_name ss" using d by simp
    then have same: "length told' = length ss" "\<And>i. i < length ss \<Longrightarrow> sv_name (told' ! i) = sv_name (ss ! i)"
      by (auto dest: map_eq_imp_length_eq) (metis length_map nth_map)
    have out: "told = Some told'" "iv_configs v' = filter (\<lambda>(name, _). list_ex (\<lambda>s. sv_name s = name) told') configs'"
      using assms(3) list Some each by (auto simp: scan_services_def describe_services_def)
    have keys: "hm_keys (iv_configs v') \<subseteq> sv_name ` set told'" unfolding out(2) by (auto simp: list_ex_iff)
    show ?thesis using d out configs_true_filter names same keys ss by auto
  qed
  then show "configs_true ask seen (iv_configs v')"
    "told = Some services \<Longrightarrow> map sv_name services = map sv_name (listed_by win v) \<and>
      (\<forall>i<length services.
        read_config (ask (sv_name (services ! i)) (clock i)) (clock i) \<noteq> None \<longrightarrow>
        told_fresh ask seen (clock i) (listed_by win v ! i) (services ! i)) \<and>
      hm_keys (iv_configs v') \<subseteq> sv_name ` set services"
    by auto
qed

lemma scan_run_true:
  "configs_true ask seen (iv_configs v) \<Longrightarrow>
    configs_true ask (seen \<union> sightings ask scans v) (iv_configs (scan_run ask scans v))"
proof (induction scans arbitrary: v seen)
  case Nil
  then show ?case by simp
next
  case (Cons s scans)
  obtain win clock where s: "s = (win, clock)" by fastforce
  obtain told v1 where scan: "scan_services win ask clock v = (told, v1)" by fastforce
  let ?seen = "seen \<union> sighted clock (listed_by win v)"
  have "configs_true ask ?seen (iv_configs v1)"
    using scan_services_true(1) [OF configs_true_mono [OF Cons.prems, of ?seen] _ scan] by simp
  from Cons.IH [OF this] show ?case using s scan by (simp add: Un_assoc)
qed

lemma configs_true_new: "configs_true ask {} (iv_configs inventory_new)"
  by (simp add: configs_true_def inventory_new_def)

text \<open>
  C33 A service whose configuration can be read is told with what Windows had configured
  less than half a minute before, read while the service was listed in the process it
  is in now; nothing else of its listing changes, and nothing is kept of a service no
  longer listed.
\<close>
theorem services_are_told_as_configured:
  assumes "scan_services win ask clock (scan_run ask earlier inventory_new) = (Some told, v')"
  shows "map sv_name told = map sv_name (listed_by win (scan_run ask earlier inventory_new)) \<and>
    (\<forall>i<length told. read_config (ask (sv_name (told ! i)) (clock i)) (clock i) \<noteq> None \<longrightarrow>
      told_fresh ask (sightings ask (earlier @ [(win, clock)]) inventory_new) (clock i)
        (listed_by win (scan_run ask earlier inventory_new) ! i) (told ! i)) \<and>
    hm_keys (iv_configs v') \<subseteq> sv_name ` set told"
proof -
  let ?v = "scan_run ask earlier inventory_new"
  have all: "sightings ask (earlier @ [(win, clock)]) v = sightings ask earlier v \<union> sighted clock (listed_by win (scan_run ask earlier v))" for v
    by (induction ask earlier v rule: sightings.induct) auto
  have "configs_true ask (sightings ask earlier inventory_new) (iv_configs ?v)"
    using scan_run_true [OF configs_true_new, of ask earlier] by simp
  then have "configs_true ask (sightings ask (earlier @ [(win, clock)]) inventory_new) (iv_configs ?v)"
    using configs_true_mono all by blast
  then show ?thesis
    using scan_services_true(2) [OF _ _ assms, where seen = "sightings ask (earlier @ [(win, clock)]) inventory_new"] all
    by auto
qed

definition spooler :: "u32 \<Rightarrow> raw_service" where
  "spooler pid = \<lparr>rs_name = Some ''Spooler'', rs_display_name = Some ''Print Spooler'',
    rs_status = \<lparr>dwServiceType = 16, dwCurrentState = 4, dwControlsAccepted = 1, dwWin32ExitCode = 0,
      dwServiceSpecificExitCode = 0, dwCheckPoint = 0, dwWaitHint = 0, dwProcessId = pid\<rparr>\<rparr>"

text \<open>Its configuration, which is another one from the fifth nanosecond.\<close>
definition spooler_config :: "string \<Rightarrow> instant \<Rightarrow> config_answers option" where
  "spooler_config name at = Some \<lparr>an_config_size = 64,
    an_config = Some (Some [], Some (if at < 5 then ''old.exe'' else ''new.exe''), 2, None),
    an_delayed = Some True, an_description_size = 0, an_description = None\<rparr>"

definition lists_spooler :: "u32 \<Rightarrow> nat \<Rightarrow> service_listing" where
  "lists_spooler pid attempt bytes = (if bytes < 100 then Inl (ERROR_MORE_DATA, 100) else Inr [spooler pid])"

lemma four_attempts: "LIST_ATTEMPTS = Suc (Suc (Suc (Suc 0)))"
  by (simp add: LIST_ATTEMPTS_def)

lemma lists_spooler_words: "words_for 100 = 525"
  by (simp add: words_for_def LIST_SLACK_def)

lemma enumerate_spooler:
  "enumerate_services (lists_spooler pid) LIST_ATTEMPTS 0 = (Some [service_entry (spooler pid)], 525)"
  "enumerate_services (lists_spooler pid) LIST_ATTEMPTS 525 = (Some [service_entry (spooler pid)], 525)"
  by (simp_all add: four_attempts lists_spooler_def lists_spooler_words)

text \<open>What is held of it once it was read at a time, in a process.\<close>
definition spooler_held :: "u32 \<Rightarrow> instant \<Rightarrow> service_config" where
  "spooler_held pid at = \<lparr>cf_load_group = [], cf_description = [], cf_image_path = if at < 5 then ''old.exe'' else ''new.exe'',
    cf_pid = pid, cf_startup_type = StartAutomatic, cf_delayed_auto = True, cf_account = [], cf_read_at = Some at\<rparr>"

lemma read_spooler: "read_config (spooler_config name at) at = Some (spooler_held 0 at)"
  by (simp add: read_config_def spooler_config_def spooler_held_def or_default_def startup_type_def)

lemma spooler_held_fields [simp]:
  "(spooler_held pid at)\<lparr>cf_pid := pid'\<rparr> = spooler_held pid' at" "cf_pid (spooler_held pid at) = pid"
  "cf_read_at (spooler_held pid at) = Some at"
  by (simp_all add: spooler_held_def)

lemma spooler_entry [simp]: "sv_name (service_entry (spooler pid)) = ''Spooler''" "sv_pid (service_entry (spooler pid)) = pid"
  by (simp_all add: service_entry_def spooler_def service_stats_new_def or_default_def)

lemma describe_spooler:
  "describe_services spooler_config (\<lambda>_. t) [service_entry (spooler pid)] [] =
    ([described (spooler_held pid t) (service_entry (spooler pid))], [(''Spooler'', spooler_held pid t)])"
  "describe_services spooler_config (\<lambda>_. t) [service_entry (spooler pid)] [(''Spooler'', spooler_held pid' at)] =
    (let held = (if pid' = pid \<and> t - at < CONFIG_AGE then spooler_held pid' at else spooler_held pid t) in
     ([described held (service_entry (spooler pid))], [(''Spooler'', held)]))"
  by (simp_all add: describe_services_def describe_one_def config_is_current_def read_spooler Let_def)

lemma spooler_scans:
  "scan_run spooler_config [(lists_spooler 3, \<lambda>_. 1)] inventory_new = \<lparr>iv_words = 525, iv_configs = [(''Spooler'', spooler_held 3 1)]\<rparr>"
  "scan_services (lists_spooler pid) spooler_config (\<lambda>_. 7) \<lparr>iv_words = 525, iv_configs = [(''Spooler'', spooler_held 3 1)]\<rparr> =
    (let held = (if pid = 3 then spooler_held 3 1 else spooler_held pid 7) in
     (Some [described held (service_entry (spooler pid))], \<lparr>iv_words = 525, iv_configs = [(''Spooler'', held)]\<rparr>))"
  by (simp_all add: scan_services_def enumerate_spooler inventory_new_def describe_spooler CONFIG_AGE_def Let_def)

lemma listed_spooler: "listed_by (lists_spooler pid) \<lparr>iv_words = 525, iv_configs = cs\<rparr> = [service_entry (spooler pid)]"
  by (simp add: listed_by_def enumerate_spooler)

lemma services_are_told_as_configured_witness:
  "sv_image_path (hd (the (fst (scan_services (lists_spooler 3) spooler_config (\<lambda>_. 7)
      (scan_run spooler_config [(lists_spooler 3, \<lambda>_. 1)] inventory_new))))) = ''old.exe'' \<and>
   told_fresh spooler_config (sightings spooler_config ([(lists_spooler 3, \<lambda>_. 1)] @ [(lists_spooler 3, \<lambda>_. 7)]) inventory_new) 7
    (service_entry (spooler 3)) (described (spooler_held 3 1) (service_entry (spooler 3)))"
proof -
  have scan: "scan_services (lists_spooler 3) spooler_config (\<lambda>_. 7)
      (scan_run spooler_config [(lists_spooler 3, \<lambda>_. 1)] inventory_new) =
    (Some [described (spooler_held 3 1) (service_entry (spooler 3))],
     \<lparr>iv_words = 525, iv_configs = [(''Spooler'', spooler_held 3 1)]\<rparr>)"
    unfolding spooler_scans(1) spooler_scans(2) by (simp add: Let_def)
  have listed: "listed_by (lists_spooler 3) (scan_run spooler_config [(lists_spooler 3, \<lambda>_. 1)] inventory_new) =
    [service_entry (spooler 3)]"
    unfolding spooler_scans(1) by (rule listed_spooler)
  have "told_fresh spooler_config (sightings spooler_config ([(lists_spooler 3, \<lambda>_. 1)] @ [(lists_spooler 3, \<lambda>_. 7)]) inventory_new) 7
    (service_entry (spooler 3)) (described (spooler_held 3 1) (service_entry (spooler 3)))"
    using services_are_told_as_configured [OF scan] unfolding listed by (simp add: read_spooler del: sightings.simps)
  then show ?thesis unfolding scan by (simp add: described_def spooler_held_def)
qed

end
