(* ===== verification/Lifecycle.thy ===== *)
theory Lifecycle
  imports Inventory
begin

text \<open>
  \<^verbatim>\<open>crates/service/src/service.rs\<close> with the start of the agent as it goes through
  \<^verbatim>\<open>src/local.rs\<close>, \<^verbatim>\<open>src/sources.rs\<close> and the core's \<^verbatim>\<open>Supervisor::start\<close>: what the Service Control
  Manager is told while the agent starts, runs and stops, and how the service is stopped
  for being removed.
\<close>

section \<open>The steps of the start\<close>

text \<open>\<^verbatim>\<open>Started\<close>: a step of the core's start that is behind it.\<close>
datatype started = SignatureCache | Sessions | FirstSnapshot | Verdicts

text \<open>Which of the fallible parts of a start succeed.\<close>
record start_answers =
  ok_painter :: bool
  ok_process_events :: bool
  ok_images :: bool
  ok_workers :: bool
  ok_first_snapshot :: bool
  ok_services :: bool
  ok_monitor :: bool
  ok_commands :: bool

text \<open>
  \<^verbatim>\<open>Supervisor::start\<close>: the steps told and whether it started. The sessions may fail, which
  it goes on without; the worker threads are those of mapped, the hosts and their memory.
\<close>
definition core_start :: "start_answers \<Rightarrow> started list \<times> bool" where
  "core_start a =
    (if \<not> ok_images a then ([], False)
     else if \<not> ok_workers a then ([SignatureCache, Sessions], False)
     else if \<not> ok_first_snapshot a then ([SignatureCache, Sessions], False)
     else ([SignatureCache, Sessions, FirstSnapshot, Verdicts], True))"

text \<open>\<^verbatim>\<open>Sources::start\<close>: the core, then the services, then the thread that ticks.\<close>
definition sources_start :: "start_answers \<Rightarrow> started list \<times> bool" where
  "sources_start a =
    (case core_start a of (steps, started) \<Rightarrow> (steps, started \<and> ok_services a \<and> ok_monitor a))"

text \<open>\<^verbatim>\<open>Local::launch\<close>.\<close>
definition local_launch :: "start_answers \<Rightarrow> started list \<times> bool" where
  "local_launch a =
    (if \<not> ok_painter a then ([], False)
     else if \<not> ok_process_events a then ([], False)
     else case sources_start a of (steps, started) \<Rightarrow> (steps, started \<and> ok_commands a))"

section \<open>What the SCM is told\<close>

text \<open>\<^verbatim>\<open>Step\<close>.\<close>
datatype service_step = Registered | Core started | StepRunning | Stopping | CoreStopped

fun step_told :: "service_step \<Rightarrow> service_state \<times> u32 \<times> duration" where
  "step_told Registered = (SvcStartPending, 0, secs 10)"
| "step_told (Core SignatureCache) = (SvcStartPending, 1, secs 30)"
| "step_told (Core Sessions) = (SvcStartPending, 2, secs 30)"
| "step_told (Core FirstSnapshot) = (SvcStartPending, 3, secs 60)"
| "step_told (Core Verdicts) = (SvcStartPending, 4, secs 10)"
| "step_told StepRunning = (SvcRunning, 0, 0)"
| "step_told Stopping = (SvcStopPending, 0, secs 30)"
| "step_told CoreStopped = (SvcStopPending, 1, secs 5)"

datatype service_exit = Win32Exit u32 | SpecificExit u32

text \<open>What \<^verbatim>\<open>set_status\<close> tells; \<open>to_takes_stop\<close> is whether a stop and a shutdown are accepted.\<close>
record scm_told =
  to_state :: service_state
  to_takes_stop :: bool
  to_exit :: service_exit
  to_checkpoint :: u32
  to_wait :: duration

definition set_status :: "service_state \<Rightarrow> u32 \<Rightarrow> duration \<Rightarrow> service_exit \<Rightarrow> scm_told" where
  "set_status s checkpoint wait_hint exit_code =
    \<lparr>to_state = s, to_takes_stop = (s = SvcRunning), to_exit = exit_code, to_checkpoint = checkpoint, to_wait = wait_hint\<rparr>"

definition tell_step :: "service_step \<Rightarrow> scm_told" where
  "tell_step step = (case step_told step of (s, checkpoint, next_within) \<Rightarrow> set_status s checkpoint next_within (Win32Exit 0))"

datatype service_control = ControlStop | ControlShutdown | ControlInterrogate | ControlOther
datatype handler_result = HandlerNoError | HandlerNotImplemented

text \<open>The control handler: whether it asks for the stop, and what it answers.\<close>
fun handle_control :: "service_control \<Rightarrow> bool \<times> handler_result" where
  "handle_control ControlStop = (True, HandlerNoError)"
| "handle_control ControlShutdown = (True, HandlerNoError)"
| "handle_control ControlInterrogate = (False, HandlerNoError)"
| "handle_control ControlOther = (False, HandlerNotImplemented)"

definition stop_asked :: "service_control list \<Rightarrow> bool" where
  "stop_asked controls = list_ex (\<lambda>c. fst (handle_control c)) controls"

text \<open>
  \<^verbatim>\<open>run\<close>: the steps told and how it ended; None while no stop was asked for. \<open>ok_thread\<close> and
  \<open>ok_pipe\<close> are whether the pipe's thread started and the pipe was bound.
\<close>
definition service_body :: "start_answers \<Rightarrow> bool \<Rightarrow> bool \<Rightarrow> service_control list \<Rightarrow> service_step list \<times> bool option" where
  "service_body a ok_thread ok_pipe controls =
    (case local_launch a of
       (steps, False) \<Rightarrow> (map Core steps, Some False)
     | (steps, True) \<Rightarrow>
         if \<not> ok_thread \<or> \<not> ok_pipe then (map Core steps, Some False)
         else if stop_asked controls then (map Core steps @ [StepRunning, Stopping, CoreStopped], Some True)
         else (map Core steps @ [StepRunning], None))"

definition START_FAILED :: u32 where "START_FAILED = 1"

text \<open>
  \<^verbatim>\<open>run_service\<close>: what it tells the SCM, in order, and how it ended. A status that cannot be
  set is passed over, and so is a DACL or a recovery that cannot be.
\<close>
definition run_service :: "bool \<Rightarrow> start_answers \<Rightarrow> bool \<Rightarrow> bool \<Rightarrow> service_control list \<Rightarrow> scm_told list \<times> bool option" where
  "run_service ok_register a ok_thread ok_pipe controls =
    (if \<not> ok_register then ([], Some False)
     else case service_body a ok_thread ok_pipe controls of
       (steps, how) \<Rightarrow>
         (map tell_step (Registered # steps) @
            (case how of
               None \<Rightarrow> []
             | Some ended \<Rightarrow> [set_status SvcStopped 0 0 (if ended then Win32Exit 0 else SpecificExit START_FAILED)]),
          how))"

section \<open>Recovery\<close>

record failure_actions =
  fa_reset_after :: duration
  fa_restart_after :: "duration list option"

definition recovery_actions :: failure_actions where
  "recovery_actions = \<lparr>fa_reset_after = secs (24 * 60 * 60), fa_restart_after = Some (map (\<lambda>s. secs s) [10, 30, 60])\<rparr>"

text \<open>\<^verbatim>\<open>ensure_recovery\<close>: what the service's failure actions are afterwards.\<close>
definition ensure_recovery :: "failure_actions \<Rightarrow> failure_actions" where
  "ensure_recovery now =
    (if (case fa_restart_after now of None \<Rightarrow> True | Some acts \<Rightarrow> acts = []) then recovery_actions else now)"

section \<open>Stopping for removal\<close>

definition STOP_POLL :: duration where "STOP_POLL = millis 250"

text \<open>A service found neither stopped nor stopping is asked to stop.\<close>
definition ask_stop :: "service_state \<Rightarrow> nat \<Rightarrow> nat list \<Rightarrow> nat list" where
  "ask_stop s n asked = (if s = SvcStopPending then asked else asked @ [n])"

text \<open>
  \<^verbatim>\<open>stop_within\<close> from the \<open>n\<close>th look on. \<open>look\<close> answers the state, given at which looks the
  service was asked to stop; \<open>clock n\<close> is the time right after the \<open>n\<close>th look.
\<close>
partial_function (option) stop_from ::
    "(nat list \<Rightarrow> nat \<Rightarrow> string + service_state) \<Rightarrow> (nat \<Rightarrow> instant) \<Rightarrow> instant \<Rightarrow> nat \<Rightarrow> nat list \<Rightarrow>
      ((string + bool) \<times> nat list) option" where
  "stop_from look clock deadline n asked =
    (case look asked n of
       Inl e \<Rightarrow> Some (Inl e, asked)
     | Inr s \<Rightarrow>
         if s = SvcStopped then Some (Inr True, asked)
         else if deadline < clock n then Some (Inr False, ask_stop s n asked)
         else stop_from look clock deadline (Suc n) (ask_stop s n asked))"

definition stop_within ::
    "duration \<Rightarrow> (nat list \<Rightarrow> nat \<Rightarrow> string + service_state) \<Rightarrow> instant \<Rightarrow> (nat \<Rightarrow> instant) \<Rightarrow> ((string + bool) \<times> nat list) option" where
  "stop_within span look began clock = stop_from look clock (began + span) 0 []"

text \<open>
  \<^verbatim>\<open>uninstall\<close>: whether the service was deleted and the sessions a killed one left behind are
  stopped; an error otherwise.
\<close>
definition uninstall ::
    "bool \<Rightarrow> (nat list \<Rightarrow> nat \<Rightarrow> string + service_state) \<Rightarrow> instant \<Rightarrow> (nat \<Rightarrow> instant) \<Rightarrow> string option \<Rightarrow> (string + unit) option" where
  "uninstall opened look began clock delete_error =
    (if \<not> opened then Some (Inl ''not installed'')
     else map_option (\<lambda>(stopped, _).
       case stopped of
         Inl e \<Rightarrow> Inl e
       | Inr False \<Rightarrow> Inl ''did not stop within a minute''
       | Inr True \<Rightarrow> (case delete_error of Some e \<Rightarrow> Inl e | None \<Rightarrow> Inr ()))
       (stop_within (secs 60) look began clock))"

section \<open>What is told and how a removal ends\<close>

definition checkpoints :: "service_state \<Rightarrow> scm_told list \<Rightarrow> u32 list" where
  "checkpoints s told = map to_checkpoint (filter (\<lambda>t. to_state t = s) told)"

text \<open>
  What may be told after a status: the next step of the same start or stop, under a higher
  checkpoint, or the next state of a service's life.
\<close>
definition scm_follows :: "scm_told \<Rightarrow> scm_told \<Rightarrow> bool" where
  "scm_follows t t' \<longleftrightarrow>
    (if to_state t' = to_state t then is_pending (to_state t) \<and> to_checkpoint t < to_checkpoint t'
     else (to_state t, to_state t') \<in> {(SvcStartPending, SvcRunning), (SvcStartPending, SvcStopped),
            (SvcRunning, SvcStopPending), (SvcStopPending, SvcStopped)})"

text \<open>A status says how long the next step may take while one is to come, and takes a stop while it runs.\<close>
definition scm_well_told :: "scm_told \<Rightarrow> bool" where
  "scm_well_told t \<longleftrightarrow> (is_pending (to_state t) \<longleftrightarrow> 0 < to_wait t) \<and> (to_takes_stop t \<longleftrightarrow> to_state t = SvcRunning)"

lemma launch_cases:
  "local_launch a \<in> {([], False), ([SignatureCache, Sessions], False),
    ([SignatureCache, Sessions, FirstSnapshot, Verdicts], False), ([SignatureCache, Sessions, FirstSnapshot, Verdicts], True)}"
  by (auto simp: local_launch_def sources_start_def core_start_def)

lemma body_cases:
  "service_body a t p controls \<in> {([], Some False), ([Core SignatureCache, Core Sessions], Some False),
    ([Core SignatureCache, Core Sessions, Core FirstSnapshot, Core Verdicts], Some False),
    ([Core SignatureCache, Core Sessions, Core FirstSnapshot, Core Verdicts, StepRunning], None),
    ([Core SignatureCache, Core Sessions, Core FirstSnapshot, Core Verdicts, StepRunning, Stopping, CoreStopped], Some True)}"
  by (insert launch_cases [of a], cases t; cases p; cases "stop_asked controls") (auto simp: service_body_def)

lemmas told_defs = tell_step_def set_status_def checkpoints_def scm_follows_def scm_well_told_def is_pending_def
  START_STEPS_def STOP_STEPS_def START_FAILED_def

text \<open>
  However the start goes, the SCM is told of a service in the order a service lives:
  pending statuses under growing checkpoints, with the time the next step may take, all
  the steps of the start before it runs and of the stop once it was asked to; a service
  that ended is told to have stopped, with a failure exactly when it could not start.
\<close>
theorem the_scm_hears_every_step:
  "case run_service True a ok_thread ok_pipe controls of (told, ended) \<Rightarrow>
    successively scm_follows told \<and> list_all scm_well_told told \<and> to_state (hd told) = SvcStartPending \<and>
    (if SvcRunning \<in> to_state ` set told then checkpoints SvcStartPending told = map of_nat [0..<unat START_STEPS]
     else ended = Some False) \<and>
    (case ended of
       None \<Rightarrow> to_state (List.last told) = SvcRunning
     | Some well \<Rightarrow> List.last told = set_status SvcStopped 0 0 (if well then Win32Exit 0 else SpecificExit START_FAILED) \<and>
         checkpoints SvcStopPending told = (if well then map of_nat [0..<unat STOP_STEPS] else []))"
  using body_cases [of a ok_thread ok_pipe controls]
  by (elim insertE emptyE; simp add: run_service_def told_defs upt_conv_Cons)

lemma stop_from_steps:
  "look asked n = Inl e \<Longrightarrow> stop_from look clock deadline n asked = Some (Inl e, asked)"
  "look asked n = Inr SvcStopped \<Longrightarrow> stop_from look clock deadline n asked = Some (Inr True, asked)"
  "look asked n = Inr s \<Longrightarrow> s \<noteq> SvcStopped \<Longrightarrow> deadline < clock n \<Longrightarrow>
    stop_from look clock deadline n asked = Some (Inr False, ask_stop s n asked)"
  "look asked n = Inr s \<Longrightarrow> s \<noteq> SvcStopped \<Longrightarrow> \<not> deadline < clock n \<Longrightarrow>
    stop_from look clock deadline n asked = stop_from look clock deadline (Suc n) (ask_stop s n asked)"
  by (simp_all add: stop_from.simps)

text \<open>How a stop that ended at a look went: when it says the service stopped, it was found so there.\<close>
definition stop_ended :: "(nat list \<Rightarrow> nat \<Rightarrow> string + service_state) \<Rightarrow> nat \<Rightarrow> (string + bool) \<times> nat list \<Rightarrow> bool" where
  "stop_ended look m out \<longleftrightarrow>
    (case fst out of
       Inl e \<Rightarrow> look (snd out) m = Inl e
     | Inr True \<Rightarrow> look (snd out) m = Inr SvcStopped
     | Inr False \<Rightarrow> \<exists>asked s. look asked m = Inr s \<and> s \<noteq> SvcStopped \<and> snd out = ask_stop s m asked)"

lemma stop_from_ends:
  assumes "\<And>i. late \<le> i \<Longrightarrow> deadline < clock i" "n \<le> late"
  shows "\<exists>out m. stop_from look clock deadline n asked = Some out \<and> n \<le> m \<and> m \<le> late \<and> stop_ended look m out \<and>
    (fst out = Inr False \<longrightarrow> deadline < clock m)"
  using assms(2)
proof (induction "late - n" arbitrary: n asked)
  case (0 n)
  then have over: "deadline < clock n" "n = late" using assms(1) by simp_all
  consider e where "look asked n = Inl e" | "look asked n = Inr SvcStopped" | s where "look asked n = Inr s" "s \<noteq> SvcStopped"
    by (cases "look asked n") auto
  then show ?case
    by cases (use over in \<open>fastforce simp: stop_from_steps stop_ended_def\<close>)+
next
  case (Suc k n)
  consider e where "look asked n = Inl e" | "look asked n = Inr SvcStopped"
    | s where "look asked n = Inr s" "s \<noteq> SvcStopped" "deadline < clock n"
    | s where "look asked n = Inr s" "s \<noteq> SvcStopped" "\<not> deadline < clock n"
    by (cases "look asked n") auto
  then show ?case
  proof cases
    case (4 s)
    have "k = late - Suc n" "Suc n \<le> late" using Suc.hyps(2) by simp_all
    from Suc.hyps(1) [OF this, of "ask_stop s n asked"] show ?thesis
      unfolding stop_from_steps(4) [of look asked n s deadline clock, OF 4] using Suc_leD by blast
  qed (use Suc.prems in \<open>fastforce simp: stop_from_steps stop_ended_def\<close>)+
qed

text \<open>
  Stopping a service for removal ends, at the look after the time allowed at the latest,
  whatever the service does, and it says the service stopped only when the last look found
  it stopped.
\<close>
theorem a_stop_ends_in_time:
  assumes "\<And>i. began + i * STOP_POLL \<le> clock i"
  shows "\<exists>out m. stop_within span look began clock = Some out \<and> m \<le> span div STOP_POLL + 1 \<and> stop_ended look m out \<and>
    (fst out = Inr False \<longrightarrow> began + span < clock m)"
proof -
  have late: "began + span < clock i" if "span div STOP_POLL + 1 \<le> i" for i
  proof -
    have "span < (span div STOP_POLL + 1) * STOP_POLL"
      by (simp add: STOP_POLL_def dividend_less_div_times)
    also have "\<dots> \<le> i * STOP_POLL" using that by (rule mult_le_mono1)
    finally show ?thesis using assms [of i] by simp
  qed
  show ?thesis
    using stop_from_ends [of "span div STOP_POLL + 1" "began + span" clock 0 look "[]"] late
    unfolding stop_within_def by blast
qed

text \<open>A service that runs when first looked at, then stops.\<close>
definition stops_when_asked :: "nat list \<Rightarrow> nat \<Rightarrow> string + service_state" where
  "stops_when_asked asked n = Inr (if asked = [] then SvcRunning else if n = 1 then SvcStopPending else SvcStopped)"

lemma a_stop_ends_in_time_witness:
  "stop_within (secs 60) stops_when_asked 0 (\<lambda>i. i * STOP_POLL) = Some (Inr True, [0]) \<and>
   uninstall True stops_when_asked 0 (\<lambda>i. i * STOP_POLL) None = Some (Inr ()) \<and>
   (\<exists>out m. stop_within (secs 60) stops_when_asked 0 (\<lambda>i. i * STOP_POLL) = Some out \<and> m \<le> 241 \<and>
     stop_ended stops_when_asked m out)"
proof -
  have runs: "stop_within (secs 60) stops_when_asked 0 (\<lambda>i. i * STOP_POLL) = Some (Inr True, [0])"
    by (simp add: stop_within_def stop_from.simps stops_when_asked_def ask_stop_def STOP_POLL_def)
  have "\<exists>out m. stop_within (secs 60) stops_when_asked 0 (\<lambda>i. i * STOP_POLL) = Some out \<and> m \<le> 241 \<and>
     stop_ended stops_when_asked m out"
    using a_stop_ends_in_time [of 0 "\<lambda>i. i * STOP_POLL" "secs 60" stops_when_asked] by (auto simp: STOP_POLL_def)
  with runs show ?thesis by (simp add: uninstall_def)
qed

end
