(* ===== verification/Topology.thy ===== *)
theory Topology
  imports Sample Process_Read Vm_Memory
begin

text \<open>
  \<^verbatim>\<open>crates/core/src/providers/machine/cpu_inventory.rs\<close>: packages, cores and caches from the
  records \<^verbatim>\<open>GetLogicalProcessorInformationEx\<close> fills a buffer with, and what the processor
  says of virtualization. What Windows and \<^verbatim>\<open>cpuid\<close> answer are arguments.
\<close>

section \<open>Records\<close>

definition MAX_TOPOLOGY_BYTES :: nat where
  "MAX_TOPOLOGY_BYTES = 2 ^ 20"

text \<open>The offset of the union in \<^verbatim>\<open>SYSTEM_LOGICAL_PROCESSOR_INFORMATION_EX\<close>.\<close>
definition HEADER :: nat where
  "HEADER = 8"

definition RelationProcessorCore :: i32 where "RelationProcessorCore = 0"
definition RelationCache :: i32 where "RelationCache = 2"
definition RelationProcessorPackage :: i32 where "RelationProcessorPackage = 3"

definition record_kind :: "u8 list \<Rightarrow> i32" where
  "record_kind bytes = ucast (le_word (take 4 bytes))"

definition record_size :: "u8 list \<Rightarrow> nat" where
  "record_size bytes = unat (le_word (take 4 (drop 4 bytes)))"

function records_from :: "u8 list \<Rightarrow> i32 \<Rightarrow> u8 list list option" where
  "records_from bytes relationship =
    (if bytes = [] then Some []
     else if length bytes < HEADER \<or> length bytes > MAX_TOPOLOGY_BYTES then None
     else if record_kind bytes \<noteq> relationship \<or> record_size bytes < HEADER then None
     else case slice_get bytes HEADER (record_size bytes) of
            None \<Rightarrow> None
          | Some r \<Rightarrow> map_option ((#) r) (records_from (drop (record_size bytes) bytes) relationship))"
  by pat_completeness auto
termination
  by (relation "measure (\<lambda>(bytes, _). length bytes)") (auto simp: HEADER_def)

declare records_from.simps [simp del]

definition topology_records :: "u8 list \<Rightarrow> i32 \<Rightarrow> u8 list list option" where
  "topology_records bytes relationship =
    (case records_from bytes relationship of Some [] \<Rightarrow> None | found \<Rightarrow> found)"

section \<open>Counts and caches\<close>

text \<open>
  The sizes and offsets of \<^verbatim>\<open>PROCESSOR_RELATIONSHIP\<close>, \<^verbatim>\<open>CACHE_RELATIONSHIP\<close> and
  \<^verbatim>\<open>GROUP_AFFINITY\<close>.
\<close>
definition PROCESSOR_SIZE :: nat where "PROCESSOR_SIZE = 40"
definition PROCESSOR_GROUP_COUNT :: nat where "PROCESSOR_GROUP_COUNT = 22"
definition PROCESSOR_GROUP_MASK :: nat where "PROCESSOR_GROUP_MASK = 24"
definition CACHE_SIZE :: nat where "CACHE_SIZE = 48"
definition CACHE_BYTES :: nat where "CACHE_BYTES = 4"
definition CACHE_TYPE :: nat where "CACHE_TYPE = 8"
definition CACHE_GROUP_COUNT :: nat where "CACHE_GROUP_COUNT = 30"
definition CACHE_GROUP_MASK :: nat where "CACHE_GROUP_MASK = 32"
definition AFFINITY_SIZE :: nat where "AFFINITY_SIZE = 16"

definition u16_at :: "u8 list \<Rightarrow> nat \<Rightarrow> u16" where
  "u16_at r at = ucast (le_word (take 2 (drop at r)))"

definition u32_at :: "u8 list \<Rightarrow> nat \<Rightarrow> u32" where
  "u32_at r at = ucast (le_word (take 4 (drop at r)))"

definition processor_record_ok :: "u8 list \<Rightarrow> bool" where
  "processor_record_ok r \<longleftrightarrow>
    PROCESSOR_SIZE \<le> length r \<and> u16_at r PROCESSOR_GROUP_COUNT \<noteq> 0 \<and>
    PROCESSOR_GROUP_MASK + unat (u16_at r PROCESSOR_GROUP_COUNT) * AFFINITY_SIZE \<le> length r"

definition processor_count :: "u8 list \<Rightarrow> i32 \<Rightarrow> u32 option" where
  "processor_count bytes relationship =
    (case topology_records bytes relationship of
       None \<Rightarrow> None
     | Some rs \<Rightarrow>
         if list_all processor_record_ok rs
         then (if length rs < 2 ^ 32 then Some (of_nat (length rs)) else None)
         else None)"

definition cache_level :: "u8 list \<Rightarrow> nat" where
  "cache_level r = unat (hd r)"

definition cache_record_ok :: "u8 list \<Rightarrow> bool" where
  "cache_record_ok r \<longleftrightarrow>
    CACHE_SIZE \<le> length r \<and>
    CACHE_GROUP_MASK + max (unat (u16_at r CACHE_GROUP_COUNT)) 1 * AFFINITY_SIZE \<le> length r"

text \<open>A cache of levels 1 to 3 that is unified, of instructions or of data.\<close>
definition cache_counts :: "u8 list \<Rightarrow> bool" where
  "cache_counts r \<longleftrightarrow> 1 \<le> cache_level r \<and> cache_level r \<le> 3 \<and> u32_at r CACHE_TYPE \<in> {0, 1, 2}"

definition cache_add :: "u8 list \<Rightarrow> u64 option list \<Rightarrow> u64 option list option" where
  "cache_add r totals =
    (if \<not> cache_record_ok r then None
     else if cache_counts r
     then (let i = cache_level r - 1 in
       case checked_add (case totals ! i of Some t \<Rightarrow> t | None \<Rightarrow> 0) (ucast (u32_at r CACHE_BYTES)) of
         None \<Rightarrow> None
       | Some added \<Rightarrow> Some (totals[i := Some added]))
     else Some totals)"

fun cache_add_all :: "u8 list list \<Rightarrow> u64 option list \<Rightarrow> u64 option list option" where
  "cache_add_all [] totals = Some totals"
| "cache_add_all (r # rs) totals =
    (case cache_add r totals of None \<Rightarrow> None | Some totals \<Rightarrow> cache_add_all rs totals)"

definition cache_totals :: "u8 list \<Rightarrow> u64 option list option" where
  "cache_totals bytes =
    (case topology_records bytes RelationCache of
       None \<Rightarrow> None
     | Some rs \<Rightarrow> cache_add_all rs [None, None, None])"

section \<open>Reading the records\<close>

definition ERROR_INSUFFICIENT_BUFFER :: u32 where
  "ERROR_INSUFFICIENT_BUFFER = 122"

text \<open>
  What one call of \<^verbatim>\<open>GetLogicalProcessorInformationEx\<close> leaves: success, else the error, the
  length it sets and the bytes in the buffer. \<open>ask n room\<close> is the \<open>n\<close>th call, with that room.
\<close>
record topology_answer =
  ta_ok :: bool
  ta_error :: u32
  ta_length :: u32
  ta_bytes :: "u8 list"

fun query_again :: "(nat \<Rightarrow> nat \<Rightarrow> topology_answer) \<Rightarrow> nat \<Rightarrow> u32 \<Rightarrow> u8 list option" where
  "query_again ask 0 len = None"
| "query_again ask (Suc n) len =
    (let room = unat len in
     if room < HEADER \<or> room > MAX_TOPOLOGY_BYTES then None
     else let a = ask (3 - n) room in
       if ta_ok a then (if unat (ta_length a) > room then None else Some (take (unat (ta_length a)) (ta_bytes a)))
       else if ta_error a \<noteq> ERROR_INSUFFICIENT_BUFFER then None
       else query_again ask n (ta_length a))"

definition topology_query :: "(nat \<Rightarrow> nat \<Rightarrow> topology_answer) \<Rightarrow> u8 list option" where
  "topology_query ask =
    (let first = ask 0 0 in
     if ta_ok first \<or> ta_error first \<noteq> ERROR_INSUFFICIENT_BUFFER then None
     else query_again ask 3 (ta_length first))"

section \<open>Virtualization\<close>

text \<open>\<^verbatim>\<open>__cpuid\<close> of a leaf: eax, ebx, ecx and edx.\<close>
type_synonym cpuid = "u32 \<Rightarrow> u32 \<times> u32 \<times> u32 \<times> u32"

definition le_bytes :: "u32 \<Rightarrow> u8 list" where
  "le_bytes w = [ucast w, ucast (drop_bit 8 w), ucast (drop_bit 16 w), ucast (drop_bit 24 w)]"

definition ascii_bytes :: "string \<Rightarrow> u8 list" where
  "ascii_bytes text = map (\<lambda>c. of_nat (of_char c)) text"

definition cpu_capabilities :: "cpuid \<Rightarrow> bool option \<times> bool option" where
  "cpu_capabilities cpuid =
    (case cpuid 0 of
       (eax, ebx, ecx, edx) \<Rightarrow>
         if eax < 1 then (None, None)
         else case cpuid 1 of
           (_, _, features, _) \<Rightarrow>
             if bit features 31 then (None, Some True)
             else (let vendor = le_bytes ebx @ le_bytes edx @ le_bytes ecx in
               (if vendor = ascii_bytes ''GenuineIntel'' then Some (bit features 5)
                else if vendor = ascii_bytes ''AuthenticAMD''
                then (case cpuid 0x80000000 of
                        (most, _, _, _) \<Rightarrow>
                          if most \<ge> 0x80000001
                          then (case cpuid 0x80000001 of (_, _, extended, _) \<Rightarrow> Some (bit extended 2))
                          else None)
                else None,
                Some False)))"

definition cpu_virtualization :: "bool option \<Rightarrow> bool option \<Rightarrow> bool \<Rightarrow> bool option \<times> bool option" where
  "cpu_virtualization supported hypervisor firmware =
    (if hypervisor = Some True then (None, None)
     else (supported, if supported = Some True \<and> hypervisor = Some False then Some firmware else None))"

section \<open>The inventory\<close>

definition total_of :: "u64 option list option \<Rightarrow> nat \<Rightarrow> u64 option" where
  "total_of caches i = (case caches of None \<Rightarrow> None | Some totals \<Rightarrow> totals ! i)"

text \<open>\<^verbatim>\<open>load\<close>: \<open>ask\<close> is given the relationship it is asked about.\<close>
definition load_inventory ::
    "u32 \<Rightarrow> (i32 \<Rightarrow> nat \<Rightarrow> nat \<Rightarrow> topology_answer) \<Rightarrow> cpuid \<Rightarrow> bool \<Rightarrow> cpu_inventory" where
  "load_inventory logical ask cpuid firmware =
    (let caches = (case topology_query (ask RelationCache) of None \<Rightarrow> None | Some bytes \<Rightarrow> cache_totals bytes);
         (supported, hypervisor) = cpu_capabilities cpuid;
         (supported, enabled) = cpu_virtualization supported hypervisor firmware
     in \<lparr>ci_active_package_count =
            (case topology_query (ask RelationProcessorPackage) of
               None \<Rightarrow> None | Some bytes \<Rightarrow> processor_count bytes RelationProcessorPackage),
         ci_physical_core_count =
            (case topology_query (ask RelationProcessorCore) of
               None \<Rightarrow> None | Some bytes \<Rightarrow> processor_count bytes RelationProcessorCore),
         ci_logical_processor_count = (if logical > 0 then Some logical else None),
         ci_l1_cache_bytes = total_of caches 0,
         ci_l2_cache_bytes = total_of caches 1,
         ci_l3_cache_bytes = total_of caches 2,
         ci_base_mhz = None,
         ci_virtualization_hardware_supported = supported,
         ci_virtualization_firmware_enabled = enabled,
         ci_hypervisor_present = hypervisor\<rparr>)"

text \<open>\<^verbatim>\<open>OnceLock::get_or_init\<close>: loaded at the first read, the same at every other.\<close>
definition read_inventory :: "cpu_inventory option \<Rightarrow> cpu_inventory \<Rightarrow> cpu_inventory \<times> cpu_inventory option" where
  "read_inventory held loaded = (case held of Some i \<Rightarrow> (i, held) | None \<Rightarrow> (loaded, Some loaded))"

section \<open>What a buffer holds\<close>

text \<open>A buffer that is records of one kind, each after a header with its size.\<close>
inductive framed :: "i32 \<Rightarrow> u8 list \<Rightarrow> u8 list list \<Rightarrow> bool" for relationship where
  framed_Nil: "framed relationship [] []"
| framed_Cons: "framed relationship (header @ r @ bytes) (r # rs)"
  if "length header = HEADER" "record_kind header = relationship" "record_size header = HEADER + length r"
     "framed relationship bytes rs"

inductive_cases framed_NilE: "framed relationship [] rs"
inductive_cases framed_ConsE: "framed relationship bytes (r # rs)"

lemma record_kind_header: "length header = HEADER \<Longrightarrow> record_kind (header @ bytes) = record_kind header"
  by (simp add: record_kind_def HEADER_def)

lemma record_size_header: "length header = HEADER \<Longrightarrow> record_size (header @ bytes) = record_size header"
  by (simp add: record_size_def HEADER_def)

lemma records_from_framed:
  "framed relationship bytes rs \<Longrightarrow> length bytes \<le> MAX_TOPOLOGY_BYTES \<Longrightarrow> records_from bytes relationship = Some rs"
proof (induction rule: framed.induct)
  case framed_Nil
  show ?case by (simp add: records_from.simps)
next
  case (framed_Cons header r bytes rs)
  let ?b = "header @ r @ bytes"
  have kind: "record_kind ?b = relationship" and sized: "record_size ?b = HEADER + length r"
    using framed_Cons.hyps record_kind_header record_size_header by metis+
  have slice: "slice_get ?b HEADER (HEADER + length r) = Some r" and left: "drop (HEADER + length r) ?b = bytes"
    using framed_Cons.hyps(1) by (simp_all add: slice_get_def)
  have room: "?b \<noteq> []" "HEADER \<le> length ?b"
    using framed_Cons.hyps(1) by (auto simp: HEADER_def)
  have "records_from bytes relationship = Some rs" using framed_Cons by simp
  then show ?case
    using framed_Cons.prems room unfolding records_from.simps [of ?b] kind sized slice left by simp
qed

lemma framed_records_from:
  "records_from bytes relationship = Some rs \<Longrightarrow> framed relationship bytes rs \<and> length bytes \<le> MAX_TOPOLOGY_BYTES"
proof (induction bytes relationship arbitrary: rs rule: records_from.induct)
  case (1 bytes relationship)
  show ?case
  proof (cases "bytes = []")
    case True
    then show ?thesis using "1.prems" by (simp add: records_from.simps framed_Nil)
  next
    case False
    then have ok: "HEADER \<le> length bytes" "length bytes \<le> MAX_TOPOLOGY_BYTES" "record_kind bytes = relationship"
      "HEADER \<le> record_size bytes"
      using "1.prems" by (auto simp: records_from.simps [of bytes] split: if_splits)
    obtain r rs' where r: "slice_get bytes HEADER (record_size bytes) = Some r"
      "records_from (drop (record_size bytes) bytes) relationship = Some rs'" "rs = r # rs'"
      using "1.prems" False ok by (auto simp: records_from.simps [of bytes] split: option.splits)
    have size: "record_size bytes \<le> length bytes" using slice_get_Some [OF r(1)] by simp
    have rest': "framed relationship (drop (record_size bytes) bytes) rs'"
      using "1.IH" [OF False _ _ r(1,2)] ok by simp
    have "r = take (record_size bytes - HEADER) (drop HEADER bytes)"
      using r(1) by (simp add: slice_get_def split: if_splits)
    moreover have "drop (record_size bytes) bytes = drop (record_size bytes - HEADER) (drop HEADER bytes)"
      using ok(4) by simp
    ultimately have split: "bytes = take HEADER bytes @ r @ drop (record_size bytes) bytes"
      by (metis append_take_drop_id)
    have "framed relationship (take HEADER bytes @ r @ drop (record_size bytes) bytes) (r # rs')"
    proof (rule framed_Cons)
      show h: "length (take HEADER bytes) = HEADER" using ok by simp
      show "record_kind (take HEADER bytes) = relationship"
        using record_kind_header [OF h, of "drop HEADER bytes"] ok by simp
      show "record_size (take HEADER bytes) = HEADER + length r"
        using record_size_header [OF h, of "drop HEADER bytes"] ok slice_get_Some [OF r(1)] by simp
      show "framed relationship (drop (record_size bytes) bytes) rs'" by (rule rest')
    qed
    then show ?thesis using split r(3) ok by metis
  qed
qed

lemma topology_records_some: "topology_records bytes relationship = Some rs \<longleftrightarrow> records_from bytes relationship = Some rs \<and> rs \<noteq> []"
  by (cases rs) (auto simp: topology_records_def split: option.splits list.splits)

lemma topology_records_iff:
  "topology_records bytes relationship = Some rs \<longleftrightarrow>
    framed relationship bytes rs \<and> rs \<noteq> [] \<and> length bytes \<le> MAX_TOPOLOGY_BYTES"
  unfolding topology_records_some using records_from_framed framed_records_from by blast

lemma framed_length: "framed relationship bytes rs \<Longrightarrow> length bytes = HEADER * length rs + sum_list (map length rs)"
  by (induction rule: framed.induct) simp_all

text \<open>The sizes of the caches of a level.\<close>
definition level_sizes :: "u8 list list \<Rightarrow> nat \<Rightarrow> nat list" where
  "level_sizes rs level = map (\<lambda>r. unat (u32_at r CACHE_BYTES)) (filter (\<lambda>r. cache_counts r \<and> cache_level r = level) rs)"

lemma level_sizes_simps [simp]:
  "level_sizes [] level = []"
  "level_sizes (r # rs) level =
    (if cache_counts r \<and> cache_level r = level then [unat (u32_at r CACHE_BYTES)] else []) @ level_sizes rs level"
  by (simp_all add: level_sizes_def)

text \<open>The total of a level whose records so far add up to \<open>t\<close>, with \<open>sizes\<close> to come.\<close>
definition total_with :: "u64 option \<Rightarrow> nat list \<Rightarrow> u64 option" where
  "total_with t sizes = (if t = None \<and> sizes = [] then None
    else Some (of_nat ((case t of None \<Rightarrow> 0 | Some n \<Rightarrow> unat n) + sum_list sizes)))"

definition total_nat :: "u64 option \<Rightarrow> nat" where
  "total_nat t = (case t of None \<Rightarrow> 0 | Some n \<Rightarrow> unat n)"

lemma checked_add_total:
  assumes "total_nat t + unat (w :: u32) < 2 ^ 64"
  obtains added where "checked_add (case t of Some n \<Rightarrow> n | None \<Rightarrow> 0) (ucast w) = Some added"
    "unat added = total_nat t + unat w"
proof -
  let ?a = "case t of Some n \<Rightarrow> n | None \<Rightarrow> (0 :: u64)"
  have unats: "unat ?a = total_nat t" "unat (ucast w :: u64) = unat w"
    by (simp_all add: total_nat_def unat_ucast_up split: option.split)
  then have "checked_add ?a (ucast w) = Some (?a + ucast w)" using assms by (simp add: checked_add_def)
  then show ?thesis using checked_add_unat that unats by metis
qed

lemma cache_add_all_totals:
  assumes "length totals = 3" "\<And>i. i < 3 \<Longrightarrow> total_nat (totals ! i) + sum_list (level_sizes rs (Suc i)) < 2 ^ 64"
  shows "cache_add_all rs totals =
    (if list_all cache_record_ok rs then Some (map (\<lambda>i. total_with (totals ! i) (level_sizes rs (Suc i))) [0..<3]) else None)"
  using assms
proof (induction rs arbitrary: totals)
  case Nil
  have "map (\<lambda>i. total_with (totals ! i) []) [0..<3] = map ((!) totals) [0..<length totals]"
    using Nil(1) by (auto simp: total_with_def split: option.split)
  then show ?case by (simp add: map_nth)
next
  case (Cons r rs)
  show ?case
  proof (cases "cache_record_ok r \<and> cache_counts r")
    case False
    have "\<And>i. i < 3 \<Longrightarrow> total_nat (totals ! i) + sum_list (level_sizes rs (Suc i)) < 2 ^ 64"
      using Cons.prems(2) by (fastforce split: if_splits)
    then show ?thesis using Cons.IH [of totals] Cons.prems(1) False by (auto simp: cache_add_def)
  next
    case True
    define i where "i = cache_level r - 1"
    have i: "i < 3" "cache_level r = Suc i" using True by (auto simp: i_def cache_counts_def)
    define size where "size = unat (u32_at r CACHE_BYTES)"
    have fits: "total_nat (totals ! i) + size < 2 ^ 64"
      using Cons.prems(2) [OF i(1)] True i(2) by (simp add: size_def)
    obtain added where added: "checked_add (case totals ! i of Some n \<Rightarrow> n | None \<Rightarrow> 0) (ucast (u32_at r CACHE_BYTES)) = Some added"
      and unat_added: "unat added = total_nat (totals ! i) + size"
      using checked_add_total fits unfolding size_def by blast
    have step: "cache_add r totals = Some (totals[i := Some added])"
      using True added by (simp add: cache_add_def i(2))
    have room: "total_nat (totals[i := Some added] ! j) + sum_list (level_sizes rs (Suc j)) < 2 ^ 64" if "j < 3" for j
      using Cons.prems(2) [OF that] Cons.prems(1) True i that unat_added
      by (cases "j = i") (simp_all add: total_nat_def size_def)
    have "map (\<lambda>j. total_with (totals[i := Some added] ! j) (level_sizes rs (Suc j))) [0..<3] =
      map (\<lambda>j. total_with (totals ! j) (level_sizes (r # rs) (Suc j))) [0..<3]"
      using Cons.prems(1) True i unat_added
      by (auto simp: nth_list_update total_with_def total_nat_def size_def split: option.splits)
    then show ?thesis
      using Cons.IH [of "totals[i := Some added]"] Cons.prems(1) room step True by simp
  qed
qed

lemma level_sizes_bounded: "sum_list (level_sizes rs level) \<le> length rs * 2 ^ 32"
proof (induction rs)
  case Nil
  show ?case by simp
next
  case (Cons r rs)
  have "unat (u32_at r CACHE_BYTES) < 2 ^ 32" using unsigned_less [of "u32_at r CACHE_BYTES"] by simp
  with Cons show ?case by auto
qed

lemma framed_few: "framed relationship bytes rs \<Longrightarrow> length bytes \<le> MAX_TOPOLOGY_BYTES \<Longrightarrow> length rs \<le> 2 ^ 17"
  using framed_length by (fastforce simp: HEADER_def MAX_TOPOLOGY_BYTES_def)

lemma cache_totals_framed:
  assumes "framed RelationCache bytes rs" "rs \<noteq> []" "length bytes \<le> MAX_TOPOLOGY_BYTES"
  shows "cache_totals bytes =
    (if list_all cache_record_ok rs then Some (map (\<lambda>i. total_with None (level_sizes rs (Suc i))) [0..<3]) else None)"
proof -
  have read: "topology_records bytes RelationCache = Some rs" using assms topology_records_iff by blast
  have fits: "sum_list (level_sizes rs (Suc i)) < 2 ^ 64" for i
    using level_sizes_bounded [of rs "Suc i"] framed_few [OF assms(1,3)] by simp
  have start: "[None, None, None] = replicate 3 (None :: u64 option)" by (simp add: numeral_3_eq_3)
  have "cache_add_all rs (replicate 3 None) =
    (if list_all cache_record_ok rs
     then Some (map (\<lambda>i. total_with (replicate 3 None ! i) (level_sizes rs (Suc i))) [0..<3]) else None)"
    by (rule cache_add_all_totals) (use fits in \<open>simp_all add: total_nat_def\<close>)
  also have "map (\<lambda>i. total_with (replicate 3 None ! i) (level_sizes rs (Suc i))) [0..<3] =
    map (\<lambda>i. total_with None (level_sizes rs (Suc i))) [0..<3]"
    by (rule map_cong) simp_all
  finally show ?thesis using read by (simp only: cache_totals_def option.case start)
qed

lemma processor_count_framed:
  assumes "framed relationship bytes rs" "rs \<noteq> []" "length bytes \<le> MAX_TOPOLOGY_BYTES"
  shows "processor_count bytes relationship = (if list_all processor_record_ok rs then Some (of_nat (length rs)) else None)"
proof -
  have read: "topology_records bytes relationship = Some rs" using assms topology_records_iff by blast
  have "length rs < 2 ^ 32" using framed_few [OF assms(1,3)] by simp
  then show ?thesis using read by (simp add: processor_count_def)
qed

text \<open>
  The inventory counts records: a buffer is read only when it is records of the kind
  asked for from its first byte to its last, the packages or cores are as many as its
  records, and the cache of a level is the sum of its records' sizes, which never
  overflows; a buffer that is anything else, or whose records are cut short, tells nothing.
\<close>
theorem the_inventory_counts_records:
  "(processor_count bytes relationship = Some n \<longleftrightarrow>
     (\<exists>rs. framed relationship bytes rs \<and> rs \<noteq> [] \<and> length bytes \<le> MAX_TOPOLOGY_BYTES \<and>
       list_all processor_record_ok rs \<and> n = of_nat (length rs) \<and> length rs = unat n)) \<and>
   (cache_totals bytes = Some totals \<longleftrightarrow>
     (\<exists>rs. framed RelationCache bytes rs \<and> rs \<noteq> [] \<and> length bytes \<le> MAX_TOPOLOGY_BYTES \<and>
       list_all cache_record_ok rs \<and>
       totals = map (\<lambda>i. total_with None (level_sizes rs (Suc i))) [0..<3]))"
  (is "?counts \<and> ?totals")
proof
  have few: "unat (of_nat (length rs) :: u32) = length rs" if "framed relationship bytes rs" "length bytes \<le> MAX_TOPOLOGY_BYTES" for rs
    using framed_few [OF that] unfolding unat_of_nat by simp
  show ?counts
  proof
    assume counted: "processor_count bytes relationship = Some n"
    then obtain rs where "topology_records bytes relationship = Some rs"
      by (auto simp: processor_count_def split: option.splits)
    then have rs: "framed relationship bytes rs" "rs \<noteq> []" "length bytes \<le> MAX_TOPOLOGY_BYTES"
      by (simp_all add: topology_records_iff)
    show "\<exists>rs. framed relationship bytes rs \<and> rs \<noteq> [] \<and> length bytes \<le> MAX_TOPOLOGY_BYTES \<and>
       list_all processor_record_ok rs \<and> n = of_nat (length rs) \<and> length rs = unat n"
      using counted processor_count_framed [OF rs] few rs by (intro exI [of _ rs]) (auto split: if_splits)
  qed (use processor_count_framed in auto)
  show ?totals
  proof
    assume summed: "cache_totals bytes = Some totals"
    then obtain rs where "topology_records bytes RelationCache = Some rs"
      by (auto simp: cache_totals_def split: option.splits)
    then have rs: "framed RelationCache bytes rs" "rs \<noteq> []" "length bytes \<le> MAX_TOPOLOGY_BYTES"
      by (simp_all add: topology_records_iff)
    show "\<exists>rs. framed RelationCache bytes rs \<and> rs \<noteq> [] \<and> length bytes \<le> MAX_TOPOLOGY_BYTES \<and>
       list_all cache_record_ok rs \<and> totals = map (\<lambda>i. total_with None (level_sizes rs (Suc i))) [0..<3]"
      using summed cache_totals_framed [OF rs] rs by (intro exI [of _ rs]) (auto split: if_splits)
  qed (use cache_totals_framed in auto)
qed

text \<open>The record of a first-level cache of so many times 4 KiB, as the kernel lays it out.\<close>
definition l1_record :: "u8 \<Rightarrow> u8 \<Rightarrow> u8 list" where
  "l1_record kind pages = [1, 8, 64, 0, 0, 16 * pages, 0, 0, kind, 0, 0, 0] @ replicate 18 0 @ [1, 0] @ replicate 16 0"

lemma l1_record_read:
  "length (l1_record kind pages) = 48" "cache_level (l1_record kind pages) = 1"
  "u32_at (l1_record kind 8) CACHE_BYTES = 32768" "u32_at (l1_record kind 12) CACHE_BYTES = 49152"
  "u32_at (l1_record 1 pages) CACHE_TYPE = 1" "u32_at (l1_record 2 pages) CACHE_TYPE = 2"
  "u16_at (l1_record kind pages) CACHE_GROUP_COUNT = 1"
  by (simp_all add: l1_record_def cache_level_def u32_at_def u16_at_def CACHE_BYTES_def CACHE_TYPE_def
      CACHE_GROUP_COUNT_def le_word_def)

lemma a_split_cache_is_summed:
  "cache_totals ([2, 0, 0, 0, 56, 0, 0, 0] @ l1_record 1 8 @ [2, 0, 0, 0, 56, 0, 0, 0] @ l1_record 2 12 @ []) =
    Some [Some 81920, None, None]"
proof -
  have header: "length [2, 0, 0, 0, 56, 0, 0, 0 :: u8] = HEADER" "record_kind [2, 0, 0, 0, 56, 0, 0, 0] = RelationCache"
    "record_size [2, 0, 0, 0, 56, 0, 0, 0] = HEADER + length (l1_record kind pages)" for kind pages
    by (simp_all add: HEADER_def record_kind_def record_size_def RelationCache_def le_word_def l1_record_read)
  have framed: "framed RelationCache ([2, 0, 0, 0, 56, 0, 0, 0] @ l1_record 1 8 @ [2, 0, 0, 0, 56, 0, 0, 0] @ l1_record 2 12 @ [])
    [l1_record 1 8, l1_record 2 12]"
    using header by (intro framed_Cons framed_Nil) simp_all
  have ok: "list_all cache_record_ok [l1_record 1 8, l1_record 2 12]"
    by (simp add: cache_record_ok_def l1_record_read CACHE_SIZE_def CACHE_GROUP_MASK_def AFFINITY_SIZE_def)
  have sizes: "level_sizes [l1_record 1 8, l1_record 2 12] level = (if level = 1 then [32768, 49152] else [])" for level
    by (simp add: cache_counts_def l1_record_read)
  show ?thesis
    by (subst cache_totals_framed [OF framed])
      (simp_all only: ok sizes, simp_all add: MAX_TOPOLOGY_BYTES_def l1_record_read total_with_def upt_conv_Cons)
qed

end
