(* ===== verification/Machine_Probe.thy ===== *)
theory Machine_Probe
  imports Topology Traffic
begin

text \<open>
  \<^verbatim>\<open>crates/core/src/providers/machine/\<close> but for the topology: the processors' times, their
  clocks, memory, the network adapters, the temperatures and the machine's part of a sample.
  What Windows and the temperature library answer are arguments, and so is the one
  multiplication of floating point numbers.
\<close>

section \<open>Processor times\<close>

definition processor_default :: machine_processor where
  "processor_default = \<lparr>lp_idle_time = 0, lp_kernel_time = 0, lp_user_time = 0, lp_interrupt_time = 0, lp_dpc_time = 0\<rparr>"

text \<open>
  \<^verbatim>\<open>ProcessorTimes::read\<close>: \<open>answer g\<close> is what a group answers, None for a status that is an
  error; group 0 is asked even when there is none.
\<close>
fun read_groups :: "(nat \<Rightarrow> machine_processor list option) \<Rightarrow> nat \<Rightarrow> nat \<Rightarrow> machine_processor list option" where
  "read_groups answer g 0 = Some []"
| "read_groups answer g (Suc n) =
    (case answer g of
       None \<Rightarrow> None
     | Some ps \<Rightarrow> map_option ((@) ps) (read_groups answer (Suc g) n))"

definition read_times :: "u16 \<Rightarrow> (nat \<Rightarrow> machine_processor list option) \<Rightarrow> machine_processor list option" where
  "read_times groups answer = read_groups answer 0 (unat (max groups 1))"

definition total_times :: "machine_processor list \<Rightarrow> machine_processor" where
  "total_times ps = foldl (\<lambda>sum p.
    \<lparr>lp_idle_time = lp_idle_time sum + lp_idle_time p, lp_kernel_time = lp_kernel_time sum + lp_kernel_time p,
     lp_user_time = lp_user_time sum + lp_user_time p, lp_interrupt_time = lp_interrupt_time sum + lp_interrupt_time p,
     lp_dpc_time = lp_dpc_time sum + lp_dpc_time p\<rparr>) processor_default ps"

section \<open>Clocks\<close>

definition MIN_SPAN :: duration where "MIN_SPAN = millis 200"

record pdh =
  pd_collected :: "instant option"
  pd_last :: "f64 option"

definition pdh_new :: pdh where
  "pdh_new = \<lparr>pd_collected = None, pd_last = None\<rparr>"

text \<open>
  \<^verbatim>\<open>sample\<close> of the counter: \<open>collects\<close> is whether the collection succeeds, \<open>value\<close> what is
  formatted then, no less than zero, None when that fails.
\<close>
definition pdh_sample :: "instant \<Rightarrow> bool \<Rightarrow> f64 option \<Rightarrow> pdh \<Rightarrow> f64 option \<times> pdh" where
  "pdh_sample now collects value p =
    (case pd_collected p of
       None \<Rightarrow> if \<not> collects then (pd_last p, p) else (None, p\<lparr>pd_collected := Some now\<rparr>)
     | Some at \<Rightarrow>
         if now - at < MIN_SPAN then (pd_last p, p)
         else if \<not> collects then (pd_last p, p)
         else (value, p\<lparr>pd_collected := Some now, pd_last := value\<rparr>))"

text \<open>What Windows answers about the clocks: the rated and current MHz of each processor.\<close>
record clock_answers =
  ck_now :: instant
  ck_opens :: bool
  ck_collects :: bool
  ck_value :: "f64 option"
  ck_power :: "(u32 \<times> u32) list option"

definition max_mhz :: "(u32 \<times> u32) list \<Rightarrow> u32" where
  "max_mhz clocks = foldl max 0 (map fst clocks)"

definition average_mhz :: "(u32 \<times> u32) list \<Rightarrow> u32" where
  "average_mhz clocks = of_nat (sum_list (map (\<lambda>p. unat (snd p)) clocks) div length clocks)"

text \<open>
  \<^verbatim>\<open>cpu_frequency_mhz\<close>; \<open>scaled mhz percent\<close> is the rounded part of the rated clock. The
  counter is not asked when the power information cannot be read.
\<close>
definition cpu_frequency ::
    "(u32 \<Rightarrow> f64 \<Rightarrow> u32) \<Rightarrow> clock_answers \<Rightarrow> pdh option \<Rightarrow> (u32 \<times> u32) \<times> pdh option" where
  "cpu_frequency scaled a p =
    (case ck_power a of
       None \<Rightarrow> ((0, 0), p)
     | Some [] \<Rightarrow> ((0, 0), p)
     | Some clocks \<Rightarrow>
         (case p of
            None \<Rightarrow> ((max_mhz clocks, average_mhz clocks), None)
          | Some p \<Rightarrow>
              (case pdh_sample (ck_now a) (ck_collects a) (ck_value a) p of
                 (percent, p) \<Rightarrow>
                   ((max_mhz clocks,
                     case percent of Some x \<Rightarrow> scaled (max_mhz clocks) x | None \<Rightarrow> average_mhz clocks), Some p))))"

section \<open>Memory and counts\<close>

text \<open>\<^verbatim>\<open>MEMORYSTATUSEX\<close>: total and available physical, total and available page file.\<close>
definition physical_memory :: "(u64 \<times> u64 \<times> u64 \<times> u64) option \<Rightarrow> machine_memory option" where
  "physical_memory answer =
    map_option (\<lambda>(total_phys, avail_phys, total_page, avail_page).
      \<lparr>mem_total_physical = total_phys, mem_available_physical = avail_phys, mem_commit_limit = total_page,
       mem_committed = sat_sub total_page avail_page\<rparr>) answer"

definition system_stats :: "(u32 \<times> u32 \<times> u32) option \<Rightarrow> u64 \<Rightarrow> machine_system_stats option" where
  "system_stats info uptime_ms =
    map_option (\<lambda>(processes, threads, handles).
      \<lparr>sys_process_count = processes, sys_thread_count = threads, sys_handle_count = handles,
       sys_uptime_ms = uptime_ms\<rparr>) info"

text \<open>The processor's name is loaded once: the cell, and what is read through it.\<close>
definition read_cpu_name :: "string option \<Rightarrow> string option option \<Rightarrow> string option \<times> string option option" where
  "read_cpu_name loaded cache =
    (case cache of
       Some name \<Rightarrow> (name, cache)
     | None \<Rightarrow>
         (let name = (case loaded of
                None \<Rightarrow> None
              | Some v \<Rightarrow> if trim v = [] then None else Some (trim v))
          in (name, Some name)))"

section \<open>Network adapters\<close>

definition HARDWARE_INTERFACE :: u8 where "HARDWARE_INTERFACE = 1"
definition FILTER_INTERFACE :: u8 where "FILTER_INTERFACE = 2"
definition LINK_SPEED_UNKNOWN :: u64 where "LINK_SPEED_UNKNOWN = - 1"
definition IF_TYPE_SOFTWARE_LOOPBACK :: u32 where "IF_TYPE_SOFTWARE_LOOPBACK = 24"
definition IF_TYPE_TUNNEL :: u32 where "IF_TYPE_TUNNEL = 131"

text \<open>\<^verbatim>\<open>MIB_IF_ROW2\<close>.\<close>
record if_row =
  ir_luid :: u64
  ir_type :: u32
  ir_up :: bool
  ir_flags :: u8
  ir_alias :: "u16 list"
  ir_description :: "u16 list"
  ir_receive_speed :: u64
  ir_transmit_speed :: u64
  ir_in_octets :: u64
  ir_out_octets :: u64

definition if_counted :: "if_row \<Rightarrow> bool" where
  "if_counted row \<longleftrightarrow>
    ir_up row \<and> and (ir_flags row) FILTER_INTERFACE = 0 \<and> ir_type row \<noteq> IF_TYPE_SOFTWARE_LOOPBACK \<and>
    ir_type row \<noteq> IF_TYPE_TUNNEL \<and> (ir_receive_speed row \<noteq> 0 \<or> ir_transmit_speed row \<noteq> 0)"

definition until_nul :: "u16 list \<Rightarrow> string" where
  "until_nul units = from_utf16_lossy (takeWhile (\<lambda>u. u \<noteq> 0) units)"

definition adapter_of :: "if_row \<Rightarrow> network_adapter" where
  "adapter_of row =
    (let speed = (\<lambda>bits. if bits = LINK_SPEED_UNKNOWN then 0 else bits)
     in \<lparr>na_luid = ir_luid row, na_name = until_nul (ir_alias row), na_description = until_nul (ir_description row),
         na_if_type = ir_type row, na_hardware = (and (ir_flags row) HARDWARE_INTERFACE \<noteq> 0),
         na_receive_link_speed = speed (ir_receive_speed row), na_transmit_link_speed = speed (ir_transmit_speed row),
         na_rx_bytes = ir_in_octets row, na_tx_bytes = ir_out_octets row\<rparr>)"

record network_adapters =
  nw_chosen :: "u64 list"
  nw_listed :: "instant option"

definition network_adapters_new :: network_adapters where
  "network_adapters_new = \<lparr>nw_chosen = [], nw_listed = None\<rparr>"

text \<open>\<^verbatim>\<open>list\<close>: the table is None when it cannot be read.\<close>
definition list_adapters :: "instant \<Rightarrow> if_row list option \<Rightarrow> network_adapters \<Rightarrow> network_adapters" where
  "list_adapters now table v =
    (let v = v\<lparr>nw_listed := Some now\<rparr>
     in case table of
          None \<Rightarrow> v
        | Some rows \<Rightarrow> v\<lparr>nw_chosen := map ir_luid (filter if_counted rows)\<rparr>)"

text \<open>\<open>entry\<close>: what \<^verbatim>\<open>GetIfEntry2\<close> answers of an interface.\<close>
definition read_entry :: "(u64 \<Rightarrow> if_row option) \<Rightarrow> u64 \<Rightarrow> network_adapter option" where
  "read_entry entry luid =
    (case entry luid of
       None \<Rightarrow> None
     | Some row \<Rightarrow> if if_counted row then Some (adapter_of row) else None)"

definition read_adapters_now ::
    "instant \<Rightarrow> if_row list option \<Rightarrow> (u64 \<Rightarrow> if_row option) \<Rightarrow> network_adapters \<Rightarrow> network_adapter list \<times> network_adapters" where
  "read_adapters_now now table entry v =
    (let v = (if (case nw_listed v of None \<Rightarrow> True | Some at \<Rightarrow> PROBE_ROUND \<le> now - at) then list_adapters now table v else v);
         read = map (read_entry entry) (nw_chosen v)
     in (map the (filter (\<lambda>a. a \<noteq> None) read),
         if None \<in> set read then v\<lparr>nw_listed := None\<rparr> else v))"

section \<open>Temperatures\<close>

definition STALE_AFTER :: duration where "STALE_AFTER = secs 5"
definition MAX_JSON :: int where "MAX_JSON = 8 * 2 ^ 20"

definition temperatures_unavailable :: "string \<Rightarrow> machine_temperatures" where
  "temperatures_unavailable why = \<lparr>mt_status = TempUnavailable, mt_error = why, mt_devices = []\<rparr>"

definition temperatures_failed :: "string \<Rightarrow> machine_temperatures" where
  "temperatures_failed why = \<lparr>mt_status = TempError, mt_error = why, mt_devices = []\<rparr>"

text \<open>\<^verbatim>\<open>Temperatures\<close> with what its worker shares: a worker that started is kept until the drop.\<close>
record temperatures =
  tm_wanted :: bool
  tm_stopped :: bool
  tm_latest :: "instant \<times> machine_temperatures"
  tm_woken :: bool
  tm_worker :: bool

definition temperatures_new :: "instant \<Rightarrow> temperatures" where
  "temperatures_new now =
    \<lparr>tm_wanted = False, tm_stopped = False,
     tm_latest = (now, temperatures_unavailable ''temperature backend has not been sampled''),
     tm_woken = False, tm_worker = False\<rparr>"

definition publish_temperatures :: "instant \<Rightarrow> machine_temperatures \<Rightarrow> temperatures \<Rightarrow> temperatures" where
  "publish_temperatures now sample t = t\<lparr>tm_latest := (now, sample)\<rparr>"

text \<open>
  \<^verbatim>\<open>start\<close>: \<open>active\<close> is the claim every reader of the process shares; \<open>spawned\<close> the error of
  a thread that does not start, which lets go of the claim.
\<close>
definition temperatures_start :: "instant \<Rightarrow> string option \<Rightarrow> bool \<Rightarrow> temperatures \<Rightarrow> bool \<times> temperatures" where
  "temperatures_start now spawned active t =
    (if active
     then (active, publish_temperatures now (temperatures_failed ''previous temperature worker is still active'') t)
     else case spawned of
            None \<Rightarrow> (True, t\<lparr>tm_worker := True\<rparr>)
          | Some e \<Rightarrow> (False, publish_temperatures now (temperatures_failed e) t))"

definition temperatures_demand ::
    "instant \<Rightarrow> string option \<Rightarrow> bool \<Rightarrow> bool \<Rightarrow> temperatures \<Rightarrow> bool \<times> temperatures" where
  "temperatures_demand now spawned wanted active t =
    (let was = tm_wanted t; t = t\<lparr>tm_wanted := wanted\<rparr>
     in if was = wanted \<and> (\<not> wanted \<or> tm_worker t) then (active, t)
        else if wanted \<and> \<not> tm_worker t then temperatures_start now spawned active t
        else (active, t\<lparr>tm_woken := True\<rparr>))"

definition STALE_ERROR :: string where
  "STALE_ERROR = ''temperature backend did not complete a sample within five seconds''"

definition temperatures_latest :: "instant \<Rightarrow> temperatures \<Rightarrow> machine_temperatures" where
  "temperatures_latest now t =
    (case tm_latest t of (at, sample) \<Rightarrow> if STALE_AFTER < now - at then temperatures_failed STALE_ERROR else sample)"

text \<open>\<^verbatim>\<open>f64::is_finite\<close>: not every bit of the exponent is set.\<close>
definition is_finite :: "f64 \<Rightarrow> bool" where
  "is_finite v \<longleftrightarrow> and (drop_bit 52 v) 0x7FF \<noteq> 0x7FF"

text \<open>\<^verbatim>\<open>decode\<close>: \<open>from_json\<close> is serde's.\<close>
definition decode_temperatures ::
    "(u8 list \<Rightarrow> string + machine_temperatures) \<Rightarrow> u8 list \<Rightarrow> string + machine_temperatures" where
  "decode_temperatures from_json bytes =
    (case from_json bytes of
       Inl e \<Rightarrow> Inl e
     | Inr sample \<Rightarrow>
         (case find (\<lambda>s. case ts_celsius s of None \<Rightarrow> False | Some v \<Rightarrow> \<not> is_finite v)
             (concat (map td_sensors (mt_devices sample))) of
            Some s \<Rightarrow> Inl (''non-finite temperature for '' @ ts_id s)
          | None \<Rightarrow> Inr sample))"

text \<open>
  \<^verbatim>\<open>read_cached\<close>: what the library answers without a buffer, and what with one of that size,
  with the bytes it wrote.
\<close>
definition read_cached :: "int \<Rightarrow> (int \<Rightarrow> int \<times> u8 list) \<Rightarrow> string + u8 list" where
  "read_cached required read =
    (if \<not> (0 < required \<and> required \<le> MAX_JSON) then Inl ''invalid LHM JSON size''
     else case read required of
       (written, bytes) \<Rightarrow>
         if written \<noteq> required then Inl ''LHM cached JSON changed or could not be read'' else Inr bytes)"

text \<open>What the library answers in a turn of the worker.\<close>
record bridge_answers =
  ba_loads :: "string option"
  ba_opens :: bool
  ba_updates :: bool
  ba_required :: int
  ba_read :: "int \<Rightarrow> int \<times> u8 list"

definition bridge_sample :: "(u8 list \<Rightarrow> string + machine_temperatures) \<Rightarrow> bridge_answers \<Rightarrow> bool \<Rightarrow> string + machine_temperatures" where
  "bridge_sample from_json a opened =
    (let updated = (opened \<and> ba_updates a)
     in case read_cached (ba_required a) (ba_read a) of
          Inl e \<Rightarrow> Inl e
        | Inr bytes \<Rightarrow>
            (case decode_temperatures from_json bytes of
               Inl e \<Rightarrow> Inl e
             | Inr sample \<Rightarrow>
                 if updated \<or> mt_status sample \<noteq> TempAvailable then Inr sample
                 else Inl ''LHM failed but returned an available snapshot''))"

text \<open>
  A turn of the worker: \<open>held\<close> is the backend it has, with whether it opened. A library that
  does not load is told as unavailable.
\<close>
definition temperatures_turn ::
    "(u8 list \<Rightarrow> string + machine_temperatures) \<Rightarrow> instant \<Rightarrow> bridge_answers \<Rightarrow> bool option \<Rightarrow> temperatures \<Rightarrow>
      bool option \<times> temperatures" where
  "temperatures_turn from_json now a held t =
    (if tm_stopped t then (held, t)
     else if \<not> tm_wanted t then (None, t)
     else let (held, t) = (case held of
              Some opened \<Rightarrow> (held, t)
            | None \<Rightarrow> (case ba_loads a of
                None \<Rightarrow> (Some (ba_opens a), t)
              | Some e \<Rightarrow> (None, publish_temperatures now (temperatures_unavailable e) t)))
       in case held of
            None \<Rightarrow> (None, t)
          | Some opened \<Rightarrow>
              (if opened then Some opened else None,
               publish_temperatures now
                 (case bridge_sample from_json a opened of Inr sample \<Rightarrow> sample | Inl e \<Rightarrow> temperatures_failed e) t))"

section \<open>The machine's part of a sample\<close>

definition FREQUENCY_EVERY :: duration where "FREQUENCY_EVERY = secs 1"

record machine_probe =
  mp_pdh :: "pdh option"
  mp_frequency :: "(instant \<times> (u32 \<times> u32)) option"
  mp_adapters :: network_adapters
  mp_temperatures :: temperatures
  mp_name :: "string option option"
  mp_inventory :: "cpu_inventory option"

definition machine_probe_new :: "instant \<Rightarrow> machine_probe" where
  "machine_probe_new now =
    \<lparr>mp_pdh = None, mp_frequency = None, mp_adapters = network_adapters_new, mp_temperatures = temperatures_new now,
     mp_name = None, mp_inventory = None\<rparr>"

text \<open>What the machine answers while a sample is taken.\<close>
record machine_answers =
  ma_now :: instant
  ma_name :: "string option"
  ma_stats :: "(u32 \<times> u32 \<times> u32) option"
  ma_uptime_ms :: u64
  ma_inventory :: cpu_inventory
  ma_groups :: u16
  ma_times :: "nat \<Rightarrow> machine_processor list option"
  ma_clocks :: clock_answers
  ma_memory :: "(u64 \<times> u64 \<times> u64 \<times> u64) option"
  ma_table :: "if_row list option"
  ma_entry :: "u64 \<Rightarrow> if_row option"

definition probe_clocks :: "(u32 \<Rightarrow> f64 \<Rightarrow> u32) \<Rightarrow> machine_answers \<Rightarrow> machine_probe \<Rightarrow> (u32 \<times> u32) \<times> machine_probe" where
  "probe_clocks scaled a p =
    (let counter = (case mp_pdh p of Some c \<Rightarrow> Some c | None \<Rightarrow> if ck_opens (ma_clocks a) then Some pdh_new else None)
     in case cpu_frequency scaled (ma_clocks a) counter of
          (mhz, counter) \<Rightarrow> (mhz, p\<lparr>mp_pdh := counter, mp_frequency := Some (ma_now a, mhz)\<rparr>))"

definition probe_cpu ::
    "(u32 \<Rightarrow> f64 \<Rightarrow> u32) \<Rightarrow> machine_answers \<Rightarrow> machine_processor \<Rightarrow> machine_probe \<Rightarrow> machine_cpu \<times> machine_probe" where
  "probe_cpu scaled a spent p =
    (case (case mp_frequency p of
             Some (at, mhz) \<Rightarrow> if ma_now a - at < FREQUENCY_EVERY then (mhz, p) else probe_clocks scaled a p
           | None \<Rightarrow> probe_clocks scaled a p) of
       ((most, now_at), p) \<Rightarrow>
         (\<lparr>cpu_idle_time = lp_idle_time spent, cpu_kernel_time = lp_kernel_time spent, cpu_user_time = lp_user_time spent,
           cpu_interrupt_time = lp_interrupt_time spent, cpu_dpc_time = lp_dpc_time spent,
           cpu_max_mhz = most, cpu_current_mhz = now_at\<rparr>, p))"

text \<open>The parts of \<^verbatim>\<open>MachineProbe::sample\<close> in its order: each adds a group when it is wanted.\<close>

definition sample_names ::
    "machine_answers \<Rightarrow> machine_metric set \<Rightarrow> machine_sample \<times> machine_probe \<Rightarrow> machine_sample \<times> machine_probe" where
  "sample_names a wanted sp =
    (if M_Cpu \<in> wanted
     then (case sp of (s, p) \<Rightarrow>
       (case read_cpu_name (ma_name a) (mp_name p) of
          (name, names) \<Rightarrow>
            (case read_inventory (mp_inventory p) (ma_inventory a) of
               (inventory, held) \<Rightarrow>
                 (s\<lparr>m_cpu_name := name, m_system_stats := system_stats (ma_stats a) (ma_uptime_ms a),
                    m_cpu_inventory := Some inventory\<rparr>,
                  p\<lparr>mp_name := names, mp_inventory := held\<rparr>))))
     else sp)"

definition sample_temperatures ::
    "machine_answers \<Rightarrow> machine_metric set \<Rightarrow> machine_sample \<times> machine_probe \<Rightarrow> machine_sample \<times> machine_probe" where
  "sample_temperatures a wanted sp =
    (if M_Temperatures \<in> wanted
     then (case sp of (s, p) \<Rightarrow> (s\<lparr>m_temperatures := Some (temperatures_latest (ma_now a) (mp_temperatures p))\<rparr>, p))
     else sp)"

definition sample_times ::
    "(u32 \<Rightarrow> f64 \<Rightarrow> u32) \<Rightarrow> machine_answers \<Rightarrow> machine_metric set \<Rightarrow> machine_sample \<times> machine_probe \<Rightarrow>
      machine_sample \<times> machine_probe" where
  "sample_times scaled a wanted sp =
    (if M_Cpu \<in> wanted \<or> M_Processors \<in> wanted
     then (case read_times (ma_groups a) (ma_times a) of
         None \<Rightarrow> sp
       | Some processors \<Rightarrow>
           (case sp of (s, p) \<Rightarrow>
             (let s = (if M_Processors \<in> wanted then s\<lparr>m_processors := Some processors\<rparr> else s)
              in if M_Cpu \<in> wanted
                 then (case probe_cpu scaled a (total_times processors) p of (cpu, p) \<Rightarrow> (s\<lparr>m_cpu := Some cpu\<rparr>, p))
                 else (s, p))))
     else sp)"

definition sample_memory ::
    "machine_answers \<Rightarrow> machine_metric set \<Rightarrow> machine_sample \<times> machine_probe \<Rightarrow> machine_sample \<times> machine_probe" where
  "sample_memory a wanted sp =
    (if M_Memory \<in> wanted then (case sp of (s, p) \<Rightarrow> (s\<lparr>m_memory := physical_memory (ma_memory a)\<rparr>, p)) else sp)"

definition sample_disk ::
    "machine_totals \<Rightarrow> machine_metric set \<Rightarrow> machine_sample \<times> machine_probe \<Rightarrow> machine_sample \<times> machine_probe" where
  "sample_disk totals wanted sp =
    (if M_Disk \<in> wanted
     then (case sp of (s, p) \<Rightarrow>
       (s\<lparr>m_disk := Some \<lparr>disk_read_ops = to_disk_read_ops totals, disk_write_ops = to_disk_write_ops totals,
            disk_read_bytes = to_disk_read_bytes totals, disk_write_bytes = to_disk_write_bytes totals\<rparr>\<rparr>, p))
     else sp)"

definition sample_adapters ::
    "machine_answers \<Rightarrow> machine_metric set \<Rightarrow> machine_sample \<times> machine_probe \<Rightarrow> machine_sample \<times> machine_probe" where
  "sample_adapters a wanted sp =
    (if M_NetworkAdapters \<in> wanted
     then (case sp of (s, p) \<Rightarrow>
       (case read_adapters_now (ma_now a) (ma_table a) (ma_entry a) (mp_adapters p) of
          (found, v) \<Rightarrow> (s\<lparr>m_network_adapters := Some found\<rparr>, p\<lparr>mp_adapters := v\<rparr>)))
     else sp)"

definition sample_network ::
    "machine_totals \<Rightarrow> machine_metric set \<Rightarrow> machine_sample \<times> machine_probe \<Rightarrow> machine_sample \<times> machine_probe" where
  "sample_network totals wanted sp =
    (if M_Network \<in> wanted
     then (case sp of (s, p) \<Rightarrow>
       (s\<lparr>m_network := Some \<lparr>net_rx_bytes = to_net_rx_bytes totals, net_tx_bytes = to_net_tx_bytes totals\<rparr>\<rparr>, p))
     else sp)"

definition probe_machine ::
    "(u32 \<Rightarrow> f64 \<Rightarrow> u32) \<Rightarrow> machine_answers \<Rightarrow> machine_metric set \<Rightarrow> machine_totals \<Rightarrow> machine_probe \<Rightarrow>
      machine_sample \<times> machine_probe" where
  "probe_machine scaled a wanted totals p =
    sample_network totals wanted (sample_adapters a wanted (sample_disk totals wanted (sample_memory a wanted
      (sample_times scaled a wanted (sample_temperatures a wanted (sample_names a wanted (machine_sample_default, p)))))))"

section \<open>What a sample of the machine holds\<close>

lemma probe_cpu_fields:
  "cpu_idle_time (fst (probe_cpu scaled a spent p)) = lp_idle_time spent"
  "cpu_kernel_time (fst (probe_cpu scaled a spent p)) = lp_kernel_time spent"
  "cpu_user_time (fst (probe_cpu scaled a spent p)) = lp_user_time spent"
  "cpu_interrupt_time (fst (probe_cpu scaled a spent p)) = lp_interrupt_time spent"
  "cpu_dpc_time (fst (probe_cpu scaled a spent p)) = lp_dpc_time spent"
  "mp_adapters (snd (probe_cpu scaled a spent p)) = mp_adapters p"
  "mp_temperatures (snd (probe_cpu scaled a spent p)) = mp_temperatures p"
  by (auto simp: probe_cpu_def probe_clocks_def Let_def split: option.split prod.split)

text \<open>The clocks told with the processor's times are those last read, less than a second ago.\<close>
lemma probe_cpu_clocks:
  "\<exists>at. mp_frequency (snd (probe_cpu scaled a spent p)) =
      Some (at, (cpu_max_mhz (fst (probe_cpu scaled a spent p)), cpu_current_mhz (fst (probe_cpu scaled a spent p)))) \<and>
    ma_now a - at < FREQUENCY_EVERY"
  by (auto simp: probe_cpu_def probe_clocks_def FREQUENCY_EVERY_def Let_def split: option.split prod.split)

text \<open>Each part of a sample as an update of one group and of what is kept for it.\<close>
lemma sample_steps:
  "sample_names a wanted sp =
    ((fst sp)\<lparr>m_cpu_name := if M_Cpu \<in> wanted then fst (read_cpu_name (ma_name a) (mp_name (snd sp))) else m_cpu_name (fst sp),
       m_system_stats := if M_Cpu \<in> wanted then system_stats (ma_stats a) (ma_uptime_ms a) else m_system_stats (fst sp),
       m_cpu_inventory := if M_Cpu \<in> wanted then Some (fst (read_inventory (mp_inventory (snd sp)) (ma_inventory a)))
         else m_cpu_inventory (fst sp)\<rparr>,
     (snd sp)\<lparr>mp_name := if M_Cpu \<in> wanted then snd (read_cpu_name (ma_name a) (mp_name (snd sp))) else mp_name (snd sp),
       mp_inventory := if M_Cpu \<in> wanted then snd (read_inventory (mp_inventory (snd sp)) (ma_inventory a))
         else mp_inventory (snd sp)\<rparr>)"
  "sample_temperatures a wanted sp =
    ((fst sp)\<lparr>m_temperatures := if M_Temperatures \<in> wanted then Some (temperatures_latest (ma_now a) (mp_temperatures (snd sp)))
       else m_temperatures (fst sp)\<rparr>, snd sp)"
  "sample_times scaled a wanted sp =
    (let r = read_times (ma_groups a) (ma_times a) in
     ((fst sp)\<lparr>m_processors := if M_Processors \<in> wanted \<and> r \<noteq> None then r else m_processors (fst sp),
        m_cpu := case r of Some ps \<Rightarrow> if M_Cpu \<in> wanted then Some (fst (probe_cpu scaled a (total_times ps) (snd sp))) else m_cpu (fst sp)
          | None \<Rightarrow> m_cpu (fst sp)\<rparr>,
      case r of Some ps \<Rightarrow> if M_Cpu \<in> wanted then snd (probe_cpu scaled a (total_times ps) (snd sp)) else snd sp
        | None \<Rightarrow> snd sp))"
  "sample_memory a wanted sp =
    ((fst sp)\<lparr>m_memory := if M_Memory \<in> wanted then physical_memory (ma_memory a) else m_memory (fst sp)\<rparr>, snd sp)"
  "sample_disk totals wanted sp =
    ((fst sp)\<lparr>m_disk := if M_Disk \<in> wanted
        then Some \<lparr>disk_read_ops = to_disk_read_ops totals, disk_write_ops = to_disk_write_ops totals,
          disk_read_bytes = to_disk_read_bytes totals, disk_write_bytes = to_disk_write_bytes totals\<rparr>
        else m_disk (fst sp)\<rparr>, snd sp)"
  "sample_adapters a wanted sp =
    (let r = read_adapters_now (ma_now a) (ma_table a) (ma_entry a) (mp_adapters (snd sp)) in
     ((fst sp)\<lparr>m_network_adapters := if M_NetworkAdapters \<in> wanted then Some (fst r) else m_network_adapters (fst sp)\<rparr>,
      (snd sp)\<lparr>mp_adapters := if M_NetworkAdapters \<in> wanted then snd r else mp_adapters (snd sp)\<rparr>))"
  "sample_network totals wanted sp =
    ((fst sp)\<lparr>m_network := if M_Network \<in> wanted
        then Some \<lparr>net_rx_bytes = to_net_rx_bytes totals, net_tx_bytes = to_net_tx_bytes totals\<rparr>
        else m_network (fst sp)\<rparr>, snd sp)"
  by (simp_all add: sample_names_def sample_temperatures_def sample_times_def sample_memory_def sample_disk_def
      sample_adapters_def sample_network_def Let_def split: prod.split option.split)

text \<open>What a part leaves as it was.\<close>
lemma sample_names_keeps [simp]:
  "m_cpu (fst (sample_names a wanted sp)) = m_cpu (fst sp)"
  "m_memory (fst (sample_names a wanted sp)) = m_memory (fst sp)"
  "m_disk (fst (sample_names a wanted sp)) = m_disk (fst sp)"
  "m_network (fst (sample_names a wanted sp)) = m_network (fst sp)"
  "m_processors (fst (sample_names a wanted sp)) = m_processors (fst sp)"
  "m_gpus (fst (sample_names a wanted sp)) = m_gpus (fst sp)"
  "m_network_adapters (fst (sample_names a wanted sp)) = m_network_adapters (fst sp)"
  "m_temperatures (fst (sample_names a wanted sp)) = m_temperatures (fst sp)"
  "mp_adapters (snd (sample_names a wanted sp)) = mp_adapters (snd sp)"
  "mp_frequency (snd (sample_names a wanted sp)) = mp_frequency (snd sp)"
  "mp_temperatures (snd (sample_names a wanted sp)) = mp_temperatures (snd sp)"
  by (simp_all add: sample_steps probe_cpu_fields Let_def split: option.split)

lemma sample_temperatures_keeps [simp]:
  "m_cpu (fst (sample_temperatures a wanted sp)) = m_cpu (fst sp)"
  "m_cpu_name (fst (sample_temperatures a wanted sp)) = m_cpu_name (fst sp)"
  "m_system_stats (fst (sample_temperatures a wanted sp)) = m_system_stats (fst sp)"
  "m_cpu_inventory (fst (sample_temperatures a wanted sp)) = m_cpu_inventory (fst sp)"
  "m_memory (fst (sample_temperatures a wanted sp)) = m_memory (fst sp)"
  "m_disk (fst (sample_temperatures a wanted sp)) = m_disk (fst sp)"
  "m_network (fst (sample_temperatures a wanted sp)) = m_network (fst sp)"
  "m_processors (fst (sample_temperatures a wanted sp)) = m_processors (fst sp)"
  "m_gpus (fst (sample_temperatures a wanted sp)) = m_gpus (fst sp)"
  "m_network_adapters (fst (sample_temperatures a wanted sp)) = m_network_adapters (fst sp)"
  "mp_adapters (snd (sample_temperatures a wanted sp)) = mp_adapters (snd sp)"
  "mp_frequency (snd (sample_temperatures a wanted sp)) = mp_frequency (snd sp)"
  "mp_temperatures (snd (sample_temperatures a wanted sp)) = mp_temperatures (snd sp)"
  by (simp_all add: sample_steps probe_cpu_fields Let_def split: option.split)

lemma sample_times_keeps [simp]:
  "m_cpu_name (fst (sample_times scaled a wanted sp)) = m_cpu_name (fst sp)"
  "m_system_stats (fst (sample_times scaled a wanted sp)) = m_system_stats (fst sp)"
  "m_cpu_inventory (fst (sample_times scaled a wanted sp)) = m_cpu_inventory (fst sp)"
  "m_memory (fst (sample_times scaled a wanted sp)) = m_memory (fst sp)"
  "m_disk (fst (sample_times scaled a wanted sp)) = m_disk (fst sp)"
  "m_network (fst (sample_times scaled a wanted sp)) = m_network (fst sp)"
  "m_gpus (fst (sample_times scaled a wanted sp)) = m_gpus (fst sp)"
  "m_network_adapters (fst (sample_times scaled a wanted sp)) = m_network_adapters (fst sp)"
  "m_temperatures (fst (sample_times scaled a wanted sp)) = m_temperatures (fst sp)"
  "mp_adapters (snd (sample_times scaled a wanted sp)) = mp_adapters (snd sp)"
  "mp_temperatures (snd (sample_times scaled a wanted sp)) = mp_temperatures (snd sp)"
  by (simp_all add: sample_steps probe_cpu_fields Let_def split: option.split)

lemma sample_memory_keeps [simp]:
  "m_cpu (fst (sample_memory a wanted sp)) = m_cpu (fst sp)"
  "m_cpu_name (fst (sample_memory a wanted sp)) = m_cpu_name (fst sp)"
  "m_system_stats (fst (sample_memory a wanted sp)) = m_system_stats (fst sp)"
  "m_cpu_inventory (fst (sample_memory a wanted sp)) = m_cpu_inventory (fst sp)"
  "m_disk (fst (sample_memory a wanted sp)) = m_disk (fst sp)"
  "m_network (fst (sample_memory a wanted sp)) = m_network (fst sp)"
  "m_processors (fst (sample_memory a wanted sp)) = m_processors (fst sp)"
  "m_gpus (fst (sample_memory a wanted sp)) = m_gpus (fst sp)"
  "m_network_adapters (fst (sample_memory a wanted sp)) = m_network_adapters (fst sp)"
  "m_temperatures (fst (sample_memory a wanted sp)) = m_temperatures (fst sp)"
  "mp_adapters (snd (sample_memory a wanted sp)) = mp_adapters (snd sp)"
  "mp_frequency (snd (sample_memory a wanted sp)) = mp_frequency (snd sp)"
  "mp_temperatures (snd (sample_memory a wanted sp)) = mp_temperatures (snd sp)"
  by (simp_all add: sample_steps probe_cpu_fields Let_def split: option.split)

lemma sample_disk_keeps [simp]:
  "m_cpu (fst (sample_disk totals wanted sp)) = m_cpu (fst sp)"
  "m_cpu_name (fst (sample_disk totals wanted sp)) = m_cpu_name (fst sp)"
  "m_system_stats (fst (sample_disk totals wanted sp)) = m_system_stats (fst sp)"
  "m_cpu_inventory (fst (sample_disk totals wanted sp)) = m_cpu_inventory (fst sp)"
  "m_memory (fst (sample_disk totals wanted sp)) = m_memory (fst sp)"
  "m_network (fst (sample_disk totals wanted sp)) = m_network (fst sp)"
  "m_processors (fst (sample_disk totals wanted sp)) = m_processors (fst sp)"
  "m_gpus (fst (sample_disk totals wanted sp)) = m_gpus (fst sp)"
  "m_network_adapters (fst (sample_disk totals wanted sp)) = m_network_adapters (fst sp)"
  "m_temperatures (fst (sample_disk totals wanted sp)) = m_temperatures (fst sp)"
  "mp_adapters (snd (sample_disk totals wanted sp)) = mp_adapters (snd sp)"
  "mp_frequency (snd (sample_disk totals wanted sp)) = mp_frequency (snd sp)"
  "mp_temperatures (snd (sample_disk totals wanted sp)) = mp_temperatures (snd sp)"
  by (simp_all add: sample_steps probe_cpu_fields Let_def split: option.split)

lemma sample_adapters_keeps [simp]:
  "m_cpu (fst (sample_adapters a wanted sp)) = m_cpu (fst sp)"
  "m_cpu_name (fst (sample_adapters a wanted sp)) = m_cpu_name (fst sp)"
  "m_system_stats (fst (sample_adapters a wanted sp)) = m_system_stats (fst sp)"
  "m_cpu_inventory (fst (sample_adapters a wanted sp)) = m_cpu_inventory (fst sp)"
  "m_memory (fst (sample_adapters a wanted sp)) = m_memory (fst sp)"
  "m_disk (fst (sample_adapters a wanted sp)) = m_disk (fst sp)"
  "m_network (fst (sample_adapters a wanted sp)) = m_network (fst sp)"
  "m_processors (fst (sample_adapters a wanted sp)) = m_processors (fst sp)"
  "m_gpus (fst (sample_adapters a wanted sp)) = m_gpus (fst sp)"
  "m_temperatures (fst (sample_adapters a wanted sp)) = m_temperatures (fst sp)"
  "mp_frequency (snd (sample_adapters a wanted sp)) = mp_frequency (snd sp)"
  "mp_temperatures (snd (sample_adapters a wanted sp)) = mp_temperatures (snd sp)"
  by (simp_all add: sample_steps probe_cpu_fields Let_def split: option.split)

lemma sample_network_keeps [simp]:
  "m_cpu (fst (sample_network totals wanted sp)) = m_cpu (fst sp)"
  "m_cpu_name (fst (sample_network totals wanted sp)) = m_cpu_name (fst sp)"
  "m_system_stats (fst (sample_network totals wanted sp)) = m_system_stats (fst sp)"
  "m_cpu_inventory (fst (sample_network totals wanted sp)) = m_cpu_inventory (fst sp)"
  "m_memory (fst (sample_network totals wanted sp)) = m_memory (fst sp)"
  "m_disk (fst (sample_network totals wanted sp)) = m_disk (fst sp)"
  "m_processors (fst (sample_network totals wanted sp)) = m_processors (fst sp)"
  "m_gpus (fst (sample_network totals wanted sp)) = m_gpus (fst sp)"
  "m_network_adapters (fst (sample_network totals wanted sp)) = m_network_adapters (fst sp)"
  "m_temperatures (fst (sample_network totals wanted sp)) = m_temperatures (fst sp)"
  "mp_adapters (snd (sample_network totals wanted sp)) = mp_adapters (snd sp)"
  "mp_frequency (snd (sample_network totals wanted sp)) = mp_frequency (snd sp)"
  "mp_temperatures (snd (sample_network totals wanted sp)) = mp_temperatures (snd sp)"
  by (simp_all add: sample_steps probe_cpu_fields Let_def split: option.split)

lemma total_times_sum:
  "lp_idle_time (total_times ps) = sum_list (map lp_idle_time ps)"
  "lp_kernel_time (total_times ps) = sum_list (map lp_kernel_time ps)"
  "lp_user_time (total_times ps) = sum_list (map lp_user_time ps)"
  "lp_interrupt_time (total_times ps) = sum_list (map lp_interrupt_time ps)"
  "lp_dpc_time (total_times ps) = sum_list (map lp_dpc_time ps)"
  unfolding total_times_def by (induction ps rule: rev_induct) (simp_all add: processor_default_def)

text \<open>Every group of the sample, and what is kept.\<close>
lemma probe_machine_fields:
  "m_gpus (fst (probe_machine scaled a wanted totals p)) = None"
  "m_cpu_name (fst (probe_machine scaled a wanted totals p)) =
    (if M_Cpu \<in> wanted then fst (read_cpu_name (ma_name a) (mp_name p)) else None)"
  "m_system_stats (fst (probe_machine scaled a wanted totals p)) =
    (if M_Cpu \<in> wanted then system_stats (ma_stats a) (ma_uptime_ms a) else None)"
  "m_cpu_inventory (fst (probe_machine scaled a wanted totals p)) =
    (if M_Cpu \<in> wanted then Some (fst (read_inventory (mp_inventory p) (ma_inventory a))) else None)"
  "m_memory (fst (probe_machine scaled a wanted totals p)) = (if M_Memory \<in> wanted then physical_memory (ma_memory a) else None)"
  "m_disk (fst (probe_machine scaled a wanted totals p)) =
    (if M_Disk \<in> wanted
     then Some \<lparr>disk_read_ops = to_disk_read_ops totals, disk_write_ops = to_disk_write_ops totals,
          disk_read_bytes = to_disk_read_bytes totals, disk_write_bytes = to_disk_write_bytes totals\<rparr> else None)"
  "m_network (fst (probe_machine scaled a wanted totals p)) =
    (if M_Network \<in> wanted then Some \<lparr>net_rx_bytes = to_net_rx_bytes totals, net_tx_bytes = to_net_tx_bytes totals\<rparr> else None)"
  "m_processors (fst (probe_machine scaled a wanted totals p)) =
    (if M_Processors \<in> wanted then read_times (ma_groups a) (ma_times a) else None)"
  "m_network_adapters (fst (probe_machine scaled a wanted totals p)) =
    (if M_NetworkAdapters \<in> wanted
     then Some (fst (read_adapters_now (ma_now a) (ma_table a) (ma_entry a) (mp_adapters p))) else None)"
  "m_temperatures (fst (probe_machine scaled a wanted totals p)) =
    (if M_Temperatures \<in> wanted then Some (temperatures_latest (ma_now a) (mp_temperatures p)) else None)"
  by (simp_all add: probe_machine_def machine_sample_default_def)
    (simp_all add: sample_steps Let_def machine_sample_default_def probe_cpu_fields split: option.split)

lemma probe_machine_cpu:
  "M_Cpu \<notin> wanted \<Longrightarrow> m_cpu (fst (probe_machine scaled a wanted totals p)) = None"
  "map_option cpu_user_time (m_cpu (fst (probe_machine scaled a wanted totals p))) =
    (if M_Cpu \<in> wanted then map_option (\<lambda>ps. sum_list (map lp_user_time ps)) (read_times (ma_groups a) (ma_times a)) else None)"
  "map_option cpu_kernel_time (m_cpu (fst (probe_machine scaled a wanted totals p))) =
    (if M_Cpu \<in> wanted then map_option (\<lambda>ps. sum_list (map lp_kernel_time ps)) (read_times (ma_groups a) (ma_times a)) else None)"
  "map_option cpu_idle_time (m_cpu (fst (probe_machine scaled a wanted totals p))) =
    (if M_Cpu \<in> wanted then map_option (\<lambda>ps. sum_list (map lp_idle_time ps)) (read_times (ma_groups a) (ma_times a)) else None)"
  by (simp_all add: probe_machine_def machine_sample_default_def)
    (simp_all add: sample_times_def machine_sample_default_def total_times_sum Let_def
      case_prod_beta probe_cpu_fields split: option.split)

lemma probe_machine_keeps:
  "mp_adapters (snd (probe_machine scaled a wanted totals p)) =
    (if M_NetworkAdapters \<in> wanted then snd (read_adapters_now (ma_now a) (ma_table a) (ma_entry a) (mp_adapters p))
     else mp_adapters p)"
  "M_Cpu \<notin> wanted \<Longrightarrow> mp_frequency (snd (probe_machine scaled a wanted totals p)) = mp_frequency p"
  "mp_temperatures (snd (probe_machine scaled a wanted totals p)) = mp_temperatures p"
  by (simp_all add: probe_machine_def) (simp_all add: sample_steps Let_def probe_cpu_fields split: option.split)

lemma probe_machine_clocks:
  "pred_option (\<lambda>cpu. \<exists>at. mp_frequency (snd (probe_machine scaled a wanted totals p)) =
      Some (at, (cpu_max_mhz cpu, cpu_current_mhz cpu)) \<and> ma_now a - at < FREQUENCY_EVERY)
    (m_cpu (fst (probe_machine scaled a wanted totals p)))"
proof (cases "M_Cpu \<in> wanted \<and> read_times (ma_groups a) (ma_times a) \<noteq> None")
  case True
  then show ?thesis
    using probe_cpu_clocks
    by (simp add: probe_machine_def) (auto simp: sample_times_def Let_def case_prod_beta split: option.split)
next
  case False
  then have "m_cpu (fst (probe_machine scaled a wanted totals p)) = None"
    using probe_machine_cpu(1) [of wanted scaled a totals p] probe_machine_cpu(2) [of scaled a wanted totals p] by (cases "M_Cpu \<in> wanted") auto
  then show ?thesis by simp
qed

text \<open>The times of the processor are the sums over the processors read.\<close>
definition times_of :: "machine_cpu \<Rightarrow> machine_processor" where
  "times_of cpu =
    \<lparr>lp_idle_time = cpu_idle_time cpu, lp_kernel_time = cpu_kernel_time cpu, lp_user_time = cpu_user_time cpu,
     lp_interrupt_time = cpu_interrupt_time cpu, lp_dpc_time = cpu_dpc_time cpu\<rparr>"

lemma probe_machine_times:
  "map_option times_of (m_cpu (fst (probe_machine scaled a wanted totals p))) =
    (if M_Cpu \<in> wanted then map_option (\<lambda>ps.
          \<lparr>lp_idle_time = sum_list (map lp_idle_time ps), lp_kernel_time = sum_list (map lp_kernel_time ps),
           lp_user_time = sum_list (map lp_user_time ps), lp_interrupt_time = sum_list (map lp_interrupt_time ps),
           lp_dpc_time = sum_list (map lp_dpc_time ps)\<rparr>)
        (read_times (ma_groups a) (ma_times a)) else None)"
  by (simp add: probe_machine_def machine_sample_default_def)
    (simp add: sample_times_def machine_sample_default_def total_times_sum times_of_def Let_def
      case_prod_beta probe_cpu_fields split: option.split)


section \<open>Temperatures over time\<close>

text \<open>
  A turn that read an available snapshot: a library that loaded, opened and updated, and
  finite values only.
\<close>
definition good_reading :: "(u8 list \<Rightarrow> string + machine_temperatures) \<Rightarrow> bridge_answers \<Rightarrow> bool option \<Rightarrow> machine_temperatures \<Rightarrow> bool" where
  "good_reading from_json a held sample \<longleftrightarrow>
    ba_updates a \<and> (if held = None then ba_loads a = None \<and> ba_opens a else held = Some True) \<and>
    list_all (\<lambda>s. case ts_celsius s of None \<Rightarrow> True | Some v \<Rightarrow> is_finite v) (concat (map td_sensors (mt_devices sample))) \<and>
    (case ba_read a (ba_required a) of (_, bytes) \<Rightarrow> from_json bytes = Inr sample)"

text \<open>
  What the reader and its worker can come to, with the good readings so far, what the
  worker holds of the library and the claim on there being one worker.
\<close>
inductive temperatures_reach ::
    "(u8 list \<Rightarrow> string + machine_temperatures) \<Rightarrow> (instant \<times> machine_temperatures) set \<Rightarrow> bool option \<Rightarrow> bool \<Rightarrow>
      temperatures \<Rightarrow> bool"
  for from_json where
  temp_new: "temperatures_reach from_json {} None active (temperatures_new now)"
| temp_demand: "temperatures_reach from_json good held active' t'"
  if "temperatures_reach from_json good held active t" "temperatures_demand now spawned wanted active t = (active', t')"
| temp_turn: "temperatures_reach from_json (good \<union> {(now, s) |s. good_reading from_json a held s}) held' active t'"
  if "temperatures_reach from_json good held active t" "temperatures_turn from_json now a held t = (held', t')"
| temp_stop: "temperatures_reach from_json good held active (t\<lparr>tm_stopped := True\<rparr>)"
  if "temperatures_reach from_json good held active t"

lemma bridge_available:
  assumes "bridge_sample from_json a opened = Inr sample" "mt_status sample = TempAvailable"
  shows "opened \<and> ba_updates a \<and> (case ba_read a (ba_required a) of (_, bytes) \<Rightarrow> from_json bytes = Inr sample) \<and>
    list_all (\<lambda>s. case ts_celsius s of None \<Rightarrow> True | Some v \<Rightarrow> is_finite v) (concat (map td_sensors (mt_devices sample)))"
proof -
  obtain bytes where read: "read_cached (ba_required a) (ba_read a) = Inr bytes"
    and decoded: "decode_temperatures from_json bytes = Inr sample" and "opened \<and> ba_updates a"
    using assms by (auto simp: bridge_sample_def split: sum.splits if_splits)
  moreover have "case ba_read a (ba_required a) of (_, bytes') \<Rightarrow> bytes' = bytes"
    using read by (auto simp: read_cached_def split: if_splits prod.splits)
  moreover have "from_json bytes = Inr sample"
    using decoded by (auto simp: decode_temperatures_def split: sum.splits option.splits)
  moreover have "find (\<lambda>s. case ts_celsius s of None \<Rightarrow> False | Some v \<Rightarrow> \<not> is_finite v) (concat (map td_sensors (mt_devices sample))) = None"
    using decoded by (auto simp: decode_temperatures_def split: sum.splits option.splits)
  ultimately show ?thesis
    by (fastforce simp: find_None_iff list_all_iff split: option.split)
qed

lemma temperatures_latest_reach:
  "temperatures_reach from_json good held active t \<Longrightarrow>
    mt_status (snd (tm_latest t)) = TempAvailable \<Longrightarrow> tm_latest t \<in> good"
proof (induction rule: temperatures_reach.induct)
  case (temp_new active now)
  then show ?case by (simp add: temperatures_new_def temperatures_unavailable_def)
next
  case (temp_demand good held active t now spawned wanted active' t')
  then have "tm_latest t' = tm_latest t \<or> mt_status (snd (tm_latest t')) = TempError"
    by (auto simp: temperatures_demand_def temperatures_start_def Let_def publish_temperatures_def temperatures_failed_def
        split: if_splits option.splits)
  then show ?case using temp_demand by auto
next
  case (temp_turn good held active t now a held' t')
  consider "tm_latest t' = tm_latest t" | "mt_status (snd (tm_latest t')) \<noteq> TempAvailable"
    | opened sample where "tm_latest t' = (now, sample)" "bridge_sample from_json a opened = Inr sample"
      "if held = None then ba_loads a = None \<and> opened = ba_opens a else held = Some opened"
    using temp_turn(2)
    by (auto simp: temperatures_turn_def Let_def publish_temperatures_def temperatures_failed_def temperatures_unavailable_def
        split: if_splits option.splits sum.splits)
  then show ?case
  proof cases
    case (3 opened sample)
    then have "good_reading from_json a held sample"
      using bridge_available [of from_json a opened sample] temp_turn.prems
      by (auto simp: good_reading_def split: if_splits)
    then show ?thesis using 3 by simp
  qed (use temp_turn in auto)
next
  case (temp_stop good held active t)
  then show ?case by simp
qed

text \<open>
  C34 A temperature told as available was read at most five seconds ago, by a turn of the
  worker in which the library was loaded, opened and updated, and every value of it is
  finite: nothing is made up and nothing stale is shown.
\<close>
theorem temperatures_are_read_and_fresh:
  assumes "temperatures_reach from_json good held active t" "mt_status (temperatures_latest now t) = TempAvailable"
  shows "\<exists>at. (at, temperatures_latest now t) \<in> good \<and> now - at \<le> STALE_AFTER"
proof -
  obtain at sample where l: "tm_latest t = (at, sample)" by fastforce
  then have fresh: "\<not> STALE_AFTER < now - at" and told: "temperatures_latest now t = sample"
    using assms(2) by (auto simp: temperatures_latest_def temperatures_failed_def split: if_splits)
  have "(at, sample) \<in> good"
    using temperatures_latest_reach [OF assms(1)] assms(2) l told by simp
  then show ?thesis using fresh told by (intro exI [of _ at]) simp
qed

text \<open>
  Whoever asks first after five seconds is told that no sample was completed in five
  seconds, though none was asked for before.
\<close>
lemma the_first_ask_is_told_a_failure:
  assumes "STALE_AFTER < now - began"
  shows "temperatures_latest now (snd (temperatures_demand now None True False (temperatures_new began))) =
    temperatures_failed STALE_ERROR"
  using assms by (simp add: temperatures_demand_def temperatures_start_def temperatures_new_def temperatures_latest_def)

definition one_reading :: machine_temperatures where
  "one_reading = \<lparr>mt_status = TempAvailable, mt_error = [], mt_devices = [\<lparr>td_id = ''/cpu'', td_name = ''CPU'',
    td_category = TempOfCpu, td_status = TempAvailable, td_error = [],
    td_sensors = [\<lparr>ts_id = ''/cpu/0'', ts_name = ''Core'', ts_celsius = Some 0\<rparr>]\<rparr>]\<rparr>"

definition one_bridge :: bridge_answers where
  "one_bridge = \<lparr>ba_loads = None, ba_opens = True, ba_updates = True, ba_required = 1, ba_read = (\<lambda>n. (n, [7]))\<rparr>"

lemma temperatures_are_read_and_fresh_witness:
  "\<exists>at good. (at, one_reading) \<in> good \<and> 4 - at \<le> STALE_AFTER"
proof -
  let ?json = "\<lambda>_. Inr one_reading"
  let ?t = "snd (temperatures_demand 1 None True False (temperatures_new 0))"
  let ?out = "temperatures_turn ?json 3 one_bridge None ?t"
  have "temperatures_reach ?json {} None True ?t"
    by (rule temp_demand [OF temp_new [of _ False 0], of 1 None True])
      (simp add: temperatures_demand_def temperatures_start_def temperatures_new_def)
  from temp_turn [OF this, of 3 one_bridge "fst ?out" "snd ?out"] obtain good where
    reach: "temperatures_reach ?json good (fst ?out) True (snd ?out)"
    by simp
  have asked: "?t = \<lparr>tm_wanted = True, tm_stopped = False,
      tm_latest = (0, temperatures_unavailable ''temperature backend has not been sampled''), tm_woken = False, tm_worker = True\<rparr>"
    by (simp add: temperatures_demand_def temperatures_start_def temperatures_new_def)
  have finite: "decode_temperatures ?json [7] = Inr one_reading"
    by (simp add: decode_temperatures_def one_reading_def is_finite_def)
  have "bridge_sample ?json one_bridge True = Inr one_reading"
    using finite by (simp add: bridge_sample_def one_bridge_def read_cached_def MAX_JSON_def)
  then have latest: "tm_latest (snd ?out) = (3, one_reading)"
    unfolding asked by (simp add: temperatures_turn_def publish_temperatures_def one_bridge_def)
  then have told: "temperatures_latest 4 (snd ?out) = one_reading" by (simp add: temperatures_latest_def STALE_AFTER_def)
  then have "mt_status (temperatures_latest 4 (snd ?out)) = TempAvailable" by (simp add: one_reading_def)
  from temperatures_are_read_and_fresh [OF reach this] show ?thesis unfolding told by blast
qed

section \<open>Adapters over time\<close>

text \<open>
  What is told of the adapters: those of the last listing that are still counted, as they
  are now; when one went down or away the next read lists them again, and a listing told
  from is less than a round old.
\<close>
lemma adapters_told:
  assumes "read_adapters_now now table entry v = (found, v')"
  shows "found = map (\<lambda>luid. adapter_of (the (entry luid)))
      (filter (\<lambda>luid. case entry luid of None \<Rightarrow> False | Some row \<Rightarrow> if_counted row) (nw_chosen v'))"
    "nw_listed v' = None \<longleftrightarrow> length found < length (nw_chosen v')"
    "nw_listed v' = Some at \<Longrightarrow> now - at < PROBE_ROUND"
proof -
  define u where "u = (if (case nw_listed v of None \<Rightarrow> True | Some at \<Rightarrow> PROBE_ROUND \<le> now - at) then list_adapters now table v else v)"
  have out: "found = map the (filter (\<lambda>a. a \<noteq> None) (map (read_entry entry) (nw_chosen u)))"
    "v' = (if None \<in> set (map (read_entry entry) (nw_chosen u)) then u\<lparr>nw_listed := None\<rparr> else u)"
    using assms by (auto simp: read_adapters_now_def u_def Let_def)
  have chosen: "nw_chosen v' = nw_chosen u" using out(2) by simp
  have each: "map the (filter (\<lambda>a. a \<noteq> None) (map (read_entry entry) xs)) =
    map (\<lambda>luid. adapter_of (the (entry luid)))
      (filter (\<lambda>luid. case entry luid of None \<Rightarrow> False | Some row \<Rightarrow> if_counted row) xs)" for xs
    by (induction xs) (auto simp: read_entry_def split: option.splits)
  show "found = map (\<lambda>luid. adapter_of (the (entry luid)))
      (filter (\<lambda>luid. case entry luid of None \<Rightarrow> False | Some row \<Rightarrow> if_counted row) (nw_chosen v'))"
    unfolding out(1) chosen each ..
  have listed: "nw_listed u = Some at' \<Longrightarrow> now - at' < PROBE_ROUND" for at'
    by (auto simp: u_def list_adapters_def PROBE_ROUND_def Let_def split: option.splits if_splits)
  have "nw_listed u \<noteq> None"
    by (auto simp: u_def list_adapters_def Let_def split: option.splits if_splits)
  moreover have "None \<in> set (map (read_entry entry) xs) \<longleftrightarrow>
    length (filter (\<lambda>a. a \<noteq> None) (map (read_entry entry) xs)) < length xs" for xs
  proof (induction xs)
    case (Cons x xs)
    then show ?case by (auto simp: less_Suc_eq_le)
  qed simp
  ultimately show "nw_listed v' = None \<longleftrightarrow> length found < length (nw_chosen v')"
    using out chosen by auto
  show "nw_listed v' = Some at \<Longrightarrow> now - at < PROBE_ROUND"
    using out(2) listed by (auto split: if_splits)
qed

end
