(* ===== verification/Hosts.thy ===== *)
theory Hosts
  imports Prober Process_Read
begin

text \<open>
  What \<^verbatim>\<open>providers/mapped.rs\<close> and \<^verbatim>\<open>providers/vm_host.rs\<close> of the core read when the worker
  probes a process: the blocks of its working set, its modules and its handles, into
  buffers that grow, and from them the bytes it holds alone and whether it runs a machine.
  What Windows answers about the process is an argument of each.
\<close>

section \<open>The working set\<close>

definition SHARE_COUNT_SHIFT :: nat where "SHARE_COUNT_SHIFT = 5"
definition SHARE_COUNT_MASK :: u64 where "SHARE_COUNT_MASK = 7"
definition SHARED :: u64 where "SHARED = 256"
definition FIRST_BLOCKS :: nat where "FIRST_BLOCKS = 2 ^ 14"
definition KEPT_BLOCKS :: nat where "KEPT_BLOCKS = FIRST_BLOCKS"
definition ERROR_BAD_LENGTH :: u32 where "ERROR_BAD_LENGTH = 24"

definition share_count :: "u64 \<Rightarrow> u64" where
  "share_count block = and (drop_bit SHARE_COUNT_SHIFT block) SHARE_COUNT_MASK"

text \<open>
  \<^verbatim>\<open>QueryWorkingSet\<close> into so many words: whether it read, else the error; the number of
  entries it puts first, and the words behind it.
\<close>
record working_set_answer =
  wa_ok :: bool
  wa_error :: u32
  wa_entries :: nat
  wa_blocks :: "u64 list"

text \<open>The attempts left, and the length of the buffer, which is never empty.\<close>
fun working_set_again :: "(nat \<Rightarrow> nat \<Rightarrow> working_set_answer) \<Rightarrow> nat \<Rightarrow> nat \<Rightarrow> u64 list option \<times> nat" where
  "working_set_again ask 0 len = (None, len)"
| "working_set_again ask (Suc n) len =
    (let a = ask (3 - n) len in
     if wa_ok a then (Some (take (min (wa_entries a) (len - 1)) (wa_blocks a)), len)
     else if wa_error a \<noteq> ERROR_BAD_LENGTH then (None, len)
     else working_set_again ask n (wa_entries a + wa_entries a div 8 + 2))"

definition working_set :: "bool \<Rightarrow> (nat \<Rightarrow> nat \<Rightarrow> working_set_answer) \<Rightarrow> nat \<Rightarrow> u64 list option \<times> nat" where
  "working_set opened ask len =
    (if \<not> opened then (None, len)
     else working_set_again ask 4 (if len = 0 then FIRST_BLOCKS else len))"

text \<open>\<^verbatim>\<open>walk\<close>: what was counted, and what is kept of the buffer.\<close>
definition walk ::
    "bool \<Rightarrow> (nat \<Rightarrow> nat \<Rightarrow> working_set_answer) \<Rightarrow> (u64 list \<Rightarrow> 'a) \<Rightarrow> nat \<Rightarrow> 'a option \<times> nat" where
  "walk opened ask of_blocks len =
    (case working_set opened ask len of
       (blocks, len) \<Rightarrow> (map_option of_blocks blocks, if len > KEPT_BLOCKS then KEPT_BLOCKS else len))"

text \<open>Over the blocks of the agent's own process: whether Windows tells it share counts.\<close>
definition share_counts_visible :: "bool \<Rightarrow> (nat \<Rightarrow> nat \<Rightarrow> working_set_answer) \<Rightarrow> bool" where
  "share_counts_visible opened ask =
    (case fst (walk opened ask (list_ex (\<lambda>b. and b SHARED \<noteq> 0 \<and> share_count b < SHARE_COUNT_MASK)) 0) of
       Some seen \<Rightarrow> seen
     | None \<Rightarrow> False)"

definition held_alone :: "u64 list \<Rightarrow> nat" where
  "held_alone blocks = length (filter (\<lambda>b. and b SHARED \<noteq> 0 \<and> share_count b = 1) blocks)"

definition exclusive_mapped ::
    "bool \<Rightarrow> u64 \<Rightarrow> bool \<Rightarrow> (nat \<Rightarrow> nat \<Rightarrow> working_set_answer) \<Rightarrow> nat \<Rightarrow> u64 \<times> nat" where
  "exclusive_mapped visible page_size opened ask len =
    (if \<not> visible then (NO_DATA_U64, len)
     else case walk opened ask (\<lambda>blocks. of_nat (held_alone blocks) * page_size) len of
       (Some bytes, len) \<Rightarrow> (bytes, len)
     | (None, len) \<Rightarrow> (NO_DATA_U64, len))"

section \<open>Modules\<close>

definition PLATFORM :: string where "PLATFORM = ''winhvplatform.dll''"
definition PARTITION :: string where "PARTITION = CHR 0x5C # ''Device'' @ CHR 0x5C # ''VidExo''"
definition FIRST_MODULES :: nat where "FIRST_MODULES = 256"

definition file_name_is :: "u16 list \<Rightarrow> string \<Rightarrow> bool" where
  "file_name_is path name =
    eq_ignore_ascii_case (from_utf16_lossy (rev (takeWhile (\<lambda>u. u \<noteq> 0x5C) (rev path)))) name"

text \<open>
  \<^verbatim>\<open>EnumProcessModulesEx\<close> with room for so many: None when it fails, else how many there
  are, and the path each of those that fit is mapped from.
\<close>
fun loads_again :: "(nat \<Rightarrow> nat \<Rightarrow> (nat \<times> u16 list list) option) \<Rightarrow> nat \<Rightarrow> nat \<Rightarrow> string \<Rightarrow> bool option \<times> nat" where
  "loads_again ask 0 room name = (None, room)"
| "loads_again ask (Suc n) room name =
    (case ask (3 - n) room of
       None \<Rightarrow> (None, room)
     | Some (found, paths) \<Rightarrow>
         if found \<le> room then (Some (list_ex (\<lambda>path. file_name_is path name) (take found paths)), room)
         else loads_again ask n (found + found div 8) name)"

definition loads :: "(nat \<Rightarrow> nat \<Rightarrow> (nat \<times> u16 list list) option) \<Rightarrow> string \<Rightarrow> nat \<Rightarrow> bool option \<times> nat" where
  "loads ask name room = loads_again ask 4 (if room = 0 then FIRST_MODULES else room) name"

section \<open>Handles\<close>

definition HANDLES_HEADER :: nat where "HANDLES_HEADER = 16"
definition HANDLE_ENTRY_SIZE :: nat where "HANDLE_ENTRY_SIZE = 40"
definition FIRST_HANDLE_WORDS :: nat where "FIRST_HANDLE_WORDS = 4096"
definition KEPT_HANDLE_WORDS :: nat where "KEPT_HANDLE_WORDS = FIRST_HANDLE_WORDS"

record handle_entry =
  hn_handle :: u64
  hn_object_type :: u32

datatype handle_status = HandlesMismatch | HandlesError | HandlesRead

text \<open>The status, the bytes needed, the count it puts first and the entries behind the header.\<close>
record handles_answer =
  ha_status :: handle_status
  ha_needed :: nat
  ha_count :: nat
  ha_entries :: "handle_entry list"

fun handles_again :: "(nat \<Rightarrow> nat \<Rightarrow> handles_answer) \<Rightarrow> nat \<Rightarrow> nat \<Rightarrow> handle_entry list option \<times> nat" where
  "handles_again ask 0 len = (None, len)"
| "handles_again ask (Suc n) len =
    (let a = ask (3 - n) len in
     case ha_status a of
       HandlesMismatch \<Rightarrow> handles_again ask n (max ((ha_needed a + 7) div 8) (len * 2))
     | HandlesError \<Rightarrow> (None, len)
     | HandlesRead \<Rightarrow>
         (Some (take (min (ha_count a) ((len * 8 - HANDLES_HEADER) div HANDLE_ENTRY_SIZE)) (ha_entries a)), len))"

definition process_handles :: "(nat \<Rightarrow> nat \<Rightarrow> handles_answer) \<Rightarrow> nat \<Rightarrow> handle_entry list option \<times> nat" where
  "process_handles ask len = handles_again ask 4 (if len = 0 then FIRST_HANDLE_WORDS else len)"

definition with_handles :: "(nat \<Rightarrow> nat \<Rightarrow> handles_answer) \<Rightarrow> (handle_entry list \<Rightarrow> 'a) \<Rightarrow> nat \<Rightarrow> 'a option \<times> nat" where
  "with_handles ask read len =
    (case process_handles ask len of
       (entries, len) \<Rightarrow> (map_option read entries, if len > KEPT_HANDLE_WORDS then KEPT_HANDLE_WORDS else len))"

text \<open>\<^verbatim>\<open>file_type\<close>: the type of the handle the agent holds of its own file, None without one.\<close>
definition file_type :: "u64 option \<Rightarrow> (nat \<Rightarrow> nat \<Rightarrow> handles_answer) \<Rightarrow> u32 option" where
  "file_type mine ask =
    (case mine of
       None \<Rightarrow> None
     | Some h \<Rightarrow>
         (case fst (with_handles ask (\<lambda>entries. map_option hn_object_type (find (\<lambda>e. hn_handle e = h) entries)) 0) of
            None \<Rightarrow> None
          | Some found \<Rightarrow> found))"

section \<open>The partition\<close>

definition MOST_STUCK :: nat where "MOST_STUCK = 3"

text \<open>
  What comes of asking for a handle's name: whether it could be duplicated, whether a thread
  to ask starts when none is there, and the answer, None when it does not come in time.
\<close>
record naming =
  nm_duplicated :: bool
  nm_starts :: bool
  nm_answer :: "bool option"

text \<open>\<^verbatim>\<open>names\<close>: the buffer is None for a status that is an error; \<open>at\<close> is where it lies.\<close>
definition names_partition :: "u64 \<Rightarrow> u8 list option \<Rightarrow> bool" where
  "names_partition at buffer =
    (case buffer of
       None \<Rightarrow> False
     | Some bytes \<Rightarrow>
         (case unicode_string_in at bytes of
            None \<Rightarrow> False
          | Some units \<Rightarrow> eq_ignore_ascii_case (from_utf16_lossy units) PARTITION))"

fun name_each :: "(u64 \<Rightarrow> naming) \<Rightarrow> u64 list \<Rightarrow> nat \<Rightarrow> bool \<Rightarrow> bool option \<times> bool" where
  "name_each ask [] stuck namer = (if stuck = 0 then Some False else None, namer)"
| "name_each ask (h # hs) stuck namer =
    (if \<not> nm_duplicated (ask h) then name_each ask hs stuck namer
     else if \<not> namer \<and> \<not> nm_starts (ask h) then (None, False)
     else case nm_answer (ask h) of
            Some True \<Rightarrow> (Some True, True)
          | Some False \<Rightarrow> name_each ask hs stuck True
          | None \<Rightarrow> if Suc stuck = MOST_STUCK then (None, False) else name_each ask hs (Suc stuck) False)"

text \<open>What is kept between two checks: the lengths of the buffers, and whether a naming thread is there.\<close>
record scratch =
  sc_modules :: nat
  sc_handles :: nat
  sc_namer :: bool

definition holds_partition ::
    "u32 option \<Rightarrow> (nat \<Rightarrow> nat \<Rightarrow> handles_answer) \<Rightarrow> (u64 \<Rightarrow> naming) \<Rightarrow> scratch \<Rightarrow> bool option \<times> scratch" where
  "holds_partition file handles ask s =
    (case file of
       None \<Rightarrow> (None, s)
     | Some type \<Rightarrow>
         (case with_handles handles (\<lambda>es. map hn_handle (filter (\<lambda>e. hn_object_type e = type) es)) (sc_handles s) of
            (None, len) \<Rightarrow> (None, s\<lparr>sc_handles := len\<rparr>)
          | (Some files, len) \<Rightarrow>
              (case name_each ask files 0 (sc_namer s) of
                 (answer, namer) \<Rightarrow> (answer, s\<lparr>sc_handles := len, sc_namer := namer\<rparr>))))"

text \<open>What a process answers to a check.\<close>
record host_answers =
  ho_opened :: bool
  ho_modules :: "nat \<Rightarrow> nat \<Rightarrow> (nat \<times> u16 list list) option"
  ho_handles :: "nat \<Rightarrow> nat \<Rightarrow> handles_answer"
  ho_naming :: "u64 \<Rightarrow> naming"

definition vm_host :: "u32 option \<Rightarrow> host_answers \<Rightarrow> scratch \<Rightarrow> bool option \<times> scratch" where
  "vm_host file a s =
    (if \<not> ho_opened a then (None, s)
     else case loads (ho_modules a) PLATFORM (sc_modules s) of
            (None, room) \<Rightarrow> (None, s\<lparr>sc_modules := room\<rparr>)
          | (Some False, room) \<Rightarrow> (Some False, s\<lparr>sc_modules := room\<rparr>)
          | (Some True, room) \<Rightarrow> holds_partition file (ho_handles a) (ho_naming a) (s\<lparr>sc_modules := room\<rparr>))"

section \<open>What a check answers\<close>

text \<open>The handles of files a check names, among those it reads; None when it reads none.\<close>
definition files_of :: "u32 option \<Rightarrow> host_answers \<Rightarrow> scratch \<Rightarrow> u64 list option" where
  "files_of file a s =
    (case file of
       None \<Rightarrow> None
     | Some type \<Rightarrow>
         map_option (\<lambda>es. map hn_handle (filter (\<lambda>e. hn_object_type e = type) es)) (fst (process_handles (ho_handles a) (sc_handles s))))"

definition is_partition :: "host_answers \<Rightarrow> u64 \<Rightarrow> bool" where
  "is_partition a h \<longleftrightarrow> nm_duplicated (ho_naming a h) \<and> nm_answer (ho_naming a h) = Some True"

text \<open>A handle that is the partition device is named as such in time, or can not be duplicated.\<close>
definition told_otherwise :: "host_answers \<Rightarrow> u64 \<Rightarrow> bool" where
  "told_otherwise a h \<longleftrightarrow> \<not> nm_duplicated (ho_naming a h) \<or> nm_answer (ho_naming a h) = Some False"

lemma name_each_True: "fst (name_each ask hs stuck namer) = Some True \<Longrightarrow>
    \<exists>h\<in>set hs. nm_duplicated (ask h) \<and> nm_answer (ask h) = Some True"
proof (induction hs arbitrary: stuck namer)
  case (Cons h hs)
  show ?case
  proof (cases "nm_duplicated (ask h) \<and> nm_answer (ask h) = Some True")
    case False
    then obtain stuck' namer' where "fst (name_each ask hs stuck' namer') = Some True"
      using Cons.prems by (cases "nm_answer (ask h)") (auto split: if_splits)
    then show ?thesis using Cons.IH by auto
  qed auto
qed (simp split: if_splits)

lemma name_each_False: "fst (name_each ask hs stuck namer) = Some False \<Longrightarrow>
    stuck = 0 \<and> (\<forall>h\<in>set hs. \<not> nm_duplicated (ask h) \<or> nm_answer (ask h) = Some False)"
proof (induction hs arbitrary: stuck namer)
  case (Cons h hs)
  consider "\<not> nm_duplicated (ask h)" | "nm_duplicated (ask h)" "nm_answer (ask h) = None"
    | "nm_duplicated (ask h)" "nm_answer (ask h) = Some True" | "nm_duplicated (ask h)" "nm_answer (ask h) = Some False"
    by (cases "nm_answer (ask h)") auto
  then show ?case
  proof cases
    case 2
    then show ?thesis using Cons.prems Cons.IH [of "Suc stuck" False] by (simp split: if_splits)
  qed (use Cons in \<open>auto split: if_splits\<close>)
qed (simp split: if_splits)

lemma name_each_prompt:
  "(\<And>h. h \<in> set hs \<Longrightarrow> nm_duplicated (ask h) \<Longrightarrow> nm_starts (ask h) \<and> nm_answer (ask h) \<noteq> None) \<Longrightarrow>
    fst (name_each ask hs 0 namer) = Some (\<exists>h\<in>set hs. nm_duplicated (ask h) \<and> nm_answer (ask h) = Some True)"
proof (induction hs arbitrary: namer)
  case (Cons h hs)
  show ?case
  proof (cases "nm_duplicated (ask h)")
    case True
    then obtain answer where "nm_starts (ask h)" "nm_answer (ask h) = Some answer" using Cons.prems [of h] by auto
    then show ?thesis using Cons True by (cases answer) auto
  next
    case False
    then show ?thesis using Cons by auto
  qed
qed simp

lemma vm_host_cases:
  obtains (unread) "fst (vm_host file a s) = None"
  | (other) "fst (vm_host file a s) = Some False" "fst (loads (ho_modules a) PLATFORM (sc_modules s)) = Some False"
  | (named) files where "fst (loads (ho_modules a) PLATFORM (sc_modules s)) = Some True" "ho_opened a"
      "files_of file a s = Some files" "fst (vm_host file a s) = fst (name_each (ho_naming a) files 0 (sc_namer s))"
proof -
  obtain platform room where l: "loads (ho_modules a) PLATFORM (sc_modules s) = (platform, room)" by fastforce
  consider "\<not> ho_opened a" | "ho_opened a" "platform = None" | "ho_opened a" "platform = Some False"
    | "ho_opened a" "platform = Some True" by (cases platform) auto
  then show ?thesis
  proof cases
    case 4
    show ?thesis
    proof (cases "files_of file a s")
      case None
      then have "fst (vm_host file a s) = None"
        using 4 l by (auto simp: vm_host_def files_of_def holds_partition_def with_handles_def split: option.splits prod.splits)
      then show ?thesis by (rule unread)
    next
      case (Some files)
      then have "fst (vm_host file a s) = fst (name_each (ho_naming a) files 0 (sc_namer s))"
        using 4 l by (auto simp: vm_host_def files_of_def holds_partition_def with_handles_def split: option.splits prod.splits)
      then show ?thesis using named 4 l Some by simp
    qed
  qed (use l unread other in \<open>simp_all add: vm_host_def\<close>)
qed

text \<open>
  A process is told to run a machine only when it has loaded the platform and one of the
  files it holds was named the partition device; it is told not to only when it has not
  loaded the platform or every file it holds that can be looked at was named and is
  another; and when all of them are named in time it is told the one or the other.
\<close>
theorem a_host_is_told_by_its_partition:
  "(fst (vm_host file a s) = Some True \<longrightarrow>
      fst (loads (ho_modules a) PLATFORM (sc_modules s)) = Some True \<and>
      pred_option (list_ex (is_partition a)) (files_of file a s) \<and> files_of file a s \<noteq> None) \<and>
   (fst (vm_host file a s) = Some False \<longrightarrow>
      fst (loads (ho_modules a) PLATFORM (sc_modules s)) = Some False \<or>
      (files_of file a s \<noteq> None \<and> pred_option (list_all (told_otherwise a)) (files_of file a s))) \<and>
   (ho_opened a \<and> fst (loads (ho_modules a) PLATFORM (sc_modules s)) = Some True \<and> files_of file a s = Some files \<and>
      list_all (\<lambda>h. nm_duplicated (ho_naming a h) \<longrightarrow> nm_starts (ho_naming a h) \<and> nm_answer (ho_naming a h) \<noteq> None) files \<longrightarrow>
      fst (vm_host file a s) = Some (list_ex (is_partition a) files))"
  (is "?yes \<and> ?no \<and> ?prompt")
proof (intro conjI)
  show ?yes
    by (cases rule: vm_host_cases [of "file" a s])
      (auto dest: name_each_True simp: is_partition_def list_ex_iff)
  show ?no
    by (cases rule: vm_host_cases [of "file" a s])
      (auto dest: name_each_False simp: told_otherwise_def list_all_iff)
  show ?prompt
  proof
    assume p: "ho_opened a \<and> fst (loads (ho_modules a) PLATFORM (sc_modules s)) = Some True \<and> files_of file a s = Some files \<and>
      list_all (\<lambda>h. nm_duplicated (ho_naming a h) \<longrightarrow> nm_starts (ho_naming a h) \<and> nm_answer (ho_naming a h) \<noteq> None) files"
    then have "fst (vm_host file a s) = fst (name_each (ho_naming a) files 0 (sc_namer s))"
      by (auto simp: vm_host_def files_of_def holds_partition_def with_handles_def split: option.splits prod.splits)
    also have "\<dots> = Some (\<exists>h\<in>set files. nm_duplicated (ho_naming a h) \<and> nm_answer (ho_naming a h) = Some True)"
      using p by (intro name_each_prompt) (auto simp: list_all_iff)
    finally show "fst (vm_host file a s) = Some (list_ex (is_partition a) files)"
      by (simp add: is_partition_def list_ex_iff)
  qed
qed

lemma walks_keep_little: "snd (walk opened ask of_blocks len) \<le> KEPT_BLOCKS"
  by (simp add: walk_def split: prod.split)

text \<open>Text of ASCII characters, in UTF-16.\<close>
definition ascii_units :: "string \<Rightarrow> u16 list" where
  "ascii_units t = map (\<lambda>c. of_nat (of_char c)) t"

lemma utf16_points_plain: "(\<And>u. u \<in> set us \<Longrightarrow> unat u < 0xD800) \<Longrightarrow> utf16_points us = map unat us"
  by (induction us rule: utf16_points.induct) (auto simp: not_le [symmetric])

lemma unat_ascii: "(of_char c :: nat) < 128 \<Longrightarrow> unat (of_nat (of_char c) :: u16) = of_char c"
  unfolding unat_of_nat by simp

lemma from_utf16_ascii:
  assumes "list_all (\<lambda>c. (of_char c :: nat) < 128) t"
  shows "from_utf16_lossy (ascii_units t) = t"
proof -
  have small: "(of_char c :: nat) < 128" if "c \<in> set t" for c using assms that by (simp add: list_all_iff)
  have "utf16_points (ascii_units t) = map unat (ascii_units t)"
    using small by (intro utf16_points_plain) (fastforce simp: ascii_units_def unat_ascii)
  also have "\<dots> = map of_char t" using small by (simp add: ascii_units_def unat_ascii)
  also have "concat (map utf8_of (map of_char t)) = t"
    using small by (induction t) (auto simp: utf8_of_def)
  finally show ?thesis by (simp add: from_utf16_lossy_def)
qed

lemma ascii_file_name:
  assumes "list_all (\<lambda>c. (of_char c :: nat) < 128) t" "CHR 0x5C \<notin> set t"
  shows "file_name_is (ascii_units t) t"
proof -
  have "u \<noteq> 0x5C" if u: "u \<in> set (rev (ascii_units t))" for u
  proof
    assume "u = 0x5C"
    then obtain c where "c \<in> set t" "(of_nat (of_char c) :: u16) = 0x5C" using u by (auto simp: ascii_units_def)
    then have "(of_char c :: nat) = 92" using assms(1) unat_ascii [of c] by (auto simp: list_all_iff)
    then have "(of_char c :: nat) = of_char (CHR 0x5C)" by simp
    then have "c = CHR 0x5C" by (simp only: of_char_eq_iff)
    then show False using assms(2) \<open>c \<in> set t\<close> by simp
  qed
  then have plain: "takeWhile (\<lambda>u. u \<noteq> 0x5C) (rev (ascii_units t)) = rev (ascii_units t)"
    by (simp only: takeWhile_eq_all_conv) blast
  show ?thesis
    unfolding file_name_is_def plain rev_rev_ident from_utf16_ascii [OF assms(1)] by (simp add: eq_ignore_ascii_case_def)
qed

text \<open>A process with the platform loaded that holds one file, which is the partition device.\<close>
definition one_host :: host_answers where
  "one_host = \<lparr>ho_opened = True, ho_modules = (\<lambda>_ _. Some (1, [ascii_units PLATFORM])),
    ho_handles = (\<lambda>_ _. \<lparr>ha_status = HandlesRead, ha_needed = 0, ha_count = 2,
      ha_entries = [\<lparr>hn_handle = 4, hn_object_type = 9\<rparr>, \<lparr>hn_handle = 8, hn_object_type = 37\<rparr>]\<rparr>),
    ho_naming = (\<lambda>_. \<lparr>nm_duplicated = True, nm_starts = True, nm_answer = Some True\<rparr>)\<rparr>"

definition no_scratch :: scratch where
  "no_scratch = \<lparr>sc_modules = 0, sc_handles = 0, sc_namer = False\<rparr>"

lemma a_host_is_told_by_its_partition_witness:
  "fst (vm_host (Some 37) one_host no_scratch) = Some True"
proof -
  have named: "file_name_is (ascii_units PLATFORM) PLATFORM" by (rule ascii_file_name) (simp_all add: PLATFORM_def)
  have four: "(4 :: nat) = Suc 3" by simp
  have platform: "fst (loads (ho_modules one_host) PLATFORM (sc_modules no_scratch)) = Some True"
    unfolding loads_def four loads_again.simps using named by (simp add: one_host_def no_scratch_def FIRST_MODULES_def)
  have files: "files_of (Some 37) one_host no_scratch = Some [8]"
    unfolding files_of_def process_handles_def four handles_again.simps
    by (simp add: one_host_def no_scratch_def FIRST_HANDLE_WORDS_def HANDLES_HEADER_def HANDLE_ENTRY_SIZE_def)
  have "fst (vm_host (Some 37) one_host no_scratch) = Some (list_ex (is_partition one_host) [8])"
    using a_host_is_told_by_its_partition [of "Some 37" one_host no_scratch "[8]"] platform files
    by (simp add: one_host_def)
  then show ?thesis by (simp add: is_partition_def one_host_def)
qed

end
