(* ===== verification/Service_Watch.thy ===== *)
theory Service_Watch
  imports Inventory Snapshot
begin

text \<open>
  \<^verbatim>\<open>src/scm/watch.rs\<close>: the services someone follows, and what the agent's picture is told of
  each as the SCM reports its changes. The board of who follows what (\<^verbatim>\<open>Board\<close> of the agent
  kit) is a record of its operations; a \<^verbatim>\<open>HashMap\<close> is a list in the order it is iterated in;
  what the SCM answers in a turn is an argument of the turn.
\<close>

section \<open>Notifications\<close>

definition POLL_WHILE_PENDING :: duration where "POLL_WHILE_PENDING = millis 250"

definition ERROR_SUCCESS :: u32 where "ERROR_SUCCESS = 0"
definition ERROR_SERVICE_NOTIFY_CLIENT_LAGGING :: u32 where "ERROR_SERVICE_NOTIFY_CLIENT_LAGGING = 1294"
definition INFINITE :: u32 where "INFINITE = 4294967295"
definition SERVICE_NOTIFY_DELETE_PENDING :: u32 where "SERVICE_NOTIFY_DELETE_PENDING = 512"

fun state_bit :: "service_state \<Rightarrow> u32" where
  "state_bit SvcUnknown = 0"
| "state_bit SvcStopped = 1"
| "state_bit SvcStartPending = 2"
| "state_bit SvcStopPending = 4"
| "state_bit SvcRunning = 8"
| "state_bit SvcContinuePending = 16"
| "state_bit SvcPausePending = 32"
| "state_bit SvcPaused = 64"

definition EVERY_STATE :: u32 where
  "EVERY_STATE = or (or (or (or (or (or (state_bit SvcStopped) (state_bit SvcStartPending)) (state_bit SvcStopPending))
    (state_bit SvcRunning)) (state_bit SvcContinuePending)) (state_bit SvcPausePending)) (state_bit SvcPaused)"

definition arm_mask :: "service_status option \<Rightarrow> u32" where
  "arm_mask lst = or (and EVERY_STATE (not (case lst of None \<Rightarrow> 0 | Some s \<Rightarrow> state_bit (st_state s))))
    SERVICE_NOTIFY_DELETE_PENDING"

text \<open>What \<^verbatim>\<open>SERVICE_NOTIFY_2W\<close> has once it is filled in.\<close>
record notice =
  dwNotificationStatus :: u32
  dwNotificationTriggered :: u32
  nt_status :: raw_status

definition notice_default :: notice where
  "notice_default = \<lparr>dwNotificationStatus = 0, dwNotificationTriggered = 0,
    nt_status = \<lparr>dwServiceType = 0, dwCurrentState = 0, dwControlsAccepted = 0, dwWin32ExitCode = 0,
      dwServiceSpecificExitCode = 0, dwCheckPoint = 0, dwWaitHint = 0, dwProcessId = 0\<rparr>\<rparr>"

text \<open>
  Whether the service is open, the notification, whether it fired; and the mask the SCM
  holds for it, None once it was delivered or its service closed.
\<close>
record watched =
  wt_service :: bool
  wt_notify :: notice
  wt_fired :: bool
  wt_armed :: "u32 option"

text \<open>What the SCM answers: to opening a service, to a mask, to a query of its status.\<close>
record scm_answers =
  sa_opens :: "string \<Rightarrow> bool"
  sa_arm :: "string \<Rightarrow> u32 \<Rightarrow> u32"
  sa_status :: "string \<Rightarrow> service_status option"

definition closed :: "watched \<Rightarrow> watched" where
  "closed w = w\<lparr>wt_service := False, wt_armed := None\<rparr>"

definition watched_arm :: "scm_answers \<Rightarrow> string \<Rightarrow> service_status option \<Rightarrow> watched \<Rightarrow> watched" where
  "watched_arm a name lst w =
    (if \<not> wt_service w then w
     else (let w = w\<lparr>wt_notify := notice_default\<rparr>
           in if sa_arm a name (arm_mask lst) \<noteq> ERROR_SUCCESS then closed w
              else w\<lparr>wt_armed := Some (arm_mask lst)\<rparr>))"

definition watched_connect :: "scm_answers \<Rightarrow> string \<Rightarrow> watched \<Rightarrow> watched" where
  "watched_connect a name w = watched_arm a name None (w\<lparr>wt_service := sa_opens a name, wt_armed := None\<rparr>)"

definition watched_open :: "scm_answers \<Rightarrow> string \<Rightarrow> watched option" where
  "watched_open a name =
    (let w = watched_connect a name \<lparr>wt_service = False, wt_notify = notice_default, wt_fired = False, wt_armed = None\<rparr>
     in if wt_service w then Some w else None)"

text \<open>The callback: Windows has filled in the notification, which it delivers once.\<close>
definition watched_fire :: "notice \<Rightarrow> watched \<Rightarrow> watched" where
  "watched_fire n w = w\<lparr>wt_notify := n, wt_fired := True, wt_armed := None\<rparr>"

section \<open>The board\<close>

type_synonym services_watched = "(string, watched) hashmap"

text \<open>
  \<^verbatim>\<open>Board<String, ServiceStatus>\<close>. The opening that \<^verbatim>\<open>take_requests\<close> is handed changes the
  services watched and answers whether the service could be opened.
\<close>
record 'b board =
  bd_last :: "'b \<Rightarrow> string \<Rightarrow> service_status option"
  bd_publish :: "string \<Rightarrow> service_status \<Rightarrow> 'b \<Rightarrow> 'b"
  bd_forget :: "string \<Rightarrow> 'b \<Rightarrow> 'b"
  bd_end :: "string \<Rightarrow> 'b \<Rightarrow> 'b"
  bd_sweep :: "instant \<Rightarrow> 'b \<Rightarrow> string list \<times> 'b"
  bd_next_deadline :: "'b \<Rightarrow> instant option"
  bd_take_requests :: "(string \<Rightarrow> services_watched \<Rightarrow> bool \<times> services_watched) \<Rightarrow> services_watched \<Rightarrow> 'b \<Rightarrow>
    services_watched \<times> 'b"

text \<open>The board and what was handed to \<^verbatim>\<open>publish\<close>, the latest at the back.\<close>
record 'b telling =
  tl_board :: 'b
  tl_told :: "(string \<times> service_status option) list"

definition dispatch :: "'b board \<Rightarrow> string \<Rightarrow> service_status \<Rightarrow> 'b telling \<Rightarrow> 'b telling" where
  "dispatch kit name status t =
    (if bd_last kit (tl_board t) name = Some status then t
     else t\<lparr>tl_told := tl_told t @ [(name, Some status)], tl_board := bd_publish kit name status (tl_board t)\<rparr>)"

definition followed_pending :: "'b board \<Rightarrow> 'b \<Rightarrow> string \<Rightarrow> bool" where
  "followed_pending kit b name =
    (case bd_last kit b name of Some s \<Rightarrow> is_pending (st_state s) | None \<Rightarrow> False)"

definition watched_notified ::
    "'b board \<Rightarrow> scm_answers \<Rightarrow> string \<Rightarrow> watched \<Rightarrow> 'b telling \<Rightarrow> watched \<times> 'b telling" where
  "watched_notified kit a name w t =
    (let code = dwNotificationStatus (wt_notify w) in
     if code = ERROR_SERVICE_NOTIFY_CLIENT_LAGGING then
       (watched_connect a name w, t\<lparr>tl_board := bd_forget kit name (tl_board t)\<rparr>)
     else if code \<noteq> ERROR_SUCCESS \<or> and (dwNotificationTriggered (wt_notify w)) SERVICE_NOTIFY_DELETE_PENDING \<noteq> 0 then
       (closed w, t)
     else (let t = dispatch kit name (service_status_of (nt_status (wt_notify w))) t
           in (watched_arm a name (bd_last kit (tl_board t) name) w, t)))"

definition watched_poll :: "'b board \<Rightarrow> scm_answers \<Rightarrow> string \<Rightarrow> watched \<Rightarrow> 'b telling \<Rightarrow> 'b telling" where
  "watched_poll kit a name w t =
    (case (if wt_service w then sa_status a name else None) of
       Some status \<Rightarrow> dispatch kit name status t
     | None \<Rightarrow> t)"

section \<open>The thread\<close>

record 'b watcher =
  wr_watched :: services_watched
  wr_telling :: "'b telling"
  wr_next_poll :: instant

text \<open>What \<^verbatim>\<open>run\<close> hands to \<^verbatim>\<open>take_requests\<close>.\<close>
definition open_request :: "scm_answers \<Rightarrow> string \<Rightarrow> services_watched \<Rightarrow> bool \<times> services_watched" where
  "open_request a name ws =
    (case watched_open a name of
       Some w \<Rightarrow> (True, hm_put name w ws)
     | None \<Rightarrow> (False, ws))"

fun notify_each :: "'b board \<Rightarrow> scm_answers \<Rightarrow> services_watched \<Rightarrow> 'b telling \<Rightarrow> services_watched \<times> 'b telling" where
  "notify_each kit a [] t = ([], t)"
| "notify_each kit a ((name, w) # ws) t =
    (case (if wt_fired w then watched_notified kit a name (w\<lparr>wt_fired := False\<rparr>) t else (w, t)) of
       (w, t) \<Rightarrow> (case notify_each kit a ws t of (ws, t) \<Rightarrow> ((name, w) # ws, t)))"

fun poll_each :: "'b board \<Rightarrow> scm_answers \<Rightarrow> services_watched \<Rightarrow> 'b telling \<Rightarrow> 'b telling" where
  "poll_each kit a [] t = t"
| "poll_each kit a ((name, w) # ws) t =
    poll_each kit a ws (if followed_pending kit (tl_board t) name then watched_poll kit a name w t else t)"

fun retire_each :: "string list \<Rightarrow> services_watched \<Rightarrow> (string \<times> service_status option) list \<Rightarrow>
    services_watched \<times> (string \<times> service_status option) list" where
  "retire_each [] ws told = (ws, told)"
| "retire_each (name # names) ws told =
    (case hm_get ws name of
       Some _ \<Rightarrow> retire_each names (hm_del name ws) (told @ [(name, None)])
     | None \<Rightarrow> retire_each names ws told)"

definition any_pending :: "'b board \<Rightarrow> services_watched \<Rightarrow> 'b \<Rightarrow> bool" where
  "any_pending kit ws b = list_ex (\<lambda>(name, _). followed_pending kit b name) ws"

text \<open>The polls of a turn, and when the next are due.\<close>
definition turn_polls :: "'b board \<Rightarrow> scm_answers \<Rightarrow> instant \<Rightarrow> 'b watcher \<Rightarrow> 'b watcher" where
  "turn_polls kit a now r =
    (if now \<ge> wr_next_poll r \<and> any_pending kit (wr_watched r) (tl_board (wr_telling r)) then
       r\<lparr>wr_telling := poll_each kit a (wr_watched r) (wr_telling r), wr_next_poll := now + POLL_WHILE_PENDING\<rparr>
     else r)"

text \<open>Who is no longer followed: their service is gone, or nobody asks about it any more.\<close>
definition turn_retires :: "'b board \<Rightarrow> instant \<Rightarrow> 'b watcher \<Rightarrow> 'b watcher" where
  "turn_retires kit now r =
    (let gone = map fst (filter (\<lambda>(_, w). \<not> wt_service w) (wr_watched r));
         b = fold (bd_end kit) gone (tl_board (wr_telling r))
     in case bd_sweep kit now b of
          (swept, b) \<Rightarrow>
            (case retire_each (gone @ swept) (wr_watched r) (tl_told (wr_telling r)) of
               (ws, told) \<Rightarrow> r\<lparr>wr_watched := ws, wr_telling := \<lparr>tl_board = b, tl_told = told\<rparr>\<rparr>))"

text \<open>A turn of \<^verbatim>\<open>run\<close> after its wait, when it is not to stop.\<close>
definition watch_turn :: "'b board \<Rightarrow> scm_answers \<Rightarrow> instant \<Rightarrow> 'b watcher \<Rightarrow> 'b watcher" where
  "watch_turn kit a now r =
    (case bd_take_requests kit (open_request a) (wr_watched r) (tl_board (wr_telling r)) of
       (ws, b) \<Rightarrow>
         (case notify_each kit a ws ((wr_telling r)\<lparr>tl_board := b\<rparr>) of
            (ws, t) \<Rightarrow>
              turn_retires kit now (turn_polls kit a now (r\<lparr>wr_watched := ws, wr_telling := t\<rparr>))))"

definition watch_timeout :: "'b board \<Rightarrow> 'b watcher \<Rightarrow> instant \<Rightarrow> u32" where
  "watch_timeout kit r now =
    (if list_ex (\<lambda>(_, w). wt_fired w) (wr_watched r) then 0
     else case (if any_pending kit (wr_watched r) (tl_board (wr_telling r)) then Some (wr_next_poll r) else None,
                bd_next_deadline kit (tl_board (wr_telling r))) of
            (None, None) \<Rightarrow> INFINITE
          | (Some at, None) \<Rightarrow> of_nat ((at - now) div millis 1)
          | (None, Some at) \<Rightarrow> of_nat ((at - now) div millis 1)
          | (Some at, Some at') \<Rightarrow> of_nat ((min at at' - now) div millis 1))"

definition watcher_new :: "'b \<Rightarrow> instant \<Rightarrow> 'b watcher" where
  "watcher_new b now = \<lparr>wr_watched = [], wr_telling = \<lparr>tl_board = b, tl_told = []\<rparr>, wr_next_poll = now\<rparr>"

section \<open>What the picture is told\<close>

text \<open>The status the picture was last told of a service, None when that was the end of it.\<close>
definition told_now :: "(string \<times> service_status option) list \<Rightarrow> string \<Rightarrow> service_status option" where
  "told_now told name = (case map_of (rev told) name of Some s \<Rightarrow> s | None \<Rightarrow> None)"

lemma told_now_Nil [simp]: "told_now [] name = None"
  by (simp add: told_now_def)

lemma told_now_snoc [simp]: "told_now (told @ [(name, s)]) = (told_now told)(name := s)"
  by (rule ext) (simp add: told_now_def)

text \<open>
  What the thread relies on of the board: a status published is the last one until another
  is, or it is forgotten, its service ends or nobody is left who asks about it; requests
  change no status and are put to the thread one name after the other.
\<close>
definition board_ok :: "'b board \<Rightarrow> bool" where
  "board_ok kit \<longleftrightarrow>
    (\<forall>b name s. bd_last kit (bd_publish kit name s b) = (bd_last kit b)(name := Some s)) \<and>
    (\<forall>b name. bd_last kit (bd_forget kit name b) = (bd_last kit b)(name := None)) \<and>
    (\<forall>b name. bd_last kit (bd_end kit name b) = (bd_last kit b)(name := None)) \<and>
    (\<forall>b now name. bd_last kit (snd (bd_sweep kit now b)) name =
       (if name \<in> set (fst (bd_sweep kit now b)) then None else bd_last kit b name)) \<and>
    (\<forall>b open_one ws. bd_last kit (snd (bd_take_requests kit open_one ws b)) = bd_last kit b \<and>
       (\<exists>names. fst (bd_take_requests kit open_one ws b) = fold (\<lambda>name ws. snd (open_one name ws)) names ws))"

lemma board_okD:
  assumes "board_ok kit"
  shows "bd_last kit (bd_publish kit name s b) = (bd_last kit b)(name := Some s)"
    and "bd_last kit (bd_forget kit name b) = (bd_last kit b)(name := None)"
    and "bd_last kit (bd_end kit name b) = (bd_last kit b)(name := None)"
    and "bd_sweep kit now b = (swept, b') \<Longrightarrow> bd_last kit b' name = (if name \<in> set swept then None else bd_last kit b name)"
    and "bd_take_requests kit open_one ws b = (ws', b') \<Longrightarrow> bd_last kit b' = bd_last kit b"
    and "bd_take_requests kit open_one ws b = (ws', b') \<Longrightarrow>
      \<exists>names. ws' = fold (\<lambda>name ws. snd (open_one name ws)) names ws"
  using assms unfolding board_ok_def by (metis fst_conv snd_conv)+

text \<open>The services followed are the only ones the picture has a status of, the last one known.\<close>
definition telling_ok :: "'b board \<Rightarrow> string set \<Rightarrow> 'b telling \<Rightarrow> bool" where
  "telling_ok kit names t \<longleftrightarrow>
    (\<forall>name s. bd_last kit (tl_board t) name = Some s \<longrightarrow> name \<in> names \<and> told_now (tl_told t) name = Some s) \<and>
    (\<forall>name. told_now (tl_told t) name \<noteq> None \<longrightarrow> name \<in> names)"

lemma telling_ok_mono: "telling_ok kit names t \<Longrightarrow> names \<subseteq> names' \<Longrightarrow> telling_ok kit names' t"
  unfolding telling_ok_def by blast

lemma dispatch_ok: "board_ok kit \<Longrightarrow> telling_ok kit names t \<Longrightarrow> name \<in> names \<Longrightarrow> telling_ok kit names (dispatch kit name status t)"
  by (auto simp: telling_ok_def dispatch_def board_okD)

lemma poll_ok: "board_ok kit \<Longrightarrow> telling_ok kit names t \<Longrightarrow> name \<in> names \<Longrightarrow> telling_ok kit names (watched_poll kit a name w t)"
  by (auto simp: watched_poll_def dispatch_ok split: option.split)

lemma poll_each_ok: "board_ok kit \<Longrightarrow> telling_ok kit names t \<Longrightarrow> hm_keys ws \<subseteq> names \<Longrightarrow> telling_ok kit names (poll_each kit a ws t)"
  by (induction kit a ws t rule: poll_each.induct) (simp_all add: poll_ok)

text \<open>An open service either has fired or is waited for under a mask of its last status.\<close>
definition watched_ok :: "watched \<Rightarrow> bool" where
  "watched_ok w \<longleftrightarrow> wt_service w \<longrightarrow> wt_fired w \<or> (\<exists>lst. wt_armed w = Some (arm_mask lst))"

lemma closed_ok [simp]: "watched_ok (closed w)" and closed_fired [simp]: "wt_fired (closed w) = wt_fired w"
  by (simp_all add: watched_ok_def closed_def)

lemma arm_ok: "watched_ok (watched_arm a name lst w)" and arm_fired [simp]: "wt_fired (watched_arm a name lst w) = wt_fired w"
  by (auto simp: watched_ok_def watched_arm_def closed_def Let_def)

lemma connect_ok: "watched_ok (watched_connect a name w)" and connect_fired [simp]: "wt_fired (watched_connect a name w) = wt_fired w"
  by (simp_all add: watched_connect_def arm_ok)

lemma open_request_ok:
  assumes "snd (open_request a name ws) = ws'" "hm_ok ws" "\<forall>(_, w) \<in> set ws. watched_ok w"
  shows "hm_ok ws' \<and> hm_keys ws \<subseteq> hm_keys ws' \<and> (\<forall>(_, w) \<in> set ws'. watched_ok w)"
proof (cases "watched_open a name")
  case None
  then show ?thesis using assms by (simp add: open_request_def)
next
  case (Some w)
  then have w: "watched_ok w" by (auto simp: watched_open_def Let_def connect_ok split: if_splits)
  have ws': "ws' = hm_put name w ws" using assms(1) Some by (simp add: open_request_def)
  have "watched_ok v" if "hm_get ws' key = Some v" for key v
    using that w assms(2,3) by (auto simp: ws' hm split: if_splits)
  then show ?thesis using assms(2) by (auto simp: ws' hm)
qed

lemma requests_ok:
  "hm_ok ws \<Longrightarrow> \<forall>(_, w) \<in> set ws. watched_ok w \<Longrightarrow> ws' = fold (\<lambda>name ws. snd (open_request a name ws)) names ws \<Longrightarrow>
   hm_ok ws' \<and> hm_keys ws \<subseteq> hm_keys ws' \<and> (\<forall>(_, w) \<in> set ws'. watched_ok w)"
proof (induction names arbitrary: ws)
  case (Cons name names)
  let ?ws = "snd (open_request a name ws)"
  have one: "hm_ok ?ws \<and> hm_keys ws \<subseteq> hm_keys ?ws \<and> (\<forall>(_, w) \<in> set ?ws. watched_ok w)"
    by (rule open_request_ok [OF refl Cons.prems(1,2)])
  then have "hm_ok ws' \<and> hm_keys ?ws \<subseteq> hm_keys ws' \<and> (\<forall>(_, w) \<in> set ws'. watched_ok w)"
    using Cons.prems(3) by (intro Cons.IH) simp_all
  with one show ?case by (meson order_trans)
qed simp

lemma notified_ok:
  assumes "board_ok kit" "telling_ok kit names t" "name \<in> names" "watched_notified kit a name w t = (w', t')"
  shows "telling_ok kit names t' \<and> watched_ok w' \<and> wt_fired w' = wt_fired w"
proof (cases "dwNotificationStatus (wt_notify w) = ERROR_SERVICE_NOTIFY_CLIENT_LAGGING")
  case True
  then show ?thesis using assms
    by (auto simp: watched_notified_def connect_ok telling_ok_def board_okD split: if_splits)
next
  case False
  then show ?thesis using assms
    by (auto simp: watched_notified_def Let_def arm_ok dispatch_ok split: if_splits)
qed

lemma notify_each_ok:
  assumes "board_ok kit" "telling_ok kit names t" "hm_keys ws \<subseteq> names" "\<forall>(_, w) \<in> set ws. watched_ok w"
    "notify_each kit a ws t = (ws', t')"
  shows "telling_ok kit names t' \<and> map fst ws' = map fst ws \<and> (\<forall>(_, w) \<in> set ws'. watched_ok w \<and> \<not> wt_fired w)"
  using assms
proof (induction ws arbitrary: t ws')
  case (Cons e ws)
  obtain name w where e: "e = (name, w)" by force
  obtain w1 t1 where one: "(if wt_fired w then watched_notified kit a name (w\<lparr>wt_fired := False\<rparr>) t else (w, t)) = (w1, t1)" by force
  obtain ws1 where more: "notify_each kit a ws t1 = (ws1, t')" and ws': "ws' = (name, w1) # ws1"
    using Cons.prems(5) one by (auto simp: e split: prod.splits)
  have first: "telling_ok kit names t1 \<and> watched_ok w1 \<and> \<not> wt_fired w1"
  proof (cases "wt_fired w")
    case True
    then show ?thesis using one Cons.prems(3) notified_ok [OF Cons.prems(1,2), of name a "w\<lparr>wt_fired := False\<rparr>" w1 t1] by (simp add: e)
  next
    case False
    then show ?thesis using one Cons.prems(2,4) by (auto simp: e)
  qed
  then show ?case using Cons.IH [OF Cons.prems(1) _ _ _ more] Cons.prems(3,4) by (auto simp: ws' e)
qed simp

lemma retire_each_effect:
  "retire_each names ws told = (ws', told') \<Longrightarrow> hm_ok ws \<Longrightarrow>
   hm_ok ws' \<and> hm_get ws' name = (if name \<in> set names then None else hm_get ws name) \<and>
   told_now told' name = (if name \<in> set names \<and> name \<in> hm_keys ws then None else told_now told name)"
proof (induction names ws told rule: retire_each.induct)
  case (2 n names ws told)
  show ?case
  proof (cases "hm_get ws n")
    case None
    then have "n \<notin> hm_keys ws" by (simp add: map_of_eq_None_iff)
    then show ?thesis using 2 None by auto
  next
    case (Some w)
    then have "n \<in> hm_keys ws" by (metis hm_keys_get option.distinct(1))
    then show ?thesis using 2(2) [OF Some] 2(3,4) Some by (auto simp: hm)
  qed
qed auto

lemma fold_end: "board_ok kit \<Longrightarrow>
    bd_last kit (fold (bd_end kit) names b) name = (if name \<in> set names then None else bd_last kit b name)"
  by (induction names arbitrary: b) (simp_all add: board_okD)

definition watcher_ok :: "'b board \<Rightarrow> instant \<Rightarrow> 'b watcher \<Rightarrow> bool" where
  "watcher_ok kit at r \<longleftrightarrow>
    hm_ok (wr_watched r) \<and> telling_ok kit (hm_keys (wr_watched r)) (wr_telling r) \<and>
    (\<forall>(_, w) \<in> set (wr_watched r). wt_service w \<and> watched_ok w) \<and>
    wr_next_poll r \<le> at + POLL_WHILE_PENDING"

lemma turn_polls_ok:
  assumes "board_ok kit" "telling_ok kit (hm_keys (wr_watched r)) (wr_telling r)" "wr_next_poll r \<le> at + POLL_WHILE_PENDING" "at \<le> now"
  shows "telling_ok kit (hm_keys (wr_watched r)) (wr_telling (turn_polls kit a now r))"
    and "wr_watched (turn_polls kit a now r) = wr_watched r"
    and "wr_next_poll (turn_polls kit a now r) \<le> now + POLL_WHILE_PENDING"
  using assms poll_each_ok [OF assms(1,2) order_refl, of a] by (auto simp: turn_polls_def)

lemma turn_retires_ok:
  assumes kit: "board_ok kit" and ok: "hm_ok (wr_watched r)" and told: "telling_ok kit (hm_keys (wr_watched r)) (wr_telling r)"
    and ws: "\<forall>(_, w) \<in> set (wr_watched r). watched_ok w" and poll: "wr_next_poll r \<le> now + POLL_WHILE_PENDING"
  shows "watcher_ok kit now (turn_retires kit now r)"
proof -
  define gone where "gone = map fst (filter (\<lambda>(_, w). \<not> wt_service w) (wr_watched r))"
  define b where "b = fold (bd_end kit) gone (tl_board (wr_telling r))"
  obtain swept b' where sweep: "bd_sweep kit now b = (swept, b')" by force
  obtain ws' told' where retire: "retire_each (gone @ swept) (wr_watched r) (tl_told (wr_telling r)) = (ws', told')" by force
  have r': "turn_retires kit now r = r\<lparr>wr_watched := ws', wr_telling := \<lparr>tl_board = b', tl_told = told'\<rparr>\<rparr>"
    using sweep retire by (simp add: turn_retires_def Let_def gone_def b_def)
  note effect = retire_each_effect [OF retire ok]
  have lst: "bd_last kit b' name = (if name \<in> set (gone @ swept) then None else bd_last kit (tl_board (wr_telling r)) name)" for name
    by (simp add: board_okD(4) [OF kit sweep] b_def fold_end [OF kit])
  have keys: "name \<in> hm_keys ws' \<longleftrightarrow> name \<in> hm_keys (wr_watched r) \<and> name \<notin> set (gone @ swept)" for name
    using effect [of name] by (simp only: hm_keys_get) auto
  have "telling_ok kit (hm_keys ws') \<lparr>tl_board = b', tl_told = told'\<rparr>"
    unfolding telling_ok_def
  proof (intro conjI allI impI)
    fix name s assume "bd_last kit (tl_board \<lparr>tl_board = b', tl_told = told'\<rparr>) name = Some s"
    then have kept: "name \<notin> set (gone @ swept)" "bd_last kit (tl_board (wr_telling r)) name = Some s"
      using lst [of name] by (auto split: if_splits)
    then have "name \<in> hm_keys (wr_watched r)" "told_now (tl_told (wr_telling r)) name = Some s"
      using told by (auto simp: telling_ok_def)
    then show "name \<in> hm_keys ws'" "told_now (tl_told \<lparr>tl_board = b', tl_told = told'\<rparr>) name = Some s"
      using kept(1) keys [of name] effect [of name] by simp_all
  next
    fix name assume "told_now (tl_told \<lparr>tl_board = b', tl_told = told'\<rparr>) name \<noteq> None"
    then have "told_now told' name \<noteq> None" by simp
    moreover from this have "told_now (tl_told (wr_telling r)) name \<noteq> None"
      using effect [of name] by (auto split: if_splits)
    then have "name \<in> hm_keys (wr_watched r)" using told by (simp add: telling_ok_def)
    ultimately show "name \<in> hm_keys ws'" using effect [of name] keys [of name] by (auto split: if_splits)
  qed
  moreover have "wt_service w \<and> watched_ok w" if "(name, w) \<in> set ws'" for name w
  proof -
    have get: "hm_get ws' name = Some w" using that effect by (simp add: hm)
    then have "hm_get (wr_watched r) name = Some w" "name \<notin> set gone" using effect [of name] by (auto split: if_splits)
    then have "(name, w) \<in> set (wr_watched r)" by (simp add: map_of_SomeD)
    then show ?thesis using ws \<open>name \<notin> set gone\<close> by (force simp: gone_def)
  qed
  ultimately show ?thesis using effect poll by (auto simp: r' watcher_ok_def)
qed

lemma watch_turn_ok:
  assumes kit: "board_ok kit" and r: "watcher_ok kit at r" and time: "at \<le> now"
  shows "watcher_ok kit now (watch_turn kit a now r)"
proof -
  obtain ws b where reqs: "bd_take_requests kit (open_request a) (wr_watched r) (tl_board (wr_telling r)) = (ws, b)" by force
  obtain ws' t where heard: "notify_each kit a ws ((wr_telling r)\<lparr>tl_board := b\<rparr>) = (ws', t)" by force
  obtain names where names: "ws = fold (\<lambda>name ws. snd (open_request a name ws)) names (wr_watched r)"
    using board_okD(6) [OF kit reqs] by blast
  have ws: "hm_ok ws \<and> hm_keys (wr_watched r) \<subseteq> hm_keys ws \<and> (\<forall>(_, w) \<in> set ws. watched_ok w)"
    using r by (intro requests_ok [OF _ _ names]) (auto simp: watcher_ok_def)
  have "telling_ok kit (hm_keys (wr_watched r)) (wr_telling r)" using r by (simp add: watcher_ok_def)
  then have "telling_ok kit (hm_keys (wr_watched r)) ((wr_telling r)\<lparr>tl_board := b\<rparr>)"
    using board_okD(5) [OF kit reqs] by (simp add: telling_ok_def)
  then have "telling_ok kit (hm_keys ws) ((wr_telling r)\<lparr>tl_board := b\<rparr>)" using ws telling_ok_mono by blast
  then have noted: "telling_ok kit (hm_keys ws) t \<and> map fst ws' = map fst ws \<and> (\<forall>(_, w) \<in> set ws'. watched_ok w \<and> \<not> wt_fired w)"
    using ws by (intro notify_each_ok [OF kit _ _ _ heard]) simp_all
  have keys: "hm_keys ws' = hm_keys ws" using noted by (metis list.set_map)
  have ok: "hm_ok ws'" using ws noted by (simp add: hm_ok_def)
  let ?r = "turn_polls kit a now (r\<lparr>wr_watched := ws', wr_telling := t\<rparr>)"
  have next_poll: "wr_next_poll r \<le> at + POLL_WHILE_PENDING" using r by (simp add: watcher_ok_def)
  have polled: "telling_ok kit (hm_keys ws') (wr_telling ?r)" "wr_watched ?r = ws'" "wr_next_poll ?r \<le> now + POLL_WHILE_PENDING"
    using turn_polls_ok [of kit "r\<lparr>wr_watched := ws', wr_telling := t\<rparr>" at now a] kit noted keys next_poll time by simp_all
  have "watcher_ok kit now (turn_retires kit now ?r)"
    using polled ok noted by (intro turn_retires_ok [OF kit]) auto
  then show ?thesis by (simp add: watch_turn_def reqs heard)
qed

section \<open>What the SCM is asked to tell\<close>

text \<open>
  The status a notification stands for: the mask armed after it leaves that one's state
  out. One that the SCM could not keep up with stands for none, nor does a new opening.
\<close>
definition notice_status :: "notice \<Rightarrow> service_status option" where
  "notice_status n =
    (if dwNotificationStatus n = ERROR_SERVICE_NOTIFY_CLIENT_LAGGING then None
     else Some (service_status_of (nt_status n)))"

text \<open>
  An open service that has not fired is armed for its last notification, and its last known
  status is of that, unless that one was pending and polls have moved on since.
\<close>
definition heeds :: "service_status option \<Rightarrow> service_status option \<Rightarrow> watched \<Rightarrow> bool" where
  "heeds known noticed w \<longleftrightarrow>
    (if wt_fired w then noticed = notice_status (wt_notify w)
     else wt_service w \<longrightarrow> wt_armed w = Some (arm_mask noticed) \<and>
       (known = noticed \<or> (\<exists>p. noticed = Some p \<and> is_pending (st_state p))))"

definition all_heed :: "'b board \<Rightarrow> (string \<Rightarrow> service_status option) \<Rightarrow> services_watched \<Rightarrow> 'b \<Rightarrow> bool" where
  "all_heed kit noticed ws b \<longleftrightarrow> (\<forall>name w. hm_get ws name = Some w \<longrightarrow> heeds (bd_last kit b name) (noticed name) w)"

text \<open>The requests a turn takes leave the services that are followed alone.\<close>
definition requests_new :: "'b board \<Rightarrow> scm_answers \<Rightarrow> 'b watcher \<Rightarrow> bool" where
  "requests_new kit a r \<longleftrightarrow> (\<forall>name \<in> hm_keys (wr_watched r).
    hm_get (fst (bd_take_requests kit (open_request a) (wr_watched r) (tl_board (wr_telling r)))) name =
    hm_get (wr_watched r) name)"

definition noticed_new :: "(string \<Rightarrow> service_status option) \<Rightarrow> services_watched \<Rightarrow> string \<Rightarrow> service_status option" where
  "noticed_new noticed ws name = (if name \<in> hm_keys ws then noticed name else None)"

lemma arm_armed: "wt_service (watched_arm a name lst w) \<Longrightarrow> wt_armed (watched_arm a name lst w) = Some (arm_mask lst)"
  by (auto simp: watched_arm_def closed_def Let_def split: if_splits)

lemma connect_armed: "wt_service (watched_connect a name w) \<Longrightarrow> wt_armed (watched_connect a name w) = Some (arm_mask None)"
  unfolding watched_connect_def by (rule arm_armed)

lemma requests_opened:
  "hm_get (fold (\<lambda>name ws. snd (open_request a name ws)) names ws) name = Some w \<Longrightarrow>
    hm_get ws name = Some w \<or> heeds None None w"
proof (induction names arbitrary: ws)
  case (Cons n names)
  have "hm_get ws name = Some w \<or> heeds None None w" if "hm_get (snd (open_request a n ws)) name = Some w"
    using that connect_armed
    by (fastforce simp: open_request_def watched_open_def heeds_def Let_def hm split: option.splits if_splits)
  then show ?case using Cons by fastforce
qed simp

lemma dispatch_last:
  "board_ok kit \<Longrightarrow> bd_last kit (tl_board (dispatch kit name status t)) = (bd_last kit (tl_board t))(name := Some status)"
  by (auto simp: dispatch_def board_okD)

lemma notified_heeds:
  assumes "board_ok kit" "watched_notified kit a name w t = (w', t')" "\<not> wt_fired w"
  shows "heeds (bd_last kit (tl_board t') name) (notice_status (wt_notify w)) w' \<and>
    (\<forall>other. other \<noteq> name \<longrightarrow> bd_last kit (tl_board t') other = bd_last kit (tl_board t) other)"
proof (cases "dwNotificationStatus (wt_notify w) = ERROR_SERVICE_NOTIFY_CLIENT_LAGGING")
  case True
  then have eq: "w' = watched_connect a name w" "t' = t\<lparr>tl_board := bd_forget kit name (tl_board t)\<rparr>"
    using assms(2) by (simp_all add: watched_notified_def)
  show ?thesis using True connect_armed [of a name w] assms(1,3) by (simp add: eq heeds_def notice_status_def board_okD)
next
  case lagging: False
  show ?thesis
  proof (cases "dwNotificationStatus (wt_notify w) \<noteq> ERROR_SUCCESS \<or>
      and (dwNotificationTriggered (wt_notify w)) SERVICE_NOTIFY_DELETE_PENDING \<noteq> 0")
    case True
    then have "w' = closed w" "t' = t" using assms(2) lagging by (simp_all add: watched_notified_def Let_def)
    then show ?thesis by (simp add: heeds_def closed_def)
  next
    case False
    then have eq: "w' = watched_arm a name (bd_last kit (tl_board t') name) w"
        "t' = dispatch kit name (service_status_of (nt_status (wt_notify w))) t"
      using assms(2) lagging by (auto simp: watched_notified_def Let_def)
    have "bd_last kit (tl_board t') = (bd_last kit (tl_board t))(name := notice_status (wt_notify w))"
      using lagging dispatch_last [OF assms(1)] by (simp add: eq(2) notice_status_def)
    then show ?thesis using arm_armed assms(3) by (simp add: eq(1) heeds_def)
  qed
qed

lemma notify_each_heeds:
  assumes "board_ok kit" "hm_ok ws" "notify_each kit a ws t = (ws', t')"
    and "\<forall>(name, w) \<in> set ws. heeds (bd_last kit (tl_board t) name) (noticed name) w"
  shows "(\<forall>(name, w) \<in> set ws'. heeds (bd_last kit (tl_board t') name) (noticed name) w) \<and>
    (\<forall>other. other \<notin> hm_keys ws \<longrightarrow> bd_last kit (tl_board t') other = bd_last kit (tl_board t) other)"
  using assms
proof (induction ws arbitrary: t ws')
  case (Cons e ws)
  obtain name w where e: "e = (name, w)" by force
  obtain w1 t1 where one: "(if wt_fired w then watched_notified kit a name (w\<lparr>wt_fired := False\<rparr>) t else (w, t)) = (w1, t1)" by force
  obtain ws1 where more: "notify_each kit a ws t1 = (ws1, t')" and ws': "ws' = (name, w1) # ws1"
    using Cons.prems(3) one by (auto simp: e split: prod.splits)
  have fresh: "name \<notin> hm_keys ws" and ok: "hm_ok ws" using Cons.prems(2) by (auto simp: e)
  have first: "heeds (bd_last kit (tl_board t1) name) (noticed name) w1 \<and>
      (\<forall>other. other \<noteq> name \<longrightarrow> bd_last kit (tl_board t1) other = bd_last kit (tl_board t) other)"
  proof (cases "wt_fired w")
    case True
    then have heard: "heeds (bd_last kit (tl_board t1) name) (notice_status (wt_notify w)) w1 \<and>
        (\<forall>other. other \<noteq> name \<longrightarrow> bd_last kit (tl_board t1) other = bd_last kit (tl_board t) other)"
      using one notified_heeds [OF Cons.prems(1), of a name "w\<lparr>wt_fired := False\<rparr>" t w1 t1] by simp
    have "noticed name = notice_status (wt_notify w)"
      using Cons.prems(4) True by (simp add: e heeds_def)
    then show ?thesis using heard by simp
  next
    case False
    then show ?thesis using one Cons.prems(4) by (simp add: e)
  qed
  have "\<forall>(n, v) \<in> set ws. heeds (bd_last kit (tl_board t1) n) (noticed n) v"
  proof (intro ballI, clarify)
    fix n v assume v: "(n, v) \<in> set ws"
    then have "n \<noteq> name" using fresh by force
    moreover have "heeds (bd_last kit (tl_board t) n) (noticed n) v" using Cons.prems(4) v by (auto simp: e)
    ultimately show "heeds (bd_last kit (tl_board t1) n) (noticed n) v" using first by simp
  qed
  note later = Cons.IH [OF Cons.prems(1) ok more this]
  have "bd_last kit (tl_board t') name = bd_last kit (tl_board t1) name" using later fresh by blast
  then have "heeds (bd_last kit (tl_board t') name) (noticed name) w1" using first by (simp only:)
  moreover have "bd_last kit (tl_board t') other = bd_last kit (tl_board t) other" if "other \<notin> hm_keys ((name, w) # ws)" for other
    using that later first by simp
  ultimately show ?case using later unfolding ws' e by simp
qed simp

lemma notify_each_keys: "notify_each kit a ws t = (ws', t') \<Longrightarrow> map fst ws' = map fst ws"
  by (induction ws arbitrary: t ws') (auto split: prod.splits)

lemma turn_retires_keeps:
  assumes "board_ok kit" "hm_ok (wr_watched r)" "hm_get (wr_watched (turn_retires kit now r)) name = Some w"
  shows "hm_get (wr_watched r) name = Some w \<and>
    bd_last kit (tl_board (wr_telling (turn_retires kit now r))) name = bd_last kit (tl_board (wr_telling r)) name"
proof -
  define gone where "gone = map fst (filter (\<lambda>(_, w). \<not> wt_service w) (wr_watched r))"
  define b where "b = fold (bd_end kit) gone (tl_board (wr_telling r))"
  obtain swept b' where sweep: "bd_sweep kit now b = (swept, b')" by force
  obtain ws' told' where retire: "retire_each (gone @ swept) (wr_watched r) (tl_told (wr_telling r)) = (ws', told')" by force
  have r': "turn_retires kit now r = r\<lparr>wr_watched := ws', wr_telling := \<lparr>tl_board = b', tl_told = told'\<rparr>\<rparr>"
    using sweep retire by (simp add: turn_retires_def Let_def gone_def b_def)
  have get: "hm_get (wr_watched r) name = Some w" "name \<notin> set (gone @ swept)"
    using retire_each_effect [OF retire assms(2), of name] assms(3) by (auto simp: r' split: if_splits)
  then show ?thesis using board_okD(4) [OF assms(1) sweep, of name] fold_end [OF assms(1), of gone _ name] by (simp add: r' b_def)
qed

lemma poll_each_last:
  "board_ok kit \<Longrightarrow> bd_last kit (tl_board (poll_each kit a ws t)) name = bd_last kit (tl_board t) name \<or>
    (\<exists>p. bd_last kit (tl_board t) name = Some p \<and> is_pending (st_state p))"
proof (induction kit a ws t rule: poll_each.induct)
  case (2 kit a n w ws t)
  let ?t = "if followed_pending kit (tl_board t) n then watched_poll kit a n w t else t"
  have "bd_last kit (tl_board ?t) name = bd_last kit (tl_board t) name \<or>
      (\<exists>p. bd_last kit (tl_board t) name = Some p \<and> is_pending (st_state p))"
    by (cases "n = name")
      (auto simp: followed_pending_def watched_poll_def dispatch_last [OF 2(2)] split: option.splits)
  then show ?case using 2 by auto
qed simp

text \<open>A turn, its requests new, leaves every service it follows heeding its last notification.\<close>
lemma watch_turn_heeds:
  assumes kit: "board_ok kit" and r: "watcher_ok kit at r" and requests: "requests_new kit a r"
    and heeded: "all_heed kit noticed (wr_watched r) (tl_board (wr_telling r))"
  shows "all_heed kit (noticed_new noticed (wr_watched r)) (wr_watched (watch_turn kit a now r))
    (tl_board (wr_telling (watch_turn kit a now r)))"
proof -
  let ?noticed = "noticed_new noticed (wr_watched r)"
  obtain ws b where reqs: "bd_take_requests kit (open_request a) (wr_watched r) (tl_board (wr_telling r)) = (ws, b)" by force
  obtain ws' t where heard: "notify_each kit a ws ((wr_telling r)\<lparr>tl_board := b\<rparr>) = (ws', t)" by force
  obtain names where names: "ws = fold (\<lambda>name ws. snd (open_request a name ws)) names (wr_watched r)"
    using board_okD(6) [OF kit reqs] by blast
  have ws: "hm_ok ws \<and> hm_keys (wr_watched r) \<subseteq> hm_keys ws \<and> (\<forall>(_, w) \<in> set ws. watched_ok w)"
    using r by (intro requests_ok [OF _ _ names]) (auto simp: watcher_ok_def)
  have known: "bd_last kit b name = None" if "name \<notin> hm_keys (wr_watched r)" for name
    using that r board_okD(5) [OF kit reqs] unfolding watcher_ok_def telling_ok_def by (cases "bd_last kit b name") auto
  have "heeds (bd_last kit b name) (?noticed name) w" if "(name, w) \<in> set ws" for name w
  proof -
    have get: "hm_get ws name = Some w" using that ws by (simp add: hm)
    show ?thesis
    proof (cases "name \<in> hm_keys (wr_watched r)")
      case True
      then have "hm_get (wr_watched r) name = Some w" using requests get reqs by (auto simp: requests_new_def)
      then show ?thesis using heeded True board_okD(5) [OF kit reqs] by (simp add: all_heed_def noticed_new_def)
    next
      case False
      then have "hm_get (wr_watched r) name = None" by (simp add: map_of_eq_None_iff)
      then have "heeds None None w" using requests_opened [of a names "wr_watched r" name w] get names by auto
      then show ?thesis using False known [OF False] by (simp add: noticed_new_def)
    qed
  qed
  then have noted: "\<forall>(name, w) \<in> set ws'. heeds (bd_last kit (tl_board t) name) (?noticed name) w"
    using ws by (intro conjunct1 [OF notify_each_heeds [OF kit _ heard]]) auto
  let ?r = "turn_polls kit a now (r\<lparr>wr_watched := ws', wr_telling := t\<rparr>)"
  have polled: "heeds (bd_last kit (tl_board (wr_telling ?r)) name) (?noticed name) w" if "(name, w) \<in> set ws'" for name w
    using noted that poll_each_last [OF kit, of a ws' t name] by (force simp: turn_polls_def heeds_def)
  have turned: "watch_turn kit a now r = turn_retires kit now ?r" "wr_watched ?r = ws'"
    by (simp_all add: watch_turn_def reqs heard turn_polls_def)
  have "map fst ws' = map fst ws"
    using notify_each_keys [OF heard] .
  then have ok: "hm_ok (wr_watched ?r)" using ws turned(2) by (simp add: hm_ok_def)
  show ?thesis
    unfolding all_heed_def turned(1)
  proof (intro allI impI)
    fix name w assume "hm_get (wr_watched (turn_retires kit now ?r)) name = Some w"
    from turn_retires_keeps [OF kit ok this] have kept: "(name, w) \<in> set ws'"
        "bd_last kit (tl_board (wr_telling (turn_retires kit now ?r))) name = bd_last kit (tl_board (wr_telling ?r)) name"
      using turned(2) map_of_SomeD [of ws' name w] by simp_all
    show "heeds (bd_last kit (tl_board (wr_telling (turn_retires kit now ?r))) name) (?noticed name) w"
      using polled [OF kept(1)] unfolding kept(2) .
  qed
qed

text \<open>
  The thread from its start, with the status of the last notification of each service it
  follows: clients ask about services or leave, a notification is delivered, a turn is taken.
\<close>
inductive watch_reach :: "'b board \<Rightarrow> instant \<Rightarrow> 'b watcher \<Rightarrow> (string \<Rightarrow> service_status option) \<Rightarrow> bool" for kit where
  starts: "bd_last kit b = (\<lambda>_. None) \<Longrightarrow> watch_reach kit now (watcher_new b now) (\<lambda>_. None)"
| asked: "watch_reach kit at r noticed \<Longrightarrow> bd_last kit b = bd_last kit (tl_board (wr_telling r)) \<Longrightarrow>
    watch_reach kit at (r\<lparr>wr_telling := (wr_telling r)\<lparr>tl_board := b\<rparr>\<rparr>) noticed"
| fired: "watch_reach kit at r noticed \<Longrightarrow> hm_get (wr_watched r) name = Some w \<Longrightarrow> wt_armed w \<noteq> None \<Longrightarrow>
    watch_reach kit at (r\<lparr>wr_watched := hm_put name (watched_fire n w) (wr_watched r)\<rparr>)
      (noticed(name := notice_status n))"
| turned: "watch_reach kit at r noticed \<Longrightarrow> at \<le> now \<Longrightarrow> requests_new kit a r \<Longrightarrow>
    watch_reach kit now (watch_turn kit a now r) (noticed_new noticed (wr_watched r))"


lemma watch_reach_ok:
  "watch_reach kit at r noticed \<Longrightarrow> board_ok kit \<Longrightarrow>
    watcher_ok kit at r \<and> all_heed kit noticed (wr_watched r) (tl_board (wr_telling r))"
proof (induction rule: watch_reach.induct)
  case (starts b now)
  then show ?case by (simp add: watcher_ok_def watcher_new_def telling_ok_def all_heed_def)
next
  case (asked at r noticed b)
  then show ?case by (auto simp: watcher_ok_def telling_ok_def all_heed_def)
next
  case (fired at r noticed name w n)
  note ih = fired.IH [OF fired.prems]
  have ok: "watcher_ok kit at r" using ih by blast
  have in_set: "(name, w) \<in> set (wr_watched r)" using fired.hyps(2) by (rule map_of_SomeD)
  have "name \<in> hm_keys (wr_watched r)" using in_set by force
  moreover have "wt_service v \<and> watched_ok v" if "(key, v) \<in> set (hm_put name (watched_fire n w) (wr_watched r))" for key v
  proof -
    have "hm_get (hm_put name (watched_fire n w) (wr_watched r)) key = Some v"
      using that ok by (simp add: watcher_ok_def hm)
    moreover have "wt_service w" "\<forall>(_, w) \<in> set (wr_watched r). wt_service w \<and> watched_ok w"
      using ok in_set by (auto simp: watcher_ok_def)
    ultimately show ?thesis
      by (cases "key = name") (auto simp: hm watched_fire_def watched_ok_def dest: map_of_SomeD)
  qed
  moreover have "all_heed kit (noticed(name := notice_status n)) (hm_put name (watched_fire n w) (wr_watched r)) (tl_board (wr_telling r))"
    unfolding all_heed_def
  proof (intro allI impI)
    fix key v assume v: "hm_get (hm_put name (watched_fire n w) (wr_watched r)) key = Some v"
    show "heeds (bd_last kit (tl_board (wr_telling r)) key) ((noticed(name := notice_status n)) key) v"
    proof (cases "key = name")
      case True
      then have "v = watched_fire n w" using v by (simp add: hm)
      then show ?thesis using True by (simp add: heeds_def watched_fire_def)
    next
      case False
      then have "hm_get (wr_watched r) key = Some v" using v by (simp add: hm)
      then show ?thesis using False ih by (simp add: all_heed_def)
    qed
  qed
  ultimately show ?case using ok by (auto simp: watcher_ok_def insert_absorb simp del: fun_upd_apply)
next
  case (turned at r noticed now a)
  then show ?case using watch_turn_ok watch_turn_heeds by blast
qed

lemma arm_mask_asks:
  "and (arm_mask lst) (state_bit s) = 0 \<longleftrightarrow> s = SvcUnknown \<or> map_option st_state lst = Some s"
proof (cases lst)
  case None
  then show ?thesis by (cases s) (simp_all add: arm_mask_def EVERY_STATE_def SERVICE_NOTIFY_DELETE_PENDING_def)
next
  case (Some a)
  then show ?thesis
    by (cases "st_state a"; cases s) (simp_all add: arm_mask_def EVERY_STATE_def SERVICE_NOTIFY_DELETE_PENDING_def)
qed


text \<open>A board that keeps the last statuses and the requests not yet taken, and a service that starts.\<close>
definition plain_board :: "((string \<Rightarrow> service_status option) \<times> string list) board" where
  "plain_board =
    \<lparr>bd_last = fst, bd_publish = (\<lambda>name s (known, asks). (known(name := Some s), asks)),
     bd_forget = (\<lambda>name (known, asks). (known(name := None), asks)),
     bd_end = (\<lambda>name (known, asks). (known(name := None), asks)),
     bd_sweep = (\<lambda>now b. ([], b)), bd_next_deadline = (\<lambda>_. None),
     bd_take_requests = (\<lambda>open_one ws (known, asks). (fold (\<lambda>name ws. snd (open_one name ws)) asks ws, (known, [])))\<rparr>"

lemma plain_board_ok: "board_ok plain_board"
  by (auto simp: board_ok_def plain_board_def)

definition all_open :: scm_answers where
  "all_open = \<lparr>sa_opens = (\<lambda>_. True), sa_arm = (\<lambda>_ _. 0), sa_status = (\<lambda>_. None)\<rparr>"

definition starting_notice :: notice where
  "starting_notice = notice_default\<lparr>dwNotificationTriggered := 2,
     nt_status := (nt_status notice_default)\<lparr>dwCurrentState := 2, dwProcessId := 8\<rparr>\<rparr>"

definition starting_told :: "((string \<Rightarrow> service_status option) \<times> string list) watcher" where
  "starting_told =
    (let r = watch_turn plain_board all_open 0 (watcher_new (\<lambda>_. None, [''Spooler'']) 0);
         r = r\<lparr>wr_watched := hm_put ''Spooler'' (watched_fire starting_notice (the (hm_get (wr_watched r) ''Spooler''))) (wr_watched r)\<rparr>
     in watch_turn plain_board all_open 0 r)"

lemma spooler_followed:
  "watch_turn plain_board all_open 0 (watcher_new (\<lambda>_. None, [''Spooler'']) 0) =
    \<lparr>wr_watched = [(''Spooler'', \<lparr>wt_service = True, wt_notify = notice_default, wt_fired = False, wt_armed = Some (arm_mask None)\<rparr>)],
     wr_telling = \<lparr>tl_board = (\<lambda>_. None, []), tl_told = []\<rparr>, wr_next_poll = 0\<rparr>"
  by (simp add: watch_turn_def watcher_new_def plain_board_def all_open_def open_request_def watched_open_def watched_connect_def
      watched_arm_def turn_polls_def any_pending_def followed_pending_def turn_retires_def Let_def ERROR_SUCCESS_def)

lemma starting_told_eq:
  "starting_told =
    \<lparr>wr_watched = [(''Spooler'', \<lparr>wt_service = True, wt_notify = notice_default, wt_fired = False,
       wt_armed = Some (arm_mask (Some (service_status_of (nt_status starting_notice))))\<rparr>)],
     wr_telling = \<lparr>tl_board = ((\<lambda>_. None)(''Spooler'' := Some (service_status_of (nt_status starting_notice))), []),
       tl_told = [(''Spooler'', Some (service_status_of (nt_status starting_notice)))]\<rparr>,
     wr_next_poll = POLL_WHILE_PENDING\<rparr>"
  unfolding starting_told_def spooler_followed Let_def
  by (simp add: watch_turn_def plain_board_def all_open_def watched_fire_def watched_notified_def watched_arm_def dispatch_def
      turn_polls_def any_pending_def followed_pending_def watched_poll_def turn_retires_def Let_def ERROR_SUCCESS_def
      starting_notice_def notice_default_def SERVICE_NOTIFY_DELETE_PENDING_def ERROR_SERVICE_NOTIFY_CLIENT_LAGGING_def
      service_status_of_def service_state_of_def is_pending_def)


end
