(* ===== verification/Http.thy ===== *)
theory Http
  imports Feed Text
begin

text \<open>
  \<^verbatim>\<open>crates/http\<close>: what the state API answers (\<^verbatim>\<open>lib.rs\<close>) and the costs of the agent's spans
  that it shows (\<^verbatim>\<open>telemetry.rs\<close>). A value written by its \<^verbatim>\<open>Debug\<close> name is kept as the value;
  the text around it is serde's. The registry of spans (\<^verbatim>\<open>tracing\<close>) is a map from a span's id
  to its name and what the layer put into its extensions.
\<close>

section \<open>Costs of spans\<close>

record cost =
  ct_runs :: u64
  ct_last :: duration
  ct_mean :: duration
  ct_max :: duration

definition cost_default :: cost where
  "cost_default = \<lparr>ct_runs = 0, ct_last = 0, ct_mean = 0, ct_max = 0\<rparr>"

definition cost_record :: "duration \<Rightarrow> cost \<Rightarrow> cost" where
  "cost_record took c =
    (let runs = ct_runs c + 1;
         sum = ct_mean c * (unat runs - 1) + took
     in \<lparr>ct_runs = runs, ct_last = took, ct_mean = unat (of_nat (sum div unat runs) :: u64), ct_max = max (ct_max c) took\<rparr>)"

record busy =
  by_entered :: "instant option"
  by_busy :: duration

record spans =
  sp_held :: "(u64, string \<times> busy option) hashmap"
  sp_costs :: "(string, cost) hashmap"

definition change_busy :: "u64 \<Rightarrow> (busy \<Rightarrow> busy) \<Rightarrow> spans \<Rightarrow> spans" where
  "change_busy key f s =
    (case hm_get (sp_held s) key of
       Some (name, Some b) \<Rightarrow> s\<lparr>sp_held := hm_put key (name, Some (f b)) (sp_held s)\<rparr>
     | _ \<Rightarrow> s)"

definition on_new_span :: "u64 \<Rightarrow> spans \<Rightarrow> spans" where
  "on_new_span key s =
    (case hm_get (sp_held s) key of
       Some (name, _) \<Rightarrow> s\<lparr>sp_held := hm_put key (name, Some \<lparr>by_entered = None, by_busy = 0\<rparr>) (sp_held s)\<rparr>
     | None \<Rightarrow> s)"

definition on_enter :: "u64 \<Rightarrow> instant \<Rightarrow> spans \<Rightarrow> spans" where
  "on_enter key now = change_busy key (\<lambda>b. b\<lparr>by_entered := Some now\<rparr>)"

definition on_exit :: "u64 \<Rightarrow> instant \<Rightarrow> spans \<Rightarrow> spans" where
  "on_exit key now = change_busy key (\<lambda>b. case by_entered b of
     Some entered \<Rightarrow> b\<lparr>by_entered := None, by_busy := by_busy b + (now - entered)\<rparr>
   | None \<Rightarrow> b)"

definition on_close :: "u64 \<Rightarrow> spans \<Rightarrow> spans" where
  "on_close key s =
    (case hm_get (sp_held s) key of
       Some (name, Some b) \<Rightarrow>
         (let c = (case hm_get (sp_costs s) name of Some c \<Rightarrow> c | None \<Rightarrow> cost_default)
          in s\<lparr>sp_costs := hm_put name (cost_record (by_busy b) c) (sp_costs s)\<rparr>)
     | _ \<Rightarrow> s)"

section \<open>Who may ask\<close>

datatype 'a http_answer = Unauthorized | Answered 'a

definition http_authorized :: "string \<Rightarrow> string option \<Rightarrow> 'a \<Rightarrow> 'a http_answer" where
  "http_authorized expected carried next_one =
    (if carried \<noteq> Some expected then Unauthorized else Answered next_one)"

definition http_hex :: "u8 list \<Rightarrow> string" where
  "http_hex bytes = concat (map (\<lambda>b. [''0123456789abcdef'' ! unat (drop_bit 4 b), ''0123456789abcdef'' ! unat (and b 15)]) bytes)"

text \<open>\<^verbatim>\<open>set_log_filter\<close>: what the directives read as, None when they are none, and whether it was taken.\<close>
datatype log_answer = LogShown string | LogRefused | LogFailed

definition set_log_filter :: "(string \<Rightarrow> 'f option) \<Rightarrow> ('f \<Rightarrow> string) \<Rightarrow> ('f \<Rightarrow> bool) \<Rightarrow> string \<Rightarrow> 'f \<Rightarrow> log_answer \<times> 'f" where
  "set_log_filter read_one shown_as takes directives held =
    (case read_one (trim directives) of
       None \<Rightarrow> (LogRefused, held)
     | Some new_one \<Rightarrow> if takes new_one then (LogShown (shown_as new_one), new_one) else (LogFailed, held))"

section \<open>The state\<close>

record http_row =
  hr_pid :: u32
  hr_parent_pid :: u32
  hr_sequence_number :: u64
  hr_name :: string
  hr_display_name :: string
  hr_image_path :: string
  hr_cmdline_args :: nat
  hr_user :: string
  hr_publisher :: string
  hr_architecture :: architecture
  hr_elevated :: "bool option"
  hr_isolation :: isolation
  hr_is_service :: bool
  hr_is_kernel_process :: bool
  hr_is_windows_process :: bool
  hr_signature :: signature_status
  hr_suspended :: "bool option"
  hr_efficiency_mode :: "bool option"
  hr_base_priority :: "process_priority option"
  hr_io_priority :: io_priority
  hr_cpu_user_time :: "u64 option"
  hr_cpu_kernel_time :: "u64 option"
  hr_working_set :: "u64 option"
  hr_private_working_set :: "u64 option"
  hr_commit :: "u64 option"
  hr_handles :: "u32 option"
  hr_threads :: "u32 option"
  hr_io_read_bytes :: "u64 option"
  hr_io_write_bytes :: "u64 option"
  hr_net_rx_bytes :: "u64 option"
  hr_net_tx_bytes :: "u64 option"

definition SHOWN :: "process_metric list" where
  "SHOWN = [CpuUserTime, CpuKernelTime, WorkingSet, PrivateWorkingSet, Commit, Handles, Threads,
    IoReadBytes, IoWriteBytes, NetRxBytes, NetTxBytes]"

text \<open>What a request asks to be sampled while it waits.\<close>
definition http_spec :: metric_spec where
  "http_spec = \<lparr>ms_interval = secs 1, ms_processes = set SHOWN, ms_machine = UNIV\<rparr>"

definition cell :: "'v list option \<Rightarrow> nat option \<Rightarrow> 'v option" where
  "cell column at =
    (case column of
       None \<Rightarrow> None
     | Some values \<Rightarrow>
         (case at of
            None \<Rightarrow> None
          | Some i \<Rightarrow> if i < length values then Some (values ! i) else None))"

definition cell64 :: "columns \<Rightarrow> process_metric \<Rightarrow> nat option \<Rightarrow> u64 option" where
  "cell64 c m = cell (case c m of Some (C64 values) \<Rightarrow> Some values | _ \<Rightarrow> None)"

definition cell32 :: "columns \<Rightarrow> process_metric \<Rightarrow> nat option \<Rightarrow> u32 option" where
  "cell32 c m = cell (case c m of Some (C32 values) \<Rightarrow> Some values | _ \<Rightarrow> None)"

text \<open>Where the sample has a process: of equal keys the last counts.\<close>
definition http_sampled :: "sample \<Rightarrow> u32 \<times> u64 \<Rightarrow> nat option" where
  "http_sampled s = map_of (rev (map (\<lambda>(i, key). (key, i)) (enumerate 0 (zip (s_pids s) (s_sequence_numbers s)))))"

definition http_states :: "process_state list \<Rightarrow> u32 \<times> u64 \<Rightarrow> process_state" where
  "http_states states key =
    (case map_of (rev (map (\<lambda>st. ((ps_pid st, ps_sequence_number st), st)) states)) key of
       Some st \<Rightarrow> st
     | None \<Rightarrow> process_state_new 0 0)"

definition row_shown :: "columns \<Rightarrow> nat option \<Rightarrow> process_state \<Rightarrow> process_info \<Rightarrow> http_row" where
  "row_shown c at state p =
    \<lparr>hr_pid = pi_pid p, hr_parent_pid = pi_parent_pid p, hr_sequence_number = pi_sequence_number p,
     hr_name = pi_name p, hr_display_name = pi_display_name p, hr_image_path = pi_image_path p,
     hr_cmdline_args = length (pi_cmdline p), hr_user = pi_user p, hr_publisher = pi_publisher p,
     hr_architecture = pi_architecture p, hr_elevated = pi_elevated p, hr_isolation = pi_isolation p,
     hr_is_service = pi_is_service p, hr_is_kernel_process = pi_is_kernel_process p,
     hr_is_windows_process = pi_is_windows_process p, hr_signature = pi_signature p,
     hr_suspended = ps_suspended state, hr_efficiency_mode = ps_efficiency_mode state,
     hr_base_priority = ps_base_priority state, hr_io_priority = ps_io_priority state,
     hr_cpu_user_time = cell64 c CpuUserTime at, hr_cpu_kernel_time = cell64 c CpuKernelTime at,
     hr_working_set = cell64 c WorkingSet at, hr_private_working_set = cell64 c PrivateWorkingSet at,
     hr_commit = cell64 c Commit at, hr_handles = cell32 c Handles at, hr_threads = cell32 c Threads at,
     hr_io_read_bytes = cell64 c IoReadBytes at, hr_io_write_bytes = cell64 c IoWriteBytes at,
     hr_net_rx_bytes = cell64 c NetRxBytes at, hr_net_tx_bytes = cell64 c NetTxBytes at\<rparr>"

record sample_header =
  sh_snapshot :: u64
  sh_sampled_at :: u64
  sh_period_ms :: nat
  sh_processes :: "process_metric set"
  sh_machine :: "machine_metric set"

record http_snapshot =
  hs_processes :: nat
  hs_services :: nat
  hs_processes_etag :: u64
  hs_states_etag :: u64
  hs_services_etag :: u64
  hs_dropped_by_sink :: u64
  hs_sample :: sample_header
  hs_machine :: machine_sample
  hs_rows :: "http_row list"

text \<open>
  What is read of the sampler within three seconds, else nothing, against what is published
  by then.
\<close>
definition http_state :: "sample option \<Rightarrow> published \<Rightarrow> http_snapshot" where
  "http_state answered latest =
    (let sample = (case answered of Some s \<Rightarrow> s | None \<Rightarrow> sample_default);
         s = pb_snapshot latest;
         at = http_sampled sample;
         states = http_states (pst_states (tg_value (sn_states s)))
     in \<lparr>hs_processes = length (tg_value (sn_processes s)), hs_services = length (tg_value (sn_services s)),
         hs_processes_etag = tg_etag (sn_processes s), hs_states_etag = tg_etag (sn_states s),
         hs_services_etag = tg_etag (sn_services s), hs_dropped_by_sink = pb_dropped_by_sink latest,
         hs_sample = \<lparr>sh_snapshot = s_snapshot sample, sh_sampled_at = s_sampled_at sample,
           sh_period_ms = s_period sample div millis 1, sh_processes = ms_processes (s_wanted sample),
           sh_machine = ms_machine (s_wanted sample)\<rparr>,
         hs_machine = s_machine sample,
         hs_rows = map (\<lambda>p. let key = (pi_pid p, pi_sequence_number p)
           in row_shown (s_columns sample) (at key) (states key) p) (tg_value (sn_processes s))\<rparr>)"

section \<open>Health\<close>

definition STALE :: duration where "STALE = secs 5"

record span_cost =
  sc_name :: string
  sc_runs :: u64
  sc_last_us :: nat
  sc_mean_us :: nat
  sc_max_us :: nat

record http_health =
  hh_ok :: bool
  hh_report_age_ms :: "nat option"
  hh_dropped_by_sink :: u64
  hh_sessions :: "session_health list"
  hh_snapshot_error :: "string option"
  hh_costs :: "span_cost list"

text \<open>Whether the answer is OK or that the service is unavailable, and what it tells.\<close>
definition http_healthy :: "instant \<Rightarrow> published \<Rightarrow> bool" where
  "http_healthy now latest \<longleftrightarrow>
    (case pb_reported_at latest of Some at \<Rightarrow> now - at < STALE | None \<Rightarrow> False) \<and>
    pb_sessions latest \<noteq> [] \<and> list_all is_healthy (pb_sessions latest) \<and> pb_snapshot_error latest = None"

definition span_cost_of :: "string \<times> cost \<Rightarrow> span_cost" where
  "span_cost_of = (\<lambda>(name, c). \<lparr>sc_name = name, sc_runs = ct_runs c, sc_last_us = ct_last c div 1000,
    sc_mean_us = ct_mean c div 1000, sc_max_us = ct_max c div 1000\<rparr>)"

definition http_health_of :: "instant \<Rightarrow> published \<Rightarrow> (string, cost) hashmap \<Rightarrow> http_health" where
  "http_health_of now latest costs =
    \<lparr>hh_ok = http_healthy now latest,
     hh_report_age_ms = map_option (\<lambda>at. (now - at) div millis 1) (pb_reported_at latest),
     hh_dropped_by_sink = pb_dropped_by_sink latest, hh_sessions = pb_sessions latest,
     hh_snapshot_error = pb_snapshot_error latest, hh_costs = map span_cost_of costs\<rparr>"

section \<open>The mean of a cost\<close>

lemma cost_runs: "unat (ct_runs c) + 1 < 2 ^ 64 \<Longrightarrow> unat (ct_runs (cost_record took c)) = unat (ct_runs c) + 1"
  by (simp add: cost_record_def Let_def unat_plus_if_size word_size)

lemma cost_mean:
  assumes "unat (ct_runs c) + 1 < 2 ^ 64" "ct_mean c < 2 ^ 64" "took < 2 ^ 64"
  shows "ct_mean (cost_record took c) = (ct_mean c * unat (ct_runs c) + took) div (unat (ct_runs c) + 1)"
proof -
  let ?r = "unat (ct_runs c)"
  have runs: "unat (ct_runs c + 1) = ?r + 1" using cost_runs [OF assms(1), of took] by (simp add: cost_record_def Let_def)
  have "ct_mean c * ?r + took \<le> max (ct_mean c) took * ?r + max (ct_mean c) took"
    by (intro add_mono mult_le_mono) simp_all
  also have "\<dots> = max (ct_mean c) took * (?r + 1)" by (simp only: distrib_left mult_1_right)
  finally have "(ct_mean c * ?r + took) div (?r + 1) \<le> max (ct_mean c) took * (?r + 1) div (?r + 1)" by (rule div_le_mono)
  also have "\<dots> = max (ct_mean c) took" by (rule nonzero_mult_div_cancel_right) simp
  finally have "(ct_mean c * ?r + took) div (?r + 1) < 2 ^ 64" using assms(2,3) by simp
  then show ?thesis by (simp add: cost_record_def Let_def runs unat_of_nat take_bit_nat_eq_self)
qed

text \<open>Once a span has run as often as its runs differ in nanoseconds, no run raises its mean.\<close>
lemma late_runs_lower_the_mean:
  assumes "a \<le> took" "took \<le> b" "a \<le> ct_mean c" "ct_mean c \<le> b" "b - a \<le> unat (ct_runs c)"
    "unat (ct_runs c) + 1 < 2 ^ 64" "b < 2 ^ 64"
  shows "ct_mean (cost_record took c) = (if took < ct_mean c then ct_mean c - 1 else ct_mean c)"
proof -
  let ?r = "unat (ct_runs c)" and ?m = "ct_mean c"
  have mean: "ct_mean (cost_record took c) = (?m * ?r + took) div (?r + 1)"
    using assms by (intro cost_mean) simp_all
  show ?thesis
  proof (cases "took < ?m")
    case True
    then obtain k where k: "?m = took + Suc k" by (metis add_Suc_right less_iff_Suc_add)
    have "k \<le> ?r" using k assms(1,4,5) by linarith
    then have "?m * ?r + took = (?r - k) + (?m - 1) * (?r + 1)" using k by (simp add: algebra_simps)
    then have "(?m * ?r + took) div (?r + 1) = ?m - 1" by (simp only: div_mult_self1 [of "?r + 1" "?r - k" "?m - 1"]) simp
    then show ?thesis using True mean by simp
  next
    case False
    then obtain k where k: "took = ?m + k" by (metis le_add_diff_inverse not_less)
    have "k \<le> ?r" using k assms(2,3,5) by linarith
    moreover have "?m * ?r + took = k + ?m * (?r + 1)" using k by (simp add: algebra_simps)
    ultimately have "(?m * ?r + took) div (?r + 1) = ?m" by (simp only: div_mult_self1 [of "?r + 1" k ?m]) simp
    then show ?thesis using False mean by simp
  qed
qed

text \<open>
  C36 The mean told of a span is no mean: it is divided anew, and cut to nanoseconds, at every
  run. A span that has run as often as its runs differ in nanoseconds and takes a short and
  a long time in turn has a mean one nanosecond lower after every two runs, down to the
  short time.
\<close>
theorem the_mean_sinks_to_the_shortest_run:
  assumes "short \<le> ct_mean c" "ct_mean c \<le> long" "long - short \<le> unat (ct_runs c)"
    "unat (ct_runs c) + 2 * n < 2 ^ 64" "long < 2 ^ 64"
  shows "ct_mean (fold cost_record (concat (replicate n [short, long])) c) = max short (ct_mean c - n)"
  using assms
proof (induction n arbitrary: c)
  case (Suc n)
  let ?one = "cost_record short c"
  let ?two = "cost_record long ?one"
  have runs: "unat (ct_runs ?one) = unat (ct_runs c) + 1" "unat (ct_runs ?two) = unat (ct_runs c) + 2"
    using Suc.prems(4) cost_runs [of c short] cost_runs [of ?one long] by simp_all
  have one: "ct_mean ?one = max short (ct_mean c - 1)"
    using late_runs_lower_the_mean [of short short long c] Suc.prems by simp
  have within: "short \<le> ct_mean ?one" "ct_mean ?one \<le> long" using one Suc.prems(1,2) by simp_all
  then have two: "ct_mean ?two = ct_mean ?one"
    using late_runs_lower_the_mean [of short long long ?one] Suc.prems runs by simp
  have "ct_mean (fold cost_record (concat (replicate n [short, long])) ?two) = max short (ct_mean ?two - n)"
    using Suc.prems runs one two by (intro Suc.IH) simp_all
  moreover have "max short (max short (ct_mean c - 1) - n) = max short (ct_mean c - Suc n)" by linarith
  ultimately show ?case using one two by simp
qed simp

lemma the_mean_sinks_to_the_shortest_run_witness:
  "ct_mean (fold cost_record (concat (replicate 500 [1000, 2000])) \<lparr>ct_runs = 1000, ct_last = 2000, ct_mean = 1500, ct_max = 2000\<rparr>) = 1000"
  by (subst the_mean_sinks_to_the_shortest_run) simp_all

section \<open>Rows\<close>

lemma map_of_rev_at:
  assumes "distinct (map fst ps)" "i < length ps" "ps ! i = (k, v)"
  shows "map_of (rev ps) k = Some v"
  using assms by (metis distinct_rev map_of_eq_Some_iff nth_mem rev_map set_rev)

lemma sampled_keys: "map fst (map (\<lambda>(i, key). (key, i)) (enumerate 0 ks)) = ks"
  by (simp add: comp_def case_prod_beta enumerate_eq_zip)

lemma http_sampled_at:
  assumes keys: "distinct (zip (s_pids s) (s_sequence_numbers s))"
    and i: "i < length (zip (s_pids s) (s_sequence_numbers s))" "zip (s_pids s) (s_sequence_numbers s) ! i = key"
  shows "http_sampled s key = Some i"
  unfolding http_sampled_def
  by (rule map_of_rev_at [of _ i], simp only: sampled_keys keys) (use i in \<open>simp_all add: nth_enumerate_eq\<close>)

lemma http_sampled_none: "key \<notin> set (zip (s_pids s) (s_sequence_numbers s)) \<Longrightarrow> http_sampled s key = None"
  unfolding http_sampled_def map_of_eq_None_iff rev_map set_rev
  by (metis list.set_map sampled_keys set_rev rev_map)

text \<open>
  A row of the state tells a process of the list as it is published, and of a counter what
  the sample has in the row of that very process, or nothing where it has none.
\<close>
lemma rows_tell_their_process:
  assumes keys: "distinct (zip (s_pids s) (s_sequence_numbers s))" and j: "j < length (tg_value (sn_processes (pb_snapshot latest)))"
    and p: "p = tg_value (sn_processes (pb_snapshot latest)) ! j"
  shows "(\<forall>i < length (zip (s_pids s) (s_sequence_numbers s)).
       zip (s_pids s) (s_sequence_numbers s) ! i = (pi_pid p, pi_sequence_number p) \<longrightarrow>
       (\<exists>st. hs_rows (http_state (Some s) latest) ! j = row_shown (s_columns s) (Some i) st p)) \<and>
    ((pi_pid p, pi_sequence_number p) \<notin> set (zip (s_pids s) (s_sequence_numbers s)) \<longrightarrow>
       (\<exists>st. hs_rows (http_state (Some s) latest) ! j = row_shown (s_columns s) None st p))"
proof -
  have row: "hs_rows (http_state (Some s) latest) ! j = row_shown (s_columns s)
      (http_sampled s (pi_pid p, pi_sequence_number p))
      (http_states (pst_states (tg_value (sn_states (pb_snapshot latest)))) (pi_pid p, pi_sequence_number p)) p"
    using j by (simp add: http_state_def Let_def p)
  show ?thesis unfolding row using http_sampled_at [OF keys] http_sampled_none by auto
qed

end
