(* ===== verification/Data_Dir.thy ===== *)
theory Data_Dir
  imports Prelude
begin

text \<open>
  \<^verbatim>\<open>src/crates/core/src/data.rs\<close>: the directory the agent keeps its files in, and how a file
  in it is made safe to open. What is on the disk is a map from paths; each call may fail
  with an error of its own, and others may act between finding no directory and making it.
\<close>

section \<open>The disk\<close>

datatype node_kind = PlainFile | PlainDir | OtherKind
datatype owner = LocalSystem | Administrators | Someone

text \<open>The access rules of a node: those of the agent, inherited by what is inside, or others.\<close>
datatype access = AgentsOnly | OtherAccess

record node =
  nd_kind :: node_kind
  nd_reparse :: bool
  nd_owner :: owner
  nd_links :: nat
  nd_access :: access

type_synonym disk = "string \<Rightarrow> node option"

datatype data_call = Stat string | CreateDir string | OwnerOf string | Protect string | LinksOf string | Remove string

datatype data_error = OsError u32 | NotPlainDirectory | NotOurs

definition ERROR_ALREADY_EXISTS :: u32 where "ERROR_ALREADY_EXISTS = 183"

text \<open>\<^verbatim>\<open>symlink_metadata\<close>, with None for a path that names nothing.\<close>
definition metadata :: "(data_call \<Rightarrow> u32 option) \<Rightarrow> disk \<Rightarrow> string \<Rightarrow> data_error + node option" where
  "metadata fails disk path = (case fails (Stat path) of Some e \<Rightarrow> Inl (OsError e) | None \<Rightarrow> Inr (disk path))"

definition create_dir :: "(data_call \<Rightarrow> u32 option) \<Rightarrow> owner \<Rightarrow> string \<Rightarrow> disk \<Rightarrow> (data_error + unit) \<times> disk" where
  "create_dir fails me dir disk =
    (case fails (CreateDir dir) of
       Some e \<Rightarrow> (Inl (OsError e), disk)
     | None \<Rightarrow>
         if disk dir \<noteq> None then (Inl (OsError ERROR_ALREADY_EXISTS), disk)
         else (Inr (), disk(dir \<mapsto> \<lparr>nd_kind = PlainDir, nd_reparse = False, nd_owner = me, nd_links = 1, nd_access = AgentsOnly\<rparr>)))"

definition protect :: "(data_call \<Rightarrow> u32 option) \<Rightarrow> string \<Rightarrow> disk \<Rightarrow> (data_error + unit) \<times> disk" where
  "protect fails dir disk =
    (case fails (Protect dir) of
       Some e \<Rightarrow> (Inl (OsError e), disk)
     | None \<Rightarrow> (Inr (), disk(dir := map_option (\<lambda>n. n\<lparr>nd_access := AgentsOnly\<rparr>) (disk dir))))"

definition of_the_machine :: "owner \<Rightarrow> bool" where
  "of_the_machine who \<longleftrightarrow> who = LocalSystem \<or> who = Administrators"

definition owned_by_the_machine :: "(data_call \<Rightarrow> u32 option) \<Rightarrow> node \<Rightarrow> string \<Rightarrow> data_error + bool" where
  "owned_by_the_machine fails n path =
    (case fails (OwnerOf path) of Some e \<Rightarrow> Inl (OsError e) | None \<Rightarrow> Inr (of_the_machine (nd_owner n)))"

definition single_link :: "(data_call \<Rightarrow> u32 option) \<Rightarrow> node \<Rightarrow> string \<Rightarrow> data_error + bool" where
  "single_link fails n path =
    (case fails (LinksOf path) of Some e \<Rightarrow> Inl (OsError e) | None \<Rightarrow> Inr (nd_links n = 1))"

section \<open>The directory\<close>

text \<open>
  \<^verbatim>\<open>secure\<close>, which starts over when the directory it was about to make is there by now:
  None when that happened as often as the fuel allows.
\<close>
fun secure :: "(data_call \<Rightarrow> u32 option) \<Rightarrow> (nat \<Rightarrow> disk \<Rightarrow> disk) \<Rightarrow> owner \<Rightarrow> string \<Rightarrow> nat \<Rightarrow> disk \<Rightarrow>
    ((data_error + unit) \<times> disk) option" where
  "secure fails others me dir 0 disk = None"
| "secure fails others me dir (Suc n) disk =
    (case metadata fails disk dir of
       Inl e \<Rightarrow> Some (Inl e, disk)
     | Inr None \<Rightarrow>
         (case create_dir fails me dir (others n disk) of
            (Inl (OsError e), disk) \<Rightarrow>
              if e = ERROR_ALREADY_EXISTS then secure fails others me dir n disk else Some (Inl (OsError e), disk)
          | created \<Rightarrow> Some created)
     | Inr (Some node) \<Rightarrow>
         if nd_kind node \<noteq> PlainDir \<or> nd_reparse node then Some (Inl NotPlainDirectory, disk)
         else (case owned_by_the_machine fails node dir of
                 Inl e \<Rightarrow> Some (Inl e, disk)
               | Inr False \<Rightarrow> Some (Inl NotOurs, disk)
               | Inr True \<Rightarrow> Some (protect fails dir disk)))"

definition remove_node :: "(data_call \<Rightarrow> u32 option) \<Rightarrow> string \<Rightarrow> disk \<Rightarrow> (data_error + unit) \<times> disk" where
  "remove_node fails path disk =
    (case fails (Remove path) of
       Some e \<Rightarrow> (Inl (OsError e), disk)
     | None \<Rightarrow> (Inr (), disk(path := None)))"

text \<open>The test of \<^verbatim>\<open>claim\<close>, each part asked only while those before it hold.\<close>
definition safe_to_open :: "(data_call \<Rightarrow> u32 option) \<Rightarrow> node \<Rightarrow> string \<Rightarrow> data_error + bool" where
  "safe_to_open fails n path =
    (if \<not> (nd_kind n = PlainFile \<and> \<not> nd_reparse n) then Inr False
     else case owned_by_the_machine fails n path of
            Inl e \<Rightarrow> Inl e
          | Inr False \<Rightarrow> Inr False
          | Inr True \<Rightarrow> single_link fails n path)"

definition file_in :: "string \<Rightarrow> string \<Rightarrow> string" where
  "file_in dir name = dir @ CHR 0x5C # name"

definition claim :: "(data_call \<Rightarrow> u32 option) \<Rightarrow> (nat \<Rightarrow> disk \<Rightarrow> disk) \<Rightarrow> owner \<Rightarrow> string \<Rightarrow> string \<Rightarrow> nat \<Rightarrow> disk \<Rightarrow>
    ((data_error + string) \<times> disk) option" where
  "claim fails others me dir name fuel disk =
    (case secure fails others me dir fuel disk of
       None \<Rightarrow> None
     | Some (Inl e, disk) \<Rightarrow> Some (Inl e, disk)
     | Some (Inr _, disk) \<Rightarrow>
         (let path = file_in dir name in
          case metadata fails disk path of
            Inl e \<Rightarrow> Some (Inl e, disk)
          | Inr None \<Rightarrow> Some (Inr path, disk)
          | Inr (Some n) \<Rightarrow>
              (case safe_to_open fails n path of
                 Inl e \<Rightarrow> Some (Inl e, disk)
               | Inr True \<Rightarrow> Some (Inr path, disk)
               | Inr False \<Rightarrow>
                   (case remove_node fails path disk of
                      (Inl e, disk) \<Rightarrow> Some (Inl e, disk)
                    | (Inr _, disk) \<Rightarrow> Some (Inr path, disk)))))"

section \<open>What the agent opens is its own\<close>

definition agents_dir :: "node \<Rightarrow> bool" where
  "agents_dir n \<longleftrightarrow> nd_kind n = PlainDir \<and> \<not> nd_reparse n \<and> of_the_machine (nd_owner n) \<and> nd_access n = AgentsOnly"

definition agents_file :: "node \<Rightarrow> bool" where
  "agents_file n \<longleftrightarrow> nd_kind n = PlainFile \<and> \<not> nd_reparse n \<and> of_the_machine (nd_owner n) \<and> nd_links n = 1"

lemma secure_makes_the_agents:
  "secure fails others me dir n disk = Some (Inr u, disk') \<Longrightarrow> of_the_machine me \<Longrightarrow> pred_option agents_dir (disk' dir) \<and> disk' dir \<noteq> None"
proof (induction n arbitrary: disk)
  case (Suc n)
  show ?case
  proof (cases "metadata fails disk dir")
    case (Inr found)
    show ?thesis
    proof (cases "found")
      case None
      then show ?thesis using Suc Inr
        by (auto simp: create_dir_def agents_dir_def split: option.splits if_splits)
    next
      case (Some node)
      then have "disk dir = Some node" using Inr by (auto simp: metadata_def split: option.splits)
      then show ?thesis using Suc.prems Some Inr
        by (auto simp: protect_def owned_by_the_machine_def agents_dir_def split: option.splits if_splits bool.splits)
    qed
  qed (use Suc.prems in simp)
qed simp

lemma secure_refuses:
  assumes "disk dir = Some d" "nd_kind d \<noteq> PlainDir \<or> nd_reparse d \<or> \<not> of_the_machine (nd_owner d)"
  shows "\<exists>e. secure fails others me dir (Suc n) disk = Some (Inl e, disk)"
  using assms by (auto simp: metadata_def owned_by_the_machine_def split: option.split)

lemma file_in_apart [simp]: "file_in dir name \<noteq> dir"
  by (simp add: file_in_def)

lemma claim_cases:
  assumes "claim fails others me dir name fuel disk = Some (Inr path, disk')"
  obtains secured where "secure fails others me dir fuel disk = Some (Inr (), secured)" "path = file_in dir name"
    "disk' = secured \<or> disk' = secured(path := None)" "pred_option agents_file (disk' path)"
proof -
  obtain secured where sec: "secure fails others me dir fuel disk = Some (Inr (), secured)"
    using assms by (auto simp: claim_def split: option.splits sum.splits prod.splits)
  show ?thesis
  proof (cases "metadata fails secured (file_in dir name)")
    case (Inl e)
    then show ?thesis using assms sec by (simp add: claim_def Let_def)
  next
    case (Inr found)
    then have at: "found = secured (file_in dir name)" by (auto simp: metadata_def split: option.splits)
    show ?thesis
    proof (cases "found")
      case None
      then show ?thesis using assms sec Inr at by (intro that [OF sec]) (auto simp: claim_def Let_def)
    next
      case (Some n)
      then show ?thesis using assms sec Inr at
        by (intro that [OF sec])
          (auto simp: claim_def Let_def remove_node_def safe_to_open_def owned_by_the_machine_def single_link_def agents_file_def
            split: option.splits if_splits bool.splits)
    qed
  qed
qed

text \<open>
  C37 A path handed out for a file of the agent's lies in a plain directory of the machine's
  that only the agent's own rules open, and names nothing yet or a plain file of the
  machine's under this one name; a directory that is someone else's, or no plain one, is
  refused and left as it is, however others act meanwhile; and where nobody does, the
  directory is settled at the first attempt.
\<close>
theorem only_its_own_files_are_opened:
  assumes "of_the_machine me"
  shows "(claim fails others me dir name fuel disk = Some (Inr path, disk') \<longrightarrow>
      pred_option agents_dir (disk' dir) \<and> disk' dir \<noteq> None \<and> pred_option agents_file (disk' path)) \<and>
    (disk dir = Some d \<and> (nd_kind d \<noteq> PlainDir \<or> nd_reparse d \<or> \<not> of_the_machine (nd_owner d)) \<longrightarrow>
      (\<exists>e. claim fails others me dir name (Suc n) disk = Some (Inl e, disk))) \<and>
    ((\<forall>k disk. others k disk = disk) \<and> fails (CreateDir dir) \<noteq> Some ERROR_ALREADY_EXISTS \<longrightarrow>
      claim fails others me dir name 1 disk \<noteq> None)"
proof (intro conjI impI)
  assume c: "claim fails others me dir name fuel disk = Some (Inr path, disk')"
  then obtain secured where s: "secure fails others me dir fuel disk = Some (Inr (), secured)" "path = file_in dir name"
      "disk' = secured \<or> disk' = secured(path := None)" "pred_option agents_file (disk' path)"
    by (rule claim_cases)
  have "pred_option agents_dir (secured dir) \<and> secured dir \<noteq> None" by (rule secure_makes_the_agents [OF s(1) assms])
  moreover have "path \<noteq> dir" by (simp add: s(2))
  then have "disk' dir = secured dir" using s(3) by auto
  ultimately show "pred_option agents_dir (disk' dir)" "disk' dir \<noteq> None" by simp_all
  show "pred_option agents_file (disk' path)" by (rule s(4))
next
  assume d: "disk dir = Some d \<and> (nd_kind d \<noteq> PlainDir \<or> nd_reparse d \<or> \<not> of_the_machine (nd_owner d))"
  then obtain e where "secure fails others me dir (Suc n) disk = Some (Inl e, disk)" using secure_refuses by blast
  then show "\<exists>e. claim fails others me dir name (Suc n) disk = Some (Inl e, disk)" by (simp add: claim_def del: secure.simps)
next
  assume quiet: "(\<forall>k disk. others k disk = disk) \<and> fails (CreateDir dir) \<noteq> Some ERROR_ALREADY_EXISTS"
  have "secure fails others me dir 1 disk \<noteq> None"
    using quiet by (auto simp: One_nat_def metadata_def create_dir_def split: option.split sum.split bool.split)
  then show "claim fails others me dir name 1 disk \<noteq> None"
    by (auto simp: claim_def Let_def split: option.split sum.split prod.split bool.split)
qed

lemma only_its_own_files_are_opened_witness:
  "\<exists>disk'. claim (\<lambda>_. None) (\<lambda>_ disk. disk) LocalSystem ''d'' ''f'' 1
      [''d'' \<mapsto> \<lparr>nd_kind = PlainDir, nd_reparse = False, nd_owner = Administrators, nd_links = 1, nd_access = OtherAccess\<rparr>,
       file_in ''d'' ''f'' \<mapsto> \<lparr>nd_kind = PlainFile, nd_reparse = False, nd_owner = Someone, nd_links = 1, nd_access = OtherAccess\<rparr>] =
      Some (Inr (file_in ''d'' ''f''), disk') \<and> pred_option agents_dir (disk' ''d'') \<and> pred_option agents_file (disk' (file_in ''d'' ''f''))"
    (is "\<exists>disk'. claim ?fails ?others _ _ _ 1 ?disk = _ \<and> _")
proof -
  have "\<exists>disk'. claim ?fails ?others LocalSystem ''d'' ''f'' 1 ?disk = Some (Inr (file_in ''d'' ''f''), disk')"
    unfolding One_nat_def
    by (simp add: claim_def Let_def metadata_def owned_by_the_machine_def of_the_machine_def protect_def safe_to_open_def
        remove_node_def file_in_def)
  then show ?thesis
    using only_its_own_files_are_opened [of LocalSystem ?fails ?others "''d''" "''f''" 1 ?disk "file_in ''d'' ''f''"]
    by (auto simp: of_the_machine_def)
qed

end
