(* ===== verification/Events_Watch.thy ===== *)
theory Events_Watch
  imports Process_Events
begin

text \<open>
  The waiting of \<^verbatim>\<open>process_events/mod.rs\<close>: the thread that holds the events and tells that
  there are new ones, and a watcher that reads what is held and waits for more, each in
  steps of its own between which the other runs. \<^verbatim>\<open>Notify\<close> of the agent kit is a record of
  the operations the two call, with what they rely on as its laws.
\<close>

section \<open>Notify\<close>

text \<open>
  \<^verbatim>\<open>generation\<close>, \<^verbatim>\<open>notify\<close> and \<^verbatim>\<open>changed\<close>: the last as whether the wait for a
  change after a generation is over.
\<close>
record ('n, 'g) notify =
  nf_generation :: "'n \<Rightarrow> 'g"
  nf_notify :: "'n \<Rightarrow> 'n"
  nf_changed :: "'n \<Rightarrow> 'g \<Rightarrow> bool"

text \<open>A notification ends the wait for a change after the generation before it, and no wait that is over begins again.\<close>
definition notify_ok :: "('n, 'g) notify \<Rightarrow> bool" where
  "notify_ok kit \<longleftrightarrow>
    (\<forall>s. nf_changed kit (nf_notify kit s) (nf_generation kit s)) \<and>
    (\<forall>s g. nf_changed kit s g \<longrightarrow> nf_changed kit (nf_notify kit s) g)"

section \<open>The two sides\<close>

text \<open>
  What they share; \<open>ew_owes\<close> is set while the thread has let go of the lock, or closed the
  events, and has yet to notify.
\<close>
record 'n shared_events =
  ew_history :: history
  ew_told :: 'n
  ew_closed :: bool
  ew_owes :: bool

text \<open>What the thread does to the history under its lock.\<close>
definition held_under_lock :: "layout \<Rightarrow> u32 \<Rightarrow> (process_event \<times> u64) list \<Rightarrow> history \<Rightarrow> history" where
  "held_under_lock ly lost told h = fold (\<lambda>(event, now) h. push ly event now h) told (kernel_lost lost h)"

text \<open>
  Where \<^verbatim>\<open>next\<close> is: it reads the generation, then whether the events are closed, then what is
  held, and only then ends or waits.
\<close>
datatype 'g watch_pc =
  AtTop | SawGeneration 'g | SawClosed 'g bool | FoundNothing 'g bool | WaitsFor 'g | WatchEnded

record 'g events_watcher =
  ww_cursor :: cursor
  ww_pc :: "'g watch_pc"
  ww_batches :: "process_event_batch list"

definition watch_next_step :: "('n, 'g) notify \<Rightarrow> 'n shared_events \<Rightarrow> 'g events_watcher \<Rightarrow> 'g events_watcher" where
  "watch_next_step kit s w =
    (case ww_pc w of
       AtTop \<Rightarrow> w\<lparr>ww_pc := SawGeneration (nf_generation kit (ew_told s))\<rparr>
     | SawGeneration g \<Rightarrow> w\<lparr>ww_pc := SawClosed g (ew_closed s)\<rparr>
     | SawClosed g c \<Rightarrow>
         (case read (ew_history s) (ww_cursor w) BATCH_BYTES of
            (cursor, Some batch) \<Rightarrow> w\<lparr>ww_cursor := cursor, ww_pc := AtTop, ww_batches := ww_batches w @ [batch]\<rparr>
          | (cursor, None) \<Rightarrow> w\<lparr>ww_cursor := cursor, ww_pc := FoundNothing g c\<rparr>)
     | FoundNothing g c \<Rightarrow> w\<lparr>ww_pc := (if c then WatchEnded else WaitsFor g)\<rparr>
     | WaitsFor g \<Rightarrow> if nf_changed kit (ew_told s) g then w\<lparr>ww_pc := AtTop\<rparr> else w
     | WatchEnded \<Rightarrow> w)"

definition watcher_begins :: "'g events_watcher" where
  "watcher_begins = \<lparr>ww_cursor = cursor_default, ww_pc = AtTop, ww_batches = []\<rparr>"

text \<open>Every order in which they run, with every event ever held.\<close>
inductive told_reach :: "('n, 'g) notify \<Rightarrow> layout \<Rightarrow> 'n shared_events \<Rightarrow> process_event list \<Rightarrow> 'g events_watcher \<Rightarrow> bool"
  for kit ly where
  begins: "history_reach ly h evs \<Longrightarrow>
    told_reach kit ly \<lparr>ew_history = h, ew_told = n, ew_closed = False, ew_owes = False\<rparr> evs watcher_begins"
| releases: "told_reach kit ly s evs w \<Longrightarrow> \<not> ew_closed s \<Longrightarrow> \<not> ew_owes s \<Longrightarrow> list_all (\<lambda>(e, _). ev_time e \<noteq> - 1) told \<Longrightarrow>
    told_reach kit ly (s\<lparr>ew_history := held_under_lock ly lost told (ew_history s), ew_owes := True\<rparr>) (evs @ map fst told) w"
| notifies: "told_reach kit ly s evs w \<Longrightarrow> ew_owes s \<Longrightarrow>
    told_reach kit ly (s\<lparr>ew_told := nf_notify kit (ew_told s), ew_owes := False\<rparr>) evs w"
| closes: "told_reach kit ly s evs w \<Longrightarrow> \<not> ew_closed s \<Longrightarrow> \<not> ew_owes s \<Longrightarrow>
    told_reach kit ly (s\<lparr>ew_closed := True, ew_owes := True\<rparr>) evs w"
| watches: "told_reach kit ly s evs w \<Longrightarrow> told_reach kit ly s evs (watch_next_step kit s w)"

section \<open>Nothing is slept through\<close>

definition all_read :: "process_event list \<Rightarrow> 'g events_watcher \<Rightarrow> bool" where
  "all_read evs w \<longleftrightarrow> cu_started (ww_cursor w) \<and> cu_next (ww_cursor w) = length evs"

text \<open>A wait for a change after this generation is over or ends with the next notification.\<close>
definition wakes :: "('n, 'g) notify \<Rightarrow> 'n \<Rightarrow> 'g \<Rightarrow> bool" where
  "wakes kit n g \<longleftrightarrow> g = nf_generation kit n \<or> nf_changed kit n g"

lemma notified_wakes: "notify_ok kit \<Longrightarrow> wakes kit n g \<Longrightarrow> nf_changed kit (nf_notify kit n) g"
  by (auto simp: notify_ok_def wakes_def)

lemma wakes_generation [simp]: "wakes kit n (nf_generation kit n)"
  by (simp add: wakes_def)

lemma changed_wakes: "nf_changed kit n g \<Longrightarrow> wakes kit n g"
  by (simp add: wakes_def)

fun pc_ok :: "('n, 'g) notify \<Rightarrow> 'n shared_events \<Rightarrow> bool \<Rightarrow> 'g watch_pc \<Rightarrow> bool" where
  "pc_ok kit s done AtTop = True"
| "pc_ok kit s done (SawGeneration g) \<longleftrightarrow> wakes kit (ew_told s) g"
| "pc_ok kit s done (SawClosed g c) \<longleftrightarrow> wakes kit (ew_told s) g \<and> (c \<longrightarrow> ew_closed s) \<and>
    (ew_closed s \<and> \<not> nf_changed kit (ew_told s) g \<longrightarrow> ew_owes s \<or> c)"
| "pc_ok kit s done (FoundNothing g c) \<longleftrightarrow> wakes kit (ew_told s) g \<and> (c \<longrightarrow> ew_closed s \<and> done) \<and>
    (\<not> nf_changed kit (ew_told s) g \<longrightarrow> ew_owes s \<or> (done \<and> (ew_closed s \<longrightarrow> c)))"
| "pc_ok kit s done (WaitsFor g) \<longleftrightarrow> wakes kit (ew_told s) g \<and>
    (\<not> nf_changed kit (ew_told s) g \<longrightarrow> ew_owes s \<or> (done \<and> \<not> ew_closed s))"
| "pc_ok kit s done WatchEnded \<longleftrightarrow> ew_closed s \<and> done"

definition told_ok :: "('n, 'g) notify \<Rightarrow> layout \<Rightarrow> 'n shared_events \<Rightarrow> process_event list \<Rightarrow> 'g events_watcher \<Rightarrow> bool" where
  "told_ok kit ly s evs w \<longleftrightarrow>
    history_reach ly (ew_history s) evs \<and> (cu_started (ww_cursor w) \<longrightarrow> cu_next (ww_cursor w) \<le> length evs) \<and>
    pc_ok kit s (all_read evs w) (ww_pc w)"

lemma held_reach:
  "history_reach ly h evs \<Longrightarrow> list_all (\<lambda>(e, _). ev_time e \<noteq> - 1) told \<Longrightarrow>
   history_reach ly (fold (\<lambda>(event, now) h. push ly event now h) told h) (evs @ map fst told)"
proof (induction told arbitrary: h evs)
  case (Cons t told)
  obtain event now where t: "t = (event, now)" by force
  have "history_reach ly (push ly event now h) (evs @ [event])"
    using Cons.prems by (intro history_reach.intros) (auto simp: t)
  from Cons.IH [OF this] have "history_reach ly (fold (\<lambda>(event, now) h. push ly event now h) told (push ly event now h))
      (evs @ [event] @ map fst told)"
    using Cons.prems(2) by (simp add: t)
  then show ?case by (simp add: t)
qed simp

lemma read_moves:
  assumes "history_reach ly h evs" "cu_started c \<longrightarrow> cu_next c \<le> length evs" "read h c n = (c', batch)"
  shows "cu_started c' \<and> cu_next c' \<le> length evs"
    and "batch = None \<Longrightarrow> cu_started c' \<and> cu_next c' = length evs"
    and "batch \<noteq> None \<Longrightarrow> cu_started c \<Longrightarrow> cu_next c < cu_next c'"
proof -
  have ok: "history_ok h evs" using history_reach_ok [OF assms(1)] by blast
  obtain k where k: "fst (read h c n) = \<lparr>cu_next = read_from h c + k, cu_started = True\<rparr>"
    "snd (read h c n) =
      (let lost = lost_through (u32_of_nat (missed_before h c))
             (take k (drop (read_from h c - h_first h) (h_entries h)))
       in if k = 0 \<and> lost = 0 \<and> cu_started c then None
          else Some \<lparr>eb_history_from = (if cu_started c then 0 else h_history_from h),
            eb_events = take k (drop (read_from h c) evs), eb_lost = lost\<rparr>)"
    by (rule read_eq [OF ok])
  note progress = reads_make_progress [OF assms(1,2), of n, unfolded assms(3) fst_conv snd_conv]
  have c': "c' = \<lparr>cu_next = read_from h c + k, cu_started = True\<rparr>" using k(1) by (simp add: assms(3))
  show "cu_started c' \<and> cu_next c' \<le> length evs" using progress by (simp add: c')
  have onward: "cu_started c \<Longrightarrow> cu_next c \<le> read_from h c" by (simp add: read_from_def)
  show "cu_started c' \<and> cu_next c' = length evs" if "batch = None"
  proof -
    have at_end: "cu_started c" "cu_next c = length evs" using that progress by blast+
    then have "length evs \<le> read_from h c" using onward by simp
    moreover have "read_from h c + k \<le> length evs" using progress by (simp add: c')
    ultimately show ?thesis by (simp add: c')
  qed
  show "cu_next c < cu_next c'" if "batch \<noteq> None" "cu_started c"
  proof -
    have "cu_next c \<noteq> length evs" using that progress by blast
    then have "cu_next c < length evs" using assms(2) that(2) by simp
    moreover have "read_from h c < length evs \<longrightarrow> read_from h c < cu_next c'" using progress by blast
    moreover have "read_from h c \<le> cu_next c'" by (simp add: c')
    ultimately show ?thesis using onward [OF that(2)] by linarith
  qed
qed

lemma watch_step_ok:
  assumes "told_ok kit ly s evs w"
  shows "told_ok kit ly s evs (watch_next_step kit s w)"
proof (cases "ww_pc w")
  case (SawClosed g c)
  obtain cursor batch where r: "read (ew_history s) (ww_cursor w) BATCH_BYTES = (cursor, batch)" by force
  note moves = read_moves [OF _ _ r, of ly evs]
  show ?thesis
  proof (cases batch)
    case None
    then show ?thesis using assms moves SawClosed r
      by (auto simp: told_ok_def watch_next_step_def all_read_def)
  next
    case (Some b)
    then show ?thesis using assms moves(1) SawClosed r
      by (auto simp: told_ok_def watch_next_step_def all_read_def)
  qed
qed (use assms in \<open>auto simp: told_ok_def watch_next_step_def all_read_def\<close>)

lemma told_reach_ok: "told_reach kit ly s evs w \<Longrightarrow> notify_ok kit \<Longrightarrow> told_ok kit ly s evs w"
proof (induction rule: told_reach.induct)
  case (begins h evs g)
  then show ?case by (simp add: told_ok_def watcher_begins_def cursor_default_def)
next
  case (releases s evs w told lost)
  have "history_reach ly (held_under_lock ly lost told (ew_history s)) (evs @ map fst told)"
    using releases by (auto simp: held_under_lock_def told_ok_def intro!: held_reach history_reach.intros)
  then show ?case using releases.IH [OF releases.prems] releases.hyps(2,3) by (cases "ww_pc w") (auto simp: told_ok_def)
next
  case (notifies s evs w)
  note ih = notifies.IH [OF notifies.prems]
  have "nf_changed kit (nf_notify kit (ew_told s)) g" if "wakes kit (ew_told s) g" for g
    by (rule notified_wakes [OF notifies.prems that])
  then show ?case using ih by (cases "ww_pc w") (auto simp: told_ok_def changed_wakes)
next
  case (closes s evs w)
  then show ?case by (cases "ww_pc w") (auto simp: told_ok_def all_read_def)
next
  case (watches s evs w)
  show ?case by (rule watch_step_ok [OF watches.IH [OF watches.prems]])
qed

section \<open>A watch ends once everything was read\<close>

definition unread :: "process_event list \<Rightarrow> 'g events_watcher \<Rightarrow> nat" where
  "unread evs w = (if cu_started (ww_cursor w) then length evs - cu_next (ww_cursor w) else Suc (length evs))"

fun pc_left :: "'g watch_pc \<Rightarrow> nat" where
  "pc_left (SawClosed g c) = (if c then 2 else 7)"
| "pc_left (FoundNothing g c) = (if c then 1 else 6)"
| "pc_left (WaitsFor g) = 5"
| "pc_left AtTop = 4"
| "pc_left (SawGeneration g) = 3"
| "pc_left WatchEnded = 0"

text \<open>Once the thread is done, every step of a watcher brings it nearer to its end.\<close>
lemma watch_step_nearer:
  assumes ok: "told_ok kit ly s evs w" and shut: "ew_closed s" "\<not> ew_owes s" and on: "ww_pc w \<noteq> WatchEnded"
  shows "unread evs (watch_next_step kit s w) * 8 + pc_left (ww_pc (watch_next_step kit s w)) < unread evs w * 8 + pc_left (ww_pc w)"
proof (cases "ww_pc w")
  case (SawClosed g c)
  obtain cursor batch where r: "read (ew_history s) (ww_cursor w) BATCH_BYTES = (cursor, batch)" by force
  have reach: "history_reach ly (ew_history s) evs" and within: "cu_started (ww_cursor w) \<longrightarrow> cu_next (ww_cursor w) \<le> length evs"
    using ok by (simp_all add: told_ok_def)
  note moves = read_moves [OF reach within r]
  show ?thesis
  proof (cases batch)
    case None
    then have "watch_next_step kit s w = w\<lparr>ww_cursor := cursor, ww_pc := FoundNothing g c\<rparr>"
      by (simp add: watch_next_step_def SawClosed r)
    moreover have "unread evs (w\<lparr>ww_cursor := cursor, ww_pc := FoundNothing g c\<rparr>) = 0"
      using moves(2) None by (simp add: unread_def)
    ultimately show ?thesis using SawClosed by simp
  next
    case (Some b)
    then have "watch_next_step kit s w = w\<lparr>ww_cursor := cursor, ww_pc := AtTop, ww_batches := ww_batches w @ [b]\<rparr>"
      by (simp add: watch_next_step_def SawClosed r)
    moreover have "length evs - cu_next cursor < unread evs w"
      using moves(1,3) Some within by (auto simp: unread_def)
    ultimately show ?thesis using moves(1) SawClosed by (simp add: unread_def)
  qed
next
  case (WaitsFor g)
  then have "nf_changed kit (ew_told s) g" using ok shut by (auto simp: told_ok_def)
  then show ?thesis using WaitsFor by (simp add: watch_next_step_def unread_def)
qed (use on shut in \<open>simp_all add: watch_next_step_def unread_def\<close>)

lemma watch_comes_to_an_end:
  "told_reach kit ly s evs w \<Longrightarrow> notify_ok kit \<Longrightarrow> ew_closed s \<Longrightarrow> \<not> ew_owes s \<Longrightarrow> \<exists>k. ww_pc ((watch_next_step kit s ^^ k) w) = WatchEnded"
proof (induction "unread evs w * 8 + pc_left (ww_pc w)" arbitrary: w rule: less_induct)
  case less
  show ?case
  proof (cases "ww_pc w = WatchEnded")
    case True
    then have "ww_pc ((watch_next_step kit s ^^ 0) w) = WatchEnded" by simp
    then show ?thesis by (rule exI)
  next
    case False
    obtain k where "ww_pc ((watch_next_step kit s ^^ k) (watch_next_step kit s w)) = WatchEnded"
      using less.hyps [OF watch_step_nearer [OF told_reach_ok [OF less.prems(1,2)] less.prems(3,4) False]
          told_reach.watches [OF less.prems(1)] less.prems(2,3,4)] by blast
    then have "ww_pc ((watch_next_step kit s ^^ Suc k) w) = WatchEnded" by (simp only: funpow_Suc_right comp_def)
    then show ?thesis by (rule exI)
  qed
qed

lemma nothing_left: "told_ok kit ly s evs w \<Longrightarrow> all_read evs w \<Longrightarrow> snd (read (ew_history s) (ww_cursor w) n) = None"
  using reads_make_progress [of ly "ew_history s" evs "ww_cursor w" n] by (simp add: told_ok_def all_read_def)

text \<open>
  C38 However a watcher and the thread that holds the events come in between one another's
  steps, with any \<^verbatim>\<open>Notify\<close> whose notification ends the waits begun before it: a watch ends
  only once the events are closed and every one held was read; a watcher whose wait goes on
  has nothing left to read and the events go on, or the notification that wakes it is on
  the way; and once the thread is done the watch ends after some steps of its own.
\<close>
theorem a_watch_misses_no_end:
  assumes "notify_ok kit" "told_reach kit ly s evs w"
  shows "(ww_pc w = WatchEnded \<longrightarrow> ew_closed s \<and> cu_next (ww_cursor w) = length evs \<and>
      snd (read (ew_history s) (ww_cursor w) BATCH_BYTES) = None) \<and>
    (\<forall>g. ww_pc w = WaitsFor g \<and> \<not> nf_changed kit (ew_told s) g \<longrightarrow>
      (if ew_owes s then nf_changed kit (nf_notify kit (ew_told s)) g
       else \<not> ew_closed s \<and> cu_next (ww_cursor w) = length evs \<and>
         snd (read (ew_history s) (ww_cursor w) BATCH_BYTES) = None)) \<and>
    (ew_closed s \<and> \<not> ew_owes s \<longrightarrow> (\<exists>k. ww_pc ((watch_next_step kit s ^^ k) w) = WatchEnded))"
proof (intro conjI impI allI)
  have ok: "told_ok kit ly s evs w" by (rule told_reach_ok [OF assms(2,1)])
  then have pc: "pc_ok kit s (all_read evs w) (ww_pc w)" by (simp add: told_ok_def)
  show "ew_closed s" "cu_next (ww_cursor w) = length evs" "snd (read (ew_history s) (ww_cursor w) BATCH_BYTES) = None"
    if "ww_pc w = WatchEnded"
    using pc nothing_left [OF ok, of BATCH_BYTES] by (simp_all add: that all_read_def)
  show "if ew_owes s then nf_changed kit (nf_notify kit (ew_told s)) g
      else \<not> ew_closed s \<and> cu_next (ww_cursor w) = length evs \<and>
        snd (read (ew_history s) (ww_cursor w) BATCH_BYTES) = None"
    if "ww_pc w = WaitsFor g \<and> \<not> nf_changed kit (ew_told s) g" for g
    using pc nothing_left [OF ok, of BATCH_BYTES] notified_wakes [OF assms(1)] by (auto simp: that all_read_def)
  show "\<exists>k. ww_pc ((watch_next_step kit s ^^ k) w) = WatchEnded" if "ew_closed s \<and> \<not> ew_owes s"
    using watch_comes_to_an_end [OF assms(2,1)] that by blast
qed

section \<open>A watch that waits, is woken and ends\<close>

text \<open>A \<^verbatim>\<open>Notify\<close> that counts its notifications.\<close>
definition counting_notify :: "(nat, nat) notify" where
  "counting_notify = \<lparr>nf_generation = (\<lambda>n. n), nf_notify = Suc, nf_changed = (\<lambda>n g. n > g)\<rparr>"

lemma counting_notify_ok: "notify_ok counting_notify"
  by (simp add: notify_ok_def counting_notify_def)

lemma watches_on: "told_reach kit ly s evs w \<Longrightarrow> told_reach kit ly s evs ((watch_next_step kit s ^^ k) w)"
  by (induction k) (auto intro: told_reach.watches)

text \<open>A watcher that begins with nothing held waits; an event comes, which it reads, and waits again.\<close>
definition no_events :: "nat shared_events" where
  "no_events = \<lparr>ew_history = history_new 5 1000 1000, ew_told = 0, ew_closed = False, ew_owes = False\<rparr>"

definition one_event :: "nat shared_events" where
  "one_event = no_events\<lparr>ew_history := held_under_lock plain_layout 0 [(exit_of 1 10, 10)] (ew_history no_events), ew_told := 1\<rparr>"

definition events_over :: "nat shared_events" where
  "events_over = one_event\<lparr>ew_told := 2, ew_closed := True\<rparr>"

definition watcher_asleep :: "nat events_watcher" where
  "watcher_asleep = (watch_next_step counting_notify no_events ^^ 7) watcher_begins"

definition watcher_asleep_again :: "nat events_watcher" where
  "watcher_asleep_again = (watch_next_step counting_notify one_event ^^ 8) watcher_asleep"

lemma funpow_first: "(f ^^ numeral k) x = (f ^^ pred_numeral k) (f x)"
  by (simp add: numeral_eq_Suc funpow_swap1)

lemma one_event_eq:
  "one_event = \<lparr>ew_history = \<lparr>h_entries = [\<lparr>he_event = exit_of 1 10, he_bytes = event_bytes plain_layout (ev_kind (exit_of 1 10)),
       he_lost_before = 0\<rparr>], h_first = 0, h_bytes = event_bytes plain_layout (ev_kind (exit_of 1 10)),
       h_history_from = 5, h_max_age = 1000, h_max_bytes = 1000, h_lost = 0\<rparr>,
     ew_told = 1, ew_closed = False, ew_owes = False\<rparr>"
  by (simp add: one_event_def no_events_def held_under_lock_def kernel_lost_def history_new_def push_def exit_of_def
      plain_layout_def sat_sub_def let_go.simps Let_def)

lemma watcher_asleep_eq:
  "watcher_asleep = \<lparr>ww_cursor = \<lparr>cu_next = 0, cu_started = True\<rparr>, ww_pc = WaitsFor 0,
    ww_batches = [\<lparr>eb_history_from = 5, eb_events = [], eb_lost = 0\<rparr>]\<rparr>"
  by (simp add: watcher_asleep_def watcher_begins_def watch_next_step_def no_events_def counting_notify_def funpow_first
      read_def cursor_default_def history_new_def)

lemma watcher_asleep_again_eq:
  "watcher_asleep_again = \<lparr>ww_cursor = \<lparr>cu_next = 1, cu_started = True\<rparr>, ww_pc = WaitsFor 1,
    ww_batches = [\<lparr>eb_history_from = 5, eb_events = [], eb_lost = 0\<rparr>,
      \<lparr>eb_history_from = 0, eb_events = [exit_of 1 10], eb_lost = 0\<rparr>]\<rparr>"
  unfolding watcher_asleep_again_def watcher_asleep_eq one_event_eq
  by (simp add: watch_next_step_def counting_notify_def funpow_first read_def)

lemma a_watch_misses_no_end_witness:
  "ww_pc watcher_asleep = WaitsFor 0 \<and> concat (map eb_events (ww_batches watcher_asleep_again)) = [exit_of 1 10] \<and>
   ww_pc watcher_asleep_again = WaitsFor 1 \<and>
   (\<exists>k. ww_pc ((watch_next_step counting_notify events_over ^^ k) watcher_asleep_again) = WatchEnded)"
proof -
  let ?reach = "told_reach counting_notify plain_layout"
  have "?reach no_events [] watcher_begins"
    unfolding no_events_def by (intro told_reach.begins hist_new)
  then have "?reach no_events [] watcher_asleep" unfolding watcher_asleep_def by (rule watches_on)
  from told_reach.releases [OF this, of "[(exit_of 1 10, 10)]" 0]
  have "?reach (no_events\<lparr>ew_history := held_under_lock plain_layout 0 [(exit_of 1 10, 10)] (ew_history no_events), ew_owes := True\<rparr>)
      [exit_of 1 10] watcher_asleep"
    by (simp add: no_events_def exit_of_def)
  from told_reach.notifies [OF this] have "?reach one_event [exit_of 1 10] watcher_asleep"
    by (simp add: one_event_def no_events_def counting_notify_def)
  then have "?reach one_event [exit_of 1 10] watcher_asleep_again" unfolding watcher_asleep_again_def by (rule watches_on)
  from told_reach.notifies [OF told_reach.closes [OF this]] have "?reach events_over [exit_of 1 10] watcher_asleep_again"
    by (simp add: events_over_def one_event_def no_events_def counting_notify_def numeral_2_eq_2)
  from a_watch_misses_no_end [OF counting_notify_ok this]
  have "\<exists>k. ww_pc ((watch_next_step counting_notify events_over ^^ k) watcher_asleep_again) = WatchEnded"
    by (simp add: events_over_def one_event_def no_events_def)
  then show ?thesis by (simp add: watcher_asleep_eq watcher_asleep_again_eq)
qed

end
