(* ===== verification/Resolve.thy ===== *)
theory Resolve
  imports Process_Read Api
begin

text \<open>
  What is asked beside the events: where a process worked (\<^verbatim>\<open>process_events/resolve.rs\<close>),
  read out of its own memory, and which services a process hosts (\<^verbatim>\<open>src/local.rs\<close>).
\<close>

text \<open>
  What a process answers: whether it opens, where its block is, and what is read of its
  memory - a pointer, the length in bytes of a text with where it lies, so many units of one.
\<close>
record directory_answers =
  da_opened :: bool
  da_block :: "u64 option"
  da_pointer :: "u64 \<Rightarrow> u64 option"
  da_text :: "u64 \<Rightarrow> (u16 \<times> u64) option"
  da_units :: "u64 \<Rightarrow> nat \<Rightarrow> u16 list option"

text \<open>\<open>parameters\<close> and \<open>current\<close> are the offsets Windows lays the two fields out at.\<close>
definition read_working_directory :: "u64 \<Rightarrow> u64 \<Rightarrow> directory_answers \<Rightarrow> string option" where
  "read_working_directory parameters current a =
    (if \<not> da_opened a then None
     else case da_block a of
       None \<Rightarrow> None
     | Some block \<Rightarrow>
         if block = 0 then None
         else (case da_pointer a (block + parameters) of
             None \<Rightarrow> None
           | Some at \<Rightarrow>
               if at = 0 then None
               else (case da_text a (at + current) of
                   None \<Rightarrow> None
                 | Some (bytes, buffer) \<Rightarrow>
                     if unat bytes div 2 = 0 then None
                     else map_option from_utf16_lossy (da_units a buffer (unat bytes div 2)))))"

definition working_directory :: "u64 \<Rightarrow> u64 \<Rightarrow> directory_answers \<Rightarrow> string" where
  "working_directory parameters current a =
    (case read_working_directory parameters current a of Some t \<Rightarrow> t | None \<Rightarrow> '''')"

definition hosted_by :: "service_stats list \<Rightarrow> u32 \<Rightarrow> string list" where
  "hosted_by services pid =
    (if pid = 0 then [] else map sv_name (filter (\<lambda>service. sv_pid service = pid) services))"

text \<open>A service that does not run has no host, so the idle process hosts none.\<close>
lemma hosted_by_runs: "set (hosted_by services pid) = {sv_name s | s. s \<in> set services \<and> sv_pid s = pid \<and> sv_pid s \<noteq> 0}"
  by (auto simp: hosted_by_def)

end
