(* ===== verification/Streaming.thy ===== *)
theory Streaming
  imports Wire_Events "HOL-Library.Sublist"
begin

text \<open>
  How what the agent tells reaches a reader on the other end of the pipe: the loops of
  \<^verbatim>\<open>crates/rpc/src/handler.rs\<close> that make one call after the other (\<^verbatim>\<open>forward\<close> for the statuses
  of a service, \<^verbatim>\<open>tell\<close> for process events) and the listeners of \<^verbatim>\<open>src/remote/mod.rs\<close> that
  take the calls (\<^verbatim>\<open>WatcherImpl\<close>, \<^verbatim>\<open>ProcessEventListenerImpl\<close>, \<^verbatim>\<open>deliver\<close> and \<^verbatim>\<open>take\<close>). The two
  sides, the source and the reader move one at a time, in any order.
\<close>

section \<open>Calls\<close>

text \<open>What a listener is called with: the next item, or that there are no more.\<close>
datatype 'a call = Item 'a | SourceEnded

text \<open>What a delivery hands the reader: an item, one that could not be read, or that the agent stopped.\<close>
datatype 'b delivery = Pushed 'b | Unreadable | AgentStopped

text \<open>A call is made, taken but not answered, or answered well or with a failure.\<close>
datatype 'a in_flight = NoCall | Made "'a call" | Taken | Answered bool

datatype pump = Looks | AwaitsAnswer | TellsEnd | PumpOver

text \<open>
  The source and whether it ended, the loop and its call, the channel to the reader and
  what the reader has read; the watch is released when the reader drops it.
\<close>
record ('a, 'b) line =
  ln_source :: "'a list"
  ln_ended :: bool
  ln_pump :: pump
  ln_call :: "'a in_flight"
  ln_channel :: "'b delivery list"
  ln_read :: "'b delivery list"
  ln_released :: bool

definition line_new :: "'a list \<Rightarrow> ('a, 'b) line" where
  "line_new held = \<lparr>ln_source = held, ln_ended = False, ln_pump = Looks, ln_call = NoCall, ln_channel = [], ln_read = [],
    ln_released = False\<rparr>"

text \<open>
  A move of the agent's loop, when it has one. The release is looked at first; the last call
  is not given up for it.
\<close>
definition pump_step :: "('a, 'b) line \<Rightarrow> ('a, 'b) line" where
  "pump_step l =
    (case ln_pump l of
       Looks \<Rightarrow>
         if ln_released l then l\<lparr>ln_pump := PumpOver\<rparr>
         else (case ln_source l of
                 item # items \<Rightarrow> l\<lparr>ln_source := items, ln_pump := AwaitsAnswer, ln_call := Made (Item item)\<rparr>
               | [] \<Rightarrow> if ln_ended l then l\<lparr>ln_pump := TellsEnd, ln_call := Made SourceEnded\<rparr> else l)
     | AwaitsAnswer \<Rightarrow>
         if ln_released l then l\<lparr>ln_pump := PumpOver\<rparr>
         else (case ln_call l of
                 Answered ok \<Rightarrow> l\<lparr>ln_pump := (if ok then Looks else PumpOver), ln_call := NoCall\<rparr>
               | _ \<Rightarrow> l)
     | TellsEnd \<Rightarrow> (case ln_call l of Answered _ \<Rightarrow> l\<lparr>ln_pump := PumpOver, ln_call := NoCall\<rparr> | _ \<Rightarrow> l)
     | PumpOver \<Rightarrow> l)"

text \<open>\<^verbatim>\<open>deliver\<close>: into the channel of a reader that is still there; it waits until it is taken.\<close>
definition line_deliver :: "'b delivery \<Rightarrow> ('a, 'b) line \<Rightarrow> ('a, 'b) line" where
  "line_deliver d l =
    (if ln_released l then l\<lparr>ln_call := Answered False\<rparr>
     else l\<lparr>ln_channel := ln_channel l @ [d], ln_call := Taken\<rparr>)"

text \<open>The listener of process events takes a call.\<close>
definition events_listener :: "('a \<Rightarrow> 'b option) \<Rightarrow> ('a, 'b) line \<Rightarrow> ('a, 'b) line" where
  "events_listener decode l =
    (case ln_call l of
       Made (Item item) \<Rightarrow> line_deliver (case decode item of Some v \<Rightarrow> Pushed v | None \<Rightarrow> Unreadable) l
     | Made SourceEnded \<Rightarrow> line_deliver AgentStopped l
     | _ \<Rightarrow> l)"

text \<open>
  The reader takes what is next (\<^verbatim>\<open>take\<close>), which answers the call that delivered it: with a
  failure where the item could not be read.
\<close>
definition reader_takes :: "('a, 'b) line \<Rightarrow> ('a, 'b) line" where
  "reader_takes l =
    (case ln_channel l of
       [] \<Rightarrow> l
     | d # ds \<Rightarrow>
         l\<lparr>ln_channel := ds, ln_read := ln_read l @ [d], ln_call := Answered (d \<noteq> Unreadable)\<rparr>)"

text \<open>The reader goes: what was delivered is dropped with the channel, and its call fails.\<close>
definition reader_drops :: "('a, 'b) line \<Rightarrow> ('a, 'b) line" where
  "reader_drops l =
    l\<lparr>ln_released := True, ln_channel := [], ln_call := (case ln_call l of Taken \<Rightarrow> Answered False | c \<Rightarrow> c)\<rparr>"

text \<open>Every order in which they move, with every item the source ever had.\<close>
inductive line_reach :: "('a \<Rightarrow> 'b option) \<Rightarrow> 'a list \<Rightarrow> ('a, 'b) line \<Rightarrow> bool" for decode where
  begins: "line_reach decode held (line_new held)"
| tells: "line_reach decode items l \<Longrightarrow> \<not> ln_ended l \<Longrightarrow> line_reach decode (items @ [item]) (l\<lparr>ln_source := ln_source l @ [item]\<rparr>)"
| ends: "line_reach decode items l \<Longrightarrow> line_reach decode items (l\<lparr>ln_ended := True\<rparr>)"
| pumps: "line_reach decode items l \<Longrightarrow> line_reach decode items (pump_step l)"
| listens: "line_reach decode items l \<Longrightarrow> line_reach decode items (events_listener decode l)"
| reads: "line_reach decode items l \<Longrightarrow> \<not> ln_released l \<Longrightarrow> line_reach decode items (reader_takes l)"
| drops: "line_reach decode items l \<Longrightarrow> line_reach decode items (reader_drops l)"

section \<open>What is read is what was told\<close>

definition delivered :: "('a \<Rightarrow> 'b option) \<Rightarrow> 'a list \<Rightarrow> 'b delivery list" where
  "delivered decode items = map (\<lambda>item. case decode item of Some v \<Rightarrow> Pushed v | None \<Rightarrow> Unreadable) items"

definition calling :: "'a in_flight \<Rightarrow> 'a list" where
  "calling c = (case c of Made (Item item) \<Rightarrow> [item] | _ \<Rightarrow> [])"

lemma calling_simps [simp]:
  "calling NoCall = []" "calling Taken = []" "calling (Answered ok) = []" "calling (Made SourceEnded) = []"
  "calling (Made (Item item)) = [item]"
  by (simp_all add: calling_def)

lemma delivered_simps [simp]:
  "delivered decode [] = []" "delivered decode (xs @ ys) = delivered decode xs @ delivered decode ys"
  "length (delivered decode xs) = length xs" "AgentStopped \<notin> set (delivered decode xs)"
  by (auto simp: delivered_def split: option.splits)

lemma delivered_one [simp]: "delivered decode [item] = [case decode item of Some v \<Rightarrow> Pushed v | None \<Rightarrow> Unreadable]"
  by (simp add: delivered_def)

text \<open>Where the loop and its call can be.\<close>
definition line_shape :: "('a, 'b) line \<Rightarrow> bool" where
  "line_shape l \<longleftrightarrow>
    length (ln_channel l) \<le> 1 \<and> (ln_channel l \<noteq> [] \<longrightarrow> ln_call l = Taken \<and> \<not> ln_released l) \<and>
    (ln_pump l = Looks \<longrightarrow> ln_call l = NoCall) \<and>
    (ln_call l = Made SourceEnded \<longrightarrow> ln_pump l = TellsEnd) \<and>
    (ln_pump l = TellsEnd \<longrightarrow> ln_ended l \<and> ln_source l = [] \<and> calling (ln_call l) = []) \<and>
    (AgentStopped \<in> set (ln_read l @ ln_channel l) \<longrightarrow>
       ln_ended l \<and> ln_pump l \<in> {TellsEnd, PumpOver} \<and> ln_call l \<in> {NoCall, Taken, Answered True, Answered False})"

text \<open>
  The items are those delivered, the one of a call not yet taken and those left in the
  source; of a watch that was released the delivered ones are the first of them.
\<close>
definition line_tells :: "('a \<Rightarrow> 'b option) \<Rightarrow> 'a list \<Rightarrow> ('a, 'b) line \<Rightarrow> 'a list \<Rightarrow> 'b delivery list \<Rightarrow> bool" where
  "line_tells decode items l told stop \<longleftrightarrow>
    ln_read l @ ln_channel l = delivered decode told @ stop \<and>
    (stop = [] \<or> stop = [AgentStopped] \<and> told = items) \<and>
    (if ln_released l then prefix told items else items = told @ calling (ln_call l) @ ln_source l)"

definition line_ok :: "('a \<Rightarrow> 'b option) \<Rightarrow> 'a list \<Rightarrow> ('a, 'b) line \<Rightarrow> bool" where
  "line_ok decode items l \<longleftrightarrow> line_shape l \<and> (\<exists>told stop. line_tells decode items l told stop)"

lemma line_okE:
  assumes "line_ok decode items l"
  obtains told stop where "line_shape l" "line_tells decode items l told stop"
    "stop \<noteq> [] \<longrightarrow> AgentStopped \<in> set (ln_read l @ ln_channel l)"
proof -
  obtain told stop where l: "line_shape l" "line_tells decode items l told stop" using assms by (auto simp: line_ok_def)
  have eq: "ln_read l @ ln_channel l = delivered decode told @ stop" and stop: "stop = [] \<or> stop = [AgentStopped]"
    using l(2) by (auto simp: line_tells_def)
  have "stop \<noteq> [] \<longrightarrow> AgentStopped \<in> set (ln_read l @ ln_channel l)"
    unfolding eq using stop by auto
  then show ?thesis by (rule that [OF l])
qed

text \<open>The promise of \<^const>\<open>line_tells\<close> looks at no more than this of a line.\<close>
lemma line_tells_kept:
  assumes "line_tells decode items l told stop"
    "ln_read l' @ ln_channel l' = ln_read l @ ln_channel l" "ln_released l' = ln_released l"
    "calling (ln_call l') @ ln_source l' = calling (ln_call l) @ ln_source l"
  shows "line_tells decode items l' told stop"
  using assms(1) unfolding line_tells_def assms(2-4) .

lemma pump_ok:
  assumes "line_ok decode items l"
  shows "line_ok decode items (pump_step l)"
proof -
  obtain told stop where l: "line_shape l" "line_tells decode items l told stop" using assms by (rule line_okE)
  have "calling (ln_call (pump_step l)) @ ln_source (pump_step l) = calling (ln_call l) @ ln_source l"
    using l(1) by (cases "ln_pump l"; cases "ln_call l"; cases "ln_source l") (simp_all add: line_shape_def pump_step_def)
  then have "line_tells decode items (pump_step l) told stop"
    by (rule line_tells_kept [OF l(2), rotated 2]) (simp_all add: pump_step_def split: pump.split list.split in_flight.split)
  moreover have "line_shape (pump_step l)"
    using l(1) by (cases "ln_pump l"; cases "ln_call l"; cases "ln_source l") (auto simp: line_shape_def pump_step_def)
  ultimately show ?thesis by (auto simp: line_ok_def)
qed

lemma listens_ok:
  assumes "line_ok decode items l"
  shows "line_ok decode items (events_listener decode l)"
proof -
  obtain told stop where l: "line_shape l" "line_tells decode items l told stop"
    and stopped: "stop \<noteq> [] \<longrightarrow> AgentStopped \<in> set (ln_read l @ ln_channel l)" using assms by (rule line_okE)
  consider (item) item where "ln_call l = Made (Item item)" "\<not> ln_released l" | (ended) "ln_call l = Made SourceEnded" "\<not> ln_released l"
    | (dropped) c where "ln_call l = Made c" "ln_released l" | (still) "\<forall>c. ln_call l \<noteq> Made c" by (metis call.exhaust)
  then show ?thesis
  proof cases
    case item
    define d where "d = (case decode item of Some v \<Rightarrow> Pushed v | None \<Rightarrow> Unreadable)"
    have l': "events_listener decode l = l\<lparr>ln_channel := ln_channel l @ [d], ln_call := Taken\<rparr>"
      using item by (simp add: events_listener_def line_deliver_def d_def)
    have none: "stop = []" "ln_channel l = []" "AgentStopped \<notin> set (ln_read l)"
      using l(1) stopped item by (auto simp: line_shape_def)
    have "d \<noteq> AgentStopped" by (simp add: d_def split: option.split)
    then have "line_shape (l\<lparr>ln_channel := ln_channel l @ [d], ln_call := Taken\<rparr>)"
      using l(1) none item by (simp add: line_shape_def)
    moreover have "line_tells decode items (l\<lparr>ln_channel := ln_channel l @ [d], ln_call := Taken\<rparr>) (told @ [item]) []"
      using l(2) item none by (simp add: line_tells_def d_def)
    ultimately show ?thesis unfolding l' line_ok_def by blast
  next
    case ended
    have l': "events_listener decode l = l\<lparr>ln_channel := ln_channel l @ [AgentStopped], ln_call := Taken\<rparr>"
      using ended by (simp add: events_listener_def line_deliver_def)
    have none: "stop = []" "ln_channel l = []" "ln_pump l = TellsEnd" "ln_source l = []" "ln_ended l"
      using l(1) stopped ended by (auto simp: line_shape_def)
    have "line_shape (l\<lparr>ln_channel := ln_channel l @ [AgentStopped], ln_call := Taken\<rparr>)"
      using none ended by (simp add: line_shape_def)
    moreover have "line_tells decode items (l\<lparr>ln_channel := ln_channel l @ [AgentStopped], ln_call := Taken\<rparr>) told [AgentStopped]"
      using l(2) ended none by (simp add: line_tells_def)
    ultimately show ?thesis unfolding l' line_ok_def by blast
  next
    case dropped
    have l': "events_listener decode l = l\<lparr>ln_call := Answered False\<rparr>"
      using dropped by (cases c) (simp_all add: events_listener_def line_deliver_def)
    have "line_shape (l\<lparr>ln_call := Answered False\<rparr>)" using l(1) dropped by (simp add: line_shape_def)
    moreover have "line_tells decode items (l\<lparr>ln_call := Answered False\<rparr>) told stop"
      using l(2) dropped by (simp add: line_tells_def)
    ultimately show ?thesis unfolding l' line_ok_def by blast
  next
    case still
    then have "events_listener decode l = l" by (cases "ln_call l") (simp_all add: events_listener_def)
    then show ?thesis using assms by simp
  qed
qed

lemma reads_ok:
  assumes "line_ok decode items l"
  shows "line_ok decode items (reader_takes l)"
proof (cases "ln_channel l")
  case Nil
  then show ?thesis using assms by (simp add: reader_takes_def)
next
  case (Cons d ds)
  obtain told stop where l: "line_shape l" "line_tells decode items l told stop" using assms by (rule line_okE)
  have l': "reader_takes l = l\<lparr>ln_channel := ds, ln_read := ln_read l @ [d], ln_call := Answered (d \<noteq> Unreadable)\<rparr>"
    by (simp add: reader_takes_def Cons)
  have taken: "ln_call l = Taken" "ds = []" using l(1) Cons by (auto simp: line_shape_def)
  have "line_tells decode items (reader_takes l) told stop"
    by (rule line_tells_kept [OF l(2)]) (simp_all add: l' Cons taken)
  moreover have "line_shape (reader_takes l)" using l(1) by (cases "ln_pump l") (simp_all add: line_shape_def l' Cons taken)
  ultimately show ?thesis unfolding line_ok_def by blast
qed

lemma drops_ok:
  assumes "line_ok decode items l"
  shows "line_ok decode items (reader_drops l)"
proof -
  obtain told stop where l: "line_shape l" "line_tells decode items l told stop" using assms by (rule line_okE)
  have shape: "line_shape (reader_drops l)"
    using l(1) by (cases "ln_call l"; cases "ln_pump l") (simp_all add: line_shape_def reader_drops_def)
  have first: "prefix told items" using l(2) by (auto simp: line_tells_def split: if_splits)
  show ?thesis
  proof (cases "ln_channel l")
    case Nil
    then have "line_tells decode items (reader_drops l) told stop"
      using l(2) first by (simp add: line_tells_def reader_drops_def)
    then show ?thesis using shape by (auto simp: line_ok_def)
  next
    case (Cons d ds)
    then have d: "ds = []" using l(1) by (simp add: line_shape_def)
    have tells: "ln_read l @ [d] = delivered decode told @ stop" "stop = [] \<or> stop = [AgentStopped]"
      using l(2) by (auto simp: line_tells_def Cons d)
    have "\<exists>told'. line_tells decode items (reader_drops l) told' []"
    proof (cases stop)
      case Nil
      then have "told \<noteq> []" using tells(1) by auto
      then have "told = butlast told @ [last told]" by simp
      then have "delivered decode told = delivered decode (butlast told) @ delivered decode [last told]"
        by (metis delivered_simps(2))
      then have "ln_read l = delivered decode (butlast told)" using tells(1) Nil by simp
      then show ?thesis using first prefix_order.trans [OF prefixeq_butlast first]
        by (intro exI [of _ "butlast told"]) (simp add: line_tells_def reader_drops_def)
    next
      case (Cons s ss)
      then have "ln_read l = delivered decode told" using tells by simp
      then show ?thesis using first by (intro exI [of _ told]) (simp add: line_tells_def reader_drops_def)
    qed
    then show ?thesis using shape by (auto simp: line_ok_def)
  qed
qed

lemma line_reach_ok: "line_reach decode items l \<Longrightarrow> line_ok decode items l"
proof (induction rule: line_reach.induct)
  case (begins held)
  have "line_tells decode held (line_new held) [] []" by (simp add: line_tells_def line_new_def)
  then show ?case by (auto simp: line_ok_def line_shape_def line_new_def)
next
  case (tells items l item)
  obtain told stop where l: "line_shape l" "line_tells decode items l told stop"
    and stopped: "stop \<noteq> [] \<longrightarrow> AgentStopped \<in> set (ln_read l @ ln_channel l)" using tells.IH by (rule line_okE)
  have "stop = []" using l(1) stopped tells.hyps(2) by (auto simp: line_shape_def)
  then have "line_tells decode (items @ [item]) (l\<lparr>ln_source := ln_source l @ [item]\<rparr>) told []"
    using l(2) by (auto simp: line_tells_def)
  then show ?case using l(1) tells.hyps(2) by (auto simp: line_ok_def line_shape_def)
next
  case (ends items l)
  obtain told stop where l: "line_shape l" "line_tells decode items l told stop" using ends.IH by (rule line_okE)
  have "line_tells decode items (l\<lparr>ln_ended := True\<rparr>) told stop" by (rule line_tells_kept [OF l(2)]) simp_all
  moreover have "line_shape (l\<lparr>ln_ended := True\<rparr>)" using l(1) by (simp add: line_shape_def)
  ultimately show ?case unfolding line_ok_def by blast
qed (simp_all add: pump_ok listens_ok reads_ok drops_ok)

lemma read_in_order:
  assumes "line_reach decode items l"
  shows "(\<exists>told. prefix told items \<and>
      (ln_read l = delivered decode told \<or> ln_read l = delivered decode told @ [AgentStopped] \<and> told = items \<and> ln_ended l)) \<and>
    length (ln_channel l) \<le> 1 \<and>
    (\<not> ln_released l \<longrightarrow> (\<exists>told. items = told @ calling (ln_call l) @ ln_source l \<and>
      filter (\<lambda>d. d \<noteq> AgentStopped) (ln_read l @ ln_channel l) = delivered decode told))"
proof -
  have ok: "line_ok decode items l" by (rule line_reach_ok [OF assms])
  obtain told stop where l: "line_shape l" "line_tells decode items l told stop"
    and stopped: "stop \<noteq> [] \<longrightarrow> AgentStopped \<in> set (ln_read l @ ln_channel l)" using ok by (rule line_okE)
  have "line_ok decode items (reader_drops l)" by (rule drops_ok [OF ok])
  then obtain told' stop' where r: "line_tells decode items (reader_drops l) told' stop'"
    and stopped': "stop' \<noteq> [] \<longrightarrow> AgentStopped \<in> set (ln_read (reader_drops l) @ ln_channel (reader_drops l))"
    by (rule line_okE)
  have read: "ln_read l = delivered decode told' @ stop'" "prefix told' items" "stop' = [] \<or> stop' = [AgentStopped] \<and> told' = items"
    using r by (auto simp: line_tells_def reader_drops_def)
  have "stop' \<noteq> [] \<longrightarrow> ln_ended l" using stopped' l(1) by (auto simp: line_shape_def reader_drops_def)
  then have "\<exists>told. prefix told items \<and>
      (ln_read l = delivered decode told \<or> ln_read l = delivered decode told @ [AgentStopped] \<and> told = items \<and> ln_ended l)"
    using read by (intro exI [of _ told']) auto
  moreover have "length (ln_channel l) \<le> 1" using l(1) by (simp add: line_shape_def)
  moreover have "\<exists>told. items = told @ calling (ln_call l) @ ln_source l \<and>
      filter (\<lambda>d. d \<noteq> AgentStopped) (ln_read l @ ln_channel l) = delivered decode told" if "\<not> ln_released l"
  proof (intro exI conjI)
    show "items = told @ calling (ln_call l) @ ln_source l" using l(2) that by (simp add: line_tells_def)
    have "filter (\<lambda>d. d \<noteq> AgentStopped) (delivered decode told) = delivered decode told"
      by (rule filter_True) (metis delivered_simps(4))
    then show "filter (\<lambda>d. d \<noteq> AgentStopped) (ln_read l @ ln_channel l) = delivered decode told"
      using l(2) by (auto simp: line_tells_def) 
  qed
  ultimately show ?thesis by blast
qed

section \<open>What is carried over the wire\<close>

text \<open>
  What the two sides of a line rely on of the wire: an item that was encoded is read as it
  was, and none is unreadable.
\<close>
locale carried =
  fixes encode :: "'v \<Rightarrow> 'w" and decode :: "'w \<Rightarrow> 'v option"
  assumes carries: "decode (encode v) = Some v"
begin

lemma delivered_encoded: "delivered decode (map encode vs) = map Pushed vs"
  by (simp add: delivered_def carries)

lemma first_encoded:
  assumes "prefix told (map encode vs)"
  obtains first where "prefix first vs" "told = map encode first"
proof -
  have "told = take (length told) (map encode vs)" using assms by (auto simp: prefix_def)
  also have "\<dots> = map encode (take (length told) vs)" by (simp add: take_map)
  finally show ?thesis using that [OF take_is_prefix] by blast
qed

lemma read_as_told:
  assumes "line_reach decode (map encode vs) l"
  shows "\<exists>told. prefix told vs \<and>
    (ln_read l = map Pushed told \<or> ln_read l = map Pushed told @ [AgentStopped] \<and> told = vs \<and> ln_ended l)"
proof -
  obtain told where told: "prefix told (map encode vs)"
    "ln_read l = delivered decode told \<or> ln_read l = delivered decode told @ [AgentStopped] \<and> told = map encode vs \<and> ln_ended l"
    using read_in_order [OF assms] by blast
  obtain first where first: "prefix first vs" "told = map encode first" using told(1) by (rule first_encoded)
  from told(2) show ?thesis
  proof (elim disjE conjE)
    assume "ln_read l = delivered decode told"
    then show ?thesis using first by (auto simp: delivered_encoded)
  next
    assume "ln_read l = delivered decode told @ [AgentStopped]" "told = map encode vs" "ln_ended l"
    then show ?thesis by (auto simp: delivered_encoded)
  qed
qed

lemma none_lost:
  assumes "line_reach decode (map encode vs) l" "\<not> ln_released l"
  shows "\<exists>told later. vs = told @ later \<and> map encode later = calling (ln_call l) @ ln_source l \<and>
    filter (\<lambda>d. d \<noteq> AgentStopped) (ln_read l @ ln_channel l) = map Pushed told"
proof -
  obtain told where told: "map encode vs = told @ calling (ln_call l) @ ln_source l"
    "filter (\<lambda>d. d \<noteq> AgentStopped) (ln_read l @ ln_channel l) = delivered decode told"
    using read_in_order [OF assms(1)] assms(2) by blast
  obtain first later where "vs = first @ later" "told = map encode first" "map encode later = calling (ln_call l) @ ln_source l"
    using told(1) unfolding map_eq_append_conv [of encode vs told] by metis
  then show ?thesis using told(2) by (intro exI [of _ first] exI [of _ later]) (simp add: delivered_encoded)
qed

end

text \<open>A batch of process events, as the listener reads it.\<close>
definition read_event_batch :: "wire_event_batch \<Rightarrow> process_event_batch option" where
  "read_event_batch w = (case decode_event_batch w of Inr batch \<Rightarrow> Some batch | Inl _ \<Rightarrow> None)"

interpretation batches: carried encode_event_batch read_event_batch
  by unfold_locales (simp add: read_event_batch_def)

text \<open>
  C39 However the agent, the listener, the reader and the source come in between one another:
  what the reader has read are the first items told, each once and in order, and the agent's
  end only after all of them; the agent is never more than one item ahead of the reader; and
  while the reader is there no item is lost on the way.
\<close>
theorem what_is_read_is_what_was_told:
  assumes "line_reach read_event_batch (map encode_event_batch batches) l"
  shows "(\<exists>told. prefix told batches \<and>
      (ln_read l = map Pushed told \<or> ln_read l = map Pushed told @ [AgentStopped] \<and> told = batches \<and> ln_ended l)) \<and>
    length (ln_channel l) \<le> 1 \<and>
    (\<not> ln_released l \<longrightarrow> (\<exists>told later. batches = told @ later \<and>
      map encode_event_batch later = calling (ln_call l) @ ln_source l \<and>
      filter (\<lambda>d. d \<noteq> AgentStopped) (ln_read l @ ln_channel l) = map Pushed told))"
  using batches.read_as_told [OF assms] read_in_order [OF assms] batches.none_lost [OF assms] by blast

definition a_batch :: "u32 \<Rightarrow> process_event_batch" where
  "a_batch lost = \<lparr>eb_history_from = 0, eb_events = [], eb_lost = lost\<rparr>"

definition two_read :: "(wire_event_batch, process_event_batch) line" where
  "two_read = reader_takes (events_listener read_event_batch (pump_step (pump_step (reader_takes
     (events_listener read_event_batch (pump_step (line_new (map encode_event_batch [a_batch 1, a_batch 2]))))))))"

lemma what_is_read_is_what_was_told_witness:
  "ln_read two_read = [Pushed (a_batch 1), Pushed (a_batch 2)] \<and> length (ln_channel two_read) \<le> 1"
proof -
  have "line_reach read_event_batch (map encode_event_batch [a_batch 1, a_batch 2]) two_read"
    unfolding two_read_def
    by (intro line_reach.reads line_reach.listens line_reach.pumps line_reach.begins)
      (simp_all add: pump_step_def events_listener_def reader_takes_def line_deliver_def line_new_def)
  moreover have "ln_read two_read = [Pushed (a_batch 1), Pushed (a_batch 2)]"
    by (simp add: two_read_def pump_step_def events_listener_def reader_takes_def line_deliver_def line_new_def
        read_event_batch_def)
  ultimately show ?thesis using what_is_read_is_what_was_told by blast
qed

end
