(* ===== verification/Versions.thy ===== *)
theory Versions
  imports Sample
begin

text \<open>
  What is asked of an agent of another version: the tests of \<^verbatim>\<open>src/wire/mod.rs\<close> and the calls of
  \<^verbatim>\<open>Remote\<close> in \<^verbatim>\<open>src/remote/mod.rs\<close> that are refused, or narrowed, before anything is sent.
\<close>

record version =
  vn_major :: u32
  vn_minor :: u32
  vn_patch :: u32

text \<open>\<^verbatim>\<open>(v.major, v.minor) >= (major, minor)\<close>\<close>
definition speaks :: "u32 \<Rightarrow> u32 \<Rightarrow> version \<Rightarrow> bool" where
  "speaks major minor v \<longleftrightarrow> vn_major v > major \<or> (vn_major v = major \<and> vn_minor v \<ge> minor)"

definition takes_gaps :: "version option \<Rightarrow> bool" where
  "takes_gaps peer = (case peer of Some v \<Rightarrow> speaks 2 1 v | None \<Rightarrow> False)"

definition takes_watch :: "version \<Rightarrow> bool" where "takes_watch = speaks 2 2"
definition takes_process_events :: "version \<Rightarrow> bool" where "takes_process_events = speaks 2 8"
definition takes_temperatures :: "version \<Rightarrow> bool" where "takes_temperatures = speaks 2 11"
definition takes_vm_working_set :: "version \<Rightarrow> bool" where "takes_vm_working_set = speaks 2 13"

definition known_to :: "version \<Rightarrow> metric_spec \<Rightarrow> metric_spec" where
  "known_to agent spec =
    (let spec = (if \<not> takes_vm_working_set agent then spec\<lparr>ms_processes := ms_processes spec - {VmWorkingSet}\<rparr> else spec);
         spec = (if \<not> takes_temperatures agent then spec\<lparr>ms_machine := ms_machine spec - {M_Temperatures}\<rparr> else spec);
         spec = (if \<not> speaks 2 6 agent then spec\<lparr>ms_processes := ms_processes spec - {ExclusiveMapped}\<rparr> else spec)
     in spec)"

section \<open>Requests\<close>

datatype remote_request =
  AskPing | AskSnapshot | AskSubscribe metric_spec | AskWatchService string | AskWatchAgent metric_spec | AskProcessEvents

text \<open>A call, by the request it sends; None is a call refused before anything is sent.\<close>
definition remote_subscribe :: "version \<Rightarrow> metric_spec \<Rightarrow> remote_request option" where
  "remote_subscribe agent spec = Some (AskSubscribe (known_to agent spec))"

definition remote_watch :: "version \<Rightarrow> metric_spec \<Rightarrow> remote_request option" where
  "remote_watch agent spec = (if \<not> takes_watch agent then None else Some (AskWatchAgent (known_to agent spec)))"

definition remote_watch_process_events :: "version \<Rightarrow> remote_request option" where
  "remote_watch_process_events agent = (if \<not> takes_process_events agent then None else Some AskProcessEvents)"

text \<open>The version a request, or a counter in it, came with.\<close>
fun spec_came :: "metric_spec \<Rightarrow> version \<Rightarrow> bool" where
  "spec_came spec v \<longleftrightarrow>
    (VmWorkingSet \<in> ms_processes spec \<longrightarrow> speaks 2 13 v) \<and> (ExclusiveMapped \<in> ms_processes spec \<longrightarrow> speaks 2 6 v) \<and>
    (M_Temperatures \<in> ms_machine spec \<longrightarrow> speaks 2 11 v)"

fun request_came :: "remote_request \<Rightarrow> version \<Rightarrow> bool" where
  "request_came (AskSubscribe spec) v \<longleftrightarrow> spec_came spec v"
| "request_came (AskWatchAgent spec) v \<longleftrightarrow> spec_came spec v \<and> speaks 2 2 v"
| "request_came AskProcessEvents v \<longleftrightarrow> speaks 2 8 v"
| "request_came _ v = True"

lemma speaks_trans: "speaks 2 b v \<Longrightarrow> a \<le> b \<Longrightarrow> speaks 2 a v"
  by (auto simp: speaks_def)

lemma known_to_came: "spec_came (known_to v spec) v"
  by (auto simp: known_to_def Let_def takes_vm_working_set_def takes_temperatures_def)

text \<open>An agent is asked for nothing that came after it.\<close>
lemma asked_what_it_knows:
  "remote_subscribe v spec = Some r \<or> remote_watch v spec = Some r \<or> remote_watch_process_events v = Some r \<Longrightarrow> request_came r v"
  using known_to_came [of v spec]
  by (auto simp: remote_subscribe_def remote_watch_def remote_watch_process_events_def takes_watch_def
      takes_process_events_def split: if_splits)

text \<open>What it does know is asked of it as it was asked for, at the same interval; one new enough is asked all of it.\<close>
lemma the_rest_is_asked:
  "ms_interval (known_to v spec) = ms_interval spec"
  "ms_processes (known_to v spec) \<subseteq> ms_processes spec" "ms_processes spec - {VmWorkingSet, ExclusiveMapped} \<subseteq> ms_processes (known_to v spec)"
  "ms_machine (known_to v spec) \<subseteq> ms_machine spec" "ms_machine spec - {M_Temperatures} \<subseteq> ms_machine (known_to v spec)"
  "speaks 2 13 v \<Longrightarrow> known_to v spec = spec"
  using speaks_trans [of 13 v 11] speaks_trans [of 13 v 6]
  by (auto simp: known_to_def Let_def takes_vm_working_set_def takes_temperatures_def)

text \<open>A spec asked of an older agent is covered by what was asked for.\<close>
lemma known_to_covered: "covers spec (known_to v spec)"
  by (auto simp: covers_def the_rest_is_asked)

end
