(* ===== verification/Spec2Isabelle.thy ===== *)
theory Spec2Isabelle
  imports Schedule Traffic Process_Events Feed Sampler Watch Wire_Sample Wire_Events Remote Router Probes Prober Supervisor Vm_Memory Images Gpu Services Inventory Lifecycle Topology Machine_Probe Hosts Service_Watch Http Data_Dir Events_Watch Resolve Streaming Versions
begin

text \<open>
  A verification development for uniproc-windows-agent, the part of uniproc that
  runs on a Windows machine: it tells which processes and services there are, how
  they run and what they use, at the rate a subscriber asks for, to clients in its
  own process and over a named pipe.

  \<^bold>\<open>The program's parts.\<close>

  The core (\<^verbatim>\<open>crates/core\<close>) has one thread that ticks. A tick drains what the
  kernel's trace sessions brought (\<^verbatim>\<open>etw/router.rs\<close>, \<^verbatim>\<open>sink.rs\<close>), applies the
  verdicts on images, and when the schedule (\<^verbatim>\<open>schedule.rs\<close>) says that some
  interval is due, reads the list of processes from the kernel (\<^verbatim>\<open>snapshot.rs\<close>),
  reconciles the table of processes with it (\<^verbatim>\<open>state/process.rs\<close>), asks the processes
  through the handles it keeps (\<^verbatim>\<open>probes.rs\<close>) and builds a sample (\<^verbatim>\<open>sample.rs\<close>).
  What changed goes on as a diff. Beside it a thread reads starts and exits of
  processes (\<^verbatim>\<open>process_events/\<close>).

  The agent (\<^verbatim>\<open>src/\<close>) applies the diffs to a picture and publishes it (\<^verbatim>\<open>feed.rs\<close>), keeps
  the subscribers and sets the core's demand (\<^verbatim>\<open>sampler.rs\<close>), tells what moved between
  two publications (\<^verbatim>\<open>watch.rs\<close>), and speaks a wire format (\<^verbatim>\<open>wire/\<close>) with remote clients
  (\<^verbatim>\<open>crates/rpc\<close>, \<^verbatim>\<open>remote/\<close>). It lists the machine's services and follows those someone
  asks about (\<^verbatim>\<open>scm/\<close>), and acts on processes and services (\<^verbatim>\<open>commands/\<close>, \<^verbatim>\<open>scm/control.rs\<close>).
  It runs inside an app or as a service (\<^verbatim>\<open>crates/service\<close>), which also shows its state to
  people over HTTP (\<^verbatim>\<open>crates/http\<close>).

  \<^bold>\<open>The theories.\<close> Each names in its first text the file it translates; a definition has
  the name of the function or type it translates, with the component's name before it
  where two would clash, and a record's fields have the names of the struct's, with a
  prefix of their own.

  \<^item> \<open>Prelude\<close>: the integers by their Rust names (words: they wrap), times as
    nanoseconds, hash maps as association lists with distinct keys, shared lemmas.
    \<open>Ordered_Map\<close> is \<^verbatim>\<open>BTreeMap\<close>, \<open>Change_Log\<close> the change lists behind a diff.
  \<^item> \<open>Model\<close> (\<^verbatim>\<open>model.rs\<close>), \<open>Events\<close> (\<^verbatim>\<open>state/events.rs\<close>, \<^verbatim>\<open>report.rs\<close>), \<open>Api\<close> (\<^verbatim>\<open>src/api.rs\<close>):
    the data.
  \<^item> \<open>Snapshot\<close>: the walk over the kernel's buffer, with every read it makes. Rows, threads,
    extensions and tails lie within what the kernel filled; only the header of an entry cut
    off at its end is read past it. Every process of a well-chained buffer is a row, and the
    read ends once the list grows by less than the headroom.
  \<^item> \<open>Sample\<close>, \<open>Schedule\<close>: what is wanted and when it is due. A sample taken for a union
    serves each of those who asked; a take samples when somebody asks, and on time.
  \<^item> \<open>Process_Table\<close>: listed processes, their images and what changed. Reconciling is
    exact, images are counted right, whoever applies the diffs holds the table.
  \<^item> \<open>Traffic\<close>, \<open>Router\<close>: bytes of network and disk events from the kernel's record through
    the batches and the bounded channel to the totals. No byte goes missing uncounted.
  \<^item> \<open>Probes\<close>: handles and turns. Within a round every listed process is asked again.
    \<open>Prober\<close>: the worker for probes too slow for a tick. What it tells stands for a
    round, and a slow one may keep the others waiting for good.
    \<open>Vm_Memory\<close>: what a host of virtual machines keeps, each machine's file counted once.
  \<^item> \<open>Text\<close>, \<open>Process_Read\<close>, \<open>Images\<close>: what a process tells when it shows up, and which program
    it runs. A verdict told was looked up for the path with the same size, time, file
    id and place in the journal, in this run or an earlier one, and an image is Microsoft's
    only by a chain or a package that was then. Nothing is assumed of what a stamp tells apart.
  \<^item> \<open>Gpu\<close>: adapters and what each process uses of them. An engine's total is what its
    processes ran as long as no reading of one fails, and counts twice after one that does.
  \<^item> \<open>Hosts\<close>: the walks over a process's working set, modules and handles by which the worker
    tells what it holds alone and whether it runs a machine.
  \<^item> \<open>Topology\<close>, \<open>Machine_Probe\<close>: the machine's processors and caches, its counters,
    adapters and temperatures. A sample holds what was asked; a topology buffer counts only
    when it is records from end to end; a temperature told is a fresh one.
  \<^item> \<open>Data_Dir\<close>: the directory of the agent's files. What it opens there is its own.
  \<^item> \<open>Supervisor\<close>: the tick that puts these together. Its diffs rebuild the table, its
    samples have a row for each process listed and what each subscriber asked for, of the
    processes, the machine and the GPUs, and a list that cannot be read leaves the picture
    as it was.
  \<^item> \<open>History\<close>, \<open>Assembler\<close>, \<open>Process_Events\<close>: starts put together from two sources, let out
    in order, held within bounds and read by watchers who are told how many they missed since the
    oldest event held when they began. \<open>Events_Watch\<close> is a watcher's waiting, step by step
    beside the thread: over any \<^verbatim>\<open>Notify\<close> whose notification ends the waits begun before it,
    it sleeps through nothing and ends once everything was read. \<open>Resolve\<close> is what is asked beside the events.
  \<^item> \<open>Feed\<close>, \<open>Sampler\<close>, \<open>Watch\<close>: the picture shows the core's table whatever the order of
    what came; what is published is of one moment; each subscriber gets what it asked.
  \<^item> \<open>Wire_Enums\<close>, \<open>Wire_Lists\<close>, \<open>Wire_Sample\<close>, \<open>Wire_Events\<close>: encoding and decoding,
    field by field; what is sent arrives, and a delta on lists one does not hold is refused.
    \<open>Versions\<close>: an agent is asked for nothing that came after it.
  \<^item> \<open>Rpc\<close>, \<open>Remote\<close>: the bounds of the service, conditional answers, the sample a peer takes,
    with or without gaps, and a remote client that sees what a local one does, save that a
    sample tells the period asked for. \<open>Streaming\<close>: the loops that tell one item after the
    other and the listeners that hand them to a reader, who reads them in order and whole.
  \<^item> \<open>Services\<close>, \<open>Inventory\<close>, \<open>Service_Watch\<close>: commands, which reach only what they name; the scan
    of the services, told as they are configured; and the thread that follows single ones,
    of which the picture has the last status known and the SCM is to tell every state but
    the one last notified.
  \<^item> \<open>Lifecycle\<close>: the service's start, told step by step, its recovery and its removal.
    \<open>Http\<close>: what the state API answers, and the costs of the agent's spans.

  \<^bold>\<open>How the code's effects are modelled.\<close> State is a record handed on. A fallible
  function returns an option or a sum. What Windows, ETW or capnp answer is an argument,
  and what is relied on of it a named hypothesis. Threads that share a lock or a channel
  are the order in which their operations happen: \<open>table_reach\<close>, \<open>feed_reach\<close>,
  \<open>kernel_reach\<close>, \<open>history_reach\<close> and the like are inductive, with a rule per operation, and
  the invariants hold for every order. A message is the values its getters give.

  \<^bold>\<open>Bounds.\<close> Loops over lists are folds. The read of the process list tries as often as the
  list grows, with the fuel that \<open>read_ends\<close> shows to be enough; the join of a remote
  session's lists tries \<open>JOIN_ATTEMPTS\<close> times as the code does. A query into a buffer that
  grows tries three or four times and a restart looks three hundred times, as the code
  does. Taking over the directory of the agent's files starts over only when others make
  it meanwhile; its fuel is one where nobody does.

  \<^bold>\<open>Not modelled.\<close> Bindings to Windows (\<^verbatim>\<open>bindings.rs\<close>) are declarations. The ETW library,
  capnp, tokio, axum, serde and the agent kit (boards, monitors, notifications) are third
  parties: what is used of them is an argument, with its laws as hypotheses. Starting the
  trace sessions, connecting a pipe, the I/O thread of the remote sessions and the routes
  of the HTTP API are calls of theirs. The product of a clock and a percentage is taken in
  floating point and is an argument. \<^verbatim>\<open>main\<close>, the log, the enum that hands a call on to the
  agent in process or the remote one (\<^verbatim>\<open>agent.rs\<close>), tests, examples and the build task are
  glue or not part of the program.
\<close>

end
